(* ===== verification/Flux_Prelude.thy ===== *)
theory Flux_Prelude
  imports Complex_Main "HOL-Library.AList" "HOL-Library.Sublist"
begin

text \<open>
  Shared vocabulary of the development: the outcome type of Go code that may panic,
  the dynamic Go values (\<^verbatim>\<open>any\<close>) that flow through a workflow, the string keys of
  activated edges, and the generic lemmas the component theories use.
\<close>

named_theorems exec_simps \<open>rewrite rules for sequenced executions\<close>
named_theorems ctx_frame \<open>fields that an operation on the run context leaves alone\<close>

subsection \<open>Executions that may panic\<close>

text \<open>
  A Go function either returns or panics. A returned Go \<^verbatim>\<open>error\<close> is an ordinary value,
  so functions that return one yield a pair of the error (an option) and the mutated
  state.
\<close>

datatype 'a exec = Panic string | Ret 'a

fun bind_exec :: "'a exec \<Rightarrow> ('a \<Rightarrow> 'b exec) \<Rightarrow> 'b exec" where
  "bind_exec (Panic m) f = Panic m"
| "bind_exec (Ret a) f = f a"

lemma bind_exec_Ret_iff [exec_simps]:
  "bind_exec m f = Ret b \<longleftrightarrow> (\<exists>a. m = Ret a \<and> f a = Ret b)"
  by (cases m) auto

lemma bind_exec_assoc: "bind_exec (bind_exec m f) g = bind_exec m (\<lambda>x. bind_exec (f x) g)"
  by (cases m) auto

lemma bind_exec_cong [fundef_cong]:
  "m = m' \<Longrightarrow> (\<And>a. m' = Ret a \<Longrightarrow> f a = f' a) \<Longrightarrow> bind_exec m f = bind_exec m' f'"
  by (cases m') auto

type_synonym go_error = string

subsection \<open>Dynamic values\<close>

text \<open>
  \<^verbatim>\<open>any\<close> values as the engine handles them: JSON-like data. A Go map is an association
  list read with \<^const>\<open>map_of\<close> and written with \<^const>\<open>AList.update\<close>; a nil map is
  \<open>None\<close> where the code distinguishes it from an empty one.
\<close>

datatype gval =
    VNil
  | VBool bool
  | VInt int
  | VFloat rat
  | VStr string
  | VList "gval list"
  | VMap "(string \<times> gval) list"

type_synonym gmap = "(string \<times> gval) list"
type_synonym name = string

definition mlen :: "gmap option \<Rightarrow> nat" where
  "mlen m = (case m of None \<Rightarrow> 0 | Some kvs \<Rightarrow> length kvs)"

lemma mlen_pos [simp]: "0 < mlen m \<longleftrightarrow> (\<exists>kv kvs. m = Some (kv # kvs))"
  by (auto simp: mlen_def neq_Nil_conv split: option.splits)

definition gget :: "gmap option \<Rightarrow> string \<Rightarrow> gval option" where
  "gget m k = (case m of None \<Rightarrow> None | Some kvs \<Rightarrow> map_of kvs k)"

subsection \<open>Keys of activated edges\<close>

text \<open>
  The engine identifies an edge by the string \<^verbatim>\<open>from + "->" + to\<close>. The string determines
  the edge only as long as no source name contains the arrow itself.
\<close>

definition edge_key :: "name \<Rightarrow> name \<Rightarrow> string" where
  "edge_key p c = p @ ''->'' @ c"

fun has_arrow :: "string \<Rightarrow> bool" where
  "has_arrow (a # b # s) \<longleftrightarrow> (a = CHR ''-'' \<and> b = CHR ''>'') \<or> has_arrow (b # s)"
| "has_arrow _ \<longleftrightarrow> False"

lemma has_arrow_append: "has_arrow (xs @ ''->'' @ ys)"
proof (induction xs)
  case Nil
  show ?case by simp
next
  case (Cons a xs)
  then show ?case by (cases "xs @ ''->'' @ ys") auto
qed

lemma edge_key_prefix_unique:
  assumes "p @ ''->'' @ c = p' @ ''->'' @ c'" and "\<not> has_arrow p'" and "length p \<le> length p'"
  shows "p = p' \<and> c = c'"
proof -
  from assms(1,3) obtain r where p': "p' = p @ r" and r: "''->'' @ c = r @ ''->'' @ c'"
    by (auto simp: append_eq_append_conv2 append_eq_append_conv_if)
  show ?thesis
  proof (cases r)
    case Nil
    with p' r show ?thesis by simp
  next
    case (Cons a s)
    with r have a: "a = CHR ''-''" by simp
    show ?thesis
    proof (cases s)
      case Nil
      with Cons r have "CHR ''>'' = CHR ''-''" by simp
      then show ?thesis by simp
    next
      case (Cons b t)
      with \<open>r = a # s\<close> r have "r = ''->'' @ t" by simp
      with p' have "has_arrow p'" using has_arrow_append [of p t] by simp
      with assms(2) show ?thesis by simp
    qed
  qed
qed

lemma edge_key_inj:
  assumes "edge_key p c = edge_key p' c'" and "\<not> has_arrow p" and "\<not> has_arrow p'"
  shows "p = p' \<and> c = c'"
proof (cases "length p \<le> length p'")
  case True
  with edge_key_prefix_unique [of p c p' c'] assms show ?thesis
    by (simp add: edge_key_def)
next
  case False
  with edge_key_prefix_unique [of p' c' p c] assms show ?thesis
    by (simp add: edge_key_def)
qed

lemma edge_key_eq_iff:
  "\<not> has_arrow p \<Longrightarrow> \<not> has_arrow p' \<Longrightarrow> edge_key p c = edge_key p' c' \<longleftrightarrow> p = p' \<and> c = c'"
  using edge_key_inj by blast

subsection \<open>Go strings\<close>

text \<open>
  \<^verbatim>\<open>strconv.FormatInt\<close> in base ten, and \<^verbatim>\<open>strings.TrimSpace\<close> and \<^verbatim>\<open>strings.Trim\<close> on ASCII text.
\<close>

fun nat_digits :: "nat \<Rightarrow> nat \<Rightarrow> string" where
  "nat_digits fuel n = (if n < 10 \<or> fuel = 0 then [char_of (48 + n mod 10)]
     else nat_digits (fuel - 1) (n div 10) @ [char_of (48 + n mod 10)])"

definition FormatInt :: "int \<Rightarrow> string" where
  "FormatInt k = (if k < 0 then ''-'' @ nat_digits (nat (- k)) (nat (- k)) else nat_digits (nat k) (nat k))"

declare nat_digits.simps [simp del]

definition is_space :: "char \<Rightarrow> bool" where
  "is_space ch \<longleftrightarrow> of_char ch \<in> {9, 10, 11, 12, 13, 32 :: nat}"

definition trim_by :: "(char \<Rightarrow> bool) \<Rightarrow> string \<Rightarrow> string" where
  "trim_by P s = rev (dropWhile P (rev (dropWhile P s)))"

definition TrimSpace :: "string \<Rightarrow> string" where
  "TrimSpace s = trim_by is_space s"

lemma trim_by_id:
  assumes "s \<noteq> []" and "\<not> P (hd s)" and "\<not> P (last s)"
  shows "trim_by P s = s"
proof -
  from assms have "dropWhile P s = s" "dropWhile P (rev s) = rev s"
    by (auto simp: dropWhile_eq_self_iff hd_rev)
  then show ?thesis by (simp add: trim_by_def)
qed

subsection \<open>Lists\<close>

lemma count_list_filter_split:
  "length (filter (\<lambda>x. P x \<and> x \<noteq> a) xs) + (if P a then count_list xs a else 0)
     = length (filter P xs)"
  by (induction xs) auto

lemma takeWhile_neq_less: "x \<in> set ys \<Longrightarrow> length (takeWhile (\<lambda>y. y \<noteq> x) ys) < length ys"
  by (induction ys) auto

lemma count_list_snoc: "count_list (xs @ [x]) y = count_list xs y + (if x = y then 1 else 0)"
  by simp

lemma set_map_filter: "set (List.map_filter f xs) = {y. \<exists>x\<in>set xs. f x = Some y}"
  by (force simp: List.map_filter_def)

end
