(* ===== verification/Flux_Ids.thy ===== *)
theory Flux_Ids
  imports Flux_Prelude "HOL-Library.Word"
begin

unbundle bit_operations_syntax

text \<open>
  \<^verbatim>\<open>utils/uuid\<close> (and its copy \<^verbatim>\<open>pkg/uuid\<close>): the table-driven 16-bit checksum of a key and the
  permutation of its characters. The checksum is proved equal to the bit-by-bit division
  by the polynomial, and the permutation is proved to have the inverse the code gives it.
\<close>

subsection \<open>The checksum tables\<close>

record crc_table =
  entries :: "16 word list"
  reversed :: bool
  noXOR :: bool

text \<open>The body of the inner loop of \<^verbatim>\<open>makeTable\<close> and of \<^verbatim>\<open>makeBitsReversedTable\<close>.\<close>

definition crc_shift :: "16 word \<Rightarrow> 16 word \<Rightarrow> 16 word" where
  "crc_shift poly crc = (if crc AND 1 = 1 then drop_bit 1 crc XOR poly else drop_bit 1 crc)"

definition crc_shift_rev :: "16 word \<Rightarrow> 16 word \<Rightarrow> 16 word" where
  "crc_shift_rev poly crc =
     (if crc AND push_bit 15 1 \<noteq> 0 then push_bit 1 crc XOR poly else push_bit 1 crc)"

definition makeTable :: "16 word \<Rightarrow> crc_table" where
  "makeTable poly = \<lparr>entries = map (\<lambda>i. (crc_shift poly ^^ 8) (of_nat i)) [0..<256],
     reversed = False, noXOR = False\<rparr>"

definition makeBitsReversedTable :: "16 word \<Rightarrow> crc_table" where
  "makeBitsReversedTable poly =
     \<lparr>entries = map (\<lambda>i. (crc_shift_rev poly ^^ 8) (push_bit 8 (of_nat i))) [0..<256],
      reversed = True, noXOR = False\<rparr>"

definition MakeTableNoXOR :: "16 word \<Rightarrow> crc_table" where
  "MakeTableNoXOR poly = (makeTable poly)\<lparr>noXOR := True\<rparr>"

definition tab_at :: "crc_table \<Rightarrow> 8 word \<Rightarrow> 16 word" where
  "tab_at tab b = entries tab ! unat b"

fun updateBitsReversed :: "16 word \<Rightarrow> crc_table \<Rightarrow> 8 word list \<Rightarrow> 16 word" where
  "updateBitsReversed crc tab [] = crc"
| "updateBitsReversed crc tab (v # p) =
     updateBitsReversed (tab_at tab (ucast (drop_bit 8 crc) XOR v) XOR push_bit 8 crc) tab p"

fun updateNoXOR :: "16 word \<Rightarrow> crc_table \<Rightarrow> 8 word list \<Rightarrow> 16 word" where
  "updateNoXOR crc tab [] = crc"
| "updateNoXOR crc tab (v # p) =
     updateNoXOR (tab_at tab (ucast crc XOR v) XOR drop_bit 8 crc) tab p"

text \<open>\<^verbatim>\<open>update\<close> repeats the loop of \<^verbatim>\<open>updateNoXOR\<close> between two complements.\<close>

definition update_crc :: "16 word \<Rightarrow> crc_table \<Rightarrow> 8 word list \<Rightarrow> 16 word" where
  "update_crc crc tab p = NOT (updateNoXOR (NOT crc) tab p)"

definition Update :: "16 word \<Rightarrow> crc_table \<Rightarrow> 8 word list \<Rightarrow> 16 word" where
  "Update crc tab p =
     (if reversed tab then updateBitsReversed crc tab p
      else if noXOR tab then updateNoXOR crc tab p
      else update_crc crc tab p)"

definition KEYTable :: crc_table where "KEYTable = makeTable 0x80e2"

definition hex_digit :: "nat \<Rightarrow> char" where
  "hex_digit k = (if k < 10 then char_of (48 + k) else char_of (55 + k))"

definition hex4 :: "16 word \<Rightarrow> string" where
  "hex4 w = map (\<lambda>i. hex_digit (unat (drop_bit (4 * i) w) mod 16)) [3, 2, 1, 0]"

definition ChecksumKey :: "8 word list \<Rightarrow> string" where
  "ChecksumKey data = hex4 (Update 0 KEYTable data)"

subsection \<open>The permutation of a key\<close>

definition getPbox :: "char \<Rightarrow> nat list" where
  "getPbox ch =
     (if ch = CHR ''A'' then [3, 10, 11, 8, 9, 4, 15, 14, 6, 13, 1, 7, 2, 5, 0, 12, 16]
      else if ch = CHR ''C'' then [12, 9, 6, 0, 4, 11, 8, 5, 7, 2, 15, 10, 1, 3, 14, 13, 16]
      else if ch = CHR ''3'' then [2, 10, 14, 0, 15, 12, 11, 8, 1, 4, 7, 13, 9, 3, 5, 6, 16]
      else if ch = CHR ''B'' then [12, 13, 5, 10, 4, 8, 11, 9, 15, 3, 1, 14, 7, 0, 6, 2, 16]
      else if ch = CHR ''D'' then [10, 8, 13, 12, 0, 15, 4, 6, 7, 3, 9, 14, 2, 5, 11, 1, 16]
      else if ch = CHR ''E'' then [2, 1, 0, 12, 10, 14, 6, 3, 15, 4, 13, 7, 5, 9, 11, 8, 16]
      else if ch = CHR ''F'' then [11, 3, 4, 12, 5, 8, 15, 6, 13, 2, 9, 1, 14, 0, 7, 10, 16]
      else if ch = CHR ''1'' then [3, 5, 10, 1, 0, 13, 7, 15, 9, 14, 11, 8, 4, 6, 2, 12, 16]
      else if ch = CHR ''2'' then [13, 11, 4, 12, 8, 5, 9, 6, 1, 2, 3, 14, 0, 7, 15, 10, 16]
      else if ch = CHR ''9'' then [0, 13, 11, 9, 2, 15, 5, 10, 12, 3, 6, 4, 14, 1, 8, 7, 16]
      else if ch = CHR ''5'' then [2, 0, 6, 11, 15, 5, 7, 13, 8, 12, 9, 1, 3, 4, 14, 10, 16]
      else if ch = CHR ''6'' then [10, 14, 7, 8, 3, 15, 4, 5, 11, 12, 13, 0, 9, 2, 1, 6, 16]
      else if ch = CHR ''8'' then [10, 4, 6, 15, 3, 0, 13, 1, 8, 2, 14, 7, 11, 12, 9, 5, 16]
      else if ch = CHR ''7'' then [10, 0, 9, 15, 8, 13, 3, 11, 4, 6, 12, 5, 14, 1, 7, 2, 16]
      else [12, 2, 15, 13, 6, 7, 1, 5, 3, 4, 9, 0, 11, 10, 8, 14, 16])"

text \<open>
  Strings are ASCII here, so bytes and runes coincide. The loops run over the 17 entries of
  the box; an entry outside of the string is an index panic, and positions past the box
  keep the zero rune.
\<close>

fun shuffle_loop :: "string \<Rightarrow> nat \<Rightarrow> nat list \<Rightarrow> string \<Rightarrow> string exec" where
  "shuffle_loop runes i [] acc = Ret acc"
| "shuffle_loop runes i (j # js) acc =
     (if i < length acc \<and> j < length runes then shuffle_loop runes (Suc i) js (acc[i := runes ! j])
      else Panic ''index out of range'')"

fun unshuffle_loop :: "string \<Rightarrow> nat \<Rightarrow> nat list \<Rightarrow> string \<Rightarrow> string exec" where
  "unshuffle_loop runes i [] acc = Ret acc"
| "unshuffle_loop runes i (j # js) acc =
     (if i < length runes \<and> j < length acc then unshuffle_loop runes (Suc i) js (acc[j := runes ! i])
      else Panic ''index out of range'')"

definition shuffleString :: "string \<Rightarrow> string exec" where
  "shuffleString str =
     (if str = [] then Panic ''index out of range''
      else shuffle_loop str 0 (getPbox (last str)) (replicate (length str) (char_of (0::nat))))"

definition unshuffleString :: "string \<Rightarrow> string exec" where
  "unshuffleString str =
     (if str = [] then Panic ''index out of range''
      else unshuffle_loop str 0 (getPbox (last str)) (replicate (length str) (char_of (0::nat))))"


subsection \<open>One shift is linear\<close>

lemma xor_right_cancel: "a XOR c = b XOR c \<Longrightarrow> a = (b :: 16 word)"
proof -
  assume "a XOR c = b XOR c"
  then have "(a XOR c) XOR c = (b XOR c) XOR c" by simp
  then show ?thesis by (simp add: xor.assoc)
qed

lemma xor_left_cancel: "c XOR a = c XOR b \<Longrightarrow> a = (b :: 16 word)"
  by (rule xor_right_cancel [of a c b]) (simp add: xor.commute)

lemma odd_mask: "(w::16 word) AND 1 = 1 \<longleftrightarrow> bit w 0"
  by (simp add: and_one_eq bit_0 odd_iff_mod_2_eq_one)

lemma top_mask: "(w::16 word) AND push_bit 15 1 \<noteq> 0 \<longleftrightarrow> bit w 15"
  by (simp only: push_bit_of_1 and_exp_eq_0_iff_not_bit not_not)

lemma crc_shift_alt: "crc_shift poly w = drop_bit 1 w XOR (if bit w 0 then poly else 0)"
  by (simp add: crc_shift_def odd_mask)

lemma crc_shift_rev_alt: "crc_shift_rev poly w = push_bit 1 w XOR (if bit w 15 then poly else 0)"
  by (simp only: crc_shift_rev_def top_mask) simp

text \<open>
  Both directions of division share their algebra: a step that distributes over exclusive
  or, and that merely moves the word while the end it inspects is zero. Everything about
  the byte-wise table then follows once.
\<close>

locale crc_division =
  fixes step :: "16 word \<Rightarrow> 16 word"
  assumes step_xor: "step (a XOR b) = step a XOR step b"
begin

lemma steps_xor: "(step ^^ k) (a XOR b) = (step ^^ k) a XOR (step ^^ k) b"
  by (induction k) (simp_all add: step_xor)

lemma step_zero: "step 0 = 0"
  using step_xor [of 0 0] by simp

lemma steps_inj:
  assumes "\<And>d. step d = 0 \<Longrightarrow> d = 0" and "(step ^^ k) a = (step ^^ k) b"
  shows "a = b"
proof -
  have z: "(step ^^ k) d = 0 \<Longrightarrow> d = 0" for d
    by (induction k) (simp_all add: assms(1))
  from assms(2) have "(step ^^ k) (a XOR b) = 0" by (simp add: steps_xor)
  then have "a XOR b = 0" by (rule z)
  then have "a XOR b = b XOR b" by simp
  then show ?thesis by (rule xor_right_cancel)
qed

end

interpretation lsb_first: crc_division "crc_shift poly" for poly
proof (unfold_locales)
  fix a b :: "16 word"
  show "crc_shift poly (a XOR b) = crc_shift poly a XOR crc_shift poly b"
    by (rule bit_word_eqI) (auto simp: crc_shift_alt bit_xor_iff bit_drop_bit_eq)
qed

interpretation msb_first: crc_division "crc_shift_rev poly" for poly
proof (unfold_locales)
  fix a b :: "16 word"
  show "crc_shift_rev poly (a XOR b) = crc_shift_rev poly a XOR crc_shift_rev poly b"
    by (rule bit_word_eqI) (auto simp: crc_shift_rev_alt bit_xor_iff bit_push_bit_iff)
qed

lemma crc_shift_moves:
  assumes "\<And>i. i < k \<Longrightarrow> \<not> bit w i"
  shows "(crc_shift poly ^^ k) w = drop_bit k w"
  using assms
proof (induction k)
  case 0
  then show ?case by simp
next
  case (Suc k)
  then have "(crc_shift poly ^^ Suc k) w = crc_shift poly (drop_bit k w)" by simp
  also have "\<dots> = drop_bit (Suc k) w"
    using Suc.prems [of k] by (simp add: crc_shift_alt bit_drop_bit_eq)
  finally show ?case .
qed

lemma crc_shift_rev_moves:
  assumes "\<And>i. i < k \<Longrightarrow> \<not> bit w (15 - i)" and "k \<le> 15"
  shows "(crc_shift_rev poly ^^ k) w = push_bit k w"
  using assms
proof (induction k)
  case 0
  then show ?case by simp
next
  case (Suc k)
  then have "(crc_shift_rev poly ^^ Suc k) w = crc_shift_rev poly (push_bit k w)" by simp
  also have "\<dots> = push_bit (Suc k) w"
    using Suc.prems(1) [of k] Suc.prems(2) by (simp add: crc_shift_rev_alt bit_push_bit_iff)
  finally show ?case .
qed

subsection \<open>The table against bitwise division\<close>

definition crc_bitwise :: "16 word \<Rightarrow> 16 word \<Rightarrow> 8 word list \<Rightarrow> 16 word" where
  "crc_bitwise poly crc p = foldl (\<lambda>w v. (crc_shift poly ^^ 8) (w XOR ucast v)) crc p"

definition crc_bitwise_rev :: "16 word \<Rightarrow> 16 word \<Rightarrow> 8 word list \<Rightarrow> 16 word" where
  "crc_bitwise_rev poly crc p =
     foldl (\<lambda>w v. (crc_shift_rev poly ^^ 8) (w XOR push_bit 8 (ucast v))) crc p"

lemma byte_index: "unat (b :: 8 word) < 256"
  using unsigned_less [of b] by simp

lemma tab_at_makeTable:
  "entries tab = entries (makeTable poly) \<Longrightarrow> tab_at tab b = (crc_shift poly ^^ 8) (ucast b)"
  using byte_index [of b] by (simp add: tab_at_def makeTable_def)

lemma tab_at_reversed:
  "tab_at (makeBitsReversedTable poly) b = (crc_shift_rev poly ^^ 8) (push_bit 8 (ucast b))"
  using byte_index [of b] by (simp add: tab_at_def makeBitsReversedTable_def)

lemma table_byte:
  assumes "entries tab = entries (makeTable poly)"
  shows "tab_at tab (ucast w XOR v) XOR drop_bit 8 w = (crc_shift poly ^^ 8) (w XOR ucast v)"
proof -
  define h where "h = push_bit 8 (drop_bit 8 w)"
  have split: "w XOR ucast v = ucast (ucast w XOR v :: 8 word) XOR h"
    by (rule bit_word_eqI)
      (auto simp: h_def bit_xor_iff bit_push_bit_iff bit_drop_bit_eq bit_unsigned_iff)
  have "(crc_shift poly ^^ 8) h = drop_bit 8 h"
    by (rule crc_shift_moves) (simp add: h_def bit_push_bit_iff)
  moreover have "drop_bit 8 h = drop_bit 8 w"
    by (rule bit_word_eqI) (auto simp: h_def bit_drop_bit_eq bit_push_bit_iff dest: bit_imp_le_length)
  ultimately show ?thesis
    by (simp only: split lsb_first.steps_xor tab_at_makeTable [OF assms])
qed

lemma table_byte_rev:
  "tab_at (makeBitsReversedTable poly) (ucast (drop_bit 8 w) XOR v) XOR push_bit 8 w
     = (crc_shift_rev poly ^^ 8) (w XOR push_bit 8 (ucast v))"
proof -
  define h where "h = take_bit 8 w"
  have split: "w XOR push_bit 8 (ucast v) = push_bit 8 (ucast (ucast (drop_bit 8 w) XOR v :: 8 word)) XOR h"
    by (rule bit_word_eqI)
      (auto simp: h_def bit_xor_iff bit_push_bit_iff bit_drop_bit_eq bit_unsigned_iff bit_take_bit_iff)
  have "(crc_shift_rev poly ^^ 8) h = push_bit 8 h"
    by (rule crc_shift_rev_moves) (auto simp: h_def bit_take_bit_iff)
  moreover have "push_bit 8 h = push_bit 8 w"
    by (rule bit_word_eqI) (auto simp: h_def bit_push_bit_iff bit_take_bit_iff)
  ultimately show ?thesis
    by (simp only: split msb_first.steps_xor tab_at_reversed)
qed

lemma updateNoXOR_bitwise:
  "entries tab = entries (makeTable poly) \<Longrightarrow> updateNoXOR crc tab p = crc_bitwise poly crc p"
  by (induction p arbitrary: crc) (simp_all add: crc_bitwise_def table_byte)

lemma updateBitsReversed_bitwise:
  "updateBitsReversed crc (makeBitsReversedTable poly) p = crc_bitwise_rev poly crc p"
  by (induction p arbitrary: crc) (simp_all add: crc_bitwise_rev_def table_byte_rev)

lemma update_crc_bitwise:
  "entries tab = entries (makeTable poly) \<Longrightarrow> update_crc crc tab p = NOT (crc_bitwise poly (NOT crc) p)"
  by (simp add: update_crc_def updateNoXOR_bitwise)

lemma crc_shift_zero: "bit poly 15 \<Longrightarrow> crc_shift poly d = 0 \<Longrightarrow> d = 0"
proof (rule bit_word_eqI)
  fix n
  assume top: "bit poly 15" and z: "crc_shift poly d = 0" and "n < LENGTH(16)"
  have "bit (crc_shift poly d) i \<longleftrightarrow> bit d (Suc i) \<noteq> (bit d 0 \<and> bit poly i)" for i
    by (simp add: crc_shift_alt bit_xor_iff bit_drop_bit_eq)
  with z have eq: "bit d (Suc i) \<longleftrightarrow> bit d 0 \<and> bit poly i" for i by simp
  have "\<not> bit d 16" by (auto dest: bit_imp_le_length)
  with eq [of 15] top have "\<not> bit d 0" by simp
  with eq show "bit d n \<longleftrightarrow> bit 0 n" by (cases n) simp_all
qed

lemma crc_byte_inj:
  assumes "bit poly 15" and "(crc_shift poly ^^ 8) a = (crc_shift poly ^^ 8) b"
  shows "a = b"
  using crc_shift_zero [OF assms(1)] assms(2) by (rule lsb_first.steps_inj)

lemma crc_bitwise_append: "crc_bitwise poly crc (p @ q) = crc_bitwise poly (crc_bitwise poly crc p) q"
  by (simp add: crc_bitwise_def)

lemma crc_bitwise_Cons:
  "crc_bitwise poly crc (v # p) = crc_bitwise poly ((crc_shift poly ^^ 8) (crc XOR ucast v)) p"
  by (simp add: crc_bitwise_def)

lemma crc_bitwise_inj:
  "bit poly 15 \<Longrightarrow> crc_bitwise poly a p = crc_bitwise poly b p \<Longrightarrow> a = b"
proof (induction p arbitrary: a b)
  case Nil
  then show ?case by (simp add: crc_bitwise_def)
next
  case (Cons v p)
  from Cons.IH [OF Cons.prems(1)] Cons.prems(2)
  have "(crc_shift poly ^^ 8) (a XOR ucast v) = (crc_shift poly ^^ 8) (b XOR ucast v)"
    by (simp only: crc_bitwise_Cons)
  with Cons.prems(1) have "a XOR ucast v = b XOR ucast v" by (rule crc_byte_inj)
  then show ?case by (rule xor_right_cancel)
qed

text \<open>A change of one byte changes the remainder.\<close>

lemma crc_bitwise_detects:
  assumes "bit poly 15" and "v \<noteq> v'"
  shows "crc_bitwise poly crc (p @ v # q) \<noteq> crc_bitwise poly crc (p @ v' # q)"
proof
  let ?c = "crc_bitwise poly crc p"
  assume "crc_bitwise poly crc (p @ v # q) = crc_bitwise poly crc (p @ v' # q)"
  then have "crc_bitwise poly ((crc_shift poly ^^ 8) (?c XOR ucast v)) q
      = crc_bitwise poly ((crc_shift poly ^^ 8) (?c XOR ucast v')) q"
    by (simp only: crc_bitwise_append crc_bitwise_Cons)
  with assms(1) have "(crc_shift poly ^^ 8) (?c XOR ucast v) = (crc_shift poly ^^ 8) (?c XOR ucast v')"
    by (rule crc_bitwise_inj)
  with assms(1) have "?c XOR ucast v = ?c XOR ucast v'" by (rule crc_byte_inj)
  then have "(ucast v :: 16 word) = ucast v'" by (rule xor_left_cancel)
  then have eq: "bit (ucast v :: 16 word) n \<longleftrightarrow> bit (ucast v' :: 16 word) n" for n by simp
  have "v = v'"
  proof (rule bit_word_eqI)
    fix n
    assume "n < LENGTH(8)"
    then show "bit v n \<longleftrightarrow> bit v' n" using eq [of n] by (simp add: bit_unsigned_iff)
  qed
  with assms(2) show False by simp
qed

subsection \<open>The printed checksum\<close>

lemma hex_digit_inj: "a < 16 \<Longrightarrow> b < 16 \<Longrightarrow> hex_digit a = hex_digit b \<Longrightarrow> a = b"
proof -
  assume "a < 16" "b < 16" "hex_digit a = hex_digit b"
  then have "of_char (hex_digit a) = (of_char (hex_digit b) :: nat)" by simp
  with \<open>a < 16\<close> \<open>b < 16\<close> show "a = b"
    by (auto simp: hex_digit_def split: if_splits)
qed

lemma nibbles_eq:
  fixes a b :: nat
  assumes "a < 65536" and "b < 65536"
    and "a div 4096 mod 16 = b div 4096 mod 16" and "a div 256 mod 16 = b div 256 mod 16"
    and "a div 16 mod 16 = b div 16 mod 16" and "a mod 16 = b mod 16"
  shows "a = b"
proof -
  have step: "m mod 16 = n mod 16 \<Longrightarrow> m div 16 = n div 16 \<Longrightarrow> m = n" for m n :: nat
    by (metis div_mult_mod_eq)
  have dd: "m div 256 = m div 16 div 16" "m div 4096 = m div 16 div 16 div 16" for m :: nat
    by (simp_all flip: div_mult2_eq)
  have lt: "m < 65536 \<Longrightarrow> m div 4096 < 16" for m :: nat
    by (rule less_mult_imp_div_less) simp
  have "a div 4096 = b div 4096"
    using assms(3) lt [OF assms(1)] lt [OF assms(2)] by (simp only: mod_less)
  then have "a div 16 div 16 = b div 16 div 16"
    using assms(4) by (intro step [of "a div 16 div 16"]) (simp_all only: dd)
  then have "a div 16 = b div 16"
    using assms(5) by (intro step [of "a div 16"]) (simp_all only: dd)
  then show ?thesis
    using assms(6) by (intro step [of a])
qed

lemma hex4_inj:
  assumes "hex4 w = hex4 w'"
  shows "w = w'"
proof -
  have d: "unat (drop_bit k x) mod 16 = unat x div 2 ^ k mod 16" for k and x :: "16 word"
    by (subst unat_drop_bit_eq) (simp only: drop_bit_eq_div)
  have dg: "unat (drop_bit (4 * i) w) mod 16 = unat (drop_bit (4 * i) w') mod 16" if "i \<in> {0, 1, 2, 3}" for i
    using assms that by (intro hex_digit_inj) (auto simp: hex4_def)
  have "unat w < 65536" "unat w' < 65536"
    using unsigned_less [of w] unsigned_less [of w'] by simp_all
  moreover have "unat w div 4096 mod 16 = unat w' div 4096 mod 16" using dg [of 3] by (simp add: d)
  moreover have "unat w div 256 mod 16 = unat w' div 256 mod 16" using dg [of 2] by (simp add: d)
  moreover have "unat w div 16 mod 16 = unat w' div 16 mod 16" using dg [of 1] by (simp add: d)
  moreover have "unat w mod 16 = unat w' mod 16" using dg [of 0] by (simp add: d)
  ultimately have "unat w = unat w'" by (rule nibbles_eq)
  then show ?thesis by (rule unsigned_word_eqI)
qed

subsection \<open>The permutation and its inverse\<close>

lemma shuffle_loop_Ret:
  "i + length js \<le> length acc \<Longrightarrow> (\<forall>j\<in>set js. j < length runes) \<Longrightarrow>
     shuffle_loop runes i js acc = Ret (take i acc @ map ((!) runes) js @ drop (i + length js) acc)"
proof (induction js arbitrary: i acc)
  case Nil
  then show ?case by simp
next
  case (Cons j js)
  then show ?case
    by (simp add: take_Suc_conv_app_nth upd_conv_take_nth_drop add.commute)
qed

lemma unshuffle_loop_Ret:
  assumes "i + length js \<le> length runes" and "\<forall>j\<in>set js. j < length acc" and "distinct js"
  shows "\<exists>r. unshuffle_loop runes i js acc = Ret r \<and> length r = length acc
    \<and> (\<forall>k<length js. r ! (js ! k) = runes ! (i + k)) \<and> (\<forall>p. p \<notin> set js \<longrightarrow> r ! p = acc ! p)"
  using assms
proof (induction js arbitrary: i acc)
  case Nil
  then show ?case by simp
next
  case (Cons j js)
  then obtain r where r: "unshuffle_loop runes (Suc i) js (acc[j := runes ! i]) = Ret r"
    "length r = length acc" "\<forall>k<length js. r ! (js ! k) = runes ! (Suc i + k)"
    "\<forall>p. p \<notin> set js \<longrightarrow> r ! p = acc[j := runes ! i] ! p"
    using Cons.IH [of "Suc i" "acc[j := runes ! i]"] by auto
  have "r ! ((j # js) ! k) = runes ! (i + k)" if "k < length (j # js)" for k
    using that r(3,4) Cons.prems by (cases k) auto
  with r Cons.prems show ?case by auto
qed

text \<open>A box permutes the positions of a key and leaves the last one, which selects the box, alone.\<close>

locale key_box =
  fixes box :: "nat list"
  assumes box_length: "length box = 17"
    and box_range: "\<forall>j\<in>set box. j < 17"
    and box_distinct: "distinct box"
    and box_last: "box ! 16 = 16"
begin

lemma box_set: "set box = {0..<17}"
  using box_range box_distinct box_length
  by (intro card_subset_eq) (auto simp: distinct_card)

lemma shuffle_key:
  "length str = 17 \<Longrightarrow> shuffle_loop str 0 box (replicate 17 z) = Ret (map ((!) str) box)"
  by (subst shuffle_loop_Ret) (auto simp: box_length box_set)

lemma unshuffle_key:
  assumes "length str = 17"
  shows "\<exists>r. unshuffle_loop str 0 box (replicate 17 z) = Ret r \<and> length r = 17
    \<and> (\<forall>k<17. r ! (box ! k) = str ! k)"
  using unshuffle_loop_Ret [of 0 box str "replicate 17 z"] assms
  by (auto simp: box_length box_set box_distinct)

lemma same_at_box: "length r = 17 \<Longrightarrow> length s = 17 \<Longrightarrow> (\<forall>k<17. r ! (box ! k) = s ! (box ! k)) \<Longrightarrow> r = s"
proof (rule nth_equalityI)
  fix i
  assume l: "length r = 17" and e: "\<forall>k<17. r ! (box ! k) = s ! (box ! k)" and "i < length r"
  then have "i \<in> set box" by (simp add: box_set)
  then obtain k where "k < 17" "box ! k = i" by (auto simp: in_set_conv_nth box_length)
  with e show "r ! i = s ! i" by auto
qed simp

lemma last_shuffled: "length str = 17 \<Longrightarrow> last (map ((!) str) box) = last str"
proof -
  assume l: "length str = 17"
  with box_length have "box \<noteq> []" "str \<noteq> []" by auto
  with l show ?thesis by (simp add: last_conv_nth box_length box_last)
qed

end

interpretation pbox: key_box "getPbox ch" for ch
  by unfold_locales (simp_all add: getPbox_def)

lemma shuffle_loop_Panic:
  "j \<in> set js \<Longrightarrow> length runes \<le> j \<Longrightarrow> \<exists>m. shuffle_loop runes i js acc = Panic m"
  by (induction js arbitrary: i acc) auto

lemma unshuffle_loop_Panic:
  "j \<in> set js \<Longrightarrow> length acc \<le> j \<Longrightarrow> \<exists>m. unshuffle_loop runes i js acc = Panic m"
  by (induction js arbitrary: i acc) auto

subsection \<open>Properties\<close>

text \<open>
  The lookup tables compute the polynomial remainder: for every polynomial, start value
  and message, the three table-driven update loops agree with dividing bit by bit, from the
  least or from the most significant bit.
\<close>

lemma Update_bitwise:
  "Update crc (makeTable poly) p = NOT (crc_bitwise poly (NOT crc) p)
   \<and> Update crc (MakeTableNoXOR poly) p = crc_bitwise poly crc p
   \<and> Update crc (makeBitsReversedTable poly) p = crc_bitwise_rev poly crc p"
proof -
  have "reversed (makeTable poly) = False" "noXOR (makeTable poly) = False"
    "reversed (makeBitsReversedTable poly)"
    by (simp_all add: makeTable_def makeBitsReversedTable_def)
  then show ?thesis
    by (simp add: Update_def MakeTableNoXOR_def update_crc_bitwise updateNoXOR_bitwise
        updateBitsReversed_bitwise)
qed

text \<open>
  A checksum of a key is four hexadecimal digits, and changing any single byte of the key
  changes it.
\<close>

lemma ChecksumKey_detects:
  assumes "v \<noteq> v'"
  shows "length (ChecksumKey (p @ v # q)) = 4 \<and> ChecksumKey (p @ v # q) \<noteq> ChecksumKey (p @ v' # q)"
proof -
  have key: "Update 0 KEYTable d = NOT (crc_bitwise 0x80e2 (NOT 0) d)" for d
    by (simp add: KEYTable_def Update_def makeTable_def update_crc_bitwise [of _ "0x80e2"])
  have "bit (0x80e2 :: 16 word) 15" by code_simp
  then have "crc_bitwise 0x80e2 (NOT 0) (p @ v # q) \<noteq> crc_bitwise 0x80e2 (NOT 0) (p @ v' # q)"
    using assms by (rule crc_bitwise_detects)
  then have "Update 0 KEYTable (p @ v # q) \<noteq> Update 0 KEYTable (p @ v' # q)" by (simp add: key)
  moreover have "length (hex4 w) = 4" for w by (simp add: hex4_def)
  ultimately show ?thesis by (auto simp: ChecksumKey_def dest: hex4_inj)
qed

lemma ChecksumKey_detects_witness:
  "(7 :: 8 word) \<noteq> 9 \<and> ChecksumKey ([1, 2] @ 7 # [3]) \<noteq> ChecksumKey ([1, 2] @ 9 # [3])"
  using ChecksumKey_detects [of 7 9 "[1, 2]" "[3]"] by simp

text \<open>
  Shuffling a key of the 17 characters the boxes are made for is undone by unshuffling,
  and the other way round; a shorter string is an index panic.
\<close>

lemma shuffle_roundtrip:
  assumes "length str = 17"
  shows "(\<exists>s. shuffleString str = Ret s \<and> unshuffleString s = Ret str)
    \<and> (\<exists>s. unshuffleString str = Ret s \<and> shuffleString s = Ret str)
    \<and> (\<forall>t. length t < 17 \<longrightarrow> (\<exists>m. shuffleString t = Panic m) \<and> (\<exists>m. unshuffleString t = Panic m))"
proof (intro conjI allI impI)
  let ?b = "getPbox (last str)"
  let ?s = "map ((!) str) ?b"
  have ne: "str \<noteq> []" using assms by auto
  have sh: "shuffleString str = Ret ?s"
    using ne assms by (simp add: shuffleString_def pbox.shuffle_key)
  have "?s \<noteq> []" using pbox.box_length [of "last str"] by auto
  moreover have "last ?s = last str" using assms by (rule pbox.last_shuffled)
  moreover have ls: "length ?s = 17" by (simp add: pbox.box_length)
  moreover obtain r where r: "unshuffle_loop ?s 0 ?b (replicate 17 (char_of (0::nat))) = Ret r"
      "length r = 17" "\<forall>k<17. r ! (?b ! k) = ?s ! k"
    using pbox.unshuffle_key [OF ls] by blast
  moreover have "r = str"
    using r assms by (intro pbox.same_at_box [of r str "last str"]) (auto simp: pbox.box_length)
  ultimately show "\<exists>s. shuffleString str = Ret s \<and> unshuffleString s = Ret str"
    using sh by (auto simp: unshuffleString_def)
next
  let ?b = "getPbox (last str)"
  obtain r where r: "unshuffle_loop str 0 ?b (replicate 17 (char_of (0::nat))) = Ret r"
      "length r = 17" "\<forall>k<17. r ! (?b ! k) = str ! k"
    using pbox.unshuffle_key [OF assms] by blast
  have "str \<noteq> []" "r \<noteq> []" using assms r by auto
  have "r ! 16 = str ! 16"
    using r(3) [rule_format, of 16] by (simp add: pbox.box_last)
  with \<open>str \<noteq> []\<close> \<open>r \<noteq> []\<close> have "last r = last str"
    using r(2) assms by (simp add: last_conv_nth)
  moreover have "map ((!) r) ?b = str"
    using r assms by (intro nth_equalityI) (auto simp: pbox.box_length)
  ultimately have "shuffleString r = Ret str"
    using \<open>r \<noteq> []\<close> r(2) by (simp add: shuffleString_def pbox.shuffle_key)
  then show "\<exists>s. unshuffleString str = Ret s \<and> shuffleString s = Ret str"
    using \<open>str \<noteq> []\<close> assms r(1) by (auto simp: unshuffleString_def)
next
  fix t :: string
  assume t: "length t < 17"
  have "16 \<in> set (getPbox (last t))" by (simp add: pbox.box_set)
  with t show "\<exists>m. shuffleString t = Panic m" "\<exists>m. unshuffleString t = Panic m"
    using shuffle_loop_Panic [of 16 "getPbox (last t)" t] unshuffle_loop_Panic [of 16 "getPbox (last t)"]
    by (auto simp: shuffleString_def unshuffleString_def)
qed

lemma shuffle_roundtrip_witness:
  "\<exists>s. shuffleString ''0123456789abcdefA'' = Ret s \<and> unshuffleString s = Ret ''0123456789abcdefA''"
  using shuffle_roundtrip [of "''0123456789abcdefA''"] by simp

end
