(* ===== verification/Flux_Domain.thy ===== *)
theory Flux_Domain
  imports Flux_Prelude
begin

text \<open>
  The persistent entities of \<^verbatim>\<open>domain/\<close>: task, node and await-binding statuses with their
  transition tables, and the records of the rows that the engine reads and writes.
\<close>

subsection \<open>Statuses\<close>

datatype task_status =
  TaskPending | TaskRunning | TaskSuccess | TaskFailed | TaskSuspended | TaskCanceled

datatype node_state =
    NodePending | NodeReady | NodeRunning | NodeAwaiting | NodeRetrying | NodeSuccess
  | NodeFailed | NodeSkipped | NodeCanceled | NodeSuccessPendingEdges | NodeFailedPendingEdges

datatype await_status =
    AwaitBindingPending | AwaitBindingWaiting | AwaitBindingCompleting | AwaitBindingCompleted
  | AwaitBindingFailed | AwaitBindingTimedOut | AwaitBindingCanceled

datatype reuse_kind = ReuseNone | ReuseNode | ReuseMapItems

datatype suspend_reason = SuspendAsyncNode | SuspendSubWorkflow | SuspendWaitingGate

text \<open>The transition tables; a status without an entry has an empty list (a nil slice).\<close>

fun AllowedTransitionsTasks :: "task_status \<Rightarrow> task_status list" where
  "AllowedTransitionsTasks TaskPending = [TaskRunning, TaskCanceled]"
| "AllowedTransitionsTasks TaskRunning = [TaskSuspended, TaskSuccess, TaskFailed, TaskCanceled]"
| "AllowedTransitionsTasks TaskSuspended = [TaskRunning, TaskFailed, TaskCanceled]"
| "AllowedTransitionsTasks _ = []"

fun AllowedTransitionsNodes :: "node_state \<Rightarrow> node_state list" where
  "AllowedTransitionsNodes NodePending = [NodeReady, NodeSkipped]"
| "AllowedTransitionsNodes NodeReady = [NodeRunning, NodeFailed, NodeSkipped]"
| "AllowedTransitionsNodes NodeRunning =
     [NodeAwaiting, NodeSuccess, NodeFailed, NodeRetrying, NodeSkipped]"
| "AllowedTransitionsNodes NodeAwaiting =
     [NodeSuccessPendingEdges, NodeFailedPendingEdges, NodeCanceled]"
| "AllowedTransitionsNodes NodeRetrying = [NodeRunning, NodeFailed, NodeSuccess, NodeSkipped]"
| "AllowedTransitionsNodes NodeSuccessPendingEdges = [NodeSuccess]"
| "AllowedTransitionsNodes NodeFailedPendingEdges = [NodeFailed]"
| "AllowedTransitionsNodes _ = []"

fun AllowedTransitionsAwaitBinding :: "await_status \<Rightarrow> await_status list" where
  "AllowedTransitionsAwaitBinding AwaitBindingPending =
     [AwaitBindingWaiting, AwaitBindingCanceled]"
| "AllowedTransitionsAwaitBinding AwaitBindingWaiting =
     [AwaitBindingCompleting, AwaitBindingTimedOut, AwaitBindingCanceled]"
| "AllowedTransitionsAwaitBinding AwaitBindingCompleting =
     [AwaitBindingCompleted, AwaitBindingFailed]"
| "AllowedTransitionsAwaitBinding _ = []"

text \<open>The three lookups share one loop: search the candidate list.\<close>

fun find_candidate :: "'s list \<Rightarrow> 's \<Rightarrow> bool" where
  "find_candidate [] to = False"
| "find_candidate (c # cs) to = (if c = to then True else find_candidate cs to)"

lemma find_candidate_iff [simp]: "find_candidate cs to \<longleftrightarrow> to \<in> set cs"
  by (induction cs) auto

definition IsAllowedTaskTransition :: "task_status \<Rightarrow> task_status \<Rightarrow> bool" where
  "IsAllowedTaskTransition from to = find_candidate (AllowedTransitionsTasks from) to"

definition isAllowed :: "node_state \<Rightarrow> node_state \<Rightarrow> bool" where
  "isAllowed from to = find_candidate (AllowedTransitionsNodes from) to"

definition IsAllowedAwaitBindingTransition :: "await_status \<Rightarrow> await_status \<Rightarrow> bool" where
  "IsAllowedAwaitBindingTransition from to =
     find_candidate (AllowedTransitionsAwaitBinding from) to"

text \<open>Terminal statuses as the code spells them.\<close>

definition isTerminal :: "node_state \<Rightarrow> bool" where
  "isTerminal s \<longleftrightarrow> s = NodeSuccess \<or> s = NodeFailed \<or> s = NodeSkipped \<or> s = NodeCanceled"

fun isAwaitBindingTerminalStatus :: "await_status \<Rightarrow> bool" where
  "isAwaitBindingTerminalStatus AwaitBindingCompleted = True"
| "isAwaitBindingTerminalStatus AwaitBindingFailed = True"
| "isAwaitBindingTerminalStatus AwaitBindingTimedOut = True"
| "isAwaitBindingTerminalStatus AwaitBindingCanceled = True"
| "isAwaitBindingTerminalStatus _ = False"

subsection \<open>The contract of a status table\<close>

text \<open>
  A status machine is a transition table together with the predicate by which the code
  recognises its final statuses. The promise is that the predicate and the table agree.
\<close>

locale status_machine =
  fixes next_of :: "'s \<Rightarrow> 's list"
    and final :: "'s \<Rightarrow> bool"
  assumes final_iff: "final s \<longleftrightarrow> next_of s = []"
begin

definition steps :: "'s \<Rightarrow> 's \<Rightarrow> bool" where
  "steps = (\<lambda>s t. t \<in> set (next_of s))\<^sup>*\<^sup>*"

lemma final_no_step: "final s \<Longrightarrow> t \<notin> set (next_of s)"
  by (simp add: final_iff)

lemma final_absorbing: "final s \<Longrightarrow> steps s t \<Longrightarrow> t = s"
  unfolding steps_def by (auto elim: converse_rtranclpE simp: final_iff)

lemma not_final_progress: "\<not> final s \<Longrightarrow> \<exists>t. t \<in> set (next_of s)"
  by (metis final_iff last_in_set)

end

text \<open>
  A machine with a rank that every transition lowers cannot run for ever: every chain of
  transitions is at most as long as the rank of its first status.
\<close>

locale ranked_status_machine =
  status_machine next_of final for next_of :: "'s \<Rightarrow> 's list" and final :: "'s \<Rightarrow> bool" +
  fixes rank :: "'s \<Rightarrow> nat"
  assumes rank_less: "t \<in> set (next_of s) \<Longrightarrow> rank t < rank s"
begin

fun chain :: "'s \<Rightarrow> 's list \<Rightarrow> bool" where
  "chain s [] = True"
| "chain s (t # ts) = (t \<in> set (next_of s) \<and> chain t ts)"

lemma chain_bounded: "chain s ts \<Longrightarrow> length ts \<le> rank s"
proof (induction ts arbitrary: s)
  case Nil
  show ?case by simp
next
  case (Cons t ts)
  then have "length ts \<le> rank t" and "rank t < rank s"
    by (auto intro: rank_less)
  then show ?case by simp
qed

lemma no_return: "t \<in> set (next_of s) \<Longrightarrow> \<not> steps t s"
proof
  assume "t \<in> set (next_of s)" and "steps t s"
  have "steps a b \<Longrightarrow> rank b \<le> rank a" for a b
    unfolding steps_def by (induction rule: rtranclp_induct) (auto dest: rank_less)
  from this [OF \<open>steps t s\<close>] have "rank s \<le> rank t" .
  with rank_less [OF \<open>t \<in> set (next_of s)\<close>] show False by simp
qed

end

definition task_final :: "task_status \<Rightarrow> bool" where
  "task_final s \<longleftrightarrow> s \<in> {TaskSuccess, TaskFailed, TaskCanceled}"

interpretation task_machine: status_machine AllowedTransitionsTasks task_final
proof (unfold_locales)
  fix s show "task_final s \<longleftrightarrow> AllowedTransitionsTasks s = []"
    by (cases s) (auto simp: task_final_def)
qed

interpretation node_machine: status_machine AllowedTransitionsNodes isTerminal
proof (unfold_locales)
  fix s show "isTerminal s \<longleftrightarrow> AllowedTransitionsNodes s = []"
    by (cases s) (auto simp: isTerminal_def)
qed

fun await_rank :: "await_status \<Rightarrow> nat" where
  "await_rank AwaitBindingPending = 3"
| "await_rank AwaitBindingWaiting = 2"
| "await_rank AwaitBindingCompleting = 1"
| "await_rank _ = 0"

interpretation await_machine:
  ranked_status_machine AllowedTransitionsAwaitBinding isAwaitBindingTerminalStatus await_rank
proof (unfold_locales)
  fix s show "isAwaitBindingTerminalStatus s \<longleftrightarrow> AllowedTransitionsAwaitBinding s = []"
    by (cases s) auto
next
  fix s t show "t \<in> set (AllowedTransitionsAwaitBinding s) \<Longrightarrow> await_rank t < await_rank s"
    by (cases s) auto
qed

subsection \<open>Rows\<close>

record task =
  task_id :: int
  ParentID :: "int option"
  RootID :: int
  Status :: task_status
  InputJSON :: "gmap option"
  OutputJSON :: "gmap option"
  RetryCount :: int
  ErrorMessage :: string
  WorkflowVersionID :: int
  WorkerID :: string
  ParentNode :: "name option"
  MapIndex :: "int option"
  task_Progress :: rat
  BaseRunID :: int
  ForkedFrom :: "int option"
  RunDepth :: int
  ResumeFrom :: "name option"

definition IsTerminal :: "task option \<Rightarrow> bool" where
  "IsTerminal t = (case t of None \<Rightarrow> False | Some t \<Rightarrow>
     (case Status t of TaskSuccess \<Rightarrow> True | TaskFailed \<Rightarrow> True | TaskCanceled \<Rightarrow> True | _ \<Rightarrow> False))"

definition IsActive :: "task option \<Rightarrow> bool" where
  "IsActive t = (case t of None \<Rightarrow> False | Some t \<Rightarrow>
     (case Status t of TaskPending \<Rightarrow> True | TaskRunning \<Rightarrow> True | TaskSuspended \<Rightarrow> True | _ \<Rightarrow> False))"

record node_runtime =
  Name :: name
  State :: node_state
  StartedAt :: "int option"
  FinishedAt :: "int option"
  InputHash :: string
  ResolvedInput :: "gmap option"
  Output :: "gmap option"
  Checkpoint :: "gmap option"
  Error :: string
  Progress :: rat
  Weight :: rat
  Index :: nat
  BizIndex :: nat
  rt_ActivatedEdges :: "string \<rightharpoonup> bool"
  OutputHash :: string
  ReusedFromTaskID :: "int option"
  ReusedFromNode :: "name option"
  IsInjected :: bool
  IsDirty :: bool
  DirtyReason :: string
  ReuseKind :: reuse_kind
  ExecutionReason :: string
  PlanAction :: string

record await_binding =
  ab_TaskID :: int
  ab_RootTaskID :: int
  ab_NodeName :: name
  ab_WorkflowVersionID :: int
  ab_AwaitType :: string
  ab_Source :: string
  ab_Status :: await_status
  ab_Provider :: "string option"
  ab_ProviderTaskID :: "string option"
  ab_APITaskID :: "string option"
  ab_ExternalTaskID :: "string option"
  ab_SignalName :: "string option"
  ab_MessageName :: "string option"
  ab_CallbackToken :: "string option"
  ab_Correlation :: gmap
  ab_Config :: gmap
  ab_LastEventID :: "string option"
  ab_LastEventSource :: "string option"
  ab_LastEventPayload :: "gmap option"
  ab_ResultPayload :: "gmap option"
  ab_ErrorMessage :: string
  ab_FallbackPollEnabled :: bool
  ab_FallbackPollTool :: "string option"
  ab_PollAttempts :: int
  ab_MaxPollAttempts :: int
  ab_LastPolledAt :: "int option"
  ab_NextPollAt :: "int option"
  ab_WaitingStartedAt :: "int option"
  ab_TimeoutAt :: "int option"
  ab_CompletedAt :: "int option"
  ab_FailedAt :: "int option"
  ab_CanceledAt :: "int option"

text \<open>\<^verbatim>\<open>MergeRuntimePreserveMeta\<close>: reuse and dirty marks survive a reload.\<close>

definition MergeRuntimePreserveMeta :: "node_runtime \<Rightarrow> node_runtime \<Rightarrow> node_runtime" where
  "MergeRuntimePreserveMeta dst src = dst
     \<lparr>ReuseKind := (if ReuseKind dst = ReuseNone then ReuseKind src else ReuseKind dst),
      ReusedFromTaskID := (if ReusedFromTaskID dst = None then ReusedFromTaskID src
                           else ReusedFromTaskID dst),
      ReusedFromNode := (if ReusedFromNode dst = None then ReusedFromNode src
                         else ReusedFromNode dst),
      IsInjected := (if \<not> IsInjected dst then IsInjected src else IsInjected dst),
      IsDirty := (if \<not> IsDirty dst then IsDirty src else IsDirty dst),
      DirtyReason := (if \<not> IsDirty dst then DirtyReason src else DirtyReason dst)\<rparr>"

definition clearNodeReuseMetadata :: "node_runtime \<Rightarrow> node_runtime" where
  "clearNodeReuseMetadata rt = rt
     \<lparr>IsInjected := False, ReusedFromTaskID := None, ReusedFromNode := None,
      ReuseKind := (if ReuseKind rt = ReuseNode then ReuseNone else ReuseKind rt)\<rparr>"

subsection \<open>Facts about the tables\<close>

lemma isAllowed_terminal [simp]: "isTerminal s \<Longrightarrow> \<not> isAllowed s t"
  by (simp add: isAllowed_def node_machine.final_no_step)

lemma isAllowed_eqs [simp]:
  "isAllowed NodePending t \<longleftrightarrow> t \<in> {NodeReady, NodeSkipped}"
  "isAllowed NodeReady t \<longleftrightarrow> t \<in> {NodeRunning, NodeFailed, NodeSkipped}"
  "isAllowed NodeRunning t \<longleftrightarrow> t \<in> {NodeAwaiting, NodeSuccess, NodeFailed, NodeRetrying, NodeSkipped}"
  "isAllowed NodeRetrying t \<longleftrightarrow> t \<in> {NodeRunning, NodeFailed, NodeSuccess, NodeSkipped}"
  "isAllowed NodeSuccessPendingEdges t \<longleftrightarrow> t = NodeSuccess"
  "isAllowed NodeFailedPendingEdges t \<longleftrightarrow> t = NodeFailed"
  "isAllowed NodeAwaiting t \<longleftrightarrow> t \<in> {NodeSuccessPendingEdges, NodeFailedPendingEdges, NodeCanceled}"
  by (auto simp: isAllowed_def)

lemma isTerminal_simps [simp]:
  "isTerminal NodeSuccess" "isTerminal NodeFailed" "isTerminal NodeSkipped" "isTerminal NodeCanceled"
  "\<not> isTerminal NodePending" "\<not> isTerminal NodeReady" "\<not> isTerminal NodeRunning"
  "\<not> isTerminal NodeAwaiting" "\<not> isTerminal NodeRetrying" "\<not> isTerminal NodeSuccessPendingEdges"
  "\<not> isTerminal NodeFailedPendingEdges"
  by (simp_all add: isTerminal_def)

end
