(* ===== verification/Flux_Graph.thy ===== *)
theory Flux_Graph
  imports Flux_Domain
begin

text \<open>
  \<^verbatim>\<open>definition/\<close> and \<^verbatim>\<open>engine/graph/\<close>: workflow definitions, the DAG built from them, cycle
  detection by depth-first search and the topological order that the scheduler follows.
  Go visits the keys of a map in an unspecified order, so the loops over a map take the
  visiting order \<open>it\<close> as an argument and the theorems hold for every order.
\<close>

subsection \<open>Workflow definitions\<close>

record edge_def =
  From :: name
  To :: name
  EType :: string
  Condition :: string
  CaseKey :: string
  edge_Label :: string
  Priority :: int

record node_def =
  nd_Name :: name
  nd_Label :: string
  nd_Type :: string
  nd_Weight :: rat
  nd_Version :: string
  nd_InputMapping :: "(string \<times> string) list"
  nd_Config :: gmap

record output_def =
  od_ResultType :: string
  od_PrimaryFileUrl :: string
  od_CoverUrl :: string
  od_PreviewUrl :: string
  od_Width :: string
  od_Height :: string
  od_Duration :: string
  od_Extras :: "(string \<times> string) list"

record workflow_def =
  wf_Name :: string
  wf_Nodes :: "node_def list"
  wf_Edges :: "edge_def list"
  wf_Output :: output_def

definition EdgeNormal :: string where "EdgeNormal = ''normal''"
definition EdgeCondition :: string where "EdgeCondition = ''condition''"

datatype build_error =
    DuplicateNode name
  | EdgeFromMissing name
  | EdgeToMissing name
  | ConditionAndCase name name
  | CycleDetected
  | TopoSortFailed

subsection \<open>graph.Build\<close>

record graph =
  gNodes :: "name \<rightharpoonup> node_def"
  Parents :: "name \<Rightarrow> name list"
  Children :: "name \<Rightarrow> name list"
  Edges :: "name \<Rightarrow> edge_def list"

fun build_nodes :: "node_def list \<Rightarrow> graph \<Rightarrow> build_error + graph" where
  "build_nodes [] g = Inr g"
| "build_nodes (n # ns) g =
     (case gNodes g (nd_Name n) of
        Some _ \<Rightarrow> Inl (DuplicateNode (nd_Name n))
      | None \<Rightarrow> build_nodes ns (g\<lparr>gNodes := (gNodes g)(nd_Name n \<mapsto> n)\<rparr>))"

definition add_edge :: "edge_def \<Rightarrow> graph \<Rightarrow> graph" where
  "add_edge e g = g
     \<lparr>Children := (Children g)(From e := Children g (From e) @ [To e]),
      Parents := (Parents g)(To e := Parents g (To e) @ [From e]),
      Edges := (Edges g)(From e := Edges g (From e) @ [e])\<rparr>"

fun build_edges :: "edge_def list \<Rightarrow> graph \<Rightarrow> build_error + graph" where
  "build_edges [] g = Inr g"
| "build_edges (e # es) g =
     (if gNodes g (From e) = None then Inl (EdgeFromMissing (From e))
      else if gNodes g (To e) = None then Inl (EdgeToMissing (To e))
      else build_edges es (add_edge e g))"

definition empty_graph :: graph where
  "empty_graph = \<lparr>gNodes = Map.empty, Parents = (\<lambda>_. []), Children = (\<lambda>_. []), Edges = (\<lambda>_. [])\<rparr>"

definition Build :: "workflow_def \<Rightarrow> build_error + graph" where
  "Build def =
     (case build_nodes (wf_Nodes def) empty_graph of
        Inl e \<Rightarrow> Inl e
      | Inr g \<Rightarrow> build_edges (wf_Edges def) g)"

text \<open>\<^verbatim>\<open>validateEdges\<close> of \<^verbatim>\<open>workflow/builder.go\<close>, run before \<^verbatim>\<open>graph.Build\<close>.\<close>

fun validate_edge_list :: "name set \<Rightarrow> edge_def list \<Rightarrow> build_error option" where
  "validate_edge_list ns [] = None"
| "validate_edge_list ns (e # es) =
     (if From e \<notin> ns then Some (EdgeFromMissing (From e))
      else if To e \<notin> ns then Some (EdgeToMissing (To e))
      else if Condition e \<noteq> [] \<and> CaseKey e \<noteq> [] then Some (ConditionAndCase (From e) (To e))
      else validate_edge_list ns es)"

definition validateEdges :: "workflow_def \<Rightarrow> build_error option" where
  "validateEdges def = validate_edge_list (set (map nd_Name (wf_Nodes def))) (wf_Edges def)"

subsection \<open>graph.DetectCycle\<close>

text \<open>
  \<open>dfs_children\<close> is the loop over \<^verbatim>\<open>g.Children[node]\<close> inside \<^verbatim>\<open>dfs\<close>; the recursive call for
  an unvisited child marks it visited and on the stack first and takes it off the stack
  when its own loop ends without a cycle. The fuel bounds the depth of the recursion;
  every nested call visits a new node, so one unit per node is enough
  (\<open>dfs_children_fuel\<close>).
\<close>

fun dfs_children ::
  "nat \<Rightarrow> graph \<Rightarrow> name list \<Rightarrow> name set \<Rightarrow> name set \<Rightarrow> (bool \<times> name set \<times> name set) option" where
  "dfs_children fuel g [] vis stk = Some (False, vis, stk)"
| "dfs_children 0 g (c # cs) vis stk =
     (if c \<notin> vis then None
      else if c \<in> stk then Some (True, vis, stk)
      else dfs_children 0 g cs vis stk)"
| "dfs_children (Suc fuel) g (c # cs) vis stk =
     (if c \<notin> vis then
        (case dfs_children fuel g (Children g c) (insert c vis) (insert c stk) of
           None \<Rightarrow> None
         | Some (True, vis', stk') \<Rightarrow> Some (True, vis', stk')
         | Some (False, vis', stk') \<Rightarrow> dfs_children (Suc fuel) g cs vis' (stk' - {c}))
      else if c \<in> stk then Some (True, vis, stk)
      else dfs_children (Suc fuel) g cs vis stk)"

definition dfs :: "nat \<Rightarrow> name \<Rightarrow> graph \<Rightarrow> name set \<Rightarrow> name set \<Rightarrow> (bool \<times> name set \<times> name set) option" where
  "dfs fuel node g vis stk =
     (case dfs_children fuel g (Children g node) (insert node vis) (insert node stk) of
        None \<Rightarrow> None
      | Some (True, vis', stk') \<Rightarrow> Some (True, vis', stk')
      | Some (False, vis', stk') \<Rightarrow> Some (False, vis', stk' - {node}))"

fun detect_loop :: "nat \<Rightarrow> name list \<Rightarrow> graph \<Rightarrow> name set \<Rightarrow> name set \<Rightarrow> bool option" where
  "detect_loop fuel [] g vis stk = Some False"
| "detect_loop fuel (n # ns) g vis stk =
     (if n \<notin> vis then
        (case dfs fuel n g vis stk of
           None \<Rightarrow> None
         | Some (True, _, _) \<Rightarrow> Some True
         | Some (False, vis', stk') \<Rightarrow> detect_loop fuel ns g vis' stk')
      else detect_loop fuel ns g vis stk)"

definition DetectCycle :: "name list \<Rightarrow> graph \<Rightarrow> build_error option option" where
  "DetectCycle it g =
     map_option (\<lambda>b. if b then Some CycleDetected else None)
       (detect_loop (length it) it g {} {})"

subsection \<open>graph.TopoSort\<close>

definition in_degrees :: "graph \<Rightarrow> name \<Rightarrow> int" where
  "in_degrees g n = int (length (Parents g n))"

fun topo_children :: "name list \<Rightarrow> (name \<Rightarrow> int) \<Rightarrow> name list \<Rightarrow> (name \<Rightarrow> int) \<times> name list" where
  "topo_children [] deg q = (deg, q)"
| "topo_children (c # cs) deg q =
     (let deg' = deg(c := deg c - 1)
      in topo_children cs deg' (if deg' c = 0 then q @ [c] else q))"

text \<open>The queue loop; one unit of fuel per dequeued node.\<close>

fun topo_loop :: "nat \<Rightarrow> graph \<Rightarrow> (name \<Rightarrow> int) \<Rightarrow> name list \<Rightarrow> name list \<Rightarrow> name list option" where
  "topo_loop fuel g deg [] result = Some result"
| "topo_loop 0 g deg (n # q) result = None"
| "topo_loop (Suc fuel) g deg (n # q) result =
     (let (deg', q') = topo_children (Children g n) deg q
      in topo_loop fuel g deg' q' (result @ [n]))"

definition TopoSort :: "name list \<Rightarrow> graph \<Rightarrow> (build_error + name list) option" where
  "TopoSort it g =
     map_option (\<lambda>result. if length result \<noteq> length it then Inl TopoSortFailed else Inr result)
       (topo_loop (length it) g (in_degrees g) (filter (\<lambda>n. in_degrees g n = 0) it) [])"


subsection \<open>Well-formed graphs\<close>

definition edge_rel :: "graph \<Rightarrow> (name \<times> name) set" where
  "edge_rel g = {(u, v). v \<in> set (Children g u)}"

definition wf_graph :: "graph \<Rightarrow> bool" where
  "wf_graph g \<longleftrightarrow>
     finite (dom (gNodes g))
     \<and> (\<forall>u v. count_list (Children g u) v = count_list (Parents g v) u)
     \<and> (\<forall>u. Children g u = map To (Edges g u))
     \<and> (\<forall>u. \<forall>e\<in>set (Edges g u). From e = u \<and> u \<in> dom (gNodes g) \<and> To e \<in> dom (gNodes g))
     \<and> (\<forall>n d. gNodes g n = Some d \<longrightarrow> nd_Name d = n)"

lemma wf_graphD:
  assumes "wf_graph g"
  shows wf_graph_finite: "finite (dom (gNodes g))"
    and wf_graph_count: "count_list (Children g u) v = count_list (Parents g v) u"
    and wf_graph_children: "Children g u = map To (Edges g u)"
    and wf_graph_edges: "e \<in> set (Edges g u) \<Longrightarrow> From e = u \<and> u \<in> dom (gNodes g) \<and> To e \<in> dom (gNodes g)"
    and wf_graph_name: "gNodes g n = Some d \<Longrightarrow> nd_Name d = n"
  using assms unfolding wf_graph_def by blast+

lemma wf_graph_parent_iff: "wf_graph g \<Longrightarrow> p \<in> set (Parents g c) \<longleftrightarrow> c \<in> set (Children g p)"
  by (metis count_list_0_iff wf_graph_count)

lemma wf_graph_children_dom:
  "wf_graph g \<Longrightarrow> c \<in> set (Children g p) \<Longrightarrow> p \<in> dom (gNodes g) \<and> c \<in> dom (gNodes g)"
  by (auto simp: wf_graph_children dest!: wf_graph_edges)

lemma edge_rel_dom: "wf_graph g \<Longrightarrow> (u, v) \<in> edge_rel g \<Longrightarrow> u \<in> dom (gNodes g) \<and> v \<in> dom (gNodes g)"
  using wf_graph_children_dom by (auto simp: edge_rel_def)

lemma finite_edge_rel: "wf_graph g \<Longrightarrow> finite (edge_rel g)"
  by (rule finite_subset [of _ "dom (gNodes g) \<times> dom (gNodes g)"])
    (auto dest: edge_rel_dom intro: wf_graph_finite)

text \<open>\<^verbatim>\<open>Build\<close> yields well-formed graphs over exactly the declared nodes and edges.\<close>

lemma build_nodes_Inr:
  assumes "build_nodes ns g = Inr g'"
  shows "g' = g\<lparr>gNodes := gNodes g'\<rparr> \<and> dom (gNodes g') = dom (gNodes g) \<union> nd_Name ` set ns
    \<and> (\<forall>n d. gNodes g' n = Some d \<longrightarrow> gNodes g n = Some d \<or> (d \<in> set ns \<and> nd_Name d = n))
    \<and> distinct (map nd_Name ns)"
  using assms
proof (induction ns arbitrary: g)
  case Nil
  then show ?case by simp
next
  case (Cons n ns)
  from Cons.prems have new: "gNodes g (nd_Name n) = None"
    and rest: "build_nodes ns (g\<lparr>gNodes := (gNodes g)(nd_Name n \<mapsto> n)\<rparr>) = Inr g'"
    by (auto split: option.splits)
  have fresh: "build_nodes ns h = Inr g' \<Longrightarrow> nd_Name n \<in> dom (gNodes h) \<Longrightarrow> nd_Name n \<notin> nd_Name ` set ns" for h
    by (induction ns arbitrary: h) (auto split: option.splits if_splits)
  show ?case using Cons.IH [OF rest] fresh [OF rest]
    by (auto split: if_splits) metis+
qed

lemma build_edges_Inr:
  assumes "build_edges es g = Inr g'" and "wf_graph g"
  shows "wf_graph g' \<and> gNodes g' = gNodes g
    \<and> (\<forall>u. Edges g' u = Edges g u @ filter (\<lambda>e. From e = u) es)"
  using assms
proof (induction es arbitrary: g)
  case Nil
  then show ?case by simp
next
  case (Cons e es)
  from Cons.prems have ok: "From e \<in> dom (gNodes g)" "To e \<in> dom (gNodes g)"
    and rest: "build_edges es (add_edge e g) = Inr g'"
    by (auto split: if_splits)
  have "wf_graph (add_edge e g)"
    using Cons.prems(2) ok by (auto simp: wf_graph_def add_edge_def)
  from Cons.IH [OF rest this] show ?case
    by (auto simp: add_edge_def)
qed

lemma empty_graph_wf: "wf_graph (empty_graph\<lparr>gNodes := m\<rparr>)
  \<longleftrightarrow> finite (dom m) \<and> (\<forall>n d. m n = Some d \<longrightarrow> nd_Name d = n)"
  by (simp add: wf_graph_def empty_graph_def)

lemma Build_Inr:
  assumes "Build def = Inr g"
  shows "wf_graph g \<and> dom (gNodes g) = nd_Name ` set (wf_Nodes def)
    \<and> distinct (map nd_Name (wf_Nodes def))
    \<and> (\<forall>u. Edges g u = filter (\<lambda>e. From e = u) (wf_Edges def))"
proof -
  from assms obtain g0 where g0: "build_nodes (wf_Nodes def) empty_graph = Inr g0"
    and g: "build_edges (wf_Edges def) g0 = Inr g"
    by (auto simp: Build_def split: sum.splits)
  from build_nodes_Inr [OF g0] have eq: "g0 = empty_graph\<lparr>gNodes := gNodes g0\<rparr>"
    and domg0: "dom (gNodes g0) = nd_Name ` set (wf_Nodes def)"
    and names: "\<forall>n d. gNodes g0 n = Some d \<longrightarrow> nd_Name d = n"
    and dist: "distinct (map nd_Name (wf_Nodes def))"
    by (auto simp: empty_graph_def)
  have "finite (dom (gNodes g0))" by (simp add: domg0)
  with names have "wf_graph (empty_graph\<lparr>gNodes := gNodes g0\<rparr>)" by (simp add: empty_graph_wf)
  with eq have wf0: "wf_graph g0" by simp
  have "Edges g0 = (\<lambda>_. [])" by (subst eq) (simp add: empty_graph_def)
  with build_edges_Inr [OF g wf0] domg0 dist show ?thesis by simp
qed


subsection \<open>Cycle detection is exact\<close>

definition enumerates :: "name list \<Rightarrow> (name \<rightharpoonup> 'v) \<Rightarrow> bool" where
  "enumerates it m \<longleftrightarrow> distinct it \<and> set it = dom m"

lemma closed_trancl:
  assumes "E `` F \<subseteq> F" and "x \<in> F" and "(x, y) \<in> E\<^sup>*"
  shows "y \<in> F"
  using assms(3,2) by (induction rule: rtrancl_induct) (use assms(1) in auto)

text \<open>
  Nodes that are visited and off the stack are finished: their successors are finished
  too, and no cycle passes through them.
\<close>

definition finished_ok :: "graph \<Rightarrow> name set \<Rightarrow> bool" where
  "finished_ok g F \<longleftrightarrow> edge_rel g `` F \<subseteq> F \<and> (\<forall>n\<in>F. (n, n) \<notin> (edge_rel g)\<^sup>+)"

lemma finished_ok_insert:
  assumes "finished_ok g F" and "set (Children g c) \<subseteq> F" and "c \<notin> F"
  shows "finished_ok g (insert c F)"
proof -
  have "(c, c) \<notin> (edge_rel g)\<^sup>+"
  proof
    assume "(c, c) \<in> (edge_rel g)\<^sup>+"
    then obtain d where d: "(c, d) \<in> edge_rel g" "(d, c) \<in> (edge_rel g)\<^sup>*"
      by (meson tranclD)
    with assms(2) have "d \<in> F" by (auto simp: edge_rel_def)
    with closed_trancl [OF _ _ d(2)] assms(1,3) show False by (simp add: finished_ok_def)
  qed
  with assms(1,2) show ?thesis by (auto simp: finished_ok_def edge_rel_def)
qed

lemma dfs_children_restores:
  assumes "dfs_children fuel g cs vis stk = Some (False, vis', stk')" and "stk \<subseteq> vis"
  shows "vis \<subseteq> vis' \<and> stk' = stk"
  using assms
proof (induction fuel g cs vis stk arbitrary: vis' stk' rule: dfs_children.induct)
  case (3 fuel g c cs vis stk)
  show ?case
  proof (cases "c \<in> vis")
    case True
    with 3 show ?thesis by (auto split: if_splits)
  next
    case False
    with "3.prems" obtain v1 s1 where
      inner: "dfs_children fuel g (Children g c) (insert c vis) (insert c stk) = Some (False, v1, s1)"
      and rest: "dfs_children (Suc fuel) g cs v1 (s1 - {c}) = Some (False, vis', stk')"
      by (auto split: option.splits bool.splits prod.splits)
    from "3.IH"(1) [OF False inner] "3.prems"(2) have i: "insert c vis \<subseteq> v1" "s1 = insert c stk"
      by auto
    with "3.prems"(2) False have s: "s1 - {c} = stk" "stk \<subseteq> v1" by auto
    from "3.IH"(2) [OF False inner _ _ _ rest] s have "v1 \<subseteq> vis' \<and> stk' = stk" by force
    with i show ?thesis by auto
  qed
qed (auto split: if_splits)

lemma dfs_children_finished:
  assumes "dfs_children fuel g cs vis stk = Some (False, vis', stk')"
    and "stk \<subseteq> vis" and "finished_ok g (vis - stk)"
  shows "finished_ok g (vis' - stk) \<and> set cs \<subseteq> vis' - stk"
  using assms
proof (induction fuel g cs vis stk arbitrary: vis' stk' rule: dfs_children.induct)
  case (3 fuel g c cs vis stk)
  show ?case
  proof (cases "c \<in> vis")
    case True
    with 3 dfs_children_restores [of "Suc fuel" g cs vis stk vis' stk'] show ?thesis
      by (auto split: if_splits)
  next
    case False
    with "3.prems" obtain v1 s1 where
      inner: "dfs_children fuel g (Children g c) (insert c vis) (insert c stk) = Some (False, v1, s1)"
      and rest: "dfs_children (Suc fuel) g cs v1 (s1 - {c}) = Some (False, vis', stk')"
      by (auto split: option.splits bool.splits prod.splits)
    have i: "insert c vis \<subseteq> v1" "s1 = insert c stk"
      using dfs_children_restores [OF inner] "3.prems"(2) by auto
    with "3.prems"(2) False have s: "s1 - {c} = stk" "stk \<subseteq> v1" "c \<notin> stk" by auto
    have "insert c vis - insert c stk = vis - stk" using False by auto
    with "3.IH"(1) [OF False inner] "3.prems" have
      f: "finished_ok g (v1 - insert c stk)" "set (Children g c) \<subseteq> v1 - insert c stk"
      by auto
    have "v1 - stk = insert c (v1 - insert c stk)" using i s by auto
    with finished_ok_insert [OF f] have f1: "finished_ok g (v1 - stk)" by simp
    from "3.IH"(2) [OF False inner _ _ _ rest] s f1
    have "finished_ok g (vis' - stk) \<and> set cs \<subseteq> vis' - stk" by auto
    moreover have "v1 \<subseteq> vis'" using dfs_children_restores [OF rest] s by auto
    ultimately show ?thesis using i s by auto
  qed
next
  case (2 g c cs vis stk)
  with dfs_children_restores [of 0 g cs vis stk vis' stk'] show ?case
    by (auto split: if_splits)
qed auto

lemma dfs_children_cycle:
  assumes "dfs_children fuel g cs vis stk = Some (True, vis', stk')"
    and "stk \<subseteq> vis" and "\<forall>s\<in>stk. \<forall>c\<in>set cs. (s, c) \<in> (edge_rel g)\<^sup>+"
  shows "\<exists>n. (n, n) \<in> (edge_rel g)\<^sup>+"
  using assms
proof (induction fuel g cs vis stk arbitrary: vis' stk' rule: dfs_children.induct)
  case (3 fuel g c cs vis stk)
  show ?case
  proof (cases "c \<in> vis")
    case True
    with 3 show ?thesis by (auto split: if_splits)
  next
    case False
    have down: "\<forall>s\<in>insert c stk. \<forall>d\<in>set (Children g c). (s, d) \<in> (edge_rel g)\<^sup>+"
      using "3.prems"(3) by (auto simp: edge_rel_def intro: trancl_into_trancl)
    show ?thesis
    proof (cases "dfs_children fuel g (Children g c) (insert c vis) (insert c stk)")
      case None
      with False "3.prems" show ?thesis by simp
    next
      case (Some r)
      obtain b v1 s1 where r: "r = (b, v1, s1)" by (cases r)
      show ?thesis
      proof (cases b)
        case True
        with Some r "3.IH"(1) [OF False _ _ down] "3.prems"(2) show ?thesis by auto
      next
        case b: False
        with Some r have inner: "dfs_children fuel g (Children g c) (insert c vis) (insert c stk)
            = Some (False, v1, s1)" by simp
        with False "3.prems"(1) have rest: "dfs_children (Suc fuel) g cs v1 (s1 - {c}) = Some (True, vis', stk')"
          by simp
        have i: "insert c vis \<subseteq> v1" "s1 = insert c stk"
          using dfs_children_restores [OF inner] "3.prems"(2) by auto
        with "3.prems"(2) False have "s1 - {c} = stk" "stk \<subseteq> v1" by auto
        with "3.IH"(2) [OF False inner _ _ _ rest] "3.prems"(3) show ?thesis by auto
      qed
    qed
  qed
qed (auto split: if_splits)


lemma dfs_children_fuel:
  assumes "wf_graph g" and "card (dom (gNodes g) - vis) \<le> fuel" and "set cs \<subseteq> dom (gNodes g)"
    and "stk \<subseteq> vis"
  shows "\<exists>r. dfs_children fuel g cs vis stk = Some r"
  using assms
proof (induction fuel g cs vis stk rule: dfs_children.induct)
  case (2 g c cs vis stk)
  then have "c \<in> vis" by (auto simp: wf_graph_finite)
  with 2 show ?case by auto
next
  case (3 fuel g c cs vis stk)
  show ?case
  proof (cases "c \<in> vis")
    case True
    with 3 show ?thesis by auto
  next
    case False
    with "3.prems" have c: "c \<in> dom (gNodes g) - vis" by auto
    have "dom (gNodes g) - insert c vis = (dom (gNodes g) - vis) - {c}" by auto
    with c "3.prems" have "card (dom (gNodes g) - insert c vis) \<le> fuel"
      by (simp add: wf_graph_finite card_Diff_singleton)
    moreover have "set (Children g c) \<subseteq> dom (gNodes g)"
      using "3.prems"(1) by (auto dest: wf_graph_children_dom)
    ultimately obtain r where r:
      "dfs_children fuel g (Children g c) (insert c vis) (insert c stk) = Some r"
      using "3.IH"(1) [OF False] "3.prems"(1,4) by (metis insert_mono)
    obtain b v1 s1 where eq: "r = (b, v1, s1)" by (cases r)
    show ?thesis
    proof (cases b)
      case True
      with r eq False show ?thesis by (intro exI [of _ "(True, v1, s1)"]) simp
    next
      case b: False
      with r eq have inner: "dfs_children fuel g (Children g c) (insert c vis) (insert c stk)
          = Some (False, v1, s1)" by simp
      have i: "insert c vis \<subseteq> v1" "s1 = insert c stk"
        using dfs_children_restores [OF inner] "3.prems"(4) by auto
      then have "card (dom (gNodes g) - v1) \<le> Suc fuel"
        using card_mono [of "dom (gNodes g) - vis" "dom (gNodes g) - v1"] "3.prems"(1,2)
        by (fastforce simp: wf_graph_finite)
      then have "\<exists>r. dfs_children (Suc fuel) g cs v1 (s1 - {c}) = Some r"
        by (intro "3.IH"(2) [OF False inner refl refl]) (use i "3.prems" in auto)
      with inner False show ?thesis by simp
    qed
  qed
qed auto

lemma dfs_cases:
  assumes wf: "wf_graph g" and n: "n \<in> dom (gNodes g)" "n \<notin> vis" and fuel: "card (dom (gNodes g) - vis) \<le> fuel"
    and fin: "finished_ok g vis"
  shows "(\<exists>v s. dfs fuel n g vis {} = Some (True, v, s) \<and> (\<exists>m. (m, m) \<in> (edge_rel g)\<^sup>+))
    \<or> (\<exists>v. dfs fuel n g vis {} = Some (False, v, {}) \<and> finished_ok g v \<and> insert n vis \<subseteq> v)"
proof -
  have "card (dom (gNodes g) - insert n vis) \<le> fuel"
    using card_mono [of "dom (gNodes g) - vis" "dom (gNodes g) - insert n vis"] wf fuel
    by (fastforce simp: wf_graph_finite)
  moreover have kids: "set (Children g n) \<subseteq> dom (gNodes g)"
    using wf by (auto dest: wf_graph_children_dom)
  ultimately obtain b v s where r:
    "dfs_children fuel g (Children g n) (insert n vis) {n} = Some (b, v, s)"
    using dfs_children_fuel [OF wf, of "insert n vis" fuel "Children g n" "{n}"] by auto
  show ?thesis
  proof (cases b)
    case True
    with r dfs_children_cycle [of fuel g "Children g n" "insert n vis" "{n}" v s]
    have "\<exists>m. (m, m) \<in> (edge_rel g)\<^sup>+" by (auto simp: edge_rel_def)
    with True r show ?thesis by (simp add: dfs_def)
  next
    case False
    with r have r': "dfs_children fuel g (Children g n) (insert n vis) {n} = Some (False, v, s)" by simp
    from dfs_children_restores [OF r'] have vs: "insert n vis \<subseteq> v" "s = {n}" by auto
    have "insert n vis - {n} = vis" using n by auto
    with dfs_children_finished [OF r'] fin
    have "finished_ok g (v - {n})" "set (Children g n) \<subseteq> v - {n}" by auto
    from finished_ok_insert [OF this] vs have "finished_ok g v" by (simp add: insert_absorb)
    with r' vs show ?thesis by (simp add: dfs_def)
  qed
qed

lemma detect_loop_correct:
  assumes "wf_graph g" and "set ns \<subseteq> dom (gNodes g)" and "card (dom (gNodes g) - vis) \<le> fuel"
    and "finished_ok g vis"
  shows "\<exists>b. detect_loop fuel ns g vis {} = Some b
    \<and> (b \<longrightarrow> \<not> acyclic (edge_rel g)) \<and> (\<not> b \<longrightarrow> (\<forall>n\<in>set ns. (n, n) \<notin> (edge_rel g)\<^sup>+))"
  using assms
proof (induction ns arbitrary: vis)
  case Nil
  show ?case by (intro exI [of _ False]) simp
next
  case (Cons n ns)
  show ?case
  proof (cases "n \<in> vis")
    case True
    with Cons show ?thesis by (auto simp: finished_ok_def)
  next
    case False
    with dfs_cases [of g n vis fuel] Cons.prems consider
      v s where "dfs fuel n g vis {} = Some (True, v, s)" "\<exists>m. (m, m) \<in> (edge_rel g)\<^sup>+"
    | v where "dfs fuel n g vis {} = Some (False, v, {})" "finished_ok g v" "insert n vis \<subseteq> v"
      by auto
    then show ?thesis
    proof cases
      case 1
      with False show ?thesis by (auto simp: acyclic_def)
    next
      case 2
      then have "card (dom (gNodes g) - v) \<le> fuel"
        using card_mono [of "dom (gNodes g) - vis" "dom (gNodes g) - v"] Cons.prems
        by (fastforce simp: wf_graph_finite)
      with Cons.IH [of v] Cons.prems 2 False show ?thesis by (auto simp: finished_ok_def)
    qed
  qed
qed

lemma DetectCycle_correct:
  assumes "wf_graph g" and "enumerates it (gNodes g)"
  shows "DetectCycle it g = Some (if acyclic (edge_rel g) then None else Some CycleDetected)"
proof -
  from assms have "set it \<subseteq> dom (gNodes g)" "card (dom (gNodes g) - {}) \<le> length it"
    using distinct_card [of it] by (auto simp: enumerates_def)
  with detect_loop_correct [of g it "{}" "length it"] assms(1) obtain b where
    b: "detect_loop (length it) it g {} {} = Some b" "b \<longrightarrow> \<not> acyclic (edge_rel g)"
    "\<not> b \<longrightarrow> (\<forall>n\<in>set it. (n, n) \<notin> (edge_rel g)\<^sup>+)"
    by (auto simp: finished_ok_def)
  have "acyclic (edge_rel g)" if "\<not> b"
    unfolding acyclic_def
  proof
    fix n show "(n, n) \<notin> (edge_rel g)\<^sup>+"
    proof (cases "n \<in> set it")
      case True
      with b that show ?thesis by blast
    next
      case False
      with assms show ?thesis
        by (auto simp: enumerates_def dest!: tranclD edge_rel_dom [OF assms(1)])
    qed
  qed
  with b show ?thesis by (auto simp: DetectCycle_def)
qed


subsection \<open>The topological order\<close>

text \<open>
  \<open>topo_from g seen xs\<close>: walking through \<open>xs\<close>, every node comes after all of its parents,
  given that the nodes of \<open>seen\<close> came before.
\<close>

fun topo_from :: "graph \<Rightarrow> name set \<Rightarrow> name list \<Rightarrow> bool" where
  "topo_from g seen [] = True"
| "topo_from g seen (x # xs) = (set (Parents g x) \<subseteq> seen \<and> topo_from g (insert x seen) xs)"

lemma topo_from_snoc:
  "topo_from g seen (xs @ [x]) \<longleftrightarrow> topo_from g seen xs \<and> set (Parents g x) \<subseteq> seen \<union> set xs"
  by (induction xs arbitrary: seen) auto

definition topo_order :: "graph \<Rightarrow> name list \<Rightarrow> bool" where
  "topo_order g xs \<longleftrightarrow> enumerates xs (gNodes g) \<and> topo_from g {} xs"

lemma topo_children_spec:
  assumes "topo_children cs deg q = (deg', q')"
  shows "(\<forall>v. deg' v = deg v - int (count_list cs v))
    \<and> (\<exists>zs. q' = q @ zs \<and> distinct zs \<and> set zs = {v. 1 \<le> deg v \<and> deg v \<le> int (count_list cs v)})"
  using assms
proof (induction cs arbitrary: deg q)
  case Nil
  then show ?case by auto
next
  case (Cons c cs)
  let ?d = "deg(c := deg c - 1)"
  let ?q = "if ?d c = 0 then q @ [c] else q"
  from Cons.prems have step: "topo_children cs ?d ?q = (deg', q')" by (simp add: Let_def)
  from Cons.IH [OF step] obtain zs where
    d: "\<forall>v. deg' v = ?d v - int (count_list cs v)" and zs: "q' = ?q @ zs" "distinct zs"
    "set zs = {v. 1 \<le> ?d v \<and> ?d v \<le> int (count_list cs v)}" by blast
  have mem: "v \<in> set zs \<longleftrightarrow> (if v = c then 2 \<le> deg c \<and> deg c - 1 \<le> int (count_list cs c)
      else 1 \<le> deg v \<and> deg v \<le> int (count_list cs v))" for v
    using zs(3) by auto
  have d': "deg' v = deg v - int (count_list (c # cs) v)" for v
    using d by simp
  show ?case
  proof (cases "deg c = 1")
    case True
    have "v \<in> set (c # zs) \<longleftrightarrow> 1 \<le> deg v \<and> deg v \<le> int (count_list (c # cs) v)" for v
      using mem [of v] True by (cases "v = c") auto
    then have "set (c # zs) = {v. 1 \<le> deg v \<and> deg v \<le> int (count_list (c # cs) v)}" by blast
    moreover have "distinct (c # zs)" "q' = q @ c # zs" using True zs mem [of c] by auto
    ultimately show ?thesis using d' by blast
  next
    case False
    have "v \<in> set zs \<longleftrightarrow> 1 \<le> deg v \<and> deg v \<le> int (count_list (c # cs) v)" for v
      using mem [of v] False by (cases "v = c") auto
    then have "set zs = {v. 1 \<le> deg v \<and> deg v \<le> int (count_list (c # cs) v)}" by blast
    moreover have "q' = q @ zs" using False zs by simp
    ultimately show ?thesis using d' zs(2) by blast
  qed
qed

definition pending_parents :: "graph \<Rightarrow> name set \<Rightarrow> name \<Rightarrow> nat" where
  "pending_parents g P v = length (filter (\<lambda>p. p \<notin> P) (Parents g v))"

lemma pending_parents_insert:
  assumes "wf_graph g" and "n \<notin> P"
  shows "pending_parents g (insert n P) v + count_list (Children g n) v = pending_parents g P v"
  using count_list_filter_split [of "\<lambda>p. p \<notin> P" n "Parents g v"] assms
  by (simp add: pending_parents_def wf_graph_count conj_commute)

lemma pending_parents_0: "pending_parents g P v = 0 \<longleftrightarrow> set (Parents g v) \<subseteq> P"
  by (auto simp: pending_parents_def filter_empty_conv)

definition topo_inv :: "graph \<Rightarrow> (name \<Rightarrow> int) \<Rightarrow> name list \<Rightarrow> name list \<Rightarrow> bool" where
  "topo_inv g deg q res \<longleftrightarrow>
     distinct (res @ q) \<and> topo_from g {} res
     \<and> (\<forall>v. deg v = int (pending_parents g (set res) v))
     \<and> set (res @ q) = {v \<in> dom (gNodes g). deg v = 0}"

lemma topo_inv_final:
  assumes "topo_inv g deg [] res"
  shows "distinct res" and "set res \<subseteq> dom (gNodes g)" and "topo_from g {} res"
    and "v \<in> dom (gNodes g) \<Longrightarrow> deg v = 0 \<Longrightarrow> v \<in> set res"
    and "deg v = int (pending_parents g (set res) v)"
proof -
  from assms have *: "distinct res" "topo_from g {} res"
    "\<And>v. deg v = int (pending_parents g (set res) v)" "set res = {v \<in> dom (gNodes g). deg v = 0}"
    unfolding topo_inv_def append_Nil2 by blast+
  show "distinct res" "topo_from g {} res" "deg v = int (pending_parents g (set res) v)"
    by (fact *)+
  from *(4) show "set res \<subseteq> dom (gNodes g)" by blast
  from *(4) show "v \<in> dom (gNodes g) \<Longrightarrow> deg v = 0 \<Longrightarrow> v \<in> set res" by blast
qed

lemma topo_inv_step:
  assumes wf: "wf_graph g" and inv: "topo_inv g deg (n # q) res"
    and step: "topo_children (Children g n) deg q = (deg', q')"
  shows "topo_inv g deg' q' (res @ [n])"
proof -
  from inv have n: "n \<notin> set res" "n \<in> dom (gNodes g)" "deg n = 0"
    and deg: "\<And>v. deg v = int (pending_parents g (set res) v)"
    and zero: "insert n (set res \<union> set q) = {v \<in> dom (gNodes g). deg v = 0}"
    and dist: "distinct (res @ n # q)" and topo: "topo_from g {} res"
    by (auto simp: topo_inv_def)
  from topo_children_spec [OF step] obtain zs where
    d': "\<And>v. deg' v = deg v - int (count_list (Children g n) v)" and q': "q' = q @ zs" "distinct zs"
    and zs: "set zs = {v. 1 \<le> deg v \<and> deg v \<le> int (count_list (Children g n) v)}" by blast
  have new: "deg' v = int (pending_parents g (insert n (set res)) v)" for v
    using pending_parents_insert [OF wf n(1), of v] deg [of v] d' [of v] by simp
  have kids: "v \<in> dom (gNodes g)" if "0 < count_list (Children g n) v" for v
    using that wf by (metis count_list_0_iff neq0_conv wf_graph_children_dom)
  have zs': "set zs = {v \<in> dom (gNodes g). 1 \<le> deg v \<and> deg' v = 0}"
  proof -
    have "1 \<le> deg v \<and> deg v \<le> int (count_list (Children g n) v)
        \<longleftrightarrow> v \<in> dom (gNodes g) \<and> 1 \<le> deg v \<and> deg' v = 0" for v
      using d' [of v] new [of v] kids [of v] by (cases "count_list (Children g n) v") auto
    then show ?thesis unfolding zs by blast
  qed
  have "set (res @ [n] @ q @ zs) = {v \<in> dom (gNodes g). deg' v = 0}"
  proof -
    have "deg' v = 0 \<longleftrightarrow> deg v = 0 \<or> (1 \<le> deg v \<and> deg' v = 0)" for v
      using d' [of v] new [of v] deg [of v] by auto
    with zero zs' show ?thesis by auto
  qed
  moreover have "distinct (res @ [n] @ q @ zs)"
  proof -
    have "x \<notin> set zs" if "x \<in> insert n (set res \<union> set q)" for x
      using that zs' unfolding zero by auto
    with dist q' show ?thesis by auto
  qed
  moreover have "topo_from g {} (res @ [n])"
    using topo n(3) deg [of n] by (simp add: topo_from_snoc pending_parents_0)
  ultimately show ?thesis using new q' by (simp add: topo_inv_def)
qed

lemma topo_loop_correct:
  assumes "wf_graph g" and "topo_inv g deg q res" and "card (dom (gNodes g)) \<le> length res + fuel"
  shows "\<exists>r deg'. topo_loop fuel g deg q res = Some r \<and> topo_inv g deg' [] r"
  using assms
proof (induction fuel g deg q res rule: topo_loop.induct)
  case (1 fuel g deg res)
  then show ?case by auto
next
  case (2 g deg n q res)
  then have "set (res @ n # q) \<subseteq> dom (gNodes g)" "distinct (res @ n # q)"
    by (auto simp: topo_inv_def)
  then have "length (res @ n # q) \<le> card (dom (gNodes g))"
    by (metis "2.prems"(1) card_mono distinct_card wf_graph_finite)
  with 2 show ?case by simp
next
  case (3 fuel g deg n q res)
  obtain deg' q' where step: "topo_children (Children g n) deg q = (deg', q')" by force
  from topo_inv_step [OF "3.prems"(1,2) step] "3.IH" [OF step [symmetric] refl] "3.prems" step
  show ?case by simp
qed

lemma topo_from_trancl:
  assumes "wf_graph g" and "topo_from g seen xs" and "v \<in> set xs" and "(u, v) \<in> edge_rel g"
    and "distinct xs" and "seen \<inter> set xs = {}"
  shows "u \<in> seen \<or> (\<exists>ys zs. xs = ys @ v # zs \<and> u \<in> set ys)"
  using assms
proof (induction xs arbitrary: seen)
  case Nil
  then show ?case by simp
next
  case (Cons x xs)
  from Cons.prems have u: "u \<in> set (Parents g v)"
    by (simp add: edge_rel_def wf_graph_parent_iff)
  show ?case
  proof (cases "v = x")
    case True
    with Cons.prems u show ?thesis by auto
  next
    case False
    with Cons.prems Cons.IH [of "insert x seen"] have
      "u \<in> insert x seen \<or> (\<exists>ys zs. xs = ys @ v # zs \<and> u \<in> set ys)" by auto
    then consider "u \<in> seen" | "u = x" | ys zs where "xs = ys @ v # zs" "u \<in> set ys" by auto
    then show ?thesis
    proof cases
      case 2
      from False Cons.prems(3) obtain ys zs where "xs = ys @ v # zs" by (auto dest: split_list)
      with 2 have "x # xs = (x # ys) @ v # zs \<and> u \<in> set (x # ys)" by simp
      then show ?thesis by blast
    next
      case (3 ys zs)
      then have "x # xs = (x # ys) @ v # zs \<and> u \<in> set (x # ys)" by simp
      then show ?thesis by blast
    qed blast
  qed
qed


lemma topo_order_acyclic:
  assumes wf: "wf_graph g" and ord: "topo_order g xs"
  shows "acyclic (edge_rel g)"
proof -
  from ord have xs: "distinct xs" "set xs = dom (gNodes g)" "topo_from g {} xs"
    by (auto simp: topo_order_def enumerates_def)
  have "edge_rel g \<subseteq> measure (\<lambda>x. length (takeWhile (\<lambda>y. y \<noteq> x) xs))"
  proof (rule subrelI)
    fix u v assume e: "(u, v) \<in> edge_rel g"
    then have "v \<in> set xs" using edge_rel_dom [OF wf] xs(2) by auto
    with topo_from_trancl [OF wf xs(3) _ e xs(1)] obtain ys zs where
      split: "xs = ys @ v # zs" "u \<in> set ys" by auto
    with xs(1) have "takeWhile (\<lambda>y. y \<noteq> v) xs = ys"
      by (auto simp: takeWhile_append2 takeWhile_tail)
    moreover have "length (takeWhile (\<lambda>y. y \<noteq> u) xs) < length ys"
    proof -
      have "takeWhile (\<lambda>y. y \<noteq> u) xs = takeWhile (\<lambda>y. y \<noteq> u) ys"
        using split by (simp add: takeWhile_append1)
      with takeWhile_neq_less [OF split(2)] show ?thesis by simp
    qed
    ultimately show "(u, v) \<in> measure (\<lambda>x. length (takeWhile (\<lambda>y. y \<noteq> x) xs))" by simp
  qed
  then show ?thesis by (meson wf_acyclic wf_measure wf_subset)
qed

lemma topo_complete_if_acyclic:
  assumes wf: "wf_graph g" and inv: "topo_inv g deg [] res" and ac: "acyclic (edge_rel g)"
  shows "set res = dom (gNodes g)"
proof (rule ccontr)
  assume "set res \<noteq> dom (gNodes g)"
  moreover have sub: "set res \<subseteq> dom (gNodes g)" using topo_inv_final [OF inv] by blast
  ultimately have "dom (gNodes g) - set res \<noteq> {}" by blast
  moreover have "wf (edge_rel g)" using finite_acyclic_wf finite_edge_rel wf ac by blast
  ultimately obtain z where z: "z \<in> dom (gNodes g) - set res"
    "\<And>y. (y, z) \<in> edge_rel g \<Longrightarrow> y \<notin> dom (gNodes g) - set res"
    by (metis all_not_in_conv wfE_min)
  have "set (Parents g z) \<subseteq> set res"
  proof
    fix p assume "p \<in> set (Parents g z)"
    with wf have "(p, z) \<in> edge_rel g" by (simp add: edge_rel_def wf_graph_parent_iff)
    with z(2) edge_rel_dom [OF wf this] show "p \<in> set res" by blast
  qed
  then have "deg z = 0" using topo_inv_final(5) [OF inv, of z] by (simp add: pending_parents_0)
  with z(1) topo_inv_final(4) [OF inv, of z] show False by blast
qed

lemma TopoSort_correct:
  assumes wf: "wf_graph g" and it: "enumerates it (gNodes g)"
  shows "if acyclic (edge_rel g)
         then \<exists>order. TopoSort it g = Some (Inr order) \<and> topo_order g order
         else TopoSort it g = Some (Inl TopoSortFailed)"
proof -
  from it have len: "length it = card (dom (gNodes g))"
    by (metis distinct_card enumerates_def)
  let ?q = "filter (\<lambda>n. in_degrees g n = 0) it"
  have "topo_inv g (in_degrees g) ?q []"
    using it by (auto simp: topo_inv_def enumerates_def in_degrees_def pending_parents_def)
  from topo_loop_correct [OF wf this, of "length it"] len obtain r deg where
    r: "topo_loop (length it) g (in_degrees g) ?q [] = Some r" and inv: "topo_inv g deg [] r"
    by auto
  have full: "length r = length it \<longleftrightarrow> set r = dom (gNodes g)"
  proof -
    note r_ok = topo_inv_final(1,2) [OF inv]
    show ?thesis
    proof
      assume "length r = length it"
      with r_ok(1) have "card (set r) = card (dom (gNodes g))" by (simp add: distinct_card len)
      with r_ok(2) show "set r = dom (gNodes g)"
        by (rule card_subset_eq [OF wf_graph_finite [OF wf]])
    next
      assume "set r = dom (gNodes g)"
      with distinct_card [OF r_ok(1)] show "length r = length it" by (simp add: len)
    qed
  qed
  have ord: "topo_order g r" if "set r = dom (gNodes g)"
    using topo_inv_final(1,3) [OF inv] that by (simp add: topo_order_def enumerates_def)
  show ?thesis
  proof (cases "acyclic (edge_rel g)")
    case True
    with topo_complete_if_acyclic [OF wf inv] full ord r show ?thesis
      by (simp add: TopoSort_def)
  next
    case False
    with ord topo_order_acyclic [OF wf] full r show ?thesis
      by (auto simp: TopoSort_def)
  qed
qed

subsection \<open>The contract of the graph package\<close>

text \<open>
  What the workflow builder relies on: a cycle check and an ordering that decide the same
  question. The client lemma says that once the check has passed the ordering cannot fail.
\<close>

locale dag_toolkit =
  fixes check :: "name list \<Rightarrow> graph \<Rightarrow> build_error option option"
    and order_of :: "name list \<Rightarrow> graph \<Rightarrow> (build_error + name list) option"
  assumes check_acyclic: "wf_graph g \<Longrightarrow> enumerates it (gNodes g)
      \<Longrightarrow> check it g = Some (if acyclic (edge_rel g) then None else Some CycleDetected)"
    and order_topo: "wf_graph g \<Longrightarrow> enumerates it (gNodes g) \<Longrightarrow> acyclic (edge_rel g)
      \<Longrightarrow> \<exists>xs. order_of it g = Some (Inr xs) \<and> topo_order g xs"
begin

lemma check_passed_order:
  assumes "wf_graph g" and "enumerates it (gNodes g)" and "enumerates it' (gNodes g)"
    and "check it g = Some None"
  shows "\<exists>xs. order_of it' g = Some (Inr xs) \<and> topo_order g xs"
proof -
  from assms(4) check_acyclic [OF assms(1,2)] have "acyclic (edge_rel g)" by (simp split: if_splits)
  with order_topo assms(1,3) show ?thesis by blast
qed

lemma check_rejects_iff:
  assumes "wf_graph g" and "enumerates it (gNodes g)"
  shows "check it g = Some (Some CycleDetected) \<longleftrightarrow> \<not> acyclic (edge_rel g)"
  using check_acyclic [OF assms] by simp

end

interpretation graph_pkg: dag_toolkit DetectCycle TopoSort
  using DetectCycle_correct TopoSort_correct by unfold_locales (simp, force)

subsection \<open>Properties\<close>

text \<open>
  C17. Cycle detection is exact: on the graph built from any definition, whatever the order in
  which Go visits the node map, \<^verbatim>\<open>DetectCycle\<close> returns, and it reports a cycle exactly when
  the edges of the definition form one.
\<close>

theorem DetectCycle_exact:
  assumes "Build def = Inr g" and "enumerates it (gNodes g)"
  shows "DetectCycle it g = Some (if acyclic (edge_rel g) then None else Some CycleDetected)
    \<and> edge_rel g = {(From ed, To ed) | ed. ed \<in> set (wf_Edges def)}"
proof
  from Build_Inr [OF assms(1)] have wf: "wf_graph g"
    and es: "\<And>u. Edges g u = filter (\<lambda>ed. From ed = u) (wf_Edges def)" by auto
  show "DetectCycle it g = Some (if acyclic (edge_rel g) then None else Some CycleDetected)"
    using wf assms(2) by (rule graph_pkg.check_acyclic)
  show "edge_rel g = {(From ed, To ed) | ed. ed \<in> set (wf_Edges def)}"
    by (auto simp: edge_rel_def wf_graph_children [OF wf] es)
qed

text \<open>A definition for the concrete instances: a diamond whose right arm is conditional.\<close>

definition sample_edge :: "name \<Rightarrow> name \<Rightarrow> string \<Rightarrow> string \<Rightarrow> edge_def" where
  "sample_edge u v ty cond = \<lparr>From = u, To = v, EType = ty, Condition = cond, CaseKey = [],
     edge_Label = [], Priority = 0\<rparr>"

definition sample_node :: "name \<Rightarrow> string \<Rightarrow> gmap \<Rightarrow> node_def" where
  "sample_node n ty cfg = \<lparr>nd_Name = n, nd_Label = [], nd_Type = ty, nd_Weight = 1, nd_Version = [],
     nd_InputMapping = [], nd_Config = cfg\<rparr>"

definition no_output_def :: output_def where
  "no_output_def = \<lparr>od_ResultType = [], od_PrimaryFileUrl = [], od_CoverUrl = [], od_PreviewUrl = [],
     od_Width = [], od_Height = [], od_Duration = [], od_Extras = []\<rparr>"

definition diamond_edges :: "edge_def list" where
  "diamond_edges = [sample_edge ''a'' ''b'' EdgeNormal [], sample_edge ''a'' ''c'' EdgeCondition ''go'',
     sample_edge ''b'' ''d'' EdgeNormal [], sample_edge ''c'' ''d'' EdgeNormal []]"

definition diamond :: workflow_def where
  "diamond = \<lparr>wf_Name = ''diamond'',
     wf_Nodes = map (\<lambda>n. sample_node n ''start'' []) [''a'', ''b'', ''c'', ''d''],
     wf_Edges = diamond_edges, wf_Output = no_output_def\<rparr>"

definition diamond_graph :: graph where
  "diamond_graph = projr (Build diamond)"

lemmas sample_defs = sample_edge_def sample_node_def diamond_edges_def diamond_def no_output_def_def
  EdgeNormal_def EdgeCondition_def

lemma diamond_Build: "Build diamond = Inr diamond_graph"
  by (simp add: diamond_graph_def Build_def sample_defs empty_graph_def add_edge_def)

lemma diamond_gNodes: "dom (gNodes diamond_graph) = {''a'', ''b'', ''c'', ''d''}"
  using Build_Inr [OF diamond_Build] by (simp add: diamond_def sample_node_def)

lemma diamond_enumerates: "enumerates [''d'', ''b'', ''a'', ''c''] (gNodes diamond_graph)"
  unfolding enumerates_def diamond_gNodes by auto

theorem DetectCycle_exact_witness:
  "DetectCycle [''d'', ''b'', ''a'', ''c''] diamond_graph = Some None \<and> acyclic (edge_rel diamond_graph)"
proof -
  have "DetectCycle [''d'', ''b'', ''a'', ''c''] diamond_graph = Some None"
    by (simp add: diamond_graph_def Build_def sample_defs empty_graph_def add_edge_def DetectCycle_def
        dfs_def numeral_eq_Suc)
  with DetectCycle_exact [OF diamond_Build diamond_enumerates] show ?thesis
    by (simp split: if_splits)
qed

text \<open>
  C18. The scheduling order: for an acyclic definition \<^verbatim>\<open>TopoSort\<close> returns every node exactly once
  and every node after all of its parents, whatever the visiting order of the node map;
  for a cyclic one it returns the error, so no order is ever produced for a graph that
  has none.
\<close>

theorem TopoSort_orders_acyclic:
  assumes "Build def = Inr g" and "enumerates it (gNodes g)"
  shows "if acyclic (edge_rel g)
         then \<exists>order. TopoSort it g = Some (Inr order) \<and> distinct order
           \<and> set order = nd_Name ` set (wf_Nodes def)
           \<and> (\<forall>ed\<in>set (wf_Edges def). \<exists>xs ys zs. order = xs @ From ed # ys @ To ed # zs)
         else TopoSort it g = Some (Inl TopoSortFailed)"
proof (cases "acyclic (edge_rel g)")
  case True
  from Build_Inr [OF assms(1)] have wf: "wf_graph g" and ns: "dom (gNodes g) = nd_Name ` set (wf_Nodes def)"
    and es: "\<And>u. Edges g u = filter (\<lambda>ed. From ed = u) (wf_Edges def)" by auto
  from graph_pkg.order_topo [OF wf assms(2) True] obtain order where
    ord: "TopoSort it g = Some (Inr order)" "topo_order g order" by blast
  from ord(2) have o: "distinct order" "set order = dom (gNodes g)" "topo_from g {} order"
    by (auto simp: topo_order_def enumerates_def)
  have "\<exists>xs ys zs. order = xs @ From ed # ys @ To ed # zs" if ed: "ed \<in> set (wf_Edges def)" for ed
  proof -
    have e: "(From ed, To ed) \<in> edge_rel g"
      using ed by (auto simp: edge_rel_def wf_graph_children [OF wf] es)
    then have "To ed \<in> set order" using edge_rel_dom [OF wf] o(2) by auto
    with topo_from_trancl [OF wf o(3) _ e o(1)] obtain ys zs where
      "order = ys @ To ed # zs" "From ed \<in> set ys" by auto
    then show ?thesis by (metis append_Cons append_assoc split_list)
  qed
  with ord o ns True show ?thesis by auto
next
  case False
  then show ?thesis using TopoSort_correct [of g it] Build_Inr [OF assms(1)] assms(2) by simp
qed

theorem TopoSort_orders_acyclic_witness:
  "TopoSort [''d'', ''b'', ''a'', ''c''] diamond_graph = Some (Inr [''a'', ''b'', ''c'', ''d''])
   \<and> acyclic (edge_rel diamond_graph)"
proof -
  have "TopoSort [''d'', ''b'', ''a'', ''c''] diamond_graph = Some (Inr [''a'', ''b'', ''c'', ''d''])"
    by (simp add: diamond_graph_def Build_def sample_defs empty_graph_def add_edge_def TopoSort_def
        in_degrees_def numeral_eq_Suc)
  with TopoSort_orders_acyclic [OF diamond_Build diamond_enumerates] show ?thesis
    by (simp split: if_splits)
qed

end
