(* ===== verification/Flux_Context.thy ===== *)
theory Flux_Context
  imports Flux_Graph
begin

text \<open>
  \<^verbatim>\<open>workflow/nodes/context.go\<close>: the run context that one execution of a task carries along,
  with the operations that read and write it. The record \<open>env\<close> collects what the engine
  calls but does not contain: the expression library, the hash of a JSON document, the
  steps behind the nodes, the recorder of node costs, the outcome of each database write,
  the wall clock and the orders in which Go visits the keys of a map and the database the rows
  of a table.
\<close>

subsection \<open>Schemas and nodes\<close>

record field_schema =
  fs_Type :: string
  fs_Required :: bool
  fs_Desc :: string

type_synonym data_schema = "(string \<times> field_schema) list"

record node =
  n_Name :: name
  n_Label :: string
  n_Type :: string
  n_Version :: string
  n_Weight :: rat
  n_Config :: gmap
  n_InputMapping :: "(string \<times> string) list"
  StepName :: string
  InputSchema :: data_schema
  OutputSchema :: data_schema
  AsyncMode :: bool
  MaxRetries :: nat

subsection \<open>The run context\<close>

record event =
  ev_TaskID :: int
  ev_RootTaskID :: int
  ev_Step :: string
  ev_Type :: string
  ev_Meta :: gmap

record async_job =
  job_TaskID :: int
  job_Node :: name
  job_StepAdapter :: string
  job_Input :: gmap
  job_Hash :: string

record node_out =
  no_status :: "string option"
  no_output :: "gmap option"

record task_output =
  ResultType :: string
  PrimaryFileUrl :: string
  CoverUrl :: "string option"
  PreviewUrl :: "string option"
  Width :: "int option"
  Height :: "int option"
  Duration :: "rat option"
  Extras :: gmap

record run_ctx =
  Task :: task
  Input :: gmap
  OutNodes :: "name \<rightharpoonup> node_out"
  Final :: "task_output option"
  Runtime :: "name \<rightharpoonup> node_runtime"
  ActivatedEdges :: "string \<rightharpoonup> bool"
  WfName :: string
  WfNodes :: "name list"
  WfEdges :: "edge_def list"
  WfOutput :: output_def
  dbNodes :: "name \<rightharpoonup> node_runtime"
  dbTask :: "task option"
  dbBindings :: "name \<rightharpoonup> await_binding"
  subTasks :: "string \<rightharpoonup> task"
  taskQueue :: "int list"
  jobs :: "async_job list"
  Depth :: int
  writes :: nat
  events :: "event list"

datatype step_result = StepOk | StepSuspend suspend_reason | StepErr go_error

record step_outcome =
  so_output :: gmap
  so_checkpoint :: "gmap option"
  so_result :: step_result

record env =
  expr_compile :: "gmap \<Rightarrow> string \<Rightarrow> go_error option"
  expr_run :: "gmap \<Rightarrow> string \<Rightarrow> go_error + gval"
  json_hash :: "string \<Rightarrow> gmap \<Rightarrow> string"
  db_err :: "nat \<Rightarrow> go_error option"
  clock :: "nat \<Rightarrow> int"
  range_rt :: "(name \<rightharpoonup> node_runtime) \<Rightarrow> name list"
  step_run :: "node \<Rightarrow> nat \<Rightarrow> run_ctx \<Rightarrow> gmap \<Rightarrow> gmap \<Rightarrow> step_outcome"
  parse_float :: "string \<Rightarrow> rat"
  parse_duration :: "string \<Rightarrow> int option"
  sprint :: "gval \<Rightarrow> string"
  expr_config_field :: "string \<Rightarrow> string \<Rightarrow> bool"
  sub_version :: "string \<Rightarrow> go_error + int"
  md5_json :: "gmap \<Rightarrow> string"
  item_hash :: "gval \<Rightarrow> string"
  sha1_hex :: "string \<Rightarrow> string"
  json_text :: "gval \<Rightarrow> string"
  range_obj :: "gmap \<Rightarrow> string list"
  range_sub :: "(string \<rightharpoonup> task) \<Rightarrow> string list"
  snow_id :: "nat \<Rightarrow> int"
  sub_binding :: bool
  usage_of :: "node \<Rightarrow> gmap option \<Rightarrow> gmap option \<Rightarrow> go_error + gval list"
  cost_record :: "node \<Rightarrow> node_runtime \<Rightarrow> gval list \<Rightarrow> go_error + gval list"

subsection \<open>Database writes\<close>

text \<open>
  The \<open>k\<close>-th write of a run fails with \<open>db_err e k\<close> or goes through. An update of a missing
  row changes nothing. The resolved input, the progress and the plan marks of a runtime
  are not columns of its row; the worker of a task is not written by a task update.
\<close>

definition row_of :: "node_runtime \<Rightarrow> node_runtime" where
  "row_of rt = rt\<lparr>ResolvedInput := None, Progress := 0, ExecutionReason := [], PlanAction := []\<rparr>"

definition nodeRepo_Update :: "env \<Rightarrow> node_runtime \<Rightarrow> run_ctx \<Rightarrow> go_error option \<times> run_ctx" where
  "nodeRepo_Update e rt c =
     (case db_err e (writes c) of
        Some m \<Rightarrow> (Some m, c\<lparr>writes := Suc (writes c)\<rparr>)
      | None \<Rightarrow> (None, c\<lparr>writes := Suc (writes c),
           dbNodes := (dbNodes c)(Name rt := map_option (\<lambda>_. row_of rt) (dbNodes c (Name rt)))\<rparr>))"

definition nodeRepo_Create :: "env \<Rightarrow> node_runtime \<Rightarrow> run_ctx \<Rightarrow> go_error option \<times> run_ctx" where
  "nodeRepo_Create e rt c =
     (case db_err e (writes c) of
        Some m \<Rightarrow> (Some m, c\<lparr>writes := Suc (writes c)\<rparr>)
      | None \<Rightarrow> (None, c\<lparr>writes := Suc (writes c),
                       dbNodes := (dbNodes c)(Name rt \<mapsto> row_of rt)\<rparr>))"

definition taskRepo_Update :: "env \<Rightarrow> task \<Rightarrow> run_ctx \<Rightarrow> go_error option \<times> run_ctx" where
  "taskRepo_Update e t c =
     (case db_err e (writes c) of
        Some m \<Rightarrow> (Some m, c\<lparr>writes := Suc (writes c)\<rparr>)
      | None \<Rightarrow> (None, c\<lparr>writes := Suc (writes c),
           dbTask := map_option (\<lambda>row. t\<lparr>WorkerID := WorkerID row\<rparr>) (dbTask c)\<rparr>))"

definition set_runtime :: "name \<Rightarrow> node_runtime \<Rightarrow> run_ctx \<Rightarrow> run_ctx" where
  "set_runtime n rt c = c\<lparr>Runtime := (Runtime c)(n \<mapsto> rt)\<rparr>"

definition publish :: "event \<Rightarrow> run_ctx \<Rightarrow> run_ctx" where
  "publish ev c = c\<lparr>events := events c @ [ev]\<rparr>"

subsection \<open>Node outputs\<close>

fun node_state_str :: "node_state \<Rightarrow> string" where
  "node_state_str NodePending = ''pending''"
| "node_state_str NodeReady = ''ready''"
| "node_state_str NodeRunning = ''running''"
| "node_state_str NodeAwaiting = ''awaiting''"
| "node_state_str NodeRetrying = ''retrying''"
| "node_state_str NodeSuccess = ''success''"
| "node_state_str NodeFailed = ''failed''"
| "node_state_str NodeSkipped = ''skipped''"
| "node_state_str NodeCanceled = ''canceled''"
| "node_state_str NodeSuccessPendingEdges = ''success_pending_edges''"
| "node_state_str NodeFailedPendingEdges = ''failed_pending_edges''"

definition node_out_of :: "run_ctx \<Rightarrow> name \<Rightarrow> node_out" where
  "node_out_of c n = (case OutNodes c n of
      None \<Rightarrow> \<lparr>no_status = None, no_output = None\<rparr> | Some o' \<Rightarrow> o')"

definition UpdateNodeStatus :: "name \<Rightarrow> string \<Rightarrow> run_ctx \<Rightarrow> run_ctx" where
  "UpdateNodeStatus n s c =
     c\<lparr>OutNodes := (OutNodes c)(n \<mapsto> (node_out_of c n)\<lparr>no_status := Some s\<rparr>)\<rparr>"

definition GetNodeOutput :: "run_ctx \<Rightarrow> name \<Rightarrow> gmap option" where
  "GetNodeOutput c n = no_output (node_out_of c n)"

definition ClearNodeOutput :: "name \<Rightarrow> run_ctx \<Rightarrow> run_ctx" where
  "ClearNodeOutput n c =
     c\<lparr>OutNodes := (OutNodes c)(n \<mapsto> (node_out_of c n)\<lparr>no_output := None\<rparr>)\<rparr>"

text \<open>\<^verbatim>\<open>strconv.ParseInt(s, 10, 64)\<close>: an optional sign and decimal digits within 64 bits.\<close>

definition digit_val :: "char \<Rightarrow> int option" where
  "digit_val ch = (let k = of_char ch :: int in if 48 \<le> k \<and> k \<le> 57 then Some (k - 48) else None)"

fun parse_digits :: "string \<Rightarrow> int \<Rightarrow> int option" where
  "parse_digits [] acc = Some acc"
| "parse_digits (ch # s) acc =
     (case digit_val ch of None \<Rightarrow> None | Some d \<Rightarrow> parse_digits s (10 * acc + d))"

definition ParseInt64 :: "string \<Rightarrow> int option" where
  "ParseInt64 s =
     (let (neg, ds) = (case s of
            [] \<Rightarrow> (False, [])
          | ch # r \<Rightarrow> if ch = CHR ''-'' then (True, r) else if ch = CHR ''+'' then (False, r)
                    else (False, s))
      in if ds = [] then None
         else (case parse_digits ds 0 of
                 None \<Rightarrow> None
               | Some k \<Rightarrow> if neg then (if k \<le> 2 ^ 63 then Some (- k) else None)
                         else (if k < 2 ^ 63 then Some k else None)))"

definition ValidateFieldTypeStrict :: "field_schema \<Rightarrow> gval \<Rightarrow> go_error option" where
  "ValidateFieldTypeStrict fs v =
     (if v = VNil then (if \<not> fs_Required fs then None else Some ''nil value'')
      else if fs_Type fs = ''string'' then
        (case v of VStr _ \<Rightarrow> None | _ \<Rightarrow> Some ''expected string'')
      else if fs_Type fs = ''integer'' then
        (case v of VInt _ \<Rightarrow> None | _ \<Rightarrow> Some ''expected integer'')
      else if fs_Type fs = ''number'' then
        (case v of VInt _ \<Rightarrow> None | VFloat _ \<Rightarrow> None
         | VStr s \<Rightarrow> (if ParseInt64 s = None then Some ''expected number'' else None)
         | _ \<Rightarrow> Some ''expected number'')
      else if fs_Type fs = ''bool'' \<or> fs_Type fs = ''boolean'' then
        (case v of VBool _ \<Rightarrow> None | _ \<Rightarrow> Some ''expected bool'')
      else if fs_Type fs = ''object'' then
        (case v of VMap _ \<Rightarrow> None | _ \<Rightarrow> Some ''expected object'')
      else if fs_Type fs = ''array'' then
        (case v of VList _ \<Rightarrow> None | _ \<Rightarrow> Some ''expected array'')
      else None)"

text \<open>
  The loop of \<^verbatim>\<open>SetNodeOutput\<close> over the schema: a nil array becomes an empty one, a missing
  required field or a type mismatch ends the loop with an error. Earlier rewrites of the
  data stay in place on an error, as the map is shared.
\<close>

fun check_output_fields :: "data_schema \<Rightarrow> gmap \<Rightarrow> go_error option \<times> gmap" where
  "check_output_fields [] d = (None, d)"
| "check_output_fields ((f, fs) # sch) d =
     (let ex = map_of d f;
          fix_nil = (ex = Some VNil \<and> fs_Type fs = ''array'');
          d' = (if fix_nil then AList.update f (VList []) d else d);
          v = (if fix_nil then Some (VList []) else ex)
      in if fs_Required fs \<and> ex = None then (Some (''missing required output field: '' @ f), d')
         else case v of
             None \<Rightarrow> check_output_fields sch d'
           | Some w \<Rightarrow> (case ValidateFieldTypeStrict fs w of
                 Some m \<Rightarrow> (Some (''output field '' @ f @ '': '' @ m), d')
               | None \<Rightarrow> check_output_fields sch d'))"

definition SetNodeOutput :: "name \<Rightarrow> gmap \<Rightarrow> data_schema \<Rightarrow> run_ctx \<Rightarrow> go_error option \<times> gmap \<times> run_ctx" where
  "SetNodeOutput n d sch c =
     (case check_output_fields sch d of
        (Some m, d') \<Rightarrow> (Some m, d', c)
      | (None, d') \<Rightarrow> (None, d',
           c\<lparr>OutNodes := (OutNodes c)(n \<mapsto> (node_out_of c n)\<lparr>no_output := Some d'\<rparr>)\<rparr>))"

subsection \<open>Expressions\<close>

definition buildExprEnvSchema :: "run_ctx \<Rightarrow> gmap" where
  "buildExprEnvSchema c =
     fold (\<lambda>n acc. AList.update n (VMap []) acc) (WfNodes c)
       [(''input'', VMap []),
        (''nodes'', VMap (fold (\<lambda>n acc. AList.update n
            (VMap [(''status'', VStr ''''), (''output'', VMap [])]) acc) (WfNodes c) []))]"

definition expr_node :: "run_ctx \<Rightarrow> name \<Rightarrow> gmap" where
  "expr_node c n =
     [(''status'', VStr (case no_status (node_out_of c n) of None \<Rightarrow> '''' | Some s \<Rightarrow> s)),
      (''output'', VMap (case no_output (node_out_of c n) of None \<Rightarrow> [] | Some m \<Rightarrow> m))]"

definition expr_node_output :: "run_ctx \<Rightarrow> name \<Rightarrow> gval" where
  "expr_node_output c n = VMap (case no_output (node_out_of c n) of None \<Rightarrow> [] | Some m \<Rightarrow> m)"

definition buildExprEnv :: "run_ctx \<Rightarrow> gmap" where
  "buildExprEnv c =
     AList.update ''nodes''
       (VMap (fold (\<lambda>n acc. AList.update n (VMap (expr_node c n)) acc) (WfNodes c) []))
       (fold (\<lambda>n acc. AList.update n (expr_node_output c n) acc) (WfNodes c)
          [(''input'', VMap (Input c))])"

definition eval :: "env \<Rightarrow> run_ctx \<Rightarrow> string \<Rightarrow> go_error + gval" where
  "eval e c s =
     (case expr_compile e (buildExprEnvSchema c) s of
        Some m \<Rightarrow> Inl m
      | None \<Rightarrow> expr_run e (buildExprEnv c) s)"

definition EvalBool :: "env \<Rightarrow> run_ctx \<Rightarrow> string \<Rightarrow> go_error + bool" where
  "EvalBool e c s =
     (case eval e c s of
        Inl m \<Rightarrow> Inl m
      | Inr VNil \<Rightarrow> Inl ''expr result is nil''
      | Inr (VBool b) \<Rightarrow> Inr b
      | Inr _ \<Rightarrow> Inl ''expr result is not bool'')"

subsection \<open>The final output\<close>

definition trunc :: "rat \<Rightarrow> int" where
  "trunc q = (if 0 \<le> q then \<lfloor>q\<rfloor> else \<lceil>q\<rceil>)"

definition ToInt64 :: "gval \<Rightarrow> int" where
  "ToInt64 v = (case v of VInt k \<Rightarrow> k | VFloat q \<Rightarrow> trunc q
     | VStr s \<Rightarrow> (case ParseInt64 s of None \<Rightarrow> 0 | Some k \<Rightarrow> k) | _ \<Rightarrow> 0)"

definition ToFloat64 :: "env \<Rightarrow> gval \<Rightarrow> rat" where
  "ToFloat64 e v = (case v of VInt k \<Rightarrow> of_int k | VFloat q \<Rightarrow> q | VStr s \<Rightarrow> parse_float e s | _ \<Rightarrow> 0)"

definition resolve_str :: "env \<Rightarrow> run_ctx \<Rightarrow> string \<Rightarrow> go_error + string" where
  "resolve_str e c path =
     (if path = [] then Inr []
      else case eval e c path of
          Inl m \<Rightarrow> Inl m
        | Inr (VStr s) \<Rightarrow> Inr s
        | Inr _ \<Rightarrow> Inr [])"

definition resolve_opt :: "env \<Rightarrow> run_ctx \<Rightarrow> string \<Rightarrow> string option" where
  "resolve_opt e c path =
     (if path = [] then None
      else case resolve_str e c path of Inl _ \<Rightarrow> None | Inr s \<Rightarrow> Some s)"

definition eval_or_nil :: "env \<Rightarrow> run_ctx \<Rightarrow> string \<Rightarrow> gval" where
  "eval_or_nil e c path = (case eval e c path of Inl _ \<Rightarrow> VNil | Inr v \<Rightarrow> v)"

fun eval_extras :: "env \<Rightarrow> run_ctx \<Rightarrow> (string \<times> string) list \<Rightarrow> gmap \<Rightarrow> go_error + gmap" where
  "eval_extras e c [] acc = Inr acc"
| "eval_extras e c ((k, path) # xs) acc =
     (case eval e c path of
        Inl m \<Rightarrow> Inl m
      | Inr v \<Rightarrow> eval_extras e c xs (AList.update k v acc))"

definition GetFinal :: "env \<Rightarrow> run_ctx \<Rightarrow> (go_error + task_output) \<times> run_ctx" where
  "GetFinal e c =
     (case Final c of
        Some f \<Rightarrow> (Inr f, c)
      | None \<Rightarrow>
         (let od = WfOutput c in
          case resolve_str e c (od_PrimaryFileUrl od) of
            Inl m \<Rightarrow> (Inl m, c)
          | Inr url \<Rightarrow>
             (case eval_extras e c (od_Extras od) [] of
                Inl m \<Rightarrow> (Inl m, c)
              | Inr ex \<Rightarrow>
                 (let f = \<lparr>ResultType = od_ResultType od, PrimaryFileUrl = url,
                      CoverUrl = resolve_opt e c (od_CoverUrl od),
                      PreviewUrl = resolve_opt e c (od_PreviewUrl od),
                      Width = (if od_Width od = [] then None
                               else Some (ToInt64 (eval_or_nil e c (od_Width od)))),
                      Height = (if od_Height od = [] then None
                                else Some (ToInt64 (eval_or_nil e c (od_Height od)))),
                      Duration = (if od_Duration od = [] then None
                                  else Some (ToFloat64 e (eval_or_nil e c (od_Duration od)))),
                      Extras = ex\<rparr>
                  in (Inr f, c\<lparr>Final := Some f\<rparr>)))))"

definition opt_field :: "string \<Rightarrow> ('a \<Rightarrow> gval) \<Rightarrow> 'a option \<Rightarrow> gmap" where
  "opt_field k f v = (case v of None \<Rightarrow> [] | Some x \<Rightarrow> [(k, f x)])"

definition task_output_json :: "task_output \<Rightarrow> gmap" where
  "task_output_json f =
     [(''result_type'', VStr (ResultType f)), (''primary_file_url'', VStr (PrimaryFileUrl f))]
     @ opt_field ''cover_url'' VStr (CoverUrl f) @ opt_field ''preview_url'' VStr (PreviewUrl f)
     @ opt_field ''width'' VInt (Width f) @ opt_field ''height'' VInt (Height f)
     @ opt_field ''duration'' VFloat (Duration f)
     @ (if Extras f = [] then [] else [(''extras'', VMap (Extras f))])"

subsection \<open>Progress\<close>

definition IsSystemNode :: "name \<Rightarrow> bool" where
  "IsSystemNode n \<longleftrightarrow> n = ''start'' \<or> n = ''end''"

definition GetNodeIndex :: "run_ctx \<Rightarrow> name \<Rightarrow> nat" where
  "GetNodeIndex c n = (case Runtime c n of None \<Rightarrow> 0 | Some r \<Rightarrow> BizIndex r)"

fun progress_sum :: "node_runtime list \<Rightarrow> rat \<times> rat \<Rightarrow> rat \<times> rat" where
  "progress_sum [] acc = acc"
| "progress_sum (r # rs) (p, w) =
     (if Weight r \<le> 0 then progress_sum rs (p, w)
      else progress_sum rs
        (p + (if State r = NodeSuccess then 1 else Progress r) * Weight r, w + Weight r))"

definition runtime_list :: "env \<Rightarrow> run_ctx \<Rightarrow> node_runtime list" where
  "runtime_list e c = List.map_filter (Runtime c) (range_rt e (Runtime c))"

definition CalculateTaskProgress :: "env \<Rightarrow> run_ctx \<Rightarrow> rat" where
  "CalculateTaskProgress e c =
     (let (p, w) = progress_sum (runtime_list e c) (0, 0) in if w = 0 then 0 else p / w)"

definition GetNodeTotal :: "env \<Rightarrow> run_ctx \<Rightarrow> nat" where
  "GetNodeTotal e c = length (filter (\<lambda>r. \<not> IsSystemNode (Name r)) (runtime_list e c))"

text \<open>
  Node events carry the type with a prefix; a progress event also sets the progress of the
  node.
\<close>

definition EmitNodeEvent :: "name \<Rightarrow> string \<Rightarrow> rat \<Rightarrow> gmap \<Rightarrow> run_ctx \<Rightarrow> run_ctx" where
  "EmitNodeEvent n ty p meta c =
     (let c1 = (case Runtime c n of
                  Some r \<Rightarrow> if ty = ''progress'' then set_runtime n (r\<lparr>Progress := p\<rparr>) c else c
                | None \<Rightarrow> c)
      in publish \<lparr>ev_TaskID = task_id (Task c), ev_RootTaskID = RootID (Task c), ev_Step = n,
                  ev_Type = ''node_'' @ ty, ev_Meta = meta\<rparr> c1)"

definition canonicalHash :: "env \<Rightarrow> string \<Rightarrow> gmap option \<Rightarrow> string" where
  "canonicalHash e salt d = (case d of None \<Rightarrow> '''' | Some m \<Rightarrow> json_hash e salt m)"


subsection \<open>Frame conditions\<close>

text \<open>
  The fields that database writes, status updates and published events leave alone.
\<close>

definition same_frame :: "run_ctx \<Rightarrow> run_ctx \<Rightarrow> bool" where
  "same_frame c c' \<longleftrightarrow> WfNodes c' = WfNodes c \<and> WfEdges c' = WfEdges c \<and> WfOutput c' = WfOutput c
     \<and> Input c' = Input c \<and> dbBindings c' = dbBindings c \<and> subTasks c' = subTasks c
     \<and> taskQueue c' = taskQueue c \<and> jobs c' = jobs c \<and> Depth c' = Depth c \<and> Final c' = Final c
     \<and> (Task c')\<lparr>task_Progress := 0\<rparr> = (Task c)\<lparr>task_Progress := 0\<rparr>"

lemma same_frame_refl [simp, intro]: "same_frame c c"
  by (simp add: same_frame_def)

lemma same_frame_trans [trans]: "same_frame a b \<Longrightarrow> same_frame b c \<Longrightarrow> same_frame a c"
  by (simp add: same_frame_def)

lemma same_frame_set [simp]:
  "same_frame c0 (c\<lparr>ActivatedEdges := m\<rparr>) = same_frame c0 c"
  "same_frame c0 (set_runtime n rt c) = same_frame c0 c"
  "same_frame c0 (UpdateNodeStatus n s c) = same_frame c0 c"
  "same_frame c0 (publish ev c) = same_frame c0 c"
  by (simp_all add: same_frame_def set_runtime_def UpdateNodeStatus_def publish_def)

lemma nodeRepo_Update_frame [ctx_frame]:
  "Runtime (snd (nodeRepo_Update e rt c)) = Runtime c"
  "ActivatedEdges (snd (nodeRepo_Update e rt c)) = ActivatedEdges c"
  "Task (snd (nodeRepo_Update e rt c)) = Task c"
  "OutNodes (snd (nodeRepo_Update e rt c)) = OutNodes c"
  "dbTask (snd (nodeRepo_Update e rt c)) = dbTask c"
  "same_frame c0 (snd (nodeRepo_Update e rt c)) = same_frame c0 c"
  by (auto simp: nodeRepo_Update_def same_frame_def split: option.splits)

lemma taskRepo_Update_frame [ctx_frame]:
  "Runtime (snd (taskRepo_Update e t c)) = Runtime c"
  "ActivatedEdges (snd (taskRepo_Update e t c)) = ActivatedEdges c"
  "Task (snd (taskRepo_Update e t c)) = Task c"
  "OutNodes (snd (taskRepo_Update e t c)) = OutNodes c"
  "dbNodes (snd (taskRepo_Update e t c)) = dbNodes c"
  "same_frame c0 (snd (taskRepo_Update e t c)) = same_frame c0 c"
  by (auto simp: taskRepo_Update_def same_frame_def split: option.splits)

lemma set_runtime_frame [ctx_frame]:
  "Runtime (set_runtime n rt c) = (Runtime c)(n \<mapsto> rt)"
  "ActivatedEdges (set_runtime n rt c) = ActivatedEdges c"
  "Task (set_runtime n rt c) = Task c"
  "OutNodes (set_runtime n rt c) = OutNodes c"
  "dbTask (set_runtime n rt c) = dbTask c"
  "dbNodes (set_runtime n rt c) = dbNodes c"
  "writes (set_runtime n rt c) = writes c"
  by (simp_all add: set_runtime_def)

lemma UpdateNodeStatus_frame [ctx_frame]:
  "Runtime (UpdateNodeStatus n s c) = Runtime c"
  "ActivatedEdges (UpdateNodeStatus n s c) = ActivatedEdges c"
  "Task (UpdateNodeStatus n s c) = Task c"
  "dbTask (UpdateNodeStatus n s c) = dbTask c"
  "dbNodes (UpdateNodeStatus n s c) = dbNodes c"
  "writes (UpdateNodeStatus n s c) = writes c"
  by (simp_all add: UpdateNodeStatus_def)

lemma publish_frame [ctx_frame]:
  "Runtime (publish ev c) = Runtime c" "ActivatedEdges (publish ev c) = ActivatedEdges c"
  "Task (publish ev c) = Task c" "dbTask (publish ev c) = dbTask c"
  "dbNodes (publish ev c) = dbNodes c" "OutNodes (publish ev c) = OutNodes c"
  "writes (publish ev c) = writes c"
  by (simp_all add: publish_def)

subsection \<open>A sample environment and task\<close>

text \<open>Concrete values at which the general theorems are instantiated.\<close>

definition sample_env :: "bool \<Rightarrow> env" where
  "sample_env go =
     \<lparr>expr_compile = \<lambda>_ _. None, expr_run = \<lambda>_ _. Inr (VBool go), json_hash = \<lambda>_ _. ''h'',
      db_err = \<lambda>_. None, clock = int, range_rt = \<lambda>m. filter (\<lambda>n. m n \<noteq> None) [''a'', ''b'', ''c'', ''d''],
      step_run = \<lambda>_ _ _ _ _. \<lparr>so_output = [(''x'', VInt 1)], so_checkpoint = None, so_result = StepOk\<rparr>,
      parse_float = \<lambda>_. 0, parse_duration = \<lambda>_. None, sprint = \<lambda>_. [],
      expr_config_field = \<lambda>_ _. False, sub_version = \<lambda>_. Inr 1, md5_json = \<lambda>_. ''0'', item_hash = \<lambda>_. ''i'',
      sha1_hex = id, json_text = \<lambda>_. ''{}'', range_obj = map fst, range_sub = \<lambda>_. [],
      snow_id = int, sub_binding = False, usage_of = \<lambda>_ _ _. Inr [], cost_record = \<lambda>_ _ _. Inr []\<rparr>"

definition sample_task :: task where
  "sample_task = \<lparr>task_id = 7, ParentID = None, RootID = 7, Status = TaskPending, InputJSON = None,
     OutputJSON = None, RetryCount = 0, ErrorMessage = [], WorkflowVersionID = 1, WorkerID = [],
     ParentNode = None, MapIndex = None, task_Progress = 0, BaseRunID = 0, ForkedFrom = None,
     RunDepth = 0, ResumeFrom = None\<rparr>"

definition sample_ctx :: run_ctx where
  "sample_ctx = \<lparr>Task = sample_task, Input = [], OutNodes = Map.empty, Final = None, Runtime = Map.empty,
     ActivatedEdges = Map.empty, WfName = [], WfNodes = [], WfEdges = [], WfOutput = no_output_def,
     dbNodes = Map.empty, dbTask = Some sample_task, dbBindings = Map.empty, subTasks = Map.empty,
     taskQueue = [], jobs = [], Depth = 0, writes = 0, events = []\<rparr>"

definition sample_rt :: "name \<Rightarrow> node_state \<Rightarrow> node_runtime" where
  "sample_rt n st = \<lparr>Name = n, State = st, StartedAt = None, FinishedAt = None, InputHash = [],
     ResolvedInput = None, Output = None, Checkpoint = None, Error = [], Progress = 0, Weight = 1,
     Index = 0, BizIndex = 0, rt_ActivatedEdges = Map.empty, OutputHash = [], ReusedFromTaskID = None,
     ReusedFromNode = None, IsInjected = False, IsDirty = False, DirtyReason = [], ReuseKind = ReuseNone,
     ExecutionReason = [], PlanAction = []\<rparr>"

definition sample_cnode :: "name \<Rightarrow> node" where
  "sample_cnode n = \<lparr>n_Name = n, n_Label = [], n_Type = ''tool'', n_Version = [], n_Weight = 1, n_Config = [],
     n_InputMapping = [], StepName = [], InputSchema = [], OutputSchema = [], AsyncMode = False,
     MaxRetries = 0\<rparr>"

subsection \<open>Bounds and checked outputs\<close>

lemma progress_sum_bounds:
  assumes "\<forall>r\<in>set rs. 0 \<le> Progress r \<and> Progress r \<le> 1" and "0 \<le> p" "p \<le> w"
    and "progress_sum rs (p, w) = (p', w')"
  shows "0 \<le> p' \<and> p' \<le> w'"
  using assms
proof (induction rs arbitrary: p w)
  case Nil
  then show ?case by simp
next
  case (Cons r rs)
  show ?case
  proof (cases "Weight r \<le> 0")
    case True
    with Cons.IH [of p w] Cons.prems show ?thesis by simp
  next
    case False
    let ?q = "if State r = NodeSuccess then 1 else Progress r"
    have q: "0 \<le> ?q" "?q \<le> 1" using Cons.prems(1) by auto
    have "0 \<le> ?q * Weight r" using q(1) False by (intro mult_nonneg_nonneg) auto
    moreover have "?q * Weight r \<le> Weight r" using q(2) False mult_right_mono [of ?q 1 "Weight r"] by simp
    ultimately have "0 \<le> p + ?q * Weight r" "p + ?q * Weight r \<le> w + Weight r"
      using Cons.prems(2,3) by auto
    moreover have "progress_sum rs (p + ?q * Weight r, w + Weight r) = (p', w')"
      using Cons.prems(4) False by simp
    ultimately show ?thesis using Cons.IH Cons.prems(1) by auto
  qed
qed

text \<open>A value fits a field when the strict validation has nothing to say.\<close>

definition conforms :: "data_schema \<Rightarrow> gmap \<Rightarrow> bool" where
  "conforms sch d \<longleftrightarrow> (\<forall>(f, fs)\<in>set sch. case map_of d f of
      None \<Rightarrow> \<not> fs_Required fs | Some v \<Rightarrow> ValidateFieldTypeStrict fs v = None)"

lemma empty_array_valid: "fs_Type fs = ''array'' \<Longrightarrow> ValidateFieldTypeStrict fs (VList []) = None"
  by (simp add: ValidateFieldTypeStrict_def)

text \<open>The rewrite of nil arrays is the only change the check makes to the data.\<close>

definition fill_arrays :: "data_schema \<Rightarrow> gmap \<Rightarrow> string \<Rightarrow> gval option" where
  "fill_arrays sch d k =
     (if map_of d k = Some VNil \<and> (\<exists>fs. map_of sch k = Some fs \<and> fs_Type fs = ''array'')
      then Some (VList []) else map_of d k)"

lemma map_of_update: "map_of (AList.update k v d) = (map_of d)(k \<mapsto> v)"
  by (rule update_conv')


lemma fill_arrays_absent: "f \<notin> fst ` set sch \<Longrightarrow> fill_arrays sch d f = map_of d f"
  by (auto simp: fill_arrays_def dest: map_of_SomeD) (metis fst_conv image_eqI map_of_SomeD)

lemma check_output_fields_ok:
  assumes "distinct (map fst sch)" and "check_output_fields sch d = (None, d')"
  shows "map_of d' = fill_arrays sch d \<and> conforms sch d'"
  using assms
proof (induction sch arbitrary: d)
  case Nil
  then show ?case by (auto simp: fill_arrays_def conforms_def)
next
  case (Cons p sch)
  obtain f fs where p: "p = (f, fs)" by force
  from Cons.prems(1) p have new: "f \<notin> fst ` set sch" and dist: "distinct (map fst sch)" by auto
  define nil where "nil \<longleftrightarrow> map_of d f = Some VNil \<and> fs_Type fs = ''array''"
  define d1 where "d1 = (if nil then AList.update f (VList []) d else d)"
  have d1: "map_of d1 = (if nil then (map_of d)(f \<mapsto> VList []) else map_of d)"
    by (simp add: d1_def map_of_update)
  have req: "map_of d f = None \<longrightarrow> \<not> fs_Required fs" and rest: "check_output_fields sch d1 = (None, d')"
    and val: "\<And>v. map_of d1 f = Some v \<Longrightarrow> ValidateFieldTypeStrict fs v = None"
    using Cons.prems(2) p d1
    by (auto simp: Let_def d1_def nil_def empty_array_valid split: if_splits option.splits)
  from Cons.IH [OF dist rest] have IH: "map_of d' = fill_arrays sch d1" "conforms sch d'" by auto
  have f': "map_of d' f = map_of d1 f" using IH(1) fill_arrays_absent [OF new] by simp
  have "map_of d' k = fill_arrays (p # sch) d k" for k
  proof (cases "k = f")
    case True
    have "fill_arrays (p # sch) d f = map_of d1 f" by (simp add: d1 p fill_arrays_def nil_def)
    with True f' show ?thesis by simp
  next
    case False
    then have "fill_arrays sch d1 k = fill_arrays (p # sch) d k" by (simp add: d1 p fill_arrays_def)
    with IH(1) show ?thesis by simp
  qed
  moreover have "conforms (p # sch) d'"
  proof -
    have "case map_of d' f of None \<Rightarrow> \<not> fs_Required fs | Some v \<Rightarrow> ValidateFieldTypeStrict fs v = None"
    proof (cases "map_of d1 f")
      case None
      then have "map_of d f = None" by (simp add: d1 split: if_splits)
      with req None f' show ?thesis by simp
    next
      case (Some v)
      with val [OF Some] f' show ?thesis by simp
    qed
    with IH(2) p show ?thesis by (simp add: conforms_def)
  qed
  ultimately show ?case by blast
qed

subsection \<open>Properties\<close>

text \<open>
  The progress of a task is a proportion: as long as the nodes report progress between 0
  and 1, the weighted mean that the engine stores lies between 0 and 1, whatever the
  weights are (nodes with a weight that is not positive are left out).
\<close>

lemma CalculateTaskProgress_bounds:
  assumes "\<forall>r\<in>set (runtime_list e c). 0 \<le> Progress r \<and> Progress r \<le> 1"
  shows "0 \<le> CalculateTaskProgress e c \<and> CalculateTaskProgress e c \<le> 1"
proof -
  obtain p w where pw: "progress_sum (runtime_list e c) (0, 0) = (p, w)" by force
  with progress_sum_bounds [OF assms, of 0 0] have "0 \<le> p" "p \<le> w" by auto
  with pw show ?thesis by (auto simp: CalculateTaskProgress_def divide_le_eq_1)
qed

lemma CalculateTaskProgress_bounds_witness:
  "0 \<le> CalculateTaskProgress (sample_env True) sample_ctx \<and> CalculateTaskProgress (sample_env True) sample_ctx \<le> 1"
  by (rule CalculateTaskProgress_bounds)
    (simp add: runtime_list_def sample_ctx_def sample_env_def List.map_filter_def)

text \<open>
  C37. What \<^verbatim>\<open>SetNodeOutput\<close> lets through: the stored output has every required field and each
  field of the schema has its type; it is the data the step returned with nil arrays made
  empty and nothing else changed; and no other node's output is touched. A refused output
  changes nothing.
\<close>

theorem SetNodeOutput_sound:
  assumes "distinct (map fst sch)"
  shows "(\<forall>d' c'. SetNodeOutput n d sch c = (None, d', c') \<longrightarrow>
            GetNodeOutput c' n = Some d' \<and> conforms sch d' \<and> map_of d' = fill_arrays sch d
            \<and> (\<forall>k. k \<noteq> n \<longrightarrow> GetNodeOutput c' k = GetNodeOutput c k))
       \<and> (\<forall>m d' c'. SetNodeOutput n d sch c = (Some m, d', c') \<longrightarrow> c' = c)"
proof (intro conjI allI impI)
  fix d' c'
  assume s: "SetNodeOutput n d sch c = (None, d', c')"
  then have chk: "check_output_fields sch d = (None, d')"
    and c': "c' = c\<lparr>OutNodes := (OutNodes c)(n \<mapsto> (node_out_of c n)\<lparr>no_output := Some d'\<rparr>)\<rparr>"
    by (auto simp: SetNodeOutput_def split: prod.splits option.splits)
  from check_output_fields_ok [OF assms chk] show "conforms sch d'" "map_of d' = fill_arrays sch d" by auto
  from c' show "GetNodeOutput c' n = Some d'"
    by (simp add: GetNodeOutput_def node_out_of_def)
  fix k
  assume "k \<noteq> n"
  with c' show "GetNodeOutput c' k = GetNodeOutput c k" by (simp add: GetNodeOutput_def node_out_of_def)
qed (auto simp: SetNodeOutput_def split: prod.splits option.splits)

theorem SetNodeOutput_sound_witness:
  "GetNodeOutput (snd (snd (SetNodeOutput ''a'' [(''xs'', VNil)]
      [(''xs'', \<lparr>fs_Type = ''array'', fs_Required = True, fs_Desc = []\<rparr>)] sample_ctx))) ''a'' = Some [(''xs'', VList [])]"
proof -
  let ?sch = "[(''xs'', \<lparr>fs_Type = ''array'', fs_Required = True, fs_Desc = []\<rparr>)]"
  obtain d' c' where s: "SetNodeOutput ''a'' [(''xs'', VNil)] ?sch sample_ctx = (None, d', c')" "d' = [(''xs'', VList [])]"
    by (simp add: SetNodeOutput_def ValidateFieldTypeStrict_def)
  with SetNodeOutput_sound [of ?sch "''a''" "[(''xs'', VNil)]" sample_ctx] show ?thesis by simp
qed

end
