(* ===== verification/Flux_Edge_State.thy ===== *)
theory Flux_Edge_State
  imports Flux_Context
begin

text \<open>
  \<^verbatim>\<open>engine/edge_state.go\<close> and the join predicates of \<^verbatim>\<open>engine.go\<close> and \<^verbatim>\<open>executor.go\<close>. The
  persisted flag of an edge is a boolean; every scheduling decision derives the four-valued
  state of an edge from the flag, the edge type and the state of the parent.
\<close>

datatype edge_state = EdgeStateUnknown | EdgeStateActive | EdgeStateInactive | EdgeStateBlocked

fun find_edge_to :: "edge_def list \<Rightarrow> name \<Rightarrow> edge_def option" where
  "find_edge_to [] child = None"
| "find_edge_to (e # es) child = (if To e = child then Some e else find_edge_to es child)"

definition findEdge :: "graph \<Rightarrow> name \<Rightarrow> name \<Rightarrow> edge_def option" where
  "findEdge dag parent child = find_edge_to (Edges dag parent) child"

definition resolveEdgeState :: "run_ctx \<Rightarrow> name \<Rightarrow> name \<Rightarrow> graph \<Rightarrow> edge_state" where
  "resolveEdgeState c parent child dag =
     (case Runtime c parent of
        None \<Rightarrow> EdgeStateUnknown
      | Some rt \<Rightarrow>
         if \<not> isTerminal (State rt) then EdgeStateUnknown
         else if State rt = NodeFailed \<or> State rt = NodeCanceled then EdgeStateBlocked
         else (case findEdge dag parent child of
             None \<Rightarrow> EdgeStateUnknown
           | Some edge \<Rightarrow>
              (case ActivatedEdges c (edge_key parent child) of
                 None \<Rightarrow> EdgeStateUnknown
               | Some activated \<Rightarrow>
                  if State rt = NodeSuccess then
                    (if EType edge = EdgeNormal then EdgeStateActive
                     else if activated then EdgeStateActive else EdgeStateInactive)
                  else if EType edge = EdgeNormal \<and> activated then EdgeStateBlocked
                  else EdgeStateInactive)))"

fun blocked_in :: "run_ctx \<Rightarrow> name \<Rightarrow> graph \<Rightarrow> name list \<Rightarrow> bool" where
  "blocked_in c n dag [] = False"
| "blocked_in c n dag (p # ps) =
     (if resolveEdgeState c p n dag = EdgeStateBlocked then True else blocked_in c n dag ps)"

definition hasBlockedParent :: "run_ctx \<Rightarrow> name \<Rightarrow> graph \<Rightarrow> bool" where
  "hasBlockedParent c n dag = blocked_in c n dag (Parents dag n)"

text \<open>The join loop of \<^verbatim>\<open>depsMet\<close>; the flag is \<^verbatim>\<open>hasActiveParent\<close>.\<close>

fun deps_loop :: "run_ctx \<Rightarrow> name \<Rightarrow> graph \<Rightarrow> name list \<Rightarrow> bool \<Rightarrow> bool" where
  "deps_loop c n dag [] act = act"
| "deps_loop c n dag (p # ps) act =
     (case resolveEdgeState c p n dag of
        EdgeStateUnknown \<Rightarrow> False
      | EdgeStateBlocked \<Rightarrow> False
      | EdgeStateInactive \<Rightarrow> deps_loop c n dag ps act
      | EdgeStateActive \<Rightarrow>
          (case Runtime c p of
             None \<Rightarrow> False
           | Some rt \<Rightarrow> if State rt \<noteq> NodeSuccess then False else deps_loop c n dag ps True))"

definition depsMet :: "run_ctx \<Rightarrow> name \<Rightarrow> graph \<Rightarrow> bool" where
  "depsMet c n dag = (if Parents dag n = [] then True else deps_loop c n dag (Parents dag n) False)"

text \<open>The loop of \<^verbatim>\<open>shouldSkipNode\<close>; the flags are \<^verbatim>\<open>hasActiveParent\<close> and \<^verbatim>\<open>hasUnknownParent\<close>.\<close>

fun skip_loop :: "run_ctx \<Rightarrow> name \<Rightarrow> graph \<Rightarrow> name list \<Rightarrow> bool \<Rightarrow> bool \<Rightarrow> bool" where
  "skip_loop c n dag [] act unk = (if unk then False else if \<not> act then True else False)"
| "skip_loop c n dag (p # ps) act unk =
     (case resolveEdgeState c p n dag of
        EdgeStateUnknown \<Rightarrow> skip_loop c n dag ps act True
      | EdgeStateBlocked \<Rightarrow> True
      | EdgeStateInactive \<Rightarrow> skip_loop c n dag ps act unk
      | EdgeStateActive \<Rightarrow> skip_loop c n dag ps True unk)"

definition shouldSkipNode :: "run_ctx \<Rightarrow> name \<Rightarrow> graph \<Rightarrow> bool" where
  "shouldSkipNode c n dag =
     (if Parents dag n = [] then False else skip_loop c n dag (Parents dag n) False False)"

fun can_skip_loop :: "run_ctx \<Rightarrow> name \<Rightarrow> graph \<Rightarrow> name list \<Rightarrow> bool" where
  "can_skip_loop c n dag [] = True"
| "can_skip_loop c n dag (p # ps) =
     (case resolveEdgeState c p n dag of
        EdgeStateUnknown \<Rightarrow> False
      | EdgeStateBlocked \<Rightarrow> can_skip_loop c n dag ps
      | EdgeStateInactive \<Rightarrow> can_skip_loop c n dag ps
      | EdgeStateActive \<Rightarrow> False)"

definition canSkipNode :: "run_ctx \<Rightarrow> name \<Rightarrow> graph \<Rightarrow> bool" where
  "canSkipNode c n dag = can_skip_loop c n dag (Parents dag n)"

subsection \<open>What the join loops decide\<close>

abbreviation estate :: "run_ctx \<Rightarrow> name \<Rightarrow> graph \<Rightarrow> name \<Rightarrow> edge_state" where
  "estate c n dag p \<equiv> resolveEdgeState c p n dag"

lemma resolveEdgeState_active_success:
  "resolveEdgeState c p n dag = EdgeStateActive \<Longrightarrow> \<exists>rt. Runtime c p = Some rt \<and> State rt = NodeSuccess"
  by (auto simp: resolveEdgeState_def split: option.splits if_splits)

lemma blocked_in_iff: "blocked_in c n dag ps \<longleftrightarrow> (\<exists>p\<in>set ps. estate c n dag p = EdgeStateBlocked)"
  by (induction ps) auto

lemma deps_loop_iff:
  "deps_loop c n dag ps act \<longleftrightarrow>
     (\<forall>p\<in>set ps. estate c n dag p \<in> {EdgeStateActive, EdgeStateInactive})
     \<and> (act \<or> (\<exists>p\<in>set ps. estate c n dag p = EdgeStateActive))"
proof (induction ps arbitrary: act)
  case Nil
  show ?case by simp
next
  case (Cons p ps)
  then show ?case
    by (cases "estate c n dag p")
      (auto dest: resolveEdgeState_active_success split: option.splits if_splits)
qed

lemma skip_loop_iff:
  "skip_loop c n dag ps act unk \<longleftrightarrow>
     (\<exists>p\<in>set ps. estate c n dag p = EdgeStateBlocked)
     \<or> (\<not> act \<and> \<not> unk \<and> (\<forall>p\<in>set ps. estate c n dag p = EdgeStateInactive))"
  by (induction ps arbitrary: act unk) (auto split: edge_state.splits)

lemma can_skip_loop_iff:
  "can_skip_loop c n dag ps \<longleftrightarrow>
     (\<forall>p\<in>set ps. estate c n dag p \<in> {EdgeStateBlocked, EdgeStateInactive})"
  by (induction ps) (auto split: edge_state.splits)

lemma hasBlockedParent_iff:
  "hasBlockedParent c n dag \<longleftrightarrow> (\<exists>p\<in>set (Parents dag n). estate c n dag p = EdgeStateBlocked)"
  by (simp add: hasBlockedParent_def blocked_in_iff)

lemma depsMet_iff:
  "depsMet c n dag \<longleftrightarrow> Parents dag n = [] \<or>
     ((\<forall>p\<in>set (Parents dag n). estate c n dag p \<in> {EdgeStateActive, EdgeStateInactive})
      \<and> (\<exists>p\<in>set (Parents dag n). estate c n dag p = EdgeStateActive))"
  by (simp add: depsMet_def deps_loop_iff)

lemma shouldSkipNode_iff:
  "shouldSkipNode c n dag \<longleftrightarrow> Parents dag n \<noteq> [] \<and>
     ((\<exists>p\<in>set (Parents dag n). estate c n dag p = EdgeStateBlocked)
      \<or> (\<forall>p\<in>set (Parents dag n). estate c n dag p = EdgeStateInactive))"
  by (auto simp: shouldSkipNode_def skip_loop_iff)

lemma canSkipNode_iff:
  "canSkipNode c n dag \<longleftrightarrow>
     (\<forall>p\<in>set (Parents dag n). estate c n dag p \<in> {EdgeStateBlocked, EdgeStateInactive})"
  by (simp add: canSkipNode_def can_skip_loop_iff)

lemmas join_iffs = hasBlockedParent_iff depsMet_iff shouldSkipNode_iff canSkipNode_iff

text \<open>
  With every incoming edge decided the two tests are complementary: the scheduler either
  skips or runs the node. This is what keeps it from getting stuck.
\<close>

lemma join_decided:
  assumes "\<forall>p\<in>set (Parents dag n). estate c n dag p \<noteq> EdgeStateUnknown"
  shows "depsMet c n dag \<longleftrightarrow> \<not> shouldSkipNode c n dag"
proof (cases "Parents dag n = []")
  case True
  then show ?thesis by (simp add: join_iffs)
next
  case False
  have "(\<forall>p\<in>S. f p \<noteq> EdgeStateUnknown) \<Longrightarrow> S \<noteq> {} \<Longrightarrow>
      ((\<forall>p\<in>S. f p \<in> {EdgeStateActive, EdgeStateInactive}) \<and> (\<exists>p\<in>S. f p = EdgeStateActive))
      \<longleftrightarrow> \<not> ((\<exists>p\<in>S. f p = EdgeStateBlocked) \<or> (\<forall>p\<in>S. f p = EdgeStateInactive))" for S :: "name set" and f
    by (metis edge_state.exhaust insert_iff singletonD edge_state.distinct)
  from this [OF assms] False show ?thesis by (simp add: join_iffs)
qed

subsection \<open>Properties\<close>

text \<open>
  C34. The join rule in full. A node may run when it has no parents, or when every incoming edge
  is active or inactive and at least one is active; it is skipped when some incoming edge is
  blocked or all are inactive. The two decisions exclude each other, and when neither is taken
  some incoming edge is still undecided, so waiting is justified.
\<close>

theorem join_decision:
  "(depsMet c n dag \<longleftrightarrow> Parents dag n = [] \<or>
      ((\<forall>p\<in>set (Parents dag n). resolveEdgeState c p n dag \<in> {EdgeStateActive, EdgeStateInactive})
       \<and> (\<exists>p\<in>set (Parents dag n). resolveEdgeState c p n dag = EdgeStateActive)))
   \<and> (shouldSkipNode c n dag \<longleftrightarrow> Parents dag n \<noteq> [] \<and>
      ((\<exists>p\<in>set (Parents dag n). resolveEdgeState c p n dag = EdgeStateBlocked)
       \<or> (\<forall>p\<in>set (Parents dag n). resolveEdgeState c p n dag = EdgeStateInactive)))
   \<and> \<not> (depsMet c n dag \<and> shouldSkipNode c n dag)
   \<and> (\<not> depsMet c n dag \<and> \<not> shouldSkipNode c n dag \<longrightarrow>
        (\<exists>p\<in>set (Parents dag n). resolveEdgeState c p n dag = EdgeStateUnknown))"
proof (intro conjI impI)
  show "\<not> (depsMet c n dag \<and> shouldSkipNode c n dag)"
  proof
    assume a: "depsMet c n dag \<and> shouldSkipNode c n dag"
    then obtain p where p: "p \<in> set (Parents dag n)" "resolveEdgeState c p n dag = EdgeStateActive"
      by (auto simp: depsMet_iff shouldSkipNode_iff)
    from a have "\<forall>p\<in>set (Parents dag n). resolveEdgeState c p n dag \<noteq> EdgeStateBlocked"
      by (auto simp: depsMet_iff shouldSkipNode_iff)
    with a p show False by (auto simp: shouldSkipNode_iff)
  qed
  assume "\<not> depsMet c n dag \<and> \<not> shouldSkipNode c n dag"
  with join_decided [of dag n c] show "\<exists>p\<in>set (Parents dag n). resolveEdgeState c p n dag = EdgeStateUnknown"
    by blast
qed (rule depsMet_iff shouldSkipNode_iff)+

theorem join_decision_witness:
  "\<not> depsMet sample_ctx ''d'' diamond_graph \<and> \<not> shouldSkipNode sample_ctx ''d'' diamond_graph"
proof -
  have "Parents diamond_graph ''d'' = [''b'', ''c'']"
    by (simp add: diamond_graph_def Build_def sample_defs empty_graph_def add_edge_def)
  moreover have "resolveEdgeState sample_ctx p ''d'' diamond_graph = EdgeStateUnknown" for p
    by (simp add: resolveEdgeState_def sample_ctx_def)
  ultimately show ?thesis
    using join_decision [of sample_ctx "''d''" diamond_graph] by auto
qed

end
