(* ===== verification/Flux_Executor.thy ===== *)
theory Flux_Executor
  imports Flux_Edge_State
begin

text \<open>
  \<^verbatim>\<open>engine/engine.go\<close> and \<^verbatim>\<open>engine/executor.go\<close>: the node state machine, the computation of
  outgoing edges when a node ends, and the closures that skip what can no longer run.
  Where a loop works on a stack or a queue the fuel is part of the definition; running out
  of it is a panic, so the theorems that exclude panics show that it suffices.
\<close>

subsection \<open>transitionLocked\<close>

definition transition_rt ::
  "int \<Rightarrow> node_state \<Rightarrow> go_error option \<Rightarrow> gmap option \<Rightarrow> node_runtime \<Rightarrow> node_runtime" where
  "transition_rt now st err out rt = rt
     \<lparr>State := st,
      Progress := (if st = NodeSuccess then 1 else Progress rt),
      StartedAt := (if st = NodeRunning then Some now else StartedAt rt),
      FinishedAt := (if isTerminal st then Some now else FinishedAt rt),
      Output := (case out of None \<Rightarrow> Output rt | Some m \<Rightarrow> Some m),
      Error := (case err of None \<Rightarrow> Error rt | Some m \<Rightarrow> m)\<rparr>"

text \<open>
  The tail of \<^verbatim>\<open>transitionLocked\<close>: recompute the progress of the task, write the task row and
  tell the listeners of a root task.
\<close>

definition sync_progress :: "env \<Rightarrow> run_ctx \<Rightarrow> run_ctx" where
  "sync_progress e c =
     (let p = CalculateTaskProgress e c;
          t = (Task c)\<lparr>task_Progress := p\<rparr>;
          c1 = snd (taskRepo_Update e t (c\<lparr>Task := t\<rparr>))
      in if task_id t = RootID t
         then publish \<lparr>ev_TaskID = task_id t, ev_RootTaskID = RootID t, ev_Step = ''task'',
                       ev_Type = ''task_progress'', ev_Meta = [(''progress'', VFloat p)]\<rparr> c1
         else c1)"

definition transitionLocked ::
  "env \<Rightarrow> name \<Rightarrow> node_state \<Rightarrow> go_error option \<Rightarrow> gmap option \<Rightarrow> run_ctx \<Rightarrow> run_ctx exec" where
  "transitionLocked e n st err out c =
     (case Runtime c n of
        None \<Rightarrow> Panic ''nil node runtime''
      | Some rt \<Rightarrow>
         if \<not> isAllowed (State rt) st then Panic ''illegal node state transition''
         else
           (let rt1 = transition_rt (clock e (writes c)) st err out rt;
                (werr, c1) = nodeRepo_Update e rt1 (set_runtime n rt1 c);
                rt2 = (case werr of None \<Rightarrow> rt1 | Some m \<Rightarrow> rt1\<lparr>Error := m\<rparr>)
            in Ret (sync_progress e (UpdateNodeStatus n (node_state_str st) (set_runtime n rt2 c1)))))"

definition set_edges :: "name \<Rightarrow> (string \<rightharpoonup> bool) \<Rightarrow> run_ctx \<Rightarrow> run_ctx exec" where
  "set_edges n em c =
     (case Runtime c n of
        None \<Rightarrow> Panic ''nil node runtime''
      | Some rt \<Rightarrow> Ret (set_runtime n (rt\<lparr>rt_ActivatedEdges := em\<rparr>) c))"

subsection \<open>Closing the outgoing edges of a node that ends without success\<close>

text \<open>
  The loop shared by the failure branches: it fills the edge map of the node and writes the
  same flags into the run context.
\<close>

fun close_edges :: "(edge_def \<Rightarrow> bool) \<Rightarrow> name \<Rightarrow> edge_def list \<Rightarrow> (string \<rightharpoonup> bool) \<Rightarrow> run_ctx
    \<Rightarrow> (string \<rightharpoonup> bool) \<times> run_ctx" where
  "close_edges flag n [] em c = (em, c)"
| "close_edges flag n (ed # es) em c =
     (let key = edge_key n (To ed); b = flag ed
      in close_edges flag n es (em(key \<mapsto> b)) (c\<lparr>ActivatedEdges := (ActivatedEdges c)(key \<mapsto> b)\<rparr>))"

definition normal_flag :: "edge_def \<Rightarrow> bool" where
  "normal_flag ed \<longleftrightarrow> EType ed = EdgeNormal"

definition finalizeBlockedNode :: "env \<Rightarrow> name \<Rightarrow> graph \<Rightarrow> run_ctx \<Rightarrow> (go_error option \<times> run_ctx) exec" where
  "finalizeBlockedNode e n dag c =
     (if Runtime c n = None then Ret (Some (''runtime not found: '' @ n), c)
      else
        (let (em, c1) = close_edges normal_flag n (Edges dag n) Map.empty c
         in bind_exec (set_edges n em c1) (\<lambda>c2.
            bind_exec (transitionLocked e n NodeSkipped None None c2) (\<lambda>c3. Ret (None, c3)))))"

definition finalizeSkippedNode :: "env \<Rightarrow> name \<Rightarrow> graph \<Rightarrow> run_ctx \<Rightarrow> (go_error option \<times> run_ctx) exec" where
  "finalizeSkippedNode e n dag c =
     (if Runtime c n = None then Ret (Some (''runtime not found: '' @ n), c)
      else
        (let (em, c1) = close_edges (\<lambda>_. False) n (Edges dag n) Map.empty c
         in bind_exec (set_edges n em c1) (\<lambda>c2.
            bind_exec (transitionLocked e n NodeSkipped None None c2) (\<lambda>c3. Ret (None, c3)))))"

definition skipNodeWithCorrectKind ::
  "env \<Rightarrow> name \<Rightarrow> graph \<Rightarrow> run_ctx \<Rightarrow> (go_error option \<times> run_ctx) exec" where
  "skipNodeWithCorrectKind e n dag c =
     (if hasBlockedParent c n dag then finalizeBlockedNode e n dag c
      else finalizeSkippedNode e n dag c)"

subsection \<open>Closures\<close>

text \<open>
  \<^verbatim>\<open>skipSubtree\<close>: the head of the list is the top of the stack. An error of the skip ends
  the walk.
\<close>

fun skip_stack :: "nat \<Rightarrow> env \<Rightarrow> graph \<Rightarrow> name list \<Rightarrow> run_ctx \<Rightarrow> run_ctx exec" where
  "skip_stack fuel e dag [] c = Ret c"
| "skip_stack 0 e dag (n # st) c = Panic ''fuel''"
| "skip_stack (Suc fuel) e dag (n # st) c =
     (case Runtime c n of
        None \<Rightarrow> Panic ''nil node runtime''
      | Some rt \<Rightarrow>
         if State rt \<noteq> NodePending then skip_stack fuel e dag st c
         else if \<not> canSkipNode c n dag then skip_stack fuel e dag st c
         else bind_exec (skipNodeWithCorrectKind e n dag c) (\<lambda>(err, c1).
                if err \<noteq> None then Ret c1
                else skip_stack fuel e dag (rev (Children dag n) @ st) c1))"

definition skipSubtree :: "env \<Rightarrow> name \<Rightarrow> graph \<Rightarrow> run_ctx \<Rightarrow> run_ctx exec" where
  "skipSubtree e start dag c = skip_stack (Suc (length (WfEdges c))) e dag [start] c"

text \<open>\<^verbatim>\<open>failClosure\<close>: the inner loop over the children of the dequeued node, then the queue.\<close>

fun fail_children ::
  "env \<Rightarrow> graph \<Rightarrow> name \<Rightarrow> name list \<Rightarrow> name list \<Rightarrow> run_ctx \<Rightarrow> (name list \<times> run_ctx) exec" where
  "fail_children e dag cur [] q c = Ret (q, c)"
| "fail_children e dag cur (ch # chs) q c =
     (let b = (case findEdge dag cur ch of None \<Rightarrow> False | Some ed \<Rightarrow> EType ed = EdgeNormal);
          c1 = c\<lparr>ActivatedEdges := (ActivatedEdges c)(edge_key cur ch \<mapsto> b)\<rparr>
      in case Runtime c1 ch of
          None \<Rightarrow> Panic ''nil node runtime''
        | Some rt \<Rightarrow>
           if State rt = NodePending \<and> shouldSkipNode c1 ch dag
           then bind_exec (finalizeBlockedNode e ch dag c1) (\<lambda>(_, c2).
                  fail_children e dag cur chs (q @ [ch]) c2)
           else fail_children e dag cur chs q c1)"

fun fail_queue :: "nat \<Rightarrow> env \<Rightarrow> graph \<Rightarrow> name list \<Rightarrow> run_ctx \<Rightarrow> run_ctx exec" where
  "fail_queue fuel e dag [] c = Ret c"
| "fail_queue 0 e dag (n # q) c = Panic ''fuel''"
| "fail_queue (Suc fuel) e dag (n # q) c =
     bind_exec (fail_children e dag n (Children dag n) q c) (\<lambda>(q', c1). fail_queue fuel e dag q' c1)"

definition failClosure :: "env \<Rightarrow> name \<Rightarrow> graph \<Rightarrow> run_ctx \<Rightarrow> run_ctx exec" where
  "failClosure e start dag c = fail_queue (Suc (length (WfNodes c))) e dag [start] c"

text \<open>\<^verbatim>\<open>globalClosure\<close>: one sweep over the runtime map, in the order Go visits it.\<close>

fun closure_sweep :: "env \<Rightarrow> graph \<Rightarrow> name list \<Rightarrow> run_ctx \<Rightarrow> run_ctx exec" where
  "closure_sweep e dag [] c = Ret c"
| "closure_sweep e dag (n # ns) c =
     (case Runtime c n of
        None \<Rightarrow> closure_sweep e dag ns c
      | Some rt \<Rightarrow>
         if State rt \<noteq> NodePending then closure_sweep e dag ns c
         else if shouldSkipNode c n dag then
           bind_exec (skipNodeWithCorrectKind e n dag c) (\<lambda>(_, c1). closure_sweep e dag ns c1)
         else closure_sweep e dag ns c)"

definition globalClosure :: "env \<Rightarrow> graph \<Rightarrow> run_ctx \<Rightarrow> run_ctx exec" where
  "globalClosure e dag c = closure_sweep e dag (range_rt e (Runtime c)) c"

subsection \<open>Computing the edges of a successful node\<close>

fun compute_edges_loop :: "env \<Rightarrow> graph \<Rightarrow> name \<Rightarrow> edge_def list \<Rightarrow> (string \<rightharpoonup> bool) \<Rightarrow> run_ctx
    \<Rightarrow> (go_error option \<times> (string \<rightharpoonup> bool) \<times> run_ctx) exec" where
  "compute_edges_loop e dag n [] em c = Ret (None, em, c)"
| "compute_edges_loop e dag n (ed # es) em c =
     (case (if Condition ed \<noteq> [] then EvalBool e c (Condition ed)
            else Inr (Condition ed = [] \<and> CaseKey ed = [])) of
        Inl m \<Rightarrow> Ret (Some m, em, c)
      | Inr a \<Rightarrow>
         (let act = (if CaseKey ed \<noteq> []
                     then gget (GetNodeOutput c n) ''case'' = Some (VStr (CaseKey ed)) else a);
              key = edge_key n (To ed);
              c1 = c\<lparr>ActivatedEdges := (ActivatedEdges c)(key \<mapsto> act)\<rparr>
          in bind_exec (if \<not> act then skipSubtree e (To ed) dag c1 else Ret c1) (\<lambda>c2.
             compute_edges_loop e dag n es (em(key \<mapsto> act)) c2)))"

definition computeEdges :: "env \<Rightarrow> name \<Rightarrow> graph \<Rightarrow> run_ctx \<Rightarrow> (go_error option \<times> run_ctx) exec" where
  "computeEdges e n dag c =
     bind_exec (compute_edges_loop e dag n (Edges dag n) Map.empty c) (\<lambda>(err, em, c1).
       if err \<noteq> None then Ret (err, c1)
       else bind_exec (set_edges n em c1) (\<lambda>c2. Ret (None, c2)))"

definition ensureEdgeClosure :: "name \<Rightarrow> graph \<Rightarrow> run_ctx \<Rightarrow> unit exec" where
  "ensureEdgeClosure n dag c =
     (if list_all (\<lambda>ed. ActivatedEdges c (edge_key n (To ed)) \<noteq> None) (Edges dag n)
      then Ret () else Panic ''edge not closed'')"

subsection \<open>finalizeNode\<close>

definition finalizeNode :: "env \<Rightarrow> name \<Rightarrow> gmap option \<Rightarrow> go_error option \<Rightarrow> graph \<Rightarrow> run_ctx
    \<Rightarrow> (go_error option \<times> run_ctx) exec" where
  "finalizeNode e n out err dag c =
     (case err of
        None \<Rightarrow>
          bind_exec (computeEdges e n dag c) (\<lambda>(cerr, c1).
            if cerr \<noteq> None then Ret (cerr, c1)
            else bind_exec (transitionLocked e n NodeSuccess None out c1) (\<lambda>c2.
                 bind_exec (ensureEdgeClosure n dag c2) (\<lambda>_. Ret (None, c2))))
      | Some m \<Rightarrow>
          (let (em, c1) = close_edges normal_flag n (Edges dag n) Map.empty c
           in bind_exec (set_edges n em c1) (\<lambda>c2.
              bind_exec (transitionLocked e n NodeFailed (Some m) None c2) (\<lambda>c3.
              bind_exec (failClosure e n dag c3) (\<lambda>c4. Ret (None, c4))))))"

definition isOptionalNode :: "node \<Rightarrow> bool" where
  "isOptionalNode nd = (case map_of (n_Config nd) ''optional'' of Some (VBool b) \<Rightarrow> b | _ \<Rightarrow> False)"

definition finalizeOptionalFailedNode ::
  "env \<Rightarrow> name \<Rightarrow> go_error \<Rightarrow> graph \<Rightarrow> run_ctx \<Rightarrow> (go_error option \<times> run_ctx) exec" where
  "finalizeOptionalFailedNode e n cause dag c =
     (if Runtime c n = None then Ret (Some (''runtime not found: '' @ n), c)
      else
        (let (em, c1) = close_edges normal_flag n (Edges dag n) Map.empty c
         in bind_exec (set_edges n em c1) (\<lambda>c2.
            bind_exec (transitionLocked e n NodeSkipped
                (Some (''optional node failed (skipped): '' @ cause)) None c2) (\<lambda>c3.
            bind_exec (failClosure e n dag c3) (\<lambda>c4. Ret (None, c4))))))"

definition clearOutgoingActivatedEdges :: "name \<Rightarrow> run_ctx \<Rightarrow> run_ctx" where
  "clearOutgoingActivatedEdges n c =
     c\<lparr>ActivatedEdges := fold (\<lambda>ed m. if From ed \<noteq> n then m else m(edge_key n (To ed) := None))
         (WfEdges c) (ActivatedEdges c)\<rparr>"

definition shouldPersistOutput :: "node \<Rightarrow> bool" where
  "shouldPersistOutput nd = (case map_of (n_Config nd) ''persist_output'' of Some (VBool b) \<Rightarrow> b | _ \<Rightarrow> True)"

definition allTerminal :: "env \<Rightarrow> run_ctx \<Rightarrow> bool" where
  "allTerminal e c = list_all (\<lambda>r. isTerminal (State r)) (runtime_list e c)"

subsection \<open>The scheduler's view of a run context\<close>

text \<open>
  Scheduling looks at two things only: the state of every node and the flags of the edges.
\<close>

definition nstate :: "run_ctx \<Rightarrow> name \<Rightarrow> node_state option" where
  "nstate c n = map_option State (Runtime c n)"

lemma nstate_None_iff [simp]: "nstate c n = None \<longleftrightarrow> Runtime c n = None"
  by (simp add: nstate_def)

lemma nstate_SomeE:
  assumes "nstate c n = Some s"
  obtains rt where "Runtime c n = Some rt" and "State rt = s"
  using assms by (auto simp: nstate_def)

lemma dom_nstate: "dom (nstate c) = dom (Runtime c)"
  by (auto simp: nstate_def)

lemma sync_progress_frame [ctx_frame]:
  "Runtime (sync_progress e c) = Runtime c"
  "ActivatedEdges (sync_progress e c) = ActivatedEdges c"
  "OutNodes (sync_progress e c) = OutNodes c"
  "dbNodes (sync_progress e c) = dbNodes c"
  "same_frame c0 (sync_progress e c) = same_frame c0 c"
proof -
  have "same_frame c0 (c\<lparr>Task := (Task c)\<lparr>task_Progress := p\<rparr>\<rparr>) = same_frame c0 c" for p
    by (simp add: same_frame_def)
  then show "same_frame c0 (sync_progress e c) = same_frame c0 c"
    by (simp add: sync_progress_def Let_def ctx_frame)
qed (simp_all add: sync_progress_def Let_def ctx_frame)

lemma transition_rt_simps [simp]:
  "State (transition_rt now st err out rt) = st"
  "rt_ActivatedEdges (transition_rt now st err out rt) = rt_ActivatedEdges rt"
  "Name (transition_rt now st err out rt) = Name rt"
  "Checkpoint (transition_rt now st err out rt) = Checkpoint rt"
  "ExecutionReason (transition_rt now st err out rt) = ExecutionReason rt"
  "Output (transition_rt now st err out rt) = (case out of None \<Rightarrow> Output rt | Some m \<Rightarrow> Some m)"
  by (simp_all add: transition_rt_def)

lemma transitionLocked_frame:
  assumes "transitionLocked e n st err out c = Ret c'"
  shows "same_frame c c' \<and> ActivatedEdges c' = ActivatedEdges c
    \<and> (\<exists>rt. Runtime c n = Some rt \<and> isAllowed (State rt) st)
    \<and> (\<exists>rt rt'. Runtime c n = Some rt \<and> Runtime c' = (Runtime c)(n \<mapsto> rt') \<and> State rt' = st
        \<and> rt_ActivatedEdges rt' = rt_ActivatedEdges rt \<and> Name rt' = Name rt
        \<and> Output rt' = (case out of None \<Rightarrow> Output rt | Some m \<Rightarrow> Some m)
        \<and> Checkpoint rt' = Checkpoint rt \<and> ExecutionReason rt' = ExecutionReason rt)"
proof -
  from assms obtain rt where rt: "Runtime c n = Some rt" "isAllowed (State rt) st"
    by (auto simp: transitionLocked_def split: option.splits if_splits)
  define rt1 where "rt1 = transition_rt (clock e (writes c)) st err out rt"
  obtain werr c1 where up: "nodeRepo_Update e rt1 (set_runtime n rt1 c) = (werr, c1)" by force
  define rt2 where "rt2 = (case werr of None \<Rightarrow> rt1 | Some m \<Rightarrow> rt1\<lparr>Error := m\<rparr>)"
  have c': "c' = sync_progress e (UpdateNodeStatus n (node_state_str st) (set_runtime n rt2 c1))"
    using assms rt up unfolding rt1_def rt2_def by (simp add: transitionLocked_def Let_def)
  have c1: "c1 = snd (nodeRepo_Update e rt1 (set_runtime n rt1 c))" by (simp add: up)
  have "State rt2 = st \<and> rt_ActivatedEdges rt2 = rt_ActivatedEdges rt \<and> Name rt2 = Name rt
      \<and> Output rt2 = (case out of None \<Rightarrow> Output rt | Some m \<Rightarrow> Some m)
      \<and> Checkpoint rt2 = Checkpoint rt \<and> ExecutionReason rt2 = ExecutionReason rt"
    by (cases werr) (simp_all add: rt2_def rt1_def)
  with rt show ?thesis by (simp add: c' c1 ctx_frame) blast
qed

lemma transitionLocked_nstate:
  assumes "transitionLocked e n st err out c = Ret c'"
  shows "nstate c' = (nstate c)(n \<mapsto> st)"
  using transitionLocked_frame [OF assms] by (auto simp: nstate_def fun_eq_iff)

lemma transitionLocked_total:
  assumes "nstate c n = Some s" and "isAllowed s st"
  shows "\<exists>c'. transitionLocked e n st err out c = Ret c'"
  using assms by (auto simp: nstate_def transitionLocked_def Let_def split: prod.splits)

lemma transitionLocked_panics_iff:
  "(\<exists>m. transitionLocked e n st err out c = Panic m) \<longleftrightarrow>
     nstate c n = None \<or> (\<exists>s. nstate c n = Some s \<and> \<not> isAllowed s st)"
  by (auto simp: nstate_def transitionLocked_def Let_def split: prod.splits option.splits)


subsection \<open>What skipping a node does\<close>

definition out_keys :: "name \<Rightarrow> edge_def list \<Rightarrow> string set" where
  "out_keys n es = (\<lambda>ed. edge_key n (To ed)) ` set es"

lemma out_keys_simps [simp]:
  "out_keys n [] = {}" "out_keys n (ed # es) = insert (edge_key n (To ed)) (out_keys n es)"
  by (simp_all add: out_keys_def)

lemma close_edges_ctx:
  "close_edges flag n es em c = (em', c') \<Longrightarrow> c' = c\<lparr>ActivatedEdges := ActivatedEdges c'\<rparr>"
proof (induction es arbitrary: em c)
  case Nil
  then show ?case by simp
next
  case (Cons ed es)
  from Cons.IH [OF Cons.prems [simplified Let_def close_edges.simps]] show ?case by (rule trans) simp
qed

lemma close_edges_other:
  "close_edges flag n es em c = (em', c') \<Longrightarrow> k \<notin> out_keys n es
   \<Longrightarrow> em' k = em k \<and> ActivatedEdges c' k = ActivatedEdges c k"
  by (induction es arbitrary: em c) (auto simp: Let_def)

lemma close_edges_agree:
  "close_edges flag n es em c = (em', c') \<Longrightarrow> ActivatedEdges c k = em k \<Longrightarrow> ActivatedEdges c' k = em' k"
  by (induction es arbitrary: em c) (auto simp: Let_def)

lemma close_edges_flag:
  "close_edges flag n es em c = (em', c') \<Longrightarrow> k \<in> out_keys n es
   \<Longrightarrow> ActivatedEdges c' k = em' k \<and> (\<exists>ed\<in>set es. k = edge_key n (To ed) \<and> em' k = Some (flag ed))"
proof (induction es arbitrary: em c)
  case Nil
  then show ?case by simp
next
  case (Cons ed es)
  let ?k = "edge_key n (To ed)"
  from Cons.prems(1) have step: "close_edges flag n es (em(?k \<mapsto> flag ed))
      (c\<lparr>ActivatedEdges := (ActivatedEdges c)(?k \<mapsto> flag ed)\<rparr>) = (em', c')" by (simp add: Let_def)
  show ?case
  proof (cases "k \<in> out_keys n es")
    case True
    from Cons.IH [OF step True] show ?thesis by auto
  next
    case False
    with Cons.prems(2) have "k = ?k" by simp
    with close_edges_other [OF step False] close_edges_agree [OF step, of k] show ?thesis by simp
  qed
qed

lemmas close_edges_spec = close_edges_ctx close_edges_other close_edges_flag

text \<open>A node is closed when every outgoing edge has a flag, in the context and in its row.\<close>

definition node_closed :: "graph \<Rightarrow> name \<Rightarrow> run_ctx \<Rightarrow> bool" where
  "node_closed dag n c \<longleftrightarrow> (\<exists>rt. Runtime c n = Some rt \<and>
     (\<forall>ed\<in>set (Edges dag n). ActivatedEdges c (edge_key n (To ed)) \<noteq> None
        \<and> rt_ActivatedEdges rt (edge_key n (To ed)) \<noteq> None))"

text \<open>The node \<open>n\<close> has ended in state \<open>st\<close>: nothing else moved, and all its edges are decided.\<close>

definition ends_as :: "graph \<Rightarrow> name \<Rightarrow> node_state \<Rightarrow> run_ctx \<Rightarrow> run_ctx \<Rightarrow> bool" where
  "ends_as dag n st c c' \<longleftrightarrow> same_frame c c'
     \<and> nstate c' n = Some st \<and> (\<forall>m. m \<noteq> n \<longrightarrow> Runtime c' m = Runtime c m)
     \<and> (\<forall>k. ActivatedEdges c' k \<noteq> ActivatedEdges c k \<longrightarrow> (\<exists>ed\<in>set (Edges dag n). k = edge_key n (To ed)))
     \<and> node_closed dag n c'"

abbreviation skip_effect :: "graph \<Rightarrow> name \<Rightarrow> run_ctx \<Rightarrow> run_ctx \<Rightarrow> bool" where
  "skip_effect dag n \<equiv> ends_as dag n NodeSkipped"

lemma ends_as_dom_flags:
  assumes "ends_as dag n st c c'"
  shows "dom (ActivatedEdges c) \<subseteq> dom (ActivatedEdges c')"
proof
  fix k assume "k \<in> dom (ActivatedEdges c)"
  then show "k \<in> dom (ActivatedEdges c')"
    using assms by (cases "ActivatedEdges c' k = ActivatedEdges c k")
      (auto simp: ends_as_def node_closed_def)
qed

lemma ends_as_nstate: "ends_as dag n st c c' \<Longrightarrow> nstate c' = (nstate c)(n \<mapsto> st)"
  by (auto simp: ends_as_def nstate_def fun_eq_iff)

lemma ends_as_dom: "ends_as dag n st c c' \<Longrightarrow> Runtime c n \<noteq> None \<Longrightarrow> dom (Runtime c') = dom (Runtime c)"
  using ends_as_nstate [of dag n st c c'] dom_nstate [of c] dom_nstate [of c'] by auto

definition only_skips :: "graph \<Rightarrow> run_ctx \<Rightarrow> run_ctx \<Rightarrow> bool" where
  "only_skips dag c c' \<longleftrightarrow> same_frame c c'
     \<and> dom (ActivatedEdges c) \<subseteq> dom (ActivatedEdges c')
     \<and> (\<forall>m. Runtime c' m = Runtime c m \<or>
          (nstate c m = Some NodePending \<and> nstate c' m = Some NodeSkipped \<and> node_closed dag m c'))"

lemma only_skips_refl [simp, intro]: "only_skips dag c c"
  by (simp add: only_skips_def)

lemma node_closed_mono:
  assumes "node_closed dag m c" and "Runtime c' m = Runtime c m"
    and "dom (ActivatedEdges c) \<subseteq> dom (ActivatedEdges c')"
  shows "node_closed dag m c'"
proof -
  have "ActivatedEdges c' k \<noteq> None" if "ActivatedEdges c k \<noteq> None" for k
    using assms(3) that by blast
  with assms(1,2) show ?thesis unfolding node_closed_def by metis
qed

lemma only_skips_trans [trans]:
  assumes "only_skips dag a b" and "only_skips dag b c"
  shows "only_skips dag a c"
proof -
  have "Runtime c m = Runtime a m \<or>
      (nstate a m = Some NodePending \<and> nstate c m = Some NodeSkipped \<and> node_closed dag m c)" for m
  proof (cases "Runtime b m = Runtime a m")
    case True
    then have "nstate b m = nstate a m" by (simp add: nstate_def)
    with True show ?thesis using assms(2) unfolding only_skips_def by metis
  next
    case False
    with assms(1) have b: "nstate a m = Some NodePending" "nstate b m = Some NodeSkipped" "node_closed dag m b"
      by (auto simp: only_skips_def)
    with assms(2) have "Runtime c m = Runtime b m" by (auto simp: only_skips_def)
    moreover from this b(2) have "nstate c m = Some NodeSkipped" by (simp add: nstate_def)
    moreover have "dom (ActivatedEdges b) \<subseteq> dom (ActivatedEdges c)"
      using assms(2) by (simp add: only_skips_def)
    ultimately show ?thesis using b node_closed_mono [of dag m b c] by blast
  qed
  moreover have "dom (ActivatedEdges a) \<subseteq> dom (ActivatedEdges c)" "same_frame a c"
    using assms unfolding only_skips_def by (blast intro: same_frame_trans)+
  ultimately show ?thesis unfolding only_skips_def by blast
qed

lemma only_skips_nstate:
  "only_skips dag c c' \<Longrightarrow> nstate c' m = nstate c m \<or> (nstate c m = Some NodePending \<and> nstate c' m = Some NodeSkipped)"
  unfolding only_skips_def nstate_def by metis

lemma only_skips_dom:
  assumes "only_skips dag c c'"
  shows "dom (Runtime c') = dom (Runtime c)"
proof -
  have "Runtime c' m = None \<longleftrightarrow> Runtime c m = None" for m
    using only_skips_nstate [OF assms, of m] by (metis nstate_None_iff option.distinct(1))
  then show ?thesis by (auto simp: dom_def)
qed

lemma only_skips_flags:
  assumes "dom (ActivatedEdges c) \<subseteq> dom m"
  shows "only_skips dag c (c\<lparr>ActivatedEdges := m\<rparr>)"
  using assms by (simp add: only_skips_def)

text \<open>The contract of the functions that take a pending node out of the run.\<close>

locale node_skipper =
  fixes skip :: "env \<Rightarrow> name \<Rightarrow> graph \<Rightarrow> run_ctx \<Rightarrow> (go_error option \<times> run_ctx) exec"
  assumes skip_pending: "nstate c n = Some NodePending \<Longrightarrow>
    \<exists>c'. skip e n dag c = Ret (None, c') \<and> skip_effect dag n c c'"
begin

lemma skip_only_skips:
  assumes "nstate c n = Some NodePending"
  shows "\<exists>c'. skip e n dag c = Ret (None, c') \<and> only_skips dag c c' \<and> nstate c' n = Some NodeSkipped"
proof -
  from skip_pending [OF assms, of e dag] obtain c' where
    c': "skip e n dag c = Ret (None, c')" "skip_effect dag n c c'" by blast
  from ends_as_dom_flags [OF c'(2)] c' assms have "only_skips dag c c'"
    by (auto simp: only_skips_def ends_as_def)
  with c' show ?thesis by (auto simp: ends_as_def)
qed

end

lemma close_then_end:
  assumes p: "nstate c n = Some s" and ok: "isAllowed s st"
    and other: "\<And>k. k \<notin> out_keys n (Edges dag n) \<Longrightarrow> m k = ActivatedEdges c k"
    and own: "\<And>ed. ed \<in> set (Edges dag n) \<Longrightarrow> m (edge_key n (To ed)) \<noteq> None \<and> em (edge_key n (To ed)) \<noteq> None"
  shows "\<exists>c'. bind_exec (set_edges n em (c\<lparr>ActivatedEdges := m\<rparr>)) (transitionLocked e n st err out) = Ret c'
         \<and> ends_as dag n st c c'"
proof -
  from p obtain rt where rt: "Runtime c n = Some rt" "State rt = s" by (rule nstate_SomeE)
  define c2 where "c2 = set_runtime n (rt\<lparr>rt_ActivatedEdges := em\<rparr>) (c\<lparr>ActivatedEdges := m\<rparr>)"
  have set: "set_edges n em (c\<lparr>ActivatedEdges := m\<rparr>) = Ret c2" using rt by (simp add: set_edges_def c2_def)
  have "nstate c2 n = Some s" using rt by (simp add: c2_def nstate_def ctx_frame)
  from transitionLocked_total [OF this ok, of e err out] obtain c3 where
    c3: "transitionLocked e n st err out c2 = Ret c3" by auto
  from transitionLocked_frame [OF c3] obtain rt' where fr:
    "same_frame c2 c3" "ActivatedEdges c3 = ActivatedEdges c2" "Runtime c3 = (Runtime c2)(n \<mapsto> rt')"
    "State rt' = st" "rt_ActivatedEdges rt' = em" by (auto simp: c2_def ctx_frame)
  have ae: "ActivatedEdges c3 = m" using fr(2) by (simp add: c2_def ctx_frame)
  have "same_frame c c3"
    using fr(1) by (auto simp: c2_def intro: same_frame_trans [of c c2 c3])
  moreover have "\<exists>ed\<in>set (Edges dag n). k = edge_key n (To ed)"
    if "ActivatedEdges c3 k \<noteq> ActivatedEdges c k" for k
    using other [of k] that by (auto simp: ae out_keys_def)
  moreover have "node_closed dag n c3"
    using fr own by (simp add: node_closed_def ae)
  moreover have "nstate c3 n = Some st" "\<forall>k. k \<noteq> n \<longrightarrow> Runtime c3 k = Runtime c k"
    using fr by (simp_all add: nstate_def c2_def ctx_frame)
  ultimately have "ends_as dag n st c c3" by (simp add: ends_as_def)
  with set c3 show ?thesis by simp
qed

lemma close_edges_then_end:
  assumes p: "nstate c n = Some s" and ok: "isAllowed s st"
    and cl: "close_edges flag n (Edges dag n) Map.empty c = (em, c1)"
  shows "\<exists>c'. bind_exec (set_edges n em c1) (transitionLocked e n st err out) = Ret c' \<and> ends_as dag n st c c'"
proof -
  have "\<exists>c'. bind_exec (set_edges n em (c\<lparr>ActivatedEdges := ActivatedEdges c1\<rparr>)) (transitionLocked e n st err out) = Ret c'
         \<and> ends_as dag n st c c'"
  proof (rule close_then_end [OF p ok])
    show "ActivatedEdges c1 k = ActivatedEdges c k" if "k \<notin> out_keys n (Edges dag n)" for k
      using close_edges_other [OF cl that] by simp
    show "ActivatedEdges c1 (edge_key n (To ed)) \<noteq> None \<and> em (edge_key n (To ed)) \<noteq> None"
      if "ed \<in> set (Edges dag n)" for ed
      using close_edges_flag [OF cl, of "edge_key n (To ed)"] that by (auto simp: out_keys_def)
  qed
  then show ?thesis using close_edges_ctx [OF cl] by simp
qed

interpretation blocked_skipper: node_skipper finalizeBlockedNode
proof
  fix c n e and dag :: graph assume p: "nstate c n = Some NodePending"
  obtain em c1 where "close_edges normal_flag n (Edges dag n) Map.empty c = (em, c1)" by force
  from close_edges_then_end [OF p _ this, of NodeSkipped e None None] this p
  show "\<exists>c'. finalizeBlockedNode e n dag c = Ret (None, c') \<and> skip_effect dag n c c'"
    by (auto simp: finalizeBlockedNode_def nstate_def bind_exec_assoc [symmetric])
qed

interpretation dead_skipper: node_skipper finalizeSkippedNode
proof
  fix c n e and dag :: graph assume p: "nstate c n = Some NodePending"
  obtain em c1 where "close_edges (\<lambda>_. False) n (Edges dag n) Map.empty c = (em, c1)" by force
  from close_edges_then_end [OF p _ this, of NodeSkipped e None None] this p
  show "\<exists>c'. finalizeSkippedNode e n dag c = Ret (None, c') \<and> skip_effect dag n c c'"
    by (auto simp: finalizeSkippedNode_def nstate_def bind_exec_assoc [symmetric])
qed

interpretation kind_skipper: node_skipper skipNodeWithCorrectKind
  using blocked_skipper.skip_pending dead_skipper.skip_pending
  by unfold_locales (simp add: skipNodeWithCorrectKind_def)

subsection \<open>The closures end, and only skip pending nodes\<close>

definition pend :: "run_ctx \<Rightarrow> name set" where
  "pend c = {n. nstate c n = Some NodePending}"

lemma pend_iff: "n \<in> pend c \<longleftrightarrow> (\<exists>rt. Runtime c n = Some rt \<and> State rt = NodePending)"
  by (auto simp: pend_def nstate_def)

lemma pend_dom: "pend c \<subseteq> dom (Runtime c)"
  by (auto simp: pend_iff)

lemma pend_flags [simp]: "pend (c\<lparr>ActivatedEdges := m\<rparr>) = pend c"
  by (simp add: pend_def nstate_def)

lemma only_skips_pend:
  assumes "only_skips dag c c'"
  shows "pend c' \<subseteq> pend c"
proof
  fix m assume "m \<in> pend c'"
  with only_skips_nstate [OF assms, of m] show "m \<in> pend c" by (auto simp: pend_def)
qed

lemma skip_effect_pend: "skip_effect dag n c c' \<Longrightarrow> pend c' = pend c - {n}"
  using ends_as_nstate [of dag n NodeSkipped c c'] by (auto simp: pend_def split: if_splits)

context node_skipper
begin

lemma skip_one:
  assumes "n \<in> pend c"
  obtains c' where "skip e n dag c = Ret (None, c')" "only_skips dag c c'" "pend c' = pend c - {n}"
    "nstate c' n = Some NodeSkipped"
proof -
  from assms have p: "nstate c n = Some NodePending" by (simp add: pend_def)
  from skip_pending [OF p, of e dag] skip_only_skips [OF p, of e dag] skip_effect_pend that
  show thesis by fastforce
qed

end

lemma fail_children_ok:
  assumes "\<forall>ch\<in>set chs. Runtime c ch \<noteq> None"
  shows "\<exists>new c'. fail_children e dag cur chs q c = Ret (q @ new, c') \<and> only_skips dag c c'
    \<and> distinct new \<and> set new \<subseteq> pend c \<and> pend c' = pend c - set new"
  using assms
proof (induction chs arbitrary: q c)
  case Nil
  show ?case by simp
next
  case (Cons ch chs)
  define b where "b = (case findEdge dag cur ch of None \<Rightarrow> False | Some ed \<Rightarrow> EType ed = EdgeNormal)"
  define c1 where "c1 = c\<lparr>ActivatedEdges := (ActivatedEdges c)(edge_key cur ch \<mapsto> b)\<rparr>"
  have unf: "fail_children e dag cur (ch # chs) q c = (case Runtime c1 ch of
          None \<Rightarrow> Panic ''nil node runtime''
        | Some rt \<Rightarrow>
           if State rt = NodePending \<and> shouldSkipNode c1 ch dag
           then bind_exec (finalizeBlockedNode e ch dag c1) (\<lambda>(_, c2).
                  fail_children e dag cur chs (q @ [ch]) c2)
           else fail_children e dag cur chs q c1)"
    by (simp only: fail_children.simps Let_def b_def c1_def)
  have os1: "only_skips dag c c1" unfolding c1_def by (rule only_skips_flags) auto
  have p1: "pend c1 = pend c" by (simp add: c1_def)
  from Cons.prems obtain rt where rt: "Runtime c1 ch = Some rt" by (auto simp: c1_def)
  show ?case
  proof (cases "State rt = NodePending \<and> shouldSkipNode c1 ch dag")
    case True
    with rt have mem: "ch \<in> pend c1" by (simp add: pend_iff)
    from blocked_skipper.skip_one [OF mem, of e dag] obtain c2 where
      c2: "finalizeBlockedNode e ch dag c1 = Ret (None, c2)" "only_skips dag c1 c2" "pend c2 = pend c1 - {ch}"
      by blast
    have "\<forall>x\<in>set chs. Runtime c2 x \<noteq> None"
      using Cons.prems only_skips_dom [OF c2(2)] by (auto simp: c1_def)
    from Cons.IH [OF this, of "q @ [ch]"] obtain new c' where
      IH: "fail_children e dag cur chs (q @ [ch]) c2 = Ret ((q @ [ch]) @ new, c')" "only_skips dag c2 c'"
        "distinct new" "set new \<subseteq> pend c2" "pend c' = pend c2 - set new" by blast
    have "fail_children e dag cur (ch # chs) q c = Ret (q @ (ch # new), c')"
      using rt True c2(1) IH(1) by (simp add: unf del: fail_children.simps)
    moreover have "only_skips dag c c'"
      using os1 c2(2) IH(2) by (blast intro: only_skips_trans)
    moreover have "distinct (ch # new)" "set (ch # new) \<subseteq> pend c" "pend c' = pend c - set (ch # new)"
      using IH(3-5) c2(3) p1 mem by auto
    ultimately show ?thesis by blast
  next
    case False
    have "\<forall>x\<in>set chs. Runtime c1 x \<noteq> None" using Cons.prems by (simp add: c1_def)
    from Cons.IH [OF this, of q] obtain new c' where
      IH: "fail_children e dag cur chs q c1 = Ret (q @ new, c')" "only_skips dag c1 c'"
        "distinct new" "set new \<subseteq> pend c1" "pend c' = pend c1 - set new" by blast
    moreover have "fail_children e dag cur (ch # chs) q c = fail_children e dag cur chs q c1"
      using rt False by (auto simp: unf simp del: fail_children.simps)
    ultimately show ?thesis using os1 p1 by (metis only_skips_trans)
  qed
qed

definition children_known :: "graph \<Rightarrow> run_ctx \<Rightarrow> bool" where
  "children_known dag c \<longleftrightarrow> finite (dom (Runtime c)) \<and> (\<forall>u. \<forall>v\<in>set (Children dag u). Runtime c v \<noteq> None)"

lemma children_known_only_skips:
  "children_known dag c \<Longrightarrow> only_skips dag c c' \<Longrightarrow> children_known dag c'"
  unfolding children_known_def by (metis only_skips_dom domIff)

lemma children_known_finite_pend: "children_known dag c \<Longrightarrow> finite (pend c)"
  using pend_dom [of c] finite_subset unfolding children_known_def by blast

lemma fail_queue_ok:
  assumes "children_known dag c" and "length q + card (pend c) \<le> fuel"
  shows "\<exists>c'. fail_queue fuel e dag q c = Ret c' \<and> only_skips dag c c'"
  using assms
proof (induction fuel arbitrary: q c)
  case 0
  then show ?case by simp
next
  case (Suc fuel)
  show ?case
  proof (cases q)
    case Nil
    then show ?thesis by simp
  next
    case (Cons n q')
    from Suc.prems(1) have "\<forall>ch\<in>set (Children dag n). Runtime c ch \<noteq> None"
      by (simp add: children_known_def)
    from fail_children_ok [OF this, of e dag n q'] obtain new c1 where
      c1: "fail_children e dag n (Children dag n) q' c = Ret (q' @ new, c1)" "only_skips dag c c1"
        "distinct new" "set new \<subseteq> pend c" "pend c1 = pend c - set new" by blast
    have fin: "finite (pend c)" using Suc.prems(1) by (rule children_known_finite_pend)
    have "card (pend c1) = card (pend c) - length new" "length new \<le> card (pend c)"
      using c1(3-5) fin by (auto simp: card_Diff_subset distinct_card card_mono [of "pend c" "set new", simplified distinct_card])
        (metis card_mono distinct_card)
    then have "length (q' @ new) + card (pend c1) \<le> fuel" using Suc.prems(2) Cons by simp
    from Suc.IH [OF children_known_only_skips [OF Suc.prems(1) c1(2)] this] obtain c' where
      "fail_queue fuel e dag (q' @ new) c1 = Ret c'" "only_skips dag c1 c'" by blast
    with c1(1,2) Cons show ?thesis by (auto intro: only_skips_trans)
  qed
qed

lemma pend_card_le:
  assumes "dom (Runtime c) \<subseteq> set ns"
  shows "card (pend c) \<le> length ns"
  using card_mono [of "set ns" "pend c"] pend_dom [of c] assms card_length [of ns] by fastforce

lemma failClosure_ok:
  assumes "children_known dag c" and "dom (Runtime c) \<subseteq> set (WfNodes c)"
  shows "\<exists>c'. failClosure e start dag c = Ret c' \<and> only_skips dag c c'"
  using fail_queue_ok [OF assms(1), of "[start]" "Suc (length (WfNodes c))" e] pend_card_le [OF assms(2)]
  by (simp add: failClosure_def del: fail_queue.simps)

lemma closure_sweep_ok: "\<exists>c'. closure_sweep e dag ns c = Ret c' \<and> only_skips dag c c'"
proof (induction ns arbitrary: c)
  case Nil
  show ?case by simp
next
  case (Cons n ns)
  show ?case
  proof (cases "n \<in> pend c \<and> shouldSkipNode c n dag")
    case True
    then obtain rt where rt: "Runtime c n = Some rt" "State rt = NodePending" by (auto simp: pend_iff)
    from kind_skipper.skip_one [of n c e dag] True obtain c1 where
      "skipNodeWithCorrectKind e n dag c = Ret (None, c1)" "only_skips dag c c1" by blast
    with Cons.IH [of c1] rt True show ?thesis by (auto intro: only_skips_trans)
  next
    case False
    then have "closure_sweep e dag (n # ns) c = closure_sweep e dag ns c"
      by (auto simp: pend_iff split: option.splits)
    with Cons.IH show ?thesis by simp
  qed
qed

lemma globalClosure_ok: "\<exists>c'. globalClosure e dag c = Ret c' \<and> only_skips dag c c'"
  unfolding globalClosure_def by (rule closure_sweep_ok)

subsection \<open>Edges of a successful node\<close>

text \<open>What one edge gets: its condition, or whether the node's \<^verbatim>\<open>case\<close> output names it.\<close>

definition edge_decision :: "env \<Rightarrow> run_ctx \<Rightarrow> name \<Rightarrow> edge_def \<Rightarrow> go_error + bool" where
  "edge_decision e c n ed =
     (if Condition ed \<noteq> [] \<and> CaseKey ed = [] then EvalBool e c (Condition ed)
      else if Condition ed \<noteq> [] then map_sum id (\<lambda>_. gget (GetNodeOutput c n) ''case'' = Some (VStr (CaseKey ed)))
             (EvalBool e c (Condition ed))
      else if CaseKey ed \<noteq> [] then Inr (gget (GetNodeOutput c n) ''case'' = Some (VStr (CaseKey ed)))
      else Inr True)"

lemma expr_env_flags [simp]:
  "buildExprEnv (c\<lparr>ActivatedEdges := m\<rparr>) = buildExprEnv c"
  "buildExprEnvSchema (c\<lparr>ActivatedEdges := m\<rparr>) = buildExprEnvSchema c"
  "GetNodeOutput (c\<lparr>ActivatedEdges := m\<rparr>) n = GetNodeOutput c n"
  by (simp_all add: buildExprEnv_def buildExprEnvSchema_def expr_node_def expr_node_output_def
      node_out_of_def GetNodeOutput_def)

lemma flags_not_read [simp]:
  "EvalBool e (c\<lparr>ActivatedEdges := m\<rparr>) s = EvalBool e c s"
  "edge_decision e (c\<lparr>ActivatedEdges := m\<rparr>) n ed = edge_decision e c n ed"
proof -
  show "EvalBool e (c\<lparr>ActivatedEdges := m\<rparr>) s = EvalBool e c s" for s
    unfolding EvalBool_def eval_def expr_env_flags ..
  then show "edge_decision e (c\<lparr>ActivatedEdges := m\<rparr>) n ed = edge_decision e c n ed"
    by (simp add: edge_decision_def)
qed

lemma nstate_flags [simp]: "nstate (c\<lparr>ActivatedEdges := m\<rparr>) = nstate c"
  by (simp add: nstate_def fun_eq_iff)

text \<open>
  \<^verbatim>\<open>skipSubtree\<close> as \<^verbatim>\<open>computeEdges\<close> calls it does nothing: the finishing node is a parent of
  the start of the walk and is not terminal yet, so the edge between them is unknown.
\<close>

lemma unfinished_parent_unknown:
  assumes "nstate c p = Some s" and "\<not> isTerminal s"
  shows "resolveEdgeState c p n dag = EdgeStateUnknown"
  using assms by (auto simp: nstate_def resolveEdgeState_def)

lemma skipSubtree_noop:
  assumes "nstate c p = Some s" and "\<not> isTerminal s" and "p \<in> set (Parents dag n)" and "Runtime c n \<noteq> None"
  shows "skipSubtree e n dag c = Ret c"
proof -
  from assms(3) unfinished_parent_unknown [OF assms(1,2)] have "\<not> canSkipNode c n dag"
    unfolding canSkipNode_iff by (metis edge_state.distinct(3,5) insertE singletonD)
  with assms(4) show ?thesis by (auto simp: skipSubtree_def)
qed

lemma compute_edges_loop_step:
  assumes "nstate c n = Some s" and "\<not> isTerminal s"
    and "Runtime c (To ed) \<noteq> None" and "n \<in> set (Parents dag (To ed))"
  shows "compute_edges_loop e dag n (ed # es) em c =
    (case edge_decision e c n ed of
       Inl m \<Rightarrow> Ret (Some m, em, c)
     | Inr act \<Rightarrow> compute_edges_loop e dag n es (em(edge_key n (To ed) \<mapsto> act))
         (c\<lparr>ActivatedEdges := (ActivatedEdges c)(edge_key n (To ed) \<mapsto> act)\<rparr>))"
proof -
  have noop: "skipSubtree e (To ed) dag (c\<lparr>ActivatedEdges := m\<rparr>) = Ret (c\<lparr>ActivatedEdges := m\<rparr>)" for m
    by (rule skipSubtree_noop [where p = n and s = s]) (use assms in simp_all)
  show ?thesis
    by (cases "EvalBool e c (Condition ed)") (auto simp: edge_decision_def Let_def noop)
qed

definition decided :: "env \<Rightarrow> run_ctx \<Rightarrow> name \<Rightarrow> edge_def list \<Rightarrow> (string \<rightharpoonup> bool) \<Rightarrow> bool" where
  "decided e c n es m \<longleftrightarrow> (\<forall>k\<in>out_keys n es. \<exists>ed\<in>set es. \<exists>b. k = edge_key n (To ed)
     \<and> edge_decision e c n ed = Inr b \<and> m k = Some b)"

lemma decided_flags [simp]: "decided e (c\<lparr>ActivatedEdges := m\<rparr>) = decided e c"
  by (simp add: decided_def fun_eq_iff)

lemma compute_edges_loop_ok:
  assumes "nstate c n = Some s" and "\<not> isTerminal s"
    and "\<forall>ed\<in>set es. Runtime c (To ed) \<noteq> None \<and> n \<in> set (Parents dag (To ed))"
  shows "\<exists>err em' m. compute_edges_loop e dag n es em c = Ret (err, em', c\<lparr>ActivatedEdges := m\<rparr>)
    \<and> (\<forall>k. k \<notin> out_keys n es \<longrightarrow> m k = ActivatedEdges c k \<and> em' k = em k)
    \<and> dom (ActivatedEdges c) \<subseteq> dom m
    \<and> (err = None \<longrightarrow> decided e c n es m \<and> decided e c n es em')
    \<and> (err = None \<longleftrightarrow> (\<forall>ed\<in>set es. \<exists>b. edge_decision e c n ed = Inr b))"
  using assms
proof (induction es arbitrary: em c)
  case Nil
  show ?case by (auto simp: decided_def intro!: exI [of _ "ActivatedEdges c"])
next
  case (Cons ed es)
  let ?k = "edge_key n (To ed)"
  have step: "compute_edges_loop e dag n (ed # es) em c =
    (case edge_decision e c n ed of
       Inl m \<Rightarrow> Ret (Some m, em, c)
     | Inr act \<Rightarrow> compute_edges_loop e dag n es (em(?k \<mapsto> act))
         (c\<lparr>ActivatedEdges := (ActivatedEdges c)(?k \<mapsto> act)\<rparr>))"
    using Cons.prems by (intro compute_edges_loop_step) auto
  show ?case
  proof (cases "edge_decision e c n ed")
    case (Inl msg)
    with step show ?thesis by (intro exI [of _ "Some msg"] exI [of _ em] exI [of _ "ActivatedEdges c"]) auto
  next
    case (Inr act)
    let ?c = "c\<lparr>ActivatedEdges := (ActivatedEdges c)(?k \<mapsto> act)\<rparr>"
    have "\<exists>err em' m. compute_edges_loop e dag n es (em(?k \<mapsto> act)) ?c = Ret (err, em', ?c\<lparr>ActivatedEdges := m\<rparr>)
      \<and> (\<forall>k. k \<notin> out_keys n es \<longrightarrow> m k = ActivatedEdges ?c k \<and> em' k = (em(?k \<mapsto> act)) k)
      \<and> dom (ActivatedEdges ?c) \<subseteq> dom m
      \<and> (err = None \<longrightarrow> decided e ?c n es m \<and> decided e ?c n es em')
      \<and> (err = None \<longleftrightarrow> (\<forall>ed\<in>set es. \<exists>b. edge_decision e ?c n ed = Inr b))"
      using Cons.prems by (intro Cons.IH) auto
    then obtain err em' m where IH:
      "compute_edges_loop e dag n es (em(?k \<mapsto> act)) ?c = Ret (err, em', ?c\<lparr>ActivatedEdges := m\<rparr>)"
      "\<forall>k. k \<notin> out_keys n es \<longrightarrow> m k = ActivatedEdges ?c k \<and> em' k = (em(?k \<mapsto> act)) k"
      "dom (ActivatedEdges ?c) \<subseteq> dom m"
      "err = None \<longrightarrow> decided e c n es m \<and> decided e c n es em'"
      "err = None \<longleftrightarrow> (\<forall>ed\<in>set es. \<exists>b. edge_decision e c n ed = Inr b)"
      unfolding decided_flags flags_not_read by blast
    have dec: "decided e c n (ed # es) f" if "decided e c n es f" and "?k \<notin> out_keys n es \<longrightarrow> f ?k = Some act" for f
      using that Inr unfolding decided_def out_keys_simps by (metis insert_iff list.set(2))
    have "compute_edges_loop e dag n (ed # es) em c = Ret (err, em', c\<lparr>ActivatedEdges := m\<rparr>)"
      using step Inr IH(1) by simp
    moreover have "\<forall>k. k \<notin> out_keys n (ed # es) \<longrightarrow> m k = ActivatedEdges c k \<and> em' k = em k"
      using IH(2) by simp
    moreover have "dom (ActivatedEdges c) \<subseteq> dom m" using IH(3) by auto
    moreover have "err = None \<longrightarrow> decided e c n (ed # es) m \<and> decided e c n (ed # es) em'"
      using IH(2,4) dec by auto
    moreover have "err = None \<longleftrightarrow> (\<forall>ed\<in>set (ed # es). \<exists>b. edge_decision e c n ed = Inr b)"
      using IH(5) Inr by simp
    ultimately show ?thesis by blast
  qed
qed

subsection \<open>Ending a node\<close>

text \<open>
  What the engine sets up before a run: the runtime map and the list of node names cover the
  nodes of the graph, the graph holds the edges of the definition, and no name contains
  the arrow of the edge keys.
\<close>

definition ctx_ok :: "graph \<Rightarrow> run_ctx \<Rightarrow> bool" where
  "ctx_ok dag c \<longleftrightarrow> wf_graph dag \<and> dom (Runtime c) = dom (gNodes dag)
     \<and> set (WfNodes c) = dom (gNodes dag)
     \<and> (\<forall>u. Edges dag u = filter (\<lambda>ed. From ed = u) (WfEdges c))
     \<and> (\<forall>n\<in>dom (gNodes dag). \<not> has_arrow n)"

lemma ctx_okD:
  assumes "ctx_ok dag c"
  shows ctx_ok_wf: "wf_graph dag" and ctx_ok_runtime: "dom (Runtime c) = dom (gNodes dag)"
    and ctx_ok_nodes: "set (WfNodes c) = dom (gNodes dag)"
    and ctx_ok_edges: "Edges dag u = filter (\<lambda>ed. From ed = u) (WfEdges c)"
    and ctx_ok_arrow: "n \<in> dom (gNodes dag) \<Longrightarrow> \<not> has_arrow n"
  using assms unfolding ctx_ok_def by blast+

lemma ctx_ok_cong:
  assumes "ctx_ok dag c" and "dom (Runtime c') = dom (Runtime c)" and "WfNodes c' = WfNodes c"
    and "WfEdges c' = WfEdges c"
  shows "ctx_ok dag c'"
  using assms unfolding ctx_ok_def by simp

lemma ctx_ok_same_frame:
  "ctx_ok dag c \<Longrightarrow> same_frame c c' \<Longrightarrow> dom (Runtime c') = dom (Runtime c) \<Longrightarrow> ctx_ok dag c'"
  by (erule ctx_ok_cong) (auto simp: same_frame_def)

lemma ctx_ok_only_skips: "ctx_ok dag c \<Longrightarrow> only_skips dag c c' \<Longrightarrow> ctx_ok dag c'"
  using ctx_ok_same_frame only_skips_dom unfolding only_skips_def by blast

lemma ctx_ok_ends_as: "ctx_ok dag c \<Longrightarrow> ends_as dag n st c c' \<Longrightarrow> Runtime c n \<noteq> None \<Longrightarrow> ctx_ok dag c'"
  by (rule ctx_ok_same_frame [OF _ _ ends_as_dom]) (auto simp: ends_as_def)

lemma ctx_ok_flags: "ctx_ok dag (c\<lparr>ActivatedEdges := m\<rparr>) = ctx_ok dag c"
  by (simp add: ctx_ok_def)

lemma ctx_ok_child:
  assumes "ctx_ok dag c" and "ed \<in> set (Edges dag n)"
  shows "Runtime c (To ed) \<noteq> None" and "n \<in> set (Parents dag (To ed))" and "Runtime c n \<noteq> None"
proof -
  note wf = ctx_ok_wf [OF assms(1)] and rt = ctx_ok_runtime [OF assms(1)]
  from wf_graph_edges [OF wf assms(2)] rt show "Runtime c (To ed) \<noteq> None" "Runtime c n \<noteq> None" by auto
  have "To ed \<in> set (Children dag n)" using assms(2) by (auto simp: wf_graph_children [OF wf])
  then show "n \<in> set (Parents dag (To ed))" by (simp add: wf_graph_parent_iff [OF wf])
qed

lemma ctx_ok_children_known: "ctx_ok dag c \<Longrightarrow> children_known dag c"
  using wf_graph_children_dom [of dag] wf_graph_finite [of dag]
  unfolding children_known_def ctx_ok_def by (metis domIff)

lemma ctx_ok_failClosure:
  assumes "ctx_ok dag c"
  shows "\<exists>c'. failClosure e start dag c = Ret c' \<and> only_skips dag c c'"
  using failClosure_ok [OF ctx_ok_children_known [OF assms]] assms by (simp add: ctx_ok_def)

lemma ends_as_refl_flags:
  assumes "nstate c n = Some s" and "\<not> isTerminal s" and "ctx_ok dag c"
  obtains err em m where "compute_edges_loop e dag n (Edges dag n) Map.empty c = Ret (err, em, c\<lparr>ActivatedEdges := m\<rparr>)"
    "\<And>k. k \<notin> out_keys n (Edges dag n) \<Longrightarrow> m k = ActivatedEdges c k"
    "dom (ActivatedEdges c) \<subseteq> dom m"
    "err = None \<Longrightarrow> decided e c n (Edges dag n) m \<and> decided e c n (Edges dag n) em"
    "err = None \<longleftrightarrow> (\<forall>ed\<in>set (Edges dag n). \<exists>b. edge_decision e c n ed = Inr b)"
proof -
  have "\<forall>ed\<in>set (Edges dag n). Runtime c (To ed) \<noteq> None \<and> n \<in> set (Parents dag (To ed))"
    using ctx_ok_child [OF assms(3)] by blast
  from compute_edges_loop_ok [OF assms(1,2) this, of e Map.empty] that show thesis by metis
qed

lemma decided_own:
  "decided e c n es m \<Longrightarrow> ed \<in> set es \<Longrightarrow> m (edge_key n (To ed)) \<noteq> None"
  by (auto simp: decided_def out_keys_def)

lemma node_closed_ensure: "node_closed dag n c \<Longrightarrow> ensureEdgeClosure n dag c = Ret ()"
  by (auto simp: node_closed_def ensureEdgeClosure_def list_all_iff)

text \<open>
  A node that ran: either every condition evaluates and the node becomes successful with
  all its edges decided, or the first failing condition is reported and the node stays.
\<close>

lemma finalizeNode_success:
  assumes ok: "ctx_ok dag c" and s: "nstate c n = Some s" "isAllowed s NodeSuccess"
  shows "if \<forall>ed\<in>set (Edges dag n). \<exists>b. edge_decision e c n ed = Inr b
         then \<exists>c'. finalizeNode e n out None dag c = Ret (None, c') \<and> ends_as dag n NodeSuccess c c'
                \<and> decided e c n (Edges dag n) (ActivatedEdges c')
         else \<exists>msg m. finalizeNode e n out None dag c = Ret (Some msg, c\<lparr>ActivatedEdges := m\<rparr>)
                \<and> dom (ActivatedEdges c) \<subseteq> dom m"
proof -
  from s(2) have nt: "\<not> isTerminal s" using isAllowed_terminal by blast
  from ends_as_refl_flags [OF s(1) nt ok, of e] obtain err em m where L:
    "compute_edges_loop e dag n (Edges dag n) Map.empty c = Ret (err, em, c\<lparr>ActivatedEdges := m\<rparr>)"
    "\<And>k. k \<notin> out_keys n (Edges dag n) \<Longrightarrow> m k = ActivatedEdges c k"
    "dom (ActivatedEdges c) \<subseteq> dom m"
    "err = None \<Longrightarrow> decided e c n (Edges dag n) m \<and> decided e c n (Edges dag n) em"
    "err = None \<longleftrightarrow> (\<forall>ed\<in>set (Edges dag n). \<exists>b. edge_decision e c n ed = Inr b)" by metis
  show ?thesis
  proof (cases err)
    case None
    from L(4) [OF None] have dec: "decided e c n (Edges dag n) m" "decided e c n (Edges dag n) em" by auto
    have "\<exists>c'. bind_exec (set_edges n em (c\<lparr>ActivatedEdges := m\<rparr>)) (transitionLocked e n NodeSuccess None out) = Ret c'
        \<and> ends_as dag n NodeSuccess c c'"
      using decided_own [OF dec(1)] decided_own [OF dec(2)] L(2) by (intro close_then_end [OF s]) auto
    then obtain c2 c' where c': "set_edges n em (c\<lparr>ActivatedEdges := m\<rparr>) = Ret c2"
      "transitionLocked e n NodeSuccess None out c2 = Ret c'" "ends_as dag n NodeSuccess c c'"
      by (auto simp: exec_simps)
    have "ActivatedEdges c' = m"
      using transitionLocked_frame [OF c'(2)] c'(1) by (auto simp: set_edges_def ctx_frame split: option.splits)
    moreover have "ensureEdgeClosure n dag c' = Ret ()"
      using c'(3) by (intro node_closed_ensure) (simp add: ends_as_def)
    ultimately show ?thesis
      using None L(1,5) c' dec by (auto simp: finalizeNode_def computeEdges_def)
  next
    case (Some msg)
    then show ?thesis using L(1,3,5) by (auto simp: finalizeNode_def computeEdges_def)
  qed
qed

lemma close_and_fail_closure:
  assumes ok: "ctx_ok dag c" and s: "nstate c n = Some s" "isAllowed s st"
  shows "\<exists>c3 c4. (let (em, c1) = close_edges normal_flag n (Edges dag n) Map.empty c
           in bind_exec (set_edges n em c1) (\<lambda>c2.
              bind_exec (transitionLocked e n st err None c2) (\<lambda>c3.
              bind_exec (failClosure e n dag c3) (\<lambda>c4. Ret (None :: go_error option, c4))))) = Ret (None, c4)
     \<and> ends_as dag n st c c3 \<and> only_skips dag c3 c4"
proof -
  obtain em c1 where cl: "close_edges normal_flag n (Edges dag n) Map.empty c = (em, c1)" by force
  from close_edges_then_end [OF s cl, of e err None] obtain c2 c3 where
    c3: "set_edges n em c1 = Ret c2" "transitionLocked e n st err None c2 = Ret c3" "ends_as dag n st c c3"
    by (auto simp: exec_simps)
  from s(1) have "Runtime c n \<noteq> None" by (auto simp: nstate_def)
  from ctx_ok_failClosure [OF ctx_ok_ends_as [OF ok c3(3) this]] obtain c4 where
    "failClosure e n dag c3 = Ret c4" "only_skips dag c3 c4" by blast
  with cl c3 show ?thesis by auto
qed

lemma finalizeNode_failure:
  assumes "ctx_ok dag c" and "nstate c n = Some s" and "isAllowed s NodeFailed"
  shows "\<exists>c3 c4. finalizeNode e n out (Some msg) dag c = Ret (None, c4)
     \<and> ends_as dag n NodeFailed c c3 \<and> only_skips dag c3 c4"
  using close_and_fail_closure [OF assms, of e "Some msg"] by (simp add: finalizeNode_def)

lemma finalizeOptionalFailedNode_ok:
  assumes "ctx_ok dag c" and "nstate c n = Some s" and "isAllowed s NodeSkipped"
  shows "\<exists>c3 c4. finalizeOptionalFailedNode e n cause dag c = Ret (None, c4)
     \<and> ends_as dag n NodeSkipped c c3 \<and> only_skips dag c3 c4"
proof -
  from assms(2) have "Runtime c n \<noteq> None" by (auto simp: nstate_def)
  with close_and_fail_closure [OF assms, of e "Some (''optional node failed (skipped): '' @ cause)"]
  show ?thesis by (simp add: finalizeOptionalFailedNode_def)
qed

subsection \<open>Edge closure\<close>

text \<open>Every terminal node has decided all of its outgoing edges.\<close>

definition edges_closed :: "graph \<Rightarrow> run_ctx \<Rightarrow> bool" where
  "edges_closed dag c \<longleftrightarrow> (\<forall>n s. nstate c n = Some s \<and> isTerminal s \<longrightarrow> node_closed dag n c)"

lemma edges_closed_only_skips:
  assumes "edges_closed dag c" and "only_skips dag c c'"
  shows "edges_closed dag c'"
  unfolding edges_closed_def
proof (intro allI impI)
  fix n s assume n: "nstate c' n = Some s \<and> isTerminal s"
  show "node_closed dag n c'"
  proof (cases "Runtime c' n = Runtime c n")
    case True
    with n have "nstate c n = Some s" by (simp add: nstate_def)
    with n assms(1) have "node_closed dag n c" by (auto simp: edges_closed_def)
    then show ?thesis
      by (rule node_closed_mono) (use True assms(2) in \<open>simp_all add: only_skips_def\<close>)
  next
    case False
    with assms(2) show ?thesis by (auto simp: only_skips_def)
  qed
qed

lemma edges_closed_ends_as:
  assumes "edges_closed dag c" and "ends_as dag n st c c'"
  shows "edges_closed dag c'"
  unfolding edges_closed_def
proof (intro allI impI)
  fix k s assume k: "nstate c' k = Some s \<and> isTerminal s"
  show "node_closed dag k c'"
  proof (cases "k = n")
    case True
    with assms(2) show ?thesis by (simp add: ends_as_def)
  next
    case False
    with assms(2) have r: "Runtime c' k = Runtime c k" by (simp add: ends_as_def)
    with k have "nstate c k = Some s" by (simp add: nstate_def)
    with k assms(1) have "node_closed dag k c" by (auto simp: edges_closed_def)
    then show ?thesis using r ends_as_dom_flags [OF assms(2)] by (rule node_closed_mono)
  qed
qed

text \<open>
  A closed context decides: the edge from a terminal parent is never unknown. Together with
  \<open>join_decided\<close> this means that a node whose parents are all terminal either runs or is skipped.
\<close>

lemma closed_parent_decided:
  assumes "ctx_ok dag c" and "edges_closed dag c" and "p \<in> set (Parents dag n)"
    and "nstate c p = Some s" and "isTerminal s"
  shows "resolveEdgeState c p n dag \<noteq> EdgeStateUnknown"
proof -
  note wf = ctx_ok_wf [OF assms(1)]
  from assms(2,4,5) have cl: "node_closed dag p c" by (auto simp: edges_closed_def)
  have mem: "n \<in> set (map To (Edges dag p))"
    using assms(3) wf_graph_parent_iff [OF wf, of p n] wf_graph_children [OF wf, of p] by simp
  have "find_edge_to es n \<noteq> None" if "n \<in> set (map To es)" for es
    using that by (induction es) auto
  from this [OF mem] have f: "findEdge dag p n \<noteq> None" by (simp add: findEdge_def)
  from mem cl have a: "ActivatedEdges c (edge_key p n) \<noteq> None" by (auto simp: node_closed_def)
  from assms(4) obtain rt where "Runtime c p = Some rt" "State rt = s" by (rule nstate_SomeE)
  with f a assms(5) show ?thesis by (auto simp: resolveEdgeState_def split: option.splits)
qed

subsection \<open>Properties\<close>

text \<open>
  The only way a node changes state: \<^verbatim>\<open>transitionLocked\<close> panics exactly when the node is
  unknown or the table does not allow the move; otherwise that one node has the new state in
  memory and in the expression environment, and no edge flag changes.
\<close>

lemma transitionLocked_effect:
  "((\<exists>m. transitionLocked e n st err out c = Panic m) \<longleftrightarrow>
      nstate c n = None \<or> (\<exists>s. nstate c n = Some s \<and> \<not> isAllowed s st))
   \<and> (\<forall>c'. transitionLocked e n st err out c = Ret c' \<longrightarrow>
        nstate c' = (nstate c)(n \<mapsto> st) \<and> ActivatedEdges c' = ActivatedEdges c
        \<and> no_status (node_out_of c' n) = Some (node_state_str st))"
proof (intro conjI allI impI)
  fix c'
  assume t: "transitionLocked e n st err out c = Ret c'"
  show "nstate c' = (nstate c)(n \<mapsto> st)" by (rule transitionLocked_nstate [OF t])
  show "ActivatedEdges c' = ActivatedEdges c" using transitionLocked_frame [OF t] by simp
  from t obtain c1 where "c' = sync_progress e (UpdateNodeStatus n (node_state_str st) c1)"
    by (auto simp: transitionLocked_def Let_def split: option.splits if_splits prod.splits)
  then show "no_status (node_out_of c' n) = Some (node_state_str st)"
    by (simp add: node_out_of_def sync_progress_frame UpdateNodeStatus_def)
qed (rule transitionLocked_panics_iff)

lemma transitionLocked_effect_witness:
  "\<exists>c'. transitionLocked (sample_env True) ''a'' NodeSuccess None None
       (sample_ctx\<lparr>Runtime := [''a'' \<mapsto> sample_rt ''a'' NodeRunning]\<rparr>) = Ret c' \<and> nstate c' ''a'' = Some NodeSuccess"
proof -
  let ?c = "sample_ctx\<lparr>Runtime := [''a'' \<mapsto> sample_rt ''a'' NodeRunning]\<rparr>"
  have "nstate ?c ''a'' = Some NodeRunning" by (simp add: nstate_def sample_rt_def)
  with transitionLocked_effect [of "sample_env True" "''a''" NodeSuccess None None ?c] show ?thesis
    by (cases "transitionLocked (sample_env True) ''a'' NodeSuccess None None ?c") auto
qed

text \<open>
  A stored cancellation is lost at the next node transition: the progress update writes the
  whole task as the engine holds it in memory, so a row that another process has set to
  canceled becomes running again.
\<close>

lemma transition_overwrites_cancellation:
  assumes "db_err e = (\<lambda>_. None)" and "dbTask c = Some row" and "Status row = TaskCanceled"
    and "Status (Task c) = TaskRunning" and "transitionLocked e n st err out c = Ret c'"
  shows "\<exists>row'. dbTask c' = Some row' \<and> Status row' = TaskRunning"
proof -
  from assms(5) obtain c1 rt2 where c': "c' = sync_progress e (UpdateNodeStatus n (node_state_str st) (set_runtime n rt2 c1))"
    and c1: "dbTask c1 = dbTask c" "Task c1 = Task c"
  proof -
    from assms(5) obtain rt where rt: "Runtime c n = Some rt" "isAllowed (State rt) st"
      by (auto simp: transitionLocked_def split: option.splits if_splits)
    let ?r = "transition_rt (clock e (writes c)) st err out rt"
    obtain w c1 where w: "nodeRepo_Update e ?r (set_runtime n ?r c) = (w, c1)" by force
    have "dbTask c1 = dbTask c" "Task c1 = Task c"
      using nodeRepo_Update_frame(3,5) [of e ?r "set_runtime n ?r c"] w by (simp_all add: ctx_frame)
    moreover have "c' = sync_progress e (UpdateNodeStatus n (node_state_str st)
        (set_runtime n (case w of None \<Rightarrow> ?r | Some m \<Rightarrow> ?r\<lparr>Error := m\<rparr>) c1))"
      using assms(5) rt w by (simp add: transitionLocked_def Let_def)
    ultimately show thesis using that by blast
  qed
  let ?c = "UpdateNodeStatus n (node_state_str st) (set_runtime n rt2 c1)"
  have "dbTask ?c = Some row" "Task ?c = Task c" using c1 assms(2) by (simp_all add: ctx_frame)
  then show ?thesis
    using assms(1,4) c' by (simp add: sync_progress_def Let_def taskRepo_Update_def publish_def)
qed

lemma transition_overwrites_cancellation_witness:
  "\<exists>c' row'. transitionLocked (sample_env True) ''a'' NodeSuccess None None
       (sample_ctx\<lparr>Runtime := [''a'' \<mapsto> sample_rt ''a'' NodeRunning], Task := sample_task\<lparr>Status := TaskRunning\<rparr>,
          dbTask := Some (sample_task\<lparr>Status := TaskCanceled\<rparr>)\<rparr>) = Ret c'
     \<and> dbTask c' = Some row' \<and> Status row' = TaskRunning"
proof -
  let ?c = "sample_ctx\<lparr>Runtime := [''a'' \<mapsto> sample_rt ''a'' NodeRunning], Task := sample_task\<lparr>Status := TaskRunning\<rparr>,
          dbTask := Some (sample_task\<lparr>Status := TaskCanceled\<rparr>)\<rparr>"
  have "nstate ?c ''a'' = Some NodeRunning" by (simp add: nstate_def sample_rt_def)
  from transitionLocked_total [OF this, of NodeSuccess "sample_env True" None None] obtain c' where
    "transitionLocked (sample_env True) ''a'' NodeSuccess None None ?c = Ret c'" by auto
  with transition_overwrites_cancellation [of "sample_env True" ?c "sample_task\<lparr>Status := TaskCanceled\<rparr>"]
  show ?thesis by (simp add: sample_env_def)
qed

end
