(* ===== verification/Flux_Await.thy ===== *)
theory Flux_Await
  imports Flux_Executor
begin

text \<open>
  Waiting for the outside: \<^verbatim>\<open>repository/query/await_binding.go\<close>, the await part of
  \<^verbatim>\<open>engine/executor.go\<close> and \<^verbatim>\<open>engine/await_complete.go\<close>. A node that waits has one binding
  row; the compare-and-set on its status decides who may complete the node. Instants are
  nanoseconds, as in \<^verbatim>\<open>time.Duration\<close>.
\<close>

subsection \<open>Reading configuration values\<close>

definition Second :: int where "Second = 1000000000"
definition Minute :: int where "Minute = 60 * Second"

definition cfg :: "gmap \<Rightarrow> string \<Rightarrow> gval" where
  "cfg m k = (case map_of m k of None \<Rightarrow> VNil | Some v \<Rightarrow> v)"

definition stringValue :: "env \<Rightarrow> gval \<Rightarrow> string" where
  "stringValue e v = (case v of VNil \<Rightarrow> [] | VStr s \<Rightarrow> s | _ \<Rightarrow> sprint e v)"

definition intValue :: "gval \<Rightarrow> int" where
  "intValue v = (case v of VInt k \<Rightarrow> k | VFloat q \<Rightarrow> trunc q | _ \<Rightarrow> 0)"

definition optionalStringPtr :: "env \<Rightarrow> gval \<Rightarrow> string option" where
  "optionalStringPtr e v = (let s = stringValue e v in if s = [] then None else Some s)"

fun firstNonEmptyString :: "env \<Rightarrow> gval list \<Rightarrow> string" where
  "firstNonEmptyString e [] = []"
| "firstNonEmptyString e (v # vs) =
     (let s = stringValue e v in if s \<noteq> [] \<and> s \<noteq> ''<nil>'' then s else firstNonEmptyString e vs)"

definition resolveAwaitCorrelation :: "gmap \<Rightarrow> gval \<Rightarrow> gmap" where
  "resolveAwaitCorrelation input raw =
     (case raw of
        VMap m \<Rightarrow> map (\<lambda>(k, v). (k, case v of
            VStr s \<Rightarrow> (case map_of input s of Some r \<Rightarrow> r | None \<Rightarrow> v)
          | _ \<Rightarrow> v)) m
      | _ \<Rightarrow> [])"

definition resolveAwaitValue :: "env \<Rightarrow> gmap \<Rightarrow> gval \<Rightarrow> string" where
  "resolveAwaitValue e input raw =
     (let s = stringValue e raw
      in if s = [] then [] else case map_of input s of Some v \<Rightarrow> stringValue e v | None \<Rightarrow> s)"

definition resolveAwaitCallbackToken :: "env \<Rightarrow> gmap \<Rightarrow> gval \<Rightarrow> string" where
  "resolveAwaitCallbackToken e input raw =
     (let s = stringValue e raw
      in if s = [] then [] else case map_of input s of Some v \<Rightarrow> stringValue e v | None \<Rightarrow> s)"

definition awaitFallbackEnabled :: "gval \<Rightarrow> bool" where
  "awaitFallbackEnabled raw =
     (case raw of VMap m \<Rightarrow> (case cfg m ''enabled'' of VBool b \<Rightarrow> b | _ \<Rightarrow> False) | _ \<Rightarrow> False)"

definition awaitFallbackTool :: "env \<Rightarrow> gval \<Rightarrow> string option" where
  "awaitFallbackTool e raw =
     (case raw of VMap m \<Rightarrow> optionalStringPtr e (cfg m ''tool'') | _ \<Rightarrow> None)"

definition awaitFallbackMaxAttempts :: "gval \<Rightarrow> int" where
  "awaitFallbackMaxAttempts raw = (case raw of VMap m \<Rightarrow> intValue (cfg m ''max_attempts'') | _ \<Rightarrow> 0)"

definition parseDurationValue :: "env \<Rightarrow> gval \<Rightarrow> int option" where
  "parseDurationValue e v =
     (case v of VInt k \<Rightarrow> Some (k * Second) | VFloat q \<Rightarrow> Some (trunc (q * of_int Second))
      | VStr s \<Rightarrow> parse_duration e s | _ \<Rightarrow> None)"

definition awaitFallbackStartAfter :: "env \<Rightarrow> gval \<Rightarrow> int" where
  "awaitFallbackStartAfter e raw =
     (case raw of
        VMap m \<Rightarrow>
          (case parseDurationValue e (cfg m ''start_after'') of
             Some d \<Rightarrow> if 0 \<le> d then d
                       else (case parseDurationValue e (cfg m ''interval'') of
                               Some i \<Rightarrow> if 0 < i then i else Minute | None \<Rightarrow> Minute)
           | None \<Rightarrow> (case parseDurationValue e (cfg m ''interval'') of
                               Some i \<Rightarrow> if 0 < i then i else Minute | None \<Rightarrow> Minute))
      | _ \<Rightarrow> Minute)"

subsection \<open>The binding table\<close>

text \<open>
  One row per task and node, which the engine looks up by that pair and then addresses by
  id. An empty JSON document is stored as NULL.
\<close>

definition binding_row :: "await_binding \<Rightarrow> await_binding" where
  "binding_row b = b
     \<lparr>ab_LastEventPayload := (if ab_LastEventPayload b = Some [] then None else ab_LastEventPayload b),
      ab_ResultPayload := (if ab_ResultPayload b = Some [] then None else ab_ResultPayload b)\<rparr>"

definition bindingRepo_Create :: "env \<Rightarrow> await_binding \<Rightarrow> run_ctx \<Rightarrow> go_error option \<times> run_ctx" where
  "bindingRepo_Create e b c =
     (case db_err e (writes c) of
        Some m \<Rightarrow> (Some m, c\<lparr>writes := Suc (writes c)\<rparr>)
      | None \<Rightarrow> (None, c\<lparr>writes := Suc (writes c),
                       dbBindings := (dbBindings c)(ab_NodeName b \<mapsto> binding_row b)\<rparr>))"

definition bindingRepo_Update :: "env \<Rightarrow> await_binding \<Rightarrow> run_ctx \<Rightarrow> go_error option \<times> run_ctx" where
  "bindingRepo_Update e b c =
     (case db_err e (writes c) of
        Some m \<Rightarrow> (Some m, c\<lparr>writes := Suc (writes c)\<rparr>)
      | None \<Rightarrow> (None, c\<lparr>writes := Suc (writes c),
           dbBindings := (dbBindings c)(ab_NodeName b :=
             map_option (\<lambda>_. binding_row b) (dbBindings c (ab_NodeName b)))\<rparr>))"

text \<open>The conditional update of a status: the row count says whether the row was moved.\<close>

definition cas_status ::
  "env \<Rightarrow> name \<Rightarrow> await_status list \<Rightarrow> await_status \<Rightarrow> run_ctx \<Rightarrow> (go_error + bool) \<times> run_ctx" where
  "cas_status e n froms to c =
     (case db_err e (writes c) of
        Some m \<Rightarrow> (Inl m, c\<lparr>writes := Suc (writes c)\<rparr>)
      | None \<Rightarrow>
         (case dbBindings c n of
            Some b \<Rightarrow>
              if ab_Status b \<in> set froms
              then (Inr True, c\<lparr>writes := Suc (writes c),
                                dbBindings := (dbBindings c)(n \<mapsto> b\<lparr>ab_Status := to\<rparr>)\<rparr>)
              else (Inr False, c\<lparr>writes := Suc (writes c)\<rparr>)
          | None \<Rightarrow> (Inr False, c\<lparr>writes := Suc (writes c)\<rparr>)))"

definition TransitionStatus ::
  "env \<Rightarrow> name \<Rightarrow> await_status \<Rightarrow> await_status \<Rightarrow> run_ctx \<Rightarrow> (go_error + bool) \<times> run_ctx" where
  "TransitionStatus e n from to c =
     (if \<not> IsAllowedAwaitBindingTransition from to
      then (Inl ''illegal await binding transition'', c)
      else cas_status e n [from] to c)"

definition ClaimCompleting ::
  "env \<Rightarrow> name \<Rightarrow> await_status list \<Rightarrow> run_ctx \<Rightarrow> (go_error + bool) \<times> run_ctx" where
  "ClaimCompleting e n expected c =
     (let ex = (if expected = [] then [AwaitBindingWaiting] else expected)
      in if \<not> list_all (\<lambda>s. IsAllowedAwaitBindingTransition s AwaitBindingCompleting) ex
         then (Inl ''illegal await binding transition'', c)
         else cas_status e n ex AwaitBindingCompleting c)"

subsection \<open>Creating the binding\<close>

definition empty_binding :: "run_ctx \<Rightarrow> name \<Rightarrow> await_binding" where
  "empty_binding c n =
     \<lparr>ab_TaskID = task_id (Task c), ab_RootTaskID = RootID (Task c), ab_NodeName = n,
      ab_WorkflowVersionID = WorkflowVersionID (Task c), ab_AwaitType = [], ab_Source = [],
      ab_Status = AwaitBindingPending, ab_Provider = None, ab_ProviderTaskID = None,
      ab_APITaskID = None, ab_ExternalTaskID = None, ab_SignalName = None, ab_MessageName = None,
      ab_CallbackToken = None, ab_Correlation = [], ab_Config = [], ab_LastEventID = None,
      ab_LastEventSource = None, ab_LastEventPayload = None, ab_ResultPayload = None,
      ab_ErrorMessage = [], ab_FallbackPollEnabled = False, ab_FallbackPollTool = None,
      ab_PollAttempts = 0, ab_MaxPollAttempts = 0, ab_LastPolledAt = None, ab_NextPollAt = None,
      ab_WaitingStartedAt = None, ab_TimeoutAt = None, ab_CompletedAt = None, ab_FailedAt = None,
      ab_CanceledAt = None\<rparr>"

definition non_empty_ptr :: "env \<Rightarrow> gmap \<Rightarrow> string \<Rightarrow> string option" where
  "non_empty_ptr e m k = (let s = firstNonEmptyString e [cfg m k] in if s \<noteq> [] then Some s else None)"

definition buildAwaitBinding :: "env \<Rightarrow> run_ctx \<Rightarrow> node \<Rightarrow> gmap \<Rightarrow> go_error + await_binding" where
  "buildAwaitBinding e c nd input =
     (let config = n_Config nd;
          awaitType = stringValue e (cfg config ''await_type'');
          source = stringValue e (cfg config ''source'');
          correlation = resolveAwaitCorrelation input (cfg config ''correlation'');
          fb = cfg config ''fallback_poll'';
          t = intValue (cfg config ''timeout_seconds'')
      in if awaitType = [] then Inl ''await node missing await_type''
         else if source = [] then Inl ''await node missing source''
         else Inr ((empty_binding c (n_Name nd))
           \<lparr>ab_AwaitType := awaitType, ab_Source := source, ab_Status := AwaitBindingPending,
            ab_Correlation := correlation, ab_Config := config,
            ab_FallbackPollEnabled := awaitFallbackEnabled fb,
            ab_FallbackPollTool := awaitFallbackTool e fb,
            ab_MaxPollAttempts := awaitFallbackMaxAttempts fb,
            ab_Provider := optionalStringPtr e (VStr (resolveAwaitValue e input (cfg config ''provider''))),
            ab_SignalName := optionalStringPtr e (cfg config ''signal_name''),
            ab_CallbackToken := optionalStringPtr e
              (VStr (resolveAwaitCallbackToken e input (cfg config ''callback_token_expr''))),
            ab_TimeoutAt := (if 0 < t then Some (clock e (writes c) + t * Second) else None),
            ab_ProviderTaskID := non_empty_ptr e correlation ''provider_task_id'',
            ab_APITaskID := non_empty_ptr e correlation ''api_task_id'',
            ab_ExternalTaskID := non_empty_ptr e correlation ''external_task_id''\<rparr>))"

definition resetAwaitBindingForRetry :: "await_binding \<Rightarrow> await_binding \<Rightarrow> await_binding" where
  "resetAwaitBindingForRetry dst src = dst
     \<lparr>ab_TaskID := ab_TaskID src, ab_RootTaskID := ab_RootTaskID src, ab_NodeName := ab_NodeName src,
      ab_WorkflowVersionID := ab_WorkflowVersionID src, ab_AwaitType := ab_AwaitType src,
      ab_Source := ab_Source src, ab_Status := AwaitBindingPending, ab_Provider := ab_Provider src,
      ab_ProviderTaskID := ab_ProviderTaskID src, ab_APITaskID := ab_APITaskID src,
      ab_ExternalTaskID := ab_ExternalTaskID src, ab_SignalName := ab_SignalName src,
      ab_MessageName := ab_MessageName src, ab_CallbackToken := ab_CallbackToken src,
      ab_Correlation := ab_Correlation src, ab_Config := ab_Config src, ab_LastEventID := None,
      ab_LastEventSource := None, ab_LastEventPayload := None, ab_ResultPayload := None,
      ab_ErrorMessage := [], ab_FallbackPollEnabled := ab_FallbackPollEnabled src,
      ab_FallbackPollTool := ab_FallbackPollTool src, ab_PollAttempts := 0,
      ab_MaxPollAttempts := ab_MaxPollAttempts src, ab_LastPolledAt := None,
      ab_NextPollAt := ab_NextPollAt src, ab_WaitingStartedAt := ab_WaitingStartedAt src,
      ab_TimeoutAt := ab_TimeoutAt src, ab_CompletedAt := None, ab_FailedAt := None,
      ab_CanceledAt := None\<rparr>"

subsection \<open>executeAwaitNode\<close>

text \<open>How the execution of a node ends: \<^verbatim>\<open>nil\<close>, an error, or the suspension of the task.\<close>

datatype exec_result = ExecOk | ExecErr go_error | ExecSuspend suspend_reason

definition await_live :: "await_status \<Rightarrow> bool" where
  "await_live s \<longleftrightarrow> s = AwaitBindingWaiting \<or> s = AwaitBindingPending \<or> s = AwaitBindingCompleting"

definition suspend_awaiting :: "env \<Rightarrow> name \<Rightarrow> run_ctx \<Rightarrow> (exec_result \<times> run_ctx) exec" where
  "suspend_awaiting e n c =
     bind_exec (transitionLocked e n NodeAwaiting None None c) (\<lambda>c1. Ret (ExecSuspend SuspendAsyncNode, c1))"

definition open_binding ::
  "env \<Rightarrow> name \<Rightarrow> go_error option \<times> run_ctx \<Rightarrow> (exec_result \<times> run_ctx) exec" where
  "open_binding e n r =
     (case r of
        (Some m, c1) \<Rightarrow> Ret (ExecErr m, c1)
      | (None, c1) \<Rightarrow>
         (case TransitionStatus e n AwaitBindingPending AwaitBindingWaiting c1 of
            (Inl m, c2) \<Rightarrow> Ret (ExecErr m, c2)
          | (Inr False, c2) \<Rightarrow> Ret (ExecErr ''await binding transition failed: pending -> waiting'', c2)
          | (Inr True, c2) \<Rightarrow> suspend_awaiting e n c2))"

definition executeAwaitNode :: "env \<Rightarrow> node \<Rightarrow> gmap \<Rightarrow> run_ctx \<Rightarrow> (exec_result \<times> run_ctx) exec" where
  "executeAwaitNode e nd input c =
     (case buildAwaitBinding e c nd input of
        Inl m \<Rightarrow> Ret (ExecErr m, c)
      | Inr b \<Rightarrow>
         (let n = n_Name nd; now = clock e (writes c);
              b1 = b\<lparr>ab_WaitingStartedAt := Some now,
                     ab_NextPollAt := (if ab_FallbackPollEnabled b
                       then Some (now + awaitFallbackStartAfter e (cfg (n_Config nd) ''fallback_poll''))
                       else ab_NextPollAt b),
                     ab_Status := AwaitBindingPending\<rparr>
          in case dbBindings c n of
               None \<Rightarrow> open_binding e n (bindingRepo_Create e b1 c)
             | Some ex \<Rightarrow>
                if await_live (ab_Status ex) then suspend_awaiting e n c
                else open_binding e n (bindingRepo_Update e (resetAwaitBindingForRetry ex b1) c)))"

subsection \<open>Who may complete a node\<close>

text \<open>
  Requests on one binding from any number of callers (the engine, a webhook, the poll worker)
  arrive in some order; each is one compare-and-set. A run of requests records which of them
  moved the row.
\<close>

datatype binding_op = Move await_status await_status | Claim "await_status list"

fun apply_op :: "env \<Rightarrow> name \<Rightarrow> binding_op \<Rightarrow> run_ctx \<Rightarrow> bool \<times> run_ctx" where
  "apply_op e n (Move s t) c = map_prod (\<lambda>r. r = Inr True) id (TransitionStatus e n s t c)"
| "apply_op e n (Claim ex) c = map_prod (\<lambda>r. r = Inr True) id (ClaimCompleting e n ex c)"

fun run_ops :: "env \<Rightarrow> name \<Rightarrow> binding_op list \<Rightarrow> run_ctx \<Rightarrow> (binding_op \<times> bool) list" where
  "run_ops e n [] c = []"
| "run_ops e n (a # as) c = (let (moved, c1) = apply_op e n a c in (a, moved) # run_ops e n as c1)"

definition bstatus :: "run_ctx \<Rightarrow> name \<Rightarrow> await_status option" where
  "bstatus c n = map_option ab_Status (dbBindings c n)"

lemma cas_status_cases:
  assumes "cas_status e n froms to c = (r, c')"
  shows "(r = Inr True \<and> (\<exists>s\<in>set froms. bstatus c n = Some s) \<and> bstatus c' n = Some to)
       \<or> (r \<noteq> Inr True \<and> bstatus c' n = bstatus c n)"
  using assms by (auto simp: cas_status_def bstatus_def split: option.splits if_splits)

lemma apply_op_cases:
  assumes "apply_op e n a c = (moved, c')"
  shows "(moved \<and> (\<exists>s t. bstatus c n = Some s \<and> bstatus c' n = Some t
              \<and> t \<in> set (AllowedTransitionsAwaitBinding s) \<and> (\<forall>ex. a = Claim ex \<longrightarrow> t = AwaitBindingCompleting)))
       \<or> (\<not> moved \<and> bstatus c' n = bstatus c n)"
proof (cases a)
  case (Move s t)
  show ?thesis
  proof (cases "IsAllowedAwaitBindingTransition s t")
    case True
    obtain r where r: "cas_status e n [s] t c = (r, c')" "moved \<longleftrightarrow> r = Inr True"
      using assms Move True by (cases "cas_status e n [s] t c") (auto simp: TransitionStatus_def)
    from cas_status_cases [OF r(1)] r(2) Move True show ?thesis
      by (auto simp: IsAllowedAwaitBindingTransition_def)
  next
    case False
    with assms Move show ?thesis by (auto simp: TransitionStatus_def)
  qed
next
  case (Claim ex)
  let ?ex = "if ex = [] then [AwaitBindingWaiting] else ex"
  show ?thesis
  proof (cases "list_all (\<lambda>s. IsAllowedAwaitBindingTransition s AwaitBindingCompleting) ?ex")
    case True
    obtain r where r: "cas_status e n ?ex AwaitBindingCompleting c = (r, c')" "moved \<longleftrightarrow> r = Inr True"
      using assms Claim True
      by (cases "cas_status e n ?ex AwaitBindingCompleting c") (auto simp: ClaimCompleting_def Let_def)
    from cas_status_cases [OF r(1)] r(2) Claim True show ?thesis
      unfolding list_all_iff IsAllowedAwaitBindingTransition_def find_candidate_iff by blast
  next
    case False
    with assms Claim show ?thesis by (auto simp: ClaimCompleting_def Let_def)
  qed
qed

text \<open>The statuses a run goes through form a chain of the transition table.\<close>

lemma run_ops_chain:
  assumes "bstatus c n = Some s"
  shows "\<exists>ts. await_machine.chain s ts \<and> length ts = length (filter snd (run_ops e n as c))"
  using assms
proof (induction as arbitrary: c s)
  case Nil
  show ?case by (rule exI [of _ "[]"]) simp
next
  case (Cons a as)
  obtain moved c1 where a: "apply_op e n a c = (moved, c1)" by force
  from apply_op_cases [OF a] show ?case
  proof (elim disjE conjE exE)
    fix s' t
    assume m: "moved" "bstatus c n = Some s'" "bstatus c1 n = Some t" "t \<in> set (AllowedTransitionsAwaitBinding s')"
    from Cons.IH [OF m(3)] obtain ts where
      "await_machine.chain t ts" "length ts = length (filter snd (run_ops e n as c1))" by blast
    with m a Cons.prems show ?thesis by (intro exI [of _ "t # ts"]) simp
  next
    assume "\<not> moved" "bstatus c1 n = bstatus c n"
    with Cons a show ?thesis by simp
  qed
qed

abbreviation claims_of :: "(binding_op \<times> bool) list \<Rightarrow> (binding_op \<times> bool) list" where
  "claims_of \<equiv> filter (\<lambda>(a, moved). moved \<and> (\<exists>ex. a = Claim ex))"

lemma run_ops_claims:
  assumes "bstatus c n = Some s"
  shows "length (claims_of (run_ops e n as c)) \<le> (if 2 \<le> await_rank s then 1 else 0)"
  using assms
proof (induction as arbitrary: c s)
  case Nil
  then show ?case by simp
next
  case (Cons a as)
  obtain moved c1 where a: "apply_op e n a c = (moved, c1)" by force
  from apply_op_cases [OF a] show ?case
  proof (elim disjE conjE exE)
    fix s' t
    assume m: "moved" "bstatus c n = Some s'" "bstatus c1 n = Some t" "t \<in> set (AllowedTransitionsAwaitBinding s')"
      and cl: "\<forall>ex. a = Claim ex \<longrightarrow> t = AwaitBindingCompleting"
    have s: "s' = s" using m(2) Cons.prems by simp
    have rest: "length (claims_of (run_ops e n as c1)) \<le> (if 2 \<le> await_rank t then 1 else 0)"
      by (rule Cons.IH [OF m(3)])
    have lt: "await_rank t < await_rank s" using m(4) s by (simp add: await_machine.rank_less)
    show ?thesis
    proof (cases "\<exists>ex. a = Claim ex")
      case True
      with cl have "t = AwaitBindingCompleting" by blast
      with rest lt True a m(1) show ?thesis by simp
    next
      case False
      with rest lt a m(1) show ?thesis by (auto split: if_splits)
    qed
  next
    assume "\<not> moved" "bstatus c1 n = bstatus c n"
    with Cons a show ?thesis by simp
  qed
qed

subsection \<open>Suspension at an await node\<close>

lemma clean_writes:
  assumes "db_err e = (\<lambda>_. None)" and "IsAllowedAwaitBindingTransition s t" and "bstatus c n = Some s"
  shows "\<exists>c'. TransitionStatus e n s t c = (Inr True, c') \<and> Runtime c' = Runtime c \<and> bstatus c' n = Some t"
  using assms by (auto simp: TransitionStatus_def cas_status_def bstatus_def)

lemma transition_keeps_bindings:
  assumes "transitionLocked e n st err out c = Ret c'"
  shows "bstatus c' = bstatus c"
  using transitionLocked_frame [OF assms] by (simp add: bstatus_def same_frame_def fun_eq_iff)

lemma suspend_awaiting_ok:
  assumes "nstate c n = Some NodeRunning"
  shows "\<exists>c'. suspend_awaiting e n c = Ret (ExecSuspend SuspendAsyncNode, c')
    \<and> nstate c' n = Some NodeAwaiting \<and> bstatus c' = bstatus c"
proof -
  from transitionLocked_total [OF assms] obtain c' where
    c': "transitionLocked e n NodeAwaiting None None c = Ret c'" by fastforce
  from transitionLocked_nstate [OF c'] transition_keeps_bindings [OF c'] c' show ?thesis
    by (simp add: suspend_awaiting_def)
qed

lemma open_binding_ok:
  assumes "db_err e = (\<lambda>_. None)" and "nstate c n = Some NodeRunning" and "bstatus c n = Some AwaitBindingPending"
  shows "\<exists>c'. open_binding e n (None, c) = Ret (ExecSuspend SuspendAsyncNode, c')
    \<and> nstate c' n = Some NodeAwaiting \<and> bstatus c' n = Some AwaitBindingWaiting"
proof -
  have "IsAllowedAwaitBindingTransition AwaitBindingPending AwaitBindingWaiting"
    by (simp add: IsAllowedAwaitBindingTransition_def)
  from clean_writes [OF assms(1) this assms(3)] obtain c1 where
    c1: "TransitionStatus e n AwaitBindingPending AwaitBindingWaiting c = (Inr True, c1)"
      "Runtime c1 = Runtime c" "bstatus c1 n = Some AwaitBindingWaiting" by blast
  then have "nstate c1 n = Some NodeRunning" using assms(2) by (simp add: nstate_def)
  from suspend_awaiting_ok [OF this, of e] c1 show ?thesis by (auto simp: open_binding_def)
qed

subsection \<open>Properties\<close>

text \<open>
  C7. One completion per wait: however many callers send claims and transitions for a binding,
  and in whatever order they arrive, at most one claim succeeds, so at most one of them goes
  on to complete the node; and a binding is moved at most three times before it is terminal.
\<close>

theorem binding_single_completion:
  assumes "dbBindings c n = Some b"
  shows "length (claims_of (run_ops e n as c)) \<le> 1 \<and> length (filter snd (run_ops e n as c)) \<le> 3"
proof -
  from assms have s: "bstatus c n = Some (ab_Status b)" by (simp add: bstatus_def)
  have "length (claims_of (run_ops e n as c)) \<le> (if 2 \<le> await_rank (ab_Status b) then 1 else 0)"
    by (rule run_ops_claims [OF s])
  moreover obtain ts where "await_machine.chain (ab_Status b) ts" "length ts = length (filter snd (run_ops e n as c))"
    using run_ops_chain [OF s] by blast
  moreover have "await_rank st \<le> 3" for st by (cases st) simp_all
  ultimately show ?thesis
    using await_machine.chain_bounded [of "ab_Status b" ts] le_trans by (fastforce split: if_splits)
qed

theorem binding_single_completion_witness:
  "run_ops (sample_env True) ''a'' [Claim [], Claim []]
     (sample_ctx\<lparr>dbBindings := [''a'' \<mapsto> (empty_binding sample_ctx ''a'')\<lparr>ab_Status := AwaitBindingWaiting\<rparr>]\<rparr>)
     = [(Claim [], True), (Claim [], False)]
   \<and> length (claims_of (run_ops (sample_env True) ''a'' [Claim [], Claim []]
     (sample_ctx\<lparr>dbBindings := [''a'' \<mapsto> (empty_binding sample_ctx ''a'')\<lparr>ab_Status := AwaitBindingWaiting\<rparr>]\<rparr>))) \<le> 1"
proof
  let ?c = "sample_ctx\<lparr>dbBindings := [''a'' \<mapsto> (empty_binding sample_ctx ''a'')\<lparr>ab_Status := AwaitBindingWaiting\<rparr>]\<rparr>"
  show "run_ops (sample_env True) ''a'' [Claim [], Claim []] ?c = [(Claim [], True), (Claim [], False)]"
    by (simp add: ClaimCompleting_def cas_status_def sample_env_def sample_ctx_def
        IsAllowedAwaitBindingTransition_def)
  show "length (claims_of (run_ops (sample_env True) ''a'' [Claim [], Claim []] ?c)) \<le> 1"
    by (rule binding_single_completion [THEN conjunct1]) simp
qed

text \<open>
  Reaching an await node suspends it: with a database that accepts its writes, a running
  await node with a type and a source becomes awaiting, the task is told to suspend, and the
  node has a binding that someone can still complete. A binding that was already open is
  left as it is; a finished one is opened again.
\<close>

lemma executeAwaitNode_suspends:
  assumes "db_err e = (\<lambda>_. None)" and "nstate c (n_Name nd) = Some NodeRunning"
    and "stringValue e (cfg (n_Config nd) ''await_type'') \<noteq> []" and "stringValue e (cfg (n_Config nd) ''source'') \<noteq> []"
  shows "\<exists>c'. executeAwaitNode e nd inp c = Ret (ExecSuspend SuspendAsyncNode, c')
    \<and> nstate c' (n_Name nd) = Some NodeAwaiting
    \<and> bstatus c' (n_Name nd) = Some (case bstatus c (n_Name nd) of
         Some s \<Rightarrow> if await_live s then s else AwaitBindingWaiting | None \<Rightarrow> AwaitBindingWaiting)"
proof -
  let ?n = "n_Name nd"
  obtain b where b: "buildAwaitBinding e c nd inp = Inr b" "ab_NodeName b = ?n"
    using assms(3,4) by (auto simp: buildAwaitBinding_def Let_def empty_binding_def)
  show ?thesis
  proof (cases "dbBindings c ?n")
    case None
    define b1 where "b1 = b\<lparr>ab_WaitingStartedAt := Some (clock e (writes c)),
        ab_NextPollAt := (if ab_FallbackPollEnabled b
          then Some (clock e (writes c) + awaitFallbackStartAfter e (cfg (n_Config nd) ''fallback_poll''))
          else ab_NextPollAt b), ab_Status := AwaitBindingPending\<rparr>"
    obtain c1 where c1: "bindingRepo_Create e b1 c = (None, c1)" "Runtime c1 = Runtime c"
        "bstatus c1 ?n = Some AwaitBindingPending"
      using assms(1) b(2) by (simp add: bindingRepo_Create_def bstatus_def binding_row_def b1_def)
    have "executeAwaitNode e nd inp c = open_binding e ?n (bindingRepo_Create e b1 c)"
      using None b by (simp add: executeAwaitNode_def Let_def b1_def)
    moreover have "nstate c1 ?n = Some NodeRunning" using assms(2) c1(2) by (simp add: nstate_def)
    ultimately show ?thesis
      using open_binding_ok [OF assms(1) _ c1(3)] c1(1) None by (simp add: bstatus_def)
  next
    case (Some ex)
    show ?thesis
    proof (cases "await_live (ab_Status ex)")
      case True
      have "executeAwaitNode e nd inp c = suspend_awaiting e ?n c"
        using Some b True by (simp add: executeAwaitNode_def Let_def)
      moreover have "bstatus c ?n = Some (ab_Status ex)" using Some by (simp add: bstatus_def)
      ultimately show ?thesis using suspend_awaiting_ok [OF assms(2), of e] True by auto
    next
      case False
      define b1 where "b1 = resetAwaitBindingForRetry ex (b\<lparr>ab_WaitingStartedAt := Some (clock e (writes c)),
        ab_NextPollAt := (if ab_FallbackPollEnabled b
          then Some (clock e (writes c) + awaitFallbackStartAfter e (cfg (n_Config nd) ''fallback_poll''))
          else ab_NextPollAt b), ab_Status := AwaitBindingPending\<rparr>)"
      obtain c1 where c1: "bindingRepo_Update e b1 c = (None, c1)" "Runtime c1 = Runtime c"
          "bstatus c1 ?n = Some AwaitBindingPending"
        using assms(1) b(2) Some
        by (simp add: bindingRepo_Update_def bstatus_def binding_row_def b1_def resetAwaitBindingForRetry_def)
      have "executeAwaitNode e nd inp c = open_binding e ?n (bindingRepo_Update e b1 c)"
        using Some b False by (simp add: executeAwaitNode_def Let_def b1_def)
      moreover have "nstate c1 ?n = Some NodeRunning" using assms(2) c1(2) by (simp add: nstate_def)
      ultimately show ?thesis
        using open_binding_ok [OF assms(1) _ c1(3)] c1(1) Some False by (simp add: bstatus_def)
    qed
  qed
qed

lemma executeAwaitNode_suspends_witness:
  "\<exists>c'. executeAwaitNode (sample_env True)
      ((sample_cnode ''a'')\<lparr>n_Type := ''await'', n_Config := [(''await_type'', VStr ''signal''), (''source'', VStr ''user'')]\<rparr>)
      [] (sample_ctx\<lparr>Runtime := [''a'' \<mapsto> sample_rt ''a'' NodeRunning]\<rparr>) = Ret (ExecSuspend SuspendAsyncNode, c')
    \<and> nstate c' ''a'' = Some NodeAwaiting \<and> bstatus c' ''a'' = Some AwaitBindingWaiting"
proof -
  let ?nd = "(sample_cnode ''a'')\<lparr>n_Type := ''await'', n_Config := [(''await_type'', VStr ''signal''), (''source'', VStr ''user'')]\<rparr>"
  let ?c = "sample_ctx\<lparr>Runtime := [''a'' \<mapsto> sample_rt ''a'' NodeRunning]\<rparr>"
  have "n_Name ?nd = ''a''" "nstate ?c ''a'' = Some NodeRunning" "bstatus ?c ''a'' = None" "db_err (sample_env True) = (\<lambda>_. None)"
    "stringValue (sample_env True) (cfg (n_Config ?nd) ''await_type'') = ''signal''"
    "stringValue (sample_env True) (cfg (n_Config ?nd) ''source'') = ''user''"
    by (simp_all add: sample_cnode_def nstate_def sample_rt_def bstatus_def sample_ctx_def sample_env_def cfg_def stringValue_def)
  with executeAwaitNode_suspends [of "sample_env True" ?c ?nd "[]"] show ?thesis by simp
qed

end
