(* ===== verification/Flux_Subworkflow.thy ===== *)
theory Flux_Subworkflow
  imports Flux_Await
begin

text \<open>
  \<^verbatim>\<open>engine/subworkflow.go\<close>, \<^verbatim>\<open>runtimekeys/subworkflow_key.go\<close> and the subworkflow part of
  \<^verbatim>\<open>engine/executor.go\<close>: a node that runs another workflow creates one child task per
  \<^verbatim>\<open>sub_key\<close>, queues it and suspends. The child rows of the task are the map \<open>subTasks\<close>,
  keyed by the unique column \<^verbatim>\<open>sub_key\<close>.
\<close>

subsection \<open>Keys and results\<close>

text \<open>
  The input is normalised before it is hashed: maps and lists are walked and scalars are kept.
  (The code also turns Go structs into maps here; the dynamic values of the model have none.)
\<close>

primrec normalizeValue :: "gval \<Rightarrow> gval" where
  "normalizeValue VNil = VNil"
| "normalizeValue (VBool b) = VBool b"
| "normalizeValue (VInt k) = VInt k"
| "normalizeValue (VFloat q) = VFloat q"
| "normalizeValue (VStr s) = VStr s"
| "normalizeValue (VList xs) = VList (map normalizeValue xs)"
| "normalizeValue (VMap m) = VMap (map (map_prod id normalizeValue) m)"

definition normalizeMapAny :: "gmap \<Rightarrow> gmap" where
  "normalizeMapAny m = map (map_prod id normalizeValue) m"

definition BuildSubWorkflowKey :: "env \<Rightarrow> int \<Rightarrow> name \<Rightarrow> string \<Rightarrow> gmap \<Rightarrow> string" where
  "BuildSubWorkflowKey e parent n wname input =
     FormatInt parent @ ''-'' @ n @ ''-'' @ wname @ ''-'' @ md5_json e (normalizeMapAny input)"

definition ParseFinal :: "gmap option \<Rightarrow> go_error + gmap" where
  "ParseFinal d =
     (case d of
        None \<Rightarrow> Inl ''empty output''
      | Some m \<Rightarrow> (case map_of m ''final'' of Some (VMap f) \<Rightarrow> Inr f | _ \<Rightarrow> Inl ''final not found''))"

subsection \<open>The child rows\<close>

text \<open>
  The column \<^verbatim>\<open>sub_key\<close> has a unique index (\<^verbatim>\<open>domain/entity/task.go\<close>): there is at most one row for a key, which
  the map \<open>subTasks\<close> expresses, and an insertion under a taken key is refused. The code updates a row
  by its id, which it has read from the row of the key.
\<close>

text \<open>\<^verbatim>\<open>FindBySubKey\<close> builds the task from a selection of columns: the retry count is not among them.\<close>

definition FindBySubKey :: "run_ctx \<Rightarrow> string \<Rightarrow> task option" where
  "FindBySubKey c k = map_option (\<lambda>t. t\<lparr>RetryCount := 0, ErrorMessage := []\<rparr>) (subTasks c k)"

definition childRepo_Update :: "env \<Rightarrow> string \<Rightarrow> task \<Rightarrow> run_ctx \<Rightarrow> go_error option \<times> run_ctx" where
  "childRepo_Update e k t c =
     (case db_err e (writes c) of
        Some m \<Rightarrow> (Some m, c\<lparr>writes := Suc (writes c)\<rparr>)
      | None \<Rightarrow> (None, c\<lparr>writes := Suc (writes c),
           subTasks := (subTasks c)(k := map_option (\<lambda>row. t\<lparr>WorkerID := WorkerID row\<rparr>) (subTasks c k))\<rparr>))"

definition childRepo_Create :: "env \<Rightarrow> string \<Rightarrow> task \<Rightarrow> run_ctx \<Rightarrow> go_error option \<times> run_ctx" where
  "childRepo_Create e k t c =
     (case db_err e (writes c) of
        Some m \<Rightarrow> (Some m, c\<lparr>writes := Suc (writes c)\<rparr>)
      | None \<Rightarrow> if subTasks c k \<noteq> None then (Some ''unique constraint'', c\<lparr>writes := Suc (writes c)\<rparr>)
               else (None, c\<lparr>writes := Suc (writes c), subTasks := (subTasks c)(k \<mapsto> t)\<rparr>))"

definition Enqueue :: "env \<Rightarrow> int \<Rightarrow> run_ctx \<Rightarrow> go_error option \<times> run_ctx" where
  "Enqueue e k c =
     (case db_err e (writes c) of
        Some m \<Rightarrow> (Some m, c\<lparr>writes := Suc (writes c)\<rparr>)
      | None \<Rightarrow> (None, c\<lparr>writes := Suc (writes c), taskQueue := taskQueue c @ [k]\<rparr>))"

subsection \<open>RunSubWorkflow\<close>

definition MaxAutoRetryCount :: int where "MaxAutoRetryCount = 5"

datatype sub_result = SubOut gmap | SubErr go_error | SubSuspend suspend_reason

definition emitPlainSubWorkflowFanoutProgress :: "node \<Rightarrow> int \<Rightarrow> int \<Rightarrow> int \<Rightarrow> run_ctx \<Rightarrow> run_ctx" where
  "emitPlainSubWorkflowFanoutProgress nd done running failed c =
     (if n_Type nd \<noteq> ''subworkflow'' then c
      else
        (let label = (if n_Label nd = [] then n_Name nd else n_Label nd);
             p = (if 1 \<le> done then 1 else of_int done) :: rat
         in publish \<lparr>ev_TaskID = task_id (Task c), ev_RootTaskID = RootID (Task c),
              ev_Step = n_Name nd, ev_Type = ''fanout_progress'',
              ev_Meta = [(''event_type'', VStr ''fanout_progress''), (''fanout_kind'', VStr ''subworkflow''),
                (''parent_node'', VStr (n_Name nd)), (''parent_label'', VStr label), (''total'', VInt 1),
                (''done'', VInt done), (''running'', VInt running), (''failed'', VInt failed),
                (''reused'', VInt 0), (''current_index'', VInt 0), (''progress'', VFloat p)]\<rparr> c))"

text \<open>Queue the child and suspend the parent; the last step of every branch that waits.\<close>

definition queue_and_suspend :: "env \<Rightarrow> node \<Rightarrow> int \<Rightarrow> run_ctx \<Rightarrow> sub_result \<times> run_ctx" where
  "queue_and_suspend e nd k c =
     (case Enqueue e k c of
        (Some m, c1) \<Rightarrow> (SubErr m, c1)
      | (None, c1) \<Rightarrow> (SubSuspend SuspendSubWorkflow, emitPlainSubWorkflowFanoutProgress nd 0 1 0 c1))"

definition sub_existing :: "env \<Rightarrow> node \<Rightarrow> string \<Rightarrow> task \<Rightarrow> run_ctx \<Rightarrow> sub_result \<times> run_ctx" where
  "sub_existing e nd k t c =
     (case Status t of
        TaskSuccess \<Rightarrow>
          if n_Type nd = ''map'' then (SubSuspend SuspendSubWorkflow, c)
          else (case ParseFinal (OutputJSON t) of Inl m \<Rightarrow> SubErr m | Inr out \<Rightarrow> SubOut out,
                emitPlainSubWorkflowFanoutProgress nd 1 0 0 c)
      | TaskPending \<Rightarrow> queue_and_suspend e nd (task_id t) c
      | TaskFailed \<Rightarrow>
          (let t1 = t\<lparr>RetryCount := RetryCount t + 1\<rparr>
           in if MaxAutoRetryCount < RetryCount t1
              then (SubErr ''sub-workflow permanently failed'', c)
              else queue_and_suspend e nd (task_id t)
                     (snd (childRepo_Update e k (t1\<lparr>Status := TaskPending\<rparr>) c)))
      | TaskRunning \<Rightarrow> (SubSuspend SuspendSubWorkflow, emitPlainSubWorkflowFanoutProgress nd 0 1 0 c)
      | TaskSuspended \<Rightarrow> (SubSuspend SuspendSubWorkflow, emitPlainSubWorkflowFanoutProgress nd 0 1 0 c)
      | TaskCanceled \<Rightarrow>
          (let t1 = t\<lparr>RetryCount := RetryCount t + 1\<rparr>
           in if MaxAutoRetryCount < RetryCount t1
              then (SubErr ''sub-workflow permanently canceled'', c)
              else (case childRepo_Update e k (t1\<lparr>Status := TaskPending, ErrorMessage := []\<rparr>) c of
                      (Some m, c1) \<Rightarrow> (SubErr m, c1)
                    | (None, c1) \<Rightarrow> queue_and_suspend e nd (task_id t) c1)))"

definition child_task :: "env \<Rightarrow> node \<Rightarrow> int \<Rightarrow> gmap \<Rightarrow> run_ctx \<Rightarrow> task" where
  "child_task e nd version input c =
     \<lparr>task_id = snow_id e (writes c), ParentID = Some (task_id (Task c)), RootID = RootID (Task c),
      Status = TaskPending, InputJSON = Some input, OutputJSON = None, RetryCount = 0,
      ErrorMessage = [], WorkflowVersionID = version, WorkerID = [], ParentNode = Some (n_Name nd),
      MapIndex = (case map_of input ''index'' of
          Some (VInt k) \<Rightarrow> if n_Type nd = ''map'' \<or> n_Type nd = ''loop'' then Some k else None
        | _ \<Rightarrow> None),
      task_Progress = 0, BaseRunID = 0, ForkedFrom = None, RunDepth = 0, ResumeFrom = None\<rparr>"

definition RunSubWorkflow :: "env \<Rightarrow> node \<Rightarrow> string \<Rightarrow> gmap \<Rightarrow> run_ctx \<Rightarrow> sub_result \<times> run_ctx" where
  "RunSubWorkflow e nd wname input c =
     (if 10 < Depth c then (SubErr ''subworkflow recursion depth exceeded'', c)
      else
        (case sub_version e wname of
           Inl m \<Rightarrow> (SubErr m, c)
         | Inr version \<Rightarrow>
            (let k = BuildSubWorkflowKey e (task_id (Task c)) (n_Name nd) wname input
             in case FindBySubKey c k of
                  Some t \<Rightarrow> sub_existing e nd k t c
                | None \<Rightarrow>
                   (let t = child_task e nd version input c
                    in case childRepo_Create e k t c of
                         (Some m, c1) \<Rightarrow>
                           (if FindBySubKey c1 k \<noteq> None then (SubSuspend SuspendSubWorkflow, c1)
                            else (SubErr m, c1))
                       | (None, c1) \<Rightarrow> queue_and_suspend e nd (task_id t) c1))))"

subsection \<open>The binding of a waiting parent\<close>

definition subWorkflowReconcileInterval :: int where
  "subWorkflowReconcileInterval = 45 * Second"

definition upsertSubWorkflowBinding ::
  "env \<Rightarrow> name \<Rightarrow> int \<Rightarrow> string \<Rightarrow> run_ctx \<Rightarrow> go_error option \<times> run_ctx" where
  "upsertSubWorkflowBinding e n childID k c =
     (let correlation = [(''child_task_id'', VStr (FormatInt childID)), (''sub_key'', VStr k)];
          now = clock e (writes c);
          nxt = now + subWorkflowReconcileInterval
      in case dbBindings c n of
           Some ex \<Rightarrow>
             (let b = ex\<lparr>ab_Correlation := correlation, ab_NextPollAt := Some nxt\<rparr>;
                  b1 = (if isAwaitBindingTerminalStatus (ab_Status b)
                        then b\<lparr>ab_Status := AwaitBindingWaiting, ab_ErrorMessage := [],
                               ab_CompletedAt := None, ab_FailedAt := None, ab_CanceledAt := None\<rparr>
                        else b)
              in bindingRepo_Update e b1 c)
         | None \<Rightarrow>
             (let b = (empty_binding c n)
                    \<lparr>ab_AwaitType := ''subworkflow'', ab_Source := ''subworkflow'',
                     ab_Status := AwaitBindingPending, ab_Correlation := correlation,
                     ab_WaitingStartedAt := Some now, ab_NextPollAt := Some nxt\<rparr>
              in case bindingRepo_Create e b c of
                   (Some m, c1) \<Rightarrow> (Some m, c1)
                 | (None, c1) \<Rightarrow>
                    (case TransitionStatus e n AwaitBindingPending AwaitBindingWaiting c1 of
                       (Inl m, c2) \<Rightarrow> (Some m, c2)
                     | (Inr False, c2) \<Rightarrow>
                         (Some ''subworkflow binding transition pending->waiting failed'', c2)
                     | (Inr True, c2) \<Rightarrow> (None, c2))))"

definition bindSubWorkflowAwaitOnSuspend :: "env \<Rightarrow> node \<Rightarrow> string \<Rightarrow> gmap \<Rightarrow> run_ctx \<Rightarrow> run_ctx exec" where
  "bindSubWorkflowAwaitOnSuspend e nd wname input c =
     (let n = n_Name nd; k = BuildSubWorkflowKey e (task_id (Task c)) n wname input
      in case FindBySubKey c k of
           None \<Rightarrow> Ret c
         | Some child \<Rightarrow>
            (case upsertSubWorkflowBinding e n (task_id child) k c of
               (Some m, c1) \<Rightarrow> Ret c1
             | (None, c1) \<Rightarrow>
                (case Runtime c1 n of
                   None \<Rightarrow> Ret c1
                 | Some rt \<Rightarrow> if State rt = NodeRunning
                     then transitionLocked e n NodeAwaiting None None c1 else Ret c1)))"

subsection \<open>classifyParentFanoutNode\<close>

datatype fanout_kind = ParentFanoutNodeNone | ParentFanoutNodeMap | ParentFanoutNodeLoop

definition has_key :: "gmap \<Rightarrow> string \<Rightarrow> bool" where
  "has_key m k \<longleftrightarrow> map_of m k \<noteq> None"

definition classify_legacy :: "gmap \<Rightarrow> fanout_kind" where
  "classify_legacy cp =
     (if has_key cp ''running_index'' \<or> has_key cp ''current_index'' \<or> has_key cp ''carry_state''
         \<or> has_key cp ''running_sub_key'' then ParentFanoutNodeLoop
      else if has_key cp ''item_hashes'' \<or> has_key cp ''reused_items'' then ParentFanoutNodeMap
      else ParentFanoutNodeNone)"

definition classifyParentFanoutNode :: "env \<Rightarrow> node_runtime option \<Rightarrow> fanout_kind" where
  "classifyParentFanoutNode e r =
     (case r of
        None \<Rightarrow> ParentFanoutNodeNone
      | Some rt \<Rightarrow>
         (case Checkpoint rt of
            None \<Rightarrow> ParentFanoutNodeNone
          | Some cp \<Rightarrow>
             (case map_of cp ''fanout_kind'' of
                None \<Rightarrow> classify_legacy cp
              | Some raw \<Rightarrow>
                 (let s = TrimSpace (stringValue e raw)
                  in if s = ''loop'' then ParentFanoutNodeLoop
                     else if s = ''map'' then ParentFanoutNodeMap
                     else classify_legacy cp))))"

subsection \<open>What starting a child does to the child rows\<close>

text \<open>
  Every operation on the child rows concerns one key. A row is only ever created where there
  was none, and an update keeps its identity.
\<close>

definition one_child :: "string \<Rightarrow> run_ctx \<Rightarrow> run_ctx \<Rightarrow> bool" where
  "one_child k c c' \<longleftrightarrow> (\<forall>k'. k' \<noteq> k \<longrightarrow> subTasks c' k' = subTasks c k')
     \<and> (\<forall>t. subTasks c k = Some t \<longrightarrow> (\<exists>t'. subTasks c' k = Some t' \<and> task_id t' = task_id t))"

lemma one_child_refl [simp, intro]: "one_child k c c"
  by (simp add: one_child_def)

lemma one_child_same: "subTasks c' = subTasks c \<Longrightarrow> one_child k c c'"
  by (simp add: one_child_def)

lemma one_child_trans: "one_child k a b \<Longrightarrow> one_child k b c \<Longrightarrow> one_child k a c"
  unfolding one_child_def by (metis (no_types))

lemma emit_subTasks [simp]: "subTasks (emitPlainSubWorkflowFanoutProgress nd d r f c) = subTasks c"
  by (simp add: emitPlainSubWorkflowFanoutProgress_def publish_def Let_def)

lemma Enqueue_subTasks [simp]: "subTasks (snd (Enqueue e k c)) = subTasks c"
  by (simp add: Enqueue_def split: option.splits)

lemma queue_and_suspend_subTasks [simp]: "subTasks (snd (queue_and_suspend e nd k c)) = subTasks c"
proof -
  obtain r c1 where r: "Enqueue e k c = (r, c1)" by force
  with Enqueue_subTasks [of e k c] show ?thesis by (cases r) (simp_all add: queue_and_suspend_def)
qed

lemma childRepo_Update_one:
  assumes "\<And>row. subTasks c k = Some row \<Longrightarrow> task_id row = task_id t"
  shows "one_child k c (snd (childRepo_Update e k t c))"
proof (cases "db_err e (writes c)")
  case None
  with assms show ?thesis by (cases "subTasks c k") (simp_all add: childRepo_Update_def one_child_def)
qed (simp add: childRepo_Update_def one_child_same)

lemma FindBySubKey_id: "FindBySubKey c k = Some t \<Longrightarrow> \<exists>row. subTasks c k = Some row \<and> task_id row = task_id t \<and> Status row = Status t"
  by (auto simp: FindBySubKey_def)

lemma sub_existing_one:
  assumes "FindBySubKey c k = Some t"
  shows "one_child k c (snd (sub_existing e nd k t c))"
proof -
  have upd: "one_child k c (snd (childRepo_Update e k t' c))" if "task_id t' = task_id t" for t'
    using FindBySubKey_id [OF assms] that by (intro childRepo_Update_one) auto
  have queue: "one_child k c c1 \<Longrightarrow> one_child k c (snd (queue_and_suspend e nd i c1))" for c1 i
    by (erule one_child_trans) (simp add: one_child_same)
  show ?thesis
  proof (cases "Status t")
    case TaskCanceled
    let ?t = "t\<lparr>RetryCount := RetryCount t + 1, Status := TaskPending, ErrorMessage := []\<rparr>"
    obtain r c1 where r: "childRepo_Update e k ?t c = (r, c1)" by force
    with upd [of ?t] have "one_child k c c1" by simp
    with queue [OF this] r TaskCanceled show ?thesis
      by (cases r) (simp_all add: sub_existing_def Let_def)
  qed (simp_all add: sub_existing_def one_child_same Let_def queue upd)
qed

lemma RunSubWorkflow_one:
  "one_child (BuildSubWorkflowKey e (task_id (Task c)) (n_Name nd) wname input) c
     (snd (RunSubWorkflow e nd wname input c))"
proof -
  let ?k = "BuildSubWorkflowKey e (task_id (Task c)) (n_Name nd) wname input"
  show ?thesis
  proof (cases "10 < Depth c")
    case True
    then show ?thesis by (simp add: RunSubWorkflow_def)
  next
    case False
    show ?thesis
    proof (cases "sub_version e wname")
      case (Inl m)
      with False show ?thesis by (simp add: RunSubWorkflow_def)
    next
      case (Inr version)
      show ?thesis
      proof (cases "FindBySubKey c ?k")
        case (Some t)
        with False Inr sub_existing_one [OF Some, of e nd] show ?thesis
          by (simp add: RunSubWorkflow_def Let_def)
      next
        case None
        let ?t = "child_task e nd version input c"
        obtain r c1 where r: "childRepo_Create e ?k ?t c = (r, c1)" by force
        from None have "subTasks c ?k = None" by (simp add: FindBySubKey_def)
        with r have c1: "one_child ?k c c1"
          by (auto simp: childRepo_Create_def one_child_def split: option.splits)
        have "one_child ?k c (snd (queue_and_suspend e nd (task_id ?t) c1))"
          using c1 by (rule one_child_trans) (simp add: one_child_same)
        with None False Inr r c1 show ?thesis
          by (cases r) (simp_all add: RunSubWorkflow_def Let_def)
      qed
    qed
  qed
qed

text \<open>Starting a child changes child rows, the queue, the events and the count of writes, nothing else.\<close>

definition child_only :: "run_ctx \<Rightarrow> run_ctx \<Rightarrow> bool" where
  "child_only c c' \<longleftrightarrow> Runtime c' = Runtime c \<and> Task c' = Task c \<and> OutNodes c' = OutNodes c
     \<and> Input c' = Input c \<and> dbNodes c' = dbNodes c \<and> dbTask c' = dbTask c \<and> ActivatedEdges c' = ActivatedEdges c"

lemma child_only_simps:
  "child_only c (snd (childRepo_Update e k t c))" "child_only c (snd (childRepo_Create e k t c))"
  "child_only c (snd (Enqueue e i c))" "child_only c (emitPlainSubWorkflowFanoutProgress nd d r f c)"
  by (auto simp: child_only_def childRepo_Update_def childRepo_Create_def Enqueue_def publish_def Let_def
      emitPlainSubWorkflowFanoutProgress_def split: option.splits)

lemma child_only_trans: "child_only a b \<Longrightarrow> child_only b c \<Longrightarrow> child_only a c"
  by (simp add: child_only_def)

lemma child_only_refl [simp]: "child_only c c"
  by (simp add: child_only_def)

lemma queue_and_suspend_only: "child_only c (snd (queue_and_suspend e nd k c))"
proof -
  obtain r c1 where r: "Enqueue e k c = (r, c1)" by force
  with child_only_simps(3) [of c e k] child_only_trans [OF _ child_only_simps(4)] show ?thesis
    by (cases r) (auto simp: queue_and_suspend_def)
qed

lemma sub_existing_only: "child_only c (snd (sub_existing e nd k t c))"
proof -
  have queue: "child_only c (snd (queue_and_suspend e nd i (snd (childRepo_Update e k u c))))" for i u
    by (rule child_only_trans [OF child_only_simps(1) queue_and_suspend_only])
  show ?thesis
  proof (cases "Status t")
    case TaskCanceled
    let ?t = "t\<lparr>RetryCount := RetryCount t + 1, Status := TaskPending, ErrorMessage := []\<rparr>"
    obtain r c1 where r: "childRepo_Update e k ?t c = (r, c1)" by force
    with queue [of "task_id t" ?t] child_only_simps(1) [of c e k ?t] TaskCanceled show ?thesis
      by (cases r) (simp_all add: sub_existing_def Let_def)
  qed (simp_all add: sub_existing_def Let_def queue child_only_simps queue_and_suspend_only)
qed

lemma RunSubWorkflow_only: "child_only c (snd (RunSubWorkflow e nd wname input c))"
proof (cases "10 < Depth c \<or> (\<exists>m. sub_version e wname = Inl m)")
  case True
  then show ?thesis by (auto simp: RunSubWorkflow_def)
next
  case False
  then obtain v where v: "\<not> 10 < Depth c" "sub_version e wname = Inr v"
    by (cases "sub_version e wname") auto
  let ?k = "BuildSubWorkflowKey e (task_id (Task c)) (n_Name nd) wname input" and ?t = "child_task e nd v input c"
  obtain r c1 where r: "childRepo_Create e ?k ?t c = (r, c1)" by force
  with child_only_simps(2) [of c e ?k ?t] have c1: "child_only c c1" by simp
  with r v show ?thesis
    using sub_existing_only [of c e nd ?k] child_only_trans [OF c1 queue_and_suspend_only]
    by (cases "FindBySubKey c ?k"; cases r) (simp_all add: RunSubWorkflow_def Let_def)
qed

subsection \<open>Properties\<close>



text \<open>
  The automatic retry limit of a child never applies. Because the row is read without its
  retry count, a failed child is queued again however often it has failed before, and the
  count stored with it is always one.
\<close>

lemma failed_child_always_retried:
  assumes "db_err e = (\<lambda>_. None)" and "Depth c \<le> 10" and "sub_version e wname = Inr version"
    and "subTasks c (BuildSubWorkflowKey e (task_id (Task c)) (n_Name nd) wname input) = Some row"
    and "Status row = TaskFailed"
  shows "\<exists>c'. RunSubWorkflow e nd wname input c = (SubSuspend SuspendSubWorkflow, c')
    \<and> taskQueue c' = taskQueue c @ [task_id row]
    \<and> (\<exists>t. subTasks c' (BuildSubWorkflowKey e (task_id (Task c)) (n_Name nd) wname input) = Some t
        \<and> Status t = TaskPending \<and> RetryCount t = 1)"
  using assms
  by (simp add: RunSubWorkflow_def FindBySubKey_def sub_existing_def MaxAutoRetryCount_def Let_def
      childRepo_Update_def queue_and_suspend_def Enqueue_def emitPlainSubWorkflowFanoutProgress_def publish_def)

lemma failed_child_always_retried_witness:
  "\<exists>c'. RunSubWorkflow (sample_env True) (sample_cnode ''a'') ''w'' []
      (sample_ctx\<lparr>subTasks := [BuildSubWorkflowKey (sample_env True) 7 ''a'' ''w'' []
          \<mapsto> sample_task\<lparr>Status := TaskFailed, RetryCount := 1000\<rparr>]\<rparr>)
      = (SubSuspend SuspendSubWorkflow, c') \<and> taskQueue c' = [7]"
  using failed_child_always_retried [of "sample_env True"
      "sample_ctx\<lparr>subTasks := [BuildSubWorkflowKey (sample_env True) 7 ''a'' ''w'' []
          \<mapsto> sample_task\<lparr>Status := TaskFailed, RetryCount := 1000\<rparr>]\<rparr>" "''w''" 1 "sample_cnode ''a''" "[]"
      "sample_task\<lparr>Status := TaskFailed, RetryCount := 1000\<rparr>"]
  by (auto simp: sample_env_def sample_ctx_def sample_task_def sample_cnode_def)

text \<open>
  Keys of child tasks are ambiguous: the names are joined with a dash that may occur in them,
  so two different nodes that start different workflows on the same input share a key, and
  with it the child task.
\<close>

lemma sub_keys_collide:
  "BuildSubWorkflowKey e parent ''a-b'' ''c'' input = BuildSubWorkflowKey e parent ''a'' ''b-c'' input"
  by (simp add: BuildSubWorkflowKey_def)

end
