(* ===== verification/Flux_Run.thy ===== *)
theory Flux_Run
  imports Flux_Subworkflow
begin

text \<open>
  The run of a task: \<^verbatim>\<open>executeNode\<close>, \<^verbatim>\<open>runNodeWithRetry\<close> and \<^verbatim>\<open>runDAG\<close> of \<^verbatim>\<open>engine/executor.go\<close>,
  the input of a node and the end of a task from \<^verbatim>\<open>engine/engine.go\<close>, the guarded task
  status of \<^verbatim>\<open>engine/task_state.go\<close> and \<^verbatim>\<open>executeTask\<close> of \<^verbatim>\<open>engine/task_execution.go\<close>.
\<close>

subsection \<open>The input of a node\<close>

fun config_inputs :: "env \<Rightarrow> run_ctx \<Rightarrow> node \<Rightarrow> gmap \<Rightarrow> gmap \<Rightarrow> go_error + gmap" where
  "config_inputs e c nd [] acc = Inr acc"
| "config_inputs e c nd ((k, v) # kvs) acc =
     (if expr_config_field e (n_Type nd) k then
        (case v of
           VStr s \<Rightarrow> (case eval e c s of
               Inl m \<Rightarrow> Inl (''config expr '' @ k @ '' eval failed: '' @ m)
             | Inr w \<Rightarrow> config_inputs e c nd kvs (AList.update k w acc))
         | _ \<Rightarrow> Inl (''config field '' @ k @ '' must be expr string''))
      else config_inputs e c nd kvs (AList.update k v acc))"

fun mapped_inputs :: "env \<Rightarrow> run_ctx \<Rightarrow> (string \<times> string) list \<Rightarrow> gmap \<Rightarrow> go_error + gmap" where
  "mapped_inputs e c [] acc = Inr acc"
| "mapped_inputs e c ((f, src) # ms) acc =
     (case eval e c src of
        Inl m \<Rightarrow> Inl (''inputMapping '' @ f @ '' -> '' @ src @ '' error: '' @ m)
      | Inr v \<Rightarrow> mapped_inputs e c ms (AList.update f v acc))"

fun parent_value :: "run_ctx \<Rightarrow> name list \<Rightarrow> string \<Rightarrow> gval option" where
  "parent_value c [] f = None"
| "parent_value c (p # ps) f =
     (case gget (GetNodeOutput c p) f of Some v \<Rightarrow> Some v | None \<Rightarrow> parent_value c ps f)"

fun fallback_inputs :: "run_ctx \<Rightarrow> name list \<Rightarrow> data_schema \<Rightarrow> gmap \<Rightarrow> gmap" where
  "fallback_inputs c ps [] acc = acc"
| "fallback_inputs c ps ((f, fs) # sch) acc =
     fallback_inputs c ps sch
       (if map_of acc f \<noteq> None then acc
        else case parent_value c ps f of
            Some v \<Rightarrow> AList.update f v acc
          | None \<Rightarrow> (case map_of (Input c) f of Some v \<Rightarrow> AList.update f v acc | None \<Rightarrow> acc))"

definition buildNodeInput :: "env \<Rightarrow> run_ctx \<Rightarrow> node \<Rightarrow> graph \<Rightarrow> go_error + gmap" where
  "buildNodeInput e c nd g =
     (case config_inputs e c nd (n_Config nd) [] of
        Inl m \<Rightarrow> Inl m
      | Inr r \<Rightarrow>
         (case mapped_inputs e c (n_InputMapping nd) r of
            Inl m \<Rightarrow> Inl m
          | Inr r1 \<Rightarrow> Inr (fallback_inputs c (Parents g (n_Name nd)) (InputSchema nd) r1)))"

fun check_inputs :: "data_schema \<Rightarrow> gmap \<Rightarrow> go_error option" where
  "check_inputs [] inp = None"
| "check_inputs ((f, fs) # sch) inp =
     (case map_of inp f of
        None \<Rightarrow> if fs_Required fs then Some (''missing required field: '' @ f) else check_inputs sch inp
      | Some v \<Rightarrow>
          if v = VNil then check_inputs sch inp
          else (case ValidateFieldTypeStrict fs v of
                  Some m \<Rightarrow> Some (''input field '' @ f @ '': '' @ m)
                | None \<Rightarrow> check_inputs sch inp))"

definition validateNodeInput :: "node \<Rightarrow> gmap \<Rightarrow> go_error option" where
  "validateNodeInput nd inp = check_inputs (InputSchema nd) inp"

definition isExecutionRequired :: "string \<Rightarrow> bool" where
  "isExecutionRequired r \<longleftrightarrow> r \<in> {''resume_boundary'', ''upstream_dirty'', ''input_changed'',
     ''missing_parent_snapshot'', ''parent_not_success'', ''input_resolve_failed''}"

subsection \<open>Running a step\<close>

definition apply_checkpoint :: "env \<Rightarrow> name \<Rightarrow> gmap option \<Rightarrow> run_ctx \<Rightarrow> run_ctx" where
  "apply_checkpoint e n cp c =
     (case cp of
        None \<Rightarrow> c
      | Some m \<Rightarrow>
         (case Runtime c n of
            None \<Rightarrow> c
          | Some rt \<Rightarrow> (let rt1 = rt\<lparr>Checkpoint := Some m\<rparr>
                       in snd (nodeRepo_Update e rt1 (set_runtime n rt1 c)))))"

text \<open>One turn of the retry loop; only the second attempt moves the node to \<^verbatim>\<open>retrying\<close>.\<close>

definition attempt_once :: "env \<Rightarrow> node \<Rightarrow> gmap \<Rightarrow> nat \<Rightarrow> go_error option \<Rightarrow> gmap \<Rightarrow> run_ctx
    \<Rightarrow> (step_result \<times> gmap \<times> run_ctx) exec" where
  "attempt_once e nd inp attempt lastErr out c =
     bind_exec
       (if attempt = 1
        then bind_exec (transitionLocked e (n_Name nd) NodeRetrying lastErr None c)
               (\<lambda>c1. Ret (EmitNodeEvent (n_Name nd) ''retrying'' 0 [] c1))
        else Ret c)
       (\<lambda>c1. let o' = step_run e nd attempt c1 inp out;
                 c2 = apply_checkpoint e (n_Name nd) (so_checkpoint o') c1
             in Ret (so_result o', so_output o', c2))"

fun retry_from :: "env \<Rightarrow> node \<Rightarrow> gmap \<Rightarrow> nat \<Rightarrow> nat \<Rightarrow> go_error option \<Rightarrow> gmap \<Rightarrow> run_ctx
    \<Rightarrow> (exec_result \<times> gmap \<times> run_ctx) exec" where
  "retry_from e nd inp 0 attempt lastErr out c =
     bind_exec (attempt_once e nd inp attempt lastErr out c) (\<lambda>(r, out1, c1).
       case r of
         StepOk \<Rightarrow> Ret (ExecOk, out1, c1)
       | StepSuspend sr \<Rightarrow> Ret (ExecSuspend sr, out1, c1)
       | StepErr m \<Rightarrow> Ret (ExecErr m, out1, EmitNodeEvent (n_Name nd) ''failed'' 0 [] c1))"
| "retry_from e nd inp (Suc left) attempt lastErr out c =
     bind_exec (attempt_once e nd inp attempt lastErr out c) (\<lambda>(r, out1, c1).
       case r of
         StepOk \<Rightarrow> Ret (ExecOk, out1, c1)
       | StepSuspend sr \<Rightarrow> Ret (ExecSuspend sr, out1, c1)
       | StepErr m \<Rightarrow> retry_from e nd inp left (Suc attempt) (Some m) out1
                       (EmitNodeEvent (n_Name nd) ''failed'' 0 [] c1))"

definition runNodeWithRetry ::
  "env \<Rightarrow> node \<Rightarrow> gmap \<Rightarrow> run_ctx \<Rightarrow> (exec_result \<times> gmap \<times> run_ctx) exec" where
  "runNodeWithRetry e nd inp c = retry_from e nd inp (MaxRetries nd) 0 None [] c"

definition scheduleAsyncActivity ::
  "env \<Rightarrow> node \<Rightarrow> gmap \<Rightarrow> string \<Rightarrow> run_ctx \<Rightarrow> exec_result \<times> run_ctx" where
  "scheduleAsyncActivity e nd inp hash c =
     (case db_err e (writes c) of
        Some m \<Rightarrow> (ExecErr m, c\<lparr>writes := Suc (writes c)\<rparr>)
      | None \<Rightarrow>
         (ExecSuspend SuspendAsyncNode,
          EmitNodeEvent (n_Name nd) ''async_scheduled'' 0 []
            (c\<lparr>writes := Suc (writes c),
               jobs := jobs c @ [\<lparr>job_TaskID = task_id (Task c), job_Node = n_Name nd,
                 job_StepAdapter = StepName nd, job_Input = inp, job_Hash = hash\<rparr>]\<rparr>)))"

subsection \<open>executeNode\<close>

definition output_rt :: "env \<Rightarrow> node \<Rightarrow> gmap \<Rightarrow> node_runtime \<Rightarrow> node_runtime" where
  "output_rt e nd out rt = clearNodeReuseMetadata
     (rt\<lparr>OutputHash := canonicalHash e [] (Some out),
         Output := (if shouldPersistOutput nd then Some out else Output rt)\<rparr>)"

text \<open>The tail shared by the synchronous and the subworkflow branch.\<close>

definition record_output :: "env \<Rightarrow> node \<Rightarrow> gmap \<Rightarrow> run_ctx \<Rightarrow> (exec_result \<times> run_ctx) exec" where
  "record_output e nd out c =
     (case SetNodeOutput (n_Name nd) out (OutputSchema nd) c of
        (Some m, _, c1) \<Rightarrow> Ret (ExecErr m, c1)
      | (None, out1, c1) \<Rightarrow>
         (case Runtime c1 (n_Name nd) of
            None \<Rightarrow> Panic ''nil node runtime''
          | Some rt \<Rightarrow>
             (let rt1 = output_rt e nd out1 rt
              in case nodeRepo_Update e rt1 (set_runtime (n_Name nd) rt1 c1) of
                   (Some m, c2) \<Rightarrow> Ret (ExecErr m, c2)
                 | (None, c2) \<Rightarrow> Ret (ExecOk, c2))))"

definition execute_subworkflow :: "env \<Rightarrow> node \<Rightarrow> gmap \<Rightarrow> run_ctx \<Rightarrow> (exec_result \<times> run_ctx) exec" where
  "execute_subworkflow e nd inp c =
     bind_exec (transitionLocked e (n_Name nd) NodeRunning None None c) (\<lambda>c1.
       case map_of (n_Config nd) ''workflow'' of
         Some (VStr wname) \<Rightarrow>
           (case RunSubWorkflow e nd wname inp c1 of
              (SubErr m, c2) \<Rightarrow> Ret (ExecErr m, c2)
            | (SubSuspend sr, c2) \<Rightarrow>
                bind_exec (if sub_binding e then bindSubWorkflowAwaitOnSuspend e nd wname inp c2 else Ret c2)
                  (\<lambda>c3. Ret (ExecSuspend sr, c3))
            | (SubOut out, c2) \<Rightarrow> record_output e nd out c2)
       | _ \<Rightarrow> Panic ''interface conversion'')"

definition execute_running :: "env \<Rightarrow> node \<Rightarrow> gmap \<Rightarrow> string \<Rightarrow> run_ctx \<Rightarrow> (exec_result \<times> run_ctx) exec" where
  "execute_running e nd inp hash c =
     bind_exec (transitionLocked e (n_Name nd) NodeRunning None None c) (\<lambda>c1.
       if AsyncMode nd then Ret (scheduleAsyncActivity e nd inp hash c1)
       else if n_Type nd = ''await'' then executeAwaitNode e nd inp c1
       else bind_exec (runNodeWithRetry e nd inp c1) (\<lambda>(r, out, c2).
              case r of ExecOk \<Rightarrow> record_output e nd out c2 | _ \<Rightarrow> Ret (r, c2)))"

definition reset_rt :: "gmap \<Rightarrow> string \<Rightarrow> node_runtime \<Rightarrow> node_runtime" where
  "reset_rt inp hash rt = rt\<lparr>ResolvedInput := Some inp, InputHash := hash, Output := None,
     OutputHash := [], rt_ActivatedEdges := Map.empty, Error := []\<rparr>"

definition executeNode :: "env \<Rightarrow> node \<Rightarrow> graph \<Rightarrow> run_ctx \<Rightarrow> (exec_result \<times> run_ctx) exec" where
  "executeNode e nd g c =
     (case buildNodeInput e c nd g of
        Inl m \<Rightarrow> Ret (ExecErr m, c)
      | Inr inp \<Rightarrow>
         (case validateNodeInput nd inp of
            Some m \<Rightarrow> Ret (ExecErr m, c)
          | None \<Rightarrow>
             (case Runtime c (n_Name nd) of
                None \<Rightarrow> Panic ''nil node runtime''
              | Some rt \<Rightarrow>
                 (let n = n_Name nd;
                      hash = canonicalHash e (FormatInt (WorkflowVersionID (Task c)) @ ''-'' @ n) (Some inp)
                  in if \<not> isExecutionRequired (ExecutionReason rt) \<and> State rt = NodeSuccess \<and> InputHash rt = hash
                     then Ret (ExecOk, set_runtime n (rt\<lparr>ResolvedInput := Some inp\<rparr>) c)
                     else
                       (let rt1 = reset_rt inp hash rt
                        in case nodeRepo_Update e rt1 (clearOutgoingActivatedEdges n (set_runtime n rt1 c)) of
                             (Some m, c1) \<Rightarrow> Ret (ExecErr m, c1)
                           | (None, c1) \<Rightarrow>
                              if n_Type nd = ''subworkflow'' then execute_subworkflow e nd inp c1
                              else execute_running e nd inp hash c1)))))"

subsection \<open>Task status and the end of a task\<close>

datatype ts_error = ErrTaskCanceled | ErrOther go_error

definition transitionTaskStatus :: "env \<Rightarrow> task_status \<Rightarrow> run_ctx \<Rightarrow> ts_error option \<times> run_ctx" where
  "transitionTaskStatus e st c =
     (case dbTask c of
        None \<Rightarrow> (Some (ErrOther ''task not found''), c)
      | Some cur \<Rightarrow>
         if Status cur = TaskCanceled \<and> st \<noteq> TaskCanceled
         then (Some ErrTaskCanceled, c\<lparr>Task := (Task c)\<lparr>Status := TaskCanceled\<rparr>\<rparr>)
         else if Status (Task c) = st then (None, c)
         else if \<not> IsAllowedTaskTransition (Status (Task c)) st
         then (Some (ErrOther ''illegal task status transition''), c)
         else
           (let t = (Task c)\<lparr>Status := st\<rparr>
            in case taskRepo_Update e t (c\<lparr>Task := t\<rparr>) of
                 (Some m, c1) \<Rightarrow> (Some (ErrOther m), c1)
               | (None, c1) \<Rightarrow> (None, c1)))"

definition finishTask :: "env \<Rightarrow> run_ctx \<Rightarrow> go_error option \<times> run_ctx" where
  "finishTask e c =
     (case find (\<lambda>r. State r = NodeFailed) (runtime_list e c) of
        Some r \<Rightarrow> (Some (Name r @ '' node status is faile, '' @ Error r), c)
      | None \<Rightarrow>
         (case GetFinal e c of
            (Inl m, c1) \<Rightarrow> (Some m, c1)
          | (Inr f, c1) \<Rightarrow>
              (None, c1\<lparr>Task := (Task c1)\<lparr>OutputJSON := Some [(''final'', VMap (task_output_json f))]\<rparr>\<rparr>)))"

subsection \<open>Cost facts\<close>

fun toUsageFacts :: "gval \<Rightarrow> gval list" where
  "toUsageFacts (VList vs) = filter (\<lambda>v. case v of VMap _ \<Rightarrow> True | _ \<Rightarrow> False) vs"
| "toUsageFacts _ = []"

definition cp_string :: "env \<Rightarrow> gmap option \<Rightarrow> string \<Rightarrow> string" where
  "cp_string e cp k = (case gget cp k of None \<Rightarrow> [] | Some v \<Rightarrow> stringValue e v)"

definition already_recorded :: "env \<Rightarrow> node_runtime \<Rightarrow> bool" where
  "already_recorded e rt \<longleftrightarrow>
     (let u = cp_string e (Checkpoint rt) ''usage_recorded_output_hash'';
          k = cp_string e (Checkpoint rt) ''cost_recorded_output_hash''
      in (u \<noteq> [] \<and> u = OutputHash rt) \<or> (k \<noteq> [] \<and> k = OutputHash rt))"

definition cost_checkpoint :: "gval list \<Rightarrow> gval list \<Rightarrow> node_runtime \<Rightarrow> gmap" where
  "cost_checkpoint usage facts rt =
     AList.update ''cost_recorded_output_hash'' (VStr (OutputHash rt))
      (AList.update ''cost_facts'' (VList facts)
       (AList.update ''usage_recorded_output_hash'' (VStr (OutputHash rt))
        (AList.update ''usage_facts'' (VList usage)
          (case Checkpoint rt of None \<Rightarrow> [] | Some m \<Rightarrow> m))))"

definition write_cost_facts ::
  "env \<Rightarrow> node \<Rightarrow> node_runtime \<Rightarrow> gval list \<Rightarrow> gval list \<Rightarrow> run_ctx \<Rightarrow> run_ctx" where
  "write_cost_facts e nd rt usage facts c =
     (let rt1 = rt\<lparr>Checkpoint := Some (cost_checkpoint usage facts rt)\<rparr>;
          c1 = snd (nodeRepo_Update e rt1 (set_runtime (n_Name nd) rt1 c))
      in publish \<lparr>ev_TaskID = task_id (Task c), ev_RootTaskID = RootID (Task c),
           ev_Step = n_Name nd, ev_Type = ''node_cost_identified'',
           ev_Meta = [(''workflow_name'', VStr (WfName c)), (''step_name'', VStr (StepName nd)),
                      (''facts'', VList facts), (''count'', VInt (int (length facts)))]\<rparr> c1)"

definition tryRecordNodeCost :: "env \<Rightarrow> node \<Rightarrow> run_ctx \<Rightarrow> run_ctx" where
  "tryRecordNodeCost e nd c =
     (case Runtime c (n_Name nd) of
        None \<Rightarrow> c
      | Some rt \<Rightarrow>
         if mlen (Output rt) = 0 \<or> already_recorded e rt then c
         else
           (case usage_of e nd (ResolvedInput rt) (Output rt) of
              Inl m \<Rightarrow> c
            | Inr us \<Rightarrow>
               (let us1 = (if us = [] \<and> Checkpoint rt \<noteq> None
                           then (case gget (Checkpoint rt) ''usage_facts'' of
                                   None \<Rightarrow> [] | Some v \<Rightarrow> toUsageFacts v)
                           else us)
                in case cost_record e nd rt us1 of
                     Inl m \<Rightarrow> c
                   | Inr facts \<Rightarrow> if facts = [] then c else write_cost_facts e nd rt us1 facts c)))"

subsection \<open>runDAG\<close>

record compiled_workflow =
  cw_nodes :: "name \<rightharpoonup> node"
  cw_graph :: graph
  cw_order :: "name list"

datatype run_status = RunSuccess | RunSuspended | RunFailed | RunNoop

record run_result =
  rr_Status :: run_status
  rr_Err :: "go_error option"
  SuspendReason :: "suspend_reason option"
  SuspendNode :: name

definition run_failed :: "go_error \<Rightarrow> run_result" where
  "run_failed m = \<lparr>rr_Status = RunFailed, rr_Err = Some m, SuspendReason = None, SuspendNode = []\<rparr>"

definition run_ok :: "run_status \<Rightarrow> run_result" where
  "run_ok s = \<lparr>rr_Status = s, rr_Err = None, SuspendReason = None, SuspendNode = []\<rparr>"

text \<open>
  One turn of the inner loop: either the run ends here or the loop goes on, with the flag
  that tells whether the node made progress.
\<close>

datatype turn = Stop run_result | Go bool

definition or_fail :: "go_error option \<times> run_ctx \<Rightarrow> turn \<times> run_ctx" where
  "or_fail r = (case r of (Some m, c) \<Rightarrow> (Stop (run_failed m), c) | (None, c) \<Rightarrow> (Go True, c))"

definition finish_and_record ::
  "env \<Rightarrow> node \<Rightarrow> go_error option \<times> run_ctx \<Rightarrow> turn \<times> run_ctx" where
  "finish_and_record e nd r =
     (case r of (Some m, c) \<Rightarrow> (Stop (run_failed m), c) | (None, c) \<Rightarrow> (Go True, tryRecordNodeCost e nd c))"

definition suspend_task :: "env \<Rightarrow> name \<Rightarrow> suspend_reason \<Rightarrow> run_ctx \<Rightarrow> turn \<times> run_ctx" where
  "suspend_task e n sr c =
     (let c1 = snd (transitionTaskStatus e TaskSuspended c);
          c2 = publish \<lparr>ev_TaskID = task_id (Task c1), ev_RootTaskID = RootID (Task c1), ev_Step = n,
                        ev_Type = ''task_suspended'', ev_Meta = []\<rparr> c1
      in (Stop \<lparr>rr_Status = RunSuspended, rr_Err = None, SuspendReason = Some sr, SuspendNode = n\<rparr>, c2))"

definition end_execution :: "env \<Rightarrow> node \<Rightarrow> graph \<Rightarrow> exec_result \<times> run_ctx \<Rightarrow> (turn \<times> run_ctx) exec" where
  "end_execution e nd dag r =
     (case r of
        (ExecSuspend sr, c) \<Rightarrow> Ret (suspend_task e (n_Name nd) sr c)
      | (ExecErr m, c) \<Rightarrow>
          if isOptionalNode nd
          then bind_exec (finalizeOptionalFailedNode e (n_Name nd) m dag c) (\<lambda>x. Ret (or_fail x))
          else bind_exec (finalizeNode e (n_Name nd) None (Some m) dag c) (\<lambda>x. Ret (or_fail x))
      | (ExecOk, c) \<Rightarrow>
          bind_exec (finalizeNode e (n_Name nd) None None dag c) (\<lambda>x. Ret (finish_and_record e nd x)))"

definition dag_turn :: "env \<Rightarrow> compiled_workflow \<Rightarrow> name \<Rightarrow> run_ctx \<Rightarrow> (turn \<times> run_ctx) exec" where
  "dag_turn e w name c =
     (case cw_nodes w name of
        None \<Rightarrow> Panic ''nil node runtime''
      | Some nd \<Rightarrow>
         (let n = n_Name nd; dag = cw_graph w in
          case Runtime c n of
            None \<Rightarrow> Panic ''nil node runtime''
          | Some rt \<Rightarrow>
             if State rt = NodeSuccessPendingEdges then
               bind_exec (finalizeNode e n (Output rt) None dag c) (\<lambda>x. Ret (finish_and_record e nd x))
             else if State rt = NodeFailedPendingEdges then
               bind_exec (finalizeNode e n None (if Error rt \<noteq> [] then Some (Error rt) else None) dag c)
                 (\<lambda>x. Ret (or_fail x))
             else if State rt \<noteq> NodePending then Ret (Go False, c)
             else if shouldSkipNode c n dag then
               bind_exec (skipNodeWithCorrectKind e n dag c) (\<lambda>x. Ret (or_fail x))
             else if \<not> depsMet c n dag then Ret (Go False, c)
             else
               bind_exec (transitionLocked e n NodeReady None None c) (\<lambda>c1.
               bind_exec (executeNode e nd dag c1) (end_execution e nd dag))))"

fun dag_pass :: "env \<Rightarrow> compiled_workflow \<Rightarrow> name list \<Rightarrow> bool \<Rightarrow> run_ctx \<Rightarrow> (turn \<times> run_ctx) exec" where
  "dag_pass e w [] progress c = Ret (Go progress, c)"
| "dag_pass e w (n # ns) progress c =
     bind_exec (dag_turn e w n c) (\<lambda>(t, c1).
       case t of Stop r \<Rightarrow> Ret (Stop r, c1) | Go p \<Rightarrow> dag_pass e w ns (progress \<or> p) c1)"

definition finish_run :: "env \<Rightarrow> run_ctx \<Rightarrow> run_result \<times> run_ctx" where
  "finish_run e c =
     (case finishTask e c of (Some m, c1) \<Rightarrow> (run_failed m, c1) | (None, c1) \<Rightarrow> (run_ok RunSuccess, c1))"

definition deadlock_msg :: go_error where "deadlock_msg = ''dag deadlock detected''"

fun dag_loop :: "nat \<Rightarrow> env \<Rightarrow> compiled_workflow \<Rightarrow> run_ctx \<Rightarrow> (run_result \<times> run_ctx) exec" where
  "dag_loop 0 e w c = Panic ''fuel''"
| "dag_loop (Suc fuel) e w c =
     bind_exec (dag_pass e w (cw_order w) False c) (\<lambda>(t, c1).
       case t of
         Stop r \<Rightarrow> Ret (r, c1)
       | Go progress \<Rightarrow>
           if allTerminal e c1 then Ret (finish_run e c1)
           else if progress then dag_loop fuel e w c1
           else bind_exec (globalClosure e (cw_graph w) c1) (\<lambda>c2.
                  if allTerminal e c2 then Ret (finish_run e c2)
                  else Ret (run_failed deadlock_msg, c2)))"

definition ts_message :: "ts_error \<Rightarrow> go_error" where
  "ts_message x = (case x of ErrTaskCanceled \<Rightarrow> ''task already canceled'' | ErrOther m \<Rightarrow> m)"

definition runDAG :: "env \<Rightarrow> compiled_workflow \<Rightarrow> run_ctx \<Rightarrow> (run_result \<times> run_ctx) exec" where
  "runDAG e w c =
     (case transitionTaskStatus e TaskRunning c of
        (Some x, c1) \<Rightarrow> Ret (run_failed (ts_message x), c1)
      | (None, c1) \<Rightarrow> dag_loop (Suc (length (cw_order w))) e w c1)"

subsection \<open>executeTask\<close>

definition task_event :: "string \<Rightarrow> gmap \<Rightarrow> run_ctx \<Rightarrow> event" where
  "task_event ty meta c = \<lparr>ev_TaskID = task_id (Task c), ev_RootTaskID = RootID (Task c),
     ev_Step = ''task'', ev_Type = ty, ev_Meta = meta\<rparr>"

definition ts_stop :: "ts_error \<Rightarrow> run_result" where
  "ts_stop x = (case x of ErrTaskCanceled \<Rightarrow> run_ok RunNoop | ErrOther m \<Rightarrow> run_failed m)"

definition output_json :: "run_ctx \<Rightarrow> gmap" where
  "output_json c =
     [(''input'', VMap (Input c)),
      (''nodes'', VMap (List.map_filter (\<lambda>n. map_option (\<lambda>o'. (n, VMap (opt_field ''status'' VStr (no_status o')
          @ opt_field ''output'' VMap (no_output o')))) (OutNodes c n)) (WfNodes c)))]"

text \<open>
  The event of a successful task has no data: the code asserts the final output to be a
  map, while \<^verbatim>\<open>finishTask\<close> stored a \<^verbatim>\<open>*TaskOutput\<close>.
\<close>

definition settle_task :: "env \<Rightarrow> run_result \<Rightarrow> run_ctx \<Rightarrow> run_result \<times> run_ctx" where
  "settle_task e r c =
     (case rr_Status r of
        RunSuccess \<Rightarrow>
          (case transitionTaskStatus e TaskSuccess c of
             (Some x, c1) \<Rightarrow> (ts_stop x, c1)
           | (None, c1) \<Rightarrow>
              (let t = (Task c1)\<lparr>ErrorMessage := [], task_Progress := 1\<rparr>;
                   c2 = snd (taskRepo_Update e t (c1\<lparr>Task := t\<rparr>))
               in (r, publish (task_event ''task_succeeded'' [] c2) c2)))
      | RunFailed \<Rightarrow>
          (case transitionTaskStatus e TaskFailed c of
             (Some x, c1) \<Rightarrow> (ts_stop x, c1)
           | (None, c1) \<Rightarrow>
              (let t = (case rr_Err r of None \<Rightarrow> Task c1 | Some m \<Rightarrow> (Task c1)\<lparr>ErrorMessage := m\<rparr>);
                   c2 = snd (taskRepo_Update e t (c1\<lparr>Task := t\<rparr>))
               in (r, publish (task_event ''task_failed'' (output_json c2) c2) c2)))
      | RunSuspended \<Rightarrow>
          (case transitionTaskStatus e TaskSuspended c of
             (Some x, c1) \<Rightarrow> (ts_stop x, c1)
           | (None, c1) \<Rightarrow> (r, publish (task_event ''task_suspended'' [] c1) c1))
      | RunNoop \<Rightarrow> (r, c))"

definition executeTask :: "env \<Rightarrow> compiled_workflow \<Rightarrow> bool \<Rightarrow> run_ctx \<Rightarrow> (run_result \<times> run_ctx) exec" where
  "executeTask e w emitStarted c =
     (let c0 = (if emitStarted then publish (task_event ''task_started'' [] c) c else c)
      in bind_exec (runDAG e w c0) (\<lambda>(r, c1). Ret (settle_task e r c1)))"

subsection \<open>Where an input value comes from\<close>

lemma config_inputs_ok:
  assumes "distinct (map fst kvs)" and "config_inputs e c nd kvs acc = Inr r"
  shows "map_of r k = (case map_of kvs k of
      Some v \<Rightarrow> Some (if expr_config_field e (n_Type nd) k
                     then (case v of VStr s \<Rightarrow> projr (eval e c s) | _ \<Rightarrow> v) else v)
    | None \<Rightarrow> map_of acc k)"
  using assms
proof (induction kvs arbitrary: acc)
  case Nil
  then show ?case by simp
next
  case (Cons p kvs)
  obtain f v where p: "p = (f, v)" by force
  from Cons.prems(1) p have nf: "map_of kvs f = None" and d: "distinct (map fst kvs)"
    by (auto simp: map_of_eq_None_iff)
  obtain w where w: "config_inputs e c nd kvs (AList.update f w acc) = Inr r"
      "w = (if expr_config_field e (n_Type nd) f then (case v of VStr s \<Rightarrow> projr (eval e c s) | _ \<Rightarrow> v) else v)"
    using Cons.prems(2) p by (auto split: if_splits gval.splits sum.splits)
  from Cons.IH [OF d w(1)] w(2) nf p show ?case
    by (cases "k = f") (simp_all add: map_of_update split: option.splits)
qed

lemma mapped_inputs_ok:
  assumes "distinct (map fst ms)" and "mapped_inputs e c ms acc = Inr r"
  shows "map_of r k = (case map_of ms k of Some src \<Rightarrow> Some (projr (eval e c src)) | None \<Rightarrow> map_of acc k)"
  using assms
proof (induction ms arbitrary: acc)
  case Nil
  then show ?case by simp
next
  case (Cons p ms)
  obtain f src where p: "p = (f, src)" by force
  from Cons.prems(1) p have nf: "map_of ms f = None" and d: "distinct (map fst ms)"
    by (auto simp: map_of_eq_None_iff)
  obtain v where v: "eval e c src = Inr v" "mapped_inputs e c ms (AList.update f v acc) = Inr r"
    using Cons.prems(2) p by (auto split: sum.splits)
  from Cons.IH [OF d v(2)] v(1) nf p show ?case
    by (cases "k = f") (simp_all add: map_of_update split: option.splits)
qed

lemma fallback_inputs_ok:
  "map_of (fallback_inputs c ps sch acc) k = (case map_of acc k of
      Some v \<Rightarrow> Some v
    | None \<Rightarrow> if k \<in> fst ` set sch
              then (case parent_value c ps k of Some v \<Rightarrow> Some v | None \<Rightarrow> map_of (Input c) k) else None)"
proof (induction sch arbitrary: acc)
  case Nil
  then show ?case by (simp split: option.splits)
next
  case (Cons p sch)
  obtain f fs where p: "p = (f, fs)" by force
  define acc' where "acc' = (if map_of acc f \<noteq> None then acc
        else case parent_value c ps f of
            Some v \<Rightarrow> AList.update f v acc
          | None \<Rightarrow> (case map_of (Input c) f of Some v \<Rightarrow> AList.update f v acc | None \<Rightarrow> acc))"
  have acc': "map_of acc' j = (if j = f \<and> map_of acc f = None
      then (case parent_value c ps f of Some v \<Rightarrow> Some v | None \<Rightarrow> map_of (Input c) f) else map_of acc j)" for j
    by (auto simp: acc'_def map_of_update split: option.splits)
  have "fallback_inputs c ps (p # sch) acc = fallback_inputs c ps sch acc'" by (simp add: p acc'_def)
  then show ?case
    using Cons.IH [of acc'] acc' [of k] p by (auto split: option.splits)
qed

subsection \<open>Properties\<close>

text \<open>
  Where each input of a node comes from, in order of precedence: its explicit mapping, its
  configuration (evaluated where the node type says so), and, for the fields of the step's
  schema only, the output of the first parent that has the field, then the input of the
  task.
\<close>

lemma buildNodeInput_precedence:
  assumes "distinct (map fst (n_Config nd))" and "distinct (map fst (n_InputMapping nd))"
    and "buildNodeInput e c nd g = Inr r"
  shows "map_of r k =
    (case map_of (n_InputMapping nd) k of
       Some src \<Rightarrow> Some (projr (eval e c src))
     | None \<Rightarrow>
        (case map_of (n_Config nd) k of
           Some v \<Rightarrow> Some (if expr_config_field e (n_Type nd) k
                          then (case v of VStr s \<Rightarrow> projr (eval e c s) | _ \<Rightarrow> v) else v)
         | None \<Rightarrow>
            if k \<in> fst ` set (InputSchema nd)
            then (case parent_value c (Parents g (n_Name nd)) k of
                    Some v \<Rightarrow> Some v | None \<Rightarrow> map_of (Input c) k)
            else None))"
proof -
  obtain r0 r1 where r0: "config_inputs e c nd (n_Config nd) [] = Inr r0"
    and r1: "mapped_inputs e c (n_InputMapping nd) r0 = Inr r1"
    and r: "r = fallback_inputs c (Parents g (n_Name nd)) (InputSchema nd) r1"
    using assms(3) by (auto simp: buildNodeInput_def split: sum.splits)
  show ?thesis
    using config_inputs_ok [OF assms(1) r0, of k] mapped_inputs_ok [OF assms(2) r1, of k]
    by (auto simp: r fallback_inputs_ok split: option.splits)
qed

lemma buildNodeInput_precedence_witness:
  "\<exists>r. buildNodeInput (sample_env True) (sample_ctx\<lparr>Input := [(''x'', VInt 3), (''y'', VInt 4)]\<rparr>)
      ((sample_cnode ''b'')\<lparr>n_Config := [(''y'', VInt 5)],
         InputSchema := [(''x'', \<lparr>fs_Type = ''integer'', fs_Required = True, fs_Desc = []\<rparr>)]\<rparr>) diamond_graph = Inr r
    \<and> map_of r ''x'' = Some (VInt 3) \<and> map_of r ''y'' = Some (VInt 5)"
proof -
  let ?c = "sample_ctx\<lparr>Input := [(''x'', VInt 3), (''y'', VInt 4)]\<rparr>"
  let ?nd = "(sample_cnode ''b'')\<lparr>n_Config := [(''y'', VInt 5)],
         InputSchema := [(''x'', \<lparr>fs_Type = ''integer'', fs_Required = True, fs_Desc = []\<rparr>)]\<rparr>"
  have pv: "parent_value ?c ps f = None" for ps f
    by (induction ps) (simp_all add: gget_def GetNodeOutput_def node_out_of_def sample_ctx_def)
  obtain r where r: "buildNodeInput (sample_env True) ?c ?nd diamond_graph = Inr r"
    by (simp add: buildNodeInput_def sample_cnode_def sample_env_def)
  have p: "map_of r k = (case map_of [(''y'', VInt 5)] k of Some v \<Rightarrow> Some v
      | None \<Rightarrow> if k = ''x'' then map_of [(''x'', VInt 3), (''y'', VInt 4)] k else None)" for k
    using buildNodeInput_precedence [OF _ _ r, of k] pv
    by (simp add: sample_cnode_def sample_env_def split: option.splits)
  from p [of "''x''"] p [of "''y''"] r show ?thesis by simp
qed

text \<open>
  The guarded task status: a change that is reported as done was allowed by the table (or was
  no change), is in force afterwards and did not happen over a stored cancellation; a
  stored cancellation is reported as such, adopted in memory, and nothing is written.
\<close>

lemma transitionTaskStatus_guarded:
  "(\<forall>c'. transitionTaskStatus e st c = (None, c') \<longrightarrow>
      Status (Task c') = st \<and> (Status (Task c) = st \<or> IsAllowedTaskTransition (Status (Task c)) st)
      \<and> (\<forall>row. dbTask c = Some row \<longrightarrow> Status row = TaskCanceled \<longrightarrow> st = TaskCanceled))
   \<and> (\<forall>row. dbTask c = Some row \<and> Status row = TaskCanceled \<and> st \<noteq> TaskCanceled \<longrightarrow>
        transitionTaskStatus e st c = (Some ErrTaskCanceled, c\<lparr>Task := (Task c)\<lparr>Status := TaskCanceled\<rparr>\<rparr>))"
proof -
  have keep: "Task (snd (taskRepo_Update e t c0)) = Task c0" for t c0
    by (rule taskRepo_Update_frame)
  have "Status (Task c') = st \<and> (Status (Task c) = st \<or> IsAllowedTaskTransition (Status (Task c)) st)
      \<and> (\<forall>row. dbTask c = Some row \<longrightarrow> Status row = TaskCanceled \<longrightarrow> st = TaskCanceled)"
    if "transitionTaskStatus e st c = (None, c')" for c'
    using that keep [of "(Task c)\<lparr>Status := st\<rparr>" "c\<lparr>Task := (Task c)\<lparr>Status := st\<rparr>\<rparr>"]
    by (auto simp: transitionTaskStatus_def Let_def split: option.splits if_splits prod.splits)
  moreover have "transitionTaskStatus e st c = (Some ErrTaskCanceled, c\<lparr>Task := (Task c)\<lparr>Status := TaskCanceled\<rparr>\<rparr>)"
    if "dbTask c = Some row \<and> Status row = TaskCanceled \<and> st \<noteq> TaskCanceled" for row
    using that by (simp add: transitionTaskStatus_def)
  ultimately show ?thesis by blast
qed

lemma transitionTaskStatus_guarded_witness:
  "fst (transitionTaskStatus (sample_env True) TaskRunning
     (sample_ctx\<lparr>dbTask := Some (sample_task\<lparr>Status := TaskCanceled\<rparr>)\<rparr>)) = Some ErrTaskCanceled"
  using transitionTaskStatus_guarded [of "sample_env True" TaskRunning
      "sample_ctx\<lparr>dbTask := Some (sample_task\<lparr>Status := TaskCanceled\<rparr>)\<rparr>"] by simp

end
