(* ===== verification/Flux_Scheduler.thy ===== *)
theory Flux_Scheduler
  imports Flux_Run
begin

text \<open>
  Why a run of the scheduler ends well. The theory states what the execution of a node may
  change (the locale \<open>node_executor\<close>, interpreted by \<^verbatim>\<open>executeNode\<close>), what a context must look
  like for the scheduler to work on it (\<open>sched\<close>), and shows that a single pass over the
  topological order brings every node to an end, unless the run is suspended or an edge
  condition cannot be evaluated.
\<close>

subsection \<open>What the parts of an execution leave alone\<close>

text \<open>
  \<open>keeps c c'\<close>: the scheduler sees no difference. \<open>moves n s c c'\<close>: only node \<open>n\<close> changed, and it is
  now in state \<open>s\<close>.
\<close>

definition keeps :: "run_ctx \<Rightarrow> run_ctx \<Rightarrow> bool" where
  "keeps c c' \<longleftrightarrow> Runtime c' = Runtime c \<and> ActivatedEdges c' = ActivatedEdges c
     \<and> WfNodes c' = WfNodes c \<and> WfEdges c' = WfEdges c"

definition moves :: "name \<Rightarrow> node_state \<Rightarrow> run_ctx \<Rightarrow> run_ctx \<Rightarrow> bool" where
  "moves n s c c' \<longleftrightarrow> (\<forall>m. m \<noteq> n \<longrightarrow> Runtime c' m = Runtime c m) \<and> nstate c' n = Some s
     \<and> ActivatedEdges c' = ActivatedEdges c \<and> WfNodes c' = WfNodes c \<and> WfEdges c' = WfEdges c"

lemma keeps_refl [simp, intro]: "keeps c c"
  by (simp add: keeps_def)

lemma keeps_trans [trans]: "keeps a b \<Longrightarrow> keeps b c \<Longrightarrow> keeps a c"
  by (simp add: keeps_def)

lemma moves_trans [trans]: "moves n s a b \<Longrightarrow> moves n t b c \<Longrightarrow> moves n t a c"
  by (simp add: moves_def)

lemma keeps_moves: "keeps a b \<Longrightarrow> nstate a n = Some s \<Longrightarrow> moves n s a b"
  by (simp add: moves_def keeps_def nstate_def)

lemma moves_keeps [trans]: "moves n s a b \<Longrightarrow> keeps b c \<Longrightarrow> moves n s a c"
  by (simp add: moves_def keeps_def nstate_def)

lemma moves_nstate: "moves n s a b \<Longrightarrow> nstate b n = Some s"
  by (simp add: moves_def)

lemma moves_refl: "nstate c n = Some s \<Longrightarrow> moves n s c c"
  by (simp add: moves_def)

named_theorems keeps_intros \<open>operations the scheduler does not notice\<close>

lemma keeps_simps [simp]:
  "keeps c0 (publish ev c) = keeps c0 c"
  "keeps c0 (c\<lparr>writes := w\<rparr>) = keeps c0 c"
  "keeps c0 (c\<lparr>writes := w, dbBindings := db\<rparr>) = keeps c0 c"
  "keeps c0 (c\<lparr>writes := w, dbNodes := dn\<rparr>) = keeps c0 c"
  "keeps c0 (c\<lparr>writes := w, dbTask := dt\<rparr>) = keeps c0 c"
  "keeps c0 (c\<lparr>writes := w, subTasks := st\<rparr>) = keeps c0 c"
  "keeps c0 (c\<lparr>writes := w, taskQueue := tq\<rparr>) = keeps c0 c"
  "keeps c0 (c\<lparr>writes := w, jobs := js\<rparr>) = keeps c0 c"
  "keeps c0 (c\<lparr>OutNodes := ou\<rparr>) = keeps c0 c"
  "keeps c0 (c\<lparr>Task := t\<rparr>) = keeps c0 c"
  "keeps c0 (c\<lparr>Final := f\<rparr>) = keeps c0 c"
  by (simp_all add: keeps_def publish_def)

lemma keeps_repo [keeps_intros]:
  "bindingRepo_Create e b c = (r, c') \<Longrightarrow> keeps c c'"
  "bindingRepo_Update e b c = (r, c') \<Longrightarrow> keeps c c'"
  "cas_status e n froms to c = (r2, c') \<Longrightarrow> keeps c c'"
  "nodeRepo_Update e rt c = (r, c') \<Longrightarrow> keeps c c'"
  "taskRepo_Update e t c = (r, c') \<Longrightarrow> keeps c c'"
  "childRepo_Update e k t c = (r, c') \<Longrightarrow> keeps c c'"
  "childRepo_Create e k t c = (r, c') \<Longrightarrow> keeps c c'"
  "Enqueue e i c = (r, c') \<Longrightarrow> keeps c c'"
  by (auto simp: bindingRepo_Create_def bindingRepo_Update_def cas_status_def nodeRepo_Update_def
      taskRepo_Update_def childRepo_Update_def childRepo_Create_def Enqueue_def
      split: option.splits if_splits)

lemma keeps_snd [keeps_intros, simp]:
  "keeps c0 (snd (nodeRepo_Update e rt c)) = keeps c0 c"
  "keeps c0 (snd (taskRepo_Update e t c)) = keeps c0 c"
  "keeps c0 (snd (childRepo_Update e k t c)) = keeps c0 c"
  by (simp_all add: nodeRepo_Update_def taskRepo_Update_def childRepo_Update_def split: option.split)

lemma keeps_TransitionStatus [keeps_intros]: "TransitionStatus e n from to c = (r, c') \<Longrightarrow> keeps c c'"
  by (auto simp: TransitionStatus_def split: if_splits intro: keeps_repo)

lemma keeps_EmitNodeEvent [simp]: "ty \<noteq> ''progress'' \<Longrightarrow> keeps c0 (EmitNodeEvent n ty p meta c) = keeps c0 c"
  by (simp add: EmitNodeEvent_def split: option.split)

lemma keeps_fanout [simp]: "keeps c0 (emitPlainSubWorkflowFanoutProgress nd a b d c) = keeps c0 c"
  by (simp add: emitPlainSubWorkflowFanoutProgress_def Let_def)

lemma keeps_SetNodeOutput [keeps_intros]: "SetNodeOutput n d sch c = (r, d', c') \<Longrightarrow> keeps c c'"
  by (auto simp: SetNodeOutput_def split: prod.splits option.splits)

lemma keeps_queue_and_suspend [keeps_intros]: "queue_and_suspend e nd k c = (r, c') \<Longrightarrow> keeps c c'"
  by (auto simp: queue_and_suspend_def dest!: keeps_repo split: prod.splits option.splits)

lemma keeps_sub_existing [keeps_intros]: "sub_existing e nd k t c = (r, c') \<Longrightarrow> keeps c c'"
proof -
  have step: "keeps c c'" if "queue_and_suspend e nd i (snd (childRepo_Update e k t' c)) = (r, c')" for i t' r c'
    using keeps_queue_and_suspend [OF that] keeps_trans [of c "snd (childRepo_Update e k t' c)" c'] by simp
  assume "sub_existing e nd k t c = (r, c')"
  then show "keeps c c'"
    by (auto simp: sub_existing_def Let_def dest: step keeps_queue_and_suspend keeps_repo
        intro: keeps_trans split: task_status.splits if_splits prod.splits option.splits)
qed

lemma keeps_RunSubWorkflow [keeps_intros]: "RunSubWorkflow e nd wname inp c = (r, c') \<Longrightarrow> keeps c c'"
  by (auto simp: RunSubWorkflow_def Let_def dest: keeps_sub_existing keeps_queue_and_suspend keeps_repo
      intro: keeps_trans split: if_splits prod.splits option.splits sum.splits)

lemma keeps_upsert [keeps_intros]: "upsertSubWorkflowBinding e n i k c = (r, c') \<Longrightarrow> keeps c c'"
  by (auto simp: upsertSubWorkflowBinding_def Let_def dest: keeps_TransitionStatus keeps_repo
      intro: keeps_trans split: if_splits prod.splits option.splits sum.splits bool.splits)

lemma keeps_scheduleAsyncActivity [keeps_intros]: "scheduleAsyncActivity e nd inp h c = (r, c') \<Longrightarrow> keeps c c'"
  by (auto simp: scheduleAsyncActivity_def split: option.splits)

lemma keeps_transitionTaskStatus [keeps_intros]: "transitionTaskStatus e st c = (r, c') \<Longrightarrow> keeps c c'"
proof -
  have "keeps c b" if "taskRepo_Update e t (c\<lparr>Task := t\<rparr>) = (x, b)" for t x b
    using keeps_repo(5) [OF that] by (simp add: keeps_def)
  moreover assume "transitionTaskStatus e st c = (r, c')"
  ultimately show "keeps c c'"
    by (auto simp: transitionTaskStatus_def Let_def split: option.splits if_splits prod.splits)
qed

lemma moves_transitionLocked:
  assumes "nstate c n = Some s" and "isAllowed s st"
  obtains c' where "transitionLocked e n st err out c = Ret c'" "moves n st c c'"
proof -
  from transitionLocked_total [OF assms, of e err out] obtain c' where
    c': "transitionLocked e n st err out c = Ret c'" by blast
  from transitionLocked_frame [OF c'] transitionLocked_nstate [OF c'] have "moves n st c c'"
    by (auto simp: moves_def same_frame_def)
  with c' that show thesis by blast
qed

lemma moves_apply_checkpoint:
  assumes "nstate c n = Some s"
  shows "moves n s c (apply_checkpoint e n cp c)"
proof (cases cp)
  case None
  with assms show ?thesis by (simp add: apply_checkpoint_def moves_refl)
next
  case (Some m)
  from assms obtain rt where rt: "Runtime c n = Some rt" "State rt = s" by (rule nstate_SomeE)
  let ?rt = "rt\<lparr>Checkpoint := Some m\<rparr>"
  have "moves n s c (set_runtime n ?rt c)" using rt by (simp add: moves_def nstate_def set_runtime_def)
  with rt Some show ?thesis
    by (auto simp: apply_checkpoint_def Let_def intro: moves_keeps)
qed

lemmas moves_intros = moves_trans moves_keeps keeps_moves moves_refl

subsection \<open>The execution of a node\<close>

fun state_after :: "exec_result \<Rightarrow> node_state set" where
  "state_after ExecOk = {NodeRunning, NodeRetrying}"
| "state_after (ExecErr m) = {NodeReady, NodeRunning, NodeRetrying}"
| "state_after (ExecSuspend r) = {NodeRunning, NodeRetrying, NodeAwaiting}"

definition running_states :: "node_state set" where
  "running_states = {NodeRunning, NodeRetrying}"

lemma moves_attempt_once:
  assumes "nstate c (n_Name nd) = Some (if attempt \<le> 1 then NodeRunning else NodeRetrying)"
  shows "\<exists>r out' c'. attempt_once e nd inp attempt lastErr out c = Ret (r, out', c')
     \<and> moves (n_Name nd) (if attempt = 0 then NodeRunning else NodeRetrying) c c'"
proof (cases "attempt = 1")
  case True
  with assms have "nstate c (n_Name nd) = Some NodeRunning" by simp
  from moves_transitionLocked [OF this, of NodeRetrying e lastErr None] obtain c1 where
    c1: "transitionLocked e (n_Name nd) NodeRetrying lastErr None c = Ret c1"
      "moves (n_Name nd) NodeRetrying c c1" by auto
  let ?c2 = "EmitNodeEvent (n_Name nd) ''retrying'' 0 [] c1"
  have k: "moves (n_Name nd) NodeRetrying c ?c2" using c1(2) by (rule moves_keeps) simp
  from moves_trans [OF k moves_apply_checkpoint [OF moves_nstate [OF k]]] c1(1) True show ?thesis
    by (auto simp: attempt_once_def Let_def)
next
  case False
  with moves_apply_checkpoint [OF assms, of e] show ?thesis
    by (auto simp: attempt_once_def Let_def)
qed

lemma moves_retry_from:
  assumes "nstate c (n_Name nd) = Some (if attempt \<le> 1 then NodeRunning else NodeRetrying)"
  shows "\<exists>r out' c' s. retry_from e nd inp left attempt lastErr out c = Ret (r, out', c')
     \<and> s \<in> running_states \<and> moves (n_Name nd) s c c'"
  using assms
proof (induction "left" arbitrary: attempt lastErr out c)
  case 0
  from moves_attempt_once [OF 0, of e inp lastErr out] obtain r out' c' where
    a: "attempt_once e nd inp attempt lastErr out c = Ret (r, out', c')"
      "moves (n_Name nd) (if attempt = 0 then NodeRunning else NodeRetrying) c c'" by blast
  have "moves (n_Name nd) (if attempt = 0 then NodeRunning else NodeRetrying) c
      (EmitNodeEvent (n_Name nd) ''failed'' 0 [] c')" using a(2) by (rule moves_keeps) simp
  with a show ?case
    by (cases r) (auto simp: running_states_def split: if_splits)
next
  case (Suc left)
  from moves_attempt_once [OF Suc.prems, of e inp lastErr out] obtain r out' c' where
    a: "attempt_once e nd inp attempt lastErr out c = Ret (r, out', c')"
      "moves (n_Name nd) (if attempt = 0 then NodeRunning else NodeRetrying) c c'" by blast
  let ?c = "EmitNodeEvent (n_Name nd) ''failed'' 0 [] c'"
  have m: "moves (n_Name nd) (if attempt = 0 then NodeRunning else NodeRetrying) c ?c"
    using a(2) by (rule moves_keeps) simp
  have "nstate ?c (n_Name nd) = Some (if Suc attempt \<le> 1 then NodeRunning else NodeRetrying)"
    using moves_nstate [OF m] by auto
  from Suc.IH [OF this] m have IH: "\<exists>r out'' c'' s. retry_from e nd inp left (Suc attempt) l out' ?c = Ret (r, out'', c'')
     \<and> s \<in> running_states \<and> moves (n_Name nd) s c c''" for l
    by (meson moves_trans)
  show ?case
  proof (cases r)
    case (StepErr msg)
    with a(1) IH [of "Some msg"] show ?thesis by simp
  qed (use a in \<open>auto simp: running_states_def split: if_splits\<close>)
qed

lemma moves_record_output:
  assumes "nstate c (n_Name nd) = Some s"
  shows "\<exists>r c'. record_output e nd out c = Ret (r, c') \<and> moves (n_Name nd) s c c' \<and> (\<forall>sr. r \<noteq> ExecSuspend sr)"
proof -
  obtain err d1 c1 where so: "SetNodeOutput (n_Name nd) out (OutputSchema nd) c = (err, d1, c1)"
    by (cases "SetNodeOutput (n_Name nd) out (OutputSchema nd) c") auto
  from keeps_SetNodeOutput [OF so] assms have k: "moves (n_Name nd) s c c1" by (rule keeps_moves)
  show ?thesis
  proof (cases err)
    case (Some m)
    with so k show ?thesis by (auto simp: record_output_def)
  next
    case None
    from moves_nstate [OF k] obtain rt where rt: "Runtime c1 (n_Name nd) = Some rt" "State rt = s"
      by (rule nstate_SomeE)
    define rt1 where "rt1 = output_rt e nd d1 rt"
    have "State rt1 = s" using rt by (simp add: rt1_def output_rt_def clearNodeReuseMetadata_def)
    then have k2: "moves (n_Name nd) s c (set_runtime (n_Name nd) rt1 c1)"
      using k by (simp add: moves_def nstate_def set_runtime_def)
    obtain w c2 where up: "nodeRepo_Update e rt1 (set_runtime (n_Name nd) rt1 c1) = (w, c2)" by force
    from moves_keeps [OF k2 keeps_repo(4) [OF up]] so None rt up show ?thesis
      by (cases w) (auto simp: record_output_def rt1_def)
  qed
qed

lemma moves_suspend_awaiting:
  assumes "nstate c n = Some NodeRunning"
  shows "\<exists>c'. suspend_awaiting e n c = Ret (ExecSuspend SuspendAsyncNode, c') \<and> moves n NodeAwaiting c c'"
proof -
  from moves_transitionLocked [OF assms, of NodeAwaiting e None None] obtain c' where
    "transitionLocked e n NodeAwaiting None None c = Ret c'" "moves n NodeAwaiting c c'" by auto
  then show ?thesis by (simp add: suspend_awaiting_def)
qed

definition exec_post :: "name \<Rightarrow> run_ctx \<Rightarrow> exec_result \<times> run_ctx \<Rightarrow> bool" where
  "exec_post n c rc \<longleftrightarrow> (\<exists>s\<in>state_after (fst rc). moves n s c (snd rc))"

lemma exec_postI: "moves n s c c' \<Longrightarrow> s \<in> state_after r \<Longrightarrow> exec_post n c (r, c')"
  by (auto simp: exec_post_def)

lemma exec_post_moves: "moves n s a b \<Longrightarrow> exec_post n b rc \<Longrightarrow> exec_post n a rc"
  by (auto simp: exec_post_def intro: moves_trans)

lemma moves_open_binding:
  assumes "nstate c n = Some NodeRunning" and "keeps c (snd r)"
  shows "\<exists>rc. open_binding e n r = Ret rc \<and> exec_post n c rc"
proof -
  obtain err c1 where r: "r = (err, c1)" by force
  with assms have k: "moves n NodeRunning c c1" by (auto intro: keeps_moves)
  show ?thesis
  proof (cases err)
    case (Some m)
    with r k show ?thesis by (auto simp: open_binding_def intro: exec_postI)
  next
    case None
    obtain t c2 where t: "TransitionStatus e n AwaitBindingPending AwaitBindingWaiting c1 = (t, c2)" by force
    from moves_keeps [OF k keeps_TransitionStatus [OF t]] have k2: "moves n NodeRunning c c2" .
    from moves_suspend_awaiting [OF moves_nstate [OF k2], of e] obtain c3 where
      c3: "suspend_awaiting e n c2 = Ret (ExecSuspend SuspendAsyncNode, c3)" "moves n NodeAwaiting c2 c3" by blast
    have p3: "exec_post n c (ExecSuspend SuspendAsyncNode, c3)"
      by (rule exec_postI [OF moves_trans [OF k2 c3(2)]]) simp
    have p2: "exec_post n c (ExecErr m, c2)" for m by (rule exec_postI [OF k2]) simp
    show ?thesis
    proof (cases t)
      case (Inl m)
      with r None t p2 show ?thesis by (simp add: open_binding_def)
    next
      case (Inr b)
      with r None t p2 p3 c3(1) show ?thesis by (cases b) (simp_all add: open_binding_def)
    qed
  qed
qed

lemma moves_executeAwaitNode:
  assumes "nstate c (n_Name nd) = Some NodeRunning"
  shows "\<exists>rc. executeAwaitNode e nd inp c = Ret rc \<and> exec_post (n_Name nd) c rc"
proof (cases "buildAwaitBinding e c nd inp")
  case (Inl m)
  then show ?thesis using moves_refl [OF assms]
    by (auto simp: executeAwaitNode_def intro: exec_postI)
next
  case (Inr b)
  from moves_suspend_awaiting [OF assms, of e] have
    sus: "\<exists>rc. suspend_awaiting e (n_Name nd) c = Ret rc \<and> exec_post (n_Name nd) c rc"
    by (auto intro!: exec_postI [where s = NodeAwaiting])
  have cr: "keeps c (snd (bindingRepo_Create e b' c))" "keeps c (snd (bindingRepo_Update e b' c))" for b'
    using keeps_repo(1,2) by (metis prod.collapse)+
  show ?thesis
    using Inr sus moves_open_binding [OF assms cr(1)] moves_open_binding [OF assms cr(2)]
    by (simp add: executeAwaitNode_def Let_def split: option.split)
qed

lemma moves_bindSubWorkflow:
  assumes "nstate c (n_Name nd) = Some NodeRunning"
  shows "\<exists>c' s. bindSubWorkflowAwaitOnSuspend e nd wname inp c = Ret c'
    \<and> s \<in> {NodeRunning, NodeAwaiting} \<and> moves (n_Name nd) s c c'"
proof -
  define k where "k = BuildSubWorkflowKey e (task_id (Task c)) (n_Name nd) wname inp"
  show ?thesis
  proof (cases "FindBySubKey c k")
    case None
    with moves_refl [OF assms] show ?thesis
      by (auto simp: bindSubWorkflowAwaitOnSuspend_def Let_def k_def)
  next
    case (Some child)
    obtain err c1 where up: "upsertSubWorkflowBinding e (n_Name nd) (task_id child) k c = (err, c1)" by force
    from keeps_upsert [OF up] assms have m: "moves (n_Name nd) NodeRunning c c1" by (rule keeps_moves)
    from moves_nstate [OF m] obtain rt where rt: "Runtime c1 (n_Name nd) = Some rt" "State rt = NodeRunning"
      by (rule nstate_SomeE)
    from moves_transitionLocked [OF moves_nstate [OF m], of NodeAwaiting e None None] obtain c2 where
      c2: "transitionLocked e (n_Name nd) NodeAwaiting None None c1 = Ret c2" "moves (n_Name nd) NodeAwaiting c1 c2"
      by auto
    show ?thesis
      using Some up m rt c2 moves_trans [OF m c2(2)]
      by (cases err) (auto simp: bindSubWorkflowAwaitOnSuspend_def Let_def k_def)
  qed
qed

lemma moves_execute_subworkflow:
  assumes "nstate c (n_Name nd) = Some NodeReady"
    and "map_of (n_Config nd) ''workflow'' = Some (VStr wname)"
  shows "\<exists>rc. execute_subworkflow e nd inp c = Ret rc \<and> exec_post (n_Name nd) c rc"
proof -
  from moves_transitionLocked [OF assms(1), of NodeRunning e None None] obtain c1 where
    c1: "transitionLocked e (n_Name nd) NodeRunning None None c = Ret c1" "moves (n_Name nd) NodeRunning c c1" by auto
  obtain sr c2 where run: "RunSubWorkflow e nd wname inp c1 = (sr, c2)" by force
  from moves_keeps [OF c1(2) keeps_RunSubWorkflow [OF run]] have m2: "moves (n_Name nd) NodeRunning c c2" .
  show ?thesis
  proof (cases sr)
    case (SubOut out)
    from moves_record_output [OF moves_nstate [OF m2], of e out] obtain r c3 where
      c3: "record_output e nd out c2 = Ret (r, c3)" "moves (n_Name nd) NodeRunning c2 c3" "\<forall>x. r \<noteq> ExecSuspend x"
      by blast
    from c3(3) have "NodeRunning \<in> state_after r" by (cases r) auto
    with exec_postI [OF moves_trans [OF m2 c3(2)]] c1(1) run SubOut c3(1) assms(2) show ?thesis
      by (simp add: execute_subworkflow_def)
  next
    case (SubErr m)
    with c1(1) run assms(2) exec_postI [OF m2, of "ExecErr m"] show ?thesis
      by (simp add: execute_subworkflow_def)
  next
    case (SubSuspend x)
    from moves_bindSubWorkflow [OF moves_nstate [OF m2], of e wname inp] obtain c3 s where
      c3: "bindSubWorkflowAwaitOnSuspend e nd wname inp c2 = Ret c3" "s \<in> {NodeRunning, NodeAwaiting}"
        "moves (n_Name nd) s c2 c3" by blast
    from exec_postI [OF moves_trans [OF m2 c3(3)], of "ExecSuspend x"] c3(2)
    have "exec_post (n_Name nd) c (ExecSuspend x, c3)" by auto
    with c1(1) run assms(2) SubSuspend c3(1) exec_postI [OF m2, of "ExecSuspend x"] show ?thesis
      by (simp add: execute_subworkflow_def)
  qed
qed

lemma moves_execute_running:
  assumes "nstate c (n_Name nd) = Some NodeReady"
  shows "\<exists>rc. execute_running e nd inp hash c = Ret rc \<and> exec_post (n_Name nd) c rc"
proof -
  from moves_transitionLocked [OF assms(1), of NodeRunning e None None] obtain c1 where
    c1: "transitionLocked e (n_Name nd) NodeRunning None None c = Ret c1" "moves (n_Name nd) NodeRunning c c1" by auto
  have run: "nstate c1 (n_Name nd) = Some NodeRunning" using c1(2) by (rule moves_nstate)
  obtain r2 c2 where as: "scheduleAsyncActivity e nd inp hash c1 = (r2, c2)" by force
  have "NodeRunning \<in> state_after r2"
    using as by (auto simp: scheduleAsyncActivity_def split: option.splits)
  with exec_postI [OF moves_keeps [OF c1(2) keeps_scheduleAsyncActivity [OF as]]]
  have async: "exec_post (n_Name nd) c (r2, c2)" by simp
  from moves_executeAwaitNode [OF run, of e inp] exec_post_moves [OF c1(2)]
  have await: "\<exists>rc. executeAwaitNode e nd inp c1 = Ret rc \<and> exec_post (n_Name nd) c rc" by blast
  from moves_retry_from [of c1 nd 0 e inp "MaxRetries nd" None "[]"] run obtain r out c3 s where
    c3: "runNodeWithRetry e nd inp c1 = Ret (r, out, c3)" "s \<in> running_states" "moves (n_Name nd) s c1 c3"
    by (auto simp: runNodeWithRetry_def)
  note m3 = moves_trans [OF c1(2) c3(3)]
  from moves_record_output [OF moves_nstate [OF m3], of e out] obtain r4 c4 where
    c4: "record_output e nd out c3 = Ret (r4, c4)" "moves (n_Name nd) s c3 c4" "\<forall>x. r4 \<noteq> ExecSuspend x" by blast
  have "s \<in> state_after r4" using c3(2) c4(3) by (cases r4) (auto simp: running_states_def)
  then have p4: "exec_post (n_Name nd) c (r4, c4)" by (rule exec_postI [OF moves_trans [OF m3 c4(2)]])
  have "s \<in> state_after r" using c3(2) by (cases r) (auto simp: running_states_def)
  then have p3: "exec_post (n_Name nd) c (r, c3)" by (rule exec_postI [OF m3])
  show ?thesis
    using c1(1) as async await c3(1) c4(1) p3 p4
    by (auto simp: execute_running_def split: exec_result.split)
qed

subsection \<open>The contract of a node executor\<close>

text \<open>
  What the scheduler relies on when it executes a ready node: the call returns, nothing but
  the node itself changes, the node is in a state from which it can be finalized or
  suspended, and of the edge flags only those of the node's own outgoing edges may have
  been reset.
\<close>

definition exec_contract :: "name \<Rightarrow> run_ctx \<Rightarrow> exec_result \<times> run_ctx \<Rightarrow> bool" where
  "exec_contract n c rc \<longleftrightarrow> (\<exists>s\<in>state_after (fst rc). nstate (snd rc) n = Some s)
     \<and> (\<forall>m. m \<noteq> n \<longrightarrow> Runtime (snd rc) m = Runtime c m)
     \<and> WfNodes (snd rc) = WfNodes c \<and> WfEdges (snd rc) = WfEdges c
     \<and> (\<forall>k. ActivatedEdges (snd rc) k \<noteq> ActivatedEdges c k
          \<longrightarrow> (\<exists>ed\<in>set (WfEdges c). From ed = n \<and> k = edge_key n (To ed)))"

text \<open>A subworkflow node names its workflow, as the schema of that node type demands.\<close>

definition runnable :: "node \<Rightarrow> bool" where
  "runnable nd \<longleftrightarrow> (n_Type nd = ''subworkflow'' \<longrightarrow> (\<exists>s. map_of (n_Config nd) ''workflow'' = Some (VStr s)))"

lemma clearOutgoing_flags:
  "ActivatedEdges (clearOutgoingActivatedEdges n c) k =
     (if \<exists>ed\<in>set (WfEdges c). From ed = n \<and> k = edge_key n (To ed) then None else ActivatedEdges c k)"
proof -
  have "fold (\<lambda>ed m. if From ed \<noteq> n then m else m(edge_key n (To ed) := None)) es m k =
     (if \<exists>ed\<in>set es. From ed = n \<and> k = edge_key n (To ed) then None else m k)" for es m
    by (induction es arbitrary: m) auto
  from this [of "WfEdges c" "ActivatedEdges c"] show ?thesis
    unfolding clearOutgoingActivatedEdges_def by simp
qed

lemma exec_contract_post:
  assumes "exec_post n c1 rc" and "\<forall>m. m \<noteq> n \<longrightarrow> Runtime c1 m = Runtime c m"
    and "WfNodes c1 = WfNodes c" and "WfEdges c1 = WfEdges c"
    and "\<forall>k. ActivatedEdges c1 k \<noteq> ActivatedEdges c k
          \<longrightarrow> (\<exists>ed\<in>set (WfEdges c). From ed = n \<and> k = edge_key n (To ed))"
  shows "exec_contract n c rc"
  using assms by (auto simp: exec_contract_def exec_post_def moves_def)

lemma exec_contract_refl: "nstate c n = Some NodeReady \<Longrightarrow> exec_contract n c (ExecErr m, c)"
  by (simp add: exec_contract_def)

lemma executeNode_contract:
  assumes "nstate c (n_Name nd) = Some NodeReady" and "runnable nd"
  shows "\<exists>rc. executeNode e nd dag c = Ret rc \<and> exec_contract (n_Name nd) c rc"
proof (cases "buildNodeInput e c nd dag")
  case (Inl m)
  then show ?thesis using exec_contract_refl [OF assms(1)] by (simp add: executeNode_def)
next
  case (Inr inp)
  show ?thesis
  proof (cases "validateNodeInput nd inp")
    case (Some m)
    with Inr exec_contract_refl [OF assms(1)] show ?thesis by (simp add: executeNode_def)
  next
    case None
    from assms(1) obtain rt where rt: "Runtime c (n_Name nd) = Some rt" "State rt = NodeReady"
      by (rule nstate_SomeE)
    define hash where "hash = canonicalHash e (FormatInt (WorkflowVersionID (Task c)) @ ''-'' @ n_Name nd) (Some inp)"
    define rt1 where "rt1 = reset_rt inp hash rt"
    define c0 where "c0 = clearOutgoingActivatedEdges (n_Name nd) (set_runtime (n_Name nd) rt1 c)"
    obtain w c1 where up: "nodeRepo_Update e rt1 c0 = (w, c1)" by force
    have k: "keeps c0 c1" using up by (rule keeps_repo)
    have n0: "nstate c1 (n_Name nd) = Some NodeReady"
      using k rt by (simp add: keeps_def c0_def nstate_def clearOutgoingActivatedEdges_def set_runtime_def
          rt1_def reset_rt_def)
    have con: "exec_contract (n_Name nd) c rc" if "exec_post (n_Name nd) c1 rc" for rc
    proof (rule exec_contract_post [OF that])
      show "\<forall>m. m \<noteq> n_Name nd \<longrightarrow> Runtime c1 m = Runtime c m" "WfNodes c1 = WfNodes c" "WfEdges c1 = WfEdges c"
        using k by (simp_all add: keeps_def c0_def clearOutgoingActivatedEdges_def set_runtime_def)
      show "\<forall>key. ActivatedEdges c1 key \<noteq> ActivatedEdges c key
          \<longrightarrow> (\<exists>ed\<in>set (WfEdges c). From ed = n_Name nd \<and> key = edge_key (n_Name nd) (To ed))"
        using k by (auto simp: keeps_def c0_def clearOutgoing_flags set_runtime_def)
    qed
    have err: "exec_contract (n_Name nd) c (ExecErr m, c1)" for m
      by (rule con, rule exec_postI [OF moves_refl [OF n0]]) simp
    have sub: "\<exists>rc. execute_subworkflow e nd inp c1 = Ret rc \<and> exec_contract (n_Name nd) c rc"
      if "n_Type nd = ''subworkflow''"
      using that assms(2) moves_execute_subworkflow [OF n0] con unfolding runnable_def by metis
    have run: "\<exists>rc. execute_running e nd inp hash c1 = Ret rc \<and> exec_contract (n_Name nd) c rc"
      using moves_execute_running [OF n0] con by metis
    have eq: "executeNode e nd dag c = (case w of Some m \<Rightarrow> Ret (ExecErr m, c1)
        | None \<Rightarrow> if n_Type nd = ''subworkflow'' then execute_subworkflow e nd inp c1
                 else execute_running e nd inp hash c1)"
      using Inr None rt up by (simp add: executeNode_def Let_def hash_def rt1_def c0_def split: option.split)
    show ?thesis unfolding eq using err sub run by (cases w) simp_all
  qed
qed

subsection \<open>Schedulable contexts\<close>

text \<open>
  A successful node is there for a reason: it has no parents, or its join was met. The
  nodes in \<open>J\<close> are exempt; in a forked task these are the nodes whose result was taken over
  from the parent run.
\<close>

definition joined :: "name set \<Rightarrow> graph \<Rightarrow> run_ctx \<Rightarrow> name \<Rightarrow> bool" where
  "joined J dag c n \<longleftrightarrow> n \<in> J \<or> Parents dag n = [] \<or>
     ((\<forall>p\<in>set (Parents dag n). nstate c p = Some NodeSuccess \<or> nstate c p = Some NodeSkipped)
      \<and> (\<exists>p\<in>set (Parents dag n). nstate c p = Some NodeSuccess))"

definition join_inv :: "name set \<Rightarrow> graph \<Rightarrow> run_ctx \<Rightarrow> bool" where
  "join_inv J dag c \<longleftrightarrow> (\<forall>n. nstate c n = Some NodeSuccess \<or> nstate c n = Some NodeSuccessPendingEdges
     \<longrightarrow> joined J dag c n)"

text \<open>
  A runtime the scheduler can pick up: pending, finished, or finished by an external event
  with its edges still to be computed, in the failure case with the message of the event.
\<close>

definition resumable :: "node_runtime \<Rightarrow> bool" where
  "resumable rt \<longleftrightarrow> State rt = NodePending \<or> State rt = NodeSuccessPendingEdges \<or> isTerminal (State rt)
     \<or> (State rt = NodeFailedPendingEdges \<and> Error rt \<noteq> [])"

definition sched_but :: "name set \<Rightarrow> graph \<Rightarrow> name set \<Rightarrow> run_ctx \<Rightarrow> bool" where
  "sched_but J dag X c \<longleftrightarrow> ctx_ok dag c \<and> edges_closed dag c \<and> join_inv J dag c
     \<and> (\<forall>m rt. m \<notin> X \<and> Runtime c m = Some rt \<longrightarrow> resumable rt)"

abbreviation sched_beyond :: "name set \<Rightarrow> graph \<Rightarrow> run_ctx \<Rightarrow> bool" where
  "sched_beyond J dag \<equiv> sched_but J dag {}"

abbreviation sched :: "graph \<Rightarrow> run_ctx \<Rightarrow> bool" where
  "sched dag \<equiv> sched_beyond {} dag"

definition stays :: "run_ctx \<Rightarrow> run_ctx \<Rightarrow> bool" where
  "stays c c' \<longleftrightarrow> (\<forall>m s. nstate c m = Some s \<and> isTerminal s \<longrightarrow> nstate c' m = Some s)"

lemma stays_refl [simp, intro]: "stays c c"
  by (simp add: stays_def)

lemma stays_trans [trans]: "stays a b \<Longrightarrow> stays b c \<Longrightarrow> stays a c"
  by (simp add: stays_def)

lemma joined_stays: "joined J dag c n \<Longrightarrow> stays c c' \<Longrightarrow> joined J dag c' n"
  unfolding joined_def stays_def by (metis isTerminal_simps(1,3))

lemma depsMet_joined:
  assumes "depsMet c n dag"
  shows "joined J dag c n"
proof (cases "Parents dag n = []")
  case True
  then show ?thesis by (simp add: joined_def)
next
  case False
  have inact: "nstate c p = Some NodeSuccess \<or> nstate c p = Some NodeSkipped"
    if "estate c n dag p = EdgeStateInactive" for p
    using that by (auto simp: resolveEdgeState_def nstate_def isTerminal_def split: option.splits if_splits)
  have act: "nstate c p = Some NodeSuccess" if "estate c n dag p = EdgeStateActive" for p
    using resolveEdgeState_active_success [OF that] by (auto simp: nstate_def)
  from assms False inact act show ?thesis unfolding joined_def depsMet_iff by blast
qed

lemma stays_only_skips: "only_skips dag c c' \<Longrightarrow> stays c c'"
  unfolding stays_def by (metis isTerminal_simps(5) only_skips_nstate option.inject)

lemma sched_only_skips:
  assumes s: "sched_but J dag X c" and o: "only_skips dag c c'"
  shows "sched_but J dag X c'"
proof -
  from s have c: "ctx_ok dag c" "edges_closed dag c" "join_inv J dag c"
    "\<forall>m rt. m \<notin> X \<and> Runtime c m = Some rt \<longrightarrow> resumable rt" by (auto simp: sched_but_def)
  have "join_inv J dag c'"
    using c(3) only_skips_nstate [OF o] joined_stays [OF _ stays_only_skips [OF o]]
    unfolding join_inv_def by (metis node_state.distinct option.inject)
  moreover have "resumable rt" if "m \<notin> X" "Runtime c' m = Some rt" for m rt
    using that c(4) o unfolding only_skips_def resumable_def nstate_def
    by (metis (no_types, lifting) isTerminal_simps(3) option.map_sel option.sel option.simps(9))
  ultimately show ?thesis
    using ctx_ok_only_skips [OF c(1) o] edges_closed_only_skips [OF c(2) o] unfolding sched_but_def by blast
qed

lemma stays_ends_as:
  assumes "ends_as dag n st c c'" and "nstate c n = Some s" and "\<not> isTerminal s"
  shows "stays c c'"
  using ends_as_nstate [OF assms(1)] assms(2,3) by (auto simp: stays_def)

lemma sched_ends_as:
  assumes s: "sched_but J dag {n} c" and e: "ends_as dag n st c c'" and n: "nstate c n = Some s" "\<not> isTerminal s"
    and st: "isTerminal st" "st = NodeSuccess \<Longrightarrow> joined J dag c n"
  shows "sched_beyond J dag c' \<and> stays c c' \<and> nstate c' n = Some st"
proof -
  from s have c: "ctx_ok dag c" "edges_closed dag c" "join_inv J dag c"
    "\<forall>m rt. m \<noteq> n \<and> Runtime c m = Some rt \<longrightarrow> resumable rt" by (auto simp: sched_but_def)
  have stay: "stays c c'" using e n by (rule stays_ends_as)
  have ns: "nstate c' = (nstate c)(n \<mapsto> st)" using e by (rule ends_as_nstate)
  have "join_inv J dag c'"
  proof -
    have "joined J dag c' m" if "nstate c' m = Some NodeSuccess \<or> nstate c' m = Some NodeSuccessPendingEdges" for m
    proof (rule joined_stays [OF _ stay])
      show "joined J dag c m"
        using that st c(3) by (cases "m = n") (auto simp: ns join_inv_def)
    qed
    then show ?thesis by (simp add: join_inv_def)
  qed
  moreover have "resumable rt" if "Runtime c' m = Some rt" for m rt
  proof (cases "m = n")
    case True
    with ns that st(1) show ?thesis by (auto simp: resumable_def nstate_def fun_eq_iff split: if_splits)
  next
    case False
    with e that c(4) show ?thesis by (auto simp: ends_as_def)
  qed
  moreover have "ctx_ok dag c'" using c(1) e by (rule ctx_ok_ends_as) (use n in \<open>auto simp: nstate_def\<close>)
  ultimately show ?thesis
    using edges_closed_ends_as [OF c(2) e] stay ns by (simp add: sched_but_def)
qed

lemma ctx_ok_nstate_arrow:
  assumes "ctx_ok dag c" and "nstate c n = Some s"
  shows "\<not> has_arrow n"
proof -
  from assms(2) have "n \<in> dom (Runtime c)" by (auto simp: nstate_def)
  then show ?thesis using ctx_ok_arrow [OF assms(1)] ctx_ok_runtime [OF assms(1)] by simp
qed

text \<open>
  While node \<open>n\<close> is on its way, the rest of the context stays schedulable: the flags that
  \<open>n\<close> resets are its own, since the arrow-free names make the edge keys unambiguous.
\<close>

lemma sched_while_running:
  assumes s: "sched_but J dag X c" and X: "X \<subseteq> {n}" and n: "nstate c n = Some s0" "s0 = NodePending \<or> s0 = NodeReady"
    and fr: "\<forall>m. m \<noteq> n \<longrightarrow> Runtime c' m = Runtime c m" "WfNodes c' = WfNodes c" "WfEdges c' = WfEdges c"
    and fl: "\<forall>k. ActivatedEdges c' k \<noteq> ActivatedEdges c k
          \<longrightarrow> (\<exists>ed\<in>set (WfEdges c). From ed = n \<and> k = edge_key n (To ed))"
    and n': "nstate c' n = Some s1" "\<not> isTerminal s1" "s1 \<noteq> NodeSuccessPendingEdges"
  shows "sched_but J dag {n} c' \<and> stays c c'"
proof -
  from s have c: "ctx_ok dag c" "edges_closed dag c" "join_inv J dag c"
    "\<forall>m rt. m \<notin> X \<and> Runtime c m = Some rt \<longrightarrow> resumable rt" by (auto simp: sched_but_def)
  have ns: "nstate c' m = nstate c m" if "m \<noteq> n" for m using fr(1) that by (simp add: nstate_def)
  have stay: "stays c c'" unfolding stays_def
  proof (intro allI impI)
    fix m s assume m: "nstate c m = Some s \<and> isTerminal s"
    with n have "m \<noteq> n" by auto
    with m ns show "nstate c' m = Some s" by simp
  qed
  have dom: "dom (Runtime c') = dom (Runtime c)"
  proof -
    have "nstate c' m = None \<longleftrightarrow> nstate c m = None" for m
      using ns [of m] n n' by (cases "m = n") simp_all
    then show ?thesis by (auto simp: dom_def)
  qed
  have ok: "ctx_ok dag c'" using c(1) dom fr(2,3) by (rule ctx_ok_cong)
  have "edges_closed dag c'" unfolding edges_closed_def
  proof (intro allI impI)
    fix m s assume m: "nstate c' m = Some s \<and> isTerminal s"
    with n' have neq: "m \<noteq> n" by auto
    with m ns c(2) have cl: "node_closed dag m c" by (auto simp: edges_closed_def)
    have names: "\<not> has_arrow m" "\<not> has_arrow n"
      using ctx_ok_nstate_arrow [OF c(1)] m n(1) ns [OF neq] by auto
    have "ActivatedEdges c' (edge_key m t) = ActivatedEdges c (edge_key m t)" for t
      using fl neq names edge_key_eq_iff by metis
    with cl fr(1) neq show "node_closed dag m c'" by (simp add: node_closed_def)
  qed
  moreover have "join_inv J dag c'" unfolding join_inv_def
  proof (intro allI impI)
    fix m assume m: "nstate c' m = Some NodeSuccess \<or> nstate c' m = Some NodeSuccessPendingEdges"
    with n' have "m \<noteq> n" by auto
    with m ns c(3) have "joined J dag c m" by (auto simp: join_inv_def)
    then show "joined J dag c' m" using stay by (rule joined_stays)
  qed
  moreover have "resumable rt" if "m \<noteq> n" "Runtime c' m = Some rt" for m rt
    using that fr(1) c(4) X by auto
  ultimately show ?thesis using ok stay unfolding sched_but_def by blast
qed

text \<open>How a run can end early at node \<open>n\<close>.\<close>

definition stopped_at :: "env \<Rightarrow> graph \<Rightarrow> name \<Rightarrow> run_result \<Rightarrow> run_ctx \<Rightarrow> bool" where
  "stopped_at e dag n r c \<longleftrightarrow>
     (rr_Status r = RunSuspended \<and> SuspendNode r = n
        \<and> (\<exists>s\<in>{NodeRunning, NodeRetrying, NodeAwaiting}. nstate c n = Some s))
   \<or> (rr_Status r = RunFailed
        \<and> (\<exists>s\<in>{NodeRunning, NodeRetrying, NodeSuccessPendingEdges}. nstate c n = Some s)
        \<and> (\<exists>ed\<in>set (Edges dag n). \<exists>m. edge_decision e c n ed = Inl m))"

definition turn_ok :: "name set \<Rightarrow> env \<Rightarrow> graph \<Rightarrow> name \<Rightarrow> run_ctx \<Rightarrow> turn \<times> run_ctx \<Rightarrow> bool" where
  "turn_ok J e dag n c tc \<longleftrightarrow> stays c (snd tc) \<and>
     (case fst tc of
        Stop r \<Rightarrow> stopped_at e dag n r (snd tc)
      | Go p \<Rightarrow> sched_beyond J dag (snd tc) \<and> (\<exists>s. nstate (snd tc) n = Some s \<and> isTerminal s))"

lemma turn_ok_stays: "stays c0 c \<Longrightarrow> turn_ok J e dag n c tc \<Longrightarrow> turn_ok J e dag n c0 tc"
  by (auto simp: turn_ok_def intro: stays_trans)

lemma tryRecordNodeCost_cases:
  "tryRecordNodeCost e nd c = c \<or>
   (\<exists>rt us facts. Runtime c (n_Name nd) = Some rt \<and> tryRecordNodeCost e nd c = write_cost_facts e nd rt us facts c)"
proof (cases "Runtime c (n_Name nd)")
  case None
  then show ?thesis by (simp add: tryRecordNodeCost_def)
next
  case (Some rt)
  have step: "(case r of Inl m \<Rightarrow> c | Inr facts \<Rightarrow> if facts = [] then c else f facts) = c
      \<or> (\<exists>facts. (case r of Inl m \<Rightarrow> c | Inr facts \<Rightarrow> if facts = [] then c else f facts) = f facts)"
    for r :: "go_error + gval list" and f by (cases r) auto
  show ?thesis
  proof (cases "mlen (Output rt) = 0 \<or> already_recorded e rt")
    case True
    with Some show ?thesis unfolding tryRecordNodeCost_def by simp
  next
    case False
    show ?thesis
    proof (cases "usage_of e nd (ResolvedInput rt) (Output rt)")
      case (Inl m)
      with Some False show ?thesis unfolding tryRecordNodeCost_def by simp
    next
      case (Inr us)
      define us1 where "us1 = (if us = [] \<and> Checkpoint rt \<noteq> None
         then (case gget (Checkpoint rt) ''usage_facts'' of None \<Rightarrow> [] | Some v \<Rightarrow> toUsageFacts v) else us)"
      have eq: "tryRecordNodeCost e nd c = (case cost_record e nd rt us1 of
            Inl m \<Rightarrow> c | Inr facts \<Rightarrow> if facts = [] then c else write_cost_facts e nd rt us1 facts c)"
        unfolding tryRecordNodeCost_def Some option.case if_not_P [OF False] Inr sum.case Let_def us1_def ..
      show ?thesis unfolding eq using step [where r = "cost_record e nd rt us1" and f = "\<lambda>facts. write_cost_facts e nd rt us1 facts c"] Some by blast
    qed
  qed
qed

lemma tryRecordNodeCost_view:
  "nstate (tryRecordNodeCost e nd c) = nstate c"
  "ActivatedEdges (tryRecordNodeCost e nd c) = ActivatedEdges c"
  "WfNodes (tryRecordNodeCost e nd c) = WfNodes c"
  "WfEdges (tryRecordNodeCost e nd c) = WfEdges c"
  "map_option rt_ActivatedEdges (Runtime (tryRecordNodeCost e nd c) m) = map_option rt_ActivatedEdges (Runtime c m)"
  "map_option Error (Runtime (tryRecordNodeCost e nd c) m) = map_option Error (Runtime c m)"
proof -
  define c' where "c' = tryRecordNodeCost e nd c"
  have "\<exists>f. c' = c \<or> (Runtime c' = (Runtime c)(n_Name nd := map_option (\<lambda>rt. rt\<lparr>Checkpoint := f\<rparr>) (Runtime c (n_Name nd)))
      \<and> ActivatedEdges c' = ActivatedEdges c \<and> WfNodes c' = WfNodes c \<and> WfEdges c' = WfEdges c)"
    using tryRecordNodeCost_cases [of e nd c]
    by (auto simp: c'_def write_cost_facts_def Let_def nodeRepo_Update_def set_runtime_def publish_def
        split: option.splits)
  then show "nstate (tryRecordNodeCost e nd c) = nstate c"
    "ActivatedEdges (tryRecordNodeCost e nd c) = ActivatedEdges c"
    "WfNodes (tryRecordNodeCost e nd c) = WfNodes c"
    "WfEdges (tryRecordNodeCost e nd c) = WfEdges c"
    "map_option rt_ActivatedEdges (Runtime (tryRecordNodeCost e nd c) m) = map_option rt_ActivatedEdges (Runtime c m)"
    "map_option Error (Runtime (tryRecordNodeCost e nd c) m) = map_option Error (Runtime c m)"
    unfolding c'_def [symmetric]
    by (auto simp: nstate_def fun_eq_iff option.map_comp comp_def)
qed

lemma sched_tryRecordNodeCost:
  assumes "sched_beyond J dag c"
  shows "sched_beyond J dag (tryRecordNodeCost e nd c)"
proof -
  let ?c = "tryRecordNodeCost e nd c"
  note v = tryRecordNodeCost_view [of e nd c]
  have dom: "dom (Runtime ?c) = dom (Runtime c)" using v(1) dom_nstate by metis
  from assms have c: "ctx_ok dag c" "edges_closed dag c" "join_inv J dag c"
    "\<And>m rt. Runtime c m = Some rt \<Longrightarrow> resumable rt" by (auto simp: sched_but_def)
  have "edges_closed dag ?c"
    unfolding edges_closed_def node_closed_def v(1,2)
  proof (intro allI impI)
    fix n s assume "nstate c n = Some s \<and> isTerminal s"
    with c(2) obtain rt where rt: "Runtime c n = Some rt" and
      cl: "\<forall>ed\<in>set (Edges dag n). ActivatedEdges c (edge_key n (To ed)) \<noteq> None \<and> rt_ActivatedEdges rt (edge_key n (To ed)) \<noteq> None"
      by (auto simp: edges_closed_def node_closed_def)
    from v(5) [of n] rt obtain rt' where "Runtime ?c n = Some rt'" "rt_ActivatedEdges rt' = rt_ActivatedEdges rt"
      by auto
    with cl show "\<exists>rt. Runtime ?c n = Some rt \<and> (\<forall>ed\<in>set (Edges dag n).
        ActivatedEdges c (edge_key n (To ed)) \<noteq> None \<and> rt_ActivatedEdges rt (edge_key n (To ed)) \<noteq> None)" by auto
  qed
  moreover have "join_inv J dag ?c" using c(3) by (simp add: join_inv_def joined_def v(1))
  moreover have "resumable rt" if rt: "Runtime ?c m = Some rt" for m rt
  proof -
    from rt v(6) [of m] obtain rt0 where r0: "Runtime c m = Some rt0" "Error rt = Error rt0"
      by (cases "Runtime c m") auto
    moreover have "State rt = State rt0" using fun_cong [OF v(1), of m] rt r0 by (simp add: nstate_def)
    ultimately show ?thesis using c(4) by (simp add: resumable_def)
  qed
  ultimately show ?thesis
    using ctx_ok_cong [OF c(1) dom v(3,4)] unfolding sched_but_def by blast
qed

lemma finalize_turn_success:
  assumes s: "sched_but J dag {n} c" and n: "nstate c n = Some s1" "s1 \<in> {NodeRunning, NodeRetrying, NodeSuccessPendingEdges}"
    and j: "joined J dag c n" and nd: "n_Name nd = n"
  shows "\<exists>tc. bind_exec (finalizeNode e n out None dag c) (\<lambda>x. Ret (finish_and_record e nd x)) = Ret tc
     \<and> turn_ok J e dag n c tc"
proof -
  have al: "isAllowed s1 NodeSuccess" "\<not> isTerminal s1" using n(2) by auto
  from s have ok: "ctx_ok dag c" by (simp add: sched_but_def)
  show ?thesis
  proof (cases "\<forall>ed\<in>set (Edges dag n). \<exists>b. edge_decision e c n ed = Inr b")
    case True
    with finalizeNode_success [OF ok n(1) al(1), of e out] obtain c' where
      c': "finalizeNode e n out None dag c = Ret (None, c')" "ends_as dag n NodeSuccess c c'" by auto
    from sched_ends_as [OF s c'(2) n(1) al(2)] j have
      p: "sched_beyond J dag c'" "stays c c'" "nstate c' n = Some NodeSuccess" by auto
    have "stays c (tryRecordNodeCost e nd c')" using p(2) by (simp add: stays_def tryRecordNodeCost_view)
    with c'(1) p sched_tryRecordNodeCost [OF p(1)] show ?thesis
      by (simp add: finish_and_record_def turn_ok_def tryRecordNodeCost_view)
  next
    case False
    with finalizeNode_success [OF ok n(1) al(1), of e out] obtain msg m where
      c': "finalizeNode e n out None dag c = Ret (Some msg, c\<lparr>ActivatedEdges := m\<rparr>)" by auto
    from False obtain ed x where ed: "ed \<in> set (Edges dag n)" "edge_decision e c n ed = Inl x"
      by (metis sum.exhaust)
    have "stopped_at e dag n (run_failed msg) (c\<lparr>ActivatedEdges := m\<rparr>)"
      using n ed by (auto simp: stopped_at_def run_failed_def)
    moreover have "stays c (c\<lparr>ActivatedEdges := m\<rparr>)" by (simp add: stays_def)
    ultimately show ?thesis using c' by (simp add: finish_and_record_def turn_ok_def)
  qed
qed

lemma or_fail_turn:
  assumes "fin = Ret (None, c4)" and "sched_beyond J dag c4" and "stays c c4" and "nstate c4 n = Some st" and "isTerminal st"
  shows "\<exists>tc. bind_exec fin (\<lambda>x. Ret (or_fail x)) = Ret tc \<and> turn_ok J e dag n c tc"
  using assms by (simp add: or_fail_def turn_ok_def)

lemma ended_then_skips:
  assumes s: "sched_but J dag {n} c" and n: "nstate c n = Some s1" "\<not> isTerminal s1"
    and e: "ends_as dag n st c c3" "only_skips dag c3 c4" and st: "isTerminal st" "st \<noteq> NodeSuccess"
  shows "sched_beyond J dag c4 \<and> stays c c4 \<and> nstate c4 n = Some st"
proof -
  from sched_ends_as [OF s e(1) n st(1)] st(2) have
    p: "sched_beyond J dag c3" "stays c c3" "nstate c3 n = Some st" by auto
  from stays_only_skips [OF e(2)] p(3) st(1) have "nstate c4 n = Some st" by (auto simp: stays_def)
  with sched_only_skips [OF p(1) e(2)] stays_trans [OF p(2) stays_only_skips [OF e(2)]] show ?thesis by blast
qed

lemma finalize_turn_failure:
  assumes s: "sched_but J dag {n} c" and n: "nstate c n = Some s1" "isAllowed s1 NodeFailed"
  shows "\<exists>tc. bind_exec (finalizeNode e n None (Some msg) dag c) (\<lambda>x. Ret (or_fail x)) = Ret tc
     \<and> turn_ok J e dag n c tc"
proof -
  have ok: "ctx_ok dag c" and nt: "\<not> isTerminal s1" using s n(2) isAllowed_terminal by (auto simp: sched_but_def)
  from finalizeNode_failure [OF ok n, of e None msg] obtain c3 c4 where
    f: "finalizeNode e n None (Some msg) dag c = Ret (None, c4)" "ends_as dag n NodeFailed c c3" "only_skips dag c3 c4"
    by blast
  from ended_then_skips [OF s n(1) nt f(2,3)] show ?thesis by (intro or_fail_turn [OF f(1)]) auto
qed

lemma finalize_turn_optional:
  assumes s: "sched_but J dag {n} c" and n: "nstate c n = Some s1" "isAllowed s1 NodeSkipped"
  shows "\<exists>tc. bind_exec (finalizeOptionalFailedNode e n msg dag c) (\<lambda>x. Ret (or_fail x)) = Ret tc
     \<and> turn_ok J e dag n c tc"
proof -
  have ok: "ctx_ok dag c" and nt: "\<not> isTerminal s1" using s n(2) isAllowed_terminal by (auto simp: sched_but_def)
  from finalizeOptionalFailedNode_ok [OF ok n, of e msg] obtain c3 c4 where
    f: "finalizeOptionalFailedNode e n msg dag c = Ret (None, c4)" "ends_as dag n NodeSkipped c c3" "only_skips dag c3 c4"
    by blast
  from ended_then_skips [OF s n(1) nt f(2,3)] show ?thesis by (intro or_fail_turn [OF f(1)]) auto
qed

lemma suspend_turn:
  assumes "nstate c n = Some s1" and "s1 \<in> {NodeRunning, NodeRetrying, NodeAwaiting}"
  shows "turn_ok J e dag n c (suspend_task e n sr c)"
proof -
  obtain x c1 where t: "transitionTaskStatus e TaskSuspended c = (x, c1)" by force
  from keeps_transitionTaskStatus [OF t] have "nstate c1 = nstate c" by (simp add: keeps_def nstate_def fun_eq_iff)
  moreover have "nstate (publish ev c1) = nstate c1" for ev by (simp add: nstate_def publish_def fun_eq_iff)
  ultimately show ?thesis
    using assms t by (auto simp: suspend_task_def turn_ok_def stopped_at_def stays_def Let_def)
qed

locale node_executor =
  fixes exec :: "env \<Rightarrow> node \<Rightarrow> graph \<Rightarrow> run_ctx \<Rightarrow> (exec_result \<times> run_ctx) exec"
  assumes exec_law: "nstate c (n_Name nd) = Some NodeReady \<Longrightarrow> runnable nd
    \<Longrightarrow> \<exists>rc. exec e nd dag c = Ret rc \<and> exec_contract (n_Name nd) c rc"
begin

text \<open>Whatever the executor does with a ready node, the turn ends properly.\<close>

lemma run_ready:
  assumes s: "sched_but J dag {n_Name nd} c" and n: "nstate c (n_Name nd) = Some NodeReady"
    and j: "joined J dag c (n_Name nd)" and run: "runnable nd"
  shows "\<exists>tc. bind_exec (exec e nd dag c) (end_execution e nd dag) = Ret tc \<and> turn_ok J e dag (n_Name nd) c tc"
proof -
  let ?n = "n_Name nd"
  from exec_law [OF n run, of e dag] obtain r c1 where
    x: "exec e nd dag c = Ret (r, c1)" and con: "exec_contract ?n c (r, c1)" by (metis prod.collapse)
  from con obtain s1 where s1: "nstate c1 ?n = Some s1" "s1 \<in> state_after r"
    by (auto simp: exec_contract_def)
  have nt: "\<not> isTerminal s1" "s1 \<noteq> NodeSuccessPendingEdges" using s1(2) by (cases r; auto)+
  have "sched_but J dag {?n} c1 \<and> stays c c1"
    using con by (intro sched_while_running [OF s _ n _ _ _ _ _ s1(1) nt]) (auto simp: exec_contract_def)
  then have sb: "sched_but J dag {?n} c1" and st: "stays c c1" by auto
  have "\<exists>tc. end_execution e nd dag (r, c1) = Ret tc \<and> turn_ok J e dag ?n c1 tc"
  proof (cases r)
    case ExecOk
    with s1(2) have "s1 \<in> {NodeRunning, NodeRetrying, NodeSuccessPendingEdges}" by auto
    from finalize_turn_success [OF sb s1(1) this joined_stays [OF j st] refl] ExecOk show ?thesis
      by (simp add: end_execution_def)
  next
    case (ExecErr m)
    with s1(2) have "isAllowed s1 NodeFailed" "isAllowed s1 NodeSkipped" by auto
    with finalize_turn_failure [OF sb s1(1)] finalize_turn_optional [OF sb s1(1)] ExecErr show ?thesis
      by (simp add: end_execution_def)
  next
    case (ExecSuspend sr)
    with s1 suspend_turn [OF s1(1)] show ?thesis by (simp add: end_execution_def)
  qed
  with x st show ?thesis by (auto intro: turn_ok_stays)
qed

end

interpretation engine_executor: node_executor executeNode
  by unfold_locales (rule executeNode_contract)

subsection \<open>One pass is enough\<close>

definition wf_compiled :: "compiled_workflow \<Rightarrow> bool" where
  "wf_compiled w \<longleftrightarrow> topo_order (cw_graph w) (cw_order w)
     \<and> (\<forall>n\<in>set (cw_order w). \<exists>nd. cw_nodes w n = Some nd \<and> n_Name nd = n \<and> runnable nd)"

definition ended :: "run_ctx \<Rightarrow> name \<Rightarrow> bool" where
  "ended c n \<longleftrightarrow> (\<exists>s. nstate c n = Some s \<and> isTerminal s)"

lemma ended_stays: "ended c n \<Longrightarrow> stays c c' \<Longrightarrow> ended c' n"
  by (auto simp: ended_def stays_def)

lemma sched_keeps:
  assumes "sched_but J dag X c" and k: "keeps c c'"
  shows "sched_but J dag X c'"
proof -
  have ns: "nstate c' = nstate c" using k by (simp add: keeps_def nstate_def fun_eq_iff)
  have "node_closed dag n c' = node_closed dag n c" for n using k by (simp add: keeps_def node_closed_def)
  moreover have "joined J dag c' n = joined J dag c n" for n by (simp add: joined_def ns)
  moreover have "ctx_ok dag c' = ctx_ok dag c" using k by (simp add: keeps_def ctx_ok_def)
  ultimately show ?thesis
    using assms(1) k unfolding sched_but_def edges_closed_def join_inv_def ns by (simp add: keeps_def)
qed

lemma sched_but_mono: "sched_but J dag X c \<Longrightarrow> X \<subseteq> Y \<Longrightarrow> sched_but J dag Y c"
  by (auto simp: sched_but_def)

lemma dag_turn_pending:
  assumes s: "sched_beyond J (cw_graph w) c" and nd: "cw_nodes w n = Some nd" "n_Name nd = n" "runnable nd"
    and rt: "Runtime c n = Some rt" "State rt = NodePending"
    and par: "\<forall>p\<in>set (Parents (cw_graph w) n). ended c p"
  shows "\<exists>tc. dag_turn e w n c = Ret tc \<and> turn_ok J e (cw_graph w) n c tc"
proof -
  let ?g = "cw_graph w"
  from s have ok: "ctx_ok ?g c" "edges_closed ?g c" by (auto simp: sched_but_def)
  have pend: "n \<in> pend c" "nstate c n = Some NodePending" using rt by (auto simp: pend_iff nstate_def)
  have dec: "\<forall>p\<in>set (Parents ?g n). estate c n ?g p \<noteq> EdgeStateUnknown"
    using par closed_parent_decided [OF ok] by (auto simp: ended_def)
  show ?thesis
  proof (cases "shouldSkipNode c n ?g")
    case True
    from kind_skipper.skip_one [OF pend(1), of e ?g] obtain c' where
      c': "skipNodeWithCorrectKind e n ?g c = Ret (None, c')" "only_skips ?g c c'" "nstate c' n = Some NodeSkipped"
      by blast
    have "\<exists>tc. bind_exec (skipNodeWithCorrectKind e n ?g c) (\<lambda>x. Ret (or_fail x)) = Ret tc \<and> turn_ok J e ?g n c tc"
      by (rule or_fail_turn [OF c'(1) sched_only_skips [OF s c'(2)] stays_only_skips [OF c'(2)] c'(3)]) simp
    with True nd rt show ?thesis by (simp add: dag_turn_def Let_def)
  next
    case False
    with join_decided [OF dec] have dm: "depsMet c n ?g" by simp
    from moves_transitionLocked [OF pend(2), of NodeReady e None None] obtain c1 where
      c1: "transitionLocked e n NodeReady None None c = Ret c1" "moves n NodeReady c c1" by auto
    have "sched_but J ?g {n} c1 \<and> stays c c1"
      using c1(2) by (intro sched_while_running [OF s _ pend(2)]) (auto simp: moves_def)
    then have sb: "sched_but J ?g {n} c1" and st: "stays c c1" by auto
    from engine_executor.run_ready [of J ?g nd c1 e] sb nd(2,3) moves_nstate [OF c1(2)]
      joined_stays [OF depsMet_joined [OF dm] st]
    obtain tc where "bind_exec (executeNode e nd ?g c1) (end_execution e nd ?g) = Ret tc" "turn_ok J e ?g n c1 tc"
      by auto
    with False dm nd(1,2) rt c1(1) turn_ok_stays [OF st] show ?thesis
      by (simp add: dag_turn_def Let_def)
  qed
qed

lemma dag_turn_ok:
  assumes s: "sched_beyond J (cw_graph w) c" and w: "wf_compiled w" and n: "n \<in> set (cw_order w)"
    and par: "\<forall>p\<in>set (Parents (cw_graph w) n). ended c p"
  shows "\<exists>tc. dag_turn e w n c = Ret tc \<and> turn_ok J e (cw_graph w) n c tc"
proof -
  let ?g = "cw_graph w"
  from w n obtain nd where nd: "cw_nodes w n = Some nd" "n_Name nd = n" "runnable nd"
    by (auto simp: wf_compiled_def)
  from w n have "n \<in> dom (gNodes ?g)" by (simp add: wf_compiled_def topo_order_def enumerates_def)
  with s obtain rt where rt: "Runtime c n = Some rt" "resumable rt"
    unfolding sched_but_def ctx_ok_def by (metis domD empty_iff)
  have sb: "sched_but J ?g {n} c" using s by (rule sched_but_mono) simp
  have ns: "nstate c n = Some (State rt)" using rt by (simp add: nstate_def)
  consider "State rt = NodePending" | "State rt = NodeSuccessPendingEdges" | "isTerminal (State rt)"
    | "State rt = NodeFailedPendingEdges" "Error rt \<noteq> []"
    using rt(2) unfolding resumable_def by blast
  then show ?thesis
  proof cases
    case 1
    from dag_turn_pending [OF s nd rt(1) 1 par] show ?thesis .
  next
    case 2
    with s ns have "joined J ?g c n" by (auto simp: sched_but_def join_inv_def)
    from finalize_turn_success [OF sb ns _ this nd(2), of e "Output rt"] 2 nd rt show ?thesis
      by (simp add: dag_turn_def Let_def)
  next
    case 3
    then have "dag_turn e w n c = Ret (Go False, c)"
      using nd rt by (auto simp: dag_turn_def Let_def isTerminal_def)
    with 3 s ns show ?thesis by (auto simp: turn_ok_def)
  next
    case 4
    from finalize_turn_failure [OF sb ns, of e "Error rt"] 4 nd rt show ?thesis
      by (simp add: dag_turn_def Let_def)
  qed
qed

definition pass_ok :: "name set \<Rightarrow> env \<Rightarrow> graph \<Rightarrow> name set \<Rightarrow> run_ctx \<Rightarrow> turn \<times> run_ctx \<Rightarrow> bool" where
  "pass_ok J e dag N c tc \<longleftrightarrow> stays c (snd tc) \<and>
     (case fst tc of
        Stop r \<Rightarrow> \<exists>n\<in>N. stopped_at e dag n r (snd tc)
      | Go p \<Rightarrow> sched_beyond J dag (snd tc) \<and> (\<forall>n\<in>N. ended (snd tc) n))"

lemma dag_pass_ok:
  assumes "wf_compiled w" and "sched_beyond J (cw_graph w) c" and "\<forall>p\<in>P. ended c p"
    and "topo_from (cw_graph w) P ns" and "set ns \<subseteq> set (cw_order w)"
  shows "\<exists>tc. dag_pass e w ns pr c = Ret tc \<and> pass_ok J e (cw_graph w) (set ns) c tc"
  using assms(2-)
proof (induction ns arbitrary: P pr c)
  case Nil
  then show ?case by (simp add: pass_ok_def)
next
  case (Cons n ns)
  let ?g = "cw_graph w"
  from Cons.prems have par: "\<forall>p\<in>set (Parents ?g n). ended c p" by auto
  from dag_turn_ok [OF Cons.prems(1) assms(1) _ par, of e] Cons.prems(4) obtain t c1 where
    t: "dag_turn e w n c = Ret (t, c1)" "turn_ok J e ?g n c (t, c1)" by auto
  show ?case
  proof (cases t)
    case (Stop r)
    with t show ?thesis by (auto simp: turn_ok_def pass_ok_def)
  next
    case (Go p)
    with t(2) have g: "stays c c1" "sched_beyond J ?g c1" "ended c1 n" by (auto simp: turn_ok_def ended_def)
    have "\<forall>q\<in>insert n P. ended c1 q" using g(1,3) Cons.prems(2) ended_stays by blast
    from Cons.IH [OF g(2) this, of "pr \<or> p"] Cons.prems(3,4) obtain tc where
      IH: "dag_pass e w ns (pr \<or> p) c1 = Ret tc" "pass_ok J e ?g (set ns) c1 tc" by auto
    have "ended (snd tc) n" using g(3) IH(2) by (auto simp: pass_ok_def intro: ended_stays)
    with IH(2) g(1) have "pass_ok J e ?g (set (n # ns)) c tc"
      by (auto simp: pass_ok_def intro: stays_trans split: turn.splits)
    with t(1) Go IH(1) show ?thesis by simp
  qed
qed

lemma finish_run_view:
  assumes "finish_run e c = (r, c')"
  shows "nstate c' = nstate c \<and> Runtime c' = Runtime c \<and> ActivatedEdges c' = ActivatedEdges c"
proof -
  have "nstate (snd (GetFinal e c)) = nstate c \<and> Runtime (snd (GetFinal e c)) = Runtime c
      \<and> ActivatedEdges (snd (GetFinal e c)) = ActivatedEdges c"
    by (simp add: GetFinal_def Let_def nstate_def fun_eq_iff split: option.split sum.split)
  with assms show ?thesis
    by (auto simp: finish_run_def finishTask_def nstate_def fun_eq_iff split: option.splits prod.splits sum.splits)
qed

lemma ended_allTerminal:
  assumes "\<forall>n\<in>dom (Runtime c). ended c n"
  shows "allTerminal e c"
  using assms unfolding allTerminal_def runtime_list_def list_all_iff List.map_filter_def ended_def nstate_def
  by (auto simp: dom_def)

text \<open>The three ways in which a run ends; the deadlock branch is not among them.\<close>

lemma runDAG_cases:
  assumes w: "wf_compiled w" and s: "sched_beyond J (cw_graph w) c"
  shows "(\<exists>x c'. transitionTaskStatus e TaskRunning c = (Some x, c')
            \<and> runDAG e w c = Ret (run_failed (ts_message x), c'))
    \<or> (\<exists>n\<in>set (cw_order w). \<exists>r c'. runDAG e w c = Ret (r, c') \<and> stays c c' \<and> stopped_at e (cw_graph w) n r c')
    \<or> (\<exists>c1. runDAG e w c = Ret (finish_run e c1) \<and> stays c c1 \<and> sched_beyond J (cw_graph w) c1
         \<and> (\<forall>n\<in>dom (Runtime c1). ended c1 n))"
proof -
  let ?g = "cw_graph w"
  obtain x c0 where t: "transitionTaskStatus e TaskRunning c = (x, c0)" by force
  show ?thesis
  proof (cases x)
    case (Some y)
    with t show ?thesis by (auto simp: runDAG_def)
  next
    case None
    from keeps_transitionTaskStatus [OF t] have k: "keeps c c0" .
    then have ns: "nstate c0 = nstate c" by (simp add: keeps_def nstate_def fun_eq_iff)
    have s0: "sched_beyond J ?g c0" using s k by (rule sched_keeps)
    have st0: "stays c c0" using ns by (simp add: stays_def)
    from w have topo: "topo_from ?g {} (cw_order w)" "set (cw_order w) = dom (gNodes ?g)"
      by (auto simp: wf_compiled_def topo_order_def enumerates_def)
    from dag_pass_ok [OF w s0 _ topo(1), of e False] obtain tt c1 where
      p: "dag_pass e w (cw_order w) False c0 = Ret (tt, c1)" "pass_ok J e ?g (set (cw_order w)) c0 (tt, c1)" by auto
    have run: "runDAG e w c = dag_loop (Suc (length (cw_order w))) e w c0" using t None by (simp add: runDAG_def)
    show ?thesis
    proof (cases tt)
      case (Stop r)
      with p run st0 show ?thesis by (auto simp: pass_ok_def intro: stays_trans)
    next
      case (Go pr)
      with p(2) have g: "stays c0 c1" "sched_beyond J ?g c1" "\<forall>n\<in>dom (gNodes ?g). ended c1 n"
        by (auto simp: pass_ok_def topo(2))
      then have d: "\<forall>n\<in>dom (Runtime c1). ended c1 n" by (simp add: sched_but_def ctx_ok_def)
      from ended_allTerminal [OF d] p(1) Go run have "runDAG e w c = Ret (finish_run e c1)" by simp
      with g(1,2) d stays_trans [OF st0] show ?thesis by blast
    qed
  qed
qed


lemma runDAG_returns:
  assumes "wf_compiled w" and "sched_beyond J (cw_graph w) c"
  shows "\<exists>rc. runDAG e w c = Ret rc"
  using runDAG_cases [OF assms, of e] by blast

subsection \<open>How often a step is tried\<close>

fun step_failed :: "step_result \<Rightarrow> bool" where
  "step_failed (StepErr m) = True"
| "step_failed _ = False"

fun exec_of :: "step_result \<Rightarrow> exec_result" where
  "exec_of StepOk = ExecOk"
| "exec_of (StepSuspend r) = ExecSuspend r"
| "exec_of (StepErr m) = ExecErr m"

text \<open>The first attempt that does not fail decides, and if all fail the last one does.\<close>

definition retry_outcome :: "(nat \<Rightarrow> step_result) \<Rightarrow> nat \<Rightarrow> nat \<Rightarrow> exec_result" where
  "retry_outcome res a k =
     (case find (\<lambda>i. \<not> step_failed (res i)) [a..<Suc k] of Some i \<Rightarrow> exec_of (res i) | None \<Rightarrow> exec_of (res k))"

lemma retry_outcome_rec:
  "retry_outcome res a (a + Suc l) = (if step_failed (res a) then retry_outcome res (Suc a) (Suc a + l) else exec_of (res a))"
proof -
  have "[a..<Suc (a + Suc l)] = a # [Suc a..<Suc (Suc a + l)]" by (simp add: upt_rec)
  then show ?thesis by (simp add: retry_outcome_def)
qed

lemma attempt_result:
  assumes "\<And>c out. so_result (step_run e nd attempt c inp out) = res attempt"
    and "attempt_once e nd inp attempt lastErr out c = Ret (r, out', c')"
  shows "r = res attempt"
  using assms by (auto simp: attempt_once_def Let_def exec_simps split: if_splits)

lemma retry_from_outcome:
  assumes "\<And>a c out. so_result (step_run e nd a c inp out) = res a"
    and "nstate c (n_Name nd) = Some (if attempt \<le> 1 then NodeRunning else NodeRetrying)"
  shows "\<exists>out' c'. retry_from e nd inp left attempt lastErr out c = Ret (retry_outcome res attempt (attempt + left), out', c')"
  using assms(2)
proof (induction "left" arbitrary: attempt lastErr out c)
  case 0
  from moves_attempt_once [OF 0, of e inp lastErr out] obtain r out' c' where
    a: "attempt_once e nd inp attempt lastErr out c = Ret (r, out', c')" by blast
  have "r = res attempt" using attempt_result [of e nd attempt inp res, OF _ a] assms(1) by blast
  with a show ?case by (cases "res attempt") (simp_all add: retry_outcome_def)
next
  case (Suc left)
  from moves_attempt_once [OF Suc.prems, of e inp lastErr out] obtain r out' c' where
    a: "attempt_once e nd inp attempt lastErr out c = Ret (r, out', c')"
      "moves (n_Name nd) (if attempt = 0 then NodeRunning else NodeRetrying) c c'" by blast
  have r: "r = res attempt" using attempt_result [of e nd attempt inp res, OF _ a(1)] assms(1) by blast
  let ?c = "EmitNodeEvent (n_Name nd) ''failed'' 0 [] c'"
  have "moves (n_Name nd) (if attempt = 0 then NodeRunning else NodeRetrying) c ?c"
    using a(2) by (rule moves_keeps) simp
  then have "nstate ?c (n_Name nd) = Some (if Suc attempt \<le> 1 then NodeRunning else NodeRetrying)"
    using moves_nstate by fastforce
  from Suc.IH [OF this] a(1) r retry_outcome_rec [of res attempt "left"] show ?case
    by (cases "res attempt") auto
qed

subsection \<open>Properties\<close>

text \<open>
  A step of a running node is tried at most once more than its retry limit says: the outcome
  is that of the first attempt that does not fail, a suspension is never retried, and when
  all of them fail the node fails with the error of the last one. The loop never panics.
\<close>

lemma runNodeWithRetry_outcome:
  assumes "\<forall>a c out. so_result (step_run e nd a c inp out) = res a"
    and "nstate c (n_Name nd) = Some NodeRunning"
  shows "\<exists>out' c'. runNodeWithRetry e nd inp c = Ret (retry_outcome res 0 (MaxRetries nd), out', c')"
  using retry_from_outcome [of e nd inp res c 0 "MaxRetries nd" None "[]"] assms
  by (simp add: runNodeWithRetry_def)

lemma runNodeWithRetry_outcome_witness:
  "\<exists>out' c'. runNodeWithRetry
      ((sample_env True)\<lparr>step_run := \<lambda>_ a _ _ out. \<lparr>so_output = out, so_checkpoint = None,
          so_result = (if a < 2 then StepErr ''down'' else StepOk)\<rparr>\<rparr>)
      ((sample_cnode ''a'')\<lparr>MaxRetries := 3\<rparr>) [] (sample_ctx\<lparr>Runtime := [''a'' \<mapsto> sample_rt ''a'' NodeRunning]\<rparr>)
      = Ret (ExecOk, out', c')"
proof -
  let ?res = "\<lambda>a. if a < 2 then StepErr ''down'' else StepOk"
  let ?e = "(sample_env True)\<lparr>step_run := \<lambda>_ a _ _ out. \<lparr>so_output = out, so_checkpoint = None, so_result = ?res a\<rparr>\<rparr>"
  let ?c = "sample_ctx\<lparr>Runtime := [''a'' \<mapsto> sample_rt ''a'' NodeRunning]\<rparr>"
  have "nstate ?c (n_Name ((sample_cnode ''a'')\<lparr>MaxRetries := 3\<rparr>)) = Some NodeRunning"
    by (simp add: nstate_def sample_rt_def sample_cnode_def)
  moreover have "retry_outcome ?res 0 3 = ExecOk" by (simp add: retry_outcome_def upt_rec)
  ultimately show ?thesis
    using runNodeWithRetry_outcome [of ?e "(sample_cnode ''a'')\<lparr>MaxRetries := 3\<rparr>" "[]" ?res ?c] by simp
qed

end
