(* ===== verification/Flux_Recovery.thy ===== *)
theory Flux_Recovery
  imports Flux_Scheduler
begin

text \<open>
  Starting and restarting a task: \<^verbatim>\<open>newRunContext\<close>, \<^verbatim>\<open>loadOrInitRuntime\<close>, \<^verbatim>\<open>rebuildActivatedEdges\<close>
  and \<^verbatim>\<open>RunWithResult\<close>. A first run creates a pending row per node; a later run loads the
  rows, puts interrupted nodes back to pending and restores the edge flags of the others.
\<close>

subsection \<open>Loading rows\<close>

definition FindByTaskID :: "env \<Rightarrow> run_ctx \<Rightarrow> node_runtime list" where
  "FindByTaskID e c = sort_key Index (List.map_filter (dbNodes c) (range_rt e (dbNodes c)))"

definition reset_pending :: "node_runtime \<Rightarrow> node_runtime" where
  "reset_pending rt = rt\<lparr>State := NodePending, StartedAt := None, FinishedAt := None, Error := []\<rparr>"

definition write_row :: "env \<Rightarrow> node_runtime \<Rightarrow> run_ctx \<Rightarrow> go_error option \<times> run_ctx" where
  "write_row e rt c = nodeRepo_Update e rt (set_runtime (Name rt) rt c)"

text \<open>The output of a finished node goes back into the context, for expressions downstream.\<close>

definition restore_output ::
  "compiled_workflow \<Rightarrow> node_runtime \<Rightarrow> run_ctx \<Rightarrow> go_error option \<times> run_ctx" where
  "restore_output w rt c =
     (case (State rt = NodeSuccess \<or> State rt = NodeSuccessPendingEdges, Output rt) of
        (True, Some (kv # kvs)) \<Rightarrow>
          (case cw_nodes w (Name rt) of
             None \<Rightarrow> (Some (''workflow definition missing node '' @ Name rt), c)
           | Some nd \<Rightarrow>
              (case SetNodeOutput (Name rt) (kv # kvs) (OutputSchema nd) c of
                 (Some m, _, c1) \<Rightarrow> (Some (''restore node '' @ Name rt @ '' output failed: '' @ m), c1)
               | (None, _, c1) \<Rightarrow> (None, UpdateNodeStatus (Name rt) (node_state_str (State rt)) c1)))
      | _ \<Rightarrow> (None, c))"

definition rerun_unpersisted :: "compiled_workflow \<Rightarrow> node_runtime \<Rightarrow> bool" where
  "rerun_unpersisted w rt \<longleftrightarrow> State rt = NodeSuccess \<and> mlen (Output rt) = 0
     \<and> (case cw_nodes w (Name rt) of None \<Rightarrow> False | Some nd \<Rightarrow> \<not> shouldPersistOutput nd)"

definition finished_rt :: "int \<Rightarrow> node_runtime \<Rightarrow> node_runtime" where
  "finished_rt now rt = rt\<lparr>State := NodeSuccess,
     FinishedAt := (case FinishedAt rt of None \<Rightarrow> Some now | Some t \<Rightarrow> Some t)\<rparr>"

definition restore_running :: "env \<Rightarrow> compiled_workflow \<Rightarrow> node_runtime \<Rightarrow> run_ctx \<Rightarrow> go_error option \<times> run_ctx" where
  "restore_running e w rt c =
     (case write_row e (finished_rt (clock e (writes c)) rt) c of
        (Some m, c1) \<Rightarrow> (Some m, c1)
      | (None, c1) \<Rightarrow>
         (case cw_nodes w (Name rt) of
            None \<Rightarrow> (None, c1)
          | Some nd \<Rightarrow>
             (case SetNodeOutput (Name rt) (the (Output rt)) (OutputSchema nd) c1 of
                (None, _, c2) \<Rightarrow> (None, UpdateNodeStatus (Name rt) (node_state_str NodeSuccess) c2)
              | (Some m, _, c2) \<Rightarrow> (None, c2))))"

definition restore_node :: "env \<Rightarrow> compiled_workflow \<Rightarrow> node_runtime \<Rightarrow> run_ctx \<Rightarrow> go_error option \<times> run_ctx" where
  "restore_node e w rt c =
     (case restore_output w rt (set_runtime (Name rt) rt c) of
        (Some m, c1) \<Rightarrow> (Some m, c1)
      | (None, c1) \<Rightarrow>
         if rerun_unpersisted w rt then write_row e (reset_pending rt) c1
         else
           (case State rt of
              NodeRunning \<Rightarrow> if 0 < mlen (Output rt) then restore_running e w rt c1
                            else write_row e (reset_pending rt) c1
            | NodeRetrying \<Rightarrow> write_row e (reset_pending rt) c1
            | NodeReady \<Rightarrow> write_row e (reset_pending rt) c1
            | _ \<Rightarrow> (None, c1)))"

fun restore_rows :: "env \<Rightarrow> compiled_workflow \<Rightarrow> node_runtime list \<Rightarrow> run_ctx \<Rightarrow> go_error option \<times> run_ctx" where
  "restore_rows e w [] c = (None, c)"
| "restore_rows e w (rt # rts) c =
     (case restore_node e w rt c of
        (Some m, c1) \<Rightarrow> (Some m, c1)
      | (None, c1) \<Rightarrow> restore_rows e w rts c1)"

subsection \<open>Creating rows\<close>

definition new_runtime :: "name \<Rightarrow> nat \<Rightarrow> nat \<Rightarrow> rat \<Rightarrow> node_runtime" where
  "new_runtime n i biz wt =
     \<lparr>Name = n, State = NodePending, StartedAt = None, FinishedAt = None, InputHash = [],
      ResolvedInput = None, Output = None, Checkpoint = None, Error = [], Progress = 0, Weight = wt,
      Index = i, BizIndex = biz, rt_ActivatedEdges = Map.empty, OutputHash = [],
      ReusedFromTaskID = None, ReusedFromNode = None, IsInjected = False, IsDirty = False,
      DirtyReason = [], ReuseKind = ReuseNone, ExecutionReason = [], PlanAction = []\<rparr>"

definition node_weight :: "compiled_workflow \<Rightarrow> name \<Rightarrow> rat" where
  "node_weight w n = (case cw_nodes w n of None \<Rightarrow> 0 | Some nd \<Rightarrow> n_Weight nd)"

text \<open>
  The loop of the first run. The variable \<^verbatim>\<open>weight\<close> is declared before the loop, so a node
  without a weight of its own gets the last weight that was set.
\<close>

fun init_rows :: "env \<Rightarrow> compiled_workflow \<Rightarrow> name list \<Rightarrow> nat \<Rightarrow> nat \<Rightarrow> rat \<Rightarrow> run_ctx
    \<Rightarrow> go_error option \<times> run_ctx" where
  "init_rows e w [] i biz weight c = (None, c)"
| "init_rows e w (n # ns) i biz weight c =
     (let weight1 = (if 0 < node_weight w n then node_weight w n else weight);
          biz1 = (if IsSystemNode n then biz else Suc biz);
          rt = new_runtime n i biz1 weight1
      in case nodeRepo_Create e rt (set_runtime n rt c) of
           (Some m, c1) \<Rightarrow> (Some m, c1)
         | (None, c1) \<Rightarrow> init_rows e w ns (Suc i) biz1 weight1 c1)"

text \<open>The loop that adds the nodes a changed definition has gained.\<close>

fun backfill_rows :: "env \<Rightarrow> compiled_workflow \<Rightarrow> name list \<Rightarrow> nat \<Rightarrow> nat \<Rightarrow> run_ctx
    \<Rightarrow> go_error option \<times> run_ctx" where
  "backfill_rows e w [] i biz c = (None, c)"
| "backfill_rows e w (n # ns) i biz c =
     (let biz1 = (if IsSystemNode n then biz else Suc biz)
      in if Runtime c n \<noteq> None then backfill_rows e w ns (Suc i) biz1 c
         else
           (let wt = (if 0 < node_weight w n then node_weight w n else 1 / of_nat (length (cw_order w)));
                rt = new_runtime n i biz1 wt
            in case nodeRepo_Create e rt (set_runtime n rt c) of
                 (Some m, c1) \<Rightarrow> (Some m, c1)
               | (None, c1) \<Rightarrow> backfill_rows e w ns (Suc i) biz1 c1))"

definition loadOrInitRuntime :: "env \<Rightarrow> compiled_workflow \<Rightarrow> run_ctx \<Rightarrow> go_error option \<times> run_ctx" where
  "loadOrInitRuntime e w c =
     (let saved = FindByTaskID e c;
          r = (if saved \<noteq> [] then restore_rows e w saved c
               else init_rows e w (cw_order w) 0 0 (1 / of_nat (length (cw_order w))) c)
      in case r of
           (Some m, c1) \<Rightarrow> (Some m, c1)
         | (None, c1) \<Rightarrow> backfill_rows e w (cw_order w) 0 0 c1)"

subsection \<open>rebuildActivatedEdges\<close>

definition load_edges :: "node_runtime \<Rightarrow> (string \<rightharpoonup> bool) \<Rightarrow> (string \<rightharpoonup> bool)" where
  "load_edges rt m = (\<lambda>k. case rt_ActivatedEdges rt k of
      None \<Rightarrow> m k
    | Some v \<Rightarrow> if \<not> v \<and> \<not> isTerminal (State rt) then m k else Some v)"

definition rebuildActivatedEdges :: "env \<Rightarrow> run_ctx \<Rightarrow> run_ctx" where
  "rebuildActivatedEdges e c =
     c\<lparr>ActivatedEdges := fold load_edges (runtime_list e c) (ActivatedEdges c)\<rparr>"

subsection \<open>RunWithResult\<close>

definition newRunContext :: "workflow_def \<Rightarrow> run_ctx \<Rightarrow> run_ctx" where
  "newRunContext def c = c
     \<lparr>Input := (case InputJSON (Task c) of None \<Rightarrow> [] | Some m \<Rightarrow> m), OutNodes := Map.empty, Final := None,
      Runtime := Map.empty, ActivatedEdges := Map.empty, WfName := wf_Name def,
      WfNodes := map nd_Name (wf_Nodes def), WfEdges := wf_Edges def, WfOutput := wf_Output def, Depth := 0\<rparr>"

text \<open>
  \<^verbatim>\<open>RunWithResult\<close> after the workflow is built. The planning of a forked task is the
  argument \<open>plan\<close>.
\<close>

definition RunWithResult ::
  "env \<Rightarrow> (run_ctx \<Rightarrow> go_error option \<times> run_ctx) \<Rightarrow> workflow_def \<Rightarrow> compiled_workflow \<Rightarrow> run_ctx
    \<Rightarrow> (run_result \<times> run_ctx) exec" where
  "RunWithResult e plan def w c =
     (case loadOrInitRuntime e w (newRunContext def c) of
        (Some m, c1) \<Rightarrow> Ret (run_failed m, c1)
      | (None, c1) \<Rightarrow>
         (case (if ForkedFrom (Task c1) \<noteq> None then plan c1 else (None, c1)) of
            (Some m, c2) \<Rightarrow> Ret (run_failed m, c2)
          | (None, c2) \<Rightarrow> executeTask e w True (rebuildActivatedEdges e c2)))"

subsection \<open>What loading does to the scheduler's view\<close>

definition loads :: "run_ctx \<Rightarrow> run_ctx \<Rightarrow> bool" where
  "loads c c' \<longleftrightarrow> ActivatedEdges c' = ActivatedEdges c \<and> WfNodes c' = WfNodes c \<and> WfEdges c' = WfEdges c"

lemma loads_refl [simp, intro]: "loads c c"
  by (simp add: loads_def)

lemma loads_trans [trans]: "loads a b \<Longrightarrow> loads b c \<Longrightarrow> loads a c"
  by (simp add: loads_def)

lemma keeps_loads: "keeps a b \<Longrightarrow> loads a b \<and> Runtime b = Runtime a"
  by (simp add: loads_def keeps_def)

lemma nodeRepo_Create_keeps: "nodeRepo_Create e rt c = (r, c') \<Longrightarrow> keeps c c'"
  by (auto simp: nodeRepo_Create_def split: option.splits)

lemma set_runtime_loads: "loads c (set_runtime n rt c)"
  by (simp add: loads_def set_runtime_def)

text \<open>Adding rows: new nodes are pending, the nodes that were there are untouched.\<close>

definition adds_pending :: "name set \<Rightarrow> run_ctx \<Rightarrow> run_ctx \<Rightarrow> bool" where
  "adds_pending N c c' \<longleftrightarrow> loads c c' \<and> (\<forall>n\<in>N. Runtime c' n \<noteq> None)
     \<and> (\<forall>n. Runtime c' n \<noteq> Runtime c n \<longrightarrow> n \<in> N \<and> (\<exists>rt. Runtime c' n = Some rt \<and> State rt = NodePending))"

lemma create_adds_pending:
  assumes "nodeRepo_Create e rt (set_runtime n rt c) = (r, c1)" and "State rt = NodePending"
  shows "adds_pending {n} c c1"
  using keeps_loads [OF nodeRepo_Create_keeps [OF assms(1)]] assms(2)
  by (auto simp: adds_pending_def loads_def set_runtime_def)

lemma adds_pending_trans:
  assumes "adds_pending M a b" and "adds_pending N b c"
  shows "adds_pending (M \<union> N) a c"
proof -
  have "Runtime c n \<noteq> None" if "n \<in> M \<union> N" for n
    using assms that unfolding adds_pending_def by (metis Un_iff option.distinct(1))
  moreover have "n \<in> M \<union> N \<and> (\<exists>rt. Runtime c n = Some rt \<and> State rt = NodePending)"
    if "Runtime c n \<noteq> Runtime a n" for n
    using assms that unfolding adds_pending_def by (metis Un_iff)
  ultimately show ?thesis using assms loads_trans unfolding adds_pending_def by blast
qed

lemma init_rows_adds:
  "init_rows e w ns i biz wt c = (None, c') \<Longrightarrow> adds_pending (set ns) c c'"
proof (induction ns arbitrary: i biz wt c)
  case Nil
  then show ?case by (simp add: adds_pending_def)
next
  case (Cons n ns)
  define biz1 where "biz1 = (if IsSystemNode n then biz else Suc biz)"
  define wt1 where "wt1 = (if 0 < node_weight w n then node_weight w n else wt)"
  define rt where "rt = new_runtime n i biz1 wt1"
  obtain r c1 where cr: "nodeRepo_Create e rt (set_runtime n rt c) = (r, c1)" by force
  from Cons.prems cr have "r = None" "init_rows e w ns (Suc i) biz1 wt1 c1 = (None, c')"
    by (auto simp: biz1_def wt1_def rt_def Let_def split: option.splits)
  from adds_pending_trans [OF create_adds_pending [OF cr] Cons.IH [OF this(2)]] show ?case
    by (simp add: rt_def new_runtime_def)
qed

lemma backfill_rows_adds:
  "backfill_rows e w ns i biz c = (None, c') \<Longrightarrow> adds_pending (set ns) c c'"
proof (induction ns arbitrary: i biz c)
  case Nil
  then show ?case by (simp add: adds_pending_def)
next
  case (Cons n ns)
  define biz1 where "biz1 = (if IsSystemNode n then biz else Suc biz)"
  show ?case
  proof (cases "Runtime c n = None")
    case False
    with Cons.prems have "backfill_rows e w ns (Suc i) biz1 c = (None, c')" by (simp add: biz1_def Let_def)
    from Cons.IH [OF this] False show ?thesis
      by (auto simp: adds_pending_def) (metis option.distinct(1))
  next
    case True
    define wt where "wt = (if 0 < node_weight w n then node_weight w n else 1 / of_nat (length (cw_order w)))"
    define rt where "rt = new_runtime n i biz1 wt"
    obtain r c1 where cr: "nodeRepo_Create e rt (set_runtime n rt c) = (r, c1)" by force
    from Cons.prems True cr have "backfill_rows e w ns (Suc i) biz1 c1 = (None, c')"
      by (auto simp: biz1_def wt_def rt_def Let_def split: option.splits)
    from adds_pending_trans [OF create_adds_pending [OF cr] Cons.IH [OF this]] show ?thesis
      by (simp add: rt_def new_runtime_def)
  qed
qed

lemma backfill_rows_keeps:
  "backfill_rows e w ns i biz c = (r, c') \<Longrightarrow> Runtime c n \<noteq> None \<Longrightarrow> Runtime c' n = Runtime c n"
proof (induction ns arbitrary: i biz c)
  case Nil
  then show ?case by simp
next
  case (Cons k ns)
  have cr: "Runtime c1 n = Runtime c n" if "nodeRepo_Create e rt (set_runtime k rt c) = (x, c1)" "Runtime c k = None" for x rt c1
    using keeps_loads [OF nodeRepo_Create_keeps [OF that(1)]] that(2) Cons.prems(2) by (auto simp: set_runtime_def)
  show ?case
    using Cons.prems Cons.IH cr
    by (simp add: Let_def split: if_splits prod.splits option.splits)
qed

text \<open>Restoring a row: the node comes back as it was saved, or pending when it was interrupted.\<close>

definition crashed :: "node_runtime \<Rightarrow> bool" where
  "crashed rt \<longleftrightarrow> State rt = NodeRunning \<and> 0 < mlen (Output rt)"

definition restored :: "compiled_workflow \<Rightarrow> node_runtime \<Rightarrow> node_runtime" where
  "restored w rt = (if rerun_unpersisted w rt \<or> State rt \<in> {NodeRunning, NodeRetrying, NodeReady}
     then reset_pending rt else rt)"

lemma restore_output_keeps:
  assumes "restore_output w rt c = (r, c')"
  shows "keeps c c'"
proof -
  have upd: "keeps c0 (UpdateNodeStatus n s c) = keeps c0 c" for c0 n s c by (simp add: UpdateNodeStatus_def)
  show ?thesis
    using assms by (auto simp: restore_output_def upd dest!: keeps_SetNodeOutput
        split: prod.splits bool.splits option.splits list.splits)
qed

lemma write_row_effect:
  assumes "write_row e rt c = (r, c')"
  shows "loads c c' \<and> Runtime c' = (Runtime c)(Name rt \<mapsto> rt)"
  using keeps_loads [OF keeps_repo(4) [OF assms [unfolded write_row_def]]]
  by (simp add: loads_def set_runtime_def)

lemma restore_node_effect:
  assumes "restore_node e w rt c = (None, c')" and "\<not> crashed rt"
  shows "loads c c' \<and> Runtime c' = (Runtime c)(Name rt \<mapsto> restored w rt)"
proof -
  obtain r c1 where o: "restore_output w rt (set_runtime (Name rt) rt c) = (r, c1)" by force
  with assms(1) have r: "r = None" by (cases r) (auto simp: restore_node_def)
  from keeps_loads [OF restore_output_keeps [OF o]] have
    c1: "loads c c1" "Runtime c1 = (Runtime c)(Name rt \<mapsto> rt)"
    by (auto simp: loads_def set_runtime_def)
  have wr: "loads c c2 \<and> Runtime c2 = (Runtime c)(Name rt \<mapsto> reset_pending rt)"
    if "write_row e (reset_pending rt) c1 = (x, c2)" for x c2
    using write_row_effect [OF that] c1 by (auto simp: reset_pending_def intro: loads_trans)
  have nu: "rerun_unpersisted w rt \<Longrightarrow> State rt = NodeSuccess" by (simp add: rerun_unpersisted_def)
  show ?thesis
    using assms o r c1 wr nu
    by (cases "State rt") (auto simp: restore_node_def restored_def crashed_def split: if_splits)
qed

lemma restore_rows_effect:
  assumes "restore_rows e w rts c = (None, c')" and "\<forall>rt\<in>set rts. \<not> crashed rt" and "distinct (map Name rts)"
  shows "loads c c' \<and> (\<forall>rt\<in>set rts. Runtime c' (Name rt) = Some (restored w rt))
    \<and> (\<forall>n. n \<notin> Name ` set rts \<longrightarrow> Runtime c' n = Runtime c n)"
  using assms
proof (induction rts arbitrary: c)
  case Nil
  then show ?case by simp
next
  case (Cons rt rts)
  obtain r c1 where r: "restore_node e w rt c = (r, c1)" by force
  with Cons.prems(1) have n: "restore_node e w rt c = (None, c1)" "restore_rows e w rts c1 = (None, c')"
    by (cases r; simp)+
  from restore_node_effect [OF n(1)] Cons.prems(2) have
    e1: "loads c c1" "Runtime c1 = (Runtime c)(Name rt \<mapsto> restored w rt)" by auto
  from Cons.IH [OF n(2)] Cons.prems(2,3) have IH: "loads c1 c'"
    "\<forall>rt\<in>set rts. Runtime c' (Name rt) = Some (restored w rt)"
    "\<forall>n. n \<notin> Name ` set rts \<longrightarrow> Runtime c' n = Runtime c1 n" by auto
  from Cons.prems(3) have "Name rt \<notin> Name ` set rts" by auto
  with IH e1 show ?case by (auto intro: loads_trans)
qed

subsection \<open>The restored context can be scheduled\<close>

definition range_ok :: "env \<Rightarrow> name set \<Rightarrow> bool" where
  "range_ok e N \<longleftrightarrow> (\<forall>m :: name \<rightharpoonup> node_runtime. dom m \<subseteq> N \<longrightarrow> enumerates (range_rt e m) m)"

text \<open>
  A snapshot from which a task can go on. The rows belong to nodes of the definition, a
  finished node has stored its edge decisions, a node failed by an event has its message,
  nothing is awaiting or was cut off between its output and its edges, and the restored
  states respect the joins.
\<close>

definition restored_state :: "compiled_workflow \<Rightarrow> (name \<rightharpoonup> node_runtime) \<Rightarrow> name \<Rightarrow> node_state" where
  "restored_state w db n = (case db n of None \<Rightarrow> NodePending | Some rt \<Rightarrow> State (restored w rt))"

definition row_ok :: "compiled_workflow \<Rightarrow> (name \<rightharpoonup> node_runtime) \<Rightarrow> name \<Rightarrow> node_runtime \<Rightarrow> bool" where
  "row_ok w db n rt \<longleftrightarrow> Name rt = n \<and> n \<in> dom (gNodes (cw_graph w)) \<and> \<not> crashed rt
     \<and> State rt \<noteq> NodeAwaiting \<and> (State rt = NodeFailedPendingEdges \<longrightarrow> Error rt \<noteq> [])
     \<and> (isTerminal (State rt) \<longrightarrow>
          (\<forall>ed\<in>set (Edges (cw_graph w) n). rt_ActivatedEdges rt (edge_key n (To ed)) \<noteq> None))
     \<and> (State (restored w rt) \<in> {NodeSuccess, NodeSuccessPendingEdges} \<longrightarrow> Parents (cw_graph w) n = []
         \<or> ((\<forall>p\<in>set (Parents (cw_graph w) n). restored_state w db p \<in> {NodeSuccess, NodeSkipped})
            \<and> (\<exists>p\<in>set (Parents (cw_graph w) n). restored_state w db p = NodeSuccess)))"

definition recoverable :: "compiled_workflow \<Rightarrow> (name \<rightharpoonup> node_runtime) \<Rightarrow> bool" where
  "recoverable w db \<longleftrightarrow> (\<forall>n rt. db n = Some rt \<longrightarrow> row_ok w db n rt)"

lemma recoverable_empty [simp]: "recoverable w Map.empty"
  by (simp add: recoverable_def)

definition compiled_from :: "workflow_def \<Rightarrow> compiled_workflow \<Rightarrow> bool" where
  "compiled_from def w \<longleftrightarrow> Build def = Inr (cw_graph w) \<and> wf_compiled w
     \<and> (\<forall>nd\<in>set (wf_Nodes def). \<not> has_arrow (nd_Name nd))"

lemma compiled_from_facts:
  assumes "compiled_from def w"
  shows "wf_graph (cw_graph w)" "dom (gNodes (cw_graph w)) = nd_Name ` set (wf_Nodes def)"
    "Edges (cw_graph w) u = filter (\<lambda>ed. From ed = u) (wf_Edges def)"
    "set (cw_order w) = dom (gNodes (cw_graph w))"
    "n \<in> dom (gNodes (cw_graph w)) \<Longrightarrow> \<not> has_arrow n"
proof -
  from assms have B: "Build def = Inr (cw_graph w)" and W: "wf_compiled w"
    and A: "\<forall>nd\<in>set (wf_Nodes def). \<not> has_arrow (nd_Name nd)" by (auto simp: compiled_from_def)
  from Build_Inr [OF B] show "wf_graph (cw_graph w)" "dom (gNodes (cw_graph w)) = nd_Name ` set (wf_Nodes def)"
    "Edges (cw_graph w) u = filter (\<lambda>ed. From ed = u) (wf_Edges def)" by auto
  from W show "set (cw_order w) = dom (gNodes (cw_graph w))"
    by (simp add: wf_compiled_def topo_order_def enumerates_def)
  from A Build_Inr [OF B] show "n \<in> dom (gNodes (cw_graph w)) \<Longrightarrow> \<not> has_arrow n" by auto
qed

definition matches :: "compiled_workflow \<Rightarrow> (name \<rightharpoonup> node_runtime) \<Rightarrow> name \<Rightarrow> node_runtime \<Rightarrow> bool" where
  "matches w db n rt \<longleftrightarrow> (case db n of None \<Rightarrow> State rt = NodePending | Some row \<Rightarrow> rt = restored w row)"

lemma matches_simps:
  "db n = None \<Longrightarrow> matches w db n rt \<longleftrightarrow> State rt = NodePending"
  "db n = Some row \<Longrightarrow> matches w db n rt \<longleftrightarrow> rt = restored w row"
  by (simp_all add: matches_def)

lemma loaded_runtime:
  assumes comp: "compiled_from def w" and rng: "range_ok e (dom (gNodes (cw_graph w)))"
    and rec: "recoverable w (dbNodes c)"
    and load: "loadOrInitRuntime e w (newRunContext def c) = (None, c1)"
  shows "loads (newRunContext def c) c1 \<and> dom (Runtime c1) = dom (gNodes (cw_graph w))
    \<and> (\<forall>n rt. Runtime c1 n = Some rt \<longrightarrow> matches w (dbNodes c) n rt)"
proof -
  let ?g = "cw_graph w" and ?c = "newRunContext def c"
  have fresh: "Runtime ?c = Map.empty" "dbNodes ?c = dbNodes c" by (simp_all add: newRunContext_def)
  have ddom: "dom (dbNodes c) \<subseteq> dom (gNodes ?g)"
    using rec unfolding recoverable_def row_ok_def by (metis domD subsetI)
  with rng have en: "enumerates (range_rt e (dbNodes c)) (dbNodes c)" by (simp add: range_ok_def)
  define rows where "rows = FindByTaskID e ?c"
  have rset: "set rows = {rt. \<exists>n. dbNodes c n = Some rt}"
    using en by (auto simp: rows_def FindByTaskID_def fresh set_map_filter enumerates_def dom_def)
  have nm: "Name rt = n" "\<not> crashed rt" if "dbNodes c n = Some rt" for n rt
    using rec that by (auto simp: recoverable_def row_ok_def)
  have "distinct (map Name (List.map_filter (dbNodes c) xs))"
    if "distinct xs" "set xs \<subseteq> dom (dbNodes c)" for xs
    using that nm(1) by (induction xs) (auto simp: List.map_filter_def)
  then have dis: "distinct (map Name rows)"
    using en by (simp add: rows_def FindByTaskID_def fresh enumerates_def distinct_map)
  obtain c0 where c0: "(if rows \<noteq> [] then restore_rows e w rows ?c
      else init_rows e w (cw_order w) 0 0 (1 / of_nat (length (cw_order w))) ?c) = (None, c0)"
    and bf: "backfill_rows e w (cw_order w) 0 0 c0 = (None, c1)"
    using load by (auto simp: loadOrInitRuntime_def rows_def [symmetric] Let_def split: option.splits prod.splits)
  have first: "loads ?c c0 \<and> (\<forall>n rt. Runtime c0 n = Some rt \<longrightarrow> n \<in> dom (gNodes ?g) \<and> matches w (dbNodes c) n rt)
      \<and> (\<forall>n row. dbNodes c n = Some row \<longrightarrow> Runtime c0 n = Some (restored w row))"
  proof (cases "rows = []")
    case False
    with c0 have rr: "restore_rows e w rows ?c = (None, c0)" by simp
    have "\<forall>rt\<in>set rows. \<not> crashed rt" using rset nm(2) by auto
    from restore_rows_effect [OF rr this dis] have ef: "loads ?c c0"
      "\<forall>rt\<in>set rows. Runtime c0 (Name rt) = Some (restored w rt)"
      "\<forall>n. n \<notin> Name ` set rows \<longrightarrow> Runtime c0 n = None" by (auto simp: fresh)
    have row: "Runtime c0 n = Some (restored w row)" if "dbNodes c n = Some row" for n row
      using ef(2) rset nm(1) [OF that] that by auto
    have "n \<in> dom (gNodes ?g) \<and> matches w (dbNodes c) n rt" if rt: "Runtime c0 n = Some rt" for n rt
    proof -
      have "n \<in> Name ` set rows" using ef(3) rt by (metis option.distinct(1))
      then obtain row where r: "dbNodes c n = Some row" using rset nm(1) by auto
      with row [OF r] rt ddom show ?thesis by (auto simp: matches_simps)
    qed
    with ef(1) row show ?thesis by blast
  next
    case True
    with c0 have "init_rows e w (cw_order w) 0 0 (1 / of_nat (length (cw_order w))) ?c = (None, c0)" by simp
    from init_rows_adds [OF this] have ad: "adds_pending (dom (gNodes ?g)) ?c c0"
      by (simp add: compiled_from_facts(4) [OF comp])
    from True rset have "dbNodes c n = None" for n by (cases "dbNodes c n") auto
    then have "matches w (dbNodes c) n rt \<longleftrightarrow> State rt = NodePending" "dbNodes c n \<noteq> Some row" for n rt row
      by (simp_all add: matches_simps)
    moreover have "n \<in> dom (gNodes ?g) \<and> State rt = NodePending" if "Runtime c0 n = Some rt" for n rt
      using ad that unfolding adds_pending_def fresh by (metis option.distinct(1) option.inject)
    moreover have "loads ?c c0" using ad by (simp add: adds_pending_def)
    ultimately show ?thesis by simp
  qed
  from backfill_rows_adds [OF bf] have ad: "adds_pending (dom (gNodes ?g)) c0 c1"
    by (simp add: compiled_from_facts(4) [OF comp])
  have all: "n \<in> dom (gNodes ?g) \<and> matches w (dbNodes c) n rt"
    if rt: "Runtime c1 n = Some rt" for n rt
  proof (cases "Runtime c1 n = Runtime c0 n")
    case True
    with rt first show ?thesis by metis
  next
    case False
    with ad have "n \<in> dom (gNodes ?g) \<and> (\<exists>rt. Runtime c1 n = Some rt \<and> State rt = NodePending)"
      unfolding adds_pending_def by blast
    with rt have p: "n \<in> dom (gNodes ?g)" "State rt = NodePending" by auto
    have "Runtime c0 n = None" using backfill_rows_keeps [OF bf] False by blast
    with first have "dbNodes c n = None" by (cases "dbNodes c n") auto
    with p show ?thesis by (simp add: matches_simps)
  qed
  have "dom (Runtime c1) = dom (gNodes ?g)"
    using all ad unfolding adds_pending_def by (auto simp: dom_def)
  moreover have "loads ?c c1" using first ad loads_trans unfolding adds_pending_def by blast
  ultimately show ?thesis using all by blast
qed

lemma fold_load_edges_dom:
  "m k \<noteq> None \<or> (\<exists>rt\<in>set rts. isTerminal (State rt) \<and> rt_ActivatedEdges rt k \<noteq> None)
   \<Longrightarrow> fold load_edges rts m k \<noteq> None"
proof (induction rts arbitrary: m)
  case Nil
  then show ?case by simp
next
  case (Cons rt rts)
  have "m k \<noteq> None \<or> (isTerminal (State rt) \<and> rt_ActivatedEdges rt k \<noteq> None) \<Longrightarrow> load_edges rt m k \<noteq> None"
    by (auto simp: load_edges_def split: option.splits)
  with Cons.prems have "load_edges rt m k \<noteq> None \<or> (\<exists>rt\<in>set rts. isTerminal (State rt) \<and> rt_ActivatedEdges rt k \<noteq> None)"
    by auto
  then have "fold load_edges rts (load_edges rt m) k \<noteq> None" by (rule Cons.IH)
  then show ?case by simp
qed

lemma restored_row:
  "State (restored w rt) \<noteq> NodePending \<Longrightarrow> restored w rt = rt"
  by (simp add: restored_def reset_pending_def split: if_splits)

lemma restored_sched:
  assumes comp: "compiled_from def w" and rng: "range_ok e (dom (gNodes (cw_graph w)))"
    and rec: "recoverable w (dbNodes c)"
    and load: "loadOrInitRuntime e w (newRunContext def c) = (None, c1)"
  shows "sched (cw_graph w) (rebuildActivatedEdges e c1)"
proof -
  let ?g = "cw_graph w" and ?c = "rebuildActivatedEdges e c1"
  note L = loaded_runtime [OF comp rng rec load]
  have fr: "Runtime ?c = Runtime c1" "WfNodes ?c = map nd_Name (wf_Nodes def)" "WfEdges ?c = wf_Edges def"
    using L by (simp_all add: rebuildActivatedEdges_def loads_def newRunContext_def)
  have ok: "ctx_ok ?g ?c"
    using compiled_from_facts [OF comp] L by (simp add: ctx_ok_def fr)
  have st: "nstate ?c n = Some (restored_state w (dbNodes c) n)" if "n \<in> dom (gNodes ?g)" for n
  proof -
    from that L obtain rt where rt: "Runtime c1 n = Some rt" by (metis domD)
    with L have "matches w (dbNodes c) n rt" by blast
    with rt show ?thesis by (auto simp: nstate_def fr restored_state_def matches_def split: option.splits)
  qed
  have row: "dbNodes c n = Some rt \<and> row_ok w (dbNodes c) n rt \<and> restored w rt = rt"
    if "Runtime c1 n = Some rt" "State rt \<noteq> NodePending" for n rt
  proof -
    from L that(1) have "matches w (dbNodes c) n rt" by blast
    with that(2) obtain row where r: "dbNodes c n = Some row" "rt = restored w row"
      by (cases "dbNodes c n") (auto simp: matches_simps)
    with that(2) restored_row [of w row] rec show ?thesis by (auto simp: recoverable_def)
  qed
  have mem: "rt \<in> set (runtime_list e c1)" if "Runtime c1 n = Some rt" for n rt
  proof -
    have "set (range_rt e (Runtime c1)) = dom (Runtime c1)"
      using rng L by (simp add: range_ok_def enumerates_def)
    with that show ?thesis by (auto simp: runtime_list_def set_map_filter)
  qed
  have "edges_closed ?g ?c" unfolding edges_closed_def
  proof (intro allI impI)
    fix n s assume "nstate ?c n = Some s \<and> isTerminal s"
    then obtain rt where rt: "Runtime c1 n = Some rt" "isTerminal (State rt)" by (auto simp: nstate_def fr)
    then have "State rt \<noteq> NodePending" by auto
    from row [OF rt(1) this] rt(2)
    have fl: "\<forall>ed\<in>set (Edges ?g n). rt_ActivatedEdges rt (edge_key n (To ed)) \<noteq> None"
      by (simp add: row_ok_def)
    then have "ActivatedEdges ?c (edge_key n (To ed)) \<noteq> None" if "ed \<in> set (Edges ?g n)" for ed
    proof -
      have "fold load_edges (runtime_list e c1) (ActivatedEdges c1) (edge_key n (To ed)) \<noteq> None"
        by (rule fold_load_edges_dom) (use mem [OF rt(1)] rt(2) fl that in blast)
      then show ?thesis by (simp add: rebuildActivatedEdges_def)
    qed
    with fl rt show "node_closed ?g n ?c" by (auto simp: node_closed_def fr)
  qed
  moreover have "join_inv {} ?g ?c" unfolding join_inv_def
  proof (intro allI impI)
    fix n assume n: "nstate ?c n = Some NodeSuccess \<or> nstate ?c n = Some NodeSuccessPendingEdges"
    then obtain rt where rt: "Runtime c1 n = Some rt" "State rt \<in> {NodeSuccess, NodeSuccessPendingEdges}"
      by (auto simp: nstate_def fr)
    then have "State rt \<noteq> NodePending" by auto
    from row [OF rt(1) this] rt(2) have j: "Parents ?g n = []
         \<or> ((\<forall>p\<in>set (Parents ?g n). restored_state w (dbNodes c) p \<in> {NodeSuccess, NodeSkipped})
            \<and> (\<exists>p\<in>set (Parents ?g n). restored_state w (dbNodes c) p = NodeSuccess))"
      by (auto simp: row_ok_def)
    have "p \<in> dom (gNodes ?g)" if "p \<in> set (Parents ?g n)" for p
      using that wf_graph_children_dom wf_graph_parent_iff compiled_from_facts(1) [OF comp] by metis
    with j st show "joined {} ?g ?c n" unfolding joined_def by auto
  qed
  moreover have "resumable rt" if rt: "Runtime c1 n = Some rt" for n rt
  proof (cases "State rt = NodePending")
    case True
    then show ?thesis by (simp add: resumable_def)
  next
    case False
    from row [OF rt False] have "row_ok w (dbNodes c) n rt" "restored w rt = rt" by auto
    with False show ?thesis
      by (cases "State rt") (auto simp: resumable_def row_ok_def restored_def reset_pending_def
          split: if_splits dest: arg_cong [where f = State])
  qed
  ultimately show ?thesis using ok by (auto simp: sched_but_def fr)
qed

text \<open>Loading keeps the task, its input and the nodes of the workflow.\<close>

abbreviation run_of :: "run_ctx \<Rightarrow> task \<times> gmap \<times> name list" where
  "run_of c \<equiv> (Task c, Input c, WfNodes c)"

lemma load_step_run:
  "nodeRepo_Create e rt c = (r, c') \<Longrightarrow> run_of c' = run_of c"
  "nodeRepo_Update e rt c = (r, c') \<Longrightarrow> run_of c' = run_of c"
  "SetNodeOutput n d sch c = (r, d', c') \<Longrightarrow> run_of c' = run_of c"
  by (auto simp: nodeRepo_Create_def nodeRepo_Update_def SetNodeOutput_def split: option.splits prod.splits)

lemma write_row_run: "write_row e rt c = (r, c') \<Longrightarrow> run_of c' = run_of c"
  by (auto simp: write_row_def set_runtime_def UpdateNodeStatus_def dest!: load_step_run(2))

lemma restore_output_run: "restore_output w rt c = (r, c') \<Longrightarrow> run_of c' = run_of c"
  by (auto simp: restore_output_def set_runtime_def UpdateNodeStatus_def dest!: load_step_run(3)
      split: prod.splits bool.splits option.splits list.splits)

lemma restore_running_run:
  assumes "restore_running e w rt c = (r, c')"
  shows "run_of c' = run_of c"
proof -
  obtain z c3 where z: "write_row e (finished_rt (clock e (writes c)) rt) c = (z, c3)" by force
  from write_row_run [OF z] have t: "run_of c3 = run_of c" .
  show ?thesis
  proof (cases z)
    case (Some m)
    with assms z t show ?thesis by (simp add: restore_running_def)
  next
    case None
    show ?thesis
    proof (cases "cw_nodes w (Name rt)")
      case (Some nd)
      obtain x d c4 where so: "SetNodeOutput (Name rt) (the (Output rt)) (OutputSchema nd) c3 = (x, d, c4)"
        by (metis prod_cases3)
      with load_step_run(3) [OF so] assms z t None Some show ?thesis
        by (cases x) (auto simp: restore_running_def set_runtime_def UpdateNodeStatus_def)
    qed (use assms z t None in \<open>simp add: restore_running_def\<close>)
  qed
qed

lemma restore_node_run:
  assumes "restore_node e w rt c = (r, c')"
  shows "run_of c' = run_of c"
proof -
  obtain x c1 where o: "restore_output w rt (set_runtime (Name rt) rt c) = (x, c1)" by force
  from restore_output_run [OF o] have t: "run_of c1 = run_of c" by (simp add: set_runtime_def UpdateNodeStatus_def)
  show ?thesis
  proof (cases x)
    case (Some m)
    with assms o t show ?thesis by (simp add: restore_node_def)
  next
    case None
    with assms o have "restore_running e w rt c1 = (r, c') \<or> write_row e (reset_pending rt) c1 = (r, c') \<or> c' = c1"
      by (cases "State rt") (simp_all add: restore_node_def split: if_splits)
    with t show ?thesis by (auto dest: restore_running_run write_row_run)
  qed
qed

lemma loadOrInitRuntime_run:
  assumes "loadOrInitRuntime e w c = (r, c')"
  shows "run_of c' = run_of c"
proof -
  have rs: "restore_rows e w rts c = (x, c1) \<Longrightarrow> run_of c1 = run_of c" for rts x c1 c
    by (induction rts arbitrary: c) (auto dest: restore_node_run split: prod.splits option.splits)
  have cr: "nodeRepo_Create e rt (set_runtime n rt c) = (x, c1) \<Longrightarrow> run_of c1 = run_of c" for rt n x c1 c
    by (auto simp: set_runtime_def UpdateNodeStatus_def dest!: load_step_run(1))
  have ini: "init_rows e w ns i biz wt c = (x, c1) \<Longrightarrow> run_of c1 = run_of c" for ns i biz wt x c1 c
  proof (induction ns arbitrary: i biz wt c)
    case (Cons n ns)
    then show ?case by (auto simp: Let_def dest!: cr split: prod.splits option.splits)
  qed simp
  have bf: "backfill_rows e w ns i biz c = (x, c1) \<Longrightarrow> run_of c1 = run_of c" for ns i biz x c1 c
  proof (induction ns arbitrary: i biz c)
    case (Cons n ns)
    then show ?case by (auto simp: Let_def dest!: cr split: prod.splits option.splits if_splits)
  qed simp
  show ?thesis
    using assms by (auto simp: loadOrInitRuntime_def Let_def dest!: rs ini bf split: prod.splits option.splits if_splits)
qed

lemma loadOrInitRuntime_task: "loadOrInitRuntime e w c = (r, c') \<Longrightarrow> Task c' = Task c"
  by (drule loadOrInitRuntime_run) simp

end
