(* ===== verification/Flux_Samples.thy ===== *)
theory Flux_Samples
  imports Flux_Recovery
begin

text \<open>
  A concrete workflow, environment and task, on which the hypotheses of the general theorems
  are discharged: the diamond of \<open>Flux_Graph\<close>, whose edge from \<open>a\<close> to \<open>c\<close> has the condition
  \<open>go\<close>, with steps that always succeed.
\<close>

definition diamond_workflow :: compiled_workflow where
  "diamond_workflow =
     \<lparr>cw_nodes = (\<lambda>n. if n \<in> {''a'', ''b'', ''c'', ''d''} then Some (sample_cnode n) else None),
      cw_graph = diamond_graph, cw_order = [''a'', ''b'', ''c'', ''d'']\<rparr>"

lemma diamond_graph_simps:
  "Parents diamond_graph ''a'' = []" "Parents diamond_graph ''b'' = [''a'']"
  "Parents diamond_graph ''c'' = [''a'']" "Parents diamond_graph ''d'' = [''b'', ''c'']"
  "Edges diamond_graph n = filter (\<lambda>ed. From ed = n) diamond_edges"
proof -
  show "Edges diamond_graph n = filter (\<lambda>ed. From ed = n) diamond_edges"
    using Build_Inr [OF diamond_Build] by (simp add: diamond_def)
qed (simp_all add: diamond_graph_def Build_def sample_defs empty_graph_def add_edge_def)

lemma diamond_compiled: "compiled_from diamond diamond_workflow"
proof -
  have "topo_order diamond_graph [''a'', ''b'', ''c'', ''d'']"
    unfolding topo_order_def enumerates_def diamond_gNodes by (auto simp: diamond_graph_simps)
  moreover have "runnable (sample_cnode n)" "n_Name (sample_cnode n) = n" for n
    by (simp_all add: runnable_def sample_cnode_def)
  moreover have "\<forall>nd\<in>set (wf_Nodes diamond). \<not> has_arrow (nd_Name nd)"
    by (simp add: diamond_def sample_node_def)
  ultimately show ?thesis
    using diamond_Build by (simp add: compiled_from_def wf_compiled_def diamond_workflow_def)
qed

lemma sample_range_ok: "range_ok (sample_env go) (dom (gNodes (cw_graph diamond_workflow)))"
proof -
  have "enumerates (filter (\<lambda>n. m n \<noteq> None) [''a'', ''b'', ''c'', ''d'']) m"
    if "dom m \<subseteq> {''a'', ''b'', ''c'', ''d''}" for m :: "name \<rightharpoonup> node_runtime"
    unfolding enumerates_def using that by (auto simp: dom_def)
  moreover have "dom (gNodes (cw_graph diamond_workflow)) = {''a'', ''b'', ''c'', ''d''}"
    by (simp add: diamond_workflow_def diamond_gNodes)
  ultimately show ?thesis unfolding range_ok_def sample_env_def by simp
qed

text \<open>The context in which the first run of the sample task starts.\<close>

definition fresh_ctx :: "bool \<Rightarrow> run_ctx" where
  "fresh_ctx go = rebuildActivatedEdges (sample_env go)
     (snd (loadOrInitRuntime (sample_env go) diamond_workflow (newRunContext diamond sample_ctx)))"

lemma sample_load:
  "loadOrInitRuntime (sample_env go) diamond_workflow (newRunContext diamond sample_ctx) =
     (None, snd (loadOrInitRuntime (sample_env go) diamond_workflow (newRunContext diamond sample_ctx)))"
  by (simp add: loadOrInitRuntime_def FindByTaskID_def newRunContext_def sample_ctx_def sample_env_def
      diamond_workflow_def nodeRepo_Create_def Let_def List.map_filter_def set_runtime_def)

lemma fresh_sched: "sched (cw_graph diamond_workflow) (fresh_ctx go)"
  unfolding fresh_ctx_def
  by (rule restored_sched [OF diamond_compiled sample_range_ok _ sample_load])
    (simp add: sample_ctx_def)

text \<open>A workflow of one node, small enough to be run by evaluation.\<close>

definition solo :: workflow_def where
  "solo = \<lparr>wf_Name = ''solo'', wf_Nodes = [sample_node ''a'' ''start'' []], wf_Edges = [], wf_Output = no_output_def\<rparr>"

definition solo_workflow :: compiled_workflow where
  "solo_workflow = \<lparr>cw_nodes = [''a'' \<mapsto> sample_cnode ''a''], cw_graph = projr (Build solo), cw_order = [''a'']\<rparr>"

definition solo_ctx :: run_ctx where
  "solo_ctx = (newRunContext solo sample_ctx)\<lparr>Runtime := [''a'' \<mapsto> new_runtime ''a'' 0 0 1]\<rparr>"

lemma solo_success:
  "case runDAG (sample_env True) solo_workflow solo_ctx of
     Panic m \<Rightarrow> False | Ret (r, c) \<Rightarrow> rr_Status r = RunSuccess"
  by code_simp

lemma solo_compiled: "compiled_from solo solo_workflow"
proof -
  have B: "Build solo = Inr (cw_graph solo_workflow)"
    by (simp add: solo_workflow_def solo_def Build_def sample_defs empty_graph_def)
  have "dom (gNodes (cw_graph solo_workflow)) = {''a''}"
    using Build_Inr [OF B] by (simp add: solo_def sample_node_def)
  moreover have "Parents (cw_graph solo_workflow) ''a'' = []"
    by (simp add: solo_workflow_def solo_def Build_def sample_defs empty_graph_def)
  ultimately have "topo_order (cw_graph solo_workflow) [''a'']"
    by (simp add: topo_order_def enumerates_def)
  then show ?thesis
    using B by (simp add: compiled_from_def wf_compiled_def solo_workflow_def solo_def sample_node_def
        sample_cnode_def runnable_def)
qed

lemma solo_sched: "sched (cw_graph solo_workflow) solo_ctx"
proof -
  note f = compiled_from_facts [OF solo_compiled]
  have d: "dom (gNodes (cw_graph solo_workflow)) = {''a''}"
    using f(2) by (simp add: solo_def sample_node_def)
  have ns: "nstate solo_ctx n = (if n = ''a'' then Some NodePending else None)" for n
    by (simp add: nstate_def solo_ctx_def new_runtime_def)
  have "ctx_ok (cw_graph solo_workflow) solo_ctx"
    using f(1,3,5) d by (simp add: ctx_ok_def solo_ctx_def newRunContext_def solo_def sample_node_def)
  moreover have "State rt = NodePending" if "Runtime solo_ctx n = Some rt" for n rt
    using ns [of n] that by (auto simp: nstate_def split: if_splits)
  ultimately show ?thesis
    by (auto simp: sched_but_def edges_closed_def join_inv_def ns resumable_def split: if_splits)
qed

lemma solo_range_ok: "range_ok (sample_env go) (dom (gNodes (cw_graph solo_workflow)))"
proof -
  have d: "dom (gNodes (cw_graph solo_workflow)) = {''a''}"
    using compiled_from_facts(2) [OF solo_compiled] by (simp add: solo_def sample_node_def)
  have "enumerates (filter (\<lambda>n. m n \<noteq> None) [''a'', ''b'', ''c'', ''d'']) m"
    if "dom m \<subseteq> {''a''}" for m :: "name \<rightharpoonup> node_runtime"
    unfolding enumerates_def using that by (auto simp: dom_def)
  with d show ?thesis unfolding range_ok_def sample_env_def by simp
qed

text \<open>The same node while its step runs.\<close>

definition solo_running :: run_ctx where
  "solo_running = solo_ctx\<lparr>Runtime := [''a'' \<mapsto> sample_rt ''a'' NodeRunning]\<rparr>"

lemma solo_running_state: "nstate solo_running ''a'' = Some NodeRunning"
  by (simp add: solo_running_def nstate_def sample_rt_def)

lemma solo_running_ok: "ctx_ok (cw_graph solo_workflow) solo_running"
proof -
  have "ctx_ok (cw_graph solo_workflow) solo_ctx" using solo_sched by (simp add: sched_but_def)
  moreover have "dom (Runtime solo_running) = dom (Runtime solo_ctx)"
    by (simp add: solo_running_def solo_ctx_def)
  ultimately show ?thesis by (rule ctx_ok_cong) (simp_all add: solo_running_def)
qed

text \<open>Two nodes in a row, the first one cut off between its output and its edges.\<close>

definition chain2 :: workflow_def where
  "chain2 = \<lparr>wf_Name = ''chain'', wf_Nodes = [sample_node ''a'' ''tool'' [], sample_node ''b'' ''tool'' []],
     wf_Edges = [sample_edge ''a'' ''b'' EdgeNormal []], wf_Output = no_output_def\<rparr>"

definition chain2_workflow :: compiled_workflow where
  "chain2_workflow = \<lparr>cw_nodes = [''a'' \<mapsto> sample_cnode ''a'', ''b'' \<mapsto> sample_cnode ''b''], cw_graph = projr (Build chain2), cw_order = [''a'', ''b'']\<rparr>"

definition crash_rows :: "name \<rightharpoonup> node_runtime" where
  "crash_rows = [''a'' \<mapsto> (new_runtime ''a'' 0 1 1)\<lparr>State := NodeRunning, Output := Some [(''x'', VInt 1)]\<rparr>,
                 ''b'' \<mapsto> new_runtime ''b'' 1 2 1]"

definition crash_ctx :: run_ctx where
  "crash_ctx = sample_ctx\<lparr>dbNodes := crash_rows, Task := sample_task\<lparr>Status := TaskRunning\<rparr>\<rparr>"

end
