(* ===== verification/Flux_Builder.thy ===== *)
theory Flux_Builder
  imports Flux_Samples
begin

text \<open>
  \<^verbatim>\<open>workflow/builder.go\<close> and the node types of \<^verbatim>\<open>workflow/nodes\<close>: the registry of node types with
  their configuration schemas, the factories that turn a node definition into a step, and
  \<^verbatim>\<open>Builder.Build\<close>, which checks a definition and compiles it into the graph, the order and the
  nodes that the engine runs. The tools are registered by the application, so a registry
  of tools is an argument.
\<close>

subsection \<open>Steps\<close>

record tool_info =
  ti_Name :: string
  ti_InputSchema :: data_schema
  ti_OutputSchema :: data_schema
  ti_Async :: bool

record map_step =
  ms_itemsExpr :: string
  ms_iterator :: string
  ms_workflow :: string
  ms_parallel :: int
  ms_failurePolicy :: string
  ms_maxChildRetries :: int
  ms_fallbackSource :: string
  ms_maxFallbackRatio :: rat

record loop_step =
  ls_itemsExpr :: string
  ls_iterator :: string
  ls_workflow :: string
  ls_carry :: "(string \<times> string) list"
  ls_initial :: gmap

datatype step =
    StartStep
  | EndStep
  | ToolStepAdapter tool_info gmap string
  | SubWorkflowStep string
  | MapNodeStep map_step
  | LoopNodeStep loop_step
  | AwaitStep string string

definition NewMapStep :: "string \<Rightarrow> string \<Rightarrow> string \<Rightarrow> int \<Rightarrow> map_step" where
  "NewMapStep items iterator wname par =
     \<lparr>ms_itemsExpr = items, ms_iterator = iterator, ms_workflow = wname,
      ms_parallel = (if par \<le> 0 then 5 else par), ms_failurePolicy = ''fail_fast'',
      ms_maxChildRetries = - 1, ms_fallbackSource = ''item'', ms_maxFallbackRatio = 0\<rparr>"

definition WithFailurePolicy :: "string \<Rightarrow> map_step \<Rightarrow> map_step" where
  "WithFailurePolicy p m = (if p = ''partial'' then m\<lparr>ms_failurePolicy := ''partial''\<rparr> else m)"

definition WithMaxChildRetries :: "int \<Rightarrow> map_step \<Rightarrow> map_step" where
  "WithMaxChildRetries k m = m\<lparr>ms_maxChildRetries := k\<rparr>"

definition WithFallbackSource :: "string \<Rightarrow> map_step \<Rightarrow> map_step" where
  "WithFallbackSource s m = (if s \<noteq> [] then m\<lparr>ms_fallbackSource := s\<rparr> else m)"

definition WithMaxFallbackRatio :: "rat \<Rightarrow> map_step \<Rightarrow> map_step" where
  "WithMaxFallbackRatio q m = m\<lparr>ms_maxFallbackRatio := q\<rparr>"

fun step_Name :: "step \<Rightarrow> string" where
  "step_Name StartStep = ''start''"
| "step_Name EndStep = ''end''"
| "step_Name (ToolStepAdapter t _ _) = ti_Name t"
| "step_Name (SubWorkflowStep _) = ''subworkflow''"
| "step_Name (MapNodeStep _) = ''map''"
| "step_Name (LoopNodeStep _) = ''loop''"
| "step_Name (AwaitStep _ _) = ''await''"

abbreviation field :: "string \<Rightarrow> bool \<Rightarrow> field_schema" where
  "field ty req \<equiv> \<lparr>fs_Type = ty, fs_Required = req, fs_Desc = []\<rparr>"

fun step_InputSchema :: "step \<Rightarrow> data_schema" where
  "step_InputSchema (ToolStepAdapter t _ _) = ti_InputSchema t"
| "step_InputSchema (AwaitStep _ _) = [(''callback_token'', field ''string'' False)]"
| "step_InputSchema _ = []"

fun step_OutputSchema :: "step \<Rightarrow> data_schema" where
  "step_OutputSchema (ToolStepAdapter t _ _) = ti_OutputSchema t"
| "step_OutputSchema (SubWorkflowStep _) = [(''result'', field ''object'' False)]"
| "step_OutputSchema (MapNodeStep _) = [(''results'', field ''array'' False)]"
| "step_OutputSchema (LoopNodeStep _) = [(''results'', field ''array'' False)]"
| "step_OutputSchema _ = []"

fun step_Async :: "step \<Rightarrow> bool" where
  "step_Async (ToolStepAdapter t _ _) = ti_Async t"
| "step_Async _ = False"

text \<open>
  The retry policy of a tool; the interval is an \<^verbatim>\<open>int64\<close> of nanoseconds, so the product may
  wrap around before the test for a negative value.
\<close>

definition wrap64 :: "int \<Rightarrow> int" where
  "wrap64 k = (k + 2 ^ 63) mod 2 ^ 64 - 2 ^ 63"

definition config_int :: "gmap \<Rightarrow> string \<Rightarrow> int \<Rightarrow> int" where
  "config_int m k dflt =
     (case map_of m k of Some (VInt v) \<Rightarrow> v | Some (VFloat q) \<Rightarrow> trunc q | _ \<Rightarrow> dflt)"

definition tool_RetryPolicy :: "gmap \<Rightarrow> int \<times> int" where
  "tool_RetryPolicy config =
     (let maxRetries = config_int config ''retry_count'' 2;
          interval = (case map_of config ''retry_interval_ms'' of
              Some (VInt v) \<Rightarrow> wrap64 (v * 1000000)
            | Some (VFloat q) \<Rightarrow> wrap64 (trunc q * 1000000)
            | _ \<Rightarrow> 2 * Second)
      in (if maxRetries < 0 then 0 else maxRetries, if interval < 0 then 0 else interval))"

fun step_RetryPolicy :: "step \<Rightarrow> int \<times> int" where
  "step_RetryPolicy (ToolStepAdapter _ config _) = tool_RetryPolicy config"
| "step_RetryPolicy _ = (0, 0)"

subsection \<open>Factories\<close>

type_synonym factory = "node_def \<Rightarrow> go_error + step"

definition config_str :: "node_def \<Rightarrow> string \<Rightarrow> string option" where
  "config_str nd k = (case map_of (nd_Config nd) k of Some (VStr s) \<Rightarrow> Some s | _ \<Rightarrow> None)"

definition StartNodeFactory :: factory where "StartNodeFactory nd = Inr StartStep"
definition EndNodeFactory :: factory where "EndNodeFactory nd = Inr EndStep"

definition ToolFactory :: "(string \<rightharpoonup> tool_info) \<Rightarrow> factory" where
  "ToolFactory tools nd =
     (case config_str nd ''tool'' of
        None \<Rightarrow> Inl ''tool node missing config.tool''
      | Some t \<Rightarrow>
         (case tools t of
            None \<Rightarrow> Inl (''tool not found: '' @ t)
          | Some ti \<Rightarrow> Inr (ToolStepAdapter ti (nd_Config nd) (nd_Version nd))))"

definition SubWorkflowNodeFactory :: factory where
  "SubWorkflowNodeFactory nd =
     (case config_str nd ''workflow'' of
        None \<Rightarrow> Inl ''subworkflow missing workflow'' | Some wname \<Rightarrow> Inr (SubWorkflowStep wname))"

definition AwaitNodeFactory :: factory where
  "AwaitNodeFactory nd =
     (case config_str nd ''await_type'' of
        None \<Rightarrow> Inl ''await node missing await_type''
      | Some aty \<Rightarrow>
         if aty = [] then Inl ''await node missing await_type''
         else (case config_str nd ''source'' of
                 None \<Rightarrow> Inl ''await node missing source''
               | Some src \<Rightarrow> if src = [] then Inl ''await node missing source'' else Inr (AwaitStep aty src)))"

text \<open>The optional settings of a map node; \<^verbatim>\<open>parallel\<close> is read as a \<^verbatim>\<open>float64\<close> only.\<close>

definition map_options :: "node_def \<Rightarrow> map_step \<Rightarrow> map_step" where
  "map_options nd m0 =
     (let c = nd_Config nd;
          m1 = (case map_of c ''failure_policy'' of Some (VStr s) \<Rightarrow> WithFailurePolicy s m0 | _ \<Rightarrow> m0);
          m2 = (case map_of c ''max_child_retries'' of
                  Some (VFloat q) \<Rightarrow> WithMaxChildRetries (trunc q) m1
                | Some (VInt k) \<Rightarrow> WithMaxChildRetries k m1 | _ \<Rightarrow> m1);
          m3 = (case map_of c ''fallback_source'' of Some (VStr s) \<Rightarrow> WithFallbackSource s m2 | _ \<Rightarrow> m2)
      in case map_of c ''max_fallback_ratio'' of
           Some (VFloat q) \<Rightarrow> WithMaxFallbackRatio q m3
         | Some (VInt k) \<Rightarrow> WithMaxFallbackRatio (of_int k) m3 | _ \<Rightarrow> m3)"

definition MapNodeFactory :: factory where
  "MapNodeFactory nd =
     (case config_str nd ''items'' of
        None \<Rightarrow> Inl ''map missing items''
      | Some items \<Rightarrow>
         (case config_str nd ''iterator'' of
            None \<Rightarrow> Inl ''map missing iterator''
          | Some it \<Rightarrow>
             (case config_str nd ''workflow'' of
                None \<Rightarrow> Inl ''map missing workflow''
              | Some wname \<Rightarrow>
                 (let par = (case map_of (nd_Config nd) ''parallel'' of Some (VFloat q) \<Rightarrow> trunc q | _ \<Rightarrow> 4)
                  in Inr (MapNodeStep (map_options nd (NewMapStep items it wname par)))))))"

fun carry_map :: "gmap \<Rightarrow> go_error + (string \<times> string) list" where
  "carry_map [] = Inr []"
| "carry_map ((k, v) # kvs) =
     (case v of
        VStr s \<Rightarrow> (case carry_map kvs of Inl m \<Rightarrow> Inl m | Inr r \<Rightarrow> Inr ((k, s) # r))
      | _ \<Rightarrow> Inl (''loop carry['' @ k @ ''] must be string''))"

definition non_empty_str :: "node_def \<Rightarrow> string \<Rightarrow> string option" where
  "non_empty_str nd k = (case config_str nd k of Some s \<Rightarrow> if s = [] then None else Some s | None \<Rightarrow> None)"

definition LoopNodeFactory :: factory where
  "LoopNodeFactory nd =
     (case non_empty_str nd ''items'' of
        None \<Rightarrow> Inl ''loop missing items''
      | Some items \<Rightarrow>
         (case non_empty_str nd ''iterator'' of
            None \<Rightarrow> Inl ''loop missing iterator''
          | Some it \<Rightarrow>
             (case non_empty_str nd ''workflow'' of
                None \<Rightarrow> Inl ''loop missing workflow''
              | Some wname \<Rightarrow>
                 (case (case map_of (nd_Config nd) ''carry'' of Some (VMap m) \<Rightarrow> carry_map m | _ \<Rightarrow> Inr []) of
                    Inl m \<Rightarrow> Inl m
                  | Inr carry \<Rightarrow>
                     Inr (LoopNodeStep \<lparr>ls_itemsExpr = items, ls_iterator = it, ls_workflow = wname,
                       ls_carry = carry,
                       ls_initial = (case map_of (nd_Config nd) ''initial'' of Some (VMap m) \<Rightarrow> m | _ \<Rightarrow> [])\<rparr>)))))"

subsection \<open>The registry of node types\<close>

record node_type_schema =
  ts_ConfigSchema :: data_schema
  ts_ExprConfigFields :: "(string \<times> bool) list"

record node_registry =
  nr_factories :: "string \<rightharpoonup> factory"
  nr_schemas :: "string \<rightharpoonup> node_type_schema"

definition StartNodeSchema :: node_type_schema where
  "StartNodeSchema = \<lparr>ts_ConfigSchema = [], ts_ExprConfigFields = []\<rparr>"

definition EndNodeSchema :: node_type_schema where
  "EndNodeSchema = \<lparr>ts_ConfigSchema = [], ts_ExprConfigFields = []\<rparr>"

definition ToolNodeSchema :: node_type_schema where
  "ToolNodeSchema = \<lparr>ts_ConfigSchema = [(''tool'', field ''string'' True)], ts_ExprConfigFields = []\<rparr>"

definition MapNodeSchema :: node_type_schema where
  "MapNodeSchema =
     \<lparr>ts_ConfigSchema =
        [(''items'', field ''string'' True), (''iterator'', field ''string'' True),
         (''workflow'', field ''string'' False), (''parallel'', field ''number'' False),
         (''failure_policy'', field ''string'' False), (''max_child_retries'', field ''number'' False),
         (''fallback_source'', field ''string'' False), (''max_fallback_ratio'', field ''number'' False)],
      ts_ExprConfigFields = [(''items'', True)]\<rparr>"

definition SubWorkflowNodeSchema :: node_type_schema where
  "SubWorkflowNodeSchema =
     \<lparr>ts_ConfigSchema = [(''workflow'', field ''string'' True)], ts_ExprConfigFields = []\<rparr>"

definition LoopNodeSchema :: node_type_schema where
  "LoopNodeSchema =
     \<lparr>ts_ConfigSchema =
        [(''items'', field ''string'' True), (''iterator'', field ''string'' True),
         (''workflow'', field ''string'' False), (''carry'', field ''object'' False),
         (''initial'', field ''object'' False)],
      ts_ExprConfigFields = [(''items'', True)]\<rparr>"

definition AwaitNodeSchema :: node_type_schema where
  "AwaitNodeSchema =
     \<lparr>ts_ConfigSchema =
        [(''await_type'', field ''string'' True), (''source'', field ''string'' True),
         (''provider'', field ''string'' False), (''signal_name'', field ''string'' False),
         (''callback_token_expr'', field ''string'' False), (''correlation'', field ''object'' False),
         (''completion'', field ''object'' False), (''fallback_poll'', field ''object'' False),
         (''timeout_seconds'', field ''number'' False)],
      ts_ExprConfigFields = []\<rparr>"

definition NewNodeRegistry :: node_registry where
  "NewNodeRegistry = \<lparr>nr_factories = Map.empty, nr_schemas = Map.empty\<rparr>"

definition Register :: "string \<Rightarrow> factory \<Rightarrow> node_type_schema \<Rightarrow> node_registry \<Rightarrow> node_registry exec" where
  "Register t f s r =
     (if nr_factories r t \<noteq> None then Panic (''node type already registered: '' @ t)
      else Ret (r\<lparr>nr_factories := (nr_factories r)(t \<mapsto> f), nr_schemas := (nr_schemas r)(t \<mapsto> s)\<rparr>))"

definition RegisterBuiltinNodes :: "node_registry \<Rightarrow> node_registry exec" where
  "RegisterBuiltinNodes r =
     bind_exec (Register ''start'' StartNodeFactory StartNodeSchema r) (\<lambda>r.
     bind_exec (Register ''end'' EndNodeFactory EndNodeSchema r) (\<lambda>r.
     bind_exec (Register ''subworkflow'' SubWorkflowNodeFactory SubWorkflowNodeSchema r) (\<lambda>r.
     bind_exec (Register ''map'' MapNodeFactory MapNodeSchema r) (\<lambda>r.
     bind_exec (Register ''loop'' LoopNodeFactory LoopNodeSchema r) (\<lambda>r.
     Register ''await'' AwaitNodeFactory AwaitNodeSchema r)))))"

definition InitNodeRegistry :: "(string \<rightharpoonup> tool_info) \<Rightarrow> node_registry exec" where
  "InitNodeRegistry tools =
     bind_exec (RegisterBuiltinNodes NewNodeRegistry) (\<lambda>r.
     Register ''tool'' (ToolFactory tools) ToolNodeSchema r)"

definition validateFieldType :: "string \<Rightarrow> gval \<Rightarrow> go_error option" where
  "validateFieldType expected v =
     (if expected = ''string'' then (case v of VStr _ \<Rightarrow> None | _ \<Rightarrow> Some ''expect string'')
      else if expected = ''number'' then
        (case v of VFloat _ \<Rightarrow> None | VInt _ \<Rightarrow> None | _ \<Rightarrow> Some ''expect number'')
      else if expected = ''object'' then (case v of VMap _ \<Rightarrow> None | _ \<Rightarrow> Some ''expect object'')
      else if expected = ''array'' then (case v of VList _ \<Rightarrow> None | _ \<Rightarrow> Some ''expect array'')
      else None)"

fun validate_config :: "name \<Rightarrow> data_schema \<Rightarrow> gmap \<Rightarrow> go_error option" where
  "validate_config n [] config = None"
| "validate_config n ((f, fs) # sch) config =
     (case map_of config f of
        None \<Rightarrow> if fs_Required fs then Some (''node '' @ n @ '' missing config field: '' @ f)
                else validate_config n sch config
      | Some v \<Rightarrow>
         (case validateFieldType (fs_Type fs) v of
            Some m \<Rightarrow> Some (''node '' @ n @ '' config field '' @ f @ '' type error: '' @ m)
          | None \<Rightarrow> validate_config n sch config))"

definition ValidateNode :: "node_registry \<Rightarrow> node_def \<Rightarrow> go_error option" where
  "ValidateNode reg nd =
     (case nr_schemas reg (nd_Type nd) of
        None \<Rightarrow> Some (''schema not found for node type: '' @ nd_Type nd)
      | Some s \<Rightarrow> validate_config (nd_Name nd) (ts_ConfigSchema s) (nd_Config nd))"

definition IsExprConfigField :: "node_registry \<Rightarrow> string \<Rightarrow> string \<Rightarrow> bool" where
  "IsExprConfigField reg ty f =
     (case nr_schemas reg ty of
        None \<Rightarrow> False
      | Some s \<Rightarrow> (case map_of (ts_ExprConfigFields s) f of None \<Rightarrow> False | Some b \<Rightarrow> b))"

subsection \<open>Builder.Build\<close>

definition output_expr_env :: gmap where
  "output_expr_env = [(''input'', VMap []), (''nodes'', VMap [])]"

definition validateExpr :: "env \<Rightarrow> string \<Rightarrow> string \<Rightarrow> go_error option" where
  "validateExpr e f s =
     (if s = [] then None
      else case expr_compile e output_expr_env s of
          Some m \<Rightarrow> Some (''invalid output expr in field ['' @ f @ '']: '' @ m)
        | None \<Rightarrow> None)"

fun first_error :: "(string \<times> string) list \<Rightarrow> (string \<Rightarrow> string \<Rightarrow> go_error option) \<Rightarrow> go_error option" where
  "first_error [] chk = None"
| "first_error ((f, s) # r) chk = (case chk f s of Some m \<Rightarrow> Some m | None \<Rightarrow> first_error r chk)"

definition validateOutputMapping :: "env \<Rightarrow> output_def \<Rightarrow> go_error option" where
  "validateOutputMapping e od =
     (case first_error
        [(''PrimaryFileUrl'', od_PrimaryFileUrl od), (''CoverUrl'', od_CoverUrl od),
         (''PreviewUrl'', od_PreviewUrl od), (''Width'', od_Width od), (''Height'', od_Height od),
         (''Duration'', od_Duration od)] (validateExpr e) of
        Some m \<Rightarrow> Some m
      | None \<Rightarrow> first_error (od_Extras od) (\<lambda>k s.
          if k = [] then Some ''output extras key cannot be empty'' else validateExpr e (''Extras.'' @ k) s))"

datatype builder_error = GraphError build_error | BuildError go_error

definition deprecated_type :: "string \<Rightarrow> bool" where
  "deprecated_type t \<longleftrightarrow> t = ''condition'' \<or> t = ''switch'' \<or> t = ''branch''"

fun validate_nodes :: "node_registry \<Rightarrow> node_def list \<Rightarrow> go_error option" where
  "validate_nodes reg [] = None"
| "validate_nodes reg (nd # nds) =
     (if deprecated_type (nd_Type nd)
      then Some (''node type '' @ nd_Type nd @ '' is deprecated, use edge condition instead'')
      else (case ValidateNode reg nd of Some m \<Rightarrow> Some m | None \<Rightarrow> validate_nodes reg nds))"

definition compile_node :: "node_def \<Rightarrow> step \<Rightarrow> node" where
  "compile_node nd st =
     \<lparr>n_Name = nd_Name nd, n_Label = nd_Label nd, n_Type = nd_Type nd, n_Version = nd_Version nd,
      n_Weight = nd_Weight nd, n_Config = nd_Config nd, n_InputMapping = nd_InputMapping nd,
      StepName = step_Name st, InputSchema = step_InputSchema st, OutputSchema = step_OutputSchema st,
      AsyncMode = step_Async st, MaxRetries = nat (fst (step_RetryPolicy st))\<rparr>"

fun compile_nodes :: "node_registry \<Rightarrow> graph \<Rightarrow> name list \<Rightarrow> (name \<rightharpoonup> node) \<Rightarrow> (go_error + (name \<rightharpoonup> node)) exec" where
  "compile_nodes reg g [] m = Ret (Inr m)"
| "compile_nodes reg g (n # ns) m =
     (case gNodes g n of
        None \<Rightarrow> Panic ''nil node definition''
      | Some nd \<Rightarrow>
         (case nr_factories reg (nd_Type nd) of
            None \<Rightarrow> Ret (Inl (''unknown node type: '' @ nd_Type nd))
          | Some create \<Rightarrow>
             (case create nd of
                Inl msg \<Rightarrow> Ret (Inl msg)
              | Inr st \<Rightarrow> compile_nodes reg g ns (m(n \<mapsto> compile_node nd st)))))"

text \<open>
  \<open>it1\<close> and \<open>it2\<close> are the orders in which the two graph passes visit the node map. The outer
  option is the fuel of these passes; it is never exhausted (\<open>Builder_Build_returns\<close>).
\<close>

definition build_graph :: "name list \<Rightarrow> name list \<Rightarrow> workflow_def \<Rightarrow> (builder_error + graph \<times> name list) option" where
  "build_graph it1 it2 def =
     (case Build def of
        Inl x \<Rightarrow> Some (Inl (GraphError x))
      | Inr g \<Rightarrow>
         (case DetectCycle it1 g of
            None \<Rightarrow> None
          | Some (Some x) \<Rightarrow> Some (Inl (GraphError x))
          | Some None \<Rightarrow>
             (case TopoSort it2 g of
                None \<Rightarrow> None
              | Some (Inl x) \<Rightarrow> Some (Inl (GraphError x))
              | Some (Inr order) \<Rightarrow> Some (Inr (g, order)))))"

definition Builder_Build :: "env \<Rightarrow> node_registry \<Rightarrow> name list \<Rightarrow> name list \<Rightarrow> workflow_def
    \<Rightarrow> (builder_error + compiled_workflow) exec option" where
  "Builder_Build e reg it1 it2 def =
     (case validateOutputMapping e (wf_Output def) of
        Some m \<Rightarrow> Some (Ret (Inl (BuildError m)))
      | None \<Rightarrow>
         (case validateEdges def of
            Some x \<Rightarrow> Some (Ret (Inl (GraphError x)))
          | None \<Rightarrow>
             (case validate_nodes reg (wf_Nodes def) of
                Some m \<Rightarrow> Some (Ret (Inl (BuildError m)))
              | None \<Rightarrow>
                 (case build_graph it1 it2 def of
                    None \<Rightarrow> None
                  | Some (Inl x) \<Rightarrow> Some (Ret (Inl x))
                  | Some (Inr (g, order)) \<Rightarrow>
                     Some (bind_exec (compile_nodes reg g order Map.empty) (\<lambda>r.
                       case r of
                         Inl m \<Rightarrow> Ret (Inl (BuildError m))
                       | Inr ns \<Rightarrow> Ret (Inr \<lparr>cw_nodes = ns, cw_graph = g, cw_order = order\<rparr>)))))))"

subsection \<open>When the passes succeed\<close>

definition visits :: "name list \<Rightarrow> workflow_def \<Rightarrow> bool" where
  "visits it def \<longleftrightarrow> distinct it \<and> set it = nd_Name ` set (wf_Nodes def)"

definition def_edges :: "workflow_def \<Rightarrow> (name \<times> name) set" where
  "def_edges def = {(From ed, To ed) | ed. ed \<in> set (wf_Edges def)}"

lemma visits_enumerates: "visits it def \<Longrightarrow> Build def = Inr g \<Longrightarrow> enumerates it (gNodes g)"
  using Build_Inr [of def g] by (simp add: visits_def enumerates_def)

lemma Build_edge_rel: "Build def = Inr g \<Longrightarrow> edge_rel g = def_edges def"
  using Build_Inr [of def g] by (auto simp: edge_rel_def def_edges_def wf_graph_children)

lemma build_nodes_succeeds:
  "distinct (map nd_Name ns) \<Longrightarrow> nd_Name ` set ns \<inter> dom (gNodes g) = {} \<Longrightarrow> \<exists>g'. build_nodes ns g = Inr g'"
  by (induction ns arbitrary: g) (auto split: option.splits)

lemma build_edges_succeeds:
  "\<forall>ed\<in>set es. From ed \<in> dom (gNodes g) \<and> To ed \<in> dom (gNodes g) \<Longrightarrow> \<exists>g'. build_edges es g = Inr g'"
  by (induction es arbitrary: g) (auto simp: add_edge_def)

lemma Build_iff:
  "(\<exists>g. Build def = Inr g) \<longleftrightarrow> distinct (map nd_Name (wf_Nodes def))
     \<and> (\<forall>ed\<in>set (wf_Edges def). From ed \<in> nd_Name ` set (wf_Nodes def) \<and> To ed \<in> nd_Name ` set (wf_Nodes def))"
  (is "?L \<longleftrightarrow> ?D \<and> ?E")
proof
  assume ?L
  then obtain g where g: "Build def = Inr g" by blast
  note b = Build_Inr [OF g]
  have ?E
  proof
    fix ed
    assume "ed \<in> set (wf_Edges def)"
    with b have "ed \<in> set (Edges g (From ed))" by simp
    moreover have "wf_graph g" using b by simp
    ultimately have "From ed \<in> dom (gNodes g) \<and> To ed \<in> dom (gNodes g)" using wf_graph_edges by blast
    with b show "From ed \<in> nd_Name ` set (wf_Nodes def) \<and> To ed \<in> nd_Name ` set (wf_Nodes def)" by simp
  qed
  with b show "?D \<and> ?E" by simp
next
  assume r: "?D \<and> ?E"
  with build_nodes_succeeds [of "wf_Nodes def" empty_graph] obtain g where
    g: "build_nodes (wf_Nodes def) empty_graph = Inr g" by (auto simp: empty_graph_def)
  with build_nodes_Inr [OF g] r have
    "\<forall>ed\<in>set (wf_Edges def). From ed \<in> dom (gNodes g) \<and> To ed \<in> dom (gNodes g)"
    by (simp add: empty_graph_def)
  with build_edges_succeeds g show ?L by (simp add: Build_def)
qed

lemma validate_edge_list_iff:
  "validate_edge_list ns es = None \<longleftrightarrow>
     (\<forall>ed\<in>set es. From ed \<in> ns \<and> To ed \<in> ns \<and> (Condition ed = [] \<or> CaseKey ed = []))"
  by (induction es) auto

lemma validate_config_iff:
  "validate_config n sch config = None \<longleftrightarrow>
     (\<forall>(f, fs)\<in>set sch. case map_of config f of
        None \<Rightarrow> \<not> fs_Required fs | Some v \<Rightarrow> validateFieldType (fs_Type fs) v = None)"
proof (induction sch)
  case Nil
  then show ?case by simp
next
  case (Cons p sch)
  obtain f fs where p: "p = (f, fs)" by force
  show ?case
  proof (cases "map_of config f")
    case None
    with p Cons show ?thesis by simp
  next
    case (Some v)
    with p Cons show ?thesis by (cases "validateFieldType (fs_Type fs) v") simp_all
  qed
qed

lemma validate_nodes_iff:
  "validate_nodes reg nds = None \<longleftrightarrow>
     (\<forall>nd\<in>set nds. \<not> deprecated_type (nd_Type nd) \<and> ValidateNode reg nd = None)"
  by (induction nds) (auto split: option.splits)

lemma first_error_iff: "first_error xs chk = None \<longleftrightarrow> (\<forall>(f, s)\<in>set xs. chk f s = None)"
  by (induction xs) (auto split: option.splits)

lemma build_graph_cases:
  assumes "visits it1 def" and "visits it2 def"
  shows "(\<exists>g order. build_graph it1 it2 def = Some (Inr (g, order)) \<and> Build def = Inr g
            \<and> topo_order g order \<and> acyclic (def_edges def))
       \<or> (\<exists>x. build_graph it1 it2 def = Some (Inl (GraphError x))
            \<and> ((\<nexists>g. Build def = Inr g) \<or> \<not> acyclic (def_edges def)))"
proof (cases "Build def")
  case (Inl x)
  then show ?thesis by (simp add: build_graph_def)
next
  case (Inr g)
  have en: "enumerates it1 (gNodes g)" "enumerates it2 (gNodes g)"
    using visits_enumerates assms Inr by blast+
  have wfg: "wf_graph g" using Build_Inr [OF Inr] by simp
  have rel: "edge_rel g = def_edges def" using Build_edge_rel [OF Inr] .
  show ?thesis
  proof (cases "acyclic (def_edges def)")
    case True
    with graph_pkg.check_acyclic [OF wfg en(1)] have d: "DetectCycle it1 g = Some None" by (simp add: rel)
    from graph_pkg.check_passed_order [OF wfg en d] obtain order where
      "TopoSort it2 g = Some (Inr order)" "topo_order g order" by blast
    with d Inr True show ?thesis by (simp add: build_graph_def)
  next
    case False
    with graph_pkg.check_acyclic [OF wfg en(1)] have "DetectCycle it1 g = Some (Some CycleDetected)"
      by (simp add: rel)
    with Inr False show ?thesis by (simp add: build_graph_def)
  qed
qed

text \<open>The factory of a node type, and the step it makes.\<close>

definition creates :: "node_registry \<Rightarrow> node_def \<Rightarrow> step \<Rightarrow> bool" where
  "creates reg nd st \<longleftrightarrow> (\<exists>f. nr_factories reg (nd_Type nd) = Some f \<and> f nd = Inr st)"

lemma creates_unique: "creates reg nd st \<Longrightarrow> creates reg nd st' \<Longrightarrow> st = st'"
  by (auto simp: creates_def)

lemma compile_nodes_Ret:
  assumes "\<forall>n\<in>set ns. gNodes g n \<noteq> None"
  shows "(\<exists>m'. compile_nodes reg g ns m = Ret (Inr m')
            \<and> (\<forall>n\<in>set ns. \<exists>nd st. gNodes g n = Some nd \<and> creates reg nd st \<and> m' n = Some (compile_node nd st))
            \<and> (\<forall>n. n \<notin> set ns \<longrightarrow> m' n = m n))
       \<or> (\<exists>msg. compile_nodes reg g ns m = Ret (Inl msg) \<and> (\<exists>n\<in>set ns. \<forall>nd st. gNodes g n = Some nd \<longrightarrow> \<not> creates reg nd st))"
  using assms
proof (induction ns arbitrary: m)
  case Nil
  then show ?case by simp
next
  case (Cons n ns)
  then obtain nd where nd: "gNodes g n = Some nd" by auto
  show ?case
  proof (cases "\<exists>st. creates reg nd st")
    case False
    with nd show ?thesis by (auto simp: creates_def split: option.splits sum.splits)
  next
    case True
    then obtain st where st: "creates reg nd st" by blast
    let ?m = "m(n \<mapsto> compile_node nd st)"
    from st nd have eq: "compile_nodes reg g (n # ns) m = compile_nodes reg g ns ?m"
      by (auto simp: creates_def)
    have "\<forall>n\<in>set ns. gNodes g n \<noteq> None" using Cons.prems by simp
    from Cons.IH [OF this, of ?m] consider
      (ok) m' where "compile_nodes reg g ns ?m = Ret (Inr m')"
        "\<forall>n\<in>set ns. \<exists>nd st. gNodes g n = Some nd \<and> creates reg nd st \<and> m' n = Some (compile_node nd st)"
        "\<forall>n. n \<notin> set ns \<longrightarrow> m' n = ?m n"
      | (err) msg where "compile_nodes reg g ns ?m = Ret (Inl msg)"
        "\<exists>n\<in>set ns. \<forall>nd st. gNodes g n = Some nd \<longrightarrow> \<not> creates reg nd st"
      by blast
    then show ?thesis
    proof cases
      case ok
      have "\<exists>nd st. gNodes g k = Some nd \<and> creates reg nd st \<and> m' k = Some (compile_node nd st)"
        if "k \<in> set (n # ns)" for k
        using that ok(2,3) nd st by (cases "k \<in> set ns") auto
      with ok(1,3) eq show ?thesis by auto
    next
      case err
      with eq show ?thesis by auto
    qed
  qed
qed

lemma InitNodeRegistry_Ret:
  "\<exists>reg. InitNodeRegistry tools = Ret reg
     \<and> nr_factories reg = [''start'' \<mapsto> StartNodeFactory, ''end'' \<mapsto> EndNodeFactory,
         ''subworkflow'' \<mapsto> SubWorkflowNodeFactory, ''map'' \<mapsto> MapNodeFactory,
         ''loop'' \<mapsto> LoopNodeFactory, ''await'' \<mapsto> AwaitNodeFactory, ''tool'' \<mapsto> ToolFactory tools]
     \<and> nr_schemas reg = [''start'' \<mapsto> StartNodeSchema, ''end'' \<mapsto> EndNodeSchema,
         ''subworkflow'' \<mapsto> SubWorkflowNodeSchema, ''map'' \<mapsto> MapNodeSchema,
         ''loop'' \<mapsto> LoopNodeSchema, ''await'' \<mapsto> AwaitNodeSchema, ''tool'' \<mapsto> ToolNodeSchema]"
  by (simp add: InitNodeRegistry_def RegisterBuiltinNodes_def Register_def NewNodeRegistry_def)

lemma subworkflow_runnable:
  assumes "InitNodeRegistry tools = Ret reg" and "creates reg nd st"
  shows "runnable (compile_node nd st)"
proof (cases "nd_Type nd = ''subworkflow''")
  case True
  from InitNodeRegistry_Ret [of tools] assms(1)
  have "nr_factories reg ''subworkflow'' = Some SubWorkflowNodeFactory" by auto
  with True assms(2) have "SubWorkflowNodeFactory nd = Inr st" by (simp add: creates_def)
  then obtain s where "map_of (nd_Config nd) ''workflow'' = Some (VStr s)"
    by (auto simp: SubWorkflowNodeFactory_def config_str_def split: option.splits gval.splits)
  then show ?thesis by (simp add: runnable_def compile_node_def)
qed (simp add: runnable_def compile_node_def)

text \<open>What an accepted definition satisfies, in terms of the definition alone.\<close>

definition outputs_compile :: "env \<Rightarrow> output_def \<Rightarrow> bool" where
  "outputs_compile e od \<longleftrightarrow>
     (\<forall>s\<in>{od_PrimaryFileUrl od, od_CoverUrl od, od_PreviewUrl od, od_Width od, od_Height od, od_Duration od}
         \<union> snd ` set (od_Extras od). s = [] \<or> expr_compile e output_expr_env s = None)
     \<and> (\<forall>k\<in>fst ` set (od_Extras od). k \<noteq> [])"

definition acceptable :: "env \<Rightarrow> node_registry \<Rightarrow> workflow_def \<Rightarrow> bool" where
  "acceptable e reg def \<longleftrightarrow> outputs_compile e (wf_Output def)
     \<and> distinct (map nd_Name (wf_Nodes def))
     \<and> (\<forall>ed\<in>set (wf_Edges def). From ed \<in> nd_Name ` set (wf_Nodes def) \<and> To ed \<in> nd_Name ` set (wf_Nodes def)
          \<and> (Condition ed = [] \<or> CaseKey ed = []))
     \<and> acyclic (def_edges def)
     \<and> (\<forall>nd\<in>set (wf_Nodes def). \<not> deprecated_type (nd_Type nd) \<and> ValidateNode reg nd = None
          \<and> (\<exists>st. creates reg nd st))"

lemma validateExpr_iff: "validateExpr e f s = None \<longleftrightarrow> s = [] \<or> expr_compile e output_expr_env s = None"
  by (auto simp: validateExpr_def split: option.splits)

lemma validateOutputMapping_iff: "validateOutputMapping e od = None \<longleftrightarrow> outputs_compile e od"
proof -
  have ex: "first_error xs (\<lambda>k s. if k = [] then Some m else validateExpr e (''Extras.'' @ k) s) = None
     \<longleftrightarrow> (\<forall>k\<in>fst ` set xs. k \<noteq> []) \<and> (\<forall>s\<in>snd ` set xs. s = [] \<or> expr_compile e output_expr_env s = None)" for xs m
    by (force simp: first_error_iff validateExpr_iff)
  have cases: "validateOutputMapping e od = None \<longleftrightarrow>
      first_error
        [(''PrimaryFileUrl'', od_PrimaryFileUrl od), (''CoverUrl'', od_CoverUrl od),
         (''PreviewUrl'', od_PreviewUrl od), (''Width'', od_Width od), (''Height'', od_Height od),
         (''Duration'', od_Duration od)] (validateExpr e) = None
      \<and> first_error (od_Extras od) (\<lambda>k s.
          if k = [] then Some ''output extras key cannot be empty'' else validateExpr e (''Extras.'' @ k) s) = None"
    by (simp add: validateOutputMapping_def split: option.splits)
  show ?thesis
    unfolding cases ex outputs_compile_def
    by (simp only: first_error_iff) (simp add: validateExpr_iff ball_Un conj_ac)
qed

lemma gNodes_of_Build:
  assumes "Build def = Inr g"
  shows "gNodes g n = Some nd \<longleftrightarrow> nd \<in> set (wf_Nodes def) \<and> nd_Name nd = n"
proof -
  from assms obtain g0 where g0: "build_nodes (wf_Nodes def) empty_graph = Inr g0"
    and g: "build_edges (wf_Edges def) g0 = Inr g" by (auto simp: Build_def split: sum.splits)
  have some: "gNodes g0 k = Some d \<Longrightarrow> d \<in> set (wf_Nodes def) \<and> nd_Name d = k" for k d
    using build_nodes_Inr [OF g0] by (auto simp: empty_graph_def)
  have b: "dom (gNodes g0) = nd_Name ` set (wf_Nodes def)" "distinct (map nd_Name (wf_Nodes def))"
    using build_nodes_Inr [OF g0] by (auto simp: empty_graph_def)
  have eq: "gNodes g = gNodes g0"
  proof -
    have "build_edges es h = Inr g \<Longrightarrow> gNodes g = gNodes h" for es h
      by (induction es arbitrary: h) (auto simp: add_edge_def split: if_splits)
    with g show ?thesis by blast
  qed
  show ?thesis
  proof
    assume "gNodes g n = Some nd"
    with some eq show "nd \<in> set (wf_Nodes def) \<and> nd_Name nd = n" by simp
  next
    assume nd: "nd \<in> set (wf_Nodes def) \<and> nd_Name nd = n"
    with b(1) obtain d where d: "gNodes g0 n = Some d" by blast
    with some have "d \<in> set (wf_Nodes def)" "nd_Name d = n" by auto
    with nd b(2) have "d = nd" by (auto simp: distinct_map inj_on_def)
    with d eq show "gNodes g n = Some nd" by simp
  qed
qed

definition compiled :: "node_registry \<Rightarrow> workflow_def \<Rightarrow> compiled_workflow \<Rightarrow> bool" where
  "compiled reg def w \<longleftrightarrow> Build def = Inr (cw_graph w) \<and> topo_order (cw_graph w) (cw_order w)
     \<and> (\<forall>nd\<in>set (wf_Nodes def). \<exists>st. creates reg nd st \<and> cw_nodes w (nd_Name nd) = Some (compile_node nd st))"

definition after_graph :: "node_registry \<Rightarrow> builder_error + graph \<times> name list
    \<Rightarrow> (builder_error + compiled_workflow) exec" where
  "after_graph reg r = (case r of
      Inl x \<Rightarrow> Ret (Inl x)
    | Inr (g, order) \<Rightarrow>
       bind_exec (compile_nodes reg g order Map.empty) (\<lambda>r.
         case r of
           Inl m \<Rightarrow> Ret (Inl (BuildError m))
         | Inr ns \<Rightarrow> Ret (Inr \<lparr>cw_nodes = ns, cw_graph = g, cw_order = order\<rparr>)))"

text \<open>The last stage: all nodes of a good graph are compiled, or a factory refuses one.\<close>

lemma after_graph_cases:
  assumes "Build def = Inr g" and "topo_order g order"
  shows "(\<exists>w. after_graph reg (Inr (g, order)) = Ret (Inr w) \<and> compiled reg def w
            \<and> (\<forall>nd\<in>set (wf_Nodes def). \<exists>st. creates reg nd st))
       \<or> (\<exists>x. after_graph reg (Inr (g, order)) = Ret (Inl x)
            \<and> \<not> (\<forall>nd\<in>set (wf_Nodes def). \<exists>st. creates reg nd st))"
proof -
  have ord: "set order = nd_Name ` set (wf_Nodes def)"
    using assms(2) Build_Inr [OF assms(1)] by (simp add: topo_order_def enumerates_def)
  have in_g: "gNodes g (nd_Name nd) = Some nd" if "nd \<in> set (wf_Nodes def)" for nd
    using gNodes_of_Build [OF assms(1)] that by simp
  have "\<forall>n\<in>set order. gNodes g n \<noteq> None" using ord in_g by auto
  from compile_nodes_Ret [OF this, of reg Map.empty] consider
    (ok) m' where "compile_nodes reg g order Map.empty = Ret (Inr m')"
      "\<forall>n\<in>set order. \<exists>nd st. gNodes g n = Some nd \<and> creates reg nd st \<and> m' n = Some (compile_node nd st)"
  | (err) msg n where "compile_nodes reg g order Map.empty = Ret (Inl msg)" "n \<in> set order"
      "\<forall>nd st. gNodes g n = Some nd \<longrightarrow> \<not> creates reg nd st"
    by blast
  then show ?thesis
  proof cases
    case ok
    have c: "\<exists>st. creates reg nd st \<and> m' (nd_Name nd) = Some (compile_node nd st)"
      if "nd \<in> set (wf_Nodes def)" for nd
    proof -
      from that ord have "nd_Name nd \<in> set order" by blast
      with ok(2) in_g [OF that] show ?thesis by force
    qed
    let ?w = "\<lparr>cw_nodes = m', cw_graph = g, cw_order = order\<rparr>"
    have "after_graph reg (Inr (g, order)) = Ret (Inr ?w)" using ok(1) by (simp add: after_graph_def)
    moreover have "compiled reg def ?w" using c assms by (simp add: compiled_def)
    ultimately show ?thesis using c by blast
  next
    case err
    obtain nd where "nd \<in> set (wf_Nodes def)" "nd_Name nd = n" using err(2) ord by auto
    with err(3) in_g have "\<not> (\<forall>nd\<in>set (wf_Nodes def). \<exists>st. creates reg nd st)" by blast
    with err(1) show ?thesis by (simp add: after_graph_def)
  qed
qed

text \<open>A definition that fails a check before the graph is built is refused, and not acceptable.\<close>

lemma early_rejection:
  "(\<exists>x. Builder_Build e reg it1 it2 def = Some (Ret (Inl x)) \<and> \<not> acceptable e reg def)
   \<or> (Builder_Build e reg it1 it2 def = map_option (after_graph reg) (build_graph it1 it2 def)
      \<and> (acceptable e reg def \<longleftrightarrow> (\<exists>g. Build def = Inr g) \<and> acyclic (def_edges def)
            \<and> (\<forall>nd\<in>set (wf_Nodes def). \<exists>st. creates reg nd st)))"
proof -
  note iffs = validateOutputMapping_iff [of e "wf_Output def"]
    validate_edge_list_iff [of "set (map nd_Name (wf_Nodes def))" "wf_Edges def"]
    validate_nodes_iff [of reg "wf_Nodes def"]
  show ?thesis
  proof (cases "validateOutputMapping e (wf_Output def)")
    case (Some m)
    with iffs(1) have "\<not> acceptable e reg def" by (simp add: acceptable_def)
    with Some show ?thesis by (simp add: Builder_Build_def)
  next
    case out: None
    show ?thesis
    proof (cases "validateEdges def")
      case (Some x)
      with iffs(2) have "\<not> acceptable e reg def" by (simp add: acceptable_def validateEdges_def)
      with out Some show ?thesis by (simp add: Builder_Build_def)
    next
      case ed: None
      show ?thesis
      proof (cases "validate_nodes reg (wf_Nodes def)")
        case (Some m)
        with iffs(3) have "\<not> acceptable e reg def" by (auto simp: acceptable_def)
        with out ed Some show ?thesis by (simp add: Builder_Build_def)
      next
        case nd: None
        have "Builder_Build e reg it1 it2 def = map_option (after_graph reg) (build_graph it1 it2 def)"
          using out ed nd by (auto simp: Builder_Build_def after_graph_def split: option.splits sum.splits)
        moreover have "acceptable e reg def \<longleftrightarrow> (\<exists>g. Build def = Inr g) \<and> acyclic (def_edges def)
            \<and> (\<forall>nd\<in>set (wf_Nodes def). \<exists>st. creates reg nd st)"
          using out ed nd iffs unfolding acceptable_def validateEdges_def Build_iff by auto
        ultimately show ?thesis by blast
      qed
    qed
  qed
qed

text \<open>The two outcomes of the builder.\<close>

lemma Builder_Build_cases:
  assumes "visits it1 def" and "visits it2 def"
  shows "(acceptable e reg def \<and> (\<exists>w. Builder_Build e reg it1 it2 def = Some (Ret (Inr w)) \<and> compiled reg def w))
       \<or> (\<not> acceptable e reg def \<and> (\<exists>x. Builder_Build e reg it1 it2 def = Some (Ret (Inl x))))"
proof -
  from early_rejection [of e reg it1 it2 def] consider
    (early) x where "Builder_Build e reg it1 it2 def = Some (Ret (Inl x))" "\<not> acceptable e reg def"
  | (late) "Builder_Build e reg it1 it2 def = map_option (after_graph reg) (build_graph it1 it2 def)"
      "acceptable e reg def \<longleftrightarrow> (\<exists>g. Build def = Inr g) \<and> acyclic (def_edges def)
            \<and> (\<forall>nd\<in>set (wf_Nodes def). \<exists>st. creates reg nd st)"
    by blast
  then show ?thesis
  proof cases
    case early
    then show ?thesis by blast
  next
    case late
    from build_graph_cases [OF assms] consider
      (graph) g order where "build_graph it1 it2 def = Some (Inr (g, order))" "Build def = Inr g"
        "topo_order g order" "acyclic (def_edges def)"
    | (no_graph) x where "build_graph it1 it2 def = Some (Inl (GraphError x))"
        "(\<nexists>g. Build def = Inr g) \<or> \<not> acyclic (def_edges def)"
      by blast
    then show ?thesis
    proof cases
      case graph
      with after_graph_cases [OF graph(2,3), of reg] late show ?thesis by auto
    next
      case no_graph
      with late show ?thesis by (auto simp: after_graph_def)
    qed
  qed
qed

lemma accepted_compiled_from:
  assumes "InitNodeRegistry tools = Ret reg" and "compiled reg def w"
    and "\<forall>nd\<in>set (wf_Nodes def). \<not> has_arrow (nd_Name nd)"
  shows "compiled_from def w"
proof -
  from assms(2) have B: "Build def = Inr (cw_graph w)" and T: "topo_order (cw_graph w) (cw_order w)"
    and N: "\<forall>nd\<in>set (wf_Nodes def). \<exists>st. creates reg nd st \<and> cw_nodes w (nd_Name nd) = Some (compile_node nd st)"
    by (auto simp: compiled_def)
  have ord: "set (cw_order w) = nd_Name ` set (wf_Nodes def)"
    using T Build_Inr [OF B] by (simp add: topo_order_def enumerates_def)
  have "\<exists>nd. cw_nodes w n = Some nd \<and> n_Name nd = n \<and> runnable nd" if n: "n \<in> set (cw_order w)" for n
  proof -
    from n ord obtain d where "d \<in> set (wf_Nodes def)" "nd_Name d = n" by auto
    with N obtain st where "creates reg d st" "cw_nodes w n = Some (compile_node d st)" by blast
    with subworkflow_runnable [OF assms(1)] \<open>nd_Name d = n\<close> show ?thesis
      by (auto simp: compile_node_def)
  qed
  with B T assms(3) show ?thesis by (simp add: compiled_from_def wf_compiled_def)
qed

subsection \<open>Properties\<close>

text \<open>
  C6. The builder decides exactly: for every order in which Go visits the node map it returns
  without a panic, and it accepts a definition if and only if its output expressions
  compile, node names are distinct, edges connect declared nodes and carry at most one kind
  of condition, the edges form no cycle, and every node passes its type's configuration
  schema and is made by its factory. An accepted definition comes with a topological order.
\<close>

theorem Builder_accepts_iff:
  assumes "visits it1 def" and "visits it2 def"
  shows "\<exists>r. Builder_Build e reg it1 it2 def = Some (Ret r)
    \<and> ((\<exists>w. r = Inr w) \<longleftrightarrow> acceptable e reg def)
    \<and> (\<forall>w. r = Inr w \<longrightarrow> topo_order (cw_graph w) (cw_order w) \<and> set (cw_order w) = nd_Name ` set (wf_Nodes def))"
proof -
  have "compiled reg def w \<Longrightarrow> topo_order (cw_graph w) (cw_order w)
      \<and> set (cw_order w) = nd_Name ` set (wf_Nodes def)" for w
    using Build_Inr [of def "cw_graph w"] by (auto simp: compiled_def topo_order_def enumerates_def)
  with Builder_Build_cases [OF assms, of e reg] show ?thesis by auto
qed

definition sample_registry :: node_registry where
  "sample_registry = (case InitNodeRegistry Map.empty of Ret r \<Rightarrow> r | Panic _ \<Rightarrow> NewNodeRegistry)"

lemma sample_registry: "InitNodeRegistry Map.empty = Ret sample_registry"
  using InitNodeRegistry_Ret [of Map.empty] by (auto simp: sample_registry_def)

lemma solo_acceptable: "acceptable (sample_env True) sample_registry solo"
proof -
  have "nr_factories sample_registry ''start'' = Some StartNodeFactory"
    "nr_schemas sample_registry ''start'' = Some StartNodeSchema"
    using InitNodeRegistry_Ret [of Map.empty] sample_registry by auto
  then show ?thesis
    by (simp add: acceptable_def outputs_compile_def solo_def sample_defs def_edges_def acyclic_def
        deprecated_type_def ValidateNode_def StartNodeSchema_def creates_def StartNodeFactory_def
        sample_env_def)
qed

lemma solo_visits: "visits [''a''] solo"
  by (simp add: visits_def solo_def sample_node_def)

theorem Builder_accepts_iff_witness:
  "\<exists>w. Builder_Build (sample_env True) sample_registry [''a''] [''a''] solo = Some (Ret (Inr w))
     \<and> cw_order w = [''a'']"
proof -
  obtain w where w: "Builder_Build (sample_env True) sample_registry [''a''] [''a''] solo = Some (Ret (Inr w))"
    "topo_order (cw_graph w) (cw_order w)" "set (cw_order w) = {''a''}"
    using Builder_accepts_iff [OF solo_visits solo_visits, of "sample_env True" sample_registry] solo_acceptable
    by (auto simp: solo_def sample_node_def)
  then have "distinct (cw_order w)" by (simp add: topo_order_def enumerates_def)
  with w(3) have "length (cw_order w) = 1" by (simp flip: distinct_card)
  with w(3) have "cw_order w = [''a'']" by (cases "cw_order w") auto
  with w(1) show ?thesis by blast
qed

end
