(* ===== verification/Flux_Paths.thy ===== *)
theory Flux_Paths
  imports Flux_Subworkflow
begin

text \<open>
  \<^verbatim>\<open>engine/patch_path.go\<close> and \<^verbatim>\<open>applyPatchToMap\<close> of \<^verbatim>\<open>engine/patch_runtime.go\<close>: the paths by
  which a patch addresses a place in the output or the checkpoint of a node, and reading,
  setting, deleting and merging at a path. The locale \<open>path_store\<close> states what a store
  addressed by paths promises; documents with \<^verbatim>\<open>GetByPath\<close> and \<^verbatim>\<open>SetByPath\<close> are its instance.
\<close>

subsection \<open>Path tokens\<close>

definition TrimDots :: "string \<Rightarrow> string" where
  "TrimDots s = trim_by (\<lambda>ch. ch = CHR ''.'') s"

datatype path_token = PKey string | PIndex int

fun parse_quoted :: "char \<Rightarrow> string \<Rightarrow> string \<Rightarrow> go_error + string \<times> string" where
  "parse_quoted q acc [] = Inl ''unterminated quoted key''"
| "parse_quoted q acc (ch # s) =
     (if ch = CHR 92 then
        (case s of [] \<Rightarrow> Inl ''invalid escape in bracket string'' | d # s' \<Rightarrow> parse_quoted q (acc @ [d]) s')
      else if ch = q then Inr (acc, s)
      else parse_quoted q (acc @ [ch]) s)"

text \<open>
  \<^verbatim>\<open>parseBracketToken\<close> on the text behind the opening bracket: the token and the text behind
  the closing one.
\<close>

definition close_bracket :: "string \<Rightarrow> go_error + string" where
  "close_bracket s = (case dropWhile is_space s of
      [] \<Rightarrow> Inl ''missing closing ]''
    | ch # r \<Rightarrow> if ch = CHR '']'' then Inr r else Inl ''missing closing ]'')"

definition parse_index :: "string \<Rightarrow> go_error + path_token \<times> string" where
  "parse_index s =
     (case dropWhile (\<lambda>ch. ch \<noteq> CHR '']'') s of
        [] \<Rightarrow> Inl ''missing closing ]''
      | _ # rest \<Rightarrow>
         (let raw = TrimSpace (takeWhile (\<lambda>ch. ch \<noteq> CHR '']'') s)
          in if raw = [] then Inl ''empty bracket token''
             else case ParseInt64 raw of
                 None \<Rightarrow> Inl ''only numeric index or quoted key is allowed''
               | Some i \<Rightarrow> if i < 0 then Inl ''negative array index'' else Inr (PIndex i, rest)))"

definition parseBracketToken :: "string \<Rightarrow> go_error + path_token \<times> string" where
  "parseBracketToken s0 =
     (case dropWhile is_space s0 of
        [] \<Rightarrow> Inl ''unterminated bracket segment''
      | ch # r \<Rightarrow>
         if ch = CHR 34 \<or> ch = CHR 39 then
           (case parse_quoted ch [] r of
              Inl m \<Rightarrow> Inl m
            | Inr (key, r1) \<Rightarrow>
               (case close_bracket r1 of Inl m \<Rightarrow> Inl m | Inr r2 \<Rightarrow> Inr (PKey key, r2)))
         else parse_index (ch # r))"

lemma parse_quoted_shorter: "parse_quoted q acc s = Inr (k, r) \<Longrightarrow> length r < length s"
  by (induction q acc s rule: parse_quoted.induct) (fastforce split: if_splits list.splits)+

lemma close_bracket_shorter: "close_bracket s = Inr r \<Longrightarrow> length r < length s"
  using length_dropWhile_le [of is_space s]
  by (auto simp: close_bracket_def split: list.splits if_splits)

lemma parse_index_shorter: "parse_index s = Inr (t, r) \<Longrightarrow> length r < length s"
  using length_dropWhile_le [of "\<lambda>ch. ch \<noteq> CHR '']''" s]
  by (auto simp: parse_index_def Let_def split: list.splits if_splits option.splits)

lemma parseBracketToken_shorter: "parseBracketToken s = Inr (t, r) \<Longrightarrow> length r < length s"
  using length_dropWhile_le [of is_space s]
  by (auto simp: parseBracketToken_def split: list.splits if_splits sum.splits prod.splits
        dest!: parse_quoted_shorter close_bracket_shorter parse_index_shorter)

text \<open>
  The loop of \<^verbatim>\<open>parsePatchTokens\<close> over the rest of the path. The text up to the next dot or
  bracket is a key, digits included.
\<close>

definition stops_key :: "char \<Rightarrow> bool" where
  "stops_key ch \<longleftrightarrow> ch = CHR ''.'' \<or> ch = CHR ''[''"

function parse_loop :: "string \<Rightarrow> path_token list \<Rightarrow> go_error + path_token list" where
  "parse_loop [] acc = Inr acc"
| "parse_loop (ch # s) acc =
     (if ch = CHR ''.'' then parse_loop s acc
      else if ch = CHR ''['' then
        (case parseBracketToken s of
           Inl m \<Rightarrow> Inl m
         | Inr (t, r) \<Rightarrow> parse_loop r (acc @ [t]))
      else
        (let part = TrimSpace (takeWhile (\<lambda>x. \<not> stops_key x) (ch # s))
         in if part = [] then Inl ''invalid empty path segment''
            else parse_loop (dropWhile (\<lambda>x. \<not> stops_key x) s) (acc @ [PKey part])))"
  by pat_completeness auto
termination
  by (relation "measure (length o fst)")
    (auto dest: parseBracketToken_shorter simp: less_Suc_eq_le length_dropWhile_le)

definition parsePatchTokens :: "string \<Rightarrow> go_error + path_token list" where
  "parsePatchTokens path =
     (let p = TrimDots (TrimSpace path) in if p = [] then Inr [] else parse_loop p [])"

subsection \<open>Reading and writing at a path\<close>

text \<open>
  Maps and slices are changed in place, so a writer returns the document as it is afterwards,
  also when it reports an error. The documents are trees: no container is reachable along
  two paths, which the deep copies at the callers ensure.
\<close>

definition makeContainerForNext :: "path_token \<Rightarrow> gval" where
  "makeContainerForNext t = (case t of PIndex _ \<Rightarrow> VList [] | PKey _ \<Rightarrow> VMap [])"

definition in_range :: "int \<Rightarrow> gval list \<Rightarrow> bool" where
  "in_range i xs \<longleftrightarrow> 0 \<le> i \<and> i < int (length xs)"

fun get_at :: "gval \<Rightarrow> path_token list \<Rightarrow> gval option" where
  "get_at cur [] = Some cur"
| "get_at (VMap m) (PKey k # ts) = (case map_of m k of None \<Rightarrow> None | Some v \<Rightarrow> get_at v ts)"
| "get_at (VList xs) (PIndex i # ts) = (if in_range i xs then get_at (xs ! nat i) ts else None)"
| "get_at _ _ = None"

definition open_child :: "gval option \<Rightarrow> path_token list \<Rightarrow> gval" where
  "open_child v ts = (case v of
      None \<Rightarrow> makeContainerForNext (hd ts)
    | Some x \<Rightarrow> if x = VNil then makeContainerForNext (hd ts) else x)"

fun setAtAny :: "gval \<Rightarrow> path_token list \<Rightarrow> gval \<Rightarrow> go_error option \<times> gval" where
  "setAtAny cur [] x = (None, cur)"
| "setAtAny (VMap m) (PIndex i # ts) x = (Some ''path segment expects array but got object'', VMap m)"
| "setAtAny (VMap m) (PKey k # ts) x =
     (if ts = [] then (None, VMap (AList.update k x m))
      else (let (r, child) = setAtAny (open_child (map_of m k) ts) ts x
            in (r, VMap (AList.update k child m))))"
| "setAtAny (VList xs) (PKey k # ts) x = (Some ''path segment expects object but got array'', VList xs)"
| "setAtAny (VList xs) (PIndex i # ts) x =
     (if i < 0 then (Some ''negative array index'', VList xs)
      else if i \<ge> int (length xs) then (Some ''array index out of range'', VList xs)
      else if ts = [] then (None, VList (xs[nat i := x]))
      else (let (r, child) = setAtAny (open_child (Some (xs ! nat i)) ts) ts x
            in (r, VList (xs[nat i := child]))))"
| "setAtAny cur (t # ts) x = (Some ''intermediate path container is neither object nor array'', cur)"

fun deleteAtAny :: "gval \<Rightarrow> path_token list \<Rightarrow> go_error option \<times> gval" where
  "deleteAtAny cur [] = (None, cur)"
| "deleteAtAny (VMap m) (PIndex i # ts) = (Some ''path segment expects array but got object'', VMap m)"
| "deleteAtAny (VMap m) (PKey k # ts) =
     (if ts = [] then (None, VMap (AList.delete k m))
      else case map_of m k of
          None \<Rightarrow> (None, VMap m)
        | Some v \<Rightarrow> if v = VNil then (None, VMap m)
                   else (let (r, child) = deleteAtAny v ts in (r, VMap (AList.update k child m))))"
| "deleteAtAny (VList xs) (PKey k # ts) = (Some ''path segment expects object but got array'', VList xs)"
| "deleteAtAny (VList xs) (PIndex i # ts) =
     (if \<not> in_range i xs then (None, VList xs)
      else if ts = [] then (None, VList (xs[nat i := VNil]))
      else if xs ! nat i = VNil then (None, VList xs)
      else (let (r, child) = deleteAtAny (xs ! nat i) ts in (r, VList (xs[nat i := child]))))"
| "deleteAtAny cur (t # ts) = (None, cur)"

text \<open>The root of a document is a map; a nil root is \<open>None\<close>.\<close>

definition GetByPath :: "gmap option \<Rightarrow> string \<Rightarrow> gval option" where
  "GetByPath doc path =
     (case doc of None \<Rightarrow> None | Some m \<Rightarrow>
        (case parsePatchTokens path of Inl _ \<Rightarrow> None | Inr ts \<Rightarrow> get_at (VMap m) ts))"

fun as_map :: "gval \<Rightarrow> gmap" where
  "as_map (VMap m) = m"
| "as_map _ = []"

definition SetByPath :: "gmap option \<Rightarrow> string \<Rightarrow> gval \<Rightarrow> go_error option \<times> gmap option" where
  "SetByPath doc path x =
     (case doc of None \<Rightarrow> (Some ''root is nil'', None) | Some m \<Rightarrow>
        (case parsePatchTokens path of
           Inl e \<Rightarrow> (Some e, doc)
         | Inr ts \<Rightarrow> if ts = [] then (Some ''path is empty'', doc)
                    else (let (r, v) = setAtAny (VMap m) ts x in (r, Some (as_map v)))))"

definition DeleteByPath :: "gmap option \<Rightarrow> string \<Rightarrow> go_error option \<times> gmap option" where
  "DeleteByPath doc path =
     (case doc of None \<Rightarrow> (Some ''root is nil'', None) | Some m \<Rightarrow>
        (case parsePatchTokens path of
           Inl e \<Rightarrow> (Some e, doc)
         | Inr ts \<Rightarrow> if ts = [] then (Some ''path is empty'', doc)
                    else (let (r, v) = deleteAtAny (VMap m) ts in (r, Some (as_map v)))))"

text \<open>\<open>overlay\<close> is the loop that copies the entries of one map into another.\<close>

definition overlay :: "gmap \<Rightarrow> gmap \<Rightarrow> gmap" where
  "overlay dst src = fold (\<lambda>(k, v). AList.update k v) src dst"

definition MergeByPath :: "gmap option \<Rightarrow> string \<Rightarrow> gval \<Rightarrow> go_error option \<times> gmap option" where
  "MergeByPath doc path x =
     (case doc of None \<Rightarrow> (Some ''root is nil'', None) | Some m \<Rightarrow>
        (case x of
           VMap src \<Rightarrow>
             (if TrimSpace path = [] then (None, Some (overlay m src))
              else case GetByPath doc path of
                  Some (VMap dst) \<Rightarrow>
                    (None, Some (case parsePatchTokens path of
                        Inr (t # ts) \<Rightarrow> as_map (snd (setAtAny (VMap m) (t # ts) (VMap (overlay dst src))))
                      | _ \<Rightarrow> overlay m src))
                | Some v \<Rightarrow> if v = VNil then SetByPath doc path (VMap src)
                           else (Some ''merge target is not an object'', doc)
                | None \<Rightarrow> SetByPath doc path (VMap src))
         | _ \<Rightarrow> (Some ''merge value must be map[string]any'', doc)))"

subsection \<open>Patches\<close>

record runtime_patch =
  p_Target :: string
  p_Node :: name
  p_Path :: string
  p_Op :: string
  p_Value :: gval
  p_Label :: string

definition PatchOpSet :: string where "PatchOpSet = ''set''"
definition PatchOpDelete :: string where "PatchOpDelete = ''delete''"
definition PatchOpMerge :: string where "PatchOpMerge = ''merge''"
definition PatchTargetNodeOutput :: string where "PatchTargetNodeOutput = ''node_output''"
definition PatchTargetNodeCheckpoint :: string where "PatchTargetNodeCheckpoint = ''node_checkpoint''"

definition applyPatchToMap :: "gmap option \<Rightarrow> runtime_patch \<Rightarrow> go_error option \<times> gmap option" where
  "applyPatchToMap doc p =
     (if p_Op p = PatchOpSet then SetByPath doc (p_Path p) (p_Value p)
      else if p_Op p = PatchOpDelete then DeleteByPath doc (p_Path p)
      else if p_Op p = PatchOpMerge then MergeByPath doc (p_Path p) (p_Value p)
      else (Some (''unsupported patch op: '' @ p_Op p), doc))"

subsection \<open>The contract of a store addressed by paths\<close>

text \<open>
  A store with partial writes: what was written is read back, independent paths do not
  disturb each other, writing back what is there changes nothing, and a second write at the
  same place wins. The clients are sequences of writes.
\<close>

locale path_store =
  fixes get :: "'r \<Rightarrow> 'p \<Rightarrow> 'v option"
    and put :: "'r \<Rightarrow> 'p \<Rightarrow> 'v \<Rightarrow> 'r option"
    and writable :: "'p \<Rightarrow> bool"
    and apart :: "'p \<Rightarrow> 'p \<Rightarrow> bool"
  assumes put_get: "writable p \<Longrightarrow> put r p v = Some r' \<Longrightarrow> get r' p = Some v"
    and put_frame: "apart p q \<Longrightarrow> put r p v = Some r' \<Longrightarrow> get r' q = get r q"
    and get_put: "writable p \<Longrightarrow> get r p = Some v \<Longrightarrow> put r p v = Some r"
    and put_put: "writable p \<Longrightarrow> put r p v = Some r' \<Longrightarrow> put r' p v' = put r p v'"
begin

fun puts :: "'r \<Rightarrow> ('p \<times> 'v) list \<Rightarrow> 'r option" where
  "puts r [] = Some r"
| "puts r ((p, v) # ws) = (case put r p v of None \<Rightarrow> None | Some r' \<Rightarrow> puts r' ws)"

lemma puts_frame: "puts r ws = Some r' \<Longrightarrow> \<forall>p\<in>fst ` set ws. apart p q \<Longrightarrow> get r' q = get r q"
proof (induction r ws rule: puts.induct)
  case (1 r)
  then show ?case by simp
next
  case (2 r p v ws)
  from "2.prems"(1) obtain r1 where r1: "put r p v = Some r1" "puts r1 ws = Some r'"
    by (auto split: option.splits)
  with 2 have "get r' q = get r1 q" by simp
  also have "\<dots> = get r q" using put_frame [OF _ r1(1)] "2.prems"(2) by simp
  finally show ?case .
qed

lemma puts_read_back:
  assumes "puts r ws = Some r'" and "(p, v) \<in> set ws"
    and "\<forall>p\<in>fst ` set ws. writable p" and "distinct (map fst ws)"
    and "\<forall>p\<in>fst ` set ws. \<forall>q\<in>fst ` set ws. p \<noteq> q \<longrightarrow> apart p q"
  shows "get r' p = Some v"
  using assms
proof (induction r ws rule: puts.induct)
  case (1 r)
  then show ?case by simp
next
  case (2 r a x ws)
  from "2.prems"(1) obtain r1 where r1: "put r a x = Some r1" "puts r1 ws = Some r'"
    by (auto split: option.splits)
  show ?case
  proof (cases "(p, v) = (a, x)")
    case True
    have "apart q a" if "q \<in> fst ` set ws" for q
    proof -
      have "q \<noteq> a" using "2.prems"(4) that by auto
      then show ?thesis using "2.prems"(5) that by auto
    qed
    then have "get r' a = get r1 a" using puts_frame [OF r1(2)] by blast
    also have "\<dots> = Some x" using put_get [OF _ r1(1)] "2.prems"(3) by simp
    finally show ?thesis using True by simp
  next
    case False
    with "2.prems"(2) have "(p, v) \<in> set ws" by auto
    with "2.IH" [OF r1] "2.prems"(3-5) show ?thesis by simp
  qed
qed

lemma undo: "writable p \<Longrightarrow> get r p = Some old \<Longrightarrow> put r p v = Some r' \<Longrightarrow> put r' p old = Some r"
  by (simp add: put_put get_put)

end

subsection \<open>Paths into documents obey the contract\<close>

definition write_at :: "gval \<Rightarrow> path_token list \<Rightarrow> gval \<Rightarrow> gval option" where
  "write_at doc ts x = (case setAtAny doc ts x of (None, d) \<Rightarrow> Some d | _ \<Rightarrow> None)"

lemma write_at_Some [simp]: "write_at doc ts x = Some d \<longleftrightarrow> setAtAny doc ts x = (None, d)"
  by (auto simp: write_at_def split: prod.splits option.splits)

lemma setAtAny_kind: "setAtAny (VMap m) ts x = (r, d) \<Longrightarrow> \<exists>m'. d = VMap m'"
  by (cases ts; cases "hd ts") (auto split: if_splits prod.splits)

lemma deleteAtAny_kind: "deleteAtAny (VMap m) ts = (r, d) \<Longrightarrow> \<exists>m'. d = VMap m'"
  by (cases ts; cases "hd ts") (auto split: if_splits prod.splits option.splits)

lemma update_same: "map_of m k = Some v \<Longrightarrow> AList.update k v m = m"
  by (induction m) (auto split: if_splits)

lemma update_update: "AList.update k v (AList.update k w m) = AList.update k v m"
  by (induction m) auto

lemma setAtAny_get: "ts \<noteq> [] \<Longrightarrow> setAtAny doc ts x = (None, d) \<Longrightarrow> get_at d ts = Some x"
proof (induction doc ts x arbitrary: d rule: setAtAny.induct)
  case (3 m k ts x)
  then show ?case by (auto simp: map_of_update split: if_splits prod.splits)
next
  case (5 xs i ts x)
  then show ?case by (auto simp: in_range_def split: if_splits prod.splits)
qed auto

lemma open_child_some [simp]: "v \<noteq> VNil \<Longrightarrow> open_child (Some v) ts = v"
  by (simp add: open_child_def)

lemma setAtAny_same: "ts \<noteq> [] \<Longrightarrow> get_at doc ts = Some x \<Longrightarrow> setAtAny doc ts x = (None, doc)"
proof (induction doc ts x rule: setAtAny.induct)
  case (3 m k ts x)
  then obtain v where v: "map_of m k = Some v" "get_at v ts = Some x" by (auto split: option.splits)
  show ?case
  proof (cases "ts = []")
    case True
    with v show ?thesis by (simp add: update_same)
  next
    case False
    with v(2) have "v \<noteq> VNil" by (cases ts) auto
    with 3 v False show ?thesis by (simp add: update_same)
  qed
next
  case (5 xs i ts x)
  then have i: "in_range i xs" "get_at (xs ! nat i) ts = Some x" by (auto split: if_splits)
  show ?case
  proof (cases "ts = []")
    case True
    with i show ?thesis by (auto simp: in_range_def)
  next
    case False
    with i(2) have "xs ! nat i \<noteq> VNil" by (cases ts) auto
    with 5 i False show ?thesis by (simp add: in_range_def)
  qed
qed auto

lemma setAtAny_nonnil: "ts \<noteq> [] \<Longrightarrow> setAtAny doc ts x = (None, d) \<Longrightarrow> d \<noteq> VNil"
  by (induction doc ts x arbitrary: d rule: setAtAny.induct) (auto split: if_splits prod.splits)

lemma setAtAny_again:
  "ts \<noteq> [] \<Longrightarrow> setAtAny doc ts x = (None, d) \<Longrightarrow> setAtAny d ts y = setAtAny doc ts y"
proof (induction doc ts x arbitrary: d rule: setAtAny.induct)
  case (3 m k ts x)
  show ?case
  proof (cases "ts = []")
    case True
    with 3 show ?thesis by (auto simp: update_update)
  next
    case False
    with "3.prems" obtain ch where ch: "setAtAny (open_child (map_of m k) ts) ts x = (None, ch)"
      "d = VMap (AList.update k ch m)" by (auto split: prod.splits)
    with "3.IH" [OF False False] have "setAtAny ch ts y = setAtAny (open_child (map_of m k) ts) ts y" by simp
    with ch False setAtAny_nonnil [OF False ch(1)] show ?thesis
      by (simp add: map_of_update update_update split: prod.splits)
  qed
next
  case (5 xs i ts x)
  show ?case
  proof (cases "ts = []")
    case True
    with 5 show ?thesis by (auto split: if_splits)
  next
    case False
    with "5.prems" have i: "\<not> i < 0" "\<not> int (length xs) \<le> i" by (auto split: if_splits)
    with False "5.prems" obtain ch where ch: "setAtAny (open_child (Some (xs ! nat i)) ts) ts x = (None, ch)"
      "d = VList (xs[nat i := ch])" by (auto split: prod.splits)
    with "5.IH" [OF i False False] have "setAtAny ch ts y = setAtAny (open_child (Some (xs ! nat i)) ts) ts y" by simp
    with ch False i setAtAny_nonnil [OF False ch(1)] show ?thesis by (simp split: prod.splits)
  qed
qed auto

lemma get_at_container: "\<not> prefix us [] \<Longrightarrow> get_at (makeContainerForNext t) us = None"
  by (cases us; cases "hd us"; cases t) (auto simp: makeContainerForNext_def in_range_def)

lemma get_at_VNil: "us \<noteq> [] \<Longrightarrow> get_at VNil us = None"
  by (cases us) auto

lemma get_at_open_child:
  "us \<noteq> [] \<Longrightarrow> get_at (open_child v ts) us = (case v of None \<Rightarrow> None | Some w \<Rightarrow> get_at w us)"
  by (auto simp: open_child_def get_at_container get_at_VNil split: option.splits)

lemma setAtAny_frame:
  "setAtAny doc ts x = (r, d) \<Longrightarrow> ts \<parallel> us \<Longrightarrow> get_at d us = get_at doc us"
proof (induction doc ts x arbitrary: d us r rule: setAtAny.induct)
  case (3 m k ts x)
  show ?case
  proof (cases us)
    case Nil
    with 3 show ?thesis by simp
  next
    case (Cons u us')
    show ?thesis
    proof (cases "u = PKey k")
      case True
      with Cons "3.prems"(2) have par: "ts \<parallel> us'" by (simp add: parallel_def)
      then have ne: "ts \<noteq> []" "us' \<noteq> []" by auto
      with "3.prems" obtain ch where ch: "setAtAny (open_child (map_of m k) ts) ts x = (r, ch)"
        "d = VMap (AList.update k ch m)" by (auto split: prod.splits)
      with "3.IH" [OF ne(1) ch(1) par] show ?thesis
        using Cons True ne by (simp add: map_of_update get_at_open_child split: option.splits)
    next
      case False
      with Cons "3.prems" show ?thesis
        by (cases u) (auto simp: map_of_update split: if_splits prod.splits)
    qed
  qed
next
  case (5 xs i ts x)
  show ?case
  proof (cases "in_range i xs")
    case False
    with 5 show ?thesis by (auto simp: in_range_def split: if_splits)
  next
    case i: True
    show ?thesis
    proof (cases us)
      case Nil
      with 5 show ?thesis by simp
    next
      case (Cons u us')
      show ?thesis
      proof (cases "u = PIndex i")
        case True
        with Cons "5.prems"(2) have par: "ts \<parallel> us'" by (simp add: parallel_def)
        then have ne: "ts \<noteq> []" "us' \<noteq> []" by auto
        with "5.prems" i obtain ch where ch: "setAtAny (open_child (Some (xs ! nat i)) ts) ts x = (r, ch)"
          "d = VList (xs[nat i := ch])" by (auto simp: in_range_def split: prod.splits)
        with "5.IH" [OF _ _ ne(1) ch(1) par] i show ?thesis
          using Cons True ne by (auto simp: in_range_def get_at_open_child nth_list_update nat_less_iff)
      next
        case False
        then have "nat i \<noteq> nat j" if "u = PIndex j" "in_range j xs" for j
          using i that by (auto simp: in_range_def)
        with Cons "5.prems" i show ?thesis
          by (cases u) (auto simp: in_range_def split: if_splits prod.splits)
      qed
    qed
  qed
qed auto

lemma write_at_again:
  assumes "ts \<noteq> []" and "write_at doc ts x = Some d"
  shows "write_at d ts y = write_at doc ts y"
  using setAtAny_again [OF assms(1)] assms(2) by (simp add: write_at_def [of _ _ y])

interpretation doc: path_store get_at write_at "\<lambda>ts. ts \<noteq> []" "(\<parallel>)"
proof unfold_locales
  fix ts us :: "path_token list" and d v x d' y
  show "ts \<noteq> [] \<Longrightarrow> write_at d ts x = Some d' \<Longrightarrow> get_at d' ts = Some x" by (simp add: setAtAny_get)
  show "ts \<parallel> us \<Longrightarrow> write_at d ts x = Some d' \<Longrightarrow> get_at d' us = get_at d us"
    using setAtAny_frame by simp
  show "ts \<noteq> [] \<Longrightarrow> get_at d ts = Some x \<Longrightarrow> write_at d ts x = Some d" by (simp add: setAtAny_same)
  show "ts \<noteq> [] \<Longrightarrow> write_at d ts x = Some d' \<Longrightarrow> write_at d' ts y = write_at d ts y"
    by (rule write_at_again)
qed

subsection \<open>Every path of tokens can be written down\<close>

text \<open>A quoted form for every key and a bracket form for every index.\<close>

definition quote_char :: "char \<Rightarrow> string" where
  "quote_char ch = (if ch = CHR 34 \<or> ch = CHR 92 then [CHR 92, ch] else [ch])"

fun print_token :: "path_token \<Rightarrow> string" where
  "print_token (PKey k) = CHR ''['' # CHR 34 # concat (map quote_char k) @ [CHR 34, CHR '']'']"
| "print_token (PIndex i) = CHR ''['' # FormatInt i @ [CHR '']'']"

definition print_path :: "path_token list \<Rightarrow> string" where
  "print_path ts = concat (map print_token ts)"

fun valid_token :: "path_token \<Rightarrow> bool" where
  "valid_token (PKey k) = True"
| "valid_token (PIndex i) = (0 \<le> i \<and> i < 2 ^ 63)"

lemma parse_quoted_print:
  "parse_quoted (CHR 34) acc (concat (map quote_char k) @ CHR 34 # s) = Inr (acc @ k, s)"
  by (induction k arbitrary: acc) (auto simp: quote_char_def)

abbreviation is_digit :: "char \<Rightarrow> bool" where
  "is_digit ch \<equiv> digit_val ch \<noteq> None"

lemma of_char_int: "(of_char ch :: int) = int (of_char ch)"
  by (rule of_nat_of_char [symmetric])

lemma digit_val_char_of:
  assumes "d < 10"
  shows "digit_val (char_of (48 + d :: nat)) = Some (int d)"
proof -
  have "(of_char (char_of (48 + d)) :: nat) = 48 + d" using assms by (simp add: of_char_of)
  with assms show ?thesis by (simp add: digit_val_def Let_def of_char_int)
qed

lemma is_digit_code: "is_digit ch \<Longrightarrow> 48 \<le> (of_char ch :: nat) \<and> (of_char ch :: nat) \<le> 57"
  by (auto simp: digit_val_def Let_def of_char_int split: if_splits)

lemma is_digit_plain:
  assumes "is_digit ch"
  shows "ch \<noteq> CHR '']''" "ch \<noteq> CHR 34" "ch \<noteq> CHR 39" "\<not> is_space ch" "ch \<noteq> CHR ''-''" "ch \<noteq> CHR ''+''"
  using is_digit_code [OF assms] by (auto simp: is_space_def Let_def)

lemma parse_digits_append:
  "parse_digits (xs @ ys) acc = (case parse_digits xs acc of None \<Rightarrow> None | Some r \<Rightarrow> parse_digits ys r)"
  by (induction xs arbitrary: acc) (auto split: option.splits)

lemma nat_digits_parse: "n \<le> fuel \<Longrightarrow> parse_digits (nat_digits fuel n) 0 = Some (int n)"
proof (induction fuel n rule: nat_digits.induct)
  case (1 fuel n)
  show ?case
  proof (cases "n < 10")
    case True
    then show ?thesis by (simp add: nat_digits.simps [of fuel n] digit_val_char_of)
  next
    case False
    with 1 have "parse_digits (nat_digits (fuel - 1) (n div 10)) 0 = Some (int (n div 10))" by auto
    moreover have "fuel \<noteq> 0" using False 1 by auto
    moreover have "10 * (int n div 10) + int n mod 10 = int n" by simp
    ultimately show ?thesis using False
      by (simp add: nat_digits.simps [of fuel n] parse_digits_append digit_val_char_of zdiv_int zmod_int)
  qed
qed

lemma nat_digits_digits: "ch \<in> set (nat_digits fuel n) \<Longrightarrow> is_digit ch"
proof (induction fuel n rule: nat_digits.induct)
  case (1 fuel n)
  have "is_digit (char_of (48 + n mod 10))" using digit_val_char_of [of "n mod 10"] by simp
  with 1 show ?case by (cases "n < 10 \<or> fuel = 0") (auto simp: nat_digits.simps [of fuel n])
qed

lemma nat_digits_ne: "nat_digits fuel n \<noteq> []"
  by (subst nat_digits.simps) simp

lemma FormatInt_digits: "0 \<le> i \<Longrightarrow> ch \<in> set (FormatInt i) \<Longrightarrow> is_digit ch"
  using nat_digits_digits [of ch] by (simp add: FormatInt_def)

lemma ParseInt64_FormatInt:
  assumes "0 \<le> i" and "i < 2 ^ 63"
  shows "ParseInt64 (FormatInt i) = Some i"
proof -
  from assms(1) have f: "FormatInt i = nat_digits (nat i) (nat i)" by (simp add: FormatInt_def)
  obtain ch r where r: "FormatInt i = ch # r" using nat_digits_ne f by (metis list.exhaust)
  with FormatInt_digits [OF assms(1), of ch] have "ch \<noteq> CHR ''-''" "ch \<noteq> CHR ''+''"
    using is_digit_plain by auto
  moreover have "parse_digits (FormatInt i) 0 = Some i" using nat_digits_parse assms(1) f by simp
  ultimately show ?thesis using assms r by (simp add: ParseInt64_def)
qed

lemma parse_index_print:
  assumes "0 \<le> i" and "i < 2 ^ 63"
  shows "parse_index (FormatInt i @ CHR '']'' # s) = Inr (PIndex i, s)"
proof -
  have plain: "\<forall>ch\<in>set (FormatInt i). ch \<noteq> CHR '']'' \<and> \<not> is_space ch"
    using FormatInt_digits [OF assms(1)] is_digit_plain by blast
  then have "takeWhile (\<lambda>ch. ch \<noteq> CHR '']'') (FormatInt i @ CHR '']'' # s) = FormatInt i"
    "dropWhile (\<lambda>ch. ch \<noteq> CHR '']'') (FormatInt i @ CHR '']'' # s) = CHR '']'' # s"
    by (simp_all add: takeWhile_append2 dropWhile_append2)
  moreover have ne: "FormatInt i \<noteq> []" using assms(1) by (simp add: FormatInt_def nat_digits_ne)
  then have "TrimSpace (FormatInt i) = FormatInt i"
    unfolding TrimSpace_def using plain by (intro trim_by_id) auto
  ultimately show ?thesis using ParseInt64_FormatInt [OF assms] assms(1) ne
    by (simp add: parse_index_def)
qed

lemma parseBracketToken_print:
  "valid_token t \<Longrightarrow> parseBracketToken (tl (print_token t) @ s) = Inr (t, s)"
proof (cases t)
  case (PKey k)
  then show ?thesis
    using parse_quoted_print [of "[]" k "CHR '']'' # s"]
    by (simp add: parseBracketToken_def close_bracket_def is_space_def)
next
  case (PIndex i)
  assume "valid_token t"
  with PIndex have i: "0 \<le> i" "i < 2 ^ 63" by auto
  obtain ch r where r: "FormatInt i = ch # r" using nat_digits_ne i by (metis FormatInt_def list.exhaust not_le)
  have "is_digit ch" using FormatInt_digits [OF i(1)] r by simp
  from is_digit_plain [OF this] parse_index_print [OF i, of s] PIndex r show ?thesis
    by (simp add: parseBracketToken_def)
qed

lemma print_token_Cons: "print_token t = CHR ''['' # tl (print_token t)"
  by (cases t) auto

lemma parse_loop_print:
  "\<forall>t\<in>set ts. valid_token t \<Longrightarrow> parse_loop (print_path ts) acc = Inr (acc @ ts)"
proof (induction ts arbitrary: acc)
  case Nil
  then show ?case by (simp add: print_path_def)
next
  case (Cons t ts)
  have "print_path (t # ts) = CHR ''['' # (tl (print_token t) @ print_path ts)"
    using print_token_Cons [of t] by (simp add: print_path_def)
  with Cons parseBracketToken_print [of t "print_path ts"] show ?case by simp
qed

lemma last_print_token: "last (print_token t) = CHR '']''"
  by (cases t) auto

lemma print_path_ends:
  "ts \<noteq> [] \<Longrightarrow> print_path ts \<noteq> [] \<and> hd (print_path ts) = CHR ''['' \<and> last (print_path ts) = CHR '']''"
proof -
  assume "ts \<noteq> []"
  then obtain us t where "ts = us @ [t]" by (metis append_butlast_last_id)
  then have "print_path ts = print_path us @ print_token t" by (simp add: print_path_def)
  then have "last (print_path ts) = CHR '']''"
    by (metis last_appendR last_print_token list.distinct(1) print_token_Cons)
  moreover have "print_path ts \<noteq> [] \<and> hd (print_path ts) = CHR ''[''"
    using \<open>ts \<noteq> []\<close> print_token_Cons by (cases ts) (auto simp: print_path_def, (metis hd_append list.sel(1) list.distinct(1))+)
  ultimately show ?thesis by blast
qed

lemma parse_print_path:
  assumes "\<forall>t\<in>set ts. valid_token t"
  shows "parsePatchTokens (print_path ts) = Inr ts"
proof (cases "ts = []")
  case True
  then show ?thesis by (simp add: print_path_def parsePatchTokens_def TrimDots_def TrimSpace_def trim_by_def)
next
  case False
  from print_path_ends [OF this] have "TrimSpace (print_path ts) = print_path ts"
    "TrimDots (print_path ts) = print_path ts"
    unfolding TrimSpace_def TrimDots_def by (auto intro!: trim_by_id simp: is_space_def)
  with print_path_ends [OF False] parse_loop_print [OF assms, of "[]"] show ?thesis
    by (simp add: parsePatchTokens_def)
qed

subsection \<open>What a patch does\<close>

lemma parallel_Cons_same [simp]: "(a # xs) \<parallel> (a # ys) \<longleftrightarrow> xs \<parallel> ys"
  by (simp add: parallel_def)

lemma deleteAtAny_gone:
  "ts \<noteq> [] \<Longrightarrow> deleteAtAny doc ts = (None, d) \<Longrightarrow> get_at d ts = None \<or> get_at d ts = Some VNil"
proof (induction doc ts arbitrary: d rule: deleteAtAny.induct)
  case (3 m k ts)
  show ?case
  proof (cases "ts = []")
    case True
    with 3 show ?thesis by (auto simp: delete_conv')
  next
    case ne: False
    show ?thesis
    proof (cases "\<exists>v. map_of m k = Some v \<and> v \<noteq> VNil")
      case True
      then obtain v where v: "map_of m k = Some v" "v \<noteq> VNil" by blast
      with ne "3.prems" obtain ch where "deleteAtAny v ts = (None, ch)" "d = VMap (AList.update k ch m)"
        by (auto split: prod.splits)
      with "3.IH" [OF ne v ne] show ?thesis by (simp add: map_of_update)
    next
      case False
      with ne "3.prems" show ?thesis by (auto simp: get_at_VNil split: option.splits)
    qed
  qed
next
  case (5 xs i ts)
  then show ?case
    by (auto simp: in_range_def nat_less_iff split: if_splits prod.splits) (metis get_at_VNil)
qed auto

lemma deleteAtAny_frame:
  "deleteAtAny doc ts = (r, d) \<Longrightarrow> ts \<parallel> us \<Longrightarrow> get_at d us = get_at doc us"
proof (induction doc ts arbitrary: d us r rule: deleteAtAny.induct)
  case (3 m k ts)
  show ?case
  proof (cases us)
    case Nil
    with 3 show ?thesis by simp
  next
    case (Cons u us')
    show ?thesis
    proof (cases "u = PKey k")
      case True
      with Cons "3.prems"(2) have par: "ts \<parallel> us'" by simp
      then have "ts \<noteq> []" by auto
      with 3 Cons True par show ?thesis
        by (auto simp: map_of_update split: if_splits prod.splits option.splits)
    next
      case False
      with Cons "3.prems" show ?thesis
        by (cases u) (auto simp: map_of_update delete_conv' split: if_splits prod.splits option.splits)
    qed
  qed
next
  case (5 xs i ts)
  show ?case
  proof (cases us)
    case Nil
    with 5 show ?thesis by simp
  next
    case (Cons u us')
    show ?thesis
    proof (cases "u = PIndex i")
      case True
      with Cons "5.prems"(2) have par: "ts \<parallel> us'" by simp
      then have "ts \<noteq> []" by auto
      with 5 Cons True par show ?thesis
        by (auto simp: in_range_def nat_less_iff split: if_splits prod.splits)
    next
      case False
      then have "nat i \<noteq> nat j" if "u = PIndex j" "in_range i xs" "in_range j xs" for j
        using that by (auto simp: in_range_def)
      with Cons "5.prems" show ?thesis
        by (cases u) (auto simp: in_range_def split: if_splits prod.splits)
    qed
  qed
qed auto

lemma overlay_map_of:
  "distinct (map fst src) \<Longrightarrow> map_of (overlay dst src) = map_of dst ++ map_of src"
proof (induction src arbitrary: dst)
  case Nil
  then show ?case by (simp add: overlay_def)
next
  case (Cons kv src)
  obtain k v where kv: "kv = (k, v)" by force
  have "map_of (overlay dst (kv # src)) = (map_of dst)(k \<mapsto> v) ++ map_of src"
    using Cons kv by (simp add: overlay_def map_of_update)
  also have "\<dots> = map_of dst ++ map_of (kv # src)"
    using Cons.prems kv by (simp add: map_add_upd_left map_add_upd dom_map_of_conv_image_fst)
  finally show ?case .
qed

lemma SetByPath_Inr:
  "parsePatchTokens path = Inr ts \<Longrightarrow> ts \<noteq> [] \<Longrightarrow> SetByPath (Some m) path x = (r, doc')
    \<Longrightarrow> \<exists>m'. doc' = Some m' \<and> setAtAny (VMap m) ts x = (r, VMap m')"
  by (auto simp: SetByPath_def split: prod.splits) (metis as_map.simps(1) setAtAny_kind)

lemma DeleteByPath_Inr:
  "parsePatchTokens path = Inr ts \<Longrightarrow> ts \<noteq> [] \<Longrightarrow> DeleteByPath (Some m) path = (r, doc')
    \<Longrightarrow> \<exists>m'. doc' = Some m' \<and> deleteAtAny (VMap m) ts = (r, VMap m')"
  by (auto simp: DeleteByPath_def split: prod.splits) (metis as_map.simps(1) deleteAtAny_kind)

lemma GetByPath_Inr: "parsePatchTokens path = Inr ts \<Longrightarrow> GetByPath (Some m) path = get_at (VMap m) ts"
  by (simp add: GetByPath_def)

lemma blank_path: "TrimSpace path = [] \<Longrightarrow> parsePatchTokens path = Inr []"
  by (simp add: parsePatchTokens_def TrimDots_def trim_by_def)

lemma setAtAny_present:
  assumes "ts \<noteq> []" and "get_at doc ts = Some y"
  shows "\<exists>d. setAtAny doc ts x = (None, d)"
proof -
  from setAtAny_same [OF assms] have "setAtAny doc ts y = (None, doc)" .
  have "ts \<noteq> [] \<Longrightarrow> setAtAny doc ts y = (None, d) \<Longrightarrow> \<exists>d'. setAtAny doc ts x = (None, d')" for d
    by (induction doc ts y arbitrary: d rule: setAtAny.induct) (fastforce split: if_splits prod.splits)+
  with assms(1) \<open>setAtAny doc ts y = (None, doc)\<close> show ?thesis by blast
qed

text \<open>The value a merge leaves at its path.\<close>

definition merged :: "gval option \<Rightarrow> gmap \<Rightarrow> string \<Rightarrow> gval option" where
  "merged old src = (case old of Some (VMap dst) \<Rightarrow> map_of dst ++ map_of src | _ \<Rightarrow> map_of src)"

lemma MergeByPath_Inr:
  assumes ts: "parsePatchTokens path = Inr ts" "ts \<noteq> []" and d: "distinct (map fst src)"
    and run: "MergeByPath (Some m) path (VMap src) = (None, doc')"
  shows "\<exists>m' new. doc' = Some m' \<and> setAtAny (VMap m) ts (VMap new) = (None, VMap m')
    \<and> map_of new = merged (get_at (VMap m) ts) src"
proof -
  have nb: "TrimSpace path \<noteq> []" using ts blank_path by auto
  obtain t ts' where cons: "ts = t # ts'" using ts(2) by (cases ts) auto
  note get = GetByPath_Inr [OF ts(1), of m]
  show ?thesis
  proof (cases "\<exists>dst. get_at (VMap m) ts = Some (VMap dst)")
    case True
    then obtain dst where dst: "get_at (VMap m) ts = Some (VMap dst)" by blast
    obtain v where v: "setAtAny (VMap m) ts (VMap (overlay dst src)) = (None, v)"
      using setAtAny_present [OF ts(2) dst] by blast
    with setAtAny_kind obtain m' where "v = VMap m'" by blast
    with run nb get dst v cons ts(1) have "doc' = Some m'" by (simp add: MergeByPath_def)
    with v \<open>v = VMap m'\<close> overlay_map_of [OF d, of dst] dst show ?thesis by (auto simp: merged_def)
  next
    case False
    with run nb get have "SetByPath (Some m) path (VMap src) = (None, doc')"
      by (auto simp: MergeByPath_def split: option.splits gval.splits)
    from SetByPath_Inr [OF ts this] False show ?thesis
      by (auto simp: merged_def split: option.splits gval.splits)
  qed
qed

text \<open>Patches of one document, up to the first error.\<close>

fun patch_all :: "runtime_patch list \<Rightarrow> gmap option \<Rightarrow> go_error option \<times> gmap option" where
  "patch_all [] doc = (None, doc)"
| "patch_all (p # ps) doc =
     (case applyPatchToMap doc p of (Some m, doc1) \<Rightarrow> (Some m, doc1) | (None, doc1) \<Rightarrow> patch_all ps doc1)"

lemma patch_all_puts:
  assumes "patch_all ps (Some m) = (None, doc')"
    and "\<forall>p\<in>set ps. p_Op p = PatchOpSet \<and> parsePatchTokens (p_Path p) = Inr (tok p) \<and> tok p \<noteq> []"
  shows "\<exists>m'. doc' = Some m' \<and> doc.puts (VMap m) (map (\<lambda>p. (tok p, p_Value p)) ps) = Some (VMap m')"
  using assms
proof (induction ps arbitrary: m)
  case Nil
  then show ?case by simp
next
  case (Cons p ps)
  from Cons.prems(2) have p: "p_Op p = PatchOpSet" "parsePatchTokens (p_Path p) = Inr (tok p)" "tok p \<noteq> []" by auto
  obtain r doc1 where a: "SetByPath (Some m) (p_Path p) (p_Value p) = (r, doc1)" by force
  with Cons.prems(1) p(1) have r: "r = None" "patch_all ps doc1 = (None, doc')"
    by (auto simp: applyPatchToMap_def split: option.splits)
  with SetByPath_Inr [OF p(2,3) a] obtain m1 where
    "doc1 = Some m1" "setAtAny (VMap m) (tok p) (p_Value p) = (None, VMap m1)" by auto
  moreover from this have "write_at (VMap m) (tok p) (p_Value p) = Some (VMap m1)" by (simp only: write_at_Some)
  ultimately show ?case using Cons.IH [of m1] Cons.prems(2) r by (simp del: write_at_Some)
qed

subsection \<open>Properties\<close>

text \<open>
  C36. Every place of a document has a patch path: the bracket form of any list of keys and
  array indices (keys with dots, brackets, quotes, digits only, or empty) is parsed back
  into exactly these keys and indices.
\<close>

theorem patch_path_roundtrip:
  assumes "\<forall>t\<in>set ts. valid_token t"
  shows "parsePatchTokens (print_path ts) = Inr ts"
  using assms by (rule parse_print_path)

theorem patch_path_roundtrip_witness:
  "parsePatchTokens (print_path [PKey ''a.b[0]'', PIndex 10, PKey [], PKey [CHR 34, CHR 92]])
     = Inr [PKey ''a.b[0]'', PIndex 10, PKey [], PKey [CHR 34, CHR 92]]"
  by (rule patch_path_roundtrip) simp

text \<open>
  C35. The effect of one patch on a document, at any path that is not empty. An accepted patch
  leaves every place alone that is neither above nor below its path. After \<^verbatim>\<open>set\<close> the value
  is read back, after \<^verbatim>\<open>delete\<close> there is nothing or nil, after \<^verbatim>\<open>merge\<close> there is the old object
  overlaid with the new entries. So the read-back check that the engine makes after writing
  never fails.
\<close>

theorem applyPatchToMap_effect:
  assumes "applyPatchToMap (Some m) p = (None, doc')"
    and "parsePatchTokens (p_Path p) = Inr ts" and "ts \<noteq> []"
    and "\<forall>src. p_Value p = VMap src \<longrightarrow> distinct (map fst src)"
  shows "\<exists>m'. doc' = Some m' \<and> (\<forall>us. ts \<parallel> us \<longrightarrow> get_at (VMap m') us = get_at (VMap m) us)
    \<and> (p_Op p = PatchOpSet \<longrightarrow> GetByPath doc' (p_Path p) = Some (p_Value p))
    \<and> (p_Op p = PatchOpDelete \<longrightarrow> GetByPath doc' (p_Path p) = None \<or> GetByPath doc' (p_Path p) = Some VNil)
    \<and> (p_Op p = PatchOpMerge \<longrightarrow> (\<exists>src new. p_Value p = VMap src \<and> GetByPath doc' (p_Path p) = Some (VMap new)
          \<and> map_of new = merged (GetByPath (Some m) (p_Path p)) src))"
proof -
  note ops = PatchOpSet_def PatchOpDelete_def PatchOpMerge_def
  note get = GetByPath_Inr [OF assms(2)]
  from assms(1) consider (set) "p_Op p = PatchOpSet" "SetByPath (Some m) (p_Path p) (p_Value p) = (None, doc')"
    | (del) "p_Op p = PatchOpDelete" "DeleteByPath (Some m) (p_Path p) = (None, doc')"
    | (mrg) src where "p_Op p = PatchOpMerge" "p_Value p = VMap src"
        "MergeByPath (Some m) (p_Path p) (VMap src) = (None, doc')"
    by (cases "p_Value p") (auto simp: applyPatchToMap_def MergeByPath_def split: if_splits)
  then show ?thesis
  proof cases
    case set
    from SetByPath_Inr [OF assms(2,3) set(2)] obtain m' where
      m': "doc' = Some m'" "setAtAny (VMap m) ts (p_Value p) = (None, VMap m')" by blast
    with setAtAny_get [OF assms(3) m'(2)] setAtAny_frame [OF m'(2)] get set(1) show ?thesis by (simp add: ops)
  next
    case del
    from DeleteByPath_Inr [OF assms(2,3) del(2)] obtain m' where
      m': "doc' = Some m'" "deleteAtAny (VMap m) ts = (None, VMap m')" by blast
    with deleteAtAny_gone [OF assms(3) m'(2)] deleteAtAny_frame [OF m'(2)] get del(1) show ?thesis
      by (simp add: ops)
  next
    case mrg
    from MergeByPath_Inr [OF assms(2,3) _ mrg(3)] assms(4) mrg(2) obtain m' new where
      m': "doc' = Some m'" "setAtAny (VMap m) ts (VMap new) = (None, VMap m')"
      "map_of new = merged (get_at (VMap m) ts) src" by blast
    with setAtAny_get [OF assms(3) m'(2)] setAtAny_frame [OF m'(2)] get mrg(1,2) show ?thesis
      by (simp add: ops)
  qed
qed

definition sample_patch :: "string \<Rightarrow> string \<Rightarrow> gval \<Rightarrow> runtime_patch" where
  "sample_patch path op x = \<lparr>p_Target = PatchTargetNodeOutput, p_Node = ''a'', p_Path = path, p_Op = op,
     p_Value = x, p_Label = []\<rparr>"

theorem applyPatchToMap_effect_witness:
  "\<exists>m'. applyPatchToMap (Some [(''k'', VInt 0)]) (sample_patch ''r.x'' PatchOpSet (VInt 1)) = (None, Some m')
     \<and> get_at (VMap m') [PKey ''k''] = Some (VInt 0) \<and> GetByPath (Some m') ''r.x'' = Some (VInt 1)"
proof -
  let ?p = "sample_patch ''r.x'' PatchOpSet (VInt 1)"
  have t: "parsePatchTokens (p_Path ?p) = Inr [PKey ''r'', PKey ''x'']" by code_simp
  have a: "applyPatchToMap (Some [(''k'', VInt 0)]) ?p
      = (None, Some [(''k'', VInt 0), (''r'', VMap [(''x'', VInt 1)])])" by code_simp
  have "[PKey ''r'', PKey ''x''] \<parallel> [PKey ''k'']" by (simp add: parallel_def)
  with applyPatchToMap_effect [OF a t] show ?thesis by (simp add: a) (simp add: sample_patch_def)
qed

text \<open>
  Patches of independent places do not interfere: after any sequence of \<^verbatim>\<open>set\<close> patches whose
  paths are pairwise neither equal nor inside one another, every one of them can be read
  back, and every place independent of all of them is as before.
\<close>

lemma patches_independent:
  assumes "patch_all ps (Some m) = (None, doc')"
    and "\<forall>p\<in>set ps. p_Op p = PatchOpSet \<and> parsePatchTokens (p_Path p) = Inr (tok p) \<and> tok p \<noteq> []"
    and "distinct (map tok ps)" and "\<forall>p\<in>set ps. \<forall>q\<in>set ps. tok p \<noteq> tok q \<longrightarrow> tok p \<parallel> tok q"
  shows "\<exists>m'. doc' = Some m' \<and> (\<forall>p\<in>set ps. GetByPath (Some m') (p_Path p) = Some (p_Value p))
    \<and> (\<forall>us. (\<forall>p\<in>set ps. tok p \<parallel> us) \<longrightarrow> get_at (VMap m') us = get_at (VMap m) us)"
proof -
  from patch_all_puts [OF assms(1,2)] obtain m' where m': "doc' = Some m'"
    and puts: "doc.puts (VMap m) (map (\<lambda>p. (tok p, p_Value p)) ps) = Some (VMap m')" by blast
  let ?ws = "map (\<lambda>p. (tok p, p_Value p)) ps"
  have "GetByPath (Some m') (p_Path p) = Some (p_Value p)" if p: "p \<in> set ps" for p
  proof -
    have "get_at (VMap m') (tok p) = Some (p_Value p)"
    proof (rule doc.puts_read_back [OF puts])
      show "(tok p, p_Value p) \<in> set ?ws" using p by auto
      show "distinct (map fst ?ws)" using assms(3) by (simp add: comp_def)
    qed (use assms(2,4) in auto)
    with assms(2) p show ?thesis by (simp add: GetByPath_Inr)
  qed
  moreover have "get_at (VMap m') us = get_at (VMap m) us" if "\<forall>p\<in>set ps. tok p \<parallel> us" for us
    using doc.puts_frame [OF puts, of us] that by auto
  ultimately show ?thesis using m' by blast
qed

lemma patches_independent_witness:
  "\<exists>m'. patch_all [sample_patch ''r.x'' PatchOpSet (VInt 1), sample_patch ''r.y'' PatchOpSet VNil] (Some [])
       = (None, Some m') \<and> GetByPath (Some m') ''r.x'' = Some (VInt 1)"
proof -
  let ?p = "sample_patch ''r.x'' PatchOpSet (VInt 1)" and ?q = "sample_patch ''r.y'' PatchOpSet VNil"
  define tok where "tok p = (if p_Path p = ''r.x'' then [PKey ''r'', PKey ''x''] else [PKey ''r'', PKey ''y''])"
    for p :: runtime_patch
  have ts: "parsePatchTokens ''r.x'' = Inr [PKey ''r'', PKey ''x'']"
    "parsePatchTokens ''r.y'' = Inr [PKey ''r'', PKey ''y'']" by code_simp+
  have a: "patch_all [?p, ?q] (Some []) = (None, Some [(''r'', VMap [(''x'', VInt 1), (''y'', VNil)])])" by code_simp
  have "[PKey ''r'', PKey ''x''] \<parallel> [PKey ''r'', PKey ''y'']" "[PKey ''r'', PKey ''y''] \<parallel> [PKey ''r'', PKey ''x'']"
    by (simp_all add: parallel_def)
  with patches_independent [OF a, of tok] ts
  have "GetByPath (Some [(''r'', VMap [(''x'', VInt 1), (''y'', VNil)])]) ''r.x'' = Some (VInt 1)"
    by (simp add: tok_def sample_patch_def)
  with a show ?thesis by blast
qed

text \<open>
  A failed write is not atomic: the container it opened on the way stays. An index behind a
  key that is absent opens an empty array and can never be set.
\<close>

lemma failed_set_leaves_container:
  "SetByPath (Some []) ''a[0]'' x = (Some ''array index out of range'', Some [(''a'', VList [])])"
proof -
  have "parsePatchTokens ''a[0]'' = Inr [PKey ''a'', PIndex 0]" by code_simp
  then show ?thesis by (simp add: SetByPath_def open_child_def makeContainerForNext_def)
qed

end
