(* ===== verification/Flux_Fork.thy ===== *)
theory Flux_Fork
  imports Flux_Samples Flux_Paths "HOL-Library.While_Combinator"
begin

text \<open>
  Forked tasks: \<^verbatim>\<open>engine/patch_validation.go\<close>, \<^verbatim>\<open>state_closure.go\<close>, \<^verbatim>\<open>fork_snapshot.go\<close>,
  \<^verbatim>\<open>patch_checkpoint_rebuild.go\<close>, \<^verbatim>\<open>patch_runtime.go\<close>, \<^verbatim>\<open>run_plan_builder.go\<close>,
  \<^verbatim>\<open>run_plan_materializer.go\<close> and the parts of \<^verbatim>\<open>fork_reuse.go\<close> and \<^verbatim>\<open>dirty_plan.go\<close> they call. A
  fork starts from the rows of a parent run: the plan decides for every node whether its
  result is reused, patched or computed again, and is then written into the fork's own rows.
\<close>

subsection \<open>Reachability\<close>

text \<open>
  \<^verbatim>\<open>isReachable\<close>: a breadth-first search that stops when a child is the target. Its state is
  the queue, the visited set and the answer.
\<close>

definition bfs_step :: "graph \<Rightarrow> name \<Rightarrow> name list \<times> name set \<times> bool \<Rightarrow> name list \<times> name set \<times> bool" where
  "bfs_step g to = (\<lambda>(q, vis, found).
     if hd q \<in> vis then (tl q, vis, found)
     else if to \<in> set (Children g (hd q)) then (tl q, insert (hd q) vis, True)
     else (tl q @ Children g (hd q), insert (hd q) vis, found))"

definition bfs_on :: "name list \<times> name set \<times> bool \<Rightarrow> bool" where
  "bfs_on = (\<lambda>(q, vis, found). q \<noteq> [] \<and> \<not> found)"

definition isReachable :: "graph \<Rightarrow> name \<Rightarrow> name \<Rightarrow> bool" where
  "isReachable g a b =
     (if a = b then True
      else case while bfs_on (bfs_step g b) ([a], {}, False) of (_, _, found) \<Rightarrow> found)"

subsection \<open>Validation of a resume request\<close>

record resume_spec =
  rs_ResumeFrom :: name
  rs_Patches :: "runtime_patch list"

definition validateResumeBoundary :: "compiled_workflow \<Rightarrow> name \<Rightarrow> go_error option" where
  "validateResumeBoundary w r =
     (if r = [] then None
      else if cw_nodes w r = None then Some (''resume_from node not found: '' @ r) else None)"

definition validateRuntimePatch :: "compiled_workflow \<Rightarrow> runtime_patch \<Rightarrow> go_error option" where
  "validateRuntimePatch w p =
     (if p_Node p = [] then Some ''patch node is empty''
      else if cw_nodes w (p_Node p) = None then Some (''patch node not found: '' @ p_Node p)
      else if p_Target p \<noteq> PatchTargetNodeOutput \<and> p_Target p \<noteq> PatchTargetNodeCheckpoint
        then Some (''unsupported patch target: '' @ p_Target p)
      else if p_Op p \<noteq> PatchOpSet \<and> p_Op p \<noteq> PatchOpDelete \<and> p_Op p \<noteq> PatchOpMerge
        then Some (''unsupported patch op: '' @ p_Op p)
      else
        (let trimmed = TrimSpace (TrimDots (p_Path p))
         in if (p_Op p \<noteq> PatchOpMerge \<or> p_Path p \<noteq> []) \<and> trimmed = [] \<and> p_Path p \<noteq> []
            then Some ''invalid patch path''
            else if p_Op p \<noteq> PatchOpMerge \<and> trimmed = [] then Some ''patch path is empty''
            else if p_Op p = PatchOpMerge \<and> \<not> (case p_Value p of VMap _ \<Rightarrow> True | _ \<Rightarrow> False)
            then Some ''merge patch value must be map[string]any''
            else None))"

definition validatePatchResumeRelation :: "compiled_workflow \<Rightarrow> runtime_patch \<Rightarrow> name \<Rightarrow> go_error option" where
  "validatePatchResumeRelation w p r =
     (if r = [] then None
      else if p_Node p = r then None
      else if \<not> isReachable (cw_graph w) (p_Node p) r
        then Some (''resume_from is not downstream of patch node '' @ p_Node p)
      else None)"

fun validate_patches :: "compiled_workflow \<Rightarrow> name \<Rightarrow> runtime_patch list \<Rightarrow> go_error option" where
  "validate_patches w r [] = None"
| "validate_patches w r (p # ps) =
     (case validateRuntimePatch w p of
        Some m \<Rightarrow> Some (''patch invalid: '' @ m)
      | None \<Rightarrow>
         (case validatePatchResumeRelation w p r of
            Some m \<Rightarrow> Some (''patch resume relation invalid: '' @ m)
          | None \<Rightarrow> validate_patches w r ps))"

definition validateResumeSpec :: "compiled_workflow \<Rightarrow> resume_spec option \<Rightarrow> go_error option" where
  "validateResumeSpec w spec =
     (case spec of None \<Rightarrow> None | Some s \<Rightarrow>
        (case validateResumeBoundary w (rs_ResumeFrom s) of
           Some m \<Rightarrow> Some m
         | None \<Rightarrow> validate_patches w (rs_ResumeFrom s) (rs_Patches s)))"

subsection \<open>Closure of the parent's state\<close>

datatype closure_mode = ClosureModeFork | ClosureModeResume

record closure_issue =
  ci_NodeName :: name
  ci_EdgeKey :: string
  ci_FieldName :: string
  ci_Message :: string

definition terminalNodeStates :: "node_state \<Rightarrow> bool" where
  "terminalNodeStates s \<longleftrightarrow> s \<in> {NodeSuccess, NodeSuccessPendingEdges, NodeFailed, NodeFailedPendingEdges,
     NodeSkipped, NodeCanceled}"

definition unstableStates :: "node_state \<Rightarrow> bool" where
  "unstableStates s \<longleftrightarrow> s \<in> {NodeRunning, NodeRetrying, NodeReady}"

definition checkTerminalEdgeClosure :: "name list \<Rightarrow> (name \<rightharpoonup> node_runtime) \<Rightarrow> graph \<Rightarrow> closure_issue list" where
  "checkTerminalEdgeClosure it rows dag = concat (map (\<lambda>n.
     case rows n of None \<Rightarrow> [] | Some rt \<Rightarrow>
       if \<not> terminalNodeStates (State rt) then []
       else concat (map (\<lambda>ed.
         let k = edge_key n (To ed) in
         if rt_ActivatedEdges rt k = None
         then [\<lparr>ci_NodeName = n, ci_EdgeKey = k, ci_FieldName = ''activated_edges'',
                ci_Message = ''terminal node missing edge decision''\<rparr>]
         else []) (Edges dag n))) it)"

definition checkUnstableNodes :: "name list \<Rightarrow> (name \<rightharpoonup> node_runtime) \<Rightarrow> closure_mode \<Rightarrow> closure_issue list" where
  "checkUnstableNodes it rows mode = concat (map (\<lambda>n.
     case rows n of None \<Rightarrow> [] | Some rt \<Rightarrow>
       if unstableStates (State rt)
       then [\<lparr>ci_NodeName = n, ci_EdgeKey = [], ci_FieldName = ''state'', ci_Message = ''unstable node''\<rparr>]
       else if mode = ClosureModeFork \<and> State rt = NodeAwaiting
       then [\<lparr>ci_NodeName = n, ci_EdgeKey = [], ci_FieldName = ''state'',
              ci_Message = ''fork does not support awaiting node''\<rparr>]
       else []) it)"

definition checkPendingNodeEdges :: "name list \<Rightarrow> (name \<rightharpoonup> node_runtime) \<Rightarrow> graph \<Rightarrow> closure_issue list" where
  "checkPendingNodeEdges it rows dag = concat (map (\<lambda>n.
     case rows n of None \<Rightarrow> [] | Some rt \<Rightarrow>
       if State rt \<noteq> NodePending then []
       else concat (map (\<lambda>p. case rows p of None \<Rightarrow> [] | Some prt \<Rightarrow>
         (let k = edge_key p n in
          if terminalNodeStates (State prt) \<and> rt_ActivatedEdges prt k = None
          then [\<lparr>ci_NodeName = n, ci_EdgeKey = k, ci_FieldName = ''activated_edges'',
                 ci_Message = ''pending node missing edge decision from terminal parent''\<rparr>]
          else [])) (Parents dag n))) it)"

text \<open>
  \<^verbatim>\<open>ValidateParentStateClosure\<close> with the order in which Go visits the rows. Every issue is of the
  blocking level, the only one there is; the state is valid when there is none.
\<close>

definition ValidateParentStateClosure ::
  "name list \<Rightarrow> (name \<rightharpoonup> node_runtime) \<Rightarrow> graph \<Rightarrow> closure_mode \<Rightarrow> bool \<times> closure_issue list" where
  "ValidateParentStateClosure it rows dag mode =
     (let issues = checkTerminalEdgeClosure it rows dag @ checkUnstableNodes it rows mode
                   @ checkPendingNodeEdges it rows dag
      in (issues = [], issues))"

subsection \<open>The context of a forked run\<close>

text \<open>
  The fields of \<^verbatim>\<open>nodes.Context\<close> that only planning uses, around the run context. Rows of the
  parent run come with the snapshot. (The timestamps \<^verbatim>\<open>CheckpointedAt\<close> and \<^verbatim>\<open>LastHeartbeat\<close> are
  not part of the model.)
\<close>

record reuse_snapshot =
  sn_TaskID :: int
  sn_Nodes :: "name \<rightharpoonup> node_runtime"
  sn_Output :: "gmap option"

record fork_ctx =
  fc_run :: run_ctx
  Patches :: "runtime_patch list"
  fc_ResumeFrom :: name
  ParentSnapshot :: "reuse_snapshot option"
  PatchedNodes :: "name set"
  DirtyNodes :: "name set"
  MapItemReuse :: "name \<rightharpoonup> nat set"
  InjectedOutputs :: "name \<rightharpoonup> gmap"

definition put_rt :: "name \<Rightarrow> node_runtime \<Rightarrow> fork_ctx \<Rightarrow> fork_ctx" where
  "put_rt n rt fc = fc\<lparr>fc_run := set_runtime n rt (fc_run fc)\<rparr>"

definition save_rt :: "env \<Rightarrow> node_runtime \<Rightarrow> fork_ctx \<Rightarrow> go_error option \<times> fork_ctx" where
  "save_rt e rt fc = (case nodeRepo_Update e rt (fc_run fc) of (r, c) \<Rightarrow> (r, fc\<lparr>fc_run := c\<rparr>))"

text \<open>\<^verbatim>\<open>LoadForkParentSnapshot\<close>; the parent's task and rows are an argument, as they belong to another task.\<close>

definition LoadForkParentSnapshot ::
  "(int \<Rightarrow> (task \<times> (name \<rightharpoonup> node_runtime)) option) \<Rightarrow> fork_ctx \<Rightarrow> go_error option \<times> fork_ctx" where
  "LoadForkParentSnapshot db fc =
     (case ForkedFrom (Task (fc_run fc)) of
        None \<Rightarrow> (None, fc)
      | Some pid \<Rightarrow>
         (case db pid of
            None \<Rightarrow> (Some ''fork parent task not found'', fc)
          | Some (t, rows) \<Rightarrow>
             (None, fc\<lparr>ParentSnapshot := Some \<lparr>sn_TaskID = task_id t, sn_Nodes = rows, sn_Output = OutputJSON t\<rparr>\<rparr>)))"

subsection \<open>Outputs rebuilt from checkpoints\<close>

fun atoi_all :: "string list \<Rightarrow> int list option" where
  "atoi_all [] = Some []"
| "atoi_all (k # ks) =
     (case ParseInt64 k of None \<Rightarrow> None | Some i \<Rightarrow> map_option (\<lambda>is. i # is) (atoi_all ks))"

definition map_total :: "gmap \<Rightarrow> int" where
  "map_total cp = (case map_of cp ''total'' of Some (VInt k) \<Rightarrow> k | Some (VFloat q) \<Rightarrow> trunc q | _ \<Rightarrow> 0)"

definition rebuildMapNodeOutput :: "node_runtime \<Rightarrow> go_error + gmap option" where
  "rebuildMapNodeOutput rt =
     (case Checkpoint rt of None \<Rightarrow> Inr None | Some cp \<Rightarrow>
       (case map_of cp ''results'' of
          Some (VMap raw) \<Rightarrow>
            (if map_total cp \<le> 0 then
               (case atoi_all (map fst raw) of
                  None \<Rightarrow> Inl ''invalid map results index key''
                | Some is \<Rightarrow> Inr (Some [(''results'',
                    VList (List.map_filter (\<lambda>i. map_of raw (FormatInt i)) (sort is)))]))
             else Inr (Some [(''results'', VList (map (\<lambda>i. case map_of raw (FormatInt (int i)) of
                        None \<Rightarrow> VNil | Some v \<Rightarrow> v) [0..<nat (map_total cp)]))]))
        | _ \<Rightarrow> Inr None))"

text \<open>\<^verbatim>\<open>utils.ToAnySlice\<close>: a list, or a scalar wrapped into one.\<close>

definition ToAnySlice :: "gval \<Rightarrow> gval list option" where
  "ToAnySlice v = (case v of VList xs \<Rightarrow> Some xs | VStr _ \<Rightarrow> Some [v] | VInt _ \<Rightarrow> Some [v]
     | VFloat _ \<Rightarrow> Some [v] | _ \<Rightarrow> None)"

definition rebuildLoopNodeOutput :: "node_runtime \<Rightarrow> go_error + gmap option" where
  "rebuildLoopNodeOutput rt =
     (case Checkpoint rt of None \<Rightarrow> Inr None | Some cp \<Rightarrow>
       (case map_of cp ''results'' of
          None \<Rightarrow> Inr None
        | Some v \<Rightarrow> if v = VNil then Inr None
            else (case ToAnySlice v of
                Some xs \<Rightarrow> Inr (Some [(''results'', VList xs)])
              | None \<Rightarrow> Inl ''invalid loop checkpoint results type'')))"

text \<open>The registry of rebuilders, as \<^verbatim>\<open>NewEngine\<close> fills it.\<close>

definition checkpointRebuilders :: "string \<Rightarrow> (node_runtime \<Rightarrow> go_error + gmap option) option" where
  "checkpointRebuilders ty = (if ty = ''map'' then Some rebuildMapNodeOutput
     else if ty = ''loop'' then Some rebuildLoopNodeOutput else None)"

definition rebuildNodeOutputFromCheckpoint ::
  "env \<Rightarrow> compiled_workflow \<Rightarrow> node_runtime \<Rightarrow> run_ctx \<Rightarrow> go_error option \<times> node_runtime \<times> run_ctx" where
  "rebuildNodeOutputFromCheckpoint e w rt c =
     (case cw_nodes w (Name rt) of
        None \<Rightarrow> (Some (''node def not found: '' @ Name rt), rt, c)
      | Some nd \<Rightarrow>
         (case checkpointRebuilders (n_Type nd) of
            None \<Rightarrow> (Some (''checkpoint rebuild not supported for node type: '' @ n_Type nd), rt, c)
          | Some f \<Rightarrow>
             (case f rt of
                Inl m \<Rightarrow> (Some m, rt, c)
              | Inr None \<Rightarrow> (Some (''checkpoint rebuild returned nil for node: '' @ Name rt), rt, c)
              | Inr (Some d) \<Rightarrow>
                 (let rt1 = rt\<lparr>Output := Some d, OutputHash := canonicalHash e '''' (Some d)\<rparr>
                  in case SetNodeOutput (Name rt) d (OutputSchema nd) c of
                       (Some m, _, c1) \<Rightarrow> (Some m, rt1, c1)
                     | (None, _, c1) \<Rightarrow>
                         (None, rt1, UpdateNodeStatus (Name rt) (node_state_str (State rt)) c1)))))"

subsection \<open>Patches on a runtime\<close>

definition readback_fails :: "runtime_patch \<Rightarrow> gmap option \<Rightarrow> bool" where
  "readback_fails p doc \<longleftrightarrow> (p_Op p = PatchOpSet \<or> p_Op p = PatchOpMerge) \<and> TrimSpace (p_Path p) \<noteq> []
     \<and> GetByPath doc (p_Path p) = None"

definition non_nil :: "gmap option \<Rightarrow> gmap option" where
  "non_nil m = (case m of None \<Rightarrow> Some [] | Some _ \<Rightarrow> m)"

definition patch_node_output ::
  "env \<Rightarrow> compiled_workflow \<Rightarrow> node_runtime \<Rightarrow> runtime_patch \<Rightarrow> run_ctx \<Rightarrow> go_error option \<times> node_runtime \<times> run_ctx" where
  "patch_node_output e w rt p c =
     (case applyPatchToMap (non_nil (Output rt)) p of
        (Some m, doc) \<Rightarrow> (Some m, rt\<lparr>Output := doc\<rparr>, c)
      | (None, doc) \<Rightarrow>
         if readback_fails p doc
         then (Some (''patch applied but path not found after write: '' @ p_Path p), rt\<lparr>Output := doc\<rparr>, c)
         else (case cw_nodes w (p_Node p) of
             None \<Rightarrow> (Some (''node def not found: '' @ p_Node p), rt\<lparr>Output := doc\<rparr>, c)
           | Some nd \<Rightarrow>
              (case SetNodeOutput (p_Node p) (the doc) (OutputSchema nd) c of
                 (Some m, _, c1) \<Rightarrow> (Some m, rt\<lparr>Output := doc\<rparr>, c1)
               | (None, _, c1) \<Rightarrow> (None, rt\<lparr>Output := doc, OutputHash := canonicalHash e '''' doc\<rparr>, c1))))"

definition patch_node_checkpoint ::
  "env \<Rightarrow> compiled_workflow \<Rightarrow> node_runtime \<Rightarrow> runtime_patch \<Rightarrow> run_ctx \<Rightarrow> go_error option \<times> node_runtime \<times> run_ctx" where
  "patch_node_checkpoint e w rt p c =
     (case applyPatchToMap (non_nil (Checkpoint rt)) p of
        (Some m, doc) \<Rightarrow> (Some m, rt\<lparr>Checkpoint := doc\<rparr>, c)
      | (None, doc) \<Rightarrow>
         if readback_fails p doc
         then (Some (''checkpoint patch applied but path not found after write: '' @ p_Path p),
               rt\<lparr>Checkpoint := doc\<rparr>, c)
         else (case rebuildNodeOutputFromCheckpoint e w (rt\<lparr>Checkpoint := doc\<rparr>) c of
             (Some m, rt1, c1) \<Rightarrow> (Some (''rebuild output from checkpoint failed: '' @ m), rt1, c1)
           | (None, rt1, c1) \<Rightarrow> (None, rt1, c1)))"

definition mark_patched :: "node_runtime \<Rightarrow> node_runtime" where
  "mark_patched rt = rt\<lparr>IsDirty := True, IsInjected := False, DirtyReason := ''patched_state'',
     ReusedFromTaskID := None, ReusedFromNode := None,
     ReuseKind := (if ReuseKind rt = ReuseNode then ReuseNone else ReuseKind rt)\<rparr>"

definition applySinglePatchInMemory ::
  "env \<Rightarrow> compiled_workflow \<Rightarrow> node_runtime \<Rightarrow> runtime_patch \<Rightarrow> fork_ctx \<Rightarrow> go_error option \<times> node_runtime \<times> fork_ctx" where
  "applySinglePatchInMemory e w rt p fc =
     (if p_Node p = [] then (Some ''patch node is empty'', rt, fc)
      else if Name rt \<noteq> [] \<and> Name rt \<noteq> p_Node p then (Some ''runtime node mismatch'', rt, fc)
      else if p_Target p \<noteq> PatchTargetNodeOutput \<and> p_Target p \<noteq> PatchTargetNodeCheckpoint
        then (Some (''unsupported patch target: '' @ p_Target p), rt, fc)
      else
        (case (if p_Target p = PatchTargetNodeOutput then patch_node_output e w rt p (fc_run fc)
               else patch_node_checkpoint e w rt p (fc_run fc)) of
           (Some m, rt1, c1) \<Rightarrow> (Some m, rt1, fc\<lparr>fc_run := c1\<rparr>)
         | (None, rt1, c1) \<Rightarrow> (None, mark_patched rt1,
              fc\<lparr>fc_run := c1, PatchedNodes := insert (p_Node p) (PatchedNodes fc)\<rparr>)))"

text \<open>The patched runtime is the object in the runtime map: it is put back also on an error.\<close>

definition applySinglePatchToRuntime ::
  "env \<Rightarrow> compiled_workflow \<Rightarrow> name \<Rightarrow> node_runtime \<Rightarrow> runtime_patch \<Rightarrow> fork_ctx \<Rightarrow> go_error option \<times> fork_ctx" where
  "applySinglePatchToRuntime e w n rt p fc =
     (if Name rt \<noteq> p_Node p then (Some ''runtime node mismatch'', fc)
      else case applySinglePatchInMemory e w rt p fc of
          (Some m, rt1, fc1) \<Rightarrow> (Some m, put_rt n rt1 fc1)
        | (None, rt1, fc1) \<Rightarrow> save_rt e rt1 (put_rt n rt1 fc1))"

fun plan_patches :: "env \<Rightarrow> compiled_workflow \<Rightarrow> runtime_patch list \<Rightarrow> fork_ctx \<Rightarrow> go_error option \<times> fork_ctx" where
  "plan_patches e w [] fc = (None, fc)"
| "plan_patches e w (p # ps) fc =
     (if p_Node p = [] then (Some ''patch node is empty'', fc)
      else case Runtime (fc_run fc) (p_Node p) of
          None \<Rightarrow> (Some (''planning runtime not found for patch node: '' @ p_Node p), fc)
        | Some rt \<Rightarrow>
           (case applySinglePatchInMemory e w rt p fc of
              (Some m, rt1, fc1) \<Rightarrow> (Some (''apply patch to planning context failed: '' @ m), put_rt (p_Node p) rt1 fc1)
            | (None, rt1, fc1) \<Rightarrow> plan_patches e w ps (put_rt (p_Node p) rt1 fc1)))"

definition applyPatchesToPlanningContext :: "env \<Rightarrow> compiled_workflow \<Rightarrow> fork_ctx \<Rightarrow> go_error option \<times> fork_ctx" where
  "applyPatchesToPlanningContext e w fc = plan_patches e w (Patches fc) fc"

subsection \<open>The planning context\<close>

definition ActivatedEdgesMerge :: "(string \<rightharpoonup> bool) \<Rightarrow> run_ctx \<Rightarrow> run_ctx" where
  "ActivatedEdgesMerge m c = c\<lparr>ActivatedEdges := ActivatedEdges c ++ m\<rparr>"

definition seeded_rt :: "node_runtime \<Rightarrow> node_runtime \<Rightarrow> node_runtime" where
  "seeded_rt prt rt = rt\<lparr>State := NodeSuccess, Output := Output prt, Checkpoint := Checkpoint prt,
     InputHash := InputHash prt, ResolvedInput := ResolvedInput prt, OutputHash := OutputHash prt,
     rt_ActivatedEdges := rt_ActivatedEdges prt\<rparr>"

definition seedPlanningNode ::
  "compiled_workflow \<Rightarrow> name \<Rightarrow> node_runtime \<Rightarrow> run_ctx \<Rightarrow> go_error option \<times> run_ctx" where
  "seedPlanningNode w n prt c =
     (case cw_nodes w n of
        None \<Rightarrow> (Some (''node def not found: '' @ n), c)
      | Some nd \<Rightarrow>
         (case (case Output prt of None \<Rightarrow> (None, [], c) | Some d \<Rightarrow> SetNodeOutput n d (OutputSchema nd) c) of
            (Some m, _, c1) \<Rightarrow> (Some m, c1)
          | (None, _, c1) \<Rightarrow>
             (let c2 = ActivatedEdgesMerge (rt_ActivatedEdges prt) (UpdateNodeStatus n (node_state_str NodeSuccess) c1)
              in (None, case Runtime c2 n of None \<Rightarrow> c2 | Some rt \<Rightarrow> set_runtime n (seeded_rt prt rt) c2))))"

fun seed_nodes :: "compiled_workflow \<Rightarrow> (name \<rightharpoonup> node_runtime) \<Rightarrow> name \<Rightarrow> name list \<Rightarrow> run_ctx
    \<Rightarrow> go_error option \<times> run_ctx" where
  "seed_nodes w rows r [] c = (None, c)"
| "seed_nodes w rows r (n # ns) c =
     (case rows n of
        None \<Rightarrow> seed_nodes w rows r ns c
      | Some prt \<Rightarrow>
         if State prt \<noteq> NodeSuccess then seed_nodes w rows r ns c
         else if r \<noteq> [] \<and> isReachable (cw_graph w) r n then seed_nodes w rows r ns c
         else (case seedPlanningNode w n prt c of
             (Some m, c1) \<Rightarrow> (Some m, c1)
           | (None, c1) \<Rightarrow> seed_nodes w rows r ns c1))"

definition blank_planning :: "compiled_workflow \<Rightarrow> gmap \<Rightarrow> run_ctx \<Rightarrow> run_ctx" where
  "blank_planning w inp c = c
     \<lparr>Input := inp, OutNodes := Map.empty, Final := None, ActivatedEdges := Map.empty,
      Runtime := (\<lambda>n. if n \<in> set (cw_order w) then Some (new_runtime n 0 0 0) else None)\<rparr>"

definition newPlanningContext :: "env \<Rightarrow> compiled_workflow \<Rightarrow> gmap \<Rightarrow> fork_ctx \<Rightarrow> go_error + fork_ctx" where
  "newPlanningContext e w inp fc =
     (case ParentSnapshot fc of
        None \<Rightarrow> Inl ''parent snapshot is nil''
      | Some sn \<Rightarrow>
         (case seed_nodes w (sn_Nodes sn) (fc_ResumeFrom fc) (cw_order w) (blank_planning w inp (fc_run fc)) of
            (Some m, _) \<Rightarrow> Inl m
          | (None, c1) \<Rightarrow>
             (case applyPatchesToPlanningContext e w (fc\<lparr>fc_run := c1, PatchedNodes := {}\<rparr>) of
                (Some m, _) \<Rightarrow> Inl m
              | (None, pc) \<Rightarrow> Inr pc)))"

subsection \<open>The run plan\<close>

datatype plan_action = PlanActionReuse | PlanActionPatch | PlanActionExecute

datatype execution_reason =
    ExecutionReasonNone | ExecutionReasonReuseNode | ExecutionReasonPatchedNode
  | ExecutionReasonResumeBoundary | ExecutionReasonUpstreamDirty | ExecutionReasonInputChanged
  | ExecutionReasonMissingParent | ExecutionReasonParentNotReady | ExecutionReasonInputResolveFail

fun reason_str :: "execution_reason \<Rightarrow> string" where
  "reason_str ExecutionReasonNone = ''''"
| "reason_str ExecutionReasonReuseNode = ''reuse_node''"
| "reason_str ExecutionReasonPatchedNode = ''patched_node''"
| "reason_str ExecutionReasonResumeBoundary = ''resume_boundary''"
| "reason_str ExecutionReasonUpstreamDirty = ''upstream_dirty''"
| "reason_str ExecutionReasonInputChanged = ''input_changed''"
| "reason_str ExecutionReasonMissingParent = ''missing_parent_snapshot''"
| "reason_str ExecutionReasonParentNotReady = ''parent_not_success''"
| "reason_str ExecutionReasonInputResolveFail = ''input_resolve_failed''"

record node_plan =
  np_Name :: name
  np_Label :: string
  np_NodeType :: string
  np_Action :: plan_action
  np_Reason :: execution_reason
  np_ReuseKind :: reuse_kind
  np_MapItemReuse :: "nat set"
  np_Patches :: "runtime_patch list"
  np_ParentTaskID :: "int option"
  np_ParentNode :: "name option"

datatype run_plan_mode = RunPlanModeInitial | RunPlanModeFork

record run_plan =
  rp_TaskID :: int
  rp_Mode :: run_plan_mode
  rp_ResumeFrom :: name
  rp_ParentTaskID :: "int option"
  rp_Nodes :: "name \<rightharpoonup> node_plan"
  rp_TopoOrder :: "name list"

definition collectNodePatches :: "runtime_patch list \<Rightarrow> name \<Rightarrow> runtime_patch list" where
  "collectNodePatches ps n = filter (\<lambda>p. p_Node p = n) ps"

definition parentEdgeWasActivated :: "reuse_snapshot \<Rightarrow> name \<Rightarrow> name \<Rightarrow> bool" where
  "parentEdgeWasActivated sn a b =
     (case sn_Nodes sn a of
        None \<Rightarrow> True
      | Some prt \<Rightarrow> (case rt_ActivatedEdges prt (edge_key a b) of None \<Rightarrow> True | Some v \<Rightarrow> v))"

definition hasExecuteParent :: "name \<Rightarrow> graph \<Rightarrow> (name \<rightharpoonup> node_plan) \<Rightarrow> reuse_snapshot \<Rightarrow> bool" where
  "hasExecuteParent n g plans sn = list_ex (\<lambda>p. parentEdgeWasActivated sn p n
      \<and> (case plans p of None \<Rightarrow> False | Some pl \<Rightarrow> np_Action pl = PlanActionExecute)) (Parents g n)"

definition blank_plan :: "compiled_workflow \<Rightarrow> name \<Rightarrow> node_plan" where
  "blank_plan w n = \<lparr>np_Name = n,
     np_Label = (case cw_nodes w n of None \<Rightarrow> [] | Some nd \<Rightarrow> n_Label nd),
     np_NodeType = (case cw_nodes w n of None \<Rightarrow> [] | Some nd \<Rightarrow> n_Type nd),
     np_Action = PlanActionExecute, np_Reason = ExecutionReasonNone, np_ReuseKind = ReuseNone,
     np_MapItemReuse = {}, np_Patches = [], np_ParentTaskID = None, np_ParentNode = None\<rparr>"

definition run_it :: "execution_reason \<Rightarrow> node_plan \<Rightarrow> node_plan" where
  "run_it r pl = pl\<lparr>np_Action := PlanActionExecute, np_Reason := r\<rparr>"

definition reuse_it :: "node_plan \<Rightarrow> node_plan" where
  "reuse_it pl = pl\<lparr>np_Action := PlanActionReuse, np_Reason := ExecutionReasonReuseNode, np_ReuseKind := ReuseNode\<rparr>"

definition patch_it :: "runtime_patch list \<Rightarrow> node_plan \<Rightarrow> node_plan" where
  "patch_it ps pl = pl\<lparr>np_Action := PlanActionPatch, np_Reason := ExecutionReasonPatchedNode,
     np_ReuseKind := ReuseNone, np_Patches := ps\<rparr>"

definition plan_hash :: "env \<Rightarrow> fork_ctx \<Rightarrow> node \<Rightarrow> gmap \<Rightarrow> string" where
  "plan_hash e fc nd inp =
     canonicalHash e (FormatInt (WorkflowVersionID (Task (fc_run fc))) @ ''-'' @ n_Name nd) (Some inp)"

text \<open>\<^verbatim>\<open>buildSingleNodePlan\<close>: the first rule that applies decides.\<close>

definition buildSingleNodePlan ::
  "env \<Rightarrow> fork_ctx \<Rightarrow> fork_ctx \<Rightarrow> compiled_workflow \<Rightarrow> reuse_snapshot \<Rightarrow> (name \<rightharpoonup> node_plan) \<Rightarrow> name
    \<Rightarrow> go_error + node_plan" where
  "buildSingleNodePlan e fc pc w sn plans n =
     (let pl = (case sn_Nodes sn n of
                  None \<Rightarrow> blank_plan w n
                | Some prt \<Rightarrow> (blank_plan w n)\<lparr>np_ParentTaskID := Some (sn_TaskID sn), np_ParentNode := Some (Name prt)\<rparr>)
      in case cw_nodes w n of
           None \<Rightarrow> Inl (''node def not found: '' @ n)
         | Some nd \<Rightarrow>
            (case sn_Nodes sn n of
               None \<Rightarrow> Inr (run_it ExecutionReasonMissingParent pl)
             | Some prt \<Rightarrow>
                if fc_ResumeFrom fc \<noteq> [] \<and> n = fc_ResumeFrom fc then Inr (run_it ExecutionReasonResumeBoundary pl)
                else if n \<in> PatchedNodes pc then Inr (patch_it (collectNodePatches (Patches fc) n) pl)
                else if State prt = NodeSkipped then Inr (reuse_it pl)
                else if State prt \<noteq> NodeSuccess then Inr (run_it ExecutionReasonParentNotReady pl)
                else if mlen (Output prt) = 0 \<and> \<not> shouldPersistOutput nd
                  then Inr (run_it ExecutionReasonParentNotReady pl)
                else if fc_ResumeFrom fc \<noteq> [] \<and> isReachable (cw_graph w) (fc_ResumeFrom fc) n
                  then Inr (run_it ExecutionReasonUpstreamDirty pl)
                else if hasExecuteParent n (cw_graph w) plans sn then Inr (run_it ExecutionReasonUpstreamDirty pl)
                else (case buildNodeInput e (fc_run pc) nd (cw_graph w) of
                    Inl _ \<Rightarrow> Inr (run_it ExecutionReasonInputResolveFail pl)
                  | Inr inp \<Rightarrow>
                      if plan_hash e fc nd inp \<noteq> InputHash prt then Inr (run_it ExecutionReasonInputChanged pl)
                      else Inr (reuse_it pl))))"

fun plan_nodes :: "env \<Rightarrow> fork_ctx \<Rightarrow> fork_ctx \<Rightarrow> compiled_workflow \<Rightarrow> reuse_snapshot \<Rightarrow> name list
    \<Rightarrow> (name \<rightharpoonup> node_plan) \<Rightarrow> go_error + (name \<rightharpoonup> node_plan)" where
  "plan_nodes e fc pc w sn [] plans = Inr plans"
| "plan_nodes e fc pc w sn (n # ns) plans =
     (case buildSingleNodePlan e fc pc w sn plans n of
        Inl m \<Rightarrow> Inl m
      | Inr pl \<Rightarrow> plan_nodes e fc pc w sn ns (plans(n \<mapsto> pl)))"

text \<open>Items of a map node whose hash is the one the parent's checkpoint stored for the index.\<close>

definition unchanged_items :: "env \<Rightarrow> gval list \<Rightarrow> gmap \<Rightarrow> nat set" where
  "unchanged_items e items hashes = set (filter (\<lambda>i.
     case map_of hashes (FormatInt (int i)) of
        Some (VStr h) \<Rightarrow> h \<noteq> [] \<and> h = item_hash e (items ! i) | _ \<Rightarrow> False) [0..<length items])"

definition item_reuse :: "env \<Rightarrow> run_ctx \<Rightarrow> node \<Rightarrow> node_runtime \<Rightarrow> nat set" where
  "item_reuse e c nd prt =
     (if n_Type nd \<noteq> ''map'' then {}
      else case Checkpoint prt of None \<Rightarrow> {} | Some cp \<Rightarrow>
        (case map_of (n_Config nd) ''items'' of
           Some (VStr ex) \<Rightarrow>
             (if ex = [] then {}
              else case eval e c ex of Inl _ \<Rightarrow> {} | Inr v \<Rightarrow>
                (case ToAnySlice v of None \<Rightarrow> {} | Some items \<Rightarrow>
                  (case map_of cp ''item_hashes'' of
                     Some (VMap hashes) \<Rightarrow> unchanged_items e items hashes
                   | _ \<Rightarrow> {})))
         | _ \<Rightarrow> {}))"

definition with_items :: "nat set \<Rightarrow> node_plan \<Rightarrow> node_plan" where
  "with_items is pl = (if is = {} then pl else pl\<lparr>np_MapItemReuse := is, np_ReuseKind := ReuseMapItems\<rparr>)"

definition fill_item ::
  "env \<Rightarrow> run_ctx \<Rightarrow> compiled_workflow \<Rightarrow> reuse_snapshot \<Rightarrow> name \<Rightarrow> (name \<rightharpoonup> node_plan) \<Rightarrow> (name \<rightharpoonup> node_plan)" where
  "fill_item e c w sn n ps =
     (case ps n of None \<Rightarrow> ps | Some pl \<Rightarrow>
       if np_Action pl \<noteq> PlanActionExecute then ps
       else (case (cw_nodes w n, sn_Nodes sn n) of
           (Some nd, Some prt) \<Rightarrow> ps(n \<mapsto> with_items (item_reuse e c nd prt) pl)
         | _ \<Rightarrow> ps))"

definition fillRunPlanMapItemReuse ::
  "env \<Rightarrow> run_ctx \<Rightarrow> compiled_workflow \<Rightarrow> reuse_snapshot \<Rightarrow> (name \<rightharpoonup> node_plan) \<Rightarrow> (name \<rightharpoonup> node_plan)" where
  "fillRunPlanMapItemReuse e c w sn plans = fold (fill_item e c w sn) (cw_order w) plans"

definition initial_plans :: "compiled_workflow \<Rightarrow> name \<rightharpoonup> node_plan" where
  "initial_plans w = (\<lambda>n. if n \<in> set (cw_order w) then Some (blank_plan w n) else None)"

definition BuildRunPlan :: "env \<Rightarrow> compiled_workflow \<Rightarrow> gmap \<Rightarrow> fork_ctx \<Rightarrow> go_error + run_plan" where
  "BuildRunPlan e w inp fc =
     (let t = Task (fc_run fc);
          rp = \<lparr>rp_TaskID = task_id t,
                rp_Mode = (if ForkedFrom t \<noteq> None then RunPlanModeFork else RunPlanModeInitial),
                rp_ResumeFrom = fc_ResumeFrom fc, rp_ParentTaskID = ForkedFrom t,
                rp_Nodes = Map.empty, rp_TopoOrder = cw_order w\<rparr>
      in case ParentSnapshot fc of
           None \<Rightarrow> Inr (rp\<lparr>rp_Nodes := initial_plans w\<rparr>)
         | Some sn \<Rightarrow>
            (case validateResumeBoundary w (fc_ResumeFrom fc) of
               Some m \<Rightarrow> Inl m
             | None \<Rightarrow>
                (case snd (ValidateParentStateClosure (range_rt e (sn_Nodes sn)) (sn_Nodes sn) (cw_graph w) ClosureModeFork) of
                   i # _ \<Rightarrow> Inl (''parent state not closed: '' @ ci_Message i)
                 | [] \<Rightarrow>
                    (case newPlanningContext e w inp fc of
                       Inl m \<Rightarrow> Inl m
                     | Inr pc \<Rightarrow>
                        (case plan_nodes e fc pc w sn (cw_order w) Map.empty of
                           Inl m \<Rightarrow> Inl m
                         | Inr plans \<Rightarrow>
                            Inr (rp\<lparr>rp_Nodes := fillRunPlanMapItemReuse e (fc_run pc) w sn plans\<rparr>))))))"

subsection \<open>Materialising the plan\<close>

definition reused_rt :: "reuse_snapshot \<Rightarrow> node_runtime \<Rightarrow> gmap \<Rightarrow> node_runtime \<Rightarrow> node_runtime" where
  "reused_rt sn prt d rt = rt\<lparr>State := NodeSuccess, Progress := 1, Output := Some d, Checkpoint := Checkpoint prt,
     InputHash := InputHash prt, ResolvedInput := ResolvedInput prt, OutputHash := OutputHash prt,
     IsInjected := True, ReuseKind := ReuseNode, IsDirty := False, DirtyReason := [],
     ReusedFromTaskID := Some (sn_TaskID sn), ReusedFromNode := Some (Name prt),
     rt_ActivatedEdges := rt_ActivatedEdges prt\<rparr>"

text \<open>
  \<^verbatim>\<open>injectReusedNodeOutput\<close>; a parent row without an output leaves everything as it is. (That the
  runtime exists is checked by the caller.)
\<close>

definition injectReusedNodeOutput ::
  "env \<Rightarrow> compiled_workflow \<Rightarrow> reuse_snapshot \<Rightarrow> name \<Rightarrow> node_runtime \<Rightarrow> fork_ctx \<Rightarrow> go_error option \<times> fork_ctx" where
  "injectReusedNodeOutput e w sn n prt fc =
     (case cw_nodes w n of
        None \<Rightarrow> (Some (''node def not found: '' @ n), fc)
      | Some nd \<Rightarrow>
         (case Output prt of
            None \<Rightarrow> (None, fc)
          | Some d \<Rightarrow>
             (case SetNodeOutput n d (OutputSchema nd) (fc_run fc) of
                (Some m, _, c1) \<Rightarrow> (Some m, fc\<lparr>fc_run := c1\<rparr>)
              | (None, d', c1) \<Rightarrow>
                 (let rt = reused_rt sn prt d' (the (Runtime c1 n));
                      c2 = ActivatedEdgesMerge (rt_ActivatedEdges rt)
                             (UpdateNodeStatus n (node_state_str NodeSuccess) (set_runtime n rt c1))
                  in save_rt e rt (fc\<lparr>fc_run := c2, InjectedOutputs := (InjectedOutputs fc)(n \<mapsto> d')\<rparr>)))))"

definition materializeReusedNode ::
  "env \<Rightarrow> compiled_workflow \<Rightarrow> reuse_snapshot \<Rightarrow> name \<Rightarrow> node_runtime \<Rightarrow> node_plan \<Rightarrow> fork_ctx \<Rightarrow> go_error option \<times> fork_ctx" where
  "materializeReusedNode e w sn n prt pl fc =
     (case injectReusedNodeOutput e w sn n prt fc of
        (Some m, fc1) \<Rightarrow> (Some m, fc1)
      | (None, fc1) \<Rightarrow>
         (case Runtime (fc_run fc1) n of
            None \<Rightarrow> (Some (''runtime not found: '' @ n), fc1)
          | Some rt \<Rightarrow>
             (let rt1 = rt\<lparr>ReuseKind := np_ReuseKind pl, IsInjected := True, IsDirty := False, DirtyReason := [],
                           ExecutionReason := reason_str (np_Reason pl)\<rparr>
              in save_rt e rt1 (put_rt n rt1 fc1))))"

definition skipped_rt :: "reuse_snapshot \<Rightarrow> node_runtime \<Rightarrow> node_plan \<Rightarrow> node_runtime \<Rightarrow> node_runtime" where
  "skipped_rt sn prt pl rt = rt\<lparr>State := NodeSkipped, Progress := 1, StartedAt := StartedAt prt,
     FinishedAt := FinishedAt prt, Error := Error prt, Output := Output prt, Checkpoint := Checkpoint prt,
     InputHash := InputHash prt, ResolvedInput := ResolvedInput prt, OutputHash := OutputHash prt,
     IsInjected := True, ReuseKind := np_ReuseKind pl, IsDirty := False, DirtyReason := [],
     ExecutionReason := reason_str (np_Reason pl), ReusedFromTaskID := Some (sn_TaskID sn),
     ReusedFromNode := Some (Name prt), rt_ActivatedEdges := rt_ActivatedEdges prt\<rparr>"

definition materializeReusedSkippedNode ::
  "env \<Rightarrow> reuse_snapshot \<Rightarrow> name \<Rightarrow> node_runtime \<Rightarrow> node_runtime \<Rightarrow> node_plan \<Rightarrow> fork_ctx \<Rightarrow> go_error option \<times> fork_ctx" where
  "materializeReusedSkippedNode e sn n rt prt pl fc =
     (let rt1 = skipped_rt sn prt pl rt;
          c = ActivatedEdgesMerge (rt_ActivatedEdges rt1)
                (UpdateNodeStatus (Name rt) (node_state_str NodeSkipped) (set_runtime n rt1 (fc_run fc)))
      in save_rt e rt1 (fc\<lparr>fc_run := c\<rparr>))"

definition patched_rt :: "node_runtime \<Rightarrow> node_runtime" where
  "patched_rt rt = rt\<lparr>State := NodeSuccess, Progress := 1, IsInjected := False, IsDirty := False, DirtyReason := [],
     ReusedFromTaskID := None, ReusedFromNode := None, ReuseKind := ReuseNone\<rparr>"

definition finalizePatchedRuntimeState :: "env \<Rightarrow> name \<Rightarrow> node_runtime \<Rightarrow> fork_ctx \<Rightarrow> go_error option \<times> fork_ctx" where
  "finalizePatchedRuntimeState e n rt fc =
     (let rt1 = patched_rt rt
      in save_rt e rt1 (fc\<lparr>fc_run := UpdateNodeStatus (Name rt) (node_state_str NodeSuccess)
                                        (set_runtime n rt1 (fc_run fc))\<rparr>))"

fun patch_runtime :: "env \<Rightarrow> compiled_workflow \<Rightarrow> name \<Rightarrow> runtime_patch list \<Rightarrow> fork_ctx \<Rightarrow> go_error option \<times> fork_ctx" where
  "patch_runtime e w n [] fc = (None, fc)"
| "patch_runtime e w n (p # ps) fc =
     (case applySinglePatchToRuntime e w n (the (Runtime (fc_run fc) n)) p fc of
        (Some m, fc1) \<Rightarrow> (Some m, fc1)
      | (None, fc1) \<Rightarrow> patch_runtime e w n ps fc1)"

definition materializePatchedNode ::
  "env \<Rightarrow> compiled_workflow \<Rightarrow> reuse_snapshot \<Rightarrow> name \<Rightarrow> node_runtime \<Rightarrow> node_plan \<Rightarrow> fork_ctx \<Rightarrow> go_error option \<times> fork_ctx" where
  "materializePatchedNode e w sn n prt pl fc =
     (case injectReusedNodeOutput e w sn n prt fc of
        (Some m, fc1) \<Rightarrow> (Some m, fc1)
      | (None, fc1) \<Rightarrow>
         (case patch_runtime e w n (np_Patches pl) fc1 of
            (Some m, fc2) \<Rightarrow> (Some m, fc2)
          | (None, fc2) \<Rightarrow>
             finalizePatchedRuntimeState e n
               ((the (Runtime (fc_run fc2) n))\<lparr>ExecutionReason := reason_str (np_Reason pl)\<rparr>)
               (fc2\<lparr>PatchedNodes := insert n (PatchedNodes fc2)\<rparr>)))"

definition mapExecutionReasonToDirtyReason :: "execution_reason \<Rightarrow> string" where
  "mapExecutionReasonToDirtyReason r =
     (if r = ExecutionReasonPatchedNode then ''patched_state'' else reason_str r)"

definition dirty_rt :: "node_runtime option \<Rightarrow> string \<Rightarrow> node_runtime \<Rightarrow> node_runtime" where
  "dirty_rt prt reason rt =
     (let keep = (ReuseKind rt = ReuseMapItems \<and> prt \<noteq> None)
      in rt\<lparr>State := NodePending, Progress := 0, StartedAt := None, FinishedAt := None, Error := [],
            Output := None, OutputHash := [], rt_ActivatedEdges := Map.empty,
            Checkpoint := (if keep then Checkpoint (the prt) else None),
            ReuseKind := (if keep then ReuseKind rt else ReuseNone),
            IsDirty := True, IsInjected := False, DirtyReason := reason,
            ReusedFromTaskID := None, ReusedFromNode := None\<rparr>)"

definition prepareDirtyRuntime ::
  "env \<Rightarrow> name \<Rightarrow> node_runtime \<Rightarrow> node_runtime option \<Rightarrow> string \<Rightarrow> fork_ctx \<Rightarrow> go_error option \<times> fork_ctx" where
  "prepareDirtyRuntime e n rt prt reason fc =
     (let rt1 = dirty_rt prt reason rt;
          c = UpdateNodeStatus n (node_state_str NodePending)
                (ClearNodeOutput n (clearOutgoingActivatedEdges n (set_runtime n rt1 (fc_run fc))))
      in save_rt e rt1 (fc\<lparr>fc_run := c\<rparr>))"

definition materializeExecutableNode ::
  "env \<Rightarrow> name \<Rightarrow> node_runtime \<Rightarrow> node_runtime option \<Rightarrow> node_plan \<Rightarrow> fork_ctx \<Rightarrow> go_error option \<times> fork_ctx" where
  "materializeExecutableNode e n rt prt pl fc =
     (let rt1 = rt\<lparr>ExecutionReason := reason_str (np_Reason pl)\<rparr>
      in if np_Reason pl = ExecutionReasonNone then save_rt e rt1 (put_rt n rt1 fc)
         else prepareDirtyRuntime e n rt1 prt (mapExecutionReasonToDirtyReason (np_Reason pl)) fc)"

definition materialize_node ::
  "env \<Rightarrow> compiled_workflow \<Rightarrow> name \<Rightarrow> node_runtime \<Rightarrow> node_plan \<Rightarrow> fork_ctx \<Rightarrow> go_error option \<times> fork_ctx" where
  "materialize_node e w n rt pl fc =
     (let parent = (case ParentSnapshot fc of None \<Rightarrow> None | Some sn \<Rightarrow> map_option (\<lambda>prt. (sn, prt)) (sn_Nodes sn n))
      in case np_Action pl of
           PlanActionReuse \<Rightarrow>
             (case parent of
                None \<Rightarrow> (Some (''reuse node missing parent snapshot: '' @ n), fc)
              | Some (sn, prt) \<Rightarrow>
                 if State prt = NodeSkipped then materializeReusedSkippedNode e sn n rt prt pl fc
                 else if State prt \<noteq> NodeSuccess then (Some (''reuse node parent state is not success: '' @ n), fc)
                 else materializeReusedNode e w sn n prt pl fc)
         | PlanActionPatch \<Rightarrow>
             (case parent of
                None \<Rightarrow> (Some (''patched node missing parent snapshot: '' @ n), fc)
              | Some (sn, prt) \<Rightarrow>
                 if State prt \<noteq> NodeSuccess then (Some (''patched node parent state is not success: '' @ n), fc)
                 else materializePatchedNode e w sn n prt pl fc)
         | PlanActionExecute \<Rightarrow>
             materializeExecutableNode e n rt (map_option snd parent) pl
               (fc\<lparr>DirtyNodes := (if np_Reason pl \<noteq> ExecutionReasonNone then insert n (DirtyNodes fc) else DirtyNodes fc),
                   MapItemReuse := (if np_MapItemReuse pl \<noteq> {} then (MapItemReuse fc)(n \<mapsto> np_MapItemReuse pl)
                                    else MapItemReuse fc)\<rparr>))"

fun materialize_nodes :: "env \<Rightarrow> compiled_workflow \<Rightarrow> run_plan \<Rightarrow> name list \<Rightarrow> fork_ctx \<Rightarrow> go_error option \<times> fork_ctx" where
  "materialize_nodes e w plan [] fc = (None, fc)"
| "materialize_nodes e w plan (n # ns) fc =
     (case rp_Nodes plan n of
        None \<Rightarrow> materialize_nodes e w plan ns fc
      | Some pl \<Rightarrow>
         (case Runtime (fc_run fc) n of
            None \<Rightarrow> (Some (''runtime not found: '' @ n), fc)
          | Some rt \<Rightarrow>
             (case materialize_node e w n rt pl fc of
                (Some m, fc1) \<Rightarrow> (Some m, fc1)
              | (None, fc1) \<Rightarrow> materialize_nodes e w plan ns fc1)))"

definition MaterializeRunPlan :: "env \<Rightarrow> compiled_workflow \<Rightarrow> run_plan \<Rightarrow> fork_ctx \<Rightarrow> go_error option \<times> fork_ctx" where
  "MaterializeRunPlan e w plan fc = materialize_nodes e w plan (rp_TopoOrder plan) fc"

text \<open>The fork branch of \<^verbatim>\<open>RunWithResult\<close>: snapshot, plan, materialisation.\<close>

definition fork_planning ::
  "env \<Rightarrow> (int \<Rightarrow> (task \<times> (name \<rightharpoonup> node_runtime)) option) \<Rightarrow> runtime_patch list \<Rightarrow> compiled_workflow
    \<Rightarrow> run_ctx \<Rightarrow> go_error option \<times> run_ctx" where
  "fork_planning e db patches w c =
     (let fc = \<lparr>fc_run = c, Patches = patches,
                fc_ResumeFrom = (case ResumeFrom (Task c) of None \<Rightarrow> [] | Some r \<Rightarrow> r),
                ParentSnapshot = None, PatchedNodes = {}, DirtyNodes = {}, MapItemReuse = Map.empty,
                InjectedOutputs = Map.empty\<rparr>
      in case LoadForkParentSnapshot db fc of
           (Some m, fc1) \<Rightarrow> (Some m, fc_run fc1)
         | (None, fc1) \<Rightarrow>
            (case BuildRunPlan e w (Input c) fc1 of
               Inl m \<Rightarrow> (Some m, fc_run fc1)
             | Inr plan \<Rightarrow> (case MaterializeRunPlan e w plan fc1 of (r, fc2) \<Rightarrow> (r, fc_run fc2))))"

subsection \<open>The search finds exactly the descendants\<close>

definition bfs_inv :: "graph \<Rightarrow> name \<Rightarrow> name \<Rightarrow> name list \<times> name set \<times> bool \<Rightarrow> bool" where
  "bfs_inv g a b = (\<lambda>(q, vis, found).
     (found \<longrightarrow> (a, b) \<in> (edge_rel g)\<^sup>*) \<and> set q \<union> vis \<subseteq> (edge_rel g)\<^sup>* `` {a}
     \<and> (\<not> found \<longrightarrow> a \<in> set q \<union> vis \<and> (\<forall>u\<in>vis. b \<notin> set (Children g u) \<and> set (Children g u) \<subseteq> vis \<union> set q)))"

lemma bfs_step_inv:
  assumes inv: "bfs_inv g a b s" and on: "bfs_on s"
  shows "bfs_inv g a b (bfs_step g b s)"
proof -
  obtain q vis found where s: "s = (q, vis, found)" by (cases s)
  with on obtain u q' where q: "q = u # q'" and nf: "\<not> found" by (cases q) (auto simp: bfs_on_def)
  have reach: "set q \<union> vis \<subseteq> (edge_rel g)\<^sup>* `` {a}" and mem: "a \<in> set q \<union> vis"
    and cl: "\<forall>x\<in>vis. b \<notin> set (Children g x) \<and> set (Children g x) \<subseteq> vis \<union> set q"
    using inv s nf by (auto simp: bfs_inv_def)
  have ch: "(a, v) \<in> (edge_rel g)\<^sup>*" if "v \<in> set (Children g u)" for v
  proof (rule rtrancl_into_rtrancl)
    show "(a, u) \<in> (edge_rel g)\<^sup>*" using reach q by auto
    show "(u, v) \<in> edge_rel g" using that by (simp add: edge_rel_def)
  qed
  consider (seen) "u \<in> vis" | (hit) "u \<notin> vis" "b \<in> set (Children g u)" | (new) "u \<notin> vis" "b \<notin> set (Children g u)"
    by blast
  then show ?thesis
  proof cases
    case seen
    with reach mem cl s q nf show ?thesis by (auto simp: bfs_inv_def bfs_step_def)
  next
    case hit
    with reach ch [OF hit(2)] s q show ?thesis by (auto simp: bfs_inv_def bfs_step_def)
  next
    case new
    have "set (q' @ Children g u) \<union> insert u vis \<subseteq> (edge_rel g)\<^sup>* `` {a}" using reach ch q by auto
    moreover have "a \<in> set (q' @ Children g u) \<union> insert u vis" using mem q by auto
    moreover have "\<forall>x\<in>insert u vis. b \<notin> set (Children g x)
        \<and> set (Children g x) \<subseteq> insert u vis \<union> set (q' @ Children g u)" using cl new(2) q by auto
    ultimately show ?thesis using new s q nf by (simp add: bfs_inv_def bfs_step_def) blast
  qed
qed

definition bfs_rel :: "graph \<Rightarrow> ((name list \<times> name set \<times> bool) \<times> name list \<times> name set \<times> bool) set" where
  "bfs_rel g = inv_image (less_than <*lex*> less_than)
     (\<lambda>(q, vis, found). (card (dom (gNodes g) - vis), length q))"

lemma bfs_step_decreases:
  assumes g: "wf_graph g" and on: "bfs_on s"
  shows "(bfs_step g b s, s) \<in> bfs_rel g"
proof -
  obtain q vis found where s: "s = (q, vis, found)" by (cases s)
  with on obtain u q' where q: "q = u # q'" by (cases q) (auto simp: bfs_on_def)
  have fin: "finite (dom (gNodes g) - vis)" using wf_graph_finite [OF g] by simp
  show ?thesis
  proof (cases "u \<notin> vis \<and> u \<in> dom (gNodes g)")
    case True
    then have "dom (gNodes g) - insert u vis \<subset> dom (gNodes g) - vis" by auto
    then have "card (dom (gNodes g) - insert u vis) < card (dom (gNodes g) - vis)" by (rule psubset_card_mono [OF fin])
    with True s q show ?thesis by (simp add: bfs_rel_def bfs_step_def)
  next
    case False
    then have "u \<in> vis \<or> Children g u = [] \<and> dom (gNodes g) - insert u vis = dom (gNodes g) - vis"
      using wf_graph_children_dom [OF g] by (metis Diff_insert0 last_in_set)
    with s q show ?thesis by (auto simp: bfs_rel_def bfs_step_def)
  qed
qed

lemma isReachable_iff:
  assumes g: "wf_graph g"
  shows "isReachable g a b \<longleftrightarrow> (a, b) \<in> (edge_rel g)\<^sup>*"
proof (cases "a = b")
  case True
  then show ?thesis by (simp add: isReachable_def)
next
  case ne: False
  let ?r = "while bfs_on (bfs_step g b) ([a], {}, False)"
  have "bfs_inv g a b ?r \<and> \<not> bfs_on ?r"
  proof (rule while_rule [where P = "bfs_inv g a b" and r = "bfs_rel g"])
    show "bfs_inv g a b ([a], {}, False)" by (simp add: bfs_inv_def)
    show "wf (bfs_rel g)" by (simp add: bfs_rel_def wf_inv_image wf_lex_prod)
  qed (use bfs_step_inv bfs_step_decreases [OF g] in auto)
  moreover obtain q vis found where r: "?r = (q, vis, found)" by (cases ?r)
  ultimately have inv: "bfs_inv g a b (q, vis, found)" and off: "found \<or> q = []" by (auto simp: bfs_on_def)
  have "found" if "(a, b) \<in> (edge_rel g)\<^sup>*"
  proof (rule ccontr)
    assume nf: "\<not> found"
    with inv off have a: "a \<in> vis" and cl: "\<And>u. u \<in> vis \<Longrightarrow> b \<notin> set (Children g u) \<and> set (Children g u) \<subseteq> vis"
      by (auto simp: bfs_inv_def)
    have "x \<in> vis \<and> (x \<noteq> a \<longrightarrow> x \<noteq> b)" if "(a, x) \<in> (edge_rel g)\<^sup>*" for x
      using that by (induction rule: rtrancl_induct) (use a cl in \<open>auto simp: edge_rel_def\<close>)
    with that ne show False by blast
  qed
  with inv r ne show ?thesis by (auto simp: isReachable_def bfs_inv_def)
qed

subsection \<open>The three closure checks are two\<close>

text \<open>
  What the checks ask for: no row in a transient state, and all edges of a finished node
  decided. The third check looks at the same edges from the other end.
\<close>

definition rows_closed :: "graph \<Rightarrow> closure_mode \<Rightarrow> (name \<rightharpoonup> node_runtime) \<Rightarrow> bool" where
  "rows_closed dag mode rows \<longleftrightarrow> (\<forall>n rt. rows n = Some rt \<longrightarrow>
     \<not> unstableStates (State rt) \<and> (mode = ClosureModeFork \<longrightarrow> State rt \<noteq> NodeAwaiting)
     \<and> (terminalNodeStates (State rt) \<longrightarrow>
          (\<forall>ed\<in>set (Edges dag n). rt_ActivatedEdges rt (edge_key n (To ed)) \<noteq> None)))"

lemma concat_map_Nil: "concat (map f xs) = [] \<longleftrightarrow> (\<forall>x\<in>set xs. f x = [])"
  by (induction xs) auto

lemma checkTerminalEdgeClosure_Nil:
  "checkTerminalEdgeClosure it rows dag = [] \<longleftrightarrow>
     (\<forall>n\<in>set it. \<forall>rt. rows n = Some rt \<longrightarrow> terminalNodeStates (State rt) \<longrightarrow>
        (\<forall>ed\<in>set (Edges dag n). rt_ActivatedEdges rt (edge_key n (To ed)) \<noteq> None))"
  by (auto simp: checkTerminalEdgeClosure_def Let_def concat_map_Nil simp del: concat_eq_Nil_conv
      split: option.splits if_splits)

lemma checkUnstableNodes_Nil:
  "checkUnstableNodes it rows mode = [] \<longleftrightarrow>
     (\<forall>n\<in>set it. \<forall>rt. rows n = Some rt \<longrightarrow> \<not> unstableStates (State rt)
        \<and> \<not> (mode = ClosureModeFork \<and> State rt = NodeAwaiting))"
  by (auto simp: checkUnstableNodes_def split: option.splits if_splits)

lemma checkPendingNodeEdges_Nil:
  "(\<And>p n prt. rows p = Some prt \<Longrightarrow> terminalNodeStates (State prt) \<Longrightarrow> p \<in> set (Parents dag n) \<Longrightarrow>
      rt_ActivatedEdges prt (edge_key p n) \<noteq> None) \<Longrightarrow> checkPendingNodeEdges it rows dag = []"
  by (auto simp: checkPendingNodeEdges_def Let_def split: option.splits if_splits)

lemma closure_check_exact:
  assumes g: "wf_graph dag" and it: "set it = dom rows"
  shows "fst (ValidateParentStateClosure it rows dag mode) \<longleftrightarrow> rows_closed dag mode rows"
proof
  assume "fst (ValidateParentStateClosure it rows dag mode)"
  then have "checkTerminalEdgeClosure it rows dag = []" "checkUnstableNodes it rows mode = []"
    by (auto simp: ValidateParentStateClosure_def Let_def)
  with it show "rows_closed dag mode rows"
    unfolding rows_closed_def checkTerminalEdgeClosure_Nil checkUnstableNodes_Nil by blast
next
  assume cl: "rows_closed dag mode rows"
  have "rt_ActivatedEdges prt (edge_key p n) \<noteq> None"
    if "rows p = Some prt" "terminalNodeStates (State prt)" "p \<in> set (Parents dag n)" for p n prt
  proof -
    from that(3) wf_graph_parent_iff [OF g] wf_graph_children [OF g, of p]
    obtain ed where "ed \<in> set (Edges dag p)" "To ed = n" by auto
    with cl that(1,2) show ?thesis unfolding rows_closed_def by blast
  qed
  then have "checkPendingNodeEdges it rows dag = []" by (rule checkPendingNodeEdges_Nil)
  moreover have "checkTerminalEdgeClosure it rows dag = []" "checkUnstableNodes it rows mode = []"
    using cl unfolding rows_closed_def checkTerminalEdgeClosure_Nil checkUnstableNodes_Nil by blast+
  ultimately show "fst (ValidateParentStateClosure it rows dag mode)"
    by (simp add: ValidateParentStateClosure_def Let_def)
qed

subsection \<open>The plan as a fixed point of its rules\<close>

lemma hasExecuteParent_cong:
  assumes "\<forall>p\<in>set (Parents g n). map_option np_Action (P p) = map_option np_Action (Q p)"
  shows "hasExecuteParent n g P sn = hasExecuteParent n g Q sn"
proof -
  have runs: "(case x of None \<Rightarrow> False | Some pl \<Rightarrow> np_Action pl = PlanActionExecute)
      \<longleftrightarrow> map_option np_Action x = Some PlanActionExecute" for x by (cases x) auto
  show ?thesis unfolding hasExecuteParent_def list_ex_iff runs using assms by metis
qed

lemma buildSingleNodePlan_cong:
  assumes "\<forall>p\<in>set (Parents (cw_graph w) n). map_option np_Action (P p) = map_option np_Action (Q p)"
  shows "buildSingleNodePlan e fc pc w sn P n = buildSingleNodePlan e fc pc w sn Q n"
  using hasExecuteParent_cong [OF assms, of sn] by (simp only: buildSingleNodePlan_def)

lemma plan_nodes_fix:
  assumes "topo_from (cw_graph w) D ns" and "distinct ns" and "set ns \<inter> D = {}"
    and "plan_nodes e fc pc w sn ns plans0 = Inr plans"
  shows "(\<forall>n. n \<notin> set ns \<longrightarrow> plans n = plans0 n)
    \<and> (\<forall>n\<in>set ns. \<exists>pl. plans n = Some pl \<and> buildSingleNodePlan e fc pc w sn plans n = Inr pl)"
  using assms
proof (induction ns arbitrary: D plans0)
  case Nil
  then show ?case by simp
next
  case (Cons n ns)
  from Cons.prems(4) obtain pl where pl: "buildSingleNodePlan e fc pc w sn plans0 n = Inr pl"
    and rest: "plan_nodes e fc pc w sn ns (plans0(n \<mapsto> pl)) = Inr plans" by (auto split: sum.splits)
  from Cons.prems(1-3) have t: "set (Parents (cw_graph w) n) \<subseteq> D" "topo_from (cw_graph w) (insert n D) ns"
    "distinct ns" "set ns \<inter> insert n D = {}" "n \<notin> D" by auto
  from Cons.IH [OF t(2-4) rest] have keep: "\<And>m. m \<notin> set ns \<Longrightarrow> plans m = (plans0(n \<mapsto> pl)) m"
    and fx: "\<forall>m\<in>set ns. \<exists>pl. plans m = Some pl \<and> buildSingleNodePlan e fc pc w sn plans m = Inr pl" by auto
  have "plans p = plans0 p" if "p \<in> set (Parents (cw_graph w) n)" for p
  proof -
    have "p \<notin> set ns" "p \<noteq> n" using that t by auto
    with keep show ?thesis by simp
  qed
  then have "buildSingleNodePlan e fc pc w sn plans n = Inr pl"
    using pl buildSingleNodePlan_cong [of w n plans plans0] by simp
  moreover have "plans n = Some pl" using keep [of n] t(4) by simp
  ultimately show ?case using fx keep by auto
qed

definition same_action :: "node_plan option \<Rightarrow> node_plan option \<Rightarrow> bool" where
  "same_action a b \<longleftrightarrow> (case (a, b) of
      (Some pl, Some ql) \<Rightarrow> np_Action ql = np_Action pl \<and> np_Reason ql = np_Reason pl \<and> np_Patches ql = np_Patches pl
        \<and> (np_Action pl \<noteq> PlanActionExecute \<longrightarrow> ql = pl)
    | (None, None) \<Rightarrow> True | _ \<Rightarrow> False)"

lemma same_action_refl: "same_action x x"
  by (auto simp: same_action_def split: option.splits)

lemma same_action_trans: "same_action x y \<Longrightarrow> same_action y z \<Longrightarrow> same_action x z"
  by (auto simp: same_action_def split: option.splits prod.splits)

lemma fill_item_same: "same_action (ps m) (fill_item e c w sn k ps m)"
  by (auto simp: fill_item_def same_action_def with_items_def split: option.splits)

lemma fill_same_action: "same_action (plans n) (fillRunPlanMapItemReuse e c w sn plans n)"
proof -
  have "same_action (ps n) (fold (fill_item e c w sn) ns ps n)" for ns ps
  proof (induction ns arbitrary: ps)
    case Nil
    show ?case by (simp add: same_action_refl)
  next
    case (Cons k ns)
    show ?case using same_action_trans [OF fill_item_same Cons.IH] by simp
  qed
  then show ?thesis by (simp add: fillRunPlanMapItemReuse_def)
qed

lemma BuildRunPlan_fix:
  assumes "wf_compiled w" and "ParentSnapshot fc = Some sn" and "BuildRunPlan e w inp fc = Inr plan"
  shows "\<exists>pc. newPlanningContext e w inp fc = Inr pc \<and> rp_TopoOrder plan = cw_order w
    \<and> snd (ValidateParentStateClosure (range_rt e (sn_Nodes sn)) (sn_Nodes sn) (cw_graph w) ClosureModeFork) = []
    \<and> (\<forall>n\<in>set (cw_order w). \<exists>pl ql. buildSingleNodePlan e fc pc w sn (rp_Nodes plan) n = Inr pl
          \<and> rp_Nodes plan n = Some ql \<and> same_action (Some pl) (Some ql))"
proof -
  from assms(2,3) obtain pc plans where pc: "newPlanningContext e w inp fc = Inr pc"
    and pn: "plan_nodes e fc pc w sn (cw_order w) Map.empty = Inr plans"
    and plan: "rp_Nodes plan = fillRunPlanMapItemReuse e (fc_run pc) w sn plans" "rp_TopoOrder plan = cw_order w"
    and cl: "snd (ValidateParentStateClosure (range_rt e (sn_Nodes sn)) (sn_Nodes sn) (cw_graph w) ClosureModeFork) = []"
    by (auto simp: BuildRunPlan_def Let_def split: option.splits list.splits sum.splits)
  have "topo_from (cw_graph w) {} (cw_order w)" "distinct (cw_order w)"
    using assms(1) by (auto simp: wf_compiled_def topo_order_def enumerates_def)
  from plan_nodes_fix [OF this _ pn]
  have fx: "\<forall>n\<in>set (cw_order w). \<exists>pl. plans n = Some pl \<and> buildSingleNodePlan e fc pc w sn plans n = Inr pl" by simp
  have act: "map_option np_Action (plans m) = map_option np_Action (rp_Nodes plan m)" for m
    using fill_same_action [of plans m e "fc_run pc" w sn] plan(1)
    by (auto simp: same_action_def split: option.splits prod.splits)
  have "\<exists>pl ql. buildSingleNodePlan e fc pc w sn (rp_Nodes plan) n = Inr pl
          \<and> rp_Nodes plan n = Some ql \<and> same_action (Some pl) (Some ql)" if n: "n \<in> set (cw_order w)" for n
  proof -
    from fx n obtain pl where pl: "plans n = Some pl" "buildSingleNodePlan e fc pc w sn plans n = Inr pl" by blast
    with buildSingleNodePlan_cong [of w n plans "rp_Nodes plan"] act
    have "buildSingleNodePlan e fc pc w sn (rp_Nodes plan) n = Inr pl" by simp
    moreover have "same_action (Some pl) (rp_Nodes plan n)"
      using fill_same_action [of plans n e "fc_run pc" w sn] plan(1) pl(1) by simp
    ultimately show ?thesis by (auto simp: same_action_def split: option.splits)
  qed
  with pc plan(2) cl show ?thesis by blast
qed

text \<open>The rules of one node, read off for each action.\<close>

lemma plan_rules:
  assumes "buildSingleNodePlan e fc pc w sn plans n = Inr pl"
  shows plan_reuse: "np_Action pl = PlanActionReuse \<Longrightarrow> \<exists>prt nd. sn_Nodes sn n = Some prt \<and> cw_nodes w n = Some nd
      \<and> n \<notin> PatchedNodes pc \<and> \<not> (fc_ResumeFrom fc \<noteq> [] \<and> n = fc_ResumeFrom fc)
      \<and> (State prt = NodeSkipped \<or> State prt = NodeSuccess
          \<and> \<not> (fc_ResumeFrom fc \<noteq> [] \<and> isReachable (cw_graph w) (fc_ResumeFrom fc) n)
          \<and> \<not> hasExecuteParent n (cw_graph w) plans sn
          \<and> (\<exists>inp. buildNodeInput e (fc_run pc) nd (cw_graph w) = Inr inp \<and> plan_hash e fc nd inp = InputHash prt))"
    and plan_patch: "np_Action pl = PlanActionPatch \<Longrightarrow> \<exists>prt. sn_Nodes sn n = Some prt \<and> n \<in> PatchedNodes pc
      \<and> \<not> (fc_ResumeFrom fc \<noteq> [] \<and> n = fc_ResumeFrom fc) \<and> np_Patches pl = collectNodePatches (Patches fc) n"
    and plan_execute: "np_Action pl = PlanActionExecute \<Longrightarrow> np_Reason pl \<noteq> ExecutionReasonNone"
  using assms
  by (auto simp: buildSingleNodePlan_def Let_def run_it_def reuse_it_def patch_it_def
      split: option.splits if_splits sum.splits)

lemma plan_patches_names:
  "plan_patches e w ps fc = (r, fc') \<Longrightarrow> PatchedNodes fc' \<subseteq> PatchedNodes fc \<union> p_Node ` set ps"
proof (induction ps arbitrary: fc)
  case Nil
  then show ?case by simp
next
  case (Cons p ps)
  have single: "PatchedNodes fc1 \<subseteq> PatchedNodes fc \<union> {p_Node p}"
    if "applySinglePatchInMemory e w rt p fc = (x, rt1, fc1)" for x rt rt1 fc1
    using that by (auto simp: applySinglePatchInMemory_def split: if_splits prod.splits option.splits)
  show ?case
  proof (cases "\<exists>rt rt1 fc1. p_Node p \<noteq> [] \<and> Runtime (fc_run fc) (p_Node p) = Some rt
      \<and> applySinglePatchInMemory e w rt p fc = (None, rt1, fc1)")
    case True
    then obtain rt rt1 fc1 where a: "p_Node p \<noteq> []" "Runtime (fc_run fc) (p_Node p) = Some rt"
      "applySinglePatchInMemory e w rt p fc = (None, rt1, fc1)" by blast
    with Cons.prems have "plan_patches e w ps (put_rt (p_Node p) rt1 fc1) = (r, fc')" by simp
    from Cons.IH [OF this] single [OF a(3)] show ?thesis by (auto simp: put_rt_def)
  next
    case False
    with Cons.prems single show ?thesis
      by (auto simp: put_rt_def split: if_splits option.splits prod.splits) blast+
  qed
qed

lemma newPlanningContext_patched:
  assumes "newPlanningContext e w inp fc = Inr pc"
  shows "PatchedNodes pc \<subseteq> p_Node ` set (Patches fc)"
proof -
  from assms obtain c1 where
    "plan_patches e w (Patches fc) (fc\<lparr>fc_run := c1, PatchedNodes := {}\<rparr>) = (None, pc)"
    by (auto simp: newPlanningContext_def applyPatchesToPlanningContext_def
        split: option.splits prod.splits)
  from plan_patches_names [OF this] show ?thesis by simp
qed

lemma validate_patches_None:
  "validate_patches w r ps = None \<Longrightarrow> p \<in> set ps \<Longrightarrow>
     validateRuntimePatch w p = None \<and> validatePatchResumeRelation w p r = None"
  by (induction ps) (auto split: option.splits)

subsection \<open>What materialising does to the rows\<close>

text \<open>
  A row that the scheduler can take over: one it can pick up, with all edges decided if the
  node is finished.
\<close>

definition steady :: "graph \<Rightarrow> name \<Rightarrow> node_runtime \<Rightarrow> bool" where
  "steady dag n rt \<longleftrightarrow> resumable rt \<and> (isTerminal (State rt) \<longrightarrow>
     (\<forall>ed\<in>set (Edges dag n). rt_ActivatedEdges rt (edge_key n (To ed)) \<noteq> None))"

definition touches :: "name \<Rightarrow> (node_runtime \<Rightarrow> bool) \<Rightarrow> fork_ctx \<Rightarrow> fork_ctx \<Rightarrow> bool" where
  "touches n P fc fc' \<longleftrightarrow> WfNodes (fc_run fc') = WfNodes (fc_run fc) \<and> WfEdges (fc_run fc') = WfEdges (fc_run fc)
     \<and> ParentSnapshot fc' = ParentSnapshot fc \<and> Task (fc_run fc') = Task (fc_run fc)
     \<and> (\<forall>m. m \<noteq> n \<longrightarrow> Runtime (fc_run fc') m = Runtime (fc_run fc) m)
     \<and> (\<exists>rt. Runtime (fc_run fc') n = Some rt \<and> P rt)"

lemma touches_trans:
  assumes "touches n P a b" and "\<And>rt. Runtime (fc_run b) n = Some rt \<Longrightarrow> P rt \<Longrightarrow> touches n Q b c"
  shows "touches n Q a c"
proof -
  from assms(1) obtain rt where "Runtime (fc_run b) n = Some rt" "P rt" by (auto simp: touches_def)
  from assms(2) [OF this] assms(1) show ?thesis by (auto simp: touches_def)
qed

lemma touches_mono: "touches n P a b \<Longrightarrow> (\<And>rt. P rt \<Longrightarrow> Q rt) \<Longrightarrow> touches n Q a b"
  by (auto simp: touches_def)

lemma SetNodeOutput_view:
  "SetNodeOutput n d sch c = (r, d', c') \<Longrightarrow> Runtime c' = Runtime c \<and> WfNodes c' = WfNodes c \<and> WfEdges c' = WfEdges c
    \<and> Task c' = Task c \<and> ActivatedEdges c' = ActivatedEdges c"
  by (auto simp: SetNodeOutput_def split: prod.splits option.splits)

lemma save_rt_view:
  assumes "save_rt e rt fc = (r, fc')"
  shows "Runtime (fc_run fc') = Runtime (fc_run fc) \<and> WfNodes (fc_run fc') = WfNodes (fc_run fc)
    \<and> WfEdges (fc_run fc') = WfEdges (fc_run fc) \<and> Task (fc_run fc') = Task (fc_run fc)
    \<and> ParentSnapshot fc' = ParentSnapshot fc"
  using assms by (auto simp: save_rt_def nodeRepo_Update_def split: prod.splits option.splits)

lemma save_touches:
  assumes "save_rt e rt fc1 = (r, fc')" and "touches n P fc fc1"
  shows "touches n P fc fc'"
  using assms(2) save_rt_view [OF assms(1)] by (simp add: touches_def)

lemmas row_ops = set_runtime_def UpdateNodeStatus_def ClearNodeOutput_def ActivatedEdgesMerge_def
  clearOutgoingActivatedEdges_def put_rt_def

text \<open>The injection of the parent's result, if there is one.\<close>

definition taken_over :: "node_runtime \<Rightarrow> node_runtime \<Rightarrow> bool" where
  "taken_over prt rt \<longleftrightarrow> State rt = NodeSuccess \<and> rt_ActivatedEdges rt = rt_ActivatedEdges prt"

lemma inject_touches:
  assumes "injectReusedNodeOutput e w sn n prt fc = (None, fc')" and "Runtime (fc_run fc) n = Some rt"
  shows "touches n (\<lambda>r. if Output prt = None then r = rt else taken_over prt r) fc fc'"
proof (cases "Output prt")
  case None
  with assms show ?thesis by (auto simp: injectReusedNodeOutput_def touches_def split: option.splits)
next
  case (Some d)
  with assms(1) obtain nd d' c1 where nd: "cw_nodes w n = Some nd"
    and s: "SetNodeOutput n d (OutputSchema nd) (fc_run fc) = (None, d', c1)"
    by (auto simp: injectReusedNodeOutput_def split: option.splits prod.splits)
  let ?rt = "reused_rt sn prt d' (the (Runtime c1 n))"
  have sv: "save_rt e ?rt (fc\<lparr>fc_run := ActivatedEdgesMerge (rt_ActivatedEdges ?rt)
      (UpdateNodeStatus n (node_state_str NodeSuccess) (set_runtime n ?rt c1)),
        InjectedOutputs := (InjectedOutputs fc)(n \<mapsto> d')\<rparr>) = (None, fc')"
    using assms(1) Some nd s by (simp add: injectReusedNodeOutput_def Let_def)
  show ?thesis
    by (rule save_touches [OF sv])
      (use Some SetNodeOutput_view [OF s] in \<open>auto simp: touches_def taken_over_def row_ops reused_rt_def\<close>)
qed

lemma patch_in_memory_view:
  assumes "applySinglePatchInMemory e w rt p fc = (r, rt', fc')"
  shows "State rt' = State rt \<and> rt_ActivatedEdges rt' = rt_ActivatedEdges rt \<and> Name rt' = Name rt
    \<and> Runtime (fc_run fc') = Runtime (fc_run fc) \<and> WfNodes (fc_run fc') = WfNodes (fc_run fc)
    \<and> WfEdges (fc_run fc') = WfEdges (fc_run fc) \<and> Task (fc_run fc') = Task (fc_run fc)
    \<and> ParentSnapshot fc' = ParentSnapshot fc"
proof -
  define same where "same rt' c' \<longleftrightarrow> State rt' = State rt \<and> rt_ActivatedEdges rt' = rt_ActivatedEdges rt
    \<and> Name rt' = Name rt \<and> Runtime c' = Runtime (fc_run fc) \<and> WfNodes c' = WfNodes (fc_run fc)
    \<and> WfEdges c' = WfEdges (fc_run fc) \<and> Task c' = Task (fc_run fc)" for rt' :: node_runtime and c' :: run_ctx
  have out: "same rt' c'" if "patch_node_output e w rt p (fc_run fc) = (r, rt', c')" for r rt' c'
    using that by (auto simp: patch_node_output_def same_def split: prod.splits option.splits if_splits
        dest!: SetNodeOutput_view)
  have reb: "same rt' c'" if "rebuildNodeOutputFromCheckpoint e w (rt\<lparr>Checkpoint := doc\<rparr>) (fc_run fc) = (r, rt', c')"
    for r rt' c' doc
    using that by (auto simp: rebuildNodeOutputFromCheckpoint_def same_def Let_def row_ops
        split: prod.splits option.splits sum.splits dest!: SetNodeOutput_view)
  have upd: "same (rt\<lparr>Checkpoint := doc\<rparr>) (fc_run fc)" for doc by (simp add: same_def)
  have cp: "same rt' c'" if "patch_node_checkpoint e w rt p (fc_run fc) = (r, rt', c')" for r rt' c'
    using that by (auto simp: patch_node_checkpoint_def split: prod.splits option.splits if_splits
        intro: upd dest: reb)
  have base: "same rt (fc_run fc)" by (simp add: same_def)
  show ?thesis
  proof (cases "fc_run fc' = fc_run fc \<and> rt' = rt \<and> ParentSnapshot fc' = ParentSnapshot fc")
    case False
    with assms obtain x rt1 c1 where x: "(if p_Target p = PatchTargetNodeOutput then patch_node_output e w rt p (fc_run fc)
        else patch_node_checkpoint e w rt p (fc_run fc)) = (x, rt1, c1)"
      and r: "rt' = rt1 \<or> rt' = mark_patched rt1" "fc_run fc' = c1" "ParentSnapshot fc' = ParentSnapshot fc"
      by (auto simp: applySinglePatchInMemory_def split: if_splits prod.splits option.splits)
    have "same rt1 c1" using x out cp by (auto split: if_splits)
    with r show ?thesis by (auto simp: same_def mark_patched_def)
  qed simp
qed

lemma patch_runtime_touches:
  assumes "patch_runtime e w n ps fc = (None, fc')" and "Runtime (fc_run fc) n = Some rt"
  shows "touches n (\<lambda>r. State r = State rt \<and> rt_ActivatedEdges r = rt_ActivatedEdges rt) fc fc'"
  using assms
proof (induction ps arbitrary: fc rt)
  case Nil
  then show ?case by (auto simp: touches_def)
next
  case (Cons p ps)
  let ?P = "\<lambda>r. State r = State rt \<and> rt_ActivatedEdges r = rt_ActivatedEdges rt"
  from Cons.prems obtain fc1 where a: "applySinglePatchToRuntime e w n rt p fc = (None, fc1)"
    and rest: "patch_runtime e w n ps fc1 = (None, fc')" by (auto split: prod.splits option.splits)
  from a obtain rt1 fc2 where m: "applySinglePatchInMemory e w rt p fc = (None, rt1, fc2)"
    and sv: "save_rt e rt1 (put_rt n rt1 fc2) = (None, fc1)"
    by (auto simp: applySinglePatchToRuntime_def split: if_splits prod.splits option.splits)
  have "touches n ?P fc (put_rt n rt1 fc2)"
    using patch_in_memory_view [OF m] by (auto simp: touches_def put_rt_def set_runtime_def)
  from save_touches [OF sv this] show ?case
  proof (rule touches_trans)
    fix r assume r: "Runtime (fc_run fc1) n = Some r" "?P r"
    from Cons.IH [OF rest r(1)] show "touches n ?P fc1 fc'" by (rule touches_mono) (use r(2) in simp)
  qed
qed

definition outcome :: "graph \<Rightarrow> name \<Rightarrow> plan_action \<Rightarrow> node_runtime \<Rightarrow> bool" where
  "outcome dag n act rt \<longleftrightarrow> steady dag n rt \<and> (act = PlanActionExecute \<longrightarrow> State rt = NodePending)"

lemma taken_over_outcome:
  assumes "rows_closed dag mode (sn_Nodes sn)" and "sn_Nodes sn n = Some prt" and "terminalNodeStates (State prt)"
    and "State rt \<in> {NodeSuccess, NodeSkipped}" and "rt_ActivatedEdges rt = rt_ActivatedEdges prt"
    and "act \<noteq> PlanActionExecute"
  shows "outcome dag n act rt"
  using assms by (auto simp: outcome_def steady_def resumable_def rows_closed_def)

lemma reused_touches:
  assumes m: "materializeReusedNode e w sn n prt pl fc = (None, fc')"
    and rt: "Runtime (fc_run fc) n = Some rt" "steady dag n rt"
    and cl: "rows_closed dag mode (sn_Nodes sn)" "sn_Nodes sn n = Some prt" "State prt = NodeSuccess"
    and act: "np_Action pl \<noteq> PlanActionExecute"
  shows "touches n (outcome dag n (np_Action pl)) fc fc'"
proof -
  let ?mark = "\<lambda>r. r\<lparr>ReuseKind := np_ReuseKind pl, IsInjected := True, IsDirty := False, DirtyReason := [],
      ExecutionReason := reason_str (np_Reason pl)\<rparr>"
  from m obtain fc1 where inj: "injectReusedNodeOutput e w sn n prt fc = (None, fc1)"
    by (auto simp: materializeReusedNode_def split: prod.splits option.splits)
  show ?thesis
  proof (rule touches_trans [OF inject_touches [OF inj rt(1)]])
    fix r assume r: "Runtime (fc_run fc1) n = Some r" "if Output prt = None then r = rt else taken_over prt r"
    from m inj r(1) have sv: "save_rt e (?mark r) (put_rt n (?mark r) fc1) = (None, fc')"
      by (simp add: materializeReusedNode_def Let_def)
    have "outcome dag n (np_Action pl) (?mark r)"
    proof (cases "Output prt = None")
      case True
      with r(2) rt(2) act show ?thesis by (auto simp: outcome_def steady_def resumable_def)
    next
      case False
      with r(2) cl act show ?thesis
        by (intro taken_over_outcome [OF cl(1,2)]) (auto simp: taken_over_def terminalNodeStates_def)
    qed
    then show "touches n (outcome dag n (np_Action pl)) fc1 fc'"
      by (intro save_touches [OF sv]) (auto simp: touches_def put_rt_def set_runtime_def)
  qed
qed

lemma skipped_touches:
  assumes m: "materializeReusedSkippedNode e sn n rt prt pl fc = (None, fc')"
    and cl: "rows_closed dag mode (sn_Nodes sn)" "sn_Nodes sn n = Some prt" "State prt = NodeSkipped"
    and act: "np_Action pl \<noteq> PlanActionExecute"
  shows "touches n (outcome dag n (np_Action pl)) fc fc'"
proof -
  have "outcome dag n (np_Action pl) (skipped_rt sn prt pl rt)"
    by (rule taken_over_outcome [OF cl(1,2)]) (use cl(3) act in \<open>auto simp: skipped_rt_def terminalNodeStates_def\<close>)
  then show ?thesis
    using m unfolding materializeReusedSkippedNode_def Let_def
    by (elim save_touches) (auto simp: touches_def row_ops)
qed

lemma patched_touches:
  assumes m: "materializePatchedNode e w sn n prt pl fc = (None, fc')"
    and rt: "Runtime (fc_run fc) n = Some rt"
    and cl: "rows_closed dag mode (sn_Nodes sn)" "sn_Nodes sn n = Some prt" "State prt = NodeSuccess"
    and out: "Output prt \<noteq> None" and act: "np_Action pl \<noteq> PlanActionExecute"
  shows "touches n (outcome dag n (np_Action pl)) fc fc'"
proof -
  from m obtain fc1 fc2 where inj: "injectReusedNodeOutput e w sn n prt fc = (None, fc1)"
    and pr: "patch_runtime e w n (np_Patches pl) fc1 = (None, fc2)"
    and fin: "finalizePatchedRuntimeState e n
        ((the (Runtime (fc_run fc2) n))\<lparr>ExecutionReason := reason_str (np_Reason pl)\<rparr>)
        (fc2\<lparr>PatchedNodes := insert n (PatchedNodes fc2)\<rparr>) = (None, fc')"
    by (auto simp: materializePatchedNode_def split: prod.splits option.splits)
  from inject_touches [OF inj rt] out have "touches n (taken_over prt) fc fc1" by simp
  then have "touches n (taken_over prt) fc fc2"
  proof (rule touches_trans)
    fix r assume r: "Runtime (fc_run fc1) n = Some r" "taken_over prt r"
    from patch_runtime_touches [OF pr r(1)] show "touches n (taken_over prt) fc1 fc2"
      by (rule touches_mono) (use r(2) in \<open>auto simp: taken_over_def\<close>)
  qed
  then show ?thesis
  proof (rule touches_trans)
    fix r assume r: "Runtime (fc_run fc2) n = Some r" "taken_over prt r"
    have "outcome dag n (np_Action pl) (patched_rt (r\<lparr>ExecutionReason := reason_str (np_Reason pl)\<rparr>))"
      by (rule taken_over_outcome [OF cl(1,2)])
        (use r(2) cl(3) act in \<open>auto simp: patched_rt_def taken_over_def terminalNodeStates_def\<close>)
    then show "touches n (outcome dag n (np_Action pl)) fc2 fc'"
      using fin r(1) unfolding finalizePatchedRuntimeState_def Let_def
      by (elim save_touches) (auto simp: touches_def row_ops)
  qed
qed

lemma dirty_touches:
  assumes "prepareDirtyRuntime e n rt prt reason fc = (r, fc')"
  shows "touches n (outcome dag n act) fc fc'"
proof -
  have "outcome dag n act (dirty_rt prt reason rt)"
    by (simp add: outcome_def steady_def resumable_def dirty_rt_def Let_def)
  then show ?thesis
    using assms unfolding prepareDirtyRuntime_def Let_def
    by (elim save_touches) (auto simp: touches_def row_ops)
qed

definition plan_ok :: "reuse_snapshot \<Rightarrow> name \<Rightarrow> node_plan \<Rightarrow> bool" where
  "plan_ok sn n pl \<longleftrightarrow> (np_Action pl = PlanActionExecute \<longrightarrow> np_Reason pl \<noteq> ExecutionReasonNone)
     \<and> (np_Action pl = PlanActionPatch \<longrightarrow> (\<forall>prt. sn_Nodes sn n = Some prt \<longrightarrow> Output prt \<noteq> None))"

lemma materialize_node_touches:
  assumes m: "materialize_node e w n rt pl fc = (None, fc')"
    and sn: "ParentSnapshot fc = Some sn" "rows_closed dag mode (sn_Nodes sn)" and ok: "plan_ok sn n pl"
    and rt: "Runtime (fc_run fc) n = Some rt" "steady dag n rt"
  shows "touches n (outcome dag n (np_Action pl)) fc fc'"
proof (cases "np_Action pl")
  case PlanActionReuse
  with m sn(1) obtain prt where prt: "sn_Nodes sn n = Some prt"
    by (auto simp: materialize_node_def Let_def split: option.splits)
  show ?thesis
  proof (cases "State prt = NodeSkipped")
    case True
    with m PlanActionReuse prt sn(1) have "materializeReusedSkippedNode e sn n rt prt pl fc = (None, fc')"
      by (simp add: materialize_node_def Let_def)
    from skipped_touches [OF this sn(2) prt True] PlanActionReuse show ?thesis by simp
  next
    case False
    with m PlanActionReuse prt sn(1) have "State prt = NodeSuccess"
      "materializeReusedNode e w sn n prt pl fc = (None, fc')"
      by (auto simp: materialize_node_def Let_def split: if_splits)
    from reused_touches [OF this(2) rt sn(2) prt this(1)] PlanActionReuse show ?thesis by simp
  qed
next
  case PlanActionPatch
  with m sn(1) obtain prt where prt: "sn_Nodes sn n = Some prt" "State prt = NodeSuccess"
    "materializePatchedNode e w sn n prt pl fc = (None, fc')"
    by (auto simp: materialize_node_def Let_def split: option.splits if_splits)
  from ok PlanActionPatch prt(1) have "Output prt \<noteq> None" by (simp add: plan_ok_def)
  from patched_touches [OF prt(3) rt(1) sn(2) prt(1,2) this] PlanActionPatch show ?thesis by simp
next
  case PlanActionExecute
  with ok have "np_Reason pl \<noteq> ExecutionReasonNone" by (simp add: plan_ok_def)
  with m PlanActionExecute obtain fc0 rt0 prt reason where
    "prepareDirtyRuntime e n rt0 prt reason fc0 = (None, fc')" "fc_run fc0 = fc_run fc" "ParentSnapshot fc0 = ParentSnapshot fc"
    by (auto simp: materialize_node_def materializeExecutableNode_def Let_def)
  from dirty_touches [OF this(1)] this(2,3) show ?thesis by (simp add: touches_def)
qed

lemma materialize_nodes_outcome:
  assumes "materialize_nodes e w plan ns fc = (None, fc')" and "distinct ns"
    and "ParentSnapshot fc = Some sn" and "rows_closed dag mode (sn_Nodes sn)"
    and "\<forall>n\<in>set ns. \<exists>pl. rp_Nodes plan n = Some pl \<and> plan_ok sn n pl"
    and "\<forall>n\<in>set ns. \<exists>rt. Runtime (fc_run fc) n = Some rt \<and> steady dag n rt"
  shows "WfNodes (fc_run fc') = WfNodes (fc_run fc) \<and> WfEdges (fc_run fc') = WfEdges (fc_run fc)
    \<and> (\<forall>m. m \<notin> set ns \<longrightarrow> Runtime (fc_run fc') m = Runtime (fc_run fc) m)
    \<and> (\<forall>n\<in>set ns. \<exists>rt pl. Runtime (fc_run fc') n = Some rt \<and> rp_Nodes plan n = Some pl \<and> outcome dag n (np_Action pl) rt)"
  using assms
proof (induction ns arbitrary: fc)
  case Nil
  then show ?case by simp
next
  case (Cons n ns)
  from Cons.prems(5,6) obtain pl rt where pl: "rp_Nodes plan n = Some pl" "plan_ok sn n pl"
    and rt: "Runtime (fc_run fc) n = Some rt" "steady dag n rt" by auto
  with Cons.prems(1) obtain fc1 where m: "materialize_node e w n rt pl fc = (None, fc1)"
    and rest: "materialize_nodes e w plan ns fc1 = (None, fc')" by (auto split: prod.splits option.splits)
  from materialize_node_touches [OF m Cons.prems(3,4) pl(2) rt]
  have t: "touches n (outcome dag n (np_Action pl)) fc fc1" .
  then obtain rt1 where rt1: "Runtime (fc_run fc1) n = Some rt1" "outcome dag n (np_Action pl) rt1"
    and fr: "\<And>m. m \<noteq> n \<Longrightarrow> Runtime (fc_run fc1) m = Runtime (fc_run fc) m"
      "ParentSnapshot fc1 = ParentSnapshot fc" "WfNodes (fc_run fc1) = WfNodes (fc_run fc)"
      "WfEdges (fc_run fc1) = WfEdges (fc_run fc)" by (auto simp: touches_def)
  have nin: "n \<notin> set ns" using Cons.prems(2) by simp
  have "\<forall>k\<in>set ns. \<exists>rt. Runtime (fc_run fc1) k = Some rt \<and> steady dag k rt"
    using Cons.prems(6) fr(1) nin by (metis list.set_intros(2))
  with Cons.IH [OF rest _ _ Cons.prems(4)] Cons.prems(2,3,5) fr(2)
  have IH: "WfNodes (fc_run fc') = WfNodes (fc_run fc1)" "WfEdges (fc_run fc') = WfEdges (fc_run fc1)"
    "\<And>m. m \<notin> set ns \<Longrightarrow> Runtime (fc_run fc') m = Runtime (fc_run fc1) m"
    "\<forall>n\<in>set ns. \<exists>rt pl. Runtime (fc_run fc') n = Some rt \<and> rp_Nodes plan n = Some pl \<and> outcome dag n (np_Action pl) rt"
    by auto
  from IH(3) [OF nin] rt1 pl(1) IH(4)
  have "\<forall>k\<in>set (n # ns). \<exists>rt pl. Runtime (fc_run fc') k = Some rt \<and> rp_Nodes plan k = Some pl \<and> outcome dag k (np_Action pl) rt"
    by simp
  with IH(1-3) fr show ?case by simp
qed

lemma rows_sched:
  assumes "ctx_ok dag c" and "range_ok e (dom (gNodes dag))"
    and "\<And>n rt. Runtime c n = Some rt \<Longrightarrow> steady dag n rt"
    and "\<And>n rt. Runtime c n = Some rt \<Longrightarrow> State rt \<in> {NodeSuccess, NodeSuccessPendingEdges} \<Longrightarrow> n \<in> J"
  shows "sched_beyond J dag (rebuildActivatedEdges e c)"
proof -
  let ?c = "rebuildActivatedEdges e c"
  have fr: "Runtime ?c = Runtime c" "WfNodes ?c = WfNodes c" "WfEdges ?c = WfEdges c"
    by (simp_all add: rebuildActivatedEdges_def)
  have ok: "ctx_ok dag ?c" using assms(1) by (simp add: ctx_ok_def fr)
  have mem: "rt \<in> set (runtime_list e c)" if "Runtime c n = Some rt" for n rt
  proof -
    have "set (range_rt e (Runtime c)) = dom (Runtime c)"
      using assms(1,2) by (simp add: range_ok_def enumerates_def ctx_ok_def)
    with that show ?thesis by (auto simp: runtime_list_def set_map_filter)
  qed
  have "edges_closed dag ?c" unfolding edges_closed_def
  proof (intro allI impI)
    fix n s assume "nstate ?c n = Some s \<and> isTerminal s"
    then obtain rt where rt: "Runtime c n = Some rt" "isTerminal (State rt)" by (auto simp: nstate_def fr)
    with assms(3) have fl: "\<forall>ed\<in>set (Edges dag n). rt_ActivatedEdges rt (edge_key n (To ed)) \<noteq> None"
      by (simp add: steady_def)
    have "ActivatedEdges ?c (edge_key n (To ed)) \<noteq> None" if "ed \<in> set (Edges dag n)" for ed
    proof -
      have "fold load_edges (runtime_list e c) (ActivatedEdges c) (edge_key n (To ed)) \<noteq> None"
        by (rule fold_load_edges_dom) (use mem [OF rt(1)] rt(2) fl that in blast)
      then show ?thesis by (simp add: rebuildActivatedEdges_def)
    qed
    with fl rt show "node_closed dag n ?c" by (auto simp: node_closed_def fr)
  qed
  moreover have "join_inv J dag ?c"
    using assms(4) by (auto simp: join_inv_def joined_def nstate_def fr)
  moreover have "resumable rt" if "Runtime ?c n = Some rt" for n rt
    using assms(3) [of n rt] that by (simp add: fr steady_def)
  ultimately show ?thesis using ok by (simp add: sched_but_def)
qed

lemma sched_steady:
  assumes "sched_beyond J dag (rebuildActivatedEdges e c)" and "Runtime c n = Some rt"
  shows "steady dag n rt"
proof -
  let ?c = "rebuildActivatedEdges e c"
  have r: "Runtime ?c n = Some rt" using assms(2) by (simp add: rebuildActivatedEdges_def)
  then have "resumable rt" using assms(1) by (auto simp: sched_but_def)
  moreover have "rt_ActivatedEdges rt (edge_key n (To ed)) \<noteq> None"
    if "isTerminal (State rt)" "ed \<in> set (Edges dag n)" for ed
  proof -
    have "nstate ?c n = Some (State rt)" using r by (simp add: nstate_def)
    with assms(1) that(1) have "node_closed dag n ?c" by (auto simp: sched_but_def edges_closed_def)
    with r that(2) show ?thesis by (auto simp: node_closed_def)
  qed
  ultimately show ?thesis by (simp add: steady_def)
qed

text \<open>
  The parent's rows as a fork needs them: they belong to nodes of the workflow, and a node
  that is patched had an output.
\<close>

definition forkable :: "compiled_workflow \<Rightarrow> (name \<rightharpoonup> node_runtime) \<Rightarrow> runtime_patch list \<Rightarrow> bool" where
  "forkable w rows ps \<longleftrightarrow> dom rows \<subseteq> dom (gNodes (cw_graph w))
     \<and> (\<forall>p\<in>set ps. \<forall>prt. rows (p_Node p) = Some prt \<longrightarrow> Output prt \<noteq> None)"

lemma fork_planning_sched:
  assumes w: "wf_compiled w" and rng: "range_ok e (dom (gNodes (cw_graph w)))"
    and s: "sched (cw_graph w) (rebuildActivatedEdges e c)" and fk: "ForkedFrom (Task c) = Some pid"
    and db: "db pid = Some (t, rows)" "forkable w rows ps"
    and plan: "fork_planning e db ps w c = (None, c')"
  shows "\<exists>J. sched_beyond J (cw_graph w) (rebuildActivatedEdges e c')"
proof -
  let ?g = "cw_graph w" and ?sn = "\<lparr>sn_TaskID = task_id t, sn_Nodes = rows, sn_Output = OutputJSON t\<rparr>"
  let ?fc = "\<lparr>fc_run = c, Patches = ps, fc_ResumeFrom = (case ResumeFrom (Task c) of None \<Rightarrow> [] | Some r \<Rightarrow> r),
      ParentSnapshot = Some ?sn, PatchedNodes = {}, DirtyNodes = {}, MapItemReuse = Map.empty, InjectedOutputs = Map.empty\<rparr>"
  from plan fk db(1) obtain rp fc2 where rp: "BuildRunPlan e w (Input c) ?fc = Inr rp"
    and m: "MaterializeRunPlan e w rp ?fc = (None, fc2)" and c': "c' = fc_run fc2"
    by (auto simp: fork_planning_def LoadForkParentSnapshot_def Let_def split: sum.splits prod.splits)
  from BuildRunPlan_fix [OF w _ rp, of ?sn] obtain pc where
    pc: "newPlanningContext e w (Input c) ?fc = Inr pc" and ord: "rp_TopoOrder rp = cw_order w"
    and cl: "snd (ValidateParentStateClosure (range_rt e rows) rows ?g ClosureModeFork) = []"
    and fx: "\<forall>n\<in>set (cw_order w). \<exists>pl ql. buildSingleNodePlan e ?fc pc w ?sn (rp_Nodes rp) n = Inr pl
          \<and> rp_Nodes rp n = Some ql \<and> same_action (Some pl) (Some ql)" by auto
  have ok: "ctx_ok ?g (rebuildActivatedEdges e c)" using s by (simp add: sched_but_def)
  then have ctx: "ctx_ok ?g c" by (simp add: ctx_ok_def rebuildActivatedEdges_def)
  then have g: "wf_graph ?g" and dom: "dom (Runtime c) = dom (gNodes ?g)" by (auto simp: ctx_ok_def)
  have ords: "set (cw_order w) = dom (gNodes ?g)" "distinct (cw_order w)"
    using w by (auto simp: wf_compiled_def topo_order_def enumerates_def)
  have "set (range_rt e rows) = dom rows"
    using rng db(2) by (auto simp: range_ok_def forkable_def enumerates_def)
  from closure_check_exact [OF g this] cl have closed: "rows_closed ?g ClosureModeFork rows"
    by (simp add: ValidateParentStateClosure_def Let_def)
  have plans: "\<forall>n\<in>set (cw_order w). \<exists>pl. rp_Nodes rp n = Some pl \<and> plan_ok ?sn n pl"
  proof
    fix n assume "n \<in> set (cw_order w)"
    with fx obtain pl ql where b: "buildSingleNodePlan e ?fc pc w ?sn (rp_Nodes rp) n = Inr pl"
      and q: "rp_Nodes rp n = Some ql" "same_action (Some pl) (Some ql)" by blast
    have "n \<in> p_Node ` set ps" if "np_Action pl = PlanActionPatch"
      using plan_patch [OF b that] newPlanningContext_patched [OF pc] by auto
    with q(2) plan_execute [OF b] db(2) have "plan_ok ?sn n ql"
      by (auto simp: plan_ok_def same_action_def forkable_def)
    with q(1) show "\<exists>pl. rp_Nodes rp n = Some pl \<and> plan_ok ?sn n pl" by blast
  qed
  have steady: "\<forall>n\<in>set (cw_order w). \<exists>rt. Runtime (fc_run ?fc) n = Some rt \<and> steady ?g n rt"
    using sched_steady [OF s] dom ords(1) by force
  have "WfNodes c' = WfNodes c \<and> WfEdges c' = WfEdges c \<and> (\<forall>m. m \<notin> set (cw_order w) \<longrightarrow> Runtime c' m = Runtime c m)
    \<and> (\<forall>n\<in>set (cw_order w). \<exists>rt pl. Runtime c' n = Some rt \<and> rp_Nodes rp n = Some pl \<and> outcome ?g n (np_Action pl) rt)"
    using materialize_nodes_outcome [of e w rp "cw_order w" ?fc fc2 ?sn ?g ClosureModeFork] m ord ords closed plans steady
    by (simp add: MaterializeRunPlan_def c')
  then have fr: "WfNodes c' = WfNodes c" "WfEdges c' = WfEdges c"
    and out: "\<And>n. n \<notin> dom (gNodes ?g) \<Longrightarrow> Runtime c' n = Runtime c n"
    and oc: "\<And>n. n \<in> dom (gNodes ?g) \<Longrightarrow>
        \<exists>rt pl. Runtime c' n = Some rt \<and> rp_Nodes rp n = Some pl \<and> outcome ?g n (np_Action pl) rt"
    using ords(1) by auto
  have dom': "dom (Runtime c') = dom (gNodes ?g)"
  proof (rule set_eqI)
    fix n show "n \<in> dom (Runtime c') \<longleftrightarrow> n \<in> dom (gNodes ?g)"
    proof (cases "n \<in> dom (gNodes ?g)")
      case True
      with oc [OF True] show ?thesis by auto
    next
      case False
      with out [OF False] dom show ?thesis by (metis domIff)
    qed
  qed
  define J where "J = {n. \<exists>pl. rp_Nodes rp n = Some pl \<and> np_Action pl \<noteq> PlanActionExecute}"
  have "sched_beyond J ?g (rebuildActivatedEdges e c')"
  proof (rule rows_sched [OF _ rng])
    show "ctx_ok ?g c'" using ctx fr dom' by (simp add: ctx_ok_def)
    fix n rt assume rt: "Runtime c' n = Some rt"
    then have "n \<in> dom (gNodes ?g)" using dom' by blast
    from oc [OF this] rt obtain pl where "rp_Nodes rp n = Some pl" "outcome ?g n (np_Action pl) rt" by auto
    then show "steady ?g n rt" "State rt \<in> {NodeSuccess, NodeSuccessPendingEdges} \<Longrightarrow> n \<in> J"
      by (auto simp: outcome_def J_def)
  qed
  then show ?thesis by blast
qed

subsection \<open>A sample fork\<close>

text \<open>
  A fork of a run of two nodes, both finished by the parent run, with a patch of the first
  one. The hash of the sample environment is constant.
\<close>

lemma chain2_compiled: "compiled_from chain2 chain2_workflow"
proof -
  have B: "Build chain2 = Inr (cw_graph chain2_workflow)"
    by (simp add: chain2_workflow_def chain2_def Build_def sample_defs EdgeNormal_def empty_graph_def add_edge_def)
  have "dom (gNodes (cw_graph chain2_workflow)) = {''a'', ''b''}"
    using Build_Inr [OF B] by (simp add: chain2_def sample_node_def insert_commute)
  moreover have "Parents (cw_graph chain2_workflow) ''a'' = []" "Parents (cw_graph chain2_workflow) ''b'' = [''a'']"
    by (simp_all add: chain2_workflow_def chain2_def Build_def sample_defs EdgeNormal_def empty_graph_def add_edge_def)
  ultimately have "topo_order (cw_graph chain2_workflow) [''a'', ''b'']"
    by (auto simp: topo_order_def enumerates_def)
  then show ?thesis
    using B by (auto simp: compiled_from_def wf_compiled_def chain2_workflow_def chain2_def sample_node_def
        sample_cnode_def runnable_def)
qed

lemma chain2_dom: "dom (gNodes (cw_graph chain2_workflow)) = {''a'', ''b''}"
  using compiled_from_facts(2) [OF chain2_compiled] by (auto simp: chain2_def sample_node_def)

lemma chain2_range_ok: "range_ok (sample_env go) (dom (gNodes (cw_graph chain2_workflow)))"
proof -
  have "enumerates (filter (\<lambda>n. m n \<noteq> None) [''a'', ''b'', ''c'', ''d'']) m"
    if "dom m \<subseteq> {''a'', ''b''}" for m :: "name \<rightharpoonup> node_runtime"
    unfolding enumerates_def using that by (auto simp: dom_def)
  with chain2_dom show ?thesis unfolding range_ok_def sample_env_def by simp
qed

definition parent_rows :: "gmap option \<Rightarrow> name \<rightharpoonup> node_runtime" where
  "parent_rows out = [''a'' \<mapsto> (sample_rt ''a'' NodeSuccess)\<lparr>Output := out, InputHash := ''h'',
       rt_ActivatedEdges := [''a->b'' \<mapsto> True]\<rparr>,
     ''b'' \<mapsto> (sample_rt ''b'' NodeSuccess)\<lparr>Output := Some [(''x'', VInt 1)], InputHash := ''h''\<rparr>]"

definition parent_db :: "gmap option \<Rightarrow> int \<Rightarrow> (task \<times> (name \<rightharpoonup> node_runtime)) option" where
  "parent_db out = [7 \<mapsto> (sample_task\<lparr>Status := TaskSuccess\<rparr>, parent_rows out)]"

definition fork_task :: "name option \<Rightarrow> task" where
  "fork_task r = sample_task\<lparr>task_id := 8, RootID := 8, ForkedFrom := Some 7, ResumeFrom := r\<rparr>"

definition fork_start :: "name option \<Rightarrow> run_ctx" where
  "fork_start r = sample_ctx\<lparr>Task := fork_task r, dbTask := Some (fork_task r)\<rparr>"

definition patch_a :: runtime_patch where
  "patch_a = sample_patch ''x'' PatchOpSet (VInt 5)"

definition fork_sample :: "gmap option \<Rightarrow> name \<Rightarrow> fork_ctx" where
  "fork_sample out r = \<lparr>fc_run = fork_start (Some r), Patches = [patch_a], fc_ResumeFrom = r,
     ParentSnapshot = Some \<lparr>sn_TaskID = 7, sn_Nodes = parent_rows out, sn_Output = None\<rparr>,
     PatchedNodes = {}, DirtyNodes = {}, MapItemReuse = Map.empty, InjectedOutputs = Map.empty\<rparr>"

definition resume_b :: resume_spec where
  "resume_b = \<lparr>rs_ResumeFrom = ''b'', rs_Patches = [patch_a]\<rparr>"

lemma sample_plan_reuse:
  "case BuildRunPlan (sample_env True) chain2_workflow [] (fork_sample (Some [(''x'', VInt 1)]) []) of
     Inl m \<Rightarrow> False | Inr plan \<Rightarrow> map_option np_Action (rp_Nodes plan ''b'') = Some PlanActionReuse"
  by code_simp

lemma sample_plan_resume:
  "case BuildRunPlan (sample_env True) chain2_workflow [] (fork_sample (Some [(''x'', VInt 1)]) ''b'') of
     Inl m \<Rightarrow> False | Inr plan \<Rightarrow> map_option np_Action (rp_Nodes plan ''a'') = Some PlanActionPatch"
  by code_simp

lemma resume_b_valid: "validateResumeSpec chain2_workflow (Some resume_b) = None"
  by code_simp

subsection \<open>Properties\<close>

text \<open>
  The closure check of a parent run, for every order in which the rows are visited: it passes
  exactly when no row is in a transient state (awaiting included, for a fork) and every
  finished node has all its edges decided. The third check of the code, of the pending
  nodes, never adds anything to the first.
\<close>

lemma ValidateParentStateClosure_exact:
  assumes "wf_graph dag" and "set it = dom rows"
  shows "fst (ValidateParentStateClosure it rows dag mode) \<longleftrightarrow> rows_closed dag mode rows"
  using assms by (rule closure_check_exact)

lemma ValidateParentStateClosure_exact_witness:
  "fst (ValidateParentStateClosure [''b'', ''a''] (parent_rows None) (cw_graph chain2_workflow) ClosureModeFork)
     \<longleftrightarrow> rows_closed (cw_graph chain2_workflow) ClosureModeFork (parent_rows None)"
  by (rule ValidateParentStateClosure_exact [OF compiled_from_facts(1) [OF chain2_compiled]])
    (auto simp: parent_rows_def)

text \<open>
  C15. A node's result is taken over from the parent run only if it would be the same: a reused
  node was skipped in the parent run, or it was successful, its input, rebuilt from the
  patched outputs, has the hash of the parent's input, and none of the parents that had
  activated it is executed again.
\<close>

theorem plan_reuses_only_unchanged:
  assumes "wf_compiled w" and "ParentSnapshot fc = Some sn" and "BuildRunPlan e w inp fc = Inr plan"
    and "n \<in> set (cw_order w)" and "rp_Nodes plan n = Some pl" and "np_Action pl = PlanActionReuse"
  shows "\<exists>pc nd prt. newPlanningContext e w inp fc = Inr pc \<and> cw_nodes w n = Some nd \<and> sn_Nodes sn n = Some prt
    \<and> (State prt = NodeSkipped \<or> State prt = NodeSuccess
        \<and> (\<exists>inp'. buildNodeInput e (fc_run pc) nd (cw_graph w) = Inr inp' \<and> plan_hash e fc nd inp' = InputHash prt)
        \<and> (\<forall>p ql. p \<in> set (Parents (cw_graph w) n) \<and> parentEdgeWasActivated sn p n \<and> rp_Nodes plan p = Some ql
             \<longrightarrow> np_Action ql \<noteq> PlanActionExecute))"
proof -
  from BuildRunPlan_fix [OF assms(1-3)] assms(4,5) obtain pc pl0 where pc: "newPlanningContext e w inp fc = Inr pc"
    and b: "buildSingleNodePlan e fc pc w sn (rp_Nodes plan) n = Inr pl0" and "same_action (Some pl0) (Some pl)" by auto
  with assms(6) have "np_Action pl0 = PlanActionReuse" by (auto simp: same_action_def)
  from plan_reuse [OF b this] obtain prt nd where r: "sn_Nodes sn n = Some prt" "cw_nodes w n = Some nd"
    and d: "State prt = NodeSkipped \<or> State prt = NodeSuccess \<and> \<not> hasExecuteParent n (cw_graph w) (rp_Nodes plan) sn
      \<and> (\<exists>inp. buildNodeInput e (fc_run pc) nd (cw_graph w) = Inr inp \<and> plan_hash e fc nd inp = InputHash prt)" by blast
  have "np_Action ql \<noteq> PlanActionExecute" if "\<not> hasExecuteParent n (cw_graph w) (rp_Nodes plan) sn"
      "p \<in> set (Parents (cw_graph w) n)" "parentEdgeWasActivated sn p n" "rp_Nodes plan p = Some ql" for p ql
    using that by (auto simp: hasExecuteParent_def list_ex_iff split: option.splits)
  with pc r d show ?thesis by blast
qed

theorem plan_reuses_only_unchanged_witness:
  "\<exists>plan pl pc. BuildRunPlan (sample_env True) chain2_workflow [] (fork_sample (Some [(''x'', VInt 1)]) []) = Inr plan
     \<and> rp_Nodes plan ''b'' = Some pl \<and> np_Action pl = PlanActionReuse
     \<and> newPlanningContext (sample_env True) chain2_workflow [] (fork_sample (Some [(''x'', VInt 1)]) []) = Inr pc"
proof -
  let ?fc = "fork_sample (Some [(''x'', VInt 1)]) []"
  obtain plan pl where p: "BuildRunPlan (sample_env True) chain2_workflow [] ?fc = Inr plan"
    "rp_Nodes plan ''b'' = Some pl" "np_Action pl = PlanActionReuse"
    using sample_plan_reuse by (auto split: sum.splits)
  have w: "wf_compiled chain2_workflow" using chain2_compiled by (simp add: compiled_from_def)
  have "ParentSnapshot ?fc = Some \<lparr>sn_TaskID = 7, sn_Nodes = parent_rows (Some [(''x'', VInt 1)]), sn_Output = None\<rparr>"
    by (simp add: fork_sample_def)
  from plan_reuses_only_unchanged [OF w this p(1) _ p(2,3)] p show ?thesis
    by (auto simp: chain2_workflow_def)
qed

text \<open>
  C14. Resuming from a node runs everything behind it again. If the resume request passes the
  validation and a plan is built, every node that can be reached from the resume node is
  executed, with a reason, except those the parent run had skipped: no patch can shield a
  node behind the boundary, as the validation admits only patches above it and the graph
  has no cycle.
\<close>

theorem resume_reruns_downstream:
  assumes "compiled_from def w" and "validateResumeSpec w (Some spec) = None" and "rs_ResumeFrom spec \<noteq> []"
    and "Patches fc = rs_Patches spec" and "fc_ResumeFrom fc = rs_ResumeFrom spec"
    and "ParentSnapshot fc = Some sn" and "BuildRunPlan e w inp fc = Inr plan"
    and "(rs_ResumeFrom spec, n) \<in> (edge_rel (cw_graph w))\<^sup>*" and "n \<in> set (cw_order w)"
    and "\<not> (\<exists>prt. sn_Nodes sn n = Some prt \<and> State prt = NodeSkipped)"
  shows "\<exists>pl. rp_Nodes plan n = Some pl \<and> np_Action pl = PlanActionExecute \<and> np_Reason pl \<noteq> ExecutionReasonNone"
proof -
  let ?r = "rs_ResumeFrom spec" and ?g = "cw_graph w"
  have w: "wf_compiled w" using assms(1) by (simp add: compiled_from_def)
  have g: "wf_graph ?g" using compiled_from_facts(1) [OF assms(1)] .
  then have acy: "acyclic (edge_rel ?g)" using w by (auto simp: wf_compiled_def intro: topo_order_acyclic)
  from BuildRunPlan_fix [OF w assms(6,7)] assms(9) obtain pc pl0 ql where
    pc: "newPlanningContext e w inp fc = Inr pc"
    and b: "buildSingleNodePlan e fc pc w sn (rp_Nodes plan) n = Inr pl0"
    and q: "rp_Nodes plan n = Some ql" "same_action (Some pl0) (Some ql)" by blast
  have reach: "isReachable ?g ?r n" using assms(8) isReachable_iff [OF g] by simp
  have "np_Action pl0 \<noteq> PlanActionReuse"
    using plan_reuse [OF b] assms(3,5,10) reach by force
  moreover have "np_Action pl0 \<noteq> PlanActionPatch"
  proof
    assume "np_Action pl0 = PlanActionPatch"
    from plan_patch [OF b this] newPlanningContext_patched [OF pc] assms(3-5) obtain p where
      p: "p \<in> set (rs_Patches spec)" "p_Node p = n" and ne: "n \<noteq> ?r" by auto
    from assms(2) have "validate_patches w ?r (rs_Patches spec) = None"
      by (auto simp: validateResumeSpec_def split: option.splits)
    from validate_patches_None [OF this p(1)] p(2) ne assms(3) have "isReachable ?g n ?r"
      by (auto simp: validatePatchResumeRelation_def split: if_splits)
    then have "(n, ?r) \<in> (edge_rel ?g)\<^sup>*" using isReachable_iff [OF g] by simp
    with assms(8) ne acy show False
      by (metis acyclic_def rtrancl_eq_or_trancl trancl_trans)
  qed
  ultimately have "np_Action pl0 = PlanActionExecute" by (cases "np_Action pl0") auto
  with plan_execute [OF b] q show ?thesis by (auto simp: same_action_def)
qed

theorem resume_reruns_downstream_witness:
  "\<exists>plan pl. BuildRunPlan (sample_env True) chain2_workflow [] (fork_sample (Some [(''x'', VInt 1)]) ''b'') = Inr plan
     \<and> rp_Nodes plan ''b'' = Some pl \<and> np_Action pl = PlanActionExecute"
proof -
  let ?fc = "fork_sample (Some [(''x'', VInt 1)]) ''b''"
  obtain plan where p: "BuildRunPlan (sample_env True) chain2_workflow [] ?fc = Inr plan"
    using sample_plan_resume by (auto split: sum.splits)
  have sn: "ParentSnapshot ?fc = Some \<lparr>sn_TaskID = 7, sn_Nodes = parent_rows (Some [(''x'', VInt 1)]), sn_Output = None\<rparr>"
    by (simp add: fork_sample_def)
  have "\<exists>pl. rp_Nodes plan ''b'' = Some pl \<and> np_Action pl = PlanActionExecute \<and> np_Reason pl \<noteq> ExecutionReasonNone"
    by (rule resume_reruns_downstream [OF chain2_compiled resume_b_valid _ _ _ sn p])
      (auto simp: resume_b_def fork_sample_def chain2_workflow_def parent_rows_def sample_rt_def)
  with p show ?thesis by blast
qed

end
