(* ===== verification/Flux_Fanout.thy ===== *)
theory Flux_Fanout
  imports Flux_Builder Flux_Fork "HOL-Library.Option_ord"
begin

text \<open>
  What the map and the loop step share: \<^verbatim>\<open>workflow/nodes/subworkflow_input.go\<close>,
  \<^verbatim>\<open>workflow/nodes/fanout_progress.go\<close>, the expressions that name the items, the child rows of a
  node (\<^verbatim>\<open>ListByParentNode\<close> of \<^verbatim>\<open>repository/query/task.go\<close>) and
  \<^verbatim>\<open>NodeRuntime.WriteMapItemResult\<close> of \<^verbatim>\<open>domain/node_runtime.go\<close>. The runtime of the node is the
  entry of \<^const>\<open>Runtime\<close>: like the pointer of the code it is changed in place, also where the
  operation then fails.
\<close>

subsection \<open>Strings\<close>

text \<open>\<^verbatim>\<open>strings.Split\<close> with a separator that is not empty, and \<^verbatim>\<open>strings.ToLower\<close> on ASCII text.\<close>

fun Split :: "string \<Rightarrow> string \<Rightarrow> string list" where
  "Split sep [] = [[]]"
| "Split sep (ch # s) =
     (if sep \<noteq> [] \<and> prefix sep (ch # s) then [] # Split sep (drop (length sep - 1) s)
      else (case Split sep s of [] \<Rightarrow> [[ch]] | p # ps \<Rightarrow> (ch # p) # ps))"

definition lower_char :: "char \<Rightarrow> char" where
  "lower_char ch = (let k = of_char ch :: nat in if 65 \<le> k \<and> k \<le> 90 then char_of (k + 32) else ch)"

definition ToLower :: "string \<Rightarrow> string" where
  "ToLower s = map lower_char s"

definition lowerCamel :: "string \<Rightarrow> string" where
  "lowerCamel s = (case TrimSpace s of [] \<Rightarrow> [] | ch # r \<Rightarrow> lower_char ch # r)"

definition ToString :: "env \<Rightarrow> gval \<Rightarrow> string" where
  "ToString e v =
     (case v of
        VNil \<Rightarrow> []
      | VStr s \<Rightarrow> s
      | VInt k \<Rightarrow> FormatInt k
      | VBool b \<Rightarrow> (if b then ''true'' else ''false'')
      | VFloat _ \<Rightarrow> sprint e v
      | VList _ \<Rightarrow> json_text e v
      | VMap _ \<Rightarrow> json_text e v)"

subsection \<open>The execution context of a node\<close>

record node_exec =
  nx_NodeDef :: node
  nx_Input :: gmap
  nx_ParentSnapshot :: "reuse_snapshot option"
  nx_MapItemReuse :: "name \<rightharpoonup> nat set"

abbreviation nx_name :: "node_exec \<Rightarrow> name" where
  "nx_name x \<equiv> n_Name (nx_NodeDef x)"

text \<open>
  A step continues with the next operation or returns its error. The output of the step is
  what it has set by then.
\<close>

definition and_then ::
  "go_error option \<times> run_ctx \<Rightarrow> (run_ctx \<Rightarrow> step_result \<times> gmap \<times> run_ctx) \<Rightarrow> step_result \<times> gmap \<times> run_ctx" where
  "and_then r f = (case r of (Some m, c) \<Rightarrow> (StepErr m, [], c) | (None, c) \<Rightarrow> f c)"

text \<open>Changes the runtime of the node in memory and writes its row.\<close>

definition persist :: "env \<Rightarrow> name \<Rightarrow> node_runtime \<Rightarrow> run_ctx \<Rightarrow> go_error option \<times> run_ctx" where
  "persist e n rt c = nodeRepo_Update e rt (set_runtime n rt c)"

subsection \<open>Items\<close>

definition lookupObjectKey :: "env \<Rightarrow> gmap \<Rightarrow> string \<Rightarrow> gval option" where
  "lookupObjectKey e obj key =
     (case map_of obj key of
        Some v \<Rightarrow> Some v
      | None \<Rightarrow>
         (case find (\<lambda>k. ToLower (TrimSpace k) = ToLower (TrimSpace key)) (range_obj e obj) of
            Some k \<Rightarrow> Some (cfg obj k)
          | None \<Rightarrow> if key = [] then None else map_of obj (lowerCamel key)))"

fun descendValue :: "env \<Rightarrow> gval \<Rightarrow> string list \<Rightarrow> go_error + gval" where
  "descendValue e v [] = Inr v"
| "descendValue e v (p # ps) =
     (case v of
        VMap m \<Rightarrow> (case lookupObjectKey e m p of
            None \<Rightarrow> Inl ''field not found''
          | Some w \<Rightarrow> descendValue e w ps)
      | _ \<Rightarrow> if ps = [] then Inl ''field not found'' else Inl ''cannot descend into non-object value'')"

definition descend_output :: "env \<Rightarrow> run_ctx \<Rightarrow> name \<Rightarrow> string list \<Rightarrow> go_error + gval" where
  "descend_output e c n ps =
     (case OutNodes c n of
        None \<Rightarrow> Inl ''node not found''
      | Some o' \<Rightarrow> (case no_output o' of
          None \<Rightarrow> Inl ''node output not found''
        | Some m \<Rightarrow> descendValue e (VMap m) ps))"

definition resolveSingleValue :: "env \<Rightarrow> run_ctx \<Rightarrow> string \<Rightarrow> go_error + gval" where
  "resolveSingleValue e c path =
     (case Split ''.'' path of
        p # q # ps \<Rightarrow>
          (if p = ''input'' then descendValue e (VMap (Input c)) (q # ps)
           else if p = ''nodes'' then
             (case ps of
                r # r' # rs \<Rightarrow>
                  (if OutNodes c q = None then Inl ''node not found''
                   else if r \<noteq> ''output'' then Inl ''unsupported nodes expr path''
                   else descend_output e c q (r' # rs))
              | _ \<Rightarrow> Inl ''invalid nodes expr path'')
           else descend_output e c p (q # ps))
      | _ \<Rightarrow> Inl ''invalid expr path'')"

definition splitFallbackCandidates :: "string \<Rightarrow> string list" where
  "splitFallbackCandidates path = filter (\<lambda>s. s \<noteq> []) (map TrimSpace (Split ''??'' path))"

fun first_value :: "env \<Rightarrow> run_ctx \<Rightarrow> string list \<Rightarrow> go_error \<Rightarrow> go_error + gval" where
  "first_value e c [] m = Inl m"
| "first_value e c (p # ps) m =
     (case resolveSingleValue e c p of Inr v \<Rightarrow> Inr v | Inl m' \<Rightarrow> first_value e c ps m')"

definition resolveValue :: "env \<Rightarrow> run_ctx \<Rightarrow> string \<Rightarrow> go_error + gval" where
  "resolveValue e c path = first_value e c (splitFallbackCandidates path) ''invalid expr path''"

definition resolveItems :: "env \<Rightarrow> run_ctx \<Rightarrow> string \<Rightarrow> go_error + gval list" where
  "resolveItems e c ex =
     (case resolveValue e c ex of
        Inl m \<Rightarrow> Inl m
      | Inr v \<Rightarrow> (case ToAnySlice v of None \<Rightarrow> Inl ''invalid items expression'' | Some xs \<Rightarrow> Inr xs))"

subsection \<open>The input of a child\<close>

definition isFanoutInternalInputKey :: "string \<Rightarrow> bool" where
  "isFanoutInternalInputKey k \<longleftrightarrow>
     k \<in> {''items'', ''iterator'', ''workflow'', ''carry'', ''initial'', ''parallel''}"

definition put_all :: "gmap \<Rightarrow> gmap \<Rightarrow> gmap" where
  "put_all kvs m = fold (\<lambda>(k, v). AList.update k v) kvs m"

definition inherited :: "string \<Rightarrow> gmap \<Rightarrow> gmap" where
  "inherited iterator inp = filter (\<lambda>(k, v). k \<noteq> iterator \<and> \<not> isFanoutInternalInputKey k) inp"

definition buildMapSubWorkflowInput :: "node_exec \<Rightarrow> string \<Rightarrow> gval \<Rightarrow> int \<Rightarrow> string \<Rightarrow> gmap" where
  "buildMapSubWorkflowInput x iterator item index itemHash =
     put_all (inherited iterator (nx_Input x))
       (put_all [(iterator, item), (''index'', VInt index), (''__map_item_hash'', VStr itemHash)] [])"

definition buildLoopSubWorkflowInput ::
  "node_exec \<Rightarrow> gmap \<Rightarrow> string \<Rightarrow> gval \<Rightarrow> int \<Rightarrow> string \<Rightarrow> gmap" where
  "buildLoopSubWorkflowInput x cp iterator item currentIndex attemptToken =
     put_all (case map_of cp ''carry_state'' of Some (VMap carry) \<Rightarrow> carry | _ \<Rightarrow> [])
       (put_all (inherited iterator (nx_Input x))
         (put_all [(iterator, item), (''index'', VInt currentIndex),
                   (''__loop_attempt_token'', VStr attemptToken)] []))"

subsection \<open>The children of a node\<close>

text \<open>
  The rows come ordered by \<^verbatim>\<open>map_index\<close>; rows without one are first, as SQLite has it.
\<close>

definition ListByParentNode :: "env \<Rightarrow> name \<Rightarrow> run_ctx \<Rightarrow> task list" where
  "ListByParentNode e n c = sort_key MapIndex
     (filter (\<lambda>t. ParentID t = Some (task_id (Task c)) \<and> ParentNode t = Some n)
       (List.map_filter (subTasks c) (range_sub e (subTasks c))))"

definition getSubTaskIndex :: "task \<Rightarrow> int option" where
  "getSubTaskIndex t =
     (case MapIndex t of
        Some i \<Rightarrow> Some i
      | None \<Rightarrow> (case InputJSON t of
          None \<Rightarrow> None
        | Some inp \<Rightarrow> (case map_of inp ''index'' of
            Some (VInt i) \<Rightarrow> Some i
          | Some (VFloat q) \<Rightarrow> Some (trunc q)
          | _ \<Rightarrow> None)))"

subsection \<open>Progress events\<close>

definition EmitFanoutProgress ::
  "node_exec \<Rightarrow> string \<Rightarrow> int \<Rightarrow> int \<Rightarrow> int \<Rightarrow> int \<Rightarrow> int \<Rightarrow> int \<Rightarrow> run_ctx \<Rightarrow> run_ctx" where
  "EmitFanoutProgress x kind tot done running failed reused current c =
     (let n = nx_name x;
          label = (if n_Label (nx_NodeDef x) = [] then n else n_Label (nx_NodeDef x));
          p = (if 0 < tot then of_int done / of_int tot else 0) :: rat
      in publish \<lparr>ev_TaskID = task_id (Task c), ev_RootTaskID = RootID (Task c), ev_Step = n,
           ev_Type = ''fanout_progress'',
           ev_Meta = [(''event_type'', VStr ''fanout_progress''), (''fanout_kind'', VStr kind),
             (''parent_node'', VStr n), (''parent_label'', VStr label), (''total'', VInt tot),
             (''done'', VInt done), (''running'', VInt running), (''failed'', VInt failed),
             (''reused'', VInt reused), (''current_index'', VInt current), (''progress'', VFloat p)]\<rparr> c)"

subsection \<open>Item results\<close>

definition sub_map :: "gmap \<Rightarrow> string \<Rightarrow> gmap" where
  "sub_map cp k = (case map_of cp k of Some (VMap m) \<Rightarrow> m | _ \<Rightarrow> [])"

definition WriteMapItemResult :: "int \<Rightarrow> string \<Rightarrow> gmap \<Rightarrow> bool \<Rightarrow> node_runtime \<Rightarrow> node_runtime" where
  "WriteMapItemResult index itemHash result reused rt =
     (let cp = (case Checkpoint rt of None \<Rightarrow> [] | Some cp \<Rightarrow> cp);
          key = FormatInt index;
          existed = has_key (sub_map cp ''results'') key;
          cp1 = AList.update ''reused_items'' (VMap (AList.update key (VBool reused) (sub_map cp ''reused_items'')))
                 (AList.update ''item_hashes'' (VMap (AList.update key (VStr itemHash) (sub_map cp ''item_hashes'')))
                   (AList.update ''results'' (VMap (AList.update key (VMap result) (sub_map cp ''results''))) cp))
      in rt\<lparr>Checkpoint := Some (if existed then cp1
              else AList.update ''done'' (VInt (ToInt64 (cfg cp1 ''done'') + 1)) cp1)\<rparr>)"

subsection \<open>Facts about keys and writes\<close>

lemma FormatInt_inj [simp]: "FormatInt i = FormatInt j \<longleftrightarrow> i = j"
proof
  have dash: "nat_digits a b \<noteq> CHR ''-'' # s" for a b s
    using nat_digits_digits [of "CHR ''-''" a b] by (auto simp: digit_val_def Let_def)
  have digits: "nat_digits a a = nat_digits b b \<Longrightarrow> a = b" for a b
    by (metis nat_digits_parse of_nat_eq_iff option.inject order_refl)
  assume eq: "FormatInt i = FormatInt j"
  show "i = j"
  proof (cases "i < 0"; cases "j < 0")
    assume "i < 0" "j < 0"
    with eq digits [of "nat (- i)" "nat (- j)"] show ?thesis by (simp add: FormatInt_def)
  next
    assume "\<not> i < 0" "\<not> j < 0"
    with eq digits [of "nat i" "nat j"] show ?thesis by (simp add: FormatInt_def)
  next
    assume "i < 0" "\<not> j < 0"
    with eq have "nat_digits (nat j) (nat j) = CHR ''-'' # nat_digits (nat (- i)) (nat (- i))"
      by (simp add: FormatInt_def)
    with dash show ?thesis by blast
  next
    assume "\<not> i < 0" "j < 0"
    with eq have "nat_digits (nat i) (nat i) = CHR ''-'' # nat_digits (nat (- j)) (nat (- j))"
      by (simp add: FormatInt_def)
    with dash show ?thesis by blast
  qed
qed simp

lemma cfg_update [simp]: "cfg (AList.update k v m) k' = (if k' = k then v else cfg m k')"
  by (simp add: cfg_def map_of_update)

lemma sub_map_update [simp]:
  "sub_map (AList.update k v m) k' = (if k' = k then (case v of VMap w \<Rightarrow> w | _ \<Rightarrow> []) else sub_map m k')"
  by (simp add: sub_map_def map_of_update split: gval.split)

lemma has_key_update [simp]: "has_key (AList.update k v m) k' \<longleftrightarrow> k' = k \<or> has_key m k'"
  by (simp add: has_key_def map_of_update)

lemma has_key_keys: "has_key m k \<longleftrightarrow> k \<in> fst ` set m"
  by (simp add: has_key_def map_of_eq_None_iff)

lemma persist_frame:
  "Runtime (snd (persist e n rt c)) = (Runtime c)(n \<mapsto> rt)"
  "Task (snd (persist e n rt c)) = Task c" "subTasks (snd (persist e n rt c)) = subTasks c"
  by (auto simp: persist_def nodeRepo_Update_def set_runtime_def split: option.splits)

lemma persist_ok: "db_err e = (\<lambda>_. None) \<Longrightarrow> fst (persist e n rt c) = None"
  by (simp add: persist_def nodeRepo_Update_def)

lemma resolveItems_frame:
  assumes "Input c' = Input c" and "OutNodes c' = OutNodes c"
  shows "resolveItems e c' ex = resolveItems e c ex"
proof -
  have "descend_output e c' = descend_output e c" using assms(2) by (simp add: descend_output_def fun_eq_iff)
  with assms have "resolveSingleValue e c' path = resolveSingleValue e c path" for path
    by (simp only: resolveSingleValue_def)
  then have "first_value e c' ps msg = first_value e c ps msg" for ps msg
    by (induction ps arbitrary: msg) (simp_all split: sum.split)
  then show ?thesis by (simp add: resolveItems_def resolveValue_def)
qed

subsection \<open>Stores that keep the first value\<close>

text \<open>
  The contract of a store that a fan-in fills: a write at an admissible key is read back, other
  keys keep their value, and the store stays well-formed. Filling it with a list of
  candidates, each only where nothing is stored yet, keeps what was there and otherwise
  stores the first candidate for a key.
\<close>

locale first_wins_store =
  fixes ok :: "'s \<Rightarrow> bool" and admissible :: "'k \<Rightarrow> bool"
    and get :: "'s \<Rightarrow> 'k \<Rightarrow> 'w option" and put :: "'k \<Rightarrow> 'v \<Rightarrow> 's \<Rightarrow> 's" and view :: "'v \<Rightarrow> 'w"
  assumes get_put: "ok s \<Longrightarrow> admissible k \<Longrightarrow> get (put k v s) = (get s)(k \<mapsto> view v)"
    and ok_put: "ok s \<Longrightarrow> admissible k \<Longrightarrow> ok (put k v s)"
begin

fun fill :: "('k \<times> 'v) list \<Rightarrow> 's \<Rightarrow> 's" where
  "fill [] s = s"
| "fill ((k, v) # kvs) s = fill kvs (if get s k = None then put k v s else s)"

lemma fill_correct:
  assumes "ok s" and "\<forall>(k, v)\<in>set kvs. admissible k"
  shows "ok (fill kvs s)
    \<and> get (fill kvs s) k = (case get s k of Some w \<Rightarrow> Some w | None \<Rightarrow> map_option view (map_of kvs k))"
  using assms
proof (induction kvs arbitrary: s)
  case Nil
  then show ?case by (simp split: option.split)
next
  case (Cons kv kvs)
  obtain k' v where kv: "kv = (k', v)" by force
  with Cons.prems have k': "admissible k'" by simp
  let ?s = "if get s k' = None then put k' v s else s"
  have "ok ?s" using Cons.prems(1) k' by (simp add: ok_put)
  from Cons.IH [OF this] Cons.prems(2)
  have IH: "ok (fill kvs ?s)" "get (fill kvs ?s) k = (case get ?s k of Some w \<Rightarrow> Some w | None \<Rightarrow> map_option view (map_of kvs k))"
    by auto
  have "get ?s k = (case get s k of Some w \<Rightarrow> Some w | None \<Rightarrow> if k = k' then Some (view v) else None)"
    using get_put [OF Cons.prems(1) k', of v] by (auto split: option.split)
  with IH kv show ?case by (auto split: option.splits)
qed

lemmas fill_ok = fill_correct [THEN conjunct1]
lemmas fill_get = fill_correct [THEN conjunct2]

end

subsection \<open>The results of the items as such a store\<close>

text \<open>
  A checkpoint of a map node is well-formed for a number of items when it counts exactly the
  results it has, each result is an object stored under the index of an item, and the hashes
  and reuse marks have the same keys.
\<close>

definition map_cp_ok :: "nat \<Rightarrow> gmap \<Rightarrow> bool" where
  "map_cp_ok tot cp \<longleftrightarrow>
     ToInt64 (cfg cp ''total'') = int tot
     \<and> map_of cp ''results'' = Some (VMap (sub_map cp ''results''))
     \<and> distinct (map fst (sub_map cp ''results''))
     \<and> fst ` set (sub_map cp ''results'') \<subseteq> FormatInt ` {0..<int tot}
     \<and> (\<forall>v\<in>snd ` set (sub_map cp ''results''). \<exists>m. v = VMap m)
     \<and> fst ` set (sub_map cp ''item_hashes'') = fst ` set (sub_map cp ''results'')
     \<and> fst ` set (sub_map cp ''reused_items'') = fst ` set (sub_map cp ''results'')
     \<and> ToInt64 (cfg cp ''done'') = int (length (sub_map cp ''results''))"

definition the_cp :: "node_runtime \<Rightarrow> gmap" where
  "the_cp rt = (case Checkpoint rt of None \<Rightarrow> [] | Some cp \<Rightarrow> cp)"

definition map_rt_ok :: "nat \<Rightarrow> node_runtime \<Rightarrow> bool" where
  "map_rt_ok tot rt \<longleftrightarrow> Checkpoint rt \<noteq> None \<and> map_cp_ok tot (the_cp rt)"

definition item_of :: "node_runtime \<Rightarrow> int \<Rightarrow> gval option" where
  "item_of rt i = map_of (sub_map (the_cp rt) ''results'') (FormatInt i)"

definition write_item :: "int \<Rightarrow> string \<times> gmap \<times> bool \<Rightarrow> node_runtime \<Rightarrow> node_runtime" where
  "write_item i v rt = (case v of (h, r, b) \<Rightarrow> WriteMapItemResult i h r b rt)"

definition item_view :: "string \<times> gmap \<times> bool \<Rightarrow> gval" where
  "item_view v = VMap (fst (snd v))"

lemma set_update_subset: "set (AList.update k v m) \<subseteq> insert (k, v) (set m)"
  by (induction m) auto

lemma length_update: "distinct (map fst m) \<Longrightarrow>
  length (AList.update k v m) = (if k \<in> fst ` set m then length m else Suc (length m))"
  by (induction m) auto

lemma WriteMapItemResult_parts:
  assumes "rt' = WriteMapItemResult i h r b rt"
  shows "Checkpoint rt' = Some (the_cp rt')"
    and "sub_map (the_cp rt') ''results'' = AList.update (FormatInt i) (VMap r) (sub_map (the_cp rt) ''results'')"
    and "map_of (the_cp rt') ''results'' = Some (VMap (sub_map (the_cp rt') ''results''))"
    and "sub_map (the_cp rt') ''item_hashes'' = AList.update (FormatInt i) (VStr h) (sub_map (the_cp rt) ''item_hashes'')"
    and "sub_map (the_cp rt') ''reused_items'' = AList.update (FormatInt i) (VBool b) (sub_map (the_cp rt) ''reused_items'')"
    and "cfg (the_cp rt') ''total'' = cfg (the_cp rt) ''total''"
    and "ToInt64 (cfg (the_cp rt') ''done'') = ToInt64 (cfg (the_cp rt) ''done'')
           + (if has_key (sub_map (the_cp rt) ''results'') (FormatInt i) then 0 else 1)"
  by (simp_all add: assms WriteMapItemResult_def the_cp_def Let_def map_of_update ToInt64_def)

interpretation items: first_wins_store "map_rt_ok tot" "\<lambda>i. 0 \<le> i \<and> i < int tot" item_of write_item item_view for tot
proof (unfold_locales)
  fix rt k and v :: "string \<times> gmap \<times> bool"
  assume ok: "map_rt_ok tot rt" and k: "0 \<le> k \<and> k < int tot"
  obtain h r b where v: "v = (h, r, b)" by (metis prod_cases3)
  note parts = WriteMapItemResult_parts [OF refl, of k h r b rt]
  show "item_of (write_item k v rt) = (item_of rt)(k \<mapsto> item_view v)"
    by (auto simp: v item_of_def write_item_def item_view_def parts(2) map_of_update)
  let ?R = "sub_map (the_cp rt) ''results''"
  have "fst ` set (AList.update (FormatInt k) (VMap r) ?R) \<subseteq> FormatInt ` {0..<int tot}"
    using ok k by (auto simp: map_rt_ok_def map_cp_ok_def dom_update)
  moreover have "\<forall>w\<in>snd ` set (AList.update (FormatInt k) (VMap r) ?R). \<exists>m. w = VMap m"
  proof
    fix w
    assume "w \<in> snd ` set (AList.update (FormatInt k) (VMap r) ?R)"
    with set_update_subset [of "FormatInt k" "VMap r" ?R] have "w = VMap r \<or> w \<in> snd ` set ?R" by auto
    moreover have "\<forall>v\<in>snd ` set ?R. \<exists>m. v = VMap m" using ok by (simp add: map_rt_ok_def map_cp_ok_def)
    ultimately show "\<exists>m. w = VMap m" by blast
  qed
  ultimately show "map_rt_ok tot (write_item k v rt)"
    using ok parts
    by (simp add: v write_item_def map_rt_ok_def map_cp_ok_def distinct_update dom_update length_update has_key_keys)
qed

lemma keys_fit:
  assumes "map_rt_ok tot rt"
  shows "ToInt64 (cfg (the_cp rt) ''done'') \<le> int tot"
    and "int tot \<le> ToInt64 (cfg (the_cp rt) ''done'') \<longleftrightarrow> (\<forall>i<tot. item_of rt (int i) \<noteq> None)"
proof -
  let ?R = "sub_map (the_cp rt) ''results''" and ?K = "FormatInt ` {0..<int tot}"
  have ok: "distinct (map fst ?R)" "fst ` set ?R \<subseteq> ?K" "ToInt64 (cfg (the_cp rt) ''done'') = int (length ?R)"
    using assms by (auto simp: map_rt_ok_def map_cp_ok_def)
  have K: "card ?K = tot" by (simp add: card_image inj_on_def)
  have L: "card (fst ` set ?R) = length ?R" using ok(1) distinct_card [of "map fst ?R"] by simp
  have le: "length ?R \<le> tot" using card_mono [OF _ ok(2)] K L by simp
  then show "ToInt64 (cfg (the_cp rt) ''done'') \<le> int tot" using ok(3) by simp
  have "int tot \<le> ToInt64 (cfg (the_cp rt) ''done'') \<longleftrightarrow> fst ` set ?R = ?K"
    using card_subset_eq [OF _ ok(2)] K L le ok(3) by auto
  also have "\<dots> \<longleftrightarrow> (\<forall>i\<in>{0..<int tot}. FormatInt i \<in> fst ` set ?R)" using ok(2) by auto
  also have "\<dots> \<longleftrightarrow> (\<forall>i\<in>{0..<int tot}. item_of rt i \<noteq> None)"
    by (simp add: item_of_def map_of_eq_None_iff)
  also have "\<dots> \<longleftrightarrow> (\<forall>i<tot. item_of rt (int i) \<noteq> None)"
    by (metis atLeastLessThan_iff nat_less_iff int_nat_eq of_nat_0_le_iff of_nat_less_iff zle_int)
  finally show "int tot \<le> ToInt64 (cfg (the_cp rt) ''done'') \<longleftrightarrow> (\<forall>i<tot. item_of rt (int i) \<noteq> None)" .
qed

end
