(* ===== verification/Flux_Store.thy ===== *)
theory Flux_Store
  imports Flux_Fanout
begin

text \<open>
  The database as the services outside a run see it: the tables of tasks, node runtimes and
  await bindings with their keys (\<^verbatim>\<open>domain/entity\<close>), the queue of tasks, and the repository
  operations of \<^verbatim>\<open>repository/query\<close> that address more than one task.
\<close>

subsection \<open>Sequencing of operations that may fail\<close>

definition then_do :: "go_error option \<times> 's \<Rightarrow> ('s \<Rightarrow> go_error option \<times> 's) \<Rightarrow> go_error option \<times> 's" where
  "then_do r f = (case r of (Some m, s) \<Rightarrow> (Some m, s) | (None, s) \<Rightarrow> f s)"

text \<open>A \<^verbatim>\<open>for\<close> loop that returns at the first error; the second form has a body with fuel.\<close>

fun each :: "('a \<Rightarrow> 's \<Rightarrow> go_error option \<times> 's) \<Rightarrow> 'a list \<Rightarrow> 's \<Rightarrow> go_error option \<times> 's" where
  "each f [] s = (None, s)"
| "each f (x # xs) s = then_do (f x s) (each f xs)"

definition then_opt :: "(go_error option \<times> 's) option \<Rightarrow> ('s \<Rightarrow> (go_error option \<times> 's) option)
    \<Rightarrow> (go_error option \<times> 's) option" where
  "then_opt r f = (case r of None \<Rightarrow> None | Some (Some m, s) \<Rightarrow> Some (Some m, s) | Some (None, s) \<Rightarrow> f s)"

fun each_opt :: "('a \<Rightarrow> 's \<Rightarrow> (go_error option \<times> 's) option) \<Rightarrow> 'a list \<Rightarrow> 's \<Rightarrow> (go_error option \<times> 's) option" where
  "each_opt f [] s = Some (None, s)"
| "each_opt f (x # xs) s = then_opt (f x s) (each_opt f xs)"

lemma then_do_None [simp]: "then_do r f = (None, s') \<longleftrightarrow> (\<exists>s. r = (None, s) \<and> f s = (None, s'))"
  by (auto simp: then_do_def split: prod.splits option.splits)

lemma then_do_Some: "then_do r f = (Some m, s') \<longleftrightarrow> r = (Some m, s') \<or> (\<exists>s. r = (None, s) \<and> f s = (Some m, s'))"
  by (auto simp: then_do_def split: prod.splits option.splits)

lemma then_opt_None [simp]: "then_opt r f = Some (None, s') \<longleftrightarrow> (\<exists>s. r = Some (None, s) \<and> f s = Some (None, s'))"
  by (auto simp: then_opt_def split: prod.splits option.splits)

lemma then_opt_Some: "then_opt r f = Some (Some m, s') \<longleftrightarrow>
    r = Some (Some m, s') \<or> (\<exists>s. r = Some (None, s) \<and> f s = Some (Some m, s'))"
  by (auto simp: then_opt_def split: prod.splits option.splits)

lemma then_opt_fuel: "then_opt r f = None \<longleftrightarrow> r = None \<or> (\<exists>s. r = Some (None, s) \<and> f s = None)"
  by (auto simp: then_opt_def split: prod.splits option.splits)

text \<open>A loop whose body has a known effect on an abstraction of the state folds that effect.\<close>

lemma each_fold:
  assumes "each f xs s = (None, s')"
    and "\<And>x s s'. x \<in> set xs \<Longrightarrow> f x s = (None, s') \<Longrightarrow> g s' = h x (g s)"
  shows "g s' = fold h xs (g s)"
  using assms
proof (induction xs arbitrary: s)
  case (Cons x xs)
  from Cons.prems(1) obtain s1 where s1: "f x s = (None, s1)" "each f xs s1 = (None, s')" by auto
  have "g s' = fold h xs (g s1)" by (rule Cons.IH [OF s1(2)]) (rule Cons.prems(2), simp_all)
  also have "g s1 = h x (g s)" by (rule Cons.prems(2) [OF _ s1(1)]) simp
  finally show ?case by simp
qed simp

lemma each_ok:
  assumes "\<And>x s. x \<in> set xs \<Longrightarrow> \<exists>s'. f x s = (None, s')"
  shows "\<exists>s'. each f xs s = (None, s')"
  using assms
proof (induction xs arbitrary: s)
  case (Cons x xs)
  obtain s1 where "f x s = (None, s1)" using Cons.prems by (meson list.set_intros(1))
  with Cons show ?case by (auto simp: then_do_def)
qed simp

lemma each_keeps:
  assumes "\<And>x s r s'. x \<in> set xs \<Longrightarrow> f x s = (r, s') \<Longrightarrow> P s \<Longrightarrow> P s'" and "P s" and "each f xs s = (r, s')"
  shows "P s'"
  using assms
proof (induction xs arbitrary: s)
  case (Cons x xs)
  obtain r1 s1 where 1: "f x s = (r1, s1)" by force
  have P1: "P s1" by (rule Cons.prems(1) [OF _ 1 Cons.prems(2)]) simp
  show ?case
  proof (cases r1)
    case None
    with 1 Cons.prems(3) have "each f xs s1 = (r, s')" by (simp add: then_do_def)
    from Cons.IH [OF _ P1 this] show ?thesis using Cons.prems(1) by (meson list.set_intros(2))
  next
    case (Some m)
    with 1 P1 Cons.prems(3) show ?thesis by (simp add: then_do_def)
  qed
qed simp

subsection \<open>Tables\<close>

record task_row = task +
  SubKey :: "string option"
  EstimatedCostTotal :: rat
  ActualCostTotal :: rat
  CostStatus :: string

record node_row = node_runtime +
  node_id :: int
  node_TaskID :: int
  LastHeartbeat :: "int option"

record stored_binding = await_binding +
  ab_ID :: int

record store =
  st_tasks :: "task_row list"
  st_nodes :: "node_row list"
  st_binds :: "stored_binding list"
  st_queue :: "int list"
  st_events :: "event list"
  st_writes :: nat

text \<open>
  An SQL update addresses rows by a key and writes some of their columns: \<open>put n r\<close> is the row
  \<open>r\<close> after the columns of \<open>n\<close> were written into it.
\<close>

definition table_update :: "('r \<Rightarrow> 'k) \<Rightarrow> ('r \<Rightarrow> 'r \<Rightarrow> 'r) \<Rightarrow> 'r \<Rightarrow> 'r list \<Rightarrow> 'r list" where
  "table_update key put n rs = map (\<lambda>r. if key r = key n then put n r else r) rs"

definition db_write :: "env \<Rightarrow> (store \<Rightarrow> store) \<Rightarrow> store \<Rightarrow> go_error option \<times> store" where
  "db_write e f st =
     (case db_err e (st_writes st) of
        Some m \<Rightarrow> (Some m, st\<lparr>st_writes := Suc (st_writes st)\<rparr>)
      | None \<Rightarrow> (None, f (st\<lparr>st_writes := Suc (st_writes st)\<rparr>)))"

text \<open>The columns an update of a task does not write: the worker that holds it.\<close>

definition task_put :: "task_row \<Rightarrow> task_row \<Rightarrow> task_row" where
  "task_put t r = t\<lparr>WorkerID := WorkerID r\<rparr>"

definition node_put :: "node_row \<Rightarrow> node_row \<Rightarrow> node_row" where
  "node_put n r = n\<lparr>ResolvedInput := None, Progress := 0, ExecutionReason := [], PlanAction := [], node_id := node_id r\<rparr>"

definition node_key :: "node_row \<Rightarrow> int \<times> name" where
  "node_key n = (node_TaskID n, Name n)"

definition bind_put :: "stored_binding \<Rightarrow> stored_binding \<Rightarrow> stored_binding" where
  "bind_put b r = b
     \<lparr>ab_LastEventPayload := (if ab_LastEventPayload b = Some [] then None else ab_LastEventPayload b),
      ab_ResultPayload := (if ab_ResultPayload b = Some [] then None else ab_ResultPayload b)\<rparr>"

subsection \<open>Repository operations\<close>

definition task_Update :: "env \<Rightarrow> task_row \<Rightarrow> store \<Rightarrow> go_error option \<times> store" where
  "task_Update e t = db_write e (\<lambda>st. st\<lparr>st_tasks := table_update task_id task_put t (st_tasks st)\<rparr>)"

definition node_Update :: "env \<Rightarrow> node_row \<Rightarrow> store \<Rightarrow> go_error option \<times> store" where
  "node_Update e n = db_write e (\<lambda>st. st\<lparr>st_nodes := table_update node_key node_put n (st_nodes st)\<rparr>)"

definition bind_Update :: "env \<Rightarrow> stored_binding \<Rightarrow> store \<Rightarrow> go_error option \<times> store" where
  "bind_Update e b = db_write e (\<lambda>st. st\<lparr>st_binds := table_update ab_ID bind_put b (st_binds st)\<rparr>)"

definition task_Enqueue :: "env \<Rightarrow> int \<Rightarrow> store \<Rightarrow> go_error option \<times> store" where
  "task_Enqueue e i = db_write e (\<lambda>st. st\<lparr>st_queue := st_queue st @ [i]\<rparr>)"

text \<open>
  What a query reads of a row: \<^verbatim>\<open>GetByID\<close> does not fill the error message and the worker,
  \<^verbatim>\<open>ListChildrenByParentID\<close> fills the message but not the cost columns.
\<close>

definition record_not_found :: go_error where "record_not_found = ''record not found''"

definition loaded :: "task_row \<Rightarrow> task_row" where
  "loaded r = r\<lparr>ErrorMessage := [], WorkerID := []\<rparr>"

definition listed :: "task_row \<Rightarrow> task_row" where
  "listed r = r\<lparr>WorkerID := [], EstimatedCostTotal := 0, ActualCostTotal := 0, CostStatus := []\<rparr>"

definition GetByID :: "int \<Rightarrow> store \<Rightarrow> go_error + task_row" where
  "GetByID i st = (case List.find (\<lambda>t. task_id t = i) (st_tasks st) of
      None \<Rightarrow> Inl record_not_found | Some r \<Rightarrow> Inr (loaded r))"

definition ListChildrenByParentID :: "int \<Rightarrow> store \<Rightarrow> task_row list" where
  "ListChildrenByParentID i st = map listed (sort_key task_id (filter (\<lambda>t. ParentID t = Some i) (st_tasks st)))"

definition node_FindByTaskID :: "int \<Rightarrow> store \<Rightarrow> node_row list" where
  "node_FindByTaskID i st = sort_key Index (sort_key node_id (filter (\<lambda>n. node_TaskID n = i) (st_nodes st)))"

definition bind_ListByTaskID :: "int \<Rightarrow> store \<Rightarrow> stored_binding list" where
  "bind_ListByTaskID i st = filter (\<lambda>b. ab_TaskID b = i) (st_binds st)"

subsection \<open>The contract of a keyed table\<close>

text \<open>
  Writing a row keeps its key. A table with distinct keys then keeps them, an update changes
  at most the row with its key, and a loop that updates some of the rows it has read maps
  its change over exactly those rows.
\<close>

locale keyed_table =
  fixes key :: "'r \<Rightarrow> 'k" and put :: "'r \<Rightarrow> 'r \<Rightarrow> 'r"
  assumes key_put: "key n = key r \<Longrightarrow> key (put n r) = key r"
begin

lemma update_keys [simp]: "map key (table_update key put n rs) = map key rs"
  by (simp add: table_update_def key_put)

lemma update_one:
  assumes "distinct (map key rs)" and "r0 \<in> set rs" and "key n = key r0"
  shows "table_update key put n rs = map (\<lambda>r. if r = r0 then put n r else r) rs"
  unfolding table_update_def using assms by (auto simp: distinct_map inj_on_def)

lemma sweep:
  assumes "distinct (map key rs)" and "distinct ls" and "set ls \<subseteq> set rs" and "\<And>r. key (f r) = key r"
  shows "fold (\<lambda>r. if P r then table_update key put (f r) else id) ls rs
    = map (\<lambda>r. if r \<in> set ls \<and> P r then put (f r) r else r) rs"
  using assms(2,3)
proof (induction ls rule: rev_induct)
  case Nil
  show ?case by simp
next
  case (snoc x ls)
  let ?rs = "map (\<lambda>r. if r \<in> set ls \<and> P r then put (f r) r else r) rs"
  have keys: "key (if r \<in> set ls \<and> P r then put (f r) r else r) = key r" for r by (simp add: key_put assms(4))
  have inj: "inj_on key (set rs)" using assms(1) by (simp add: distinct_map)
  have "table_update key put (f x) ?rs = map (\<lambda>r. if r = x then put (f x) r else if r \<in> set ls \<and> P r then put (f r) r else r) rs"
    unfolding table_update_def map_map
  proof (intro map_cong refl)
    fix r assume r: "r \<in> set rs"
    have "x \<in> set rs" "x \<notin> set ls" using snoc.prems by auto
    then have "key r = key x \<longleftrightarrow> r = x" using inj r by (auto simp: inj_on_def)
    then show "((\<lambda>r. if key r = key (f x) then put (f x) r else r) \<circ> (\<lambda>r. if r \<in> set ls \<and> P r then put (f r) r else r)) r
      = (if r = x then put (f x) r else if r \<in> set ls \<and> P r then put (f r) r else r)"
      using keys [of r] assms(4) [of x] \<open>x \<notin> set ls\<close> by auto
  qed
  then show ?case using snoc by (auto intro!: map_cong)
qed

end

interpretation task_table: keyed_table task_id task_put
  by unfold_locales (simp add: task_put_def)

interpretation node_table: keyed_table node_key node_put
  by unfold_locales (simp add: node_put_def node_key_def)

interpretation bind_table: keyed_table ab_ID bind_put
  by unfold_locales (simp add: bind_put_def)

text \<open>The primary keys and the unique index of the schema.\<close>

definition keys_ok :: "store \<Rightarrow> bool" where
  "keys_ok st \<longleftrightarrow> distinct (map task_id (st_tasks st)) \<and> distinct (map node_key (st_nodes st))
     \<and> distinct (map ab_ID (st_binds st))"

definition task_ids :: "store \<Rightarrow> int set" where
  "task_ids st = task_id ` set (st_tasks st)"

text \<open>The store without the counter of its writes, to compare contents.\<close>

definition contents :: "store \<Rightarrow> store" where
  "contents st = st\<lparr>st_writes := 0\<rparr>"

lemma db_write_ok: "db_write e f st = (None, st') \<Longrightarrow> st' = f (st\<lparr>st_writes := Suc (st_writes st)\<rparr>)"
  by (auto simp: db_write_def split: option.splits)

lemma db_write_total: "\<forall>k. db_err e k = None \<Longrightarrow> db_write e f st = (None, f (st\<lparr>st_writes := Suc (st_writes st)\<rparr>))"
  by (simp add: db_write_def)

lemma contents_eqs [simp]:
  "contents (st\<lparr>st_writes := k\<rparr>) = contents st"
  "st_tasks (contents st) = st_tasks st" "st_nodes (contents st) = st_nodes st" "st_binds (contents st) = st_binds st"
  "st_queue (contents st) = st_queue st" "st_events (contents st) = st_events st"
  by (simp_all add: contents_def)

lemma find_task:
  assumes "distinct (map task_id ts)" and "r \<in> set ts"
  shows "List.find (\<lambda>t. task_id t = task_id r) ts = Some r"
proof -
  obtain r' where r': "List.find (\<lambda>t. task_id t = task_id r) ts = Some r'"
    using assms(2) by (cases "List.find (\<lambda>t. task_id t = task_id r) ts") (auto simp: find_None_iff)
  then have "r' \<in> set ts" "task_id r' = task_id r" by (auto simp: find_Some_iff)
  with assms have "r' = r" by (auto simp: distinct_map inj_on_def)
  with r' show ?thesis by simp
qed

lemma GetByID_Inr: "GetByID i st = Inr t \<Longrightarrow> \<exists>r\<in>set (st_tasks st). task_id r = i \<and> t = loaded r"
  by (auto simp: GetByID_def find_Some_iff split: option.splits)

lemma GetByID_row: "keys_ok st \<Longrightarrow> r \<in> set (st_tasks st) \<Longrightarrow> GetByID (task_id r) st = Inr (loaded r)"
  by (simp add: GetByID_def keys_ok_def find_task)

subsection \<open>Sample rows\<close>

definition sample_row :: "int \<Rightarrow> int option \<Rightarrow> task_status \<Rightarrow> task_row" where
  "sample_row i p s = task.extend (sample_task\<lparr>task_id := i, ParentID := p, Status := s\<rparr>) (task_row.fields None 5 0 ''estimated'')"

definition sample_nrow :: "int \<Rightarrow> int \<Rightarrow> name \<Rightarrow> node_state \<Rightarrow> node_row" where
  "sample_nrow k i n s = node_runtime.extend (sample_rt n s) (node_row.fields k i None)"

lemma sample_row_sel [simp]:
  "task_id (sample_row i p s) = i" "ParentID (sample_row i p s) = p" "Status (sample_row i p s) = s" "EstimatedCostTotal (sample_row i p s) = 5"
  by (simp_all add: sample_row_def task.defs task_row.defs sample_task_def)

lemma sample_nrow_sel [simp]:
  "node_id (sample_nrow k i n s) = k" "node_TaskID (sample_nrow k i n s) = i" "Name (sample_nrow k i n s) = n" "State (sample_nrow k i n s) = s"
  by (simp_all add: sample_nrow_def node_runtime.defs node_row.defs sample_rt_def)

end
