(* ===== verification/Flux_Cancel.thy ===== *)
theory Flux_Cancel
  imports Flux_Store
begin

text \<open>
  \<^verbatim>\<open>engine/run_cancellation.go\<close>: when a revision supersedes a run, the task, its unfinished
  descendants, their open nodes and their open await bindings are canceled.
\<close>

subsection \<open>The service\<close>

definition CancelReasonSupersededByRevision :: string where
  "CancelReasonSupersededByRevision = ''superseded_by_revision''"

record run_cancellation_result =
  rc_TaskID :: int
  rc_Reason :: string
  AlreadyCanceled :: bool
  CanceledTaskIDs :: "int list"
  CanceledNodeIDs :: "int list"
  CanceledAwaitBindingIDs :: "int list"

fun isSupersededCancellationAllowed :: "task_status \<Rightarrow> bool" where
  "isSupersededCancellationAllowed TaskPending = True"
| "isSupersededCancellationAllowed TaskRunning = True"
| "isSupersededCancellationAllowed TaskSuspended = True"
| "isSupersededCancellationAllowed TaskCanceled = True"
| "isSupersededCancellationAllowed _ = False"

fun isRunCancellationNodeCancelable :: "node_state \<Rightarrow> bool" where
  "isRunCancellationNodeCancelable NodePending = True"
| "isRunCancellationNodeCancelable NodeReady = True"
| "isRunCancellationNodeCancelable NodeRunning = True"
| "isRunCancellationNodeCancelable NodeAwaiting = True"
| "isRunCancellationNodeCancelable NodeRetrying = True"
| "isRunCancellationNodeCancelable NodeSuccessPendingEdges = True"
| "isRunCancellationNodeCancelable NodeFailedPendingEdges = True"
| "isRunCancellationNodeCancelable _ = False"

fun isAwaitBindingTerminal :: "await_status \<Rightarrow> bool" where
  "isAwaitBindingTerminal AwaitBindingCompleted = True"
| "isAwaitBindingTerminal AwaitBindingFailed = True"
| "isAwaitBindingTerminal AwaitBindingTimedOut = True"
| "isAwaitBindingTerminal AwaitBindingCanceled = True"
| "isAwaitBindingTerminal _ = False"

text \<open>The result under construction, the visited tasks and the database.\<close>

record cancel_state =
  cs_result :: run_cancellation_result
  cs_visited :: "int set"
  cs_store :: store

definition on_store :: "(store \<Rightarrow> go_error option \<times> store) \<Rightarrow> cancel_state \<Rightarrow> go_error option \<times> cancel_state" where
  "on_store f s = (case f (cs_store s) of (x, st) \<Rightarrow> (x, s\<lparr>cs_store := st\<rparr>))"

definition cancel_node :: "string \<Rightarrow> int \<Rightarrow> node_row \<Rightarrow> node_row" where
  "cancel_node reason now n =
     n\<lparr>State := NodeCanceled, Error := reason, FinishedAt := Some now, LastHeartbeat := None, Progress := 0\<rparr>"

definition add_node :: "int \<Rightarrow> cancel_state \<Rightarrow> cancel_state" where
  "add_node i s = s\<lparr>cs_result := (cs_result s)\<lparr>CanceledNodeIDs := CanceledNodeIDs (cs_result s) @ [i]\<rparr>\<rparr>"

definition cancelTaskNodes :: "env \<Rightarrow> int \<Rightarrow> string \<Rightarrow> cancel_state \<Rightarrow> go_error option \<times> cancel_state" where
  "cancelTaskNodes e i reason s =
     (let now = clock e (st_writes (cs_store s))
      in each (\<lambda>n s. if \<not> isRunCancellationNodeCancelable (State n) then (None, s)
             else then_do (on_store (node_Update e (cancel_node reason now n)) s) (\<lambda>s. (None, add_node (node_id n) s)))
           (node_FindByTaskID i (cs_store s)) s)"

definition cancel_bind :: "string \<Rightarrow> int \<Rightarrow> stored_binding \<Rightarrow> stored_binding" where
  "cancel_bind reason now b =
     b\<lparr>ab_Status := AwaitBindingCanceled, ab_ErrorMessage := reason, ab_CanceledAt := Some now, ab_NextPollAt := None,
       ab_LastEventID := None, ab_LastEventSource := None, ab_LastEventPayload := None\<rparr>"

definition add_bind :: "int \<Rightarrow> cancel_state \<Rightarrow> cancel_state" where
  "add_bind i s = s\<lparr>cs_result := (cs_result s)\<lparr>CanceledAwaitBindingIDs := CanceledAwaitBindingIDs (cs_result s) @ [i]\<rparr>\<rparr>"

definition cancelAwaitBindings :: "env \<Rightarrow> int \<Rightarrow> string \<Rightarrow> cancel_state \<Rightarrow> go_error option \<times> cancel_state" where
  "cancelAwaitBindings e i reason s =
     (let now = clock e (st_writes (cs_store s))
      in each (\<lambda>b s. if isAwaitBindingTerminal (ab_Status b) then (None, s)
             else then_do (on_store (bind_Update e (cancel_bind reason now b)) s) (\<lambda>s. (None, add_bind (ab_ID b) s)))
           (bind_ListByTaskID i (cs_store s)) s)"

definition cancel_task :: "string \<Rightarrow> task_row \<Rightarrow> task_row" where
  "cancel_task reason t = t\<lparr>Status := TaskCanceled, ErrorMessage := reason, OutputJSON := None, task_Progress := 0\<rparr>"

definition add_task :: "int \<Rightarrow> cancel_state \<Rightarrow> cancel_state" where
  "add_task i s = s\<lparr>cs_result := (cs_result s)\<lparr>CanceledTaskIDs := CanceledTaskIDs (cs_result s) @ [i]\<rparr>\<rparr>"

text \<open>The part of \<^verbatim>\<open>cancelTaskTree\<close> behind the loop over the children.\<close>

definition cancel_one :: "env \<Rightarrow> string \<Rightarrow> task_row \<Rightarrow> cancel_state \<Rightarrow> go_error option \<times> cancel_state" where
  "cancel_one e reason t s =
     (let rest = (\<lambda>s. then_do (cancelTaskNodes e (task_id t) reason s) (cancelAwaitBindings e (task_id t) reason))
      in case Status t of
           TaskCanceled \<Rightarrow> rest s
         | TaskSuccess \<Rightarrow> (None, s)
         | TaskFailed \<Rightarrow> (None, s)
         | _ \<Rightarrow> then_do (on_store (task_Update e (cancel_task reason t)) s) (\<lambda>s. rest (add_task (task_id t) s)))"

text \<open>
  The recursion visits a new task at every level, so a fuel of one unit per task is enough
  (\<open>cancelTaskTree_fuel\<close>).
\<close>

fun cancelTaskTree :: "nat \<Rightarrow> env \<Rightarrow> string \<Rightarrow> task_row \<Rightarrow> cancel_state \<Rightarrow> (go_error option \<times> cancel_state) option" where
  "cancelTaskTree 0 e reason t s = (if task_id t \<in> cs_visited s then Some (None, s) else None)"
| "cancelTaskTree (Suc fuel) e reason t s =
     (if task_id t \<in> cs_visited s then Some (None, s)
      else then_opt (each_opt (cancelTaskTree fuel e reason) (ListChildrenByParentID (task_id t) (cs_store s))
                       (s\<lparr>cs_visited := insert (task_id t) (cs_visited s)\<rparr>))
             (\<lambda>s. Some (cancel_one e reason t s)))"

fun task_status_str :: "task_status \<Rightarrow> string" where
  "task_status_str TaskPending = ''pending''"
| "task_status_str TaskRunning = ''running''"
| "task_status_str TaskSuccess = ''success''"
| "task_status_str TaskFailed = ''failed''"
| "task_status_str TaskSuspended = ''suspended''"
| "task_status_str TaskCanceled = ''canceled''"

definition CancelForSupersededRevision :: "env \<Rightarrow> int \<Rightarrow> store \<Rightarrow> ((go_error + run_cancellation_result) \<times> store) option" where
  "CancelForSupersededRevision e i st =
     (case GetByID i st of
        Inl m \<Rightarrow> Some (Inl m, st)
      | Inr t \<Rightarrow>
         if \<not> isSupersededCancellationAllowed (Status t)
         then Some (Inl (''run cancellation: task status cannot be canceled: '' @ task_status_str (Status t)), st)
         else
          (case cancelTaskTree (length (st_tasks st)) e CancelReasonSupersededByRevision t
                  \<lparr>cs_result = \<lparr>rc_TaskID = i, rc_Reason = CancelReasonSupersededByRevision,
                     AlreadyCanceled = (Status t = TaskCanceled), CanceledTaskIDs = [], CanceledNodeIDs = [],
                     CanceledAwaitBindingIDs = []\<rparr>, cs_visited = {}, cs_store = st\<rparr> of
             None \<Rightarrow> None
           | Some (Some m, s) \<Rightarrow> Some (Inl m, cs_store s)
           | Some (None, s) \<Rightarrow> Some (Inr (cs_result s), cs_store s)))"

subsection \<open>What the loops over nodes and bindings do\<close>

definition plain :: "cancel_state \<Rightarrow> cancel_state" where
  "plain s = s\<lparr>cs_store := contents (cs_store s)\<rparr>"

lemma plain_eq_iff: "plain s' = plain s \<longleftrightarrow> cs_result s' = cs_result s \<and> cs_visited s' = cs_visited s \<and> contents (cs_store s') = contents (cs_store s)"
  by (cases s, cases s') (auto simp: plain_def)

lemma on_store_ok: "on_store f s = (None, s') \<longleftrightarrow> (\<exists>st. f (cs_store s) = (None, st) \<and> s' = s\<lparr>cs_store := st\<rparr>)"
  by (auto simp: on_store_def split: prod.splits)

lemma nodes_fold:
  "fold (\<lambda>n s. if \<not> P n then s else add_node (node_id n) (s\<lparr>cs_store := (cs_store s)\<lparr>st_nodes := U n (st_nodes (cs_store s))\<rparr>\<rparr>)) ns s
    = s\<lparr>cs_result := (cs_result s)\<lparr>CanceledNodeIDs := CanceledNodeIDs (cs_result s) @ map node_id (filter P ns)\<rparr>,
        cs_store := (cs_store s)\<lparr>st_nodes := fold (\<lambda>n. if P n then U n else id) ns (st_nodes (cs_store s))\<rparr>\<rparr>"
  by (induction ns arbitrary: s) (simp_all add: add_node_def)

lemma binds_fold:
  "fold (\<lambda>b s. if Q b then s else add_bind (ab_ID b) (s\<lparr>cs_store := (cs_store s)\<lparr>st_binds := U b (st_binds (cs_store s))\<rparr>\<rparr>)) bs s
    = s\<lparr>cs_result := (cs_result s)\<lparr>CanceledAwaitBindingIDs := CanceledAwaitBindingIDs (cs_result s) @ map ab_ID (filter (\<lambda>b. \<not> Q b) bs)\<rparr>,
        cs_store := (cs_store s)\<lparr>st_binds := fold (\<lambda>b. if \<not> Q b then U b else id) bs (st_binds (cs_store s))\<rparr>\<rparr>"
  by (induction bs arbitrary: s) (simp_all add: add_bind_def)

lemma contents_upd:
  "contents (st\<lparr>st_nodes := N\<rparr>) = (contents st)\<lparr>st_nodes := N\<rparr>"
  "contents (st\<lparr>st_binds := B\<rparr>) = (contents st)\<lparr>st_binds := B\<rparr>"
  "contents (st\<lparr>st_tasks := T\<rparr>) = (contents st)\<lparr>st_tasks := T\<rparr>"
  by (simp_all add: contents_def)

lemma listed_nodes: "distinct (map node_key (st_nodes st)) \<Longrightarrow> distinct (node_FindByTaskID i st)"
  "set (node_FindByTaskID i st) = {n \<in> set (st_nodes st). node_TaskID n = i}"
  by (auto simp: node_FindByTaskID_def distinct_map)

lemma cancelTaskNodes_effect:
  assumes "cancelTaskNodes e i reason s = (None, s')" and "keys_ok (cs_store s)"
  obtains now where "plain s' = plain (s\<lparr>cs_result := (cs_result s)\<lparr>CanceledNodeIDs := CanceledNodeIDs (cs_result s)
         @ map node_id (filter (\<lambda>n. isRunCancellationNodeCancelable (State n)) (node_FindByTaskID i (cs_store s)))\<rparr>,
       cs_store := (cs_store s)\<lparr>st_nodes := map (\<lambda>n. if node_TaskID n = i \<and> isRunCancellationNodeCancelable (State n)
         then node_put (cancel_node reason now n) n else n) (st_nodes (cs_store s))\<rparr>\<rparr>)"
proof
  let ?now = "clock e (st_writes (cs_store s))" and ?ns = "node_FindByTaskID i (cs_store s)"
  let ?U = "\<lambda>n. table_update node_key node_put (cancel_node reason ?now n)"
  have "plain s' = fold (\<lambda>n s. if \<not> isRunCancellationNodeCancelable (State n) then s else
      add_node (node_id n) (s\<lparr>cs_store := (cs_store s)\<lparr>st_nodes := ?U n (st_nodes (cs_store s))\<rparr>\<rparr>)) ?ns (plain s)"
    using assms(1) unfolding cancelTaskNodes_def Let_def
    by (rule each_fold)
      (auto simp: on_store_ok node_Update_def plain_def add_node_def contents_upd dest!: db_write_ok split: if_splits)
  also have "\<dots> = (plain s)\<lparr>cs_result := (cs_result s)\<lparr>CanceledNodeIDs := CanceledNodeIDs (cs_result s)
         @ map node_id (filter (\<lambda>n. isRunCancellationNodeCancelable (State n)) ?ns)\<rparr>,
       cs_store := (contents (cs_store s))\<lparr>st_nodes := fold (\<lambda>n. if isRunCancellationNodeCancelable (State n) then ?U n else id) ?ns (st_nodes (cs_store s))\<rparr>\<rparr>"
    using nodes_fold [where P = "\<lambda>n. isRunCancellationNodeCancelable (State n)" and U = ?U] by (simp add: plain_def)
  also have "fold (\<lambda>n. if isRunCancellationNodeCancelable (State n) then ?U n else id) ?ns (st_nodes (cs_store s))
      = map (\<lambda>n. if n \<in> set ?ns \<and> isRunCancellationNodeCancelable (State n) then node_put (cancel_node reason ?now n) n else n)
          (st_nodes (cs_store s))"
    by (rule node_table.sweep)
      (use assms(2) in \<open>auto simp: keys_ok_def cancel_node_def node_key_def listed_nodes\<close>)
  also have "\<dots> = map (\<lambda>n. if node_TaskID n = i \<and> isRunCancellationNodeCancelable (State n) then node_put (cancel_node reason ?now n) n else n)
          (st_nodes (cs_store s))"
    by (auto simp: listed_nodes(2))
  finally show "plain s' = plain (s\<lparr>cs_result := (cs_result s)\<lparr>CanceledNodeIDs := CanceledNodeIDs (cs_result s)
         @ map node_id (filter (\<lambda>n. isRunCancellationNodeCancelable (State n)) ?ns)\<rparr>,
       cs_store := (cs_store s)\<lparr>st_nodes := map (\<lambda>n. if node_TaskID n = i \<and> isRunCancellationNodeCancelable (State n)
         then node_put (cancel_node reason ?now n) n else n) (st_nodes (cs_store s))\<rparr>\<rparr>)"
    by (simp add: plain_def contents_upd)
qed

lemma listed_binds: "distinct (map ab_ID (st_binds st)) \<Longrightarrow> distinct (bind_ListByTaskID i st)"
  "set (bind_ListByTaskID i st) = {b \<in> set (st_binds st). ab_TaskID b = i}"
  by (auto simp: bind_ListByTaskID_def distinct_map)

lemma cancelAwaitBindings_effect:
  assumes "cancelAwaitBindings e i reason s = (None, s')" and "keys_ok (cs_store s)"
  obtains now where "plain s' = plain (s\<lparr>cs_result := (cs_result s)\<lparr>CanceledAwaitBindingIDs := CanceledAwaitBindingIDs (cs_result s)
         @ map ab_ID (filter (\<lambda>b. \<not> isAwaitBindingTerminal (ab_Status b)) (bind_ListByTaskID i (cs_store s)))\<rparr>,
       cs_store := (cs_store s)\<lparr>st_binds := map (\<lambda>b. if ab_TaskID b = i \<and> \<not> isAwaitBindingTerminal (ab_Status b)
         then bind_put (cancel_bind reason now b) b else b) (st_binds (cs_store s))\<rparr>\<rparr>)"
proof
  let ?now = "clock e (st_writes (cs_store s))" and ?bs = "bind_ListByTaskID i (cs_store s)"
  let ?U = "\<lambda>b. table_update ab_ID bind_put (cancel_bind reason ?now b)"
  let ?Q = "\<lambda>b. isAwaitBindingTerminal (ab_Status b)"
  have "plain s' = fold (\<lambda>b s. if ?Q b then s else
      add_bind (ab_ID b) (s\<lparr>cs_store := (cs_store s)\<lparr>st_binds := ?U b (st_binds (cs_store s))\<rparr>\<rparr>)) ?bs (plain s)"
    using assms(1) unfolding cancelAwaitBindings_def Let_def
    by (rule each_fold)
      (auto simp: on_store_ok bind_Update_def plain_def add_bind_def contents_upd dest!: db_write_ok split: if_splits)
  also have "\<dots> = (plain s)\<lparr>cs_result := (cs_result s)\<lparr>CanceledAwaitBindingIDs := CanceledAwaitBindingIDs (cs_result s)
         @ map ab_ID (filter (\<lambda>b. \<not> ?Q b) ?bs)\<rparr>,
       cs_store := (contents (cs_store s))\<lparr>st_binds := fold (\<lambda>b. if \<not> ?Q b then ?U b else id) ?bs (st_binds (cs_store s))\<rparr>\<rparr>"
    using binds_fold [where Q = ?Q and U = ?U] by (simp add: plain_def)
  also have "fold (\<lambda>b. if \<not> ?Q b then ?U b else id) ?bs (st_binds (cs_store s))
      = map (\<lambda>b. if b \<in> set ?bs \<and> \<not> ?Q b then bind_put (cancel_bind reason ?now b) b else b) (st_binds (cs_store s))"
    by (rule bind_table.sweep)
      (use assms(2) in \<open>auto simp: keys_ok_def cancel_bind_def listed_binds\<close>)
  also have "\<dots> = map (\<lambda>b. if ab_TaskID b = i \<and> \<not> ?Q b then bind_put (cancel_bind reason ?now b) b else b) (st_binds (cs_store s))"
    by (auto simp: listed_binds(2))
  finally show "plain s' = plain (s\<lparr>cs_result := (cs_result s)\<lparr>CanceledAwaitBindingIDs := CanceledAwaitBindingIDs (cs_result s)
         @ map ab_ID (filter (\<lambda>b. \<not> ?Q b) ?bs)\<rparr>,
       cs_store := (cs_store s)\<lparr>st_binds := map (\<lambda>b. if ab_TaskID b = i \<and> \<not> ?Q b
         then bind_put (cancel_bind reason ?now b) b else b) (st_binds (cs_store s))\<rparr>\<rparr>)"
    by (simp add: plain_def contents_upd)
qed

subsection \<open>The effect on a set of tasks\<close>

definition active_status :: "task_status \<Rightarrow> bool" where
  "active_status x \<longleftrightarrow> x \<in> {TaskPending, TaskRunning, TaskSuspended}"

definition wiped :: "task_row \<Rightarrow> task_row" where
  "wiped r = r\<lparr>EstimatedCostTotal := 0, ActualCostTotal := 0, CostStatus := []\<rparr>"

definition task_after :: "string \<Rightarrow> int set \<Rightarrow> int set \<Rightarrow> task_row \<Rightarrow> task_row" where
  "task_after reason W D r =
     (if task_id r \<in> D \<and> active_status (Status r)
      then cancel_task reason (if task_id r \<in> W then wiped r else r) else r)"

definition node_after :: "string \<Rightarrow> int set \<Rightarrow> node_row \<Rightarrow> node_row \<Rightarrow> bool" where
  "node_after reason T n n' \<longleftrightarrow>
     (if node_TaskID n \<in> T \<and> isRunCancellationNodeCancelable (State n)
      then \<exists>now. n' = node_put (cancel_node reason now n) n else n' = n)"

definition bind_after :: "string \<Rightarrow> int set \<Rightarrow> stored_binding \<Rightarrow> stored_binding \<Rightarrow> bool" where
  "bind_after reason T b b' \<longleftrightarrow>
     (if ab_TaskID b \<in> T \<and> \<not> isAwaitBindingTerminal (ab_Status b)
      then \<exists>now. b' = bind_put (cancel_bind reason now b) b else b' = b)"

text \<open>Tasks whose nodes and bindings are looked at: the finished and failed ones are left alone.\<close>

definition opened :: "store \<Rightarrow> int set" where
  "opened st = {task_id t | t. t \<in> set (st_tasks st) \<and> isSupersededCancellationAllowed (Status t)}"

definition active_tasks :: "int set \<Rightarrow> store \<Rightarrow> int set" where
  "active_tasks D st = {task_id t | t. t \<in> set (st_tasks st) \<and> task_id t \<in> D \<and> active_status (Status t)}"

definition open_nodes :: "int set \<Rightarrow> store \<Rightarrow> int set" where
  "open_nodes T st = {node_id n | n. n \<in> set (filter (\<lambda>n. node_TaskID n \<in> T) (st_nodes st))
     \<and> isRunCancellationNodeCancelable (State n)}"

definition open_binds :: "int set \<Rightarrow> store \<Rightarrow> int set" where
  "open_binds T st = {ab_ID b | b. b \<in> set (filter (\<lambda>b. ab_TaskID b \<in> T) (st_binds st))
     \<and> \<not> isAwaitBindingTerminal (ab_Status b)}"

definition store_cancels :: "string \<Rightarrow> int set \<Rightarrow> int set \<Rightarrow> store \<Rightarrow> store \<Rightarrow> bool" where
  "store_cancels reason W D st st' \<longleftrightarrow>
     st_tasks st' = map (task_after reason W D) (st_tasks st)
     \<and> list_all2 (node_after reason (D \<inter> opened st)) (st_nodes st) (st_nodes st')
     \<and> list_all2 (bind_after reason (D \<inter> opened st)) (st_binds st) (st_binds st')
     \<and> st_queue st' = st_queue st \<and> st_events st' = st_events st"

definition reports :: "int set \<Rightarrow> store \<Rightarrow> run_cancellation_result \<Rightarrow> run_cancellation_result \<Rightarrow> bool" where
  "reports D st res res' \<longleftrightarrow>
     set (CanceledTaskIDs res') = set (CanceledTaskIDs res) \<union> active_tasks D st
     \<and> set (CanceledNodeIDs res') = set (CanceledNodeIDs res) \<union> open_nodes (D \<inter> opened st) st
     \<and> set (CanceledAwaitBindingIDs res') = set (CanceledAwaitBindingIDs res) \<union> open_binds (D \<inter> opened st) st
     \<and> rc_TaskID res' = rc_TaskID res \<and> rc_Reason res' = rc_Reason res \<and> AlreadyCanceled res' = AlreadyCanceled res"

lemma cancel_task_id [simp]: "task_id (cancel_task reason r) = task_id r" "task_id (wiped r) = task_id r"
  by (simp_all add: cancel_task_def wiped_def)

lemma task_after_id [simp]: "task_id (task_after reason W D r) = task_id r" "ParentID (task_after reason W D r) = ParentID r"
  by (simp_all add: task_after_def cancel_task_def wiped_def)

lemma node_after_key: "node_after reason T n n' \<Longrightarrow> node_key n' = node_key n \<and> node_TaskID n' = node_TaskID n \<and> node_id n' = node_id n"
  by (auto simp: node_after_def node_put_def cancel_node_def node_key_def split: if_splits)

lemma bind_after_key: "bind_after reason T b b' \<Longrightarrow> ab_ID b' = ab_ID b \<and> ab_TaskID b' = ab_TaskID b"
  by (auto simp: bind_after_def bind_put_def cancel_bind_def split: if_splits)

lemma list_all2_filter_same:
  assumes "list_all2 P xs ys" and "\<And>x y. P x y \<Longrightarrow> F x = F y \<and> (F x \<longrightarrow> x = y)"
  shows "filter F ys = filter F xs"
  using assms by (induction rule: list_all2_induct) auto

lemma list_all2_map_same:
  assumes "list_all2 P xs ys" and "\<And>x y. P x y \<Longrightarrow> f y = f x"
  shows "map f ys = map f xs"
  using assms by (induction rule: list_all2_induct) auto

lemma store_cancels_keys:
  assumes "store_cancels reason W D st st'"
  shows "map task_id (st_tasks st') = map task_id (st_tasks st)" "map node_key (st_nodes st') = map node_key (st_nodes st)"
    "map ab_ID (st_binds st') = map ab_ID (st_binds st)" "keys_ok st' = keys_ok st" "task_ids st' = task_ids st"
proof -
  from assms have t: "st_tasks st' = map (task_after reason W D) (st_tasks st)"
    and n: "list_all2 (node_after reason (D \<inter> opened st)) (st_nodes st) (st_nodes st')"
    and b: "list_all2 (bind_after reason (D \<inter> opened st)) (st_binds st) (st_binds st')"
    by (simp_all add: store_cancels_def)
  show k: "map task_id (st_tasks st') = map task_id (st_tasks st)" "map node_key (st_nodes st') = map node_key (st_nodes st)"
    "map ab_ID (st_binds st') = map ab_ID (st_binds st)"
    by (simp add: t) (rule list_all2_map_same [OF n], simp add: node_after_key, rule list_all2_map_same [OF b], simp add: bind_after_key)
  show "keys_ok st' = keys_ok st" by (simp only: keys_ok_def k)
  show "task_ids st' = task_ids st" using k(1) unfolding task_ids_def by (metis list.set_map)
qed

lemma store_cancels_rest:
  assumes "store_cancels reason W D st st'" and "T \<inter> D = {}"
  shows "T \<inter> opened st' = T \<inter> opened st" "active_tasks T st' = active_tasks T st" "open_nodes T st' = open_nodes T st" "open_binds T st' = open_binds T st"
proof -
  have n: "filter (\<lambda>n. node_TaskID n \<in> T) (st_nodes st') = filter (\<lambda>n. node_TaskID n \<in> T) (st_nodes st)"
    by (rule list_all2_filter_same [where P = "node_after reason (D \<inter> opened st)"])
      (use assms in \<open>auto simp: store_cancels_def node_after_def node_put_def cancel_node_def split: if_splits\<close>)
  have b: "filter (\<lambda>b. ab_TaskID b \<in> T) (st_binds st') = filter (\<lambda>b. ab_TaskID b \<in> T) (st_binds st)"
    by (rule list_all2_filter_same [where P = "bind_after reason (D \<inter> opened st)"])
      (use assms in \<open>auto simp: store_cancels_def bind_after_def bind_put_def cancel_bind_def split: if_splits\<close>)
  have t: "filter (\<lambda>t. task_id t \<in> T) (st_tasks st') = filter (\<lambda>t. task_id t \<in> T) (st_tasks st)"
    by (rule list_all2_filter_same [where P = "\<lambda>r r'. r' = task_after reason W D r"])
      (use assms in \<open>auto simp: store_cancels_def list_all2_map2 list_all2_same task_after_def cancel_task_def wiped_def\<close>)
  have o: "T \<inter> opened s = {task_id t | t. t \<in> set (filter (\<lambda>t. task_id t \<in> T) (st_tasks s)) \<and> isSupersededCancellationAllowed (Status t)}"
    and a: "active_tasks T s = {task_id t | t. t \<in> set (filter (\<lambda>t. task_id t \<in> T) (st_tasks s)) \<and> active_status (Status t)}" for s
    by (auto simp: opened_def active_tasks_def)
  show "T \<inter> opened st' = T \<inter> opened st" "active_tasks T st' = active_tasks T st" by (simp_all only: o a t)
  show "open_nodes T st' = open_nodes T st" "open_binds T st' = open_binds T st" by (simp_all only: open_nodes_def open_binds_def n b)
qed

lemma store_cancels_trans:
  assumes 1: "store_cancels reason W1 D1 st st1" and 2: "store_cancels reason W2 D2 st1 st2"
    and d: "D1 \<inter> D2 = {}" "W1 \<subseteq> D1" "W2 \<subseteq> D2"
  shows "store_cancels reason (W1 \<union> W2) (D1 \<union> D2) st st2"
proof -
  let ?T1 = "D1 \<inter> opened st" and ?T2 = "D2 \<inter> opened st"
  have T2: "D2 \<inter> opened st1 = ?T2" using store_cancels_rest(1) [OF 1, of D2] d(1) by blast
  have u: "(D1 \<union> D2) \<inter> opened st = ?T1 \<union> ?T2" by blast
  have "task_after reason W2 D2 (task_after reason W1 D1 r) = task_after reason (W1 \<union> W2) (D1 \<union> D2) r" for r
  proof (cases "task_id r \<in> D1")
    case True
    with d have "task_id r \<notin> D2" "task_id r \<notin> W2" by auto
    with True show ?thesis by (simp add: task_after_def)
  next
    case False
    with d show ?thesis by (auto simp: task_after_def)
  qed
  then have t: "st_tasks st2 = map (task_after reason (W1 \<union> W2) (D1 \<union> D2)) (st_tasks st)"
    using 1 2 by (simp add: store_cancels_def)
  have n: "list_all2 (node_after reason (?T1 \<union> ?T2)) (st_nodes st) (st_nodes st2)"
  proof (rule list_all2_trans)
    show "list_all2 (node_after reason ?T1) (st_nodes st) (st_nodes st1)" using 1 by (simp add: store_cancels_def)
    show "list_all2 (node_after reason ?T2) (st_nodes st1) (st_nodes st2)" using 2 T2 by (simp add: store_cancels_def)
    show "node_after reason ?T1 a b \<Longrightarrow> node_after reason ?T2 b c \<Longrightarrow> node_after reason (?T1 \<union> ?T2) a c" for a b c
      using d(1) node_after_key [of reason ?T1 a b] by (auto simp: node_after_def split: if_splits)
  qed
  have b: "list_all2 (bind_after reason (?T1 \<union> ?T2)) (st_binds st) (st_binds st2)"
  proof (rule list_all2_trans)
    show "list_all2 (bind_after reason ?T1) (st_binds st) (st_binds st1)" using 1 by (simp add: store_cancels_def)
    show "list_all2 (bind_after reason ?T2) (st_binds st1) (st_binds st2)" using 2 T2 by (simp add: store_cancels_def)
    show "bind_after reason ?T1 a b \<Longrightarrow> bind_after reason ?T2 b c \<Longrightarrow> bind_after reason (?T1 \<union> ?T2) a c" for a b c
      using d(1) bind_after_key [of reason ?T1 a b] by (auto simp: bind_after_def split: if_splits)
  qed
  from t n b 1 2 show ?thesis unfolding store_cancels_def u by simp
qed

lemma reports_trans:
  assumes 1: "store_cancels reason W1 D1 st st1" and d: "D1 \<inter> D2 = {}"
    and r: "reports D1 st res res1" "reports D2 st1 res1 res2"
  shows "reports (D1 \<union> D2) st res res2"
proof -
  have T2: "D2 \<inter> opened st1 = D2 \<inter> opened st" using store_cancels_rest(1) [OF 1, of D2] d(1) by blast
  have "active_tasks D2 st1 = active_tasks D2 st" using store_cancels_rest(2) [OF 1, of D2] d(1) by blast
  moreover have "open_nodes (D2 \<inter> opened st) st1 = open_nodes (D2 \<inter> opened st) st"
    "open_binds (D2 \<inter> opened st) st1 = open_binds (D2 \<inter> opened st) st"
    using store_cancels_rest(3,4) [OF 1, of "D2 \<inter> opened st"] d(1) by auto
  moreover have "active_tasks (D1 \<union> D2) st = active_tasks D1 st \<union> active_tasks D2 st" by (auto simp: active_tasks_def)
  moreover have "open_nodes ((D1 \<union> D2) \<inter> opened st) st = open_nodes (D1 \<inter> opened st) st \<union> open_nodes (D2 \<inter> opened st) st"
    "open_binds ((D1 \<union> D2) \<inter> opened st) st = open_binds (D1 \<inter> opened st) st \<union> open_binds (D2 \<inter> opened st) st"
    by (auto simp: open_nodes_def open_binds_def)
  ultimately show ?thesis using r unfolding reports_def T2 by (simp add: Un_assoc)
qed

text \<open>One task: its row, its nodes and its bindings.\<close>

lemma plain_fields:
  assumes "plain s' = plain s"
  shows "cs_result s' = cs_result s" "cs_visited s' = cs_visited s" "st_tasks (cs_store s') = st_tasks (cs_store s)"
    "st_nodes (cs_store s') = st_nodes (cs_store s)" "st_binds (cs_store s') = st_binds (cs_store s)"
    "st_queue (cs_store s') = st_queue (cs_store s)" "st_events (cs_store s') = st_events (cs_store s)"
  using assms unfolding plain_eq_iff by (simp_all) (metis contents_eqs)+

lemma nodes_and_bindings_effect:
  assumes "then_do (cancelTaskNodes e i reason s) (cancelAwaitBindings e i reason) = (None, s')" and "keys_ok (cs_store s)"
  defines "st \<equiv> cs_store s" and "st' \<equiv> cs_store s'" and "res \<equiv> cs_result s" and "res' \<equiv> cs_result s'"
  shows "cs_visited s' = cs_visited s" "st_tasks st' = st_tasks st" "st_queue st' = st_queue st" "st_events st' = st_events st"
    "list_all2 (node_after reason {i}) (st_nodes st) (st_nodes st')" "list_all2 (bind_after reason {i}) (st_binds st) (st_binds st')"
    "set (CanceledNodeIDs res') = set (CanceledNodeIDs res) \<union> open_nodes {i} st"
    "set (CanceledAwaitBindingIDs res') = set (CanceledAwaitBindingIDs res) \<union> open_binds {i} st"
    "CanceledTaskIDs res' = CanceledTaskIDs res" "rc_TaskID res' = rc_TaskID res" "rc_Reason res' = rc_Reason res"
    "AlreadyCanceled res' = AlreadyCanceled res"
proof -
  from assms(1) obtain s1 where n: "cancelTaskNodes e i reason s = (None, s1)" and b: "cancelAwaitBindings e i reason s1 = (None, s')"
    by auto
  from cancelTaskNodes_effect [OF n assms(2)] obtain now where
    n': "plain s1 = plain (s\<lparr>cs_result := (cs_result s)\<lparr>CanceledNodeIDs := CanceledNodeIDs (cs_result s)
         @ map node_id (filter (\<lambda>n. isRunCancellationNodeCancelable (State n)) (node_FindByTaskID i (cs_store s)))\<rparr>,
       cs_store := (cs_store s)\<lparr>st_nodes := map (\<lambda>n. if node_TaskID n = i \<and> isRunCancellationNodeCancelable (State n)
         then node_put (cancel_node reason now n) n else n) (st_nodes (cs_store s))\<rparr>\<rparr>)" .
  note p1 = plain_fields [OF n']
  have "map node_key (st_nodes (cs_store s1)) = map node_key (st_nodes (cs_store s))"
    by (simp add: p1 node_put_def cancel_node_def node_key_def)
  then have "keys_ok (cs_store s1)" using assms(2) p1(3,5) by (simp add: keys_ok_def)
  from cancelAwaitBindings_effect [OF b this] obtain now' where
    b': "plain s' = plain (s1\<lparr>cs_result := (cs_result s1)\<lparr>CanceledAwaitBindingIDs := CanceledAwaitBindingIDs (cs_result s1)
         @ map ab_ID (filter (\<lambda>b. \<not> isAwaitBindingTerminal (ab_Status b)) (bind_ListByTaskID i (cs_store s1)))\<rparr>,
       cs_store := (cs_store s1)\<lparr>st_binds := map (\<lambda>b. if ab_TaskID b = i \<and> \<not> isAwaitBindingTerminal (ab_Status b)
         then bind_put (cancel_bind reason now' b) b else b) (st_binds (cs_store s1))\<rparr>\<rparr>)" .
  note p2 = plain_fields [OF b']
  show "cs_visited s' = cs_visited s" "st_tasks st' = st_tasks st" "st_queue st' = st_queue st" "st_events st' = st_events st"
    "CanceledTaskIDs res' = CanceledTaskIDs res" "rc_TaskID res' = rc_TaskID res" "rc_Reason res' = rc_Reason res"
    "AlreadyCanceled res' = AlreadyCanceled res"
    by (simp_all add: assms(3-6) p1 p2)
  show "list_all2 (node_after reason {i}) (st_nodes st) (st_nodes st')" "list_all2 (bind_after reason {i}) (st_binds st) (st_binds st')"
    by (auto simp: assms(3-6) p1 p2 list_all2_map2 node_after_def bind_after_def intro!: list_all2_refl)
  show "set (CanceledNodeIDs res') = set (CanceledNodeIDs res) \<union> open_nodes {i} st"
    "set (CanceledAwaitBindingIDs res') = set (CanceledAwaitBindingIDs res) \<union> open_binds {i} st"
    by (auto simp: assms(3-6) p1 p2 open_nodes_def open_binds_def node_FindByTaskID_def bind_ListByTaskID_def)
qed

lemma opened_iff: "keys_ok st \<Longrightarrow> r \<in> set (st_tasks st) \<Longrightarrow> task_id r \<in> opened st \<longleftrightarrow> isSupersededCancellationAllowed (Status r)"
  by (auto simp: opened_def keys_ok_def distinct_map inj_on_def)

lemma active_tasks_one: "keys_ok st \<Longrightarrow> r \<in> set (st_tasks st) \<Longrightarrow>
    active_tasks {task_id r} st = (if active_status (Status r) then {task_id r} else {})"
  by (auto simp: active_tasks_def keys_ok_def distinct_map inj_on_def)

definition shown :: "bool \<Rightarrow> task_row \<Rightarrow> task_row" where
  "shown w r = (if w then listed r else loaded r)"

lemma shown_simps [simp]: "task_id (shown w r) = task_id r" "Status (shown w r) = Status r"
  "task_put (cancel_task reason (shown w r)) r = cancel_task reason (if w then wiped r else r)"
  by (simp_all add: shown_def listed_def loaded_def wiped_def task_put_def cancel_task_def)

lemma cancel_one_effect:
  assumes "cancel_one e reason (shown w r) s = (None, s')" and k: "keys_ok (cs_store s)" and r: "r \<in> set (st_tasks (cs_store s))"
  shows "cs_visited s' = cs_visited s
    \<and> store_cancels reason (if w then {task_id r} else {}) {task_id r} (cs_store s) (cs_store s')
    \<and> reports {task_id r} (cs_store s) (cs_result s) (cs_result s')"
proof -
  let ?i = "task_id r" and ?st = "cs_store s" and ?W = "if w then {task_id r} else {}"
  let ?rest = "\<lambda>s. then_do (cancelTaskNodes e ?i reason s) (cancelAwaitBindings e ?i reason)"
  note op = opened_iff [OF k r] and ac = active_tasks_one [OF k r]
  consider (skip) "Status r = TaskSuccess \<or> Status r = TaskFailed" "s' = s"
    | (old) "Status r = TaskCanceled" "?rest s = (None, s')"
    | (active) s1 where "active_status (Status r)" "on_store (task_Update e (cancel_task reason (shown w r))) s = (None, s1)"
        "?rest (add_task ?i s1) = (None, s')"
    using assms(1) by (cases "Status r") (auto simp: cancel_one_def active_status_def)
  then show ?thesis
  proof cases
    case skip
    then have n: "\<not> active_status (Status r)" "{?i} \<inter> opened ?st = {}" using op by (auto simp: active_status_def)
    have "task_after reason ?W {?i} t = t" if "t \<in> set (st_tasks ?st)" for t
      using n(1) that k r by (auto simp: task_after_def keys_ok_def distinct_map inj_on_def)
    then have "map (task_after reason ?W {?i}) (st_tasks ?st) = st_tasks ?st" by (simp add: map_idI)
    with n ac skip show ?thesis
      by (auto simp: store_cancels_def reports_def node_after_def bind_after_def open_nodes_def open_binds_def intro!: list_all2_refl)
  next
    case old
    then have n: "\<not> active_status (Status r)" "{?i} \<inter> opened ?st = {?i}" using op by (auto simp: active_status_def)
    have "task_after reason ?W {?i} t = t" if "t \<in> set (st_tasks ?st)" for t
      using n(1) that k r by (auto simp: task_after_def keys_ok_def distinct_map inj_on_def)
    then have "map (task_after reason ?W {?i}) (st_tasks ?st) = st_tasks ?st" by (simp add: map_idI)
    with n ac nodes_and_bindings_effect [OF old(2) k] show ?thesis by (simp add: store_cancels_def reports_def)
  next
    case active
    then have n: "{?i} \<inter> opened ?st = {?i}" using op by (auto simp: active_status_def)
    from active(2) obtain st1 where st1: "task_Update e (cancel_task reason (shown w r)) ?st = (None, st1)"
      and s1: "s1 = s\<lparr>cs_store := st1\<rparr>" by (auto simp: on_store_ok)
    from db_write_ok [OF st1 [unfolded task_Update_def]] have eq: "st_tasks st1 = table_update task_id task_put (cancel_task reason (shown w r)) (st_tasks ?st)"
      "st_nodes st1 = st_nodes ?st" "st_binds st1 = st_binds ?st" "st_queue st1 = st_queue ?st" "st_events st1 = st_events ?st" by simp_all
    have "table_update task_id task_put (cancel_task reason (shown w r)) (st_tasks ?st) = map (task_after reason ?W {?i}) (st_tasks ?st)"
      unfolding task_table.update_one [OF k [unfolded keys_ok_def, THEN conjunct1] r, of "cancel_task reason (shown w r)", simplified]
      using k r active(1) by (intro map_cong refl) (auto simp: task_after_def keys_ok_def distinct_map inj_on_def)
    with eq have t: "st_tasks st1 = map (task_after reason ?W {?i}) (st_tasks ?st)" by simp
    have k1: "keys_ok (cs_store (add_task ?i s1))" using k by (simp add: keys_ok_def add_task_def s1 eq t o_def)
    have "open_nodes {?i} st1 = open_nodes {?i} ?st" "open_binds {?i} st1 = open_binds {?i} ?st"
      by (simp_all add: open_nodes_def open_binds_def eq)
    with n ac active(1) t eq nodes_and_bindings_effect [OF active(3) k1] show ?thesis
      by (simp add: store_cancels_def reports_def add_task_def s1)
  qed
qed

subsection \<open>The tree\<close>

definition kid_rel :: "store \<Rightarrow> (int \<times> int) set" where
  "kid_rel st = {(i, task_id t) | i t. t \<in> set (st_tasks st) \<and> ParentID t = Some i}"

lemma store_cancels_kids: "store_cancels reason W D st st' \<Longrightarrow> kid_rel st' = kid_rel st"
  by (auto simp: store_cancels_def kid_rel_def) (metis task_after_id image_eqI)

text \<open>
  What a call reached: it visited the given tasks, only descendants of them, everything below
  a newly visited task, and it canceled exactly the newly visited tasks.
\<close>

definition spans :: "string \<Rightarrow> int set \<Rightarrow> int set \<Rightarrow> cancel_state \<Rightarrow> cancel_state \<Rightarrow> bool" where
  "spans reason keep I s s' \<longleftrightarrow>
     (let D = cs_visited s' - cs_visited s
      in cs_visited s \<subseteq> cs_visited s' \<and> I \<subseteq> cs_visited s'
         \<and> D \<subseteq> (kid_rel (cs_store s))\<^sup>* `` I
         \<and> (\<forall>i\<in>D. kid_rel (cs_store s) `` {i} \<subseteq> cs_visited s')
         \<and> store_cancels reason (D - keep) D (cs_store s) (cs_store s')
         \<and> reports D (cs_store s) (cs_result s) (cs_result s'))"

lemma spans_refl: "I \<subseteq> cs_visited s \<Longrightarrow> spans reason keep I s s"
  by (auto simp: spans_def store_cancels_def reports_def task_after_def node_after_def bind_after_def active_tasks_def
      open_nodes_def open_binds_def Let_def map_idI intro!: list_all2_refl)

lemma spans_trans:
  assumes 1: "spans reason keep I s s1" and 2: "spans reason keep J s1 s2"
  shows "spans reason keep (I \<union> J) s s2"
proof -
  let ?D1 = "cs_visited s1 - cs_visited s" and ?D2 = "cs_visited s2 - cs_visited s1"
  have c: "store_cancels reason (?D1 - keep) ?D1 (cs_store s) (cs_store s1)" "store_cancels reason (?D2 - keep) ?D2 (cs_store s1) (cs_store s2)"
    and r: "reports ?D1 (cs_store s) (cs_result s) (cs_result s1)" "reports ?D2 (cs_store s1) (cs_result s1) (cs_result s2)"
    using 1 2 by (simp_all add: spans_def Let_def)
  have kids: "kid_rel (cs_store s1) = kid_rel (cs_store s)" by (rule store_cancels_kids [OF c(1)])
  have D: "cs_visited s2 - cs_visited s = ?D1 \<union> ?D2" "(cs_visited s2 - cs_visited s) - keep = (?D1 - keep) \<union> (?D2 - keep)"
    using 1 2 by (auto simp: spans_def Let_def)
  have "store_cancels reason ((?D1 - keep) \<union> (?D2 - keep)) (?D1 \<union> ?D2) (cs_store s) (cs_store s2)"
    by (rule store_cancels_trans [OF c]) auto
  moreover have "reports (?D1 \<union> ?D2) (cs_store s) (cs_result s) (cs_result s2)"
    by (rule reports_trans [OF c(1) _ r]) auto
  moreover have "cs_visited s \<subseteq> cs_visited s2" "I \<union> J \<subseteq> cs_visited s2" "?D1 \<union> ?D2 \<subseteq> (kid_rel (cs_store s))\<^sup>* `` (I \<union> J)"
    "\<forall>i\<in>?D1 \<union> ?D2. kid_rel (cs_store s) `` {i} \<subseteq> cs_visited s2"
    using 1 2 unfolding spans_def Let_def kids by blast+
  ultimately show ?thesis unfolding spans_def Let_def D(1) Un_Diff by simp
qed

text \<open>
  A task row in the hands of the recursion is either visited already or still the stored one.
\<close>

definition fresh :: "cancel_state \<Rightarrow> task_row \<Rightarrow> bool" where
  "fresh s t \<longleftrightarrow> (\<exists>r. t = shown True r \<and> (task_id r \<in> cs_visited s \<or> r \<in> set (st_tasks (cs_store s))))"

lemma store_cancels_untouched: "store_cancels reason W D st st' \<Longrightarrow> r \<in> set (st_tasks st) \<Longrightarrow> task_id r \<notin> D \<Longrightarrow> r \<in> set (st_tasks st')"
  by (auto simp: store_cancels_def task_after_def image_iff intro!: bexI [of _ r])

lemma fresh_spans: "spans reason keep I s s' \<Longrightarrow> fresh s t \<Longrightarrow> fresh s' t"
proof -
  assume sp: "spans reason keep I s s'" and "fresh s t"
  then obtain r where r: "t = shown True r" "task_id r \<in> cs_visited s \<or> r \<in> set (st_tasks (cs_store s))" by (auto simp: fresh_def)
  let ?D = "cs_visited s' - cs_visited s"
  from sp have v: "cs_visited s \<subseteq> cs_visited s'" and c: "store_cancels reason (?D - keep) ?D (cs_store s) (cs_store s')"
    by (simp_all add: spans_def Let_def)
  have "task_id r \<in> cs_visited s' \<or> r \<in> set (st_tasks (cs_store s'))"
    using r(2) v store_cancels_untouched [OF c, of r] by auto
  with r(1) show "fresh s' t" by (auto simp: fresh_def)
qed

lemma spans_keys: "spans reason keep I s s' \<Longrightarrow> keys_ok (cs_store s') = keys_ok (cs_store s)"
  "spans reason keep I s s' \<Longrightarrow> task_ids (cs_store s') = task_ids (cs_store s)"
  by (auto simp: spans_def Let_def dest: store_cancels_keys)

lemma children_listed:
  "ListChildrenByParentID i st = map (shown True) (sort_key task_id (filter (\<lambda>t. ParentID t = Some i) (st_tasks st)))"
  "task_id ` set (ListChildrenByParentID i st) = kid_rel st `` {i}"
  by (auto simp: ListChildrenByParentID_def shown_def kid_rel_def listed_def image_iff)

lemma tree_step:
  assumes new: "task_id r \<notin> cs_visited s" and k: "keys_ok (cs_store s)" and r: "r \<in> set (st_tasks (cs_store s))"
    and kids: "spans reason keep (kid_rel (cs_store s) `` {task_id r}) (s\<lparr>cs_visited := insert (task_id r) (cs_visited s)\<rparr>) s1"
    and one: "cancel_one e reason (shown w r) s1 = (None, s')" and w: "w \<longleftrightarrow> task_id r \<notin> keep"
  shows "spans reason keep {task_id r} s s'"
proof -
  let ?i = "task_id r" and ?s = "s\<lparr>cs_visited := insert (task_id r) (cs_visited s)\<rparr>"
  let ?D = "cs_visited s1 - insert ?i (cs_visited s)"
  from kids have c: "store_cancels reason (?D - keep) ?D (cs_store s) (cs_store s1)" and p: "reports ?D (cs_store s) (cs_result s) (cs_result s1)"
    and v: "insert ?i (cs_visited s) \<subseteq> cs_visited s1" "kid_rel (cs_store s) `` {?i} \<subseteq> cs_visited s1"
    "?D \<subseteq> (kid_rel (cs_store s))\<^sup>* `` (kid_rel (cs_store s) `` {?i})" "\<forall>j\<in>?D. kid_rel (cs_store s) `` {j} \<subseteq> cs_visited s1"
    by (simp_all add: spans_def Let_def)
  have r1: "r \<in> set (st_tasks (cs_store s1))" by (rule store_cancels_untouched [OF c r]) simp
  have k1: "keys_ok (cs_store s1)" using store_cancels_keys(4) [OF c] k by simp
  let ?W = "if w then {?i} else {}"
  from cancel_one_effect [OF one k1 r1] have o: "cs_visited s' = cs_visited s1"
    "store_cancels reason ?W {?i} (cs_store s1) (cs_store s')" "reports {?i} (cs_store s1) (cs_result s1) (cs_result s')"
    by blast+
  have D: "cs_visited s' - cs_visited s = ?D \<union> {?i}" "(?D \<union> {?i}) - keep = (?D - keep) \<union> ?W" using v(1) new o(1) w by auto
  have "store_cancels reason ((?D - keep) \<union> ?W) (?D \<union> {?i}) (cs_store s) (cs_store s')"
    by (rule store_cancels_trans [OF c o(2)]) auto
  moreover have "reports (?D \<union> {?i}) (cs_store s) (cs_result s) (cs_result s')"
    by (rule reports_trans [OF c _ p o(3)]) auto
  moreover have "?D \<union> {?i} \<subseteq> (kid_rel (cs_store s))\<^sup>* `` {?i}"
    using v(3) by (auto intro: converse_rtrancl_into_rtrancl)
  ultimately show ?thesis unfolding spans_def Let_def D using o(1) v by auto
qed

lemma each_opt_spans:
  assumes tree: "\<And>t s s'. f t s = Some (None, s') \<Longrightarrow> keys_ok (cs_store s) \<Longrightarrow> fresh s t \<Longrightarrow> keep \<subseteq> cs_visited s \<Longrightarrow>
      spans reason keep {task_id t} s s'"
    and "each_opt f ts s = Some (None, s')" and "keys_ok (cs_store s)" and "\<forall>t\<in>set ts. fresh s t" and "keep \<subseteq> cs_visited s"
  shows "spans reason keep (task_id ` set ts) s s'"
  using assms(2-5)
proof (induction ts arbitrary: s)
  case Nil
  then show ?case by (simp add: spans_refl)
next
  case (Cons t ts)
  then obtain s1 where 1: "f t s = Some (None, s1)" and 2: "each_opt f ts s1 = Some (None, s')" by auto
  have sp: "spans reason keep {task_id t} s s1" by (rule tree [OF 1]) (use Cons.prems in auto)
  have "cs_visited s \<subseteq> cs_visited s1" using sp by (simp add: spans_def Let_def)
  then have "spans reason keep (task_id ` set ts) s1 s'"
    by (intro Cons.IH [OF 2]) (use Cons.prems spans_keys [OF sp] fresh_spans [OF sp] in auto)
  from spans_trans [OF sp this] show ?case by simp
qed

lemma cancelTaskTree_spans:
  assumes "cancelTaskTree fuel e reason t s = Some (None, s')" and "keys_ok (cs_store s)" and "fresh s t" and "keep \<subseteq> cs_visited s"
  shows "spans reason keep {task_id t} s s'"
  using assms
proof (induction fuel arbitrary: t s s')
  case 0
  then show ?case by (auto simp: spans_refl split: if_splits)
next
  case (Suc fuel)
  show ?case
  proof (cases "task_id t \<in> cs_visited s")
    case True
    with Suc.prems(1) show ?thesis by (simp add: spans_refl)
  next
    case False
    obtain r where r: "t = shown True r" "r \<in> set (st_tasks (cs_store s))" using False Suc.prems(3) by (auto simp: fresh_def)
    let ?s = "s\<lparr>cs_visited := insert (task_id r) (cs_visited s)\<rparr>" and ?kids = "ListChildrenByParentID (task_id r) (cs_store s)"
    from Suc.prems(1) False r obtain s1 where
      1: "each_opt (cancelTaskTree fuel e reason) ?kids ?s = Some (None, s1)" and 2: "cancel_one e reason t s1 = (None, s')" by auto
    have "spans reason keep (task_id ` set ?kids) ?s s1"
      by (rule each_opt_spans [OF Suc.IH 1]) (use Suc.prems in \<open>auto simp: fresh_def children_listed(1)\<close>)
    then have sp: "spans reason keep (kid_rel (cs_store s) `` {task_id r}) ?s s1" by (simp add: children_listed(2))
    have "spans reason keep {task_id r} s s'"
      by (rule tree_step [OF _ Suc.prems(2) r(2) sp 2 [unfolded r(1)]]) (use False r(1) Suc.prems(4) in auto)
    with r(1) show ?thesis by simp
  qed
qed

text \<open>An error is that of a failed write, and a fuel of one unit per task is enough.\<close>

definition from_db :: "env \<Rightarrow> go_error \<Rightarrow> bool" where
  "from_db e m \<longleftrightarrow> (\<exists>k. db_err e k = Some m)"

lemma db_write_error: "db_write e f st = (Some m, st') \<Longrightarrow> from_db e m"
  by (auto simp: db_write_def from_db_def split: option.splits)

lemma on_store_error: "on_store (db_write e f) s = (Some m, s') \<Longrightarrow> from_db e m"
  by (auto simp: on_store_def db_write_error split: prod.splits)

lemma each_error: "each f xs s = (Some m, s') \<Longrightarrow> \<exists>x\<in>set xs. \<exists>s. f x s = (Some m, s')"
  by (induction xs arbitrary: s) (auto simp: then_do_Some)

lemma each_opt_error: "each_opt f xs s = Some (Some m, s') \<Longrightarrow> \<exists>x\<in>set xs. \<exists>s. f x s = Some (Some m, s')"
  by (induction xs arbitrary: s) (auto simp: then_opt_Some)

lemma cancel_one_error:
  assumes "cancel_one e reason t s = (Some m, s')"
  shows "from_db e m"
proof -
  have "from_db e m" if "cancelTaskNodes e i reason s = (Some m, s')" for i s s'
    using each_error [OF that [unfolded cancelTaskNodes_def Let_def]]
    by (auto simp: then_do_Some node_Update_def on_store_error split: if_splits)
  moreover have "from_db e m" if "cancelAwaitBindings e i reason s = (Some m, s')" for i s s'
    using each_error [OF that [unfolded cancelAwaitBindings_def Let_def]]
    by (auto simp: then_do_Some bind_Update_def on_store_error split: if_splits)
  ultimately show ?thesis using assms
    by (cases "Status t") (auto simp: cancel_one_def then_do_Some task_Update_def on_store_error)
qed

lemma cancelTaskTree_error: "cancelTaskTree fuel e reason t s = Some (Some m, s') \<Longrightarrow> from_db e m"
proof (induction fuel arbitrary: t s)
  case (Suc fuel)
  show ?case using Suc.prems each_opt_error [of "cancelTaskTree fuel e reason"] Suc.IH
    by (fastforce simp: then_opt_Some cancel_one_error split: if_splits)
qed (simp split: if_splits)

lemma each_opt_fuel:
  assumes "\<And>t s. t \<in> set ts \<Longrightarrow> P s \<Longrightarrow> f t s \<noteq> None" and "\<And>t s s'. t \<in> set ts \<Longrightarrow> P s \<Longrightarrow> f t s = Some (None, s') \<Longrightarrow> P s'" and "P s"
  shows "each_opt f ts s \<noteq> None"
  using assms
proof (induction ts arbitrary: s)
  case (Cons t ts)
  have "each_opt f ts s1 \<noteq> None" if "f t s = Some (None, s1)" for s1
    by (rule Cons.IH) (use Cons.prems that in \<open>meson list.set_intros\<close>)+
  with Cons.prems(1,3) show ?case by (auto simp: then_opt_fuel)
qed simp

lemma cancelTaskTree_fuel:
  assumes "keys_ok (cs_store s)" and "fresh s t" and "task_id t \<in> task_ids (cs_store s)" and "card (task_ids (cs_store s) - cs_visited s) \<le> fuel"
  shows "cancelTaskTree fuel e reason t s \<noteq> None"
  using assms
proof (induction fuel arbitrary: t s)
  case 0
  moreover have "finite (task_ids (cs_store s))" by (simp add: task_ids_def)
  ultimately show ?case by auto
next
  case (Suc fuel)
  let ?ids = "task_ids (cs_store s)" and ?s = "s\<lparr>cs_visited := insert (task_id t) (cs_visited s)\<rparr>"
  have fin: "finite ?ids" by (simp add: task_ids_def)
  have "each_opt (cancelTaskTree fuel e reason) (ListChildrenByParentID (task_id t) (cs_store s)) ?s \<noteq> None" if new: "task_id t \<notin> cs_visited s"
  proof (rule each_opt_fuel [where P = "\<lambda>s'. keys_ok (cs_store s') \<and> task_ids (cs_store s') = ?ids
        \<and> insert (task_id t) (cs_visited s) \<subseteq> cs_visited s' \<and> (\<forall>c\<in>set (ListChildrenByParentID (task_id t) (cs_store s)). fresh s' c)"])
    fix c s'
    assume c: "c \<in> set (ListChildrenByParentID (task_id t) (cs_store s))"
      and P: "keys_ok (cs_store s') \<and> task_ids (cs_store s') = ?ids \<and> insert (task_id t) (cs_visited s) \<subseteq> cs_visited s'
        \<and> (\<forall>c\<in>set (ListChildrenByParentID (task_id t) (cs_store s)). fresh s' c)"
    have "?ids - cs_visited s' \<subset> ?ids - cs_visited s" using P new Suc.prems(3) by auto
    with fin have "card (?ids - cs_visited s') < card (?ids - cs_visited s)" by (intro psubset_card_mono) auto
    then show "cancelTaskTree fuel e reason c s' \<noteq> None"
      by (intro Suc.IH) (use c P Suc.prems(4) in \<open>auto simp: task_ids_def children_listed(1)\<close>)
    show "cancelTaskTree fuel e reason c s' = Some (None, s'') \<Longrightarrow> keys_ok (cs_store s'') \<and> task_ids (cs_store s'') = ?ids
        \<and> insert (task_id t) (cs_visited s) \<subseteq> cs_visited s'' \<and> (\<forall>c\<in>set (ListChildrenByParentID (task_id t) (cs_store s)). fresh s'' c)" for s''
    proof -
      assume "cancelTaskTree fuel e reason c s' = Some (None, s'')"
      from cancelTaskTree_spans [OF this, of "{}"] c P have sp: "spans reason {} {task_id c} s' s''" by simp
      then have "cs_visited s' \<subseteq> cs_visited s''" by (simp add: spans_def Let_def)
      with P spans_keys [OF sp] fresh_spans [OF sp] show ?thesis by auto
    qed
  qed (use Suc.prems(1) in \<open>auto simp: fresh_def children_listed(1)\<close>)
  then show ?case by (auto simp: then_opt_fuel simp del: not_None_eq)
qed

subsection \<open>The whole cancellation\<close>

text \<open>A task with all its descendants.\<close>

definition family :: "int \<Rightarrow> store \<Rightarrow> int set" where
  "family i st = (kid_rel st)\<^sup>* `` {i}"

lemma root_spans:
  assumes t: "cancelTaskTree fuel e reason (loaded r) s = Some (None, s')" and k: "keys_ok (cs_store s)"
    and r: "r \<in> set (st_tasks (cs_store s))" and v: "cs_visited s = {}"
  shows "spans reason {task_id r} {task_id r} s s'"
proof (cases fuel)
  case 0
  with t v show ?thesis by simp
next
  case (Suc f)
  let ?s = "s\<lparr>cs_visited := insert (task_id r) (cs_visited s)\<rparr>" and ?kids = "ListChildrenByParentID (task_id r) (cs_store s)"
  have l: "loaded r = shown False r" by (simp add: shown_def)
  from t Suc v obtain s1 where 1: "each_opt (cancelTaskTree f e reason) ?kids ?s = Some (None, s1)"
    and 2: "cancel_one e reason (shown False r) s1 = (None, s')" by (auto simp: l)
  have "spans reason {task_id r} (task_id ` set ?kids) ?s s1"
    by (rule each_opt_spans [OF cancelTaskTree_spans 1]) (use k in \<open>auto simp: fresh_def children_listed(1)\<close>)
  then have "spans reason {task_id r} (kid_rel (cs_store s) `` {task_id r}) ?s s1" by (simp add: children_listed(2))
  from tree_step [OF _ k r this 2] v show ?thesis by simp
qed

lemma root_fuel:
  assumes "keys_ok (cs_store s)" and "r \<in> set (st_tasks (cs_store s))" and "cs_visited s = {}"
    and "length (st_tasks (cs_store s)) \<le> fuel"
  shows "cancelTaskTree fuel e reason (loaded r) s \<noteq> None"
proof -
  have "task_ids (cs_store s) = set (map task_id (st_tasks (cs_store s)))" by (simp add: task_ids_def)
  then have c: "card (task_ids (cs_store s)) \<le> fuel" using assms(4) by (metis card_length le_trans length_map)
  have "cancelTaskTree fuel e reason (listed r) s \<noteq> None"
    by (rule cancelTaskTree_fuel) (use assms c in \<open>auto simp: fresh_def shown_def task_ids_def listed_def\<close>)
  with assms(3) show ?thesis
    by (cases fuel) (auto simp: then_opt_fuel loaded_def listed_def simp del: not_None_eq)
qed

lemma closed_family:
  assumes "i \<in> D" and "D \<subseteq> (kid_rel st)\<^sup>* `` {i}" and "\<forall>j\<in>D. kid_rel st `` {j} \<subseteq> D"
  shows "D = family i st"
proof -
  have "j \<in> D" if "(i, j) \<in> (kid_rel st)\<^sup>*" for j
    using that assms(1,3) by (induction rule: rtrancl_induct) auto
  with assms(2) show ?thesis by (auto simp: family_def)
qed

lemma cancelTaskTree_family:
  assumes "cancelTaskTree fuel e reason (loaded r) s = Some (None, s')" and "keys_ok (cs_store s)"
    and "r \<in> set (st_tasks (cs_store s))" and "cs_visited s = {}"
  shows "store_cancels reason (family (task_id r) (cs_store s) - {task_id r}) (family (task_id r) (cs_store s)) (cs_store s) (cs_store s')"
    and "reports (family (task_id r) (cs_store s)) (cs_store s) (cs_result s) (cs_result s')"
proof -
  from root_spans [OF assms] have sp: "{task_id r} \<subseteq> cs_visited s'" "cs_visited s' \<subseteq> (kid_rel (cs_store s))\<^sup>* `` {task_id r}"
    "\<forall>j\<in>cs_visited s'. kid_rel (cs_store s) `` {j} \<subseteq> cs_visited s'"
    and c: "store_cancels reason (cs_visited s' - {task_id r}) (cs_visited s') (cs_store s) (cs_store s')"
    "reports (cs_visited s') (cs_store s) (cs_result s) (cs_result s')"
    using assms(4) by (simp_all add: spans_def Let_def)
  have "cs_visited s' = family (task_id r) (cs_store s)" by (rule closed_family) (use sp in auto)
  with c show "store_cancels reason (family (task_id r) (cs_store s) - {task_id r}) (family (task_id r) (cs_store s)) (cs_store s) (cs_store s')"
    "reports (family (task_id r) (cs_store s)) (cs_store s) (cs_result s) (cs_result s')" by simp_all
qed

definition outside_same :: "int set \<Rightarrow> store \<Rightarrow> store \<Rightarrow> bool" where
  "outside_same D st st' \<longleftrightarrow>
     filter (\<lambda>t. task_id t \<notin> D) (st_tasks st') = filter (\<lambda>t. task_id t \<notin> D) (st_tasks st)
     \<and> filter (\<lambda>n. node_TaskID n \<notin> D) (st_nodes st') = filter (\<lambda>n. node_TaskID n \<notin> D) (st_nodes st)
     \<and> filter (\<lambda>b. ab_TaskID b \<notin> D) (st_binds st') = filter (\<lambda>b. ab_TaskID b \<notin> D) (st_binds st)
     \<and> st_queue st' = st_queue st \<and> st_events st' = st_events st"

definition shut :: "int set \<Rightarrow> int set \<Rightarrow> store \<Rightarrow> bool" where
  "shut D T st \<longleftrightarrow> (\<forall>t\<in>set (st_tasks st). task_id t \<in> D \<longrightarrow> \<not> active_status (Status t))
     \<and> (\<forall>n\<in>set (st_nodes st). node_TaskID n \<in> T \<longrightarrow> \<not> isRunCancellationNodeCancelable (State n))
     \<and> (\<forall>b\<in>set (st_binds st). ab_TaskID b \<in> T \<longrightarrow> isAwaitBindingTerminal (ab_Status b))"

lemma store_cancels_outside:
  assumes "store_cancels reason W D st st'"
  shows "outside_same D st st'"
proof -
  have "filter (\<lambda>n. node_TaskID n \<notin> D) (st_nodes st') = filter (\<lambda>n. node_TaskID n \<notin> D) (st_nodes st)"
    by (rule list_all2_filter_same [where P = "node_after reason (D \<inter> opened st)"])
      (use assms in \<open>auto simp: store_cancels_def node_after_def node_put_def cancel_node_def split: if_splits\<close>)
  moreover have "filter (\<lambda>b. ab_TaskID b \<notin> D) (st_binds st') = filter (\<lambda>b. ab_TaskID b \<notin> D) (st_binds st)"
    by (rule list_all2_filter_same [where P = "bind_after reason (D \<inter> opened st)"])
      (use assms in \<open>auto simp: store_cancels_def bind_after_def bind_put_def cancel_bind_def split: if_splits\<close>)
  moreover have "filter (\<lambda>t. task_id t \<notin> D) (st_tasks st') = filter (\<lambda>t. task_id t \<notin> D) (st_tasks st)"
    by (rule list_all2_filter_same [where P = "\<lambda>r r'. r' = task_after reason W D r"])
      (use assms in \<open>auto simp: store_cancels_def list_all2_map2 list_all2_same task_after_def cancel_task_def wiped_def\<close>)
  ultimately show ?thesis using assms by (simp add: outside_same_def store_cancels_def)
qed

lemma list_all2_right: "list_all2 P xs ys \<Longrightarrow> y \<in> set ys \<Longrightarrow> \<exists>x\<in>set xs. P x y"
  by (induction rule: list_all2_induct) auto

lemma canceled_status [simp]: "State (node_put (cancel_node reason now n) m) = NodeCanceled"
  "ab_Status (bind_put (cancel_bind reason now b) c) = AwaitBindingCanceled"
  by (simp_all add: node_put_def cancel_node_def bind_put_def cancel_bind_def)

lemma node_after_shut: "node_after reason T m n \<Longrightarrow> node_TaskID n \<in> T \<Longrightarrow> \<not> isRunCancellationNodeCancelable (State n)"
  using node_after_key [of reason T m n] by (auto simp: node_after_def split: if_splits)

lemma bind_after_shut: "bind_after reason T a b \<Longrightarrow> ab_TaskID b \<in> T \<Longrightarrow> isAwaitBindingTerminal (ab_Status b)"
  using bind_after_key [of reason T a b] by (auto simp: bind_after_def split: if_splits)

lemma task_after_shut: "task_id r \<in> D \<Longrightarrow> \<not> active_status (Status (task_after reason W D r))"
  by (simp add: task_after_def cancel_task_def active_status_def)

lemma store_cancels_shut:
  assumes "store_cancels reason W D st st'"
  shows "shut D (D \<inter> opened st) st'"
  unfolding shut_def
proof (intro conjI ballI impI)
  from assms have t: "st_tasks st' = map (task_after reason W D) (st_tasks st)"
    and n: "list_all2 (node_after reason (D \<inter> opened st)) (st_nodes st) (st_nodes st')"
    and b: "list_all2 (bind_after reason (D \<inter> opened st)) (st_binds st) (st_binds st')"
    by (simp_all add: store_cancels_def)
  show "\<not> active_status (Status x)" if "x \<in> set (st_tasks st')" "task_id x \<in> D" for x
    using that unfolding t by (auto simp: task_after_shut)
  show "\<not> isRunCancellationNodeCancelable (State x)" if "x \<in> set (st_nodes st')" "node_TaskID x \<in> D \<inter> opened st" for x
    using list_all2_right [OF n that(1)] that(2) node_after_shut by blast
  show "isAwaitBindingTerminal (ab_Status x)" if "x \<in> set (st_binds st')" "ab_TaskID x \<in> D \<inter> opened st" for x
    using list_all2_right [OF b that(1)] that(2) bind_after_shut by blast
qed

lemma CancelForSupersededRevision_cases:
  assumes "keys_ok st"
  obtains (refused) m where "CancelForSupersededRevision e i st = Some (Inl m, st)" "i \<notin> opened st"
  | (failed) m st' where "CancelForSupersededRevision e i st = Some (Inl m, st')" "from_db e m"
  | (canceled) x st' where "CancelForSupersededRevision e i st = Some (Inr x, st')" "i \<in> opened st"
      "store_cancels CancelReasonSupersededByRevision (family i st - {i}) (family i st) st st'"
      "set (CanceledTaskIDs x) = active_tasks (family i st) st"
      "set (CanceledNodeIDs x) = open_nodes (family i st \<inter> opened st) st"
      "set (CanceledAwaitBindingIDs x) = open_binds (family i st \<inter> opened st) st"
proof (cases "\<exists>r\<in>set (st_tasks st). task_id r = i \<and> isSupersededCancellationAllowed (Status r)")
  case False
  then have "i \<notin> opened st" by (auto simp: opened_def)
  moreover from False have "\<exists>m. CancelForSupersededRevision e i st = Some (Inl m, st)"
    by (auto simp: CancelForSupersededRevision_def split: sum.split dest!: GetByID_Inr) (simp_all add: loaded_def)
  ultimately show thesis using refused by blast
next
  case True
  then obtain r where r: "r \<in> set (st_tasks st)" "task_id r = i" "isSupersededCancellationAllowed (Status r)" by blast
  let ?s = "\<lparr>cs_result = \<lparr>rc_TaskID = i, rc_Reason = CancelReasonSupersededByRevision, AlreadyCanceled = (Status r = TaskCanceled),
     CanceledTaskIDs = [], CanceledNodeIDs = [], CanceledAwaitBindingIDs = []\<rparr>, cs_visited = {}, cs_store = st\<rparr>"
  let ?run = "cancelTaskTree (length (st_tasks st)) e CancelReasonSupersededByRevision (loaded r) ?s"
  have eq: "CancelForSupersededRevision e i st = (case ?run of None \<Rightarrow> None
      | Some (Some m, s) \<Rightarrow> Some (Inl m, cs_store s) | Some (None, s) \<Rightarrow> Some (Inr (cs_result s), cs_store s))"
    using GetByID_row [OF assms r(1)] r(2,3) by (simp add: CancelForSupersededRevision_def loaded_def)
  have "?run \<noteq> None" by (rule root_fuel) (use assms r(1) in simp_all)
  then obtain x s' where run: "?run = Some (x, s')" by auto
  have o: "i \<in> opened st" using r by (auto simp: opened_def)
  show thesis
  proof (cases x)
    case (Some m)
    with run eq cancelTaskTree_error failed show thesis by fastforce
  next
    case None
    with run have "?run = Some (None, s')" by simp
    from cancelTaskTree_family [OF this] assms r have "store_cancels CancelReasonSupersededByRevision (family i st - {i}) (family i st) st (cs_store s')"
      "reports (family i st) st (cs_result ?s) (cs_result s')" by simp_all
    with o run None eq show thesis by (intro canceled [of "cs_result s'" "cs_store s'"]) (simp_all add: reports_def)
  qed
qed

text \<open>
  The rows of the children come from \<^verbatim>\<open>ListChildrenByParentID\<close>, which does not read the cost columns;
  writing them back sets the recorded costs of every canceled descendant to zero.
\<close>

lemma superseded_child_cost_lost:
  assumes "keys_ok st" and "CancelForSupersededRevision e i st = Some (Inr x, st')"
    and "r \<in> set (st_tasks st)" and "task_id r \<in> family i st" and "task_id r \<noteq> i" and "active_status (Status r)"
  shows "\<exists>r'\<in>set (st_tasks st'). task_id r' = task_id r \<and> EstimatedCostTotal r' = 0 \<and> ActualCostTotal r' = 0 \<and> CostStatus r' = []"
  using assms(1)
proof (cases rule: CancelForSupersededRevision_cases [where e = e and i = i])
  case (canceled y st2)
  with assms(2) have "st_tasks st' = map (task_after CancelReasonSupersededByRevision (family i st - {i}) (family i st)) (st_tasks st)"
    by (simp add: store_cancels_def)
  with assms(3-) show ?thesis
    by (intro bexI [of _ "cancel_task CancelReasonSupersededByRevision (wiped r)"])
      (auto simp: task_after_def image_iff cancel_task_def wiped_def intro!: bexI [of _ r])
qed (use assms(2) in simp_all)

subsection \<open>Properties\<close>

text \<open>
  C24. Superseding a run. In a database with its keys the cancellation of a task always
  returns. An error means that the task is unknown, or finished or failed, and then nothing
  has changed, or it is the error of a failed write. A result means that the whole family of
  the task is shut: no task of it is pending, running or suspended, the tasks that could be
  canceled have no open node and no open await binding, the lists of the result name exactly
  what was open, and no row outside the family has changed. Cyclic parent columns do no harm.
\<close>

theorem superseded_family_shut:
  assumes "keys_ok st"
  shows "\<exists>res st'. CancelForSupersededRevision e i st = Some (res, st')
    \<and> (case res of
         Inl m \<Rightarrow> (i \<notin> opened st \<and> st' = st) \<or> from_db e m
       | Inr x \<Rightarrow> i \<in> opened st \<and> shut (family i st) (family i st \<inter> opened st) st' \<and> outside_same (family i st) st st'
          \<and> set (CanceledTaskIDs x) = active_tasks (family i st) st
          \<and> set (CanceledNodeIDs x) = open_nodes (family i st \<inter> opened st) st
          \<and> set (CanceledAwaitBindingIDs x) = open_binds (family i st \<inter> opened st) st)"
  using assms
proof (cases rule: CancelForSupersededRevision_cases [where e = e and i = i])
  case (canceled x st')
  with store_cancels_shut [OF canceled(3)] store_cancels_outside [OF canceled(3)] show ?thesis by simp
qed simp_all

definition cancel_store :: store where
  "cancel_store = \<lparr>st_tasks = [sample_row 1 None TaskSuspended, sample_row 2 (Some 1) TaskFailed, sample_row 3 (Some 2) TaskRunning,
       sample_row 4 None TaskRunning],
     st_nodes = [sample_nrow 10 3 ''a'' NodeRunning, sample_nrow 11 4 ''a'' NodeRunning], st_binds = [],
     st_queue = [], st_events = [], st_writes = 0\<rparr>"

lemma cancel_store_keys: "keys_ok cancel_store"
  by (simp add: keys_ok_def cancel_store_def node_key_def)

lemma opened_setsI:
  "t \<in> set (st_tasks st) \<Longrightarrow> isSupersededCancellationAllowed (Status t) \<Longrightarrow> task_id t \<in> opened st"
  "t \<in> set (st_tasks st) \<Longrightarrow> active_status (Status t) \<Longrightarrow> task_id t \<in> D \<Longrightarrow> task_id t \<in> active_tasks D st"
  "n \<in> set (st_nodes st) \<Longrightarrow> isRunCancellationNodeCancelable (State n) \<Longrightarrow> node_TaskID n \<in> D \<Longrightarrow> node_id n \<in> open_nodes D st"
  "t \<in> set (st_tasks st) \<Longrightarrow> ParentID t = Some i \<Longrightarrow> (i, task_id t) \<in> kid_rel st"
  by (auto simp: opened_def active_tasks_def open_nodes_def kid_rel_def)

theorem superseded_family_shut_witness:
  "\<exists>x st'. CancelForSupersededRevision (sample_env True) 1 cancel_store = Some (Inr x, st')
    \<and> 1 \<in> set (CanceledTaskIDs x) \<and> 3 \<in> set (CanceledTaskIDs x) \<and> 10 \<in> set (CanceledNodeIDs x)
    \<and> shut (family 1 cancel_store) (family 1 cancel_store \<inter> opened cancel_store) st'"
proof -
  let ?t1 = "sample_row 1 None TaskSuspended" and ?t2 = "sample_row 2 (Some 1) TaskFailed" and ?t3 = "sample_row 3 (Some 2) TaskRunning"
    and ?n = "sample_nrow 10 3 ''a'' NodeRunning"
  have rows: "?t1 \<in> set (st_tasks cancel_store)" "?t2 \<in> set (st_tasks cancel_store)" "?t3 \<in> set (st_tasks cancel_store)"
    "?n \<in> set (st_nodes cancel_store)" by (simp_all add: cancel_store_def)
  have "(1, 2) \<in> kid_rel cancel_store" "(2, 3) \<in> kid_rel cancel_store"
    using opened_setsI(4) [OF rows(2)] opened_setsI(4) [OF rows(3)] by simp_all
  then have f: "1 \<in> family 1 cancel_store" "3 \<in> family 1 cancel_store" unfolding family_def by auto
  have m: "1 \<in> active_tasks (family 1 cancel_store) cancel_store" "3 \<in> active_tasks (family 1 cancel_store) cancel_store"
    using opened_setsI(2) [OF rows(1)] opened_setsI(2) [OF rows(3)] f by (simp_all add: active_status_def)
  have o: "1 \<in> opened cancel_store" "3 \<in> opened cancel_store"
    using opened_setsI(1) [OF rows(1)] opened_setsI(1) [OF rows(3)] by simp_all
  with f have "10 \<in> open_nodes (family 1 cancel_store \<inter> opened cancel_store) cancel_store"
    using opened_setsI(3) [OF rows(4)] by simp
  moreover have "\<not> from_db (sample_env True) z" for z by (simp add: from_db_def sample_env_def)
  moreover obtain res st' where res: "CancelForSupersededRevision (sample_env True) 1 cancel_store = Some (res, st')"
    and "case res of Inl m \<Rightarrow> (1 \<notin> opened cancel_store \<and> st' = cancel_store) \<or> from_db (sample_env True) m
       | Inr x \<Rightarrow> 1 \<in> opened cancel_store \<and> shut (family 1 cancel_store) (family 1 cancel_store \<inter> opened cancel_store) st'
          \<and> outside_same (family 1 cancel_store) cancel_store st'
          \<and> set (CanceledTaskIDs x) = active_tasks (family 1 cancel_store) cancel_store
          \<and> set (CanceledNodeIDs x) = open_nodes (family 1 cancel_store \<inter> opened cancel_store) cancel_store
          \<and> set (CanceledAwaitBindingIDs x) = open_binds (family 1 cancel_store \<inter> opened cancel_store) cancel_store"
    using superseded_family_shut [OF cancel_store_keys, of "sample_env True" 1] by (elim exE conjE) (rule that)
  ultimately show ?thesis using m o by (cases res) auto
qed

end
