(* ===== verification/Flux_Retry.thy ===== *)
theory Flux_Retry
  imports Flux_Cancel Flux_Fork "HOL-Library.List_Lexorder" "HOL-Library.Char_ord"
begin

text \<open>
  \<^verbatim>\<open>engine/task_retry.go\<close>: preparing a task for another run, by hand or by the recovery scanner. The
  checkpoints of its fan-out nodes are repaired, its children are canceled or revived (which
  prepares them in turn), the failed part of its graph is reset to pending, and the task
  itself becomes pending. With a resume node the reset starts there, after patches were
  applied to stored outputs.
\<close>

subsection \<open>Services and state\<close>

datatype retry_trigger = RetryTriggerManual | RetryTriggerRecovery

text \<open>
  What the service is built with: the stored definitions (parsed), the node registry, and the
  orders in which Go visits maps: during the build of a workflow, over the rows of a task and over
  a set of node names.
\<close>

record retry_services =
  rv_env :: env
  rv_version :: "int \<Rightarrow> go_error + workflow_def"
  rv_registry :: node_registry
  rv_orders :: "workflow_def \<Rightarrow> name list \<times> name list"
  rv_range :: "(name \<rightharpoonup> node_row) \<Rightarrow> name list"
  rv_visit :: "name set \<Rightarrow> name list"

text \<open>
  The definition of the task's version, compiled. The builder returns for every order in which
  it visits its maps (\<open>Builder_accepts_iff\<close>), so the last two cases do not arise.
\<close>

definition load_workflow :: "retry_services \<Rightarrow> int \<Rightarrow> go_error + compiled_workflow" where
  "load_workflow sv v =
     (case rv_version sv v of
        Inl m \<Rightarrow> Inl m
      | Inr def \<Rightarrow>
         (case Builder_Build (rv_env sv) (rv_registry sv) (fst (rv_orders sv def)) (snd (rv_orders sv def)) def of
            Some (Ret (Inr w)) \<Rightarrow> Inr w
          | Some (Ret (Inl x)) \<Rightarrow> Inl (case x of BuildError m \<Rightarrow> m | GraphError _ \<Rightarrow> ''invalid graph'')
          | Some (Panic m) \<Rightarrow> Inl m
          | None \<Rightarrow> Inl ''build''))"

text \<open>The rows in memory, the keys of children to keep, and the database.\<close>

record retry_state =
  rx_rows :: "name \<rightharpoonup> node_row"
  rx_protected :: "string set"
  rx_store :: store

definition on_db :: "(store \<Rightarrow> go_error option \<times> store) \<Rightarrow> retry_state \<Rightarrow> go_error option \<times> retry_state" where
  "on_db f s = (case f (rx_store s) of (x, st) \<Rightarrow> (x, s\<lparr>rx_store := st\<rparr>))"

definition save_row :: "env \<Rightarrow> name \<Rightarrow> node_row \<Rightarrow> retry_state \<Rightarrow> go_error option \<times> retry_state" where
  "save_row e n r s = on_db (node_Update e r) (s\<lparr>rx_rows := (rx_rows s)(n \<mapsto> r)\<rparr>)"

definition runtime_map :: "node_row list \<Rightarrow> name \<rightharpoonup> node_row" where
  "runtime_map rs = fold (\<lambda>r m. m(Name r \<mapsto> r)) rs Map.empty"

subsection \<open>Checkpoints of loops and maps\<close>

definition task_FindBySubKey :: "string \<Rightarrow> store \<Rightarrow> go_error + task_row" where
  "task_FindBySubKey k st = (case List.find (\<lambda>t. SubKey t = Some k) (st_tasks st) of
      None \<Rightarrow> Inl record_not_found
    | Some r \<Rightarrow> Inr (r\<lparr>RetryCount := 0, ErrorMessage := [], EstimatedCostTotal := 0, ActualCostTotal := 0, CostStatus := []\<rparr>))"

definition task_ListByParentNode :: "int \<Rightarrow> name \<Rightarrow> store \<Rightarrow> task_row list" where
  "task_ListByParentNode i n st = sort_key MapIndex (filter (\<lambda>t. ParentID t = Some i \<and> ParentNode t = Some n) (st_tasks st))"

definition bumpLoopAttemptAndClearBinding :: "gmap \<Rightarrow> int \<Rightarrow> gmap" where
  "bumpLoopAttemptAndClearBinding cp i =
     (let seqs = sub_map cp ''attempt_seq_by_index'';
          seq = ToInt64 (cfg seqs (FormatInt i)) + 1;
          seq' = (if seq \<le> 0 then 1 else seq)
      in AList.update ''running_attempt_token'' (VStr [])
          (AList.update ''running_sub_key'' (VStr [])
            (AList.update ''running_index'' (VInt (- 1))
              (AList.update ''attempt_seq_by_index'' (VMap (AList.update (FormatInt i) (VInt seq') seqs)) cp))))"

definition keeps_result :: "node_row \<Rightarrow> bool" where
  "keeps_result r \<longleftrightarrow> State r = NodeSuccess \<or> State r = NodeSuccessPendingEdges"

text \<open>
  A child that is not found is an error of \<^verbatim>\<open>FindBySubKey\<close>, after which the key is kept; the
  branch of the code for a missing child without an error cannot be reached.
\<close>

definition repairLoopCheckpointForRetry :: "env \<Rightarrow> int \<Rightarrow> node_row \<Rightarrow> store \<Rightarrow> bool \<times> string \<times> node_row" where
  "repairLoopCheckpointForRetry e i r st =
     (case Checkpoint r of
        None \<Rightarrow> (False, [], r)
      | Some cp \<Rightarrow>
         if keeps_result r then (False, [], r)
         else
           (let ri = ToInt64 (cfg cp ''running_index'');
                k = TrimSpace (ToString e (cfg cp ''running_sub_key''));
                bumped = r\<lparr>Checkpoint := Some (bumpLoopAttemptAndClearBinding cp ri), Output := None, OutputHash := []\<rparr>
            in if ri = - 1 \<or> k = [] then (False, [], r)
               else case task_FindBySubKey k st of
                   Inl _ \<Rightarrow> (False, k, r)
                 | Inr child \<Rightarrow>
                     if ParentID child \<noteq> Some i then (True, [], bumped)
                     else if ParentNode child \<noteq> Some (Name r) then (True, [], bumped)
                     else (False, k, r)))"

definition getMapChildIndexForRetry :: "task_row \<Rightarrow> int option" where
  "getMapChildIndexForRetry t =
     (case MapIndex t of
        Some i \<Rightarrow> Some i
      | None \<Rightarrow> (case InputJSON t of
          None \<Rightarrow> None
        | Some inp \<Rightarrow> (case map_of inp ''index'' of
            Some (VInt i) \<Rightarrow> Some i
          | Some (VFloat q) \<Rightarrow> Some (trunc q)
          | _ \<Rightarrow> None)))"

definition mapCheckpointHasResult :: "gmap \<Rightarrow> int \<Rightarrow> bool" where
  "mapCheckpointHasResult cp i \<longleftrightarrow> map_of (sub_map cp ''results'') (FormatInt i) \<noteq> None"

definition trimmed_key :: "task_row \<Rightarrow> string" where
  "trimmed_key t = (case SubKey t of None \<Rightarrow> [] | Some k \<Rightarrow> TrimSpace k)"

fun collect_keys :: "gmap \<Rightarrow> task_row list \<Rightarrow> string list \<Rightarrow> string list" where
  "collect_keys cp [] acc = acc"
| "collect_keys cp (t # ts) acc =
     (if trimmed_key t = [] then collect_keys cp ts acc
      else case getMapChildIndexForRetry t of
          None \<Rightarrow> collect_keys cp ts acc
        | Some i \<Rightarrow>
            if mapCheckpointHasResult cp i \<or> trimmed_key t \<in> set acc then collect_keys cp ts acc
            else collect_keys cp ts (acc @ [trimmed_key t]))"

definition collectMapRetrySubKeys :: "gmap \<Rightarrow> task_row list \<Rightarrow> string list" where
  "collectMapRetrySubKeys cp ts = collect_keys cp ts []"

definition repairMapCheckpointForRetry :: "int \<Rightarrow> node_row \<Rightarrow> store \<Rightarrow> bool \<times> string list \<times> node_row" where
  "repairMapCheckpointForRetry i r st =
     (case Checkpoint r of
        None \<Rightarrow> (False, [], r)
      | Some cp \<Rightarrow>
         if keeps_result r then (False, [], r)
         else (True, collectMapRetrySubKeys cp (task_ListByParentNode i (Name r) st), r\<lparr>Output := None, OutputHash := []\<rparr>))"

definition protect :: "string list \<Rightarrow> retry_state \<Rightarrow> retry_state" where
  "protect ks s = s\<lparr>rx_protected := rx_protected s \<union> {k \<in> set ks. k \<noteq> []}\<rparr>"

definition repair_row :: "env \<Rightarrow> int \<Rightarrow> compiled_workflow \<Rightarrow> name \<Rightarrow> retry_state \<Rightarrow> go_error option \<times> retry_state" where
  "repair_row e i w n s =
     (case (rx_rows s n, cw_nodes w n) of
        (Some r, Some nd) \<Rightarrow>
          if Checkpoint r = None then (None, s)
          else if n_Type nd = ''loop'' then
            (case repairLoopCheckpointForRetry e i r (rx_store s) of
               (changed, k, r') \<Rightarrow> if changed then save_row e n r' (protect [k] s) else (None, protect [k] s))
          else if n_Type nd = ''map'' then
            (case repairMapCheckpointForRetry i r (rx_store s) of
               (changed, ks, r') \<Rightarrow> if changed then save_row e n r' (protect ks s) else (None, protect ks s))
          else (None, s)
      | _ \<Rightarrow> (None, s))"

definition repairCompositeNodeCheckpointForRetry ::
  "retry_services \<Rightarrow> int \<Rightarrow> compiled_workflow \<Rightarrow> retry_state \<Rightarrow> go_error option \<times> retry_state" where
  "repairCompositeNodeCheckpointForRetry sv i w s =
     each (repair_row (rv_env sv) i w) (rv_range sv (rx_rows s)) s"

subsection \<open>Children\<close>

definition retry_canceled :: "task_row \<Rightarrow> task_row" where
  "retry_canceled t = cancel_task ''canceled by parent retry'' t"

definition is_protected :: "string set \<Rightarrow> task_row \<Rightarrow> bool" where
  "is_protected ks t \<longleftrightarrow> trimmed_key t \<noteq> [] \<and> trimmed_key t \<in> ks"

definition cancelChildTasksForRetry :: "env \<Rightarrow> int \<Rightarrow> string set \<Rightarrow> retry_trigger \<Rightarrow> store \<Rightarrow> go_error option \<times> store" where
  "cancelChildTasksForRetry e i ks trigger st =
     (if trigger = RetryTriggerRecovery then (None, st)
      else each (\<lambda>t st. if is_protected ks t then (None, st)
                    else (case Status t of
                        TaskPending \<Rightarrow> task_Update e (retry_canceled t) st
                      | TaskRunning \<Rightarrow> task_Update e (retry_canceled t) st
                      | TaskSuspended \<Rightarrow> task_Update e (retry_canceled t) st
                      | _ \<Rightarrow> (None, st)))
             (ListChildrenByParentID i st) st)"

text \<open>\<open>retry\<close> is the recursive call of \<^verbatim>\<open>PrepareTaskRetry\<close> for a child.\<close>

definition reviveProtectedChildrenForRetry :: "env \<Rightarrow> (int \<Rightarrow> store \<Rightarrow> (go_error option \<times> store) option)
    \<Rightarrow> int \<Rightarrow> string set \<Rightarrow> store \<Rightarrow> (go_error option \<times> store) option" where
  "reviveProtectedChildrenForRetry e retry i ks st =
     (if ks = {} then Some (None, st)
      else each_opt (\<lambda>t st. if \<not> is_protected ks t then Some (None, st)
                    else (case Status t of
                        TaskFailed \<Rightarrow> then_opt (retry (task_id t) st) (\<lambda>st. Some (task_Enqueue e (task_id t) st))
                      | TaskCanceled \<Rightarrow> then_opt (retry (task_id t) st) (\<lambda>st. Some (task_Enqueue e (task_id t) st))
                      | TaskPending \<Rightarrow> Some (task_Enqueue e (task_id t) st)
                      | _ \<Rightarrow> Some (None, st)))
             (ListChildrenByParentID i st) st)"

subsection \<open>Choosing and resetting nodes\<close>

definition retry_root :: "node_state \<Rightarrow> bool" where
  "retry_root x \<longleftrightarrow> x \<in> {NodeFailed, NodeFailedPendingEdges, NodeRunning, NodeRetrying, NodeCanceled, NodeReady}"

definition collectRetryRoots :: "node_row list \<Rightarrow> name list" where
  "collectRetryRoots rs = map Name (filter (\<lambda>r. retry_root (State r)) rs)"

definition collectNonTerminalRetryRoots :: "node_row list \<Rightarrow> name list" where
  "collectNonTerminalRetryRoots rs =
     map Name (filter (\<lambda>r. State r \<in> {NodePending, NodeRunning, NodeRetrying, NodeReady}) rs)"

text \<open>The breadth-first search of \<^verbatim>\<open>collectRetrySubtree\<close>: its queue and the set it fills.\<close>

definition subtree_step :: "graph \<Rightarrow> name list \<times> name set \<Rightarrow> name list \<times> name set" where
  "subtree_step g = (\<lambda>(q, seen). if hd q \<in> seen then (tl q, seen) else (tl q @ Children g (hd q), insert (hd q) seen))"

definition collectRetrySubtree :: "compiled_workflow \<Rightarrow> name list \<Rightarrow> name set" where
  "collectRetrySubtree w roots = snd (while (\<lambda>(q, seen). q \<noteq> []) (subtree_step (cw_graph w)) (roots, {}))"

definition is_fanout :: "compiled_workflow \<Rightarrow> name \<Rightarrow> bool" where
  "is_fanout w n \<longleftrightarrow> (case cw_nodes w n of None \<Rightarrow> False | Some nd \<Rightarrow> n_Type nd = ''loop'' \<or> n_Type nd = ''map'')"

definition reset_row :: "compiled_workflow \<Rightarrow> name \<Rightarrow> node_row \<Rightarrow> node_row" where
  "reset_row w n r =
     r\<lparr>State := NodePending, Error := [], Progress := 0, StartedAt := None, FinishedAt := None, LastHeartbeat := None,
       rt_ActivatedEdges := Map.empty, ResolvedInput := None, InputHash := [], OutputHash := [], Output := None,
       Checkpoint := (if is_fanout w n then Checkpoint r else None)\<rparr>"

definition resetNodeRuntimeForRetry :: "retry_services \<Rightarrow> compiled_workflow \<Rightarrow> name set \<Rightarrow> retry_state \<Rightarrow> go_error option \<times> retry_state" where
  "resetNodeRuntimeForRetry sv w ns s =
     each (\<lambda>n s. case rx_rows s n of
               None \<Rightarrow> (None, s)
             | Some r \<Rightarrow> if keeps_result r then (None, s) else save_row (rv_env sv) n (reset_row w n r) s)
       (rv_visit sv ns) s"

definition resetNodeRuntimeForTargetedResume :: "retry_services \<Rightarrow> compiled_workflow \<Rightarrow> name set \<Rightarrow> retry_state \<Rightarrow> go_error option \<times> retry_state" where
  "resetNodeRuntimeForTargetedResume sv w ns s =
     each (\<lambda>n s. case rx_rows s n of None \<Rightarrow> (None, s) | Some r \<Rightarrow> save_row (rv_env sv) n (reset_row w n r) s)
       (rv_visit sv ns) s"

definition resetAwaitBindingsForRetry :: "env \<Rightarrow> int \<Rightarrow> name set \<Rightarrow> store \<Rightarrow> go_error option \<times> store" where
  "resetAwaitBindingsForRetry e i ns st =
     (if ns = {} \<or> i = 0 then (None, st)
      else let now = clock e (st_writes st)
           in each (\<lambda>b st. if ab_NodeName b \<notin> ns \<or> isAwaitBindingTerminal (ab_Status b) then (None, st)
                        else bind_Update e (cancel_bind ''canceled by task retry'' now b) st)
                (bind_ListByTaskID i st) st)"

definition patch_row :: "env \<Rightarrow> runtime_patch \<Rightarrow> retry_state \<Rightarrow> go_error option \<times> retry_state" where
  "patch_row e p s =
     (if p_Target p \<noteq> PatchTargetNodeOutput then (None, s)
      else case rx_rows s (p_Node p) of
          None \<Rightarrow> (Some (''patch target node not found in runtime: '' @ p_Node p), s)
        | Some r \<Rightarrow>
           (case applyPatchToMap (Some (case Output r of None \<Rightarrow> [] | Some m \<Rightarrow> m)) p of
              (Some m, out) \<Rightarrow> (Some m, s\<lparr>rx_rows := (rx_rows s)(p_Node p \<mapsto> r\<lparr>Output := out\<rparr>)\<rparr>)
            | (None, out) \<Rightarrow> save_row e (p_Node p) (r\<lparr>Output := out\<rparr>) s))"

definition applyPatchesToNodeRuntimes :: "env \<Rightarrow> runtime_patch list \<Rightarrow> retry_state \<Rightarrow> go_error option \<times> retry_state" where
  "applyPatchesToNodeRuntimes e ps s = each (patch_row e) ps s"

subsection \<open>PrepareTaskRetry\<close>

definition plain_rows :: "(name \<rightharpoonup> node_row) \<Rightarrow> name \<rightharpoonup> node_runtime" where
  "plain_rows m = (\<lambda>n. map_option node_runtime.truncate (m n))"

definition TaskNoRetryFound :: go_error where "TaskNoRetryFound = ''no retry root found task''"

definition targeted_reset :: "retry_services \<Rightarrow> int \<Rightarrow> compiled_workflow \<Rightarrow> name \<Rightarrow> runtime_patch list \<Rightarrow> retry_state \<Rightarrow> go_error option \<times> retry_state" where
  "targeted_reset sv i w n ps s =
     (if cw_nodes w n = None then (Some (''resume_from node not found in workflow: '' @ n), s)
      else if rx_rows s n = None then (Some (''resume_from node has no runtime: '' @ n), s)
      else case snd (ValidateParentStateClosure (rv_range sv (rx_rows s)) (plain_rows (rx_rows s)) (cw_graph w) ClosureModeResume) of
          issue # _ \<Rightarrow> (Some (''parent state not closed: '' @ ci_Message issue), s)
        | [] \<Rightarrow>
           let ns = collectRetrySubtree w [n]
           in then_do (applyPatchesToNodeRuntimes (rv_env sv) ps s) (\<lambda>s.
              then_do (resetNodeRuntimeForTargetedResume sv w ns s) (\<lambda>s.
              on_db (resetAwaitBindingsForRetry (rv_env sv) i ns) s)))"

definition failed_reset :: "retry_services \<Rightarrow> int \<Rightarrow> compiled_workflow \<Rightarrow> node_row list \<Rightarrow> retry_state \<Rightarrow> go_error option \<times> retry_state" where
  "failed_reset sv i w rs s =
     (let failed = collectRetryRoots rs;
          roots = (if failed = [] then collectNonTerminalRetryRoots rs else failed);
          ns = collectRetrySubtree w roots
      in if roots = [] then (Some TaskNoRetryFound, s)
         else then_do (resetNodeRuntimeForRetry sv w ns s) (\<lambda>s. on_db (resetAwaitBindingsForRetry (rv_env sv) i ns) s))"

definition retryable :: "task_status \<Rightarrow> bool" where
  "retryable x \<longleftrightarrow> x \<in> {TaskFailed, TaskCanceled, TaskSuspended, TaskRunning}"

definition exhausted_text :: string where "exhausted_text = ''task auto retry exhausted''"

definition retry_exhausted :: "task_row \<Rightarrow> go_error" where
  "retry_exhausted t = exhausted_text @ '': retry_count='' @ FormatInt (RetryCount t) @ '', max='' @ FormatInt MaxAutoRetryCount"

definition retried_task :: "retry_trigger \<Rightarrow> task_row \<Rightarrow> task_row" where
  "retried_task trigger t =
     t\<lparr>Status := TaskPending, ErrorMessage := [], OutputJSON := None, task_Progress := 0,
       RetryCount := (if trigger = RetryTriggerManual then 0 else RetryCount t + 1), WorkerID := []\<rparr>"

text \<open>
  The recursion goes from a task to its children; the fuel bounds its depth. Children of a
  task in a tree of tasks have fewer descendants, so one unit per task is enough
  (\<open>PrepareTaskRetry_fuel\<close>).
\<close>

primrec PrepareTaskRetry :: "nat \<Rightarrow> retry_services \<Rightarrow> int \<Rightarrow> retry_trigger \<Rightarrow> name \<Rightarrow> runtime_patch list
    \<Rightarrow> store \<Rightarrow> (go_error option \<times> store) option" where
  "PrepareTaskRetry 0 sv i trigger n ps st = None"
| "PrepareTaskRetry (Suc fuel) sv i trigger n ps st =
     (case GetByID i st of
        Inl m \<Rightarrow> Some (Some m, st)
      | Inr t \<Rightarrow>
         if \<not> retryable (Status t) then Some (Some (''task is not retryable, current status='' @ task_status_str (Status t)), st)
         else if trigger = RetryTriggerRecovery \<and> MaxAutoRetryCount \<le> RetryCount t then Some (Some (retry_exhausted t), st)
         else case load_workflow sv (WorkflowVersionID t) of
             Inl m \<Rightarrow> Some (Some m, st)
           | Inr w \<Rightarrow>
              (let rs = node_FindByTaskID i st;
                   e = rv_env sv
               in map_option (\<lambda>(x, s). (x, rx_store s))
                 (then_opt (Some (repairCompositeNodeCheckpointForRetry sv i w
                       \<lparr>rx_rows = runtime_map rs, rx_protected = {}, rx_store = st\<rparr>)) (\<lambda>s.
                  then_opt (Some (on_db (cancelChildTasksForRetry e i (rx_protected s) trigger) s)) (\<lambda>s.
                  then_opt (map_option (\<lambda>(x, st). (x, s\<lparr>rx_store := st\<rparr>))
                       (reviveProtectedChildrenForRetry e (\<lambda>c. PrepareTaskRetry fuel sv c trigger [] []) i (rx_protected s) (rx_store s))) (\<lambda>s.
                  then_opt (Some (if TrimSpace n \<noteq> [] then targeted_reset sv i w n ps s else failed_reset sv i w rs s)) (\<lambda>s.
                  Some (on_db (task_Update e (retried_task trigger t)) s))))))))"

declare PrepareTaskRetry.simps(2) [simp del]

subsection \<open>Clearing the result of one item\<close>

definition drop_key :: "string \<Rightarrow> string \<Rightarrow> gmap \<Rightarrow> gmap" where
  "drop_key fld k cp = (case map_of cp fld of
      Some (VMap m) \<Rightarrow> AList.update fld (VMap (AList.delete k m)) cp | _ \<Rightarrow> cp)"

definition cleared_cp :: "string \<Rightarrow> gmap \<Rightarrow> gmap" where
  "cleared_cp k cp =
     AList.update ''done'' (VInt (max (ToInt64 (cfg cp ''done'') - 1) 0))
       (drop_key ''reused_items'' k (drop_key ''item_hashes'' k (drop_key ''results'' k cp)))"

definition ClearMapChildCheckpointResult :: "env \<Rightarrow> int \<Rightarrow> name \<Rightarrow> int \<Rightarrow> store \<Rightarrow> go_error option \<times> store" where
  "ClearMapChildCheckpointResult e i n child st =
     (case GetByID child st of
        Inl m \<Rightarrow> (Some m, st)
      | Inr t \<Rightarrow>
         (case getMapChildIndexForRetry t of
            None \<Rightarrow> (Some ''resolve child map index'', st)
          | Some k \<Rightarrow>
             (case List.find (\<lambda>r. Name r = n) (node_FindByTaskID i st) of
                None \<Rightarrow> (Some (''parent node '' @ n @ '' runtime not found''), st)
              | Some r \<Rightarrow>
                 (case Checkpoint r of
                    None \<Rightarrow> (None, st)
                  | Some cp \<Rightarrow>
                      if \<not> mapCheckpointHasResult cp k then (None, st)
                      else node_Update e (r\<lparr>Checkpoint := Some (cleared_cp (FormatInt k) cp)\<rparr>) st))))"

subsection \<open>What a retry can touch\<close>

definition changes_in :: "int set \<Rightarrow> store \<Rightarrow> store \<Rightarrow> bool" where
  "changes_in D st st' \<longleftrightarrow>
     list_all2 (\<lambda>r r'. task_id r' = task_id r \<and> ParentID r' = ParentID r \<and> (task_id r \<notin> D \<longrightarrow> r' = r)) (st_tasks st) (st_tasks st')
     \<and> list_all2 (\<lambda>r r'. node_key r' = node_key r \<and> node_id r' = node_id r \<and> (node_TaskID r \<notin> D \<longrightarrow> r' = r)) (st_nodes st) (st_nodes st')
     \<and> list_all2 (\<lambda>r r'. ab_ID r' = ab_ID r \<and> ab_TaskID r' = ab_TaskID r \<and> (ab_TaskID r \<notin> D \<longrightarrow> r' = r)) (st_binds st) (st_binds st')"

lemma changes_in_refl [simp]: "changes_in D st st"
  by (simp add: changes_in_def list_all2_refl)

lemma changes_in_mono: "changes_in D st st' \<Longrightarrow> D \<subseteq> D' \<Longrightarrow> changes_in D' st st'"
  unfolding changes_in_def by (auto elim!: list_all2_mono)

lemma changes_in_trans:
  assumes 1: "changes_in D st st1" and 2: "changes_in D st1 st2"
  shows "changes_in D st st2"
proof -
  have key: "node_TaskID r = fst (node_key r)" for r by (simp add: node_key_def)
  show ?thesis unfolding changes_in_def
  proof (intro conjI)
    show "list_all2 (\<lambda>r r'. task_id r' = task_id r \<and> ParentID r' = ParentID r \<and> (task_id r \<notin> D \<longrightarrow> r' = r)) (st_tasks st) (st_tasks st2)"
      by (rule list_all2_trans [OF _ conjunct1 [OF 1 [unfolded changes_in_def]] conjunct1 [OF 2 [unfolded changes_in_def]]]) auto
    show "list_all2 (\<lambda>r r'. node_key r' = node_key r \<and> node_id r' = node_id r \<and> (node_TaskID r \<notin> D \<longrightarrow> r' = r)) (st_nodes st) (st_nodes st2)"
      by (rule list_all2_trans [OF _ conjunct1 [OF conjunct2 [OF 1 [unfolded changes_in_def]]] conjunct1 [OF conjunct2 [OF 2 [unfolded changes_in_def]]]])
        (auto simp: key)
    show "list_all2 (\<lambda>r r'. ab_ID r' = ab_ID r \<and> ab_TaskID r' = ab_TaskID r \<and> (ab_TaskID r \<notin> D \<longrightarrow> r' = r)) (st_binds st) (st_binds st2)"
      by (rule list_all2_trans [OF _ conjunct2 [OF conjunct2 [OF 1 [unfolded changes_in_def]]] conjunct2 [OF conjunct2 [OF 2 [unfolded changes_in_def]]]]) auto
  qed
qed

lemma changes_in_keys:
  assumes "changes_in D st st'"
  shows "map task_id (st_tasks st') = map task_id (st_tasks st)" "map ParentID (st_tasks st') = map ParentID (st_tasks st)"
    "map node_key (st_nodes st') = map node_key (st_nodes st)" "map ab_ID (st_binds st') = map ab_ID (st_binds st)"
    "map ab_TaskID (st_binds st') = map ab_TaskID (st_binds st)" "keys_ok st' = keys_ok st"
proof -
  have t: "list_all2 (\<lambda>r r'. task_id r' = task_id r \<and> ParentID r' = ParentID r \<and> (task_id r \<notin> D \<longrightarrow> r' = r)) (st_tasks st) (st_tasks st')"
    and n: "list_all2 (\<lambda>r r'. node_key r' = node_key r \<and> node_id r' = node_id r \<and> (node_TaskID r \<notin> D \<longrightarrow> r' = r)) (st_nodes st) (st_nodes st')"
    and b: "list_all2 (\<lambda>r r'. ab_ID r' = ab_ID r \<and> ab_TaskID r' = ab_TaskID r \<and> (ab_TaskID r \<notin> D \<longrightarrow> r' = r)) (st_binds st) (st_binds st')"
    using assms by (simp_all add: changes_in_def)
  show k: "map task_id (st_tasks st') = map task_id (st_tasks st)" "map ParentID (st_tasks st') = map ParentID (st_tasks st)"
    by (rule list_all2_map_same [OF t]; simp)+
  show l: "map node_key (st_nodes st') = map node_key (st_nodes st)" by (rule list_all2_map_same [OF n]) simp
  show m: "map ab_ID (st_binds st') = map ab_ID (st_binds st)" "map ab_TaskID (st_binds st') = map ab_TaskID (st_binds st)"
    by (rule list_all2_map_same [OF b]; simp)+
  show "keys_ok st' = keys_ok st" by (simp only: keys_ok_def k l m)
qed

lemma set_zip_maps: "set (zip (map f xs) (map g xs)) = (\<lambda>x. (f x, g x)) ` set xs"
  by (induction xs) auto

lemma kid_rel_zip: "kid_rel st = {(i, j). (j, Some i) \<in> set (zip (map task_id (st_tasks st)) (map ParentID (st_tasks st)))}"
  unfolding set_zip_maps by (auto simp: kid_rel_def image_iff)

lemma changes_in_kids: "changes_in D st st' \<Longrightarrow> kid_rel st' = kid_rel st" "changes_in D st st' \<Longrightarrow> family i st' = family i st"
  by (simp_all only: family_def kid_rel_zip changes_in_keys)

text \<open>Single operations.\<close>

lemma db_write_changes_in:
  assumes "db_write e f st = (x, st')" and "\<And>st1. st_tasks st1 = st_tasks st \<Longrightarrow> st_nodes st1 = st_nodes st \<Longrightarrow> st_binds st1 = st_binds st \<Longrightarrow> changes_in D st (f st1)"
  shows "changes_in D st st'"
  using assms by (auto simp: db_write_def changes_in_def list_all2_refl split: option.splits)

definition same_parent :: "store \<Rightarrow> task_row \<Rightarrow> bool" where
  "same_parent st t \<longleftrightarrow> (\<forall>r\<in>set (st_tasks st). task_id r = task_id t \<longrightarrow> ParentID r = ParentID t)"

lemma task_Update_changes_in:
  assumes "task_Update e t st = (x, st')" and "same_parent st t"
  shows "changes_in {task_id t} st st'"
  using assms(1) unfolding task_Update_def
  by (rule db_write_changes_in)
    (use assms(2) in \<open>auto simp: changes_in_def table_update_def list_all2_map2 list_all2_same task_put_def same_parent_def\<close>)

lemma node_Update_changes_in:
  assumes "node_Update e n st = (x, st')"
  shows "changes_in {node_TaskID n} st st'"
  using assms unfolding node_Update_def
  by (rule db_write_changes_in) (auto simp: changes_in_def table_update_def list_all2_map2 list_all2_same node_put_def node_key_def)

lemma bind_Update_changes_in:
  assumes "bind_Update e b st = (x, st')" and "\<forall>r\<in>set (st_binds st). ab_ID r = ab_ID b \<longrightarrow> ab_TaskID r = ab_TaskID b"
  shows "changes_in {ab_TaskID b} st st'"
  using assms(1) unfolding bind_Update_def
  by (rule db_write_changes_in)
    (use assms(2) in \<open>auto simp: changes_in_def table_update_def list_all2_map2 list_all2_same bind_put_def\<close>)

lemma task_Enqueue_changes_in: "task_Enqueue e k st = (x, st') \<Longrightarrow> changes_in D st st'"
  unfolding task_Enqueue_def by (erule db_write_changes_in) (auto simp: changes_in_def list_all2_refl)

lemma same_parent_listed: "keys_ok st \<Longrightarrow> t \<in> set (ListChildrenByParentID i st) \<Longrightarrow> same_parent st t"
  by (auto simp: ListChildrenByParentID_def same_parent_def listed_def keys_ok_def distinct_map inj_on_def)

lemma same_parent_loaded: "keys_ok st \<Longrightarrow> GetByID i st = Inr t \<Longrightarrow> same_parent st t \<and> task_id t = i"
  by (auto dest!: GetByID_Inr simp: same_parent_def loaded_def keys_ok_def distinct_map inj_on_def)

lemma same_parent_changes_in:
  assumes "changes_in D st st'"
  shows "same_parent st' t = same_parent st t"
proof -
  have eq: "same_parent s t \<longleftrightarrow> (\<forall>(j, p)\<in>set (zip (map task_id (st_tasks s)) (map ParentID (st_tasks s))). j = task_id t \<longrightarrow> p = ParentID t)" for s
    unfolding set_zip_maps by (auto simp: same_parent_def)
  show ?thesis by (simp only: eq changes_in_keys [OF assms])
qed

lemma each_opt_keeps:
  assumes "\<And>x s r s'. x \<in> set xs \<Longrightarrow> f x s = Some (r, s') \<Longrightarrow> P s \<Longrightarrow> P s'" and "P s" and "each_opt f xs s = Some (r, s')"
  shows "P s'"
  using assms
proof (induction xs arbitrary: s)
  case (Cons x xs)
  from Cons.prems(3) obtain r1 s1 where 1: "f x s = Some (r1, s1)" by (cases "f x s") (auto simp: then_opt_def)
  have P1: "P s1" by (rule Cons.prems(1) [OF _ 1 Cons.prems(2)]) simp
  show ?case
  proof (cases r1)
    case None
    with 1 Cons.prems(3) have "each_opt f xs s1 = Some (r, s')" by (simp add: then_opt_def)
    from Cons.IH [OF _ P1 this] show ?thesis using Cons.prems(1) by (meson list.set_intros(2))
  next
    case (Some m)
    with 1 P1 Cons.prems(3) show ?thesis by (simp add: then_opt_def)
  qed
qed simp

text \<open>The rows in memory are those of the task.\<close>

definition rows_of_task :: "int \<Rightarrow> retry_state \<Rightarrow> bool" where
  "rows_of_task i s \<longleftrightarrow> (\<forall>n r. rx_rows s n = Some r \<longrightarrow> node_key r = (i, n))"

definition own :: "int set \<Rightarrow> int \<Rightarrow> store \<Rightarrow> retry_state \<Rightarrow> bool" where
  "own D i st s \<longleftrightarrow> i \<in> D \<and> rows_of_task i s \<and> changes_in D st (rx_store s)"

lemma save_row_own:
  assumes "save_row e n r s = (x, s')" and "own D i st s" and "node_key r = (i, n)"
  shows "own D i st s'"
proof -
  obtain st1 where 1: "node_Update e r (rx_store s) = (x, st1)" and s': "s' = s\<lparr>rx_rows := (rx_rows s)(n \<mapsto> r), rx_store := st1\<rparr>"
    using assms(1) by (auto simp: save_row_def on_db_def split: prod.splits)
  have "changes_in D (rx_store s) st1"
    by (rule changes_in_mono [OF node_Update_changes_in [OF 1]]) (use assms(2,3) in \<open>simp add: node_key_def own_def\<close>)
  with assms s' show ?thesis by (auto simp: own_def rows_of_task_def intro: changes_in_trans)
qed

lemma repair_keys:
  "repairLoopCheckpointForRetry e i r st = (b, k, r') \<Longrightarrow> node_key r' = node_key r"
  "repairMapCheckpointForRetry i r st = (b, ks, r') \<Longrightarrow> node_key r' = node_key r"
  by (auto simp: repairLoopCheckpointForRetry_def repairMapCheckpointForRetry_def node_key_def Let_def split: option.splits sum.splits if_splits)

lemma own_protect [simp]: "own D i st (protect ks s) = own D i st s"
  by (simp add: own_def rows_of_task_def protect_def)

lemma repair_own:
  assumes "repairCompositeNodeCheckpointForRetry sv i w s = (x, s')" and "own D i st s"
  shows "own D i st s'"
  using assms(1) unfolding repairCompositeNodeCheckpointForRetry_def
proof (rule each_keeps [rotated 2])
  fix n s x s'
  assume r: "repair_row (rv_env sv) i w n s = (x, s')" and o: "own D i st s"
  have key: "node_key r = (i, n)" if "rx_rows s n = Some r" for r using o that by (simp add: own_def rows_of_task_def)
  show "own D i st s'"
    using r o key repair_keys
    by (fastforce simp: repair_row_def intro: save_row_own split: option.splits if_splits prod.splits)
qed (rule assms(2))

lemma reset_keys: "node_key (reset_row w n r) = node_key r"
  by (simp add: node_key_def reset_row_def)

lemma own_row: "own D i st s \<Longrightarrow> rx_rows s n = Some r \<Longrightarrow> node_key r = (i, n)"
  by (simp add: own_def rows_of_task_def)

lemma resets_own:
  "resetNodeRuntimeForRetry sv w ns s = (x, s') \<Longrightarrow> own D i st s \<Longrightarrow> own D i st s'"
  "resetNodeRuntimeForTargetedResume sv w ns s = (x, s') \<Longrightarrow> own D i st s \<Longrightarrow> own D i st s'"
  unfolding resetNodeRuntimeForRetry_def resetNodeRuntimeForTargetedResume_def
  by (erule each_keeps [rotated 2], auto split: option.splits if_splits intro: save_row_own simp: reset_keys own_row)+

lemma patch_row_cases:
  assumes "patch_row e p s = (x, s')"
  obtains "s' = s" | r out m where "rx_rows s (p_Node p) = Some r" "x = Some m" "s' = s\<lparr>rx_rows := (rx_rows s)(p_Node p \<mapsto> r\<lparr>Output := out\<rparr>)\<rparr>"
  | r out where "rx_rows s (p_Node p) = Some r" "save_row e (p_Node p) (r\<lparr>Output := out\<rparr>) s = (x, s')"
proof (cases "p_Target p \<noteq> PatchTargetNodeOutput \<or> rx_rows s (p_Node p) = None")
  case True
  with assms show thesis by (intro that(1)) (auto simp: patch_row_def split: if_splits)
next
  case False
  then obtain r where r: "rx_rows s (p_Node p) = Some r" "p_Target p = PatchTargetNodeOutput" by auto
  obtain z out where o: "applyPatchToMap (Some (case Output r of None \<Rightarrow> [] | Some m \<Rightarrow> m)) p = (z, out)" by force
  show thesis
  proof (cases z)
    case None
    with assms r o have "save_row e (p_Node p) (r\<lparr>Output := out\<rparr>) s = (x, s')" by (simp add: patch_row_def)
    with r(1) show thesis by (rule that(3))
  next
    case (Some m)
    with assms r o have "x = Some m" "s' = s\<lparr>rx_rows := (rx_rows s)(p_Node p \<mapsto> r\<lparr>Output := out\<rparr>)\<rparr>" by (auto simp: patch_row_def)
    with r(1) show thesis by (rule that(2))
  qed
qed

lemma patches_own: "applyPatchesToNodeRuntimes e ps s = (x, s') \<Longrightarrow> own D i st s \<Longrightarrow> own D i st s'"
  unfolding applyPatchesToNodeRuntimes_def
proof (erule each_keeps [rotated 2])
  fix p s x s'
  assume step: "patch_row e p s = (x, s')" and o: "own D i st s"
  have k: "node_key (r\<lparr>Output := out\<rparr>) = node_key r" for r :: node_row and out by (simp add: node_key_def)
  from step show "own D i st s'"
  proof (cases rule: patch_row_cases)
    case (2 r out m)
    with o own_row [OF o 2(1)] show ?thesis by (auto simp: own_def rows_of_task_def k)
  next
    case (3 r out)
    show ?thesis by (rule save_row_own [OF 3(2) o]) (simp add: k own_row [OF o 3(1)])
  qed (use o in simp)
qed

text \<open>Bindings, children, and the whole retry.\<close>

lemma binding_TaskID:
  assumes "changes_in D st st'" and "keys_ok st" and "b \<in> set (st_binds st)" and "r \<in> set (st_binds st')" and "ab_ID r = ab_ID b"
  shows "ab_TaskID r = ab_TaskID b"
proof -
  have "(ab_ID r, ab_TaskID r) \<in> set (zip (map ab_ID (st_binds st')) (map ab_TaskID (st_binds st')))"
    unfolding set_zip_maps using assms(4) by auto
  then have "(ab_ID b, ab_TaskID r) \<in> set (zip (map ab_ID (st_binds st)) (map ab_TaskID (st_binds st)))"
    using assms(5) by (simp only: changes_in_keys [OF assms(1)])
  then show ?thesis unfolding set_zip_maps using assms(2,3) by (auto simp: keys_ok_def distinct_map inj_on_def)
qed

lemma resetAwaitBindings_changes:
  assumes "resetAwaitBindingsForRetry e i ns st = (x, st')" and k: "keys_ok st"
  shows "changes_in {i} st st'"
proof (cases "ns = {} \<or> i = 0")
  case True
  with assms(1) show ?thesis by (auto simp: resetAwaitBindingsForRetry_def)
next
  case False
  with assms(1) have run: "each (\<lambda>b st1. if ab_NodeName b \<notin> ns \<or> isAwaitBindingTerminal (ab_Status b) then (None, st1)
      else bind_Update e (cancel_bind ''canceled by task retry'' (clock e (st_writes st)) b) st1) (bind_ListByTaskID i st) st = (x, st')"
    by (simp add: resetAwaitBindingsForRetry_def Let_def)
  show ?thesis
  proof (rule each_keeps [OF _ _ run])
    fix b st1 y st2
    assume b: "b \<in> set (bind_ListByTaskID i st)" and c: "changes_in {i} st st1"
      and step: "(if ab_NodeName b \<notin> ns \<or> isAwaitBindingTerminal (ab_Status b) then (None, st1)
        else bind_Update e (cancel_bind ''canceled by task retry'' (clock e (st_writes st)) b) st1) = (y, st2)"
    have bi: "b \<in> set (st_binds st)" "ab_TaskID b = i" using b by (auto simp: bind_ListByTaskID_def)
    let ?b = "cancel_bind ''canceled by task retry'' (clock e (st_writes st)) b"
    have same: "ab_ID ?b = ab_ID b" "ab_TaskID ?b = i" using bi by (simp_all add: cancel_bind_def)
    show "changes_in {i} st st2"
    proof (cases "ab_NodeName b \<notin> ns \<or> isAwaitBindingTerminal (ab_Status b)")
      case True
      with step c show ?thesis by auto
    next
      case False
      with step have "bind_Update e ?b st1 = (y, st2)" by simp
      from bind_Update_changes_in [OF this] have "changes_in {i} st1 st2"
        using binding_TaskID [OF c k bi(1)] same bi(2) by auto
      with c show ?thesis by (rule changes_in_trans)
    qed
  qed simp
qed

lemma cancelChildren_changes:
  assumes "cancelChildTasksForRetry e i ks trigger st = (x, st')" and k: "keys_ok st"
  shows "changes_in (kid_rel st `` {i}) st st'"
proof (cases "trigger = RetryTriggerRecovery")
  case True
  with assms(1) show ?thesis by (simp add: cancelChildTasksForRetry_def)
next
  case False
  let ?body = "\<lambda>t st. if is_protected ks t then (None, st)
      else (case Status t of TaskPending \<Rightarrow> task_Update e (retry_canceled t) st | TaskRunning \<Rightarrow> task_Update e (retry_canceled t) st
          | TaskSuspended \<Rightarrow> task_Update e (retry_canceled t) st | _ \<Rightarrow> (None, st))"
  from False assms(1) have run: "each ?body (ListChildrenByParentID i st) st = (x, st')" by (simp add: cancelChildTasksForRetry_def)
  show ?thesis
  proof (rule each_keeps [OF _ _ run])
    fix t st1 y st2
    assume t: "t \<in> set (ListChildrenByParentID i st)" and c: "changes_in (kid_rel st `` {i}) st st1" and step: "?body t st1 = (y, st2)"
    have kid: "task_id t \<in> kid_rel st `` {i}" using t children_listed(2) [of i st] by auto
    from step consider "st2 = st1" | "task_Update e (retry_canceled t) st1 = (y, st2)" by (cases "Status t") (auto split: if_splits)
    then show "changes_in (kid_rel st `` {i}) st st2"
    proof cases
      case 2
      have "same_parent st1 (retry_canceled t)" using same_parent_listed [OF k t] same_parent_changes_in [OF c, of "retry_canceled t"]
        by (simp add: same_parent_def retry_canceled_def cancel_task_def)
      from task_Update_changes_in [OF 2 this] kid have "changes_in (kid_rel st `` {i}) st1 st2"
        by (auto simp: retry_canceled_def intro: changes_in_mono)
      with c show ?thesis by (rule changes_in_trans)
    qed (use c in simp)
  qed simp
qed

lemma then_opt_keeps:
  assumes "then_opt r f = Some (x, s')" and "\<And>y s. r = Some (y, s) \<Longrightarrow> P s" and "\<And>s y s'. P s \<Longrightarrow> f s = Some (y, s') \<Longrightarrow> P s'"
  shows "P s'"
  using assms by (auto simp: then_opt_def split: option.splits)

lemma then_do_keeps:
  assumes "then_do r f = (x, s')" and "\<And>y s. r = (y, s) \<Longrightarrow> P s" and "\<And>s y s'. P s \<Longrightarrow> f s = (y, s') \<Longrightarrow> P s'"
  shows "P s'"
  using assms by (auto simp: then_do_def split: option.splits prod.splits)

lemma own_keys: "own D i st s \<Longrightarrow> keys_ok (rx_store s) = keys_ok st"
  by (auto simp: own_def dest: changes_in_keys(6))

lemma on_db_own:
  assumes "on_db f s = (x, s')" and "own D i st s" and "\<And>st' y. f (rx_store s) = (y, st') \<Longrightarrow> changes_in D (rx_store s) st'"
  shows "own D i st s'"
proof -
  obtain st1 where 1: "f (rx_store s) = (x, st1)" "s' = s\<lparr>rx_store := st1\<rparr>" using assms(1) by (auto simp: on_db_def split: prod.splits)
  with assms(2) assms(3) [OF 1(1)] show ?thesis by (auto simp: own_def rows_of_task_def intro: changes_in_trans)
qed

lemma bindings_own:
  assumes "on_db (resetAwaitBindingsForRetry e i ns) s = (x, s')" and o: "own D i st s" and "keys_ok st"
  shows "own D i st s'"
proof (rule on_db_own [OF assms(1,2)])
  fix st1 y assume "resetAwaitBindingsForRetry e i ns (rx_store s) = (y, st1)"
  from resetAwaitBindings_changes [OF this] show "changes_in D (rx_store s) st1"
    using o assms(3) by (auto simp: own_keys [OF o] intro: changes_in_mono) (auto simp: own_def intro: changes_in_mono)
qed

lemma node_resets_own:
  assumes "keys_ok st" and "own D i st s"
  shows "targeted_reset sv i w n ps s = (x, s') \<Longrightarrow> own D i st s'" "failed_reset sv i w rs s = (x, s') \<Longrightarrow> own D i st s'"
proof -
  assume "targeted_reset sv i w n ps s = (x, s')"
  then consider "s' = s" | ns where "then_do (applyPatchesToNodeRuntimes (rv_env sv) ps s) (\<lambda>s.
      then_do (resetNodeRuntimeForTargetedResume sv w ns s) (\<lambda>s. on_db (resetAwaitBindingsForRetry (rv_env sv) i ns) s)) = (x, s')"
    by (auto simp: targeted_reset_def Let_def split: if_splits list.splits)
  then show "own D i st s'"
  proof cases
    case (2 ns)
    then show ?thesis
    proof (rule then_do_keeps)
      fix s1 y s2
      assume o1: "own D i st s1" and "then_do (resetNodeRuntimeForTargetedResume sv w ns s1) (\<lambda>s. on_db (resetAwaitBindingsForRetry (rv_env sv) i ns) s) = (y, s2)"
      from this(2) show "own D i st s2"
        by (rule then_do_keeps) (use resets_own(2) o1 bindings_own assms(1) in blast)+
    qed (use patches_own assms(2) in blast)
  qed (use assms(2) in simp)
next
  assume "failed_reset sv i w rs s = (x, s')"
  then consider "s' = s" | ns where "then_do (resetNodeRuntimeForRetry sv w ns s) (\<lambda>s. on_db (resetAwaitBindingsForRetry (rv_env sv) i ns) s) = (x, s')"
    by (auto simp: failed_reset_def Let_def split: if_splits)
  then show "own D i st s'"
  proof cases
    case (2 ns)
    then show ?thesis by (rule then_do_keeps) (use resets_own(1) assms bindings_own in blast)+
  qed (use assms(2) in simp)
qed

lemma family_kid: "c \<in> kid_rel st `` {i} \<Longrightarrow> family c st \<subseteq> family i st" "kid_rel st `` {i} \<subseteq> family i st" "i \<in> family i st"
  by (auto simp: family_def intro: converse_rtrancl_into_rtrancl)

definition revive_child :: "env \<Rightarrow> (int \<Rightarrow> store \<Rightarrow> (go_error option \<times> store) option) \<Rightarrow> string set
    \<Rightarrow> task_row \<Rightarrow> store \<Rightarrow> (go_error option \<times> store) option" where
  "revive_child e retry ks t st =
     (if \<not> is_protected ks t then Some (None, st)
      else (case Status t of
          TaskFailed \<Rightarrow> then_opt (retry (task_id t) st) (\<lambda>st. Some (task_Enqueue e (task_id t) st))
        | TaskCanceled \<Rightarrow> then_opt (retry (task_id t) st) (\<lambda>st. Some (task_Enqueue e (task_id t) st))
        | TaskPending \<Rightarrow> Some (task_Enqueue e (task_id t) st)
        | _ \<Rightarrow> Some (None, st)))"

lemma revive_each: "reviveProtectedChildrenForRetry e retry i ks st =
    (if ks = {} then Some (None, st) else each_opt (revive_child e retry ks) (ListChildrenByParentID i st) st)"
  unfolding reviveProtectedChildrenForRetry_def revive_child_def [abs_def] by simp

lemma revive_child_keeps:
  assumes "revive_child e retry ks t st = Some (x, st')" and "P st"
    and "\<And>st1 y st2. P st1 \<Longrightarrow> retry (task_id t) st1 = Some (y, st2) \<Longrightarrow> P st2"
    and "\<And>st1 y st2. P st1 \<Longrightarrow> task_Enqueue e (task_id t) st1 = (y, st2) \<Longrightarrow> P st2"
  shows "P st'"
proof -
  have again: "P st'" if "then_opt (retry (task_id t) st) (\<lambda>st. Some (task_Enqueue e (task_id t) st)) = Some (x, st')"
    by (rule then_opt_keeps [where P = P, OF that]) (rule assms(3) [OF assms(2)], assumption, rule assms(4), assumption, simp)
  have "st' = st \<or> then_opt (retry (task_id t) st) (\<lambda>st. Some (task_Enqueue e (task_id t) st)) = Some (x, st')
      \<or> task_Enqueue e (task_id t) st = (x, st')"
    using assms(1) by (cases "Status t") (auto simp: revive_child_def split: if_splits)
  then show ?thesis using again assms(2) assms(4) [OF assms(2)] by blast
qed

lemma revive_changes:
  assumes "reviveProtectedChildrenForRetry e retry i ks st = Some (x, st')" and k: "keys_ok st"
    and retry: "\<And>c st1 y st2. c \<in> kid_rel st `` {i} \<Longrightarrow> keys_ok st1 \<Longrightarrow> retry c st1 = Some (y, st2) \<Longrightarrow> changes_in (family c st1) st1 st2"
  shows "changes_in (\<Union>c\<in>kid_rel st `` {i}. family c st) st st'"
proof (cases "ks = {}")
  case True
  with assms(1) show ?thesis by (simp add: revive_each)
next
  case False
  let ?D = "\<Union>c\<in>kid_rel st `` {i}. family c st"
  from False assms(1) have run: "each_opt (revive_child e retry ks) (ListChildrenByParentID i st) st = Some (x, st')" by (simp add: revive_each)
  show ?thesis
  proof (rule each_opt_keeps [OF _ _ run])
    fix t st1 y st2
    assume t: "t \<in> set (ListChildrenByParentID i st)" and step: "revive_child e retry ks t st1 = Some (y, st2)" and c1: "changes_in ?D st st1"
    have kid: "task_id t \<in> kid_rel st `` {i}" using t children_listed(2) [of i st] by auto
    show "changes_in ?D st st2"
    proof (rule revive_child_keeps [where P = "changes_in ?D st", OF step c1])
      fix st3 y st4
      assume c: "changes_in ?D st st3"
      {
        assume "retry (task_id t) st3 = Some (y, st4)"
        from retry [OF kid _ this] c k have "changes_in (family (task_id t) st3) st3 st4" by (simp add: changes_in_keys(6))
        then have "changes_in ?D st3 st4" by (rule changes_in_mono) (use kid changes_in_kids(2) [OF c] in auto)
        with c show "changes_in ?D st st4" by (rule changes_in_trans)
      }
      {
        assume "task_Enqueue e (task_id t) st3 = (y, st4)"
        from task_Enqueue_changes_in [OF this] c show "changes_in ?D st st4" by (blast intro: changes_in_trans)
      }
    qed
  qed simp
qed

lemma runtime_map_set: "runtime_map rs n = Some r \<Longrightarrow> r \<in> set rs \<and> Name r = n"
proof -
  have "fold (\<lambda>r m. m(Name r \<mapsto> r)) rs m n = Some r \<Longrightarrow> (r \<in> set rs \<and> Name r = n) \<or> m n = Some r" for m
    by (induction rs arbitrary: m) (simp, fastforce split: if_splits)
  then show "runtime_map rs n = Some r \<Longrightarrow> r \<in> set rs \<and> Name r = n" by (auto simp: runtime_map_def)
qed

text \<open>The start of a retry that passes the guards, and the steps that follow.\<close>

definition retry_start :: "int \<Rightarrow> store \<Rightarrow> retry_state" where
  "retry_start i st = \<lparr>rx_rows = runtime_map (node_FindByTaskID i st), rx_protected = {}, rx_store = st\<rparr>"

definition retry_steps :: "nat \<Rightarrow> retry_services \<Rightarrow> int \<Rightarrow> retry_trigger \<Rightarrow> name \<Rightarrow> runtime_patch list \<Rightarrow> task_row
    \<Rightarrow> compiled_workflow \<Rightarrow> store \<Rightarrow> (go_error option \<times> retry_state) option" where
  "retry_steps fuel sv i trigger n ps t w st =
     then_opt (Some (repairCompositeNodeCheckpointForRetry sv i w (retry_start i st))) (\<lambda>s.
     then_opt (Some (on_db (cancelChildTasksForRetry (rv_env sv) i (rx_protected s) trigger) s)) (\<lambda>s.
     then_opt (map_option (\<lambda>(x, st). (x, s\<lparr>rx_store := st\<rparr>))
        (reviveProtectedChildrenForRetry (rv_env sv) (\<lambda>c. PrepareTaskRetry fuel sv c trigger [] []) i (rx_protected s) (rx_store s))) (\<lambda>s.
     then_opt (Some (if TrimSpace n \<noteq> [] then targeted_reset sv i w n ps s else failed_reset sv i w (node_FindByTaskID i st) s)) (\<lambda>s.
     Some (on_db (task_Update (rv_env sv) (retried_task trigger t)) s)))))"

lemma PrepareTaskRetry_cases:
  assumes "PrepareTaskRetry (Suc fuel) sv i trigger n ps st = Some (x, st')"
  obtains (refused) m where "x = Some m" "st' = st"
  | (steps) t w s where "GetByID i st = Inr t" "retryable (Status t)" "trigger = RetryTriggerManual \<or> RetryCount t < MaxAutoRetryCount"
      "load_workflow sv (WorkflowVersionID t) = Inr w" "retry_steps fuel sv i trigger n ps t w st = Some (x, s)" "st' = rx_store s"
proof -
  let ?r = "retry_steps fuel sv i trigger n ps"
  have eq: "PrepareTaskRetry (Suc fuel) sv i trigger n ps st =
     (case GetByID i st of
        Inl m \<Rightarrow> Some (Some m, st)
      | Inr t \<Rightarrow>
         if \<not> retryable (Status t) then Some (Some (''task is not retryable, current status='' @ task_status_str (Status t)), st)
         else if trigger = RetryTriggerRecovery \<and> MaxAutoRetryCount \<le> RetryCount t then Some (Some (retry_exhausted t), st)
         else case load_workflow sv (WorkflowVersionID t) of
             Inl m \<Rightarrow> Some (Some m, st)
           | Inr w \<Rightarrow> map_option (\<lambda>(x, s). (x, rx_store s)) (?r t w st))"
    by (simp only: PrepareTaskRetry.simps retry_steps_def retry_start_def Let_def)
  show thesis
  proof (cases "GetByID i st")
    case (Inl m)
    with assms eq refused show thesis by auto
  next
    case (Inr t)
    show thesis
    proof (cases "retryable (Status t) \<and> \<not> (trigger = RetryTriggerRecovery \<and> MaxAutoRetryCount \<le> RetryCount t)")
      case False
      with assms eq Inr refused show thesis by (auto split: if_splits)
    next
      case True
      show thesis
      proof (cases "load_workflow sv (WorkflowVersionID t)")
        case (Inl m)
        with assms eq Inr True refused show thesis by auto
      next
        case w: (Inr w)
        with assms eq Inr True obtain s where "?r t w st = Some (x, s)" "st' = rx_store s" by auto
        with Inr True w show thesis by (intro steps [of t w s]) (auto, cases trigger, auto)
      qed
    qed
  qed
qed

lemma own_kids: "own D i st s \<Longrightarrow> kid_rel (rx_store s) = kid_rel st" "own D i st s \<Longrightarrow> family j (rx_store s) = family j st"
  by (auto simp: own_def dest: changes_in_kids)

lemma start_own: "keys_ok st \<Longrightarrow> own (family i st) i st (retry_start i st)"
  by (auto simp: own_def rows_of_task_def retry_start_def family_kid node_key_def node_FindByTaskID_def dest!: runtime_map_set)

lemma retried_update_own:
  assumes "on_db (task_Update e (retried_task trigger t)) s = (x, s')" and o: "own D i st s" and k: "keys_ok st" and t: "GetByID i st = Inr t"
  shows "own D i st s'"
proof (rule on_db_own [OF assms(1,2)])
  fix st1 y
  assume u: "task_Update e (retried_task trigger t) (rx_store s) = (y, st1)"
  have p: "same_parent st (retried_task trigger t)" "task_id (retried_task trigger t) = i"
    using same_parent_loaded [OF k t] by (simp_all add: same_parent_def retried_task_def)
  with o have "same_parent (rx_store s) (retried_task trigger t)" by (auto simp: own_def same_parent_changes_in)
  from task_Update_changes_in [OF u this] p(2) o show "changes_in D (rx_store s) st1" by (auto simp: own_def intro: changes_in_mono)
qed

lemma retry_steps_own:
  assumes run: "retry_steps fuel sv i trigger n ps t w st = Some (x, s')" and k: "keys_ok st" and t: "GetByID i st = Inr t"
    and IH: "\<And>c st1 y st2. keys_ok st1 \<Longrightarrow> PrepareTaskRetry fuel sv c trigger [] [] st1 = Some (y, st2) \<Longrightarrow> changes_in (family c st1) st1 st2"
  shows "own (family i st) i st s'"
  using run unfolding retry_steps_def
proof (rule then_opt_keeps)
  let ?D = "family i st"
  fix y s assume "Some (repairCompositeNodeCheckpointForRetry sv i w (retry_start i st)) = Some (y, s)"
  then show "own ?D i st s" using repair_own start_own [OF k] by (metis option.inject)
next
  let ?D = "family i st"
  fix s y s'
  assume o: "own ?D i st s"
    and "then_opt (Some (on_db (cancelChildTasksForRetry (rv_env sv) i (rx_protected s) trigger) s)) (\<lambda>s.
     then_opt (map_option (\<lambda>(x, st). (x, s\<lparr>rx_store := st\<rparr>))
        (reviveProtectedChildrenForRetry (rv_env sv) (\<lambda>c. PrepareTaskRetry fuel sv c trigger [] []) i (rx_protected s) (rx_store s))) (\<lambda>s.
     then_opt (Some (if TrimSpace n \<noteq> [] then targeted_reset sv i w n ps s else failed_reset sv i w (node_FindByTaskID i st) s)) (\<lambda>s.
     Some (on_db (task_Update (rv_env sv) (retried_task trigger t)) s)))) = Some (y, s')"
  from this(2) show "own ?D i st s'"
  proof (rule then_opt_keeps)
    fix y1 s1 assume "Some (on_db (cancelChildTasksForRetry (rv_env sv) i (rx_protected s) trigger) s) = Some (y1, s1)"
    then have c: "on_db (cancelChildTasksForRetry (rv_env sv) i (rx_protected s) trigger) s = (y1, s1)" by simp
    show "own ?D i st s1"
    proof (rule on_db_own [OF c o])
      fix st1 y assume "cancelChildTasksForRetry (rv_env sv) i (rx_protected s) trigger (rx_store s) = (y, st1)"
      from cancelChildren_changes [OF this] k o have "changes_in (kid_rel (rx_store s) `` {i}) (rx_store s) st1" by (simp add: own_keys [OF o])
      then show "changes_in ?D (rx_store s) st1"
        by (rule changes_in_mono) (use family_kid(2) [of st i] in \<open>simp add: own_kids [OF o]\<close>)
    qed
  next
    fix s y s'
    assume o: "own ?D i st s"
      and "then_opt (map_option (\<lambda>(x, st). (x, s\<lparr>rx_store := st\<rparr>))
        (reviveProtectedChildrenForRetry (rv_env sv) (\<lambda>c. PrepareTaskRetry fuel sv c trigger [] []) i (rx_protected s) (rx_store s))) (\<lambda>s.
     then_opt (Some (if TrimSpace n \<noteq> [] then targeted_reset sv i w n ps s else failed_reset sv i w (node_FindByTaskID i st) s)) (\<lambda>s.
     Some (on_db (task_Update (rv_env sv) (retried_task trigger t)) s))) = Some (y, s')"
    from this(2) show "own ?D i st s'"
    proof (rule then_opt_keeps)
      fix y1 s1
      assume "map_option (\<lambda>(x, st). (x, s\<lparr>rx_store := st\<rparr>)) (reviveProtectedChildrenForRetry (rv_env sv)
          (\<lambda>c. PrepareTaskRetry fuel sv c trigger [] []) i (rx_protected s) (rx_store s)) = Some (y1, s1)"
      then obtain st1 where r: "reviveProtectedChildrenForRetry (rv_env sv) (\<lambda>c. PrepareTaskRetry fuel sv c trigger [] []) i (rx_protected s) (rx_store s) = Some (y1, st1)"
        and s1: "s1 = s\<lparr>rx_store := st1\<rparr>" by auto
      from revive_changes [OF r] IH o k have c: "changes_in (\<Union>c\<in>kid_rel (rx_store s) `` {i}. family c (rx_store s)) (rx_store s) st1"
        by (simp add: own_keys [OF o])
      have "changes_in ?D (rx_store s) st1"
        by (rule changes_in_mono [OF c]) (use family_kid(1) [of _ st i] in \<open>auto simp: own_kids [OF o]\<close>)
      with o s1 show "own ?D i st s1" by (auto simp: own_def rows_of_task_def intro: changes_in_trans)
    next
      fix s y s'
      assume o: "own ?D i st s"
        and "then_opt (Some (if TrimSpace n \<noteq> [] then targeted_reset sv i w n ps s else failed_reset sv i w (node_FindByTaskID i st) s)) (\<lambda>s.
          Some (on_db (task_Update (rv_env sv) (retried_task trigger t)) s)) = Some (y, s')"
      from this(2) show "own ?D i st s'"
        by (rule then_opt_keeps) (use node_resets_own [OF k o] retried_update_own [OF _ _ k t] in \<open>auto split: if_splits\<close>)
    qed
  qed
qed

lemma PrepareTaskRetry_changes:
  "keys_ok st \<Longrightarrow> PrepareTaskRetry fuel sv i trigger n ps st = Some (x, st') \<Longrightarrow> changes_in (family i st) st st'"
proof (induction fuel arbitrary: i n ps st x st')
  case (Suc fuel)
  from Suc.prems(2) show ?case
  proof (cases rule: PrepareTaskRetry_cases)
    case (steps t w s)
    have "own (family i st) i st s" by (rule retry_steps_own [OF steps(5) Suc.prems(1) steps(1)]) (rule Suc.IH)
    with steps(6) show ?thesis by (simp add: own_def)
  qed simp
qed simp

subsection \<open>Termination\<close>

lemma family_finite: "finite (family i st)"
proof -
  have "family i st \<subseteq> insert i (task_ids st)"
  proof
    fix j assume "j \<in> family i st"
    then have "(i, j) \<in> (kid_rel st)\<^sup>*" by (simp add: family_def)
    then show "j \<in> insert i (task_ids st)" by (cases rule: rtranclE) (auto simp: kid_rel_def task_ids_def)
  qed
  then show ?thesis by (rule finite_subset) (simp add: task_ids_def)
qed

lemma family_shrinks:
  assumes "acyclic (kid_rel st)" and "c \<in> kid_rel st `` {i}"
  shows "i \<notin> family c st" "card (family c st) < card (family i st)"
proof -
  show i: "i \<notin> family c st" using assms by (auto simp: family_def acyclic_def dest: rtrancl_into_trancl2)
  have "family c st \<subset> family i st" using family_kid(1) [OF assms(2)] family_kid(3) [of i st] i by auto
  then show "card (family c st) < card (family i st)" by (rule psubset_card_mono [OF family_finite])
qed

lemma revive_fuel:
  assumes "keys_ok st" and "\<And>c st1. c \<in> kid_rel st `` {i} \<Longrightarrow> keys_ok st1 \<Longrightarrow> kid_rel st1 = kid_rel st \<Longrightarrow> retry c st1 \<noteq> None"
    and "\<And>c st1 y st2. keys_ok st1 \<Longrightarrow> retry c st1 = Some (y, st2) \<Longrightarrow> keys_ok st2 \<and> kid_rel st2 = kid_rel st1"
  shows "reviveProtectedChildrenForRetry e retry i ks st \<noteq> None"
proof -
  let ?P = "\<lambda>st1. keys_ok st1 \<and> kid_rel st1 = kid_rel st"
  have q: "?P st2" if "?P st1" "task_Enqueue e k st1 = (y, st2)" for k st1 y st2
    using task_Enqueue_changes_in [OF that(2)] that(1) changes_in_keys(6) changes_in_kids(1) by metis
  have "each_opt (revive_child e retry ks) (ListChildrenByParentID i st) st \<noteq> None"
  proof (rule each_opt_fuel [where P = ?P])
    fix t st1 assume t: "t \<in> set (ListChildrenByParentID i st)" and P: "?P st1"
    have "task_id t \<in> kid_rel st `` {i}" using t children_listed(2) [of i st] by auto
    with assms(2) P have r: "retry (task_id t) st1 \<noteq> None" by blast
    then have "then_opt (retry (task_id t) st1) (\<lambda>st. Some (task_Enqueue e (task_id t) st)) \<noteq> None"
      by (simp add: then_opt_fuel del: not_None_eq)
    then show "revive_child e retry ks t st1 \<noteq> None"
      by (cases "Status t") (simp_all add: revive_child_def del: not_None_eq)
    show "revive_child e retry ks t st1 = Some (None, st2) \<Longrightarrow> ?P st2" for st2
      by (erule revive_child_keeps [where P = ?P]) (use P q assms(3) in metis)+
  qed (use assms(1) in simp)
  then show ?thesis by (simp add: revive_each del: not_None_eq)
qed

lemma PrepareTaskRetry_fuel:
  assumes "keys_ok st" and "acyclic (kid_rel st)" and "card (family i st) \<le> fuel"
  shows "PrepareTaskRetry fuel sv i trigger n ps st \<noteq> None"
  using assms
proof (induction fuel arbitrary: i n ps st)
  case 0
  then show ?case using family_finite [of i st] family_kid(3) [of i st] by auto
next
  case (Suc fuel)
  let ?retry = "\<lambda>c. PrepareTaskRetry fuel sv c trigger [] []"
  have steps: "retry_steps fuel sv i trigger n ps t w st \<noteq> None" if t: "GetByID i st = Inr t" for t w
  proof -
    have rev: "reviveProtectedChildrenForRetry e ?retry i ks (rx_store s) \<noteq> None" if o: "own (family i st) i st s" for e ks s
    proof (rule revive_fuel)
      show "keys_ok (rx_store s)" using own_keys [OF o] Suc.prems(1) by simp
      fix c st1
      assume c: "c \<in> kid_rel (rx_store s) `` {i}" and k: "keys_ok st1" and r: "kid_rel st1 = kid_rel (rx_store s)"
      have kid: "kid_rel st1 = kid_rel st" using r own_kids(1) [OF o] by simp
      then have "family c st1 = family c st" "family i st1 = family i st" by (simp_all add: family_def)
      with family_shrinks(2) [of st c i] c own_kids(1) [OF o] Suc.prems(2,3) have "card (family c st1) \<le> fuel" by simp
      then show "?retry c st1 \<noteq> None" by (rule Suc.IH [OF k, rotated]) (use kid Suc.prems(2) in simp)
    next
      fix c st1 y st2 assume "keys_ok st1" "?retry c st1 = Some (y, st2)"
      from PrepareTaskRetry_changes [OF this] \<open>keys_ok st1\<close> show "keys_ok st2 \<and> kid_rel st2 = kid_rel st1"
        by (simp add: changes_in_keys(6) changes_in_kids(1))
    qed
    have o1: "own (family i st) i st s1" if "repairCompositeNodeCheckpointForRetry sv i w (retry_start i st) = (x, s1)" for x s1
      using repair_own [OF that start_own [OF Suc.prems(1)]] .
    have o2: "own (family i st) i st s2" if o: "own (family i st) i st s1"
      and c: "on_db (cancelChildTasksForRetry e i ks trigger) s1 = (x, s2)" for e ks s1 x s2
    proof (rule on_db_own [OF c o])
      fix st1 y assume "cancelChildTasksForRetry e i ks trigger (rx_store s1) = (y, st1)"
      from cancelChildren_changes [OF this] Suc.prems(1) have "changes_in (kid_rel (rx_store s1) `` {i}) (rx_store s1) st1" by (simp add: own_keys [OF o])
      then show "changes_in (family i st) (rx_store s1) st1"
        by (rule changes_in_mono) (use family_kid(2) [of st i] in \<open>simp add: own_kids [OF o]\<close>)
    qed
    obtain x1 s1 where r1: "repairCompositeNodeCheckpointForRetry sv i w (retry_start i st) = (x1, s1)" by force
    obtain x2 s2 where r2: "on_db (cancelChildTasksForRetry (rv_env sv) i (rx_protected s1) trigger) s1 = (x2, s2)" by force
    obtain x3 st3 where r3: "reviveProtectedChildrenForRetry (rv_env sv) ?retry i (rx_protected s2) (rx_store s2) = Some (x3, st3)"
      using rev [OF o2 [OF o1 [OF r1] r2], of "rv_env sv" "rx_protected s2"] by auto
    show ?thesis unfolding retry_steps_def
      by (cases x1; cases x2; cases x3) (simp_all add: then_opt_fuel r1 r2 r3 then_opt_def split: option.split prod.split)
  qed
  then show ?case by (auto simp: PrepareTaskRetry.simps(2) retry_steps_def retry_start_def Let_def simp del: not_None_eq split: sum.split)
qed

subsection \<open>Invariants of the database under a retry\<close>

text \<open>
  A property of the database that every kind of write of the service keeps is kept by a whole
  retry, on every path and whatever fails. \<open>mine\<close> is what may be relied on for a task row that the
  service has read in order to change it.
\<close>

locale retry_write_invariant =
  fixes e :: env and P :: "store \<Rightarrow> bool" and mine :: "task_row \<Rightarrow> bool"
  assumes node_keeps: "P st \<Longrightarrow> node_Update e n st = (x, st') \<Longrightarrow> P st'"
    and bind_keeps: "P st \<Longrightarrow> bind_Update e b st = (x, st') \<Longrightarrow> P st'"
    and queue_keeps: "P st \<Longrightarrow> task_Enqueue e k st = (x, st') \<Longrightarrow> P st'"
    and loads: "P st \<Longrightarrow> GetByID i st = Inr t \<Longrightarrow> retryable (Status t) \<Longrightarrow> mine t"
    and lists: "P st \<Longrightarrow> t \<in> set (ListChildrenByParentID i st) \<Longrightarrow> active_status (Status t) \<Longrightarrow> mine t"
    and cancel_keeps: "P st \<Longrightarrow> mine t \<Longrightarrow> task_Update e (retry_canceled t) st = (x, st') \<Longrightarrow> P st'"
    and retried_keeps: "P st \<Longrightarrow> mine t \<Longrightarrow> trigger = RetryTriggerManual \<or> RetryCount t < MaxAutoRetryCount \<Longrightarrow>
      task_Update e (retried_task trigger t) st = (x, st') \<Longrightarrow> P st'"
begin

lemma save_row_keeps: "P (rx_store s) \<Longrightarrow> save_row e n r s = (x, s') \<Longrightarrow> P (rx_store s')"
  by (auto simp: save_row_def on_db_def node_keeps split: prod.splits)

lemma on_db_keeps: "on_db f s = (x, s') \<Longrightarrow> (\<And>y st'. f (rx_store s) = (y, st') \<Longrightarrow> P st') \<Longrightarrow> P (rx_store s')"
  by (auto simp: on_db_def split: prod.splits)

lemma protect_keeps [simp]: "rx_store (protect ks s) = rx_store s"
  by (simp add: protect_def)

lemma repair_keeps:
  assumes "rv_env sv = e" and "P (rx_store s)" and "repairCompositeNodeCheckpointForRetry sv i w s = (x, s')"
  shows "P (rx_store s')"
  using assms(3) unfolding repairCompositeNodeCheckpointForRetry_def assms(1)
proof (rule each_keeps [where P = "\<lambda>s. P (rx_store s)", rotated 2])
  fix n s x s'
  assume r: "repair_row e i w n s = (x, s')" and p: "P (rx_store s)"
  have "s' = s \<or> (\<exists>ks. s' = protect ks s) \<or> (\<exists>ks r. save_row e n r (protect ks s) = (x, s'))"
    using r by (auto simp: repair_row_def split: option.splits if_splits prod.splits)
  then show "P (rx_store s')" using p save_row_keeps [of "protect _ s" n _ x s'] by auto
qed (rule assms(2))

lemma resets_keep:
  assumes "rv_env sv = e" and "P (rx_store s)"
  shows "resetNodeRuntimeForRetry sv w ns s = (x, s') \<Longrightarrow> P (rx_store s')"
    and "resetNodeRuntimeForTargetedResume sv w ns s = (x, s') \<Longrightarrow> P (rx_store s')"
  unfolding resetNodeRuntimeForRetry_def resetNodeRuntimeForTargetedResume_def assms(1)
  by (erule each_keeps [where P = "\<lambda>s. P (rx_store s)", rotated 2], auto split: option.splits if_splits intro: save_row_keeps assms(2))+

lemma patches_keep:
  assumes "P (rx_store s)" and "applyPatchesToNodeRuntimes e ps s = (x, s')"
  shows "P (rx_store s')"
  using assms(2) unfolding applyPatchesToNodeRuntimes_def
  by (rule each_keeps [where P = "\<lambda>s. P (rx_store s)", rotated 2])
    (erule patch_row_cases, auto intro: save_row_keeps assms(1))

lemma bindings_keep: "P st \<Longrightarrow> resetAwaitBindingsForRetry e i ns st = (x, st') \<Longrightarrow> P st'"
  unfolding resetAwaitBindingsForRetry_def Let_def
  by (auto split: if_splits elim!: each_keeps [where P = P, rotated 2] intro: bind_keeps)

lemma cancel_children_keep:
  assumes "P st" and "cancelChildTasksForRetry e i ks trigger st = (x, st')"
  shows "P st'"
proof (cases "trigger = RetryTriggerRecovery")
  case True
  with assms show ?thesis by (simp add: cancelChildTasksForRetry_def)
next
  case False
  with assms(2) show ?thesis unfolding cancelChildTasksForRetry_def if_not_P [OF False]
  proof (elim each_keeps [where P = P, rotated 2])
    fix t st1 y st2
    assume t: "t \<in> set (ListChildrenByParentID i st)" and p: "P st1"
      and step: "(if is_protected ks t then (None, st1) else (case Status t of TaskPending \<Rightarrow> task_Update e (retry_canceled t) st1
          | TaskRunning \<Rightarrow> task_Update e (retry_canceled t) st1 | TaskSuspended \<Rightarrow> task_Update e (retry_canceled t) st1 | _ \<Rightarrow> (None, st1))) = (y, st2)"
    have "st2 = st1 \<or> (active_status (Status t) \<and> task_Update e (retry_canceled t) st1 = (y, st2))"
      using step by (cases "Status t") (auto simp: active_status_def split: if_splits)
    then show "P st2" using p cancel_keeps lists [OF assms(1) t] by blast
  qed (rule assms(1))
qed

lemma node_resets_keep:
  assumes e: "rv_env sv = e" and p: "P (rx_store s)"
  shows "targeted_reset sv i w n ps s = (x, s') \<Longrightarrow> P (rx_store s')" "failed_reset sv i w rs s = (x, s') \<Longrightarrow> P (rx_store s')"
proof -
  have b: "P (rx_store s2)" if "P (rx_store s1)" "on_db (resetAwaitBindingsForRetry e i ns) s1 = (y, s2)" for s1 s2 y ns
    using that(2) by (rule on_db_keeps) (rule bindings_keep [OF that(1)])
  assume "targeted_reset sv i w n ps s = (x, s')"
  then consider "s' = s" | ns where "then_do (applyPatchesToNodeRuntimes e ps s) (\<lambda>s.
      then_do (resetNodeRuntimeForTargetedResume sv w ns s) (\<lambda>s. on_db (resetAwaitBindingsForRetry e i ns) s)) = (x, s')"
    by (auto simp: targeted_reset_def Let_def e split: if_splits list.splits)
  then show "P (rx_store s')"
  proof cases
    case (2 ns)
    then show ?thesis
    proof (rule then_do_keeps [where P = "\<lambda>s. P (rx_store s)"])
      fix s1 y s2
      assume p1: "P (rx_store s1)" and "then_do (resetNodeRuntimeForTargetedResume sv w ns s1) (\<lambda>s. on_db (resetAwaitBindingsForRetry e i ns) s) = (y, s2)"
      from this(2) show "P (rx_store s2)"
        by (rule then_do_keeps [where P = "\<lambda>s. P (rx_store s)"]) (use resets_keep(2) [OF e p1] b in auto)
    qed (use patches_keep [OF p] in auto)
  qed (use p in simp)
next
  have b: "P (rx_store s2)" if "P (rx_store s1)" "on_db (resetAwaitBindingsForRetry e i ns) s1 = (y, s2)" for s1 s2 y ns
    using that(2) by (rule on_db_keeps) (rule bindings_keep [OF that(1)])
  assume "failed_reset sv i w rs s = (x, s')"
  then consider "s' = s" | ns where "then_do (resetNodeRuntimeForRetry sv w ns s) (\<lambda>s. on_db (resetAwaitBindingsForRetry e i ns) s) = (x, s')"
    by (auto simp: failed_reset_def Let_def e split: if_splits)
  then show "P (rx_store s')"
  proof cases
    case (2 ns)
    then show ?thesis by (rule then_do_keeps [where P = "\<lambda>s. P (rx_store s)"]) (use resets_keep(1) [OF e p] b in auto)
  qed (use p in simp)
qed

lemma revive_keeps:
  assumes "P st" and "reviveProtectedChildrenForRetry e retry i ks st = Some (x, st')"
    and "\<And>c st1 y st2. P st1 \<Longrightarrow> retry c st1 = Some (y, st2) \<Longrightarrow> P st2"
  shows "P st'"
proof (cases "ks = {}")
  case True
  with assms(1,2) show ?thesis by (simp add: revive_each)
next
  case False
  with assms(2) have "each_opt (revive_child e retry ks) (ListChildrenByParentID i st) st = Some (x, st')" by (simp add: revive_each)
  then show ?thesis
    by (rule each_opt_keeps [where P = P, rotated 2]) (erule revive_child_keeps [where P = P], assumption, erule (1) assms(3), erule (1) queue_keeps, rule assms(1))
qed

lemma retry_steps_keep:
  assumes e: "rv_env sv = e" and p: "P st" and t: "mine t" "trigger = RetryTriggerManual \<or> RetryCount t < MaxAutoRetryCount"
    and run: "retry_steps fuel sv i trigger n ps t w st = Some (x, s')"
    and IH: "\<And>c st1 y st2. P st1 \<Longrightarrow> PrepareTaskRetry fuel sv c trigger [] [] st1 = Some (y, st2) \<Longrightarrow> P st2"
  shows "P (rx_store s')"
proof -
  let ?P = "\<lambda>s. P (rx_store s)"
  have last: "?P s2" if "?P s1" "Some (on_db (task_Update e (retried_task trigger t)) s1) = Some (y, s2)" for s1 y s2
    using that by (auto elim!: on_db_keeps intro: retried_keeps [OF _ t])
  have resets: "?P s2" if q: "?P s1" and r: "then_opt (Some (if TrimSpace n \<noteq> [] then targeted_reset sv i w n ps s1
      else failed_reset sv i w (node_FindByTaskID i st) s1)) (\<lambda>s. Some (on_db (task_Update e (retried_task trigger t)) s)) = Some (y, s2)" for s1 y s2
    using r by (rule then_opt_keeps [where P = ?P]) (use node_resets_keep [OF e q] last in \<open>auto split: if_splits\<close>)
  have kids: "?P s2" if q: "?P s1" and r: "then_opt (map_option (\<lambda>(x, st). (x, s1\<lparr>rx_store := st\<rparr>))
        (reviveProtectedChildrenForRetry e (\<lambda>c. PrepareTaskRetry fuel sv c trigger [] []) i (rx_protected s1) (rx_store s1))) (\<lambda>s.
      then_opt (Some (if TrimSpace n \<noteq> [] then targeted_reset sv i w n ps s else failed_reset sv i w (node_FindByTaskID i st) s)) (\<lambda>s.
      Some (on_db (task_Update e (retried_task trigger t)) s))) = Some (y, s2)" for s1 y s2
    using r by (rule then_opt_keeps [where P = ?P]) (use revive_keeps [OF q _ IH] resets in auto)
  have cancel: "?P s2" if "?P s1" "on_db (cancelChildTasksForRetry e i ks trigger) s1 = (y, s2)" for ks s1 y s2
    using that(2) by (rule on_db_keeps) (rule cancel_children_keep [OF that(1)])
  have cancels: "?P s2" if q: "?P s1" and r: "then_opt (Some (on_db (cancelChildTasksForRetry e i (rx_protected s1) trigger) s1)) (\<lambda>s.
      then_opt (map_option (\<lambda>(x, st). (x, s\<lparr>rx_store := st\<rparr>))
        (reviveProtectedChildrenForRetry e (\<lambda>c. PrepareTaskRetry fuel sv c trigger [] []) i (rx_protected s) (rx_store s))) (\<lambda>s.
      then_opt (Some (if TrimSpace n \<noteq> [] then targeted_reset sv i w n ps s else failed_reset sv i w (node_FindByTaskID i st) s)) (\<lambda>s.
      Some (on_db (task_Update e (retried_task trigger t)) s)))) = Some (y, s2)" for s1 y s2
    using r by (rule then_opt_keeps [where P = ?P]) (drule option.inject [THEN iffD1], erule cancel [OF q], erule (1) kids)
  show ?thesis using run unfolding retry_steps_def e
    by (rule then_opt_keeps [where P = ?P])
      (drule option.inject [THEN iffD1], erule repair_keeps [OF e, rotated], simp add: retry_start_def p, erule (1) cancels)
qed

lemma PrepareTaskRetry_keeps:
  assumes "rv_env sv = e"
  shows "P st \<Longrightarrow> PrepareTaskRetry fuel sv i trigger n ps st = Some (x, st') \<Longrightarrow> P st'"
proof (induction fuel arbitrary: i n ps st x st')
  case (Suc fuel)
  from Suc.prems(2) show ?case
  proof (cases rule: PrepareTaskRetry_cases)
    case (steps t w s)
    from retry_steps_keep [OF assms Suc.prems(1) loads [OF Suc.prems(1) steps(1,2)] steps(3,5) Suc.IH] steps(6) show ?thesis by simp
  qed (use Suc.prems(1) in simp)
qed simp

end

text \<open>Automatic retries are counted and bounded; a manual retry starts the count again.\<close>

definition counts_ok :: "store \<Rightarrow> bool" where
  "counts_ok st \<longleftrightarrow> (\<forall>t\<in>set (st_tasks st). 0 \<le> RetryCount t \<and> RetryCount t \<le> MaxAutoRetryCount)"

lemma db_write_keeps:
  assumes "db_write e f st = (x, st')" and "P st" and "\<And>k. P (st\<lparr>st_writes := k\<rparr>) = P st" and "\<And>st. P st \<Longrightarrow> P (f st)"
  shows "P st'"
  using assms by (auto simp: db_write_def split: option.splits)

lemma table_update_elem: "r \<in> set (table_update key put n rs) \<Longrightarrow> r \<in> set rs \<or> (\<exists>r0\<in>set rs. key r0 = key n \<and> r = put n r0)"
  by (auto simp: table_update_def split: if_splits)

interpretation counts: retry_write_invariant e counts_ok "\<lambda>t. 0 \<le> RetryCount t \<and> RetryCount t \<le> MaxAutoRetryCount" for e
proof (unfold_locales)
  fix st st' x
  have upd: "counts_ok st'" if "counts_ok st" "task_Update e t st = (x, st')" "0 \<le> RetryCount t" "RetryCount t \<le> MaxAutoRetryCount" for t
    using that(2) unfolding task_Update_def
    by (rule db_write_keeps) (use that in \<open>auto simp: counts_ok_def task_put_def dest!: table_update_elem\<close>)
  assume p: "counts_ok st"
  show "node_Update e n st = (x, st') \<Longrightarrow> counts_ok st'" for n
    unfolding node_Update_def by (erule db_write_keeps) (use p in \<open>auto simp: counts_ok_def\<close>)
  show "bind_Update e b st = (x, st') \<Longrightarrow> counts_ok st'" for b
    unfolding bind_Update_def by (erule db_write_keeps) (use p in \<open>auto simp: counts_ok_def\<close>)
  show "task_Enqueue e k st = (x, st') \<Longrightarrow> counts_ok st'" for k
    unfolding task_Enqueue_def by (erule db_write_keeps) (use p in \<open>auto simp: counts_ok_def\<close>)
  show "GetByID i st = Inr t \<Longrightarrow> retryable (Status t) \<Longrightarrow> 0 \<le> RetryCount t \<and> RetryCount t \<le> MaxAutoRetryCount" for i t
    using p by (auto dest!: GetByID_Inr simp: loaded_def counts_ok_def)
  show "t \<in> set (ListChildrenByParentID i st) \<Longrightarrow> active_status (Status t) \<Longrightarrow> 0 \<le> RetryCount t \<and> RetryCount t \<le> MaxAutoRetryCount" for i t
    using p by (auto simp: ListChildrenByParentID_def listed_def counts_ok_def)
  show "0 \<le> RetryCount t \<and> RetryCount t \<le> MaxAutoRetryCount \<Longrightarrow> task_Update e (retry_canceled t) st = (x, st') \<Longrightarrow> counts_ok st'" for t
    using upd [OF p, of "retry_canceled t"] by (simp add: retry_canceled_def cancel_task_def)
  show "0 \<le> RetryCount t \<and> RetryCount t \<le> MaxAutoRetryCount \<Longrightarrow> trigger = RetryTriggerManual \<or> RetryCount t < MaxAutoRetryCount \<Longrightarrow>
      task_Update e (retried_task trigger t) st = (x, st') \<Longrightarrow> counts_ok st'" for t trigger
    using upd [OF p, of "retried_task trigger t"] by (auto simp: retried_task_def MaxAutoRetryCount_def split: if_splits)
qed

text \<open>Rows of successful tasks are not written.\<close>

definition finished_kept :: "store \<Rightarrow> store \<Rightarrow> bool" where
  "finished_kept st0 st \<longleftrightarrow> distinct (map task_id (st_tasks st))
     \<and> (\<forall>r\<in>set (st_tasks st0). Status r = TaskSuccess \<longrightarrow> r \<in> set (st_tasks st))"

definition not_finished :: "store \<Rightarrow> task_row \<Rightarrow> bool" where
  "not_finished st0 t \<longleftrightarrow> (\<forall>r\<in>set (st_tasks st0). Status r = TaskSuccess \<longrightarrow> task_id r \<noteq> task_id t)"

interpretation finished: retry_write_invariant e "finished_kept st0" "not_finished st0" for e st0
proof (unfold_locales)
  fix st st' x
  have upd: "finished_kept st0 st'" if "finished_kept st0 st" "task_Update e t st = (x, st')" "not_finished st0 t" for t
    using that(2) unfolding task_Update_def
    by (rule db_write_keeps)
      (use that in \<open>auto simp: finished_kept_def not_finished_def task_table.update_keys, auto simp: table_update_def image_iff\<close>)
  have row: "not_finished st0 t" if "finished_kept st0 st" "r \<in> set (st_tasks st)" "task_id t = task_id r" "Status r \<noteq> TaskSuccess" for r t
    using that by (auto simp: finished_kept_def not_finished_def distinct_map inj_on_def)
  assume p: "finished_kept st0 st"
  show "node_Update e n st = (x, st') \<Longrightarrow> finished_kept st0 st'" for n
    unfolding node_Update_def by (erule db_write_keeps) (use p in \<open>auto simp: finished_kept_def\<close>)
  show "bind_Update e b st = (x, st') \<Longrightarrow> finished_kept st0 st'" for b
    unfolding bind_Update_def by (erule db_write_keeps) (use p in \<open>auto simp: finished_kept_def\<close>)
  show "task_Enqueue e k st = (x, st') \<Longrightarrow> finished_kept st0 st'" for k
    unfolding task_Enqueue_def by (erule db_write_keeps) (use p in \<open>auto simp: finished_kept_def\<close>)
  show "GetByID i st = Inr t \<Longrightarrow> retryable (Status t) \<Longrightarrow> not_finished st0 t" for i t
    using row [OF p] by (fastforce dest!: GetByID_Inr simp: loaded_def retryable_def)
  show "t \<in> set (ListChildrenByParentID i st) \<Longrightarrow> active_status (Status t) \<Longrightarrow> not_finished st0 t" for i t
    using row [OF p] by (fastforce simp: ListChildrenByParentID_def listed_def active_status_def)
  show "not_finished st0 t \<Longrightarrow> task_Update e (retry_canceled t) st = (x, st') \<Longrightarrow> finished_kept st0 st'" for t
    using upd [OF p, of "retry_canceled t"] by (simp add: retry_canceled_def not_finished_def)
  show "not_finished st0 t \<Longrightarrow> trigger = RetryTriggerManual \<or> RetryCount t < MaxAutoRetryCount \<Longrightarrow>
      task_Update e (retried_task trigger t) st = (x, st') \<Longrightarrow> finished_kept st0 st'" for t trigger
    using upd [OF p, of "retried_task trigger t"] by (auto simp: retried_task_def not_finished_def)
qed

subsection \<open>What is reset\<close>

text \<open>Go visits the keys of a map in some order, each once.\<close>

definition visits_keys :: "retry_services \<Rightarrow> bool" where
  "visits_keys sv \<longleftrightarrow> (\<forall>m. finite (dom m) \<longrightarrow> distinct (rv_range sv m) \<and> set (rv_range sv m) = dom m) \<and> (\<forall>S. finite S \<longrightarrow> distinct (rv_visit sv S) \<and> set (rv_visit sv S) = S)
     \<and> (\<forall>def. visits (fst (rv_orders sv def)) def \<and> visits (snd (rv_orders sv def)) def)"

lemma load_workflow_graph:
  assumes "visits_keys sv" and "load_workflow sv v = Inr w"
  shows "\<exists>def. rv_version sv v = Inr def \<and> compiled (rv_registry sv) def w \<and> wf_graph (cw_graph w)"
proof -
  obtain def where def: "rv_version sv v = Inr def"
    and b: "Builder_Build (rv_env sv) (rv_registry sv) (fst (rv_orders sv def)) (snd (rv_orders sv def)) def = Some (Ret (Inr w))"
    using assms(2) by (auto simp: load_workflow_def split: sum.splits option.splits exec.splits)
  have "visits (fst (rv_orders sv def)) def" "visits (snd (rv_orders sv def)) def" using assms(1) by (auto simp: visits_keys_def)
  from Builder_Build_cases [OF this, of "rv_env sv" "rv_registry sv"] b have c: "compiled (rv_registry sv) def w" by auto
  then have "wf_graph (cw_graph w)" using Build_Inr [of def "cw_graph w"] by (auto simp: compiled_def)
  with def c show ?thesis by blast
qed

text \<open>The search of \<^verbatim>\<open>collectRetrySubtree\<close> ends with everything reachable from the roots.\<close>

definition subtree_inv :: "graph \<Rightarrow> name list \<Rightarrow> name list \<times> name set \<Rightarrow> bool" where
  "subtree_inv g roots = (\<lambda>(q, seen). set q \<union> seen \<subseteq> (edge_rel g)\<^sup>* `` set roots \<and> set roots \<subseteq> set q \<union> seen
     \<and> (\<forall>u\<in>seen. set (Children g u) \<subseteq> seen \<union> set q))"

definition subtree_rel :: "graph \<Rightarrow> ((name list \<times> name set) \<times> name list \<times> name set) set" where
  "subtree_rel g = inv_image (less_than <*lex*> less_than) (\<lambda>(q, seen). (card (dom (gNodes g) - seen), length q))"

lemma subtree_step_inv:
  assumes "subtree_inv g roots (u # q, seen)"
  shows "subtree_inv g roots (subtree_step g (u # q, seen))"
proof (cases "u \<in> seen")
  case True
  with assms show ?thesis by (auto simp: subtree_inv_def subtree_step_def)
next
  case False
  have "set (Children g u) \<subseteq> (edge_rel g)\<^sup>* `` set roots"
  proof
    fix v assume "v \<in> set (Children g u)"
    then have "(u, v) \<in> edge_rel g" by (simp add: edge_rel_def)
    moreover have "u \<in> (edge_rel g)\<^sup>* `` set roots" using assms by (simp add: subtree_inv_def)
    ultimately show "v \<in> (edge_rel g)\<^sup>* `` set roots" by (blast intro: rtrancl_into_rtrancl)
  qed
  moreover from assms have "set (u # q) \<union> seen \<subseteq> (edge_rel g)\<^sup>* `` set roots" "set roots \<subseteq> set (u # q) \<union> seen"
    "\<forall>x\<in>seen. set (Children g x) \<subseteq> seen \<union> set (u # q)" by (simp_all add: subtree_inv_def)
  ultimately have "set (q @ Children g u) \<union> insert u seen \<subseteq> (edge_rel g)\<^sup>* `` set roots" "set roots \<subseteq> set (q @ Children g u) \<union> insert u seen"
    "\<forall>x\<in>insert u seen. set (Children g x) \<subseteq> insert u seen \<union> set (q @ Children g u)" by auto
  then show ?thesis using False by (simp add: subtree_inv_def subtree_step_def)
qed

lemma subtree_step_decreases:
  assumes g: "wf_graph g"
  shows "(subtree_step g (u # q, seen), (u # q, seen)) \<in> subtree_rel g"
proof -
  have fin: "finite (dom (gNodes g) - seen)" using wf_graph_finite [OF g] by simp
  show ?thesis
  proof (cases "u \<notin> seen \<and> u \<in> dom (gNodes g)")
    case True
    then have "dom (gNodes g) - insert u seen \<subset> dom (gNodes g) - seen" by auto
    then have "card (dom (gNodes g) - insert u seen) < card (dom (gNodes g) - seen)" by (rule psubset_card_mono [OF fin])
    with True show ?thesis by (simp add: subtree_rel_def subtree_step_def)
  next
    case False
    then have "u \<in> seen \<or> Children g u = [] \<and> dom (gNodes g) - insert u seen = dom (gNodes g) - seen"
      using wf_graph_children_dom [OF g] by (metis Diff_insert0 last_in_set)
    then show ?thesis by (auto simp: subtree_rel_def subtree_step_def)
  qed
qed

lemma collectRetrySubtree_iff:
  assumes g: "wf_graph (cw_graph w)"
  shows "collectRetrySubtree w roots = (edge_rel (cw_graph w))\<^sup>* `` set roots"
proof -
  let ?g = "cw_graph w"
  let ?r = "while (\<lambda>(q, seen). q \<noteq> []) (subtree_step ?g) (roots, {})"
  have "subtree_inv ?g roots ?r \<and> \<not> (case ?r of (q, seen) \<Rightarrow> q \<noteq> [])"
  proof (rule while_rule [where P = "subtree_inv ?g roots" and r = "subtree_rel ?g"])
    show "subtree_inv ?g roots (roots, {})" by (auto simp: subtree_inv_def)
    show "wf (subtree_rel ?g)" by (simp add: subtree_rel_def wf_inv_image wf_lex_prod)
    fix s :: "name list \<times> name set"
    assume inv: "subtree_inv ?g roots s" and "case s of (q, seen) \<Rightarrow> q \<noteq> []"
    then obtain u q seen where s: "s = (u # q, seen)" by (cases s, cases "fst s") auto
    show "subtree_inv ?g roots (subtree_step ?g s)" using inv subtree_step_inv s by simp
    show "(subtree_step ?g s, s) \<in> subtree_rel ?g" using subtree_step_decreases [OF g] s by simp
  qed auto
  then obtain seen where r: "snd ?r = seen" and sub: "seen \<subseteq> (edge_rel ?g)\<^sup>* `` set roots" and roots: "set roots \<subseteq> seen"
    and cl: "\<forall>u\<in>seen. set (Children ?g u) \<subseteq> seen" by (auto simp: subtree_inv_def split: prod.splits)
  have "v \<in> seen" if "(u, v) \<in> (edge_rel ?g)\<^sup>*" "u \<in> set roots" for u v
    using that by (induction rule: rtrancl_induct) (use roots cl in \<open>auto simp: edge_rel_def\<close>)
  with sub r show ?thesis by (auto simp: collectRetrySubtree_def)
qed

text \<open>Memory and database agree on the rows of the task, up to what is not a column.\<close>

definition norm_row :: "node_row \<Rightarrow> node_row" where
  "norm_row r = r\<lparr>ResolvedInput := None, Progress := 0, ExecutionReason := [], PlanAction := []\<rparr>"

definition row_at :: "int \<Rightarrow> name \<Rightarrow> store \<Rightarrow> node_row option" where
  "row_at i n st = List.find (\<lambda>r. node_key r = (i, n)) (st_nodes st)"

definition sync :: "int \<Rightarrow> retry_state \<Rightarrow> bool" where
  "sync i s \<longleftrightarrow> (\<forall>n. map_option norm_row (rx_rows s n) = map_option norm_row (row_at i n (rx_store s)))"

lemma row_atD: "row_at i n st = Some r \<Longrightarrow> r \<in> set (st_nodes st) \<and> node_key r = (i, n)"
  by (auto simp: row_at_def find_Some_iff)

lemma row_at_Some:
  assumes "keys_ok st"
  shows "row_at i n st = Some r \<longleftrightarrow> r \<in> set (st_nodes st) \<and> node_key r = (i, n)"
proof
  assume r: "r \<in> set (st_nodes st) \<and> node_key r = (i, n)"
  then have "row_at i n st \<noteq> None" by (auto simp: row_at_def find_None_iff)
  then obtain r' where r': "row_at i n st = Some r'" by blast
  have "inj_on node_key (set (st_nodes st))" using assms by (simp add: keys_ok_def distinct_map)
  then have "r' = r" by (rule inj_onD) (use r row_atD [OF r'] in simp_all)
  with r' show "row_at i n st = Some r" by simp
qed (rule row_atD)

lemma runtime_map_None: "runtime_map rs n = None \<longleftrightarrow> n \<notin> Name ` set rs"
proof -
  have "fold (\<lambda>r m. m(Name r \<mapsto> r)) rs m n = None \<longleftrightarrow> n \<notin> Name ` set rs \<and> m n = None" for m
    by (induction rs arbitrary: m) auto
  then show ?thesis by (simp add: runtime_map_def)
qed

lemma start_rows:
  assumes k: "keys_ok st"
  shows "rx_rows (retry_start i st) n = row_at i n st"
proof (cases "row_at i n st")
  case None
  then have "n \<notin> Name ` set (node_FindByTaskID i st)"
    by (auto simp: row_at_def node_FindByTaskID_def node_key_def find_None_iff)
  then show ?thesis using None by (simp add: retry_start_def runtime_map_None)
next
  case (Some r)
  then have "r \<in> set (node_FindByTaskID i st)" "Name r = n" using row_at_Some [OF k, of i n r] by (auto simp: node_FindByTaskID_def node_key_def)
  then obtain r' where r': "runtime_map (node_FindByTaskID i st) n = Some r'" using runtime_map_None by fastforce
  from runtime_map_set [OF this] have "r' \<in> set (st_nodes st)" "node_key r' = (i, n)" by (auto simp: node_FindByTaskID_def node_key_def)
  with row_at_Some [OF k, of i n r'] Some r' show ?thesis by (simp add: retry_start_def)
qed

lemma find_update:
  "\<forall>r. key (f r) = key r \<Longrightarrow> List.find (\<lambda>r. key r = k) (map f xs) = map_option f (List.find (\<lambda>r. key r = k) xs)"
  by (induction xs) auto

lemma node_Update_row_at:
  assumes "node_Update e r st = (None, st')"
  shows "row_at i n st' = (if node_key r = (i, n) then map_option (node_put r) (row_at i n st) else row_at i n st)"
proof -
  let ?f = "\<lambda>x. if node_key x = node_key r then node_put r x else x"
  have "st_nodes st' = map ?f (st_nodes st)" using db_write_ok [OF assms [unfolded node_Update_def]] by (simp add: table_update_def)
  moreover have "\<forall>x. node_key (?f x) = node_key x" by (simp add: node_table.key_put)
  ultimately have eq: "row_at i n st' = map_option ?f (row_at i n st)"
    unfolding row_at_def using find_update [of node_key ?f "(i, n)" "st_nodes st"] by simp
  show ?thesis
  proof (cases "row_at i n st")
    case (Some x)
    then have "node_key x = (i, n)" by (auto simp: row_at_def find_Some_iff)
    with eq Some show ?thesis by auto
  qed (simp add: eq)
qed

lemma save_row_sync:
  assumes "save_row e n r s = (None, s')" and sy: "sync i s" and r0: "rx_rows s n = Some r0" and k: "node_key r = (i, n)" "node_id r = node_id r0"
  shows "sync i s' \<and> rx_rows s' = (rx_rows s)(n \<mapsto> r)"
proof -
  obtain st1 where 1: "node_Update e r (rx_store s) = (None, st1)" and s': "s' = s\<lparr>rx_rows := (rx_rows s)(n \<mapsto> r), rx_store := st1\<rparr>"
    using assms(1) by (auto simp: save_row_def on_db_def split: prod.splits)
  obtain x where x: "row_at i n (rx_store s) = Some x" "norm_row x = norm_row r0"
  proof -
    have "map_option norm_row (row_at i n (rx_store s)) = Some (norm_row r0)" using sy r0 unfolding sync_def by (metis option.map(2))
    with that show thesis by blast
  qed
  have "node_id x = node_id r" using arg_cong [OF x(2), of node_id] k(2) by (simp add: norm_row_def)
  then have "norm_row (node_put r x) = norm_row r" by (simp add: norm_row_def node_put_def)
  then show ?thesis using node_Update_row_at [OF 1] sy x(1) k(1) by (auto simp: sync_def s')
qed

lemma find_changes:
  assumes "list_all2 Q xs ys" and "\<And>x y. Q x y \<Longrightarrow> F y = F x \<and> (F x \<longrightarrow> y = x)"
  shows "List.find F ys = List.find F xs"
  using assms by (induction rule: list_all2_induct) auto

lemma changes_row_at:
  assumes "changes_in D st st'" and "i \<notin> D"
  shows "row_at i n st' = row_at i n st"
  unfolding row_at_def
  by (rule find_changes [OF conjunct1 [OF conjunct2 [OF assms(1) [unfolded changes_in_def]]]]) (use assms(2) in \<open>auto simp: node_key_def\<close>)

lemma each_ok_keeps:
  assumes "\<And>x s s'. x \<in> set xs \<Longrightarrow> f x s = (None, s') \<Longrightarrow> P s \<Longrightarrow> P s'" and "P s" and "each f xs s = (None, s')"
  shows "P s'"
  using assms
proof (induction xs arbitrary: s)
  case (Cons x xs)
  from Cons.prems(3) obtain s1 where 1: "f x s = (None, s1)" "each f xs s1 = (None, s')" by auto
  have P1: "P s1" by (rule Cons.prems(1) [OF _ 1(1) Cons.prems(2)]) simp
  from Cons.IH [OF _ P1 1(2)] show ?case using Cons.prems(1) by (meson list.set_intros(2))
qed simp

text \<open>A repaired row differs in its checkpoint and output only, and only for an unfinished loop or map.\<close>

definition repaired :: "compiled_workflow \<Rightarrow> name \<Rightarrow> node_row \<Rightarrow> node_row \<Rightarrow> bool" where
  "repaired w n r r' \<longleftrightarrow> r' = r \<or> (is_fanout w n \<and> \<not> keeps_result r \<and> (\<exists>a b c. r' = r\<lparr>Output := a, OutputHash := b, Checkpoint := c\<rparr>))"

lemma repaired_trans: "repaired w n r r1 \<Longrightarrow> repaired w n r1 r2 \<Longrightarrow> repaired w n r r2"
proof -
  assume 1: "repaired w n r r1" and 2: "repaired w n r1 r2"
  show "repaired w n r r2"
  proof (cases "r1 = r \<or> r2 = r1")
    case True
    with 1 2 show ?thesis by auto
  next
    case False
    with 1 2 obtain a b c a' b' c' where r1: "r1 = r\<lparr>Output := a, OutputHash := b, Checkpoint := c\<rparr>"
      and r2: "r2 = r1\<lparr>Output := a', OutputHash := b', Checkpoint := c'\<rparr>" and f: "is_fanout w n" "\<not> keeps_result r"
      unfolding repaired_def by blast
    have "r2 = r\<lparr>Output := a', OutputHash := b', Checkpoint := c'\<rparr>" by (simp add: r1 r2)
    with f show ?thesis unfolding repaired_def by blast
  qed
qed

lemma repaired_fields: "repaired w n r r' \<Longrightarrow> node_key r' = node_key r \<and> node_id r' = node_id r \<and> State r' = State r \<and> keeps_result r' = keeps_result r
    \<and> rt_ActivatedEdges r' = rt_ActivatedEdges r \<and> Error r' = Error r"
  by (auto simp: repaired_def keeps_result_def node_key_def)

lemma repair_changed:
  "repairLoopCheckpointForRetry e i r st = (True, k, r') \<Longrightarrow> \<not> keeps_result r \<and> (\<exists>a b c. r' = r\<lparr>Output := a, OutputHash := b, Checkpoint := c\<rparr>)"
  "repairMapCheckpointForRetry i r st = (True, ks, r') \<Longrightarrow> \<not> keeps_result r \<and> (\<exists>a b c. r' = r\<lparr>Output := a, OutputHash := b, Checkpoint := c\<rparr>)"
proof -
  have eq: "r\<lparr>Checkpoint := c, Output := a, OutputHash := b\<rparr> = r\<lparr>Output := a, OutputHash := b, Checkpoint := c\<rparr>"
    "r\<lparr>Output := a, OutputHash := b\<rparr> = r\<lparr>Output := a, OutputHash := b, Checkpoint := Checkpoint r\<rparr>" for a b c by simp_all
  show "repairLoopCheckpointForRetry e i r st = (True, k, r') \<Longrightarrow> \<not> keeps_result r \<and> (\<exists>a b c. r' = r\<lparr>Output := a, OutputHash := b, Checkpoint := c\<rparr>)"
    by (auto simp: repairLoopCheckpointForRetry_def Let_def split: option.splits sum.splits if_splits) (metis eq(1))+
  show "repairMapCheckpointForRetry i r st = (True, ks, r') \<Longrightarrow> \<not> keeps_result r \<and> (\<exists>a b c. r' = r\<lparr>Output := a, OutputHash := b, Checkpoint := c\<rparr>)"
    by (auto simp: repairMapCheckpointForRetry_def split: option.splits if_splits) (metis eq(2))
qed

lemma repair_row_cases:
  assumes "repair_row e i w n s = (None, s')"
  obtains ks where "s' = protect ks s"
  | ks r r' where "rx_rows s n = Some r" "repaired w n r r'" "save_row e n r' (protect ks s) = (None, s')"
proof -
  have p: "protect [] s = s" by (simp add: protect_def)
  show thesis
  proof (cases "rx_rows s n = None \<or> cw_nodes w n = None")
    case True
    with assms have "s' = protect [] s" by (auto simp: repair_row_def p split: option.splits)
    then show thesis by (rule that(1))
  next
    case False
    then obtain r nd where r: "rx_rows s n = Some r" and nd: "cw_nodes w n = Some nd" by auto
    obtain b k r1 where l: "repairLoopCheckpointForRetry e i r (rx_store s) = (b, k, r1)" by (metis prod_cases3)
    obtain c ks r2 where m: "repairMapCheckpointForRetry i r (rx_store s) = (c, ks, r2)" by (metis prod_cases3)
    consider "s' = protect [] s" | "s' = protect [k] s" | "s' = protect ks s"
      | "n_Type nd = ''loop''" b "save_row e n r1 (protect [k] s) = (None, s')" | "n_Type nd = ''map''" c "save_row e n r2 (protect ks s) = (None, s')"
      using assms r nd l m by (auto simp: repair_row_def p split: if_splits)
    then show thesis
    proof cases
      case 4
      with l repair_changed(1) nd have "repaired w n r r1" by (auto simp: repaired_def is_fanout_def)
      with r 4(3) show thesis by (intro that(2))
    next
      case 5
      with m repair_changed(2) nd have "repaired w n r r2" by (auto simp: repaired_def is_fanout_def)
      with r 5(3) show thesis by (intro that(2))
    qed (rule that(1), assumption)+
  qed
qed

lemma repair_effect:
  assumes "repairCompositeNodeCheckpointForRetry sv i w s = (None, s')" and "sync i s" and "rows_of_task i s"
  shows "sync i s' \<and> (\<forall>n. rel_option (repaired w n) (rx_rows s n) (rx_rows s' n))"
proof -
  let ?P = "\<lambda>s1. sync i s1 \<and> rows_of_task i s1 \<and> (\<forall>n. rel_option (repaired w n) (rx_rows s n) (rx_rows s1 n))"
  have "?P s'"
  proof (rule each_ok_keeps [OF _ _ assms(1) [unfolded repairCompositeNodeCheckpointForRetry_def]])
    show "?P s" using assms(2,3) by (simp add: repaired_def option.rel_refl)
    fix n s1 s2
    assume step: "repair_row (rv_env sv) i w n s1 = (None, s2)" and p: "?P s1"
    from step show "?P s2"
    proof (cases rule: repair_row_cases)
      case (1 ks)
      with p show ?thesis by (simp add: protect_def sync_def rows_of_task_def)
    next
      case (2 ks r r')
      have k: "node_key r' = (i, n)" "node_id r' = node_id r" using repaired_fields [OF 2(2)] 2(1) p by (auto simp: rows_of_task_def)
      have "sync i (protect ks s1)" "rx_rows (protect ks s1) n = Some r" using p 2(1) by (simp_all add: protect_def sync_def)
      from save_row_sync [OF 2(3) this k] have u: "sync i s2" "rx_rows s2 = (rx_rows s1)(n \<mapsto> r')" by (auto simp: protect_def)
      moreover have "rel_option (repaired w m) (rx_rows s m) (rx_rows s2 m)" for m
      proof (cases "m = n")
        case True
        have "rel_option (repaired w n) (rx_rows s n) (Some r)" using p 2(1) by metis
        then show ?thesis using True u(2) repaired_trans [OF _ 2(2)] by (cases "rx_rows s n") auto
      qed (use p u(2) in simp)
      moreover have "rows_of_task i s2" using p k(1) u(2) by (auto simp: rows_of_task_def)
      ultimately show ?thesis by blast
    qed
  qed
  then show ?thesis by blast
qed

lemma fold_pointwise:
  "distinct xs \<Longrightarrow> fold (\<lambda>n m. case m n of None \<Rightarrow> m | Some r \<Rightarrow> m(n \<mapsto> f n r)) xs m = (\<lambda>n. if n \<in> set xs then map_option (f n) (m n) else m n)"
  by (induction xs arbitrary: m) (auto simp: fun_eq_iff split: option.splits)

lemma rx_save: "save_row e n r s = (x, s') \<Longrightarrow> rx_rows s' = (rx_rows s)(n \<mapsto> r)"
  by (auto simp: save_row_def on_db_def split: prod.splits)

definition kept_or_reset :: "compiled_workflow \<Rightarrow> name \<Rightarrow> node_row \<Rightarrow> node_row" where
  "kept_or_reset w n r = (if keeps_result r then r else reset_row w n r)"

lemma reset_effect:
  assumes "resetNodeRuntimeForRetry sv w ns s = (None, s')" and "visits_keys sv" and "finite ns" and "sync i s" and "rows_of_task i s"
  shows "sync i s'" and "rx_rows s' n = (if n \<in> ns then map_option (kept_or_reset w n) (rx_rows s n) else rx_rows s n)"
proof -
  let ?xs = "rv_visit sv ns"
  have xs: "distinct ?xs" "set ?xs = ns" using assms(2,3) by (auto simp: visits_keys_def)
  let ?P = "\<lambda>s. sync i s \<and> rows_of_task i s"
  note run = assms(1) [unfolded resetNodeRuntimeForRetry_def]
  have "?P s'"
  proof (rule each_ok_keeps [where P = ?P, OF _ _ run])
    fix n s1 s2
    assume step: "(case rx_rows s1 n of None \<Rightarrow> (None, s1) | Some r \<Rightarrow> if keeps_result r then (None, s1)
        else save_row (rv_env sv) n (reset_row w n r) s1) = (None, s2)" and p: "?P s1"
    show "?P s2"
    proof (cases "rx_rows s1 n")
      case None
      with step p show ?thesis by simp
    next
      case (Some r)
      have k: "node_key (reset_row w n r) = (i, n)" "node_id (reset_row w n r) = node_id r"
        using p Some by (auto simp: rows_of_task_def reset_row_def node_key_def)
      show ?thesis
      proof (cases "keeps_result r")
        case False
        with step Some have "save_row (rv_env sv) n (reset_row w n r) s1 = (None, s2)" by simp
        from save_row_sync [OF this _ Some k] p k(1) show ?thesis by (auto simp: rows_of_task_def)
      qed (use step Some p in simp)
    qed
  qed (use assms in simp)
  then show "sync i s'" by simp
  have "rx_rows s' = fold (\<lambda>n m. case m n of None \<Rightarrow> m | Some r \<Rightarrow> m(n \<mapsto> kept_or_reset w n r)) ?xs (rx_rows s)"
    using run by (rule each_fold) (auto simp: kept_or_reset_def map_upd_triv split: option.splits if_splits dest!: rx_save)
  then show "rx_rows s' n = (if n \<in> ns then map_option (kept_or_reset w n) (rx_rows s n) else rx_rows s n)"
    by (simp add: fold_pointwise [OF xs(1)] xs(2))
qed

text \<open>The bindings of the reset nodes are closed.\<close>

lemma bindings_fold:
  "fold (\<lambda>b st. if Q b then st else st\<lparr>st_binds := U b (st_binds st)\<rparr>) bs st = st\<lparr>st_binds := fold (\<lambda>b. if \<not> Q b then U b else id) bs (st_binds st)\<rparr>"
  by (induction bs arbitrary: st) simp_all

lemma only_bindings:
  assumes "contents st' = (contents st)\<lparr>st_binds := B\<rparr>"
  shows "st_binds st' = B" "st_nodes st' = st_nodes st" "st_tasks st' = st_tasks st"
  using arg_cong [OF assms, of st_binds] arg_cong [OF assms, of st_nodes] arg_cong [OF assms, of st_tasks] by simp_all

lemma resetAwaitBindings_effect:
  assumes "resetAwaitBindingsForRetry e i ns st = (None, st')" and k: "keys_ok st" and i: "i \<noteq> 0"
  shows "st_nodes st' = st_nodes st" "st_tasks st' = st_tasks st"
    and "\<forall>b\<in>set (st_binds st'). ab_TaskID b = i \<and> ab_NodeName b \<in> ns \<longrightarrow> isAwaitBindingTerminal (ab_Status b)"
proof -
  let ?Q = "\<lambda>b. ab_NodeName b \<notin> ns \<or> isAwaitBindingTerminal (ab_Status b)"
  let ?c = "cancel_bind ''canceled by task retry'' (clock e (st_writes st))"
  let ?U = "\<lambda>b. table_update ab_ID bind_put (?c b)"
  show "st_nodes st' = st_nodes st" "st_tasks st' = st_tasks st"
    and "\<forall>b\<in>set (st_binds st'). ab_TaskID b = i \<and> ab_NodeName b \<in> ns \<longrightarrow> isAwaitBindingTerminal (ab_Status b)"
  proof (atomize (full), cases "ns = {}")
    case True
    with assms(1) show "(st_nodes st' = st_nodes st \<and> st_tasks st' = st_tasks st)
      \<and> (\<forall>b\<in>set (st_binds st'). ab_TaskID b = i \<and> ab_NodeName b \<in> ns \<longrightarrow> isAwaitBindingTerminal (ab_Status b))"
      by (simp add: resetAwaitBindingsForRetry_def)
  next
    case False
    with assms(1) i have run: "each (\<lambda>b st. if ?Q b then (None, st) else bind_Update e (?c b) st) (bind_ListByTaskID i st) st = (None, st')"
      by (simp add: resetAwaitBindingsForRetry_def Let_def)
    have "contents st' = fold (\<lambda>b st. if ?Q b then st else st\<lparr>st_binds := ?U b (st_binds st)\<rparr>) (bind_ListByTaskID i st) (contents st)"
      using run by (rule each_fold) (auto simp: bind_Update_def contents_upd dest!: db_write_ok split: if_splits)
    also have "\<dots> = (contents st)\<lparr>st_binds := fold (\<lambda>b. if \<not> ?Q b then ?U b else id) (bind_ListByTaskID i st) (st_binds st)\<rparr>"
      by (simp only: bindings_fold [where Q = ?Q and U = ?U] contents_eqs)
    finally have c: "contents st' = (contents st)\<lparr>st_binds := fold (\<lambda>b. if \<not> ?Q b then ?U b else id) (bind_ListByTaskID i st) (st_binds st)\<rparr>" .
    have "fold (\<lambda>b. if \<not> ?Q b then ?U b else id) (bind_ListByTaskID i st) (st_binds st)
        = map (\<lambda>b. if b \<in> set (bind_ListByTaskID i st) \<and> \<not> ?Q b then bind_put (?c b) b else b) (st_binds st)"
      by (rule bind_table.sweep) (use k in \<open>auto simp: keys_ok_def cancel_bind_def listed_binds\<close>)
    with only_bindings [OF c] have b: "st_binds st' = map (\<lambda>b. if b \<in> set (bind_ListByTaskID i st) \<and> \<not> ?Q b then bind_put (?c b) b else b) (st_binds st)"
      and n: "st_nodes st' = st_nodes st" "st_tasks st' = st_tasks st" by (simp_all only:)
    from b n show "(st_nodes st' = st_nodes st \<and> st_tasks st' = st_tasks st)
      \<and> (\<forall>b\<in>set (st_binds st'). ab_TaskID b = i \<and> ab_NodeName b \<in> ns \<longrightarrow> isAwaitBindingTerminal (ab_Status b))"
      by (auto simp: bind_ListByTaskID_def)
  qed
qed

subsection \<open>The whole retry\<close>

definition retry_roots :: "node_row list \<Rightarrow> name list" where
  "retry_roots rs = (if collectRetryRoots rs = [] then collectNonTerminalRetryRoots rs else collectRetryRoots rs)"

text \<open>The nodes that a retry of a task starts from and everything behind them.\<close>

definition retry_part :: "compiled_workflow \<Rightarrow> int \<Rightarrow> store \<Rightarrow> name set" where
  "retry_part w i st = (edge_rel (cw_graph w))\<^sup>* `` set (retry_roots (node_FindByTaskID i st))"

definition row_retried :: "compiled_workflow \<Rightarrow> name set \<Rightarrow> name \<Rightarrow> node_row \<Rightarrow> node_row \<Rightarrow> bool" where
  "row_retried w R n r r' \<longleftrightarrow>
     (\<exists>r1. repaired w n r r1 \<and> norm_row r' = norm_row (if n \<in> R then kept_or_reset w n r1 else r1))"

lemma retry_steps_None:
  assumes "retry_steps fuel sv i trigger n ps t w st = Some (None, s')"
  obtains s1 s2 st3 s4 where "repairCompositeNodeCheckpointForRetry sv i w (retry_start i st) = (None, s1)"
    "on_db (cancelChildTasksForRetry (rv_env sv) i (rx_protected s1) trigger) s1 = (None, s2)"
    "reviveProtectedChildrenForRetry (rv_env sv) (\<lambda>c. PrepareTaskRetry fuel sv c trigger [] []) i (rx_protected s2) (rx_store s2) = Some (None, st3)"
    "(if TrimSpace n \<noteq> [] then targeted_reset sv i w n ps (s2\<lparr>rx_store := st3\<rparr>)
      else failed_reset sv i w (node_FindByTaskID i st) (s2\<lparr>rx_store := st3\<rparr>)) = (None, s4)"
    "on_db (task_Update (rv_env sv) (retried_task trigger t)) s4 = (None, s')"
  using assms unfolding retry_steps_def by auto

lemma sync_frame:
  assumes "sync i s" and "changes_in D (rx_store s) st'" and "i \<notin> D"
  shows "sync i (s\<lparr>rx_store := st'\<rparr>)"
  using assms by (simp add: sync_def changes_row_at)

lemma on_db_None: "on_db f s = (None, s') \<longleftrightarrow> (\<exists>st. f (rx_store s) = (None, st) \<and> s' = s\<lparr>rx_store := st\<rparr>)"
  by (auto simp: on_db_def split: prod.splits)

lemma before_reset:
  assumes k: "keys_ok st" and acy: "acyclic (kid_rel st)"
    and 1: "repairCompositeNodeCheckpointForRetry sv i w (retry_start i st) = (None, s1)"
    and 2: "on_db (cancelChildTasksForRetry e i ks trigger) s1 = (None, s2)"
    and 3: "reviveProtectedChildrenForRetry e (\<lambda>c. PrepareTaskRetry fuel sv c trigger [] []) i ks' (rx_store s2) = Some (None, st3)"
  defines "s3 \<equiv> s2\<lparr>rx_store := st3\<rparr>"
  shows "sync i s3" "own (family i st) i st s3" "\<forall>n. rel_option (repaired w n) (row_at i n st) (rx_rows s3 n)"
proof -
  let ?D = "family i st"
  have store: "rx_store (retry_start i st) = st" by (simp add: retry_start_def)
  have start: "sync i (retry_start i st)" "rows_of_task i (retry_start i st)"
    using start_own [OF k] by (simp_all add: sync_def start_rows [OF k] store own_def)
  from repair_effect [OF 1 start] have r1: "sync i s1" "\<forall>n. rel_option (repaired w n) (row_at i n st) (rx_rows s1 n)"
    by (simp_all add: start_rows [OF k])
  have o1: "own ?D i st s1" by (rule repair_own [OF 1 start_own [OF k]])
  have kids: "kid_rel st `` {i} \<subseteq> (\<Union>c\<in>kid_rel st `` {i}. family c st)" using family_kid(3) by blast
  have out: "i \<notin> (\<Union>c\<in>kid_rel st `` {i}. family c st)" using family_shrinks(1) [OF acy] by blast
  have sub: "(\<Union>c\<in>kid_rel st `` {i}. family c st) \<subseteq> ?D" using family_kid(1) by blast
  from 2 obtain st2 where c: "cancelChildTasksForRetry e i ks trigger (rx_store s1) = (None, st2)" and s2: "s2 = s1\<lparr>rx_store := st2\<rparr>"
    by (auto simp: on_db_None)
  have "changes_in (kid_rel (rx_store s1) `` {i}) (rx_store s1) st2" by (rule cancelChildren_changes [OF c]) (simp add: own_keys [OF o1] k)
  then have c2: "changes_in (\<Union>c\<in>kid_rel st `` {i}. family c st) (rx_store s1) st2"
    by (rule changes_in_mono) (use kids in \<open>simp add: own_kids [OF o1]\<close>)
  have r2: "sync i s2" unfolding s2 by (rule sync_frame [OF r1(1) c2 out])
  have o2: "own ?D i st s2" using o1 changes_in_trans changes_in_mono [OF c2 sub] by (auto simp: own_def s2 rows_of_task_def)
  have "changes_in (\<Union>c\<in>kid_rel (rx_store s2) `` {i}. family c (rx_store s2)) (rx_store s2) st3"
    by (rule revive_changes [OF 3]) (use own_keys [OF o2] k PrepareTaskRetry_changes in auto)
  then have c3: "changes_in (\<Union>c\<in>kid_rel st `` {i}. family c st) (rx_store s2) st3" by (simp add: own_kids [OF o2])
  show "sync i s3" unfolding s3_def by (rule sync_frame [OF r2 c3 out])
  show "own ?D i st s3" using o2 changes_in_trans changes_in_mono [OF c3 sub] by (auto simp: own_def s3_def rows_of_task_def)
  show "\<forall>n. rel_option (repaired w n) (row_at i n st) (rx_rows s3 n)" using r1(2) by (simp add: s2 s3_def)
qed

lemma edge_reach_finite:
  assumes "wf_graph g"
  shows "finite ((edge_rel g)\<^sup>* `` set roots)"
proof -
  have "(edge_rel g)\<^sup>* `` set roots \<subseteq> set roots \<union> dom (gNodes g)"
  proof
    fix v assume "v \<in> (edge_rel g)\<^sup>* `` set roots"
    then obtain u where "u \<in> set roots" "(u, v) \<in> (edge_rel g)\<^sup>*" by blast
    from this(2,1) show "v \<in> set roots \<union> dom (gNodes g)"
      by (cases rule: rtranclE) (use wf_graph_children_dom [OF assms] in \<open>auto simp: edge_rel_def\<close>)
  qed
  then show ?thesis by (rule finite_subset) (simp add: wf_graph_finite [OF assms])
qed

lemma failed_reset_effect:
  assumes "failed_reset sv i w rs s = (None, s')" and v: "visits_keys sv" and g: "wf_graph (cw_graph w)" and "keys_ok (rx_store s)"
    and "sync i s" and o: "rows_of_task i s" and i: "i \<noteq> 0"
  defines "R \<equiv> (edge_rel (cw_graph w))\<^sup>* `` set (retry_roots rs)"
  shows "sync i s'" "rx_rows s' n = (if n \<in> R then map_option (kept_or_reset w n) (rx_rows s n) else rx_rows s n)"
    and "\<forall>b\<in>set (st_binds (rx_store s')). ab_TaskID b = i \<and> ab_NodeName b \<in> R \<longrightarrow> isAwaitBindingTerminal (ab_Status b)"
proof -
  have R: "collectRetrySubtree w (retry_roots rs) = R" by (simp add: collectRetrySubtree_iff [OF g] R_def)
  from assms(1) obtain s1 st2 where 1: "resetNodeRuntimeForRetry sv w R s = (None, s1)"
    and 2: "resetAwaitBindingsForRetry (rv_env sv) i R (rx_store s1) = (None, st2)" and s': "s' = s1\<lparr>rx_store := st2\<rparr>"
    by (auto simp: failed_reset_def retry_roots_def [symmetric] Let_def on_db_None R split: if_splits)
  have fin: "finite R" using edge_reach_finite [OF g] by (simp add: R_def)
  note r = reset_effect [OF 1 v fin assms(5,6)]
  have "own {i} i (rx_store s) s1" by (rule resets_own(1) [OF 1]) (simp add: own_def o)
  then have k1: "keys_ok (rx_store s1)" using own_keys assms(4) by blast
  note b = resetAwaitBindings_effect [OF 2 k1 i]
  show "sync i s'" using r(1) b(1) by (simp add: sync_def s' row_at_def)
  show "rx_rows s' n = (if n \<in> R then map_option (kept_or_reset w n) (rx_rows s n) else rx_rows s n)" using r(2) by (simp add: s')
  show "\<forall>b\<in>set (st_binds (rx_store s')). ab_TaskID b = i \<and> ab_NodeName b \<in> R \<longrightarrow> isAwaitBindingTerminal (ab_Status b)" using b(3) by (simp add: s')
qed

text \<open>A successful retry without a resume node.\<close>

lemma retry_effect:
  assumes k: "keys_ok st" and acy: "acyclic (kid_rel st)" and v: "visits_keys sv" and i: "i \<noteq> 0"
    and run: "PrepareTaskRetry fuel sv i trigger [] [] st = Some (None, st')"
  obtains r w where "r \<in> set (st_tasks st)" "task_id r = i" "retryable (Status r)" "load_workflow sv (WorkflowVersionID r) = Inr w"
    "\<exists>x\<in>set (st_tasks st'). task_id x = i \<and> Status x = TaskPending \<and> OutputJSON x = None \<and> ErrorMessage x = []
       \<and> RetryCount x = (if trigger = RetryTriggerManual then 0 else RetryCount r + 1)"
    "\<forall>n. rel_option (row_retried w (retry_part w i st) n) (row_at i n st) (row_at i n st')"
    "\<forall>b\<in>set (st_binds st'). ab_TaskID b = i \<and> ab_NodeName b \<in> retry_part w i st \<longrightarrow> isAwaitBindingTerminal (ab_Status b)"
proof -
  obtain f where f: "fuel = Suc f" using run by (cases fuel) auto
  from run [unfolded f] obtain t w s where t: "GetByID i st = Inr t" "retryable (Status t)" and w: "load_workflow sv (WorkflowVersionID t) = Inr w"
    and steps: "retry_steps f sv i trigger [] [] t w st = Some (None, s)" and st': "st' = rx_store s"
    by (cases rule: PrepareTaskRetry_cases) auto
  from GetByID_Inr [OF t(1)] obtain r where r: "r \<in> set (st_tasks st)" "task_id r = i" "t = loaded r" by blast
  from load_workflow_graph [OF v w] have g: "wf_graph (cw_graph w)" by blast
  from steps obtain s1 s2 st3 s4 where 1: "repairCompositeNodeCheckpointForRetry sv i w (retry_start i st) = (None, s1)"
    and 2: "on_db (cancelChildTasksForRetry (rv_env sv) i (rx_protected s1) trigger) s1 = (None, s2)"
    and 3: "reviveProtectedChildrenForRetry (rv_env sv) (\<lambda>c. PrepareTaskRetry f sv c trigger [] []) i (rx_protected s2) (rx_store s2) = Some (None, st3)"
    and 4: "failed_reset sv i w (node_FindByTaskID i st) (s2\<lparr>rx_store := st3\<rparr>) = (None, s4)"
    and 5: "on_db (task_Update (rv_env sv) (retried_task trigger t)) s4 = (None, s)"
    by (rule retry_steps_None) (simp add: TrimSpace_def trim_by_def)
  let ?s3 = "s2\<lparr>rx_store := st3\<rparr>" and ?R = "retry_part w i st"
  note b = before_reset [OF k acy 1 2 3]
  have k3: "keys_ok (rx_store ?s3)" using own_keys [OF b(2)] k by simp
  have o3: "rows_of_task i ?s3" using b(2) by (simp add: own_def)
  note e = failed_reset_effect [OF 4 v g k3 b(1) o3 i, folded retry_part_def]
  from 5 obtain st5 where u: "task_Update (rv_env sv) (retried_task trigger t) (rx_store s4) = (None, st5)" and s: "s = s4\<lparr>rx_store := st5\<rparr>"
    by (auto simp: on_db_None)
  from db_write_ok [OF u [unfolded task_Update_def]] have c5: "st_nodes st5 = st_nodes (rx_store s4)" "st_binds st5 = st_binds (rx_store s4)"
    "st_tasks st5 = table_update task_id task_put (retried_task trigger t) (st_tasks (rx_store s4))" by simp_all
  have rows: "rel_option (row_retried w ?R n) (row_at i n st) (row_at i n st')" for n
  proof -
    have "rel_option (repaired w n) (row_at i n st) (rx_rows ?s3 n)" using b(3) by blast
    moreover have "map_option norm_row (row_at i n st') = map_option norm_row (rx_rows s4 n)"
      using e(1) by (simp add: sync_def st' s row_at_def c5)
    ultimately show ?thesis using e(2) [of n]
      by (cases "row_at i n st"; cases "rx_rows ?s3 n"; cases "row_at i n st'") (auto simp: row_retried_def split: if_splits)
  qed
  have o4: "own (family i st) i st s4" by (rule node_resets_own(2) [OF k b(2) 4])
  then have "i \<in> set (map task_id (st_tasks (rx_store s4)))" using r(1,2) unfolding own_def by (auto simp: changes_in_keys(1) simp del: set_map) auto
  then obtain x where x: "x \<in> set (st_tasks (rx_store s4))" "task_id x = i" by auto
  have "task_id (retried_task trigger t) = i" using r by (simp add: retried_task_def loaded_def)
  then have "task_put (retried_task trigger t) x \<in> set (st_tasks st')"
    using x by (auto simp: st' s c5(3) table_update_def image_iff intro!: bexI [of _ x])
  then have "\<exists>x\<in>set (st_tasks st'). task_id x = i \<and> Status x = TaskPending \<and> OutputJSON x = None \<and> ErrorMessage x = []
       \<and> RetryCount x = (if trigger = RetryTriggerManual then 0 else RetryCount r + 1)"
    by (rule bexI [rotated]) (use r in \<open>simp add: task_put_def retried_task_def loaded_def\<close>)
  moreover have "retryable (Status r)" "load_workflow sv (WorkflowVersionID r) = Inr w" using t(2) w r(3) by (simp_all add: loaded_def)
  ultimately show thesis using rows e(3) by (intro that [OF r(1,2), of w]) (auto simp: st' s c5(2))
qed

subsection \<open>Clearing an item keeps the checkpoint well-formed\<close>

lemma sub_map_drop:
  "sub_map (drop_key fld k cp) g = (if g = fld then AList.delete k (sub_map cp g) else sub_map cp g)"
  by (auto simp: drop_key_def sub_map_def map_of_update split: option.splits gval.splits)

lemma cfg_drop: "(\<forall>m. map_of cp g \<noteq> Some (VMap m)) \<or> g \<noteq> fld \<Longrightarrow> cfg (drop_key fld k cp) g = cfg cp g"
  by (auto simp: drop_key_def cfg_def map_of_update split: option.splits gval.splits)

lemma length_delete: "distinct (map fst m) \<Longrightarrow> k \<in> fst ` set m \<Longrightarrow> Suc (length (AList.delete k m)) = length m"
proof (induction m)
  case (Cons a m)
  show ?case
  proof (cases "fst a = k")
    case True
    with Cons.prems(1) have "k \<notin> fst ` set m" by auto
    then have "AList.delete k m = m" by (force simp: AList.delete_eq filter_id_conv)
    with True show ?thesis by (cases a) (simp add: AList.delete_eq)
  next
    case False
    with Cons show ?thesis by (auto simp: AList.delete_eq)
  qed
qed simp

lemma cleared_parts:
  shows "sub_map (cleared_cp k cp) ''results'' = AList.delete k (sub_map cp ''results'')"
    and "sub_map (cleared_cp k cp) ''item_hashes'' = AList.delete k (sub_map cp ''item_hashes'')"
    and "sub_map (cleared_cp k cp) ''reused_items'' = AList.delete k (sub_map cp ''reused_items'')"
    and "cfg (cleared_cp k cp) ''total'' = cfg cp ''total''"
    and "cfg (cleared_cp k cp) ''done'' = VInt (max (ToInt64 (cfg cp ''done'') - 1) 0)"
proof -
  have u: "sub_map (AList.update ''done'' v c) g = sub_map c g" if "g \<noteq> ''done''" for v c g
    using that by (simp add: sub_map_def map_of_update)
  show "sub_map (cleared_cp k cp) ''results'' = AList.delete k (sub_map cp ''results'')"
    "sub_map (cleared_cp k cp) ''item_hashes'' = AList.delete k (sub_map cp ''item_hashes'')"
    "sub_map (cleared_cp k cp) ''reused_items'' = AList.delete k (sub_map cp ''reused_items'')"
    by (simp_all add: cleared_cp_def u sub_map_drop)
  show "cfg (cleared_cp k cp) ''total'' = cfg cp ''total''" "cfg (cleared_cp k cp) ''done'' = VInt (max (ToInt64 (cfg cp ''done'') - 1) 0)"
    by (simp_all add: cleared_cp_def cfg_drop)
qed

lemma cleared_results_map: "map_of cp ''results'' = Some (VMap m) \<Longrightarrow> map_of (cleared_cp k cp) ''results'' = Some (VMap (AList.delete k m))"
  by (auto simp: cleared_cp_def drop_key_def map_of_update split: option.splits gval.splits)

lemma cleared_cp_ok:
  assumes ok: "map_cp_ok tot cp" and k: "k \<in> fst ` set (sub_map cp ''results'')"
  shows "map_cp_ok tot (cleared_cp k cp)"
proof -
  let ?R = "sub_map cp ''results''"
  have "ToInt64 (cfg (cleared_cp k cp) ''done'') = int (length (AList.delete k ?R))"
    using ok length_delete [of ?R k] k by (simp add: map_cp_ok_def cleared_parts ToInt64_def)
  moreover have "\<forall>v\<in>snd ` set (AList.delete k ?R). \<exists>m. v = VMap m" using ok by (auto simp: map_cp_ok_def AList.delete_eq)
  moreover have "fst ` set (AList.delete k m) = fst ` set m - {k}" for m :: gmap by (auto simp: AList.delete_eq)
  ultimately show ?thesis using ok cleared_results_map [of cp ?R k]
    by (auto simp: map_cp_ok_def cleared_parts distinct_delete)
qed

section \<open>The retry as a whole\<close>

lemma family_card: "card (family i st) \<le> Suc (length (st_tasks st))"
proof -
  have "family i st \<subseteq> insert i (set (map task_id (st_tasks st)))"
  proof
    fix k assume "k \<in> family i st"
    then have "(i, k) \<in> (kid_rel st)\<^sup>*" by (simp add: family_def)
    then show "k \<in> insert i (set (map task_id (st_tasks st)))" by (cases rule: rtranclE) (auto simp: kid_rel_def)
  qed
  then have "card (family i st) \<le> card (insert i (set (map task_id (st_tasks st))))" by (rule card_mono [rotated]) simp
  also have "\<dots> \<le> Suc (card (set (map task_id (st_tasks st))))" by (simp add: card_insert_if)
  also have "\<dots> \<le> Suc (length (st_tasks st))" using card_length [of "map task_id (st_tasks st)"] by simp
  finally show ?thesis .
qed

text \<open>
  Preparing a retry ends, and stays within the task and its descendants. Where no task is its
  own ancestor, one unit of fuel per stored task is enough for the recursion over revived
  children, for every trigger, resume node, patch list, definition and failing write. Whatever
  the outcome, no row of a task outside the family has changed, no stored retry count has left its
  bounds, and the row of every task that had succeeded is as it was.
\<close>

lemma retry_contained:
  assumes "keys_ok st" and "acyclic (kid_rel st)" and "counts_ok st"
  shows "\<exists>x st'. PrepareTaskRetry (Suc (length (st_tasks st))) sv i trigger n ps st = Some (x, st')
    \<and> changes_in (family i st) st st' \<and> counts_ok st'
    \<and> (\<forall>r\<in>set (st_tasks st). Status r = TaskSuccess \<longrightarrow> r \<in> set (st_tasks st'))"
proof -
  obtain x st' where run: "PrepareTaskRetry (Suc (length (st_tasks st))) sv i trigger n ps st = Some (x, st')"
    using PrepareTaskRetry_fuel [OF assms(1,2) family_card, where i = i and sv = sv and trigger = trigger and n = n and ps = ps] by auto
  have "finished_kept st st'"
    by (rule finished.PrepareTaskRetry_keeps [OF refl _ run]) (use assms(1) in \<open>simp add: finished_kept_def keys_ok_def\<close>)
  then show ?thesis
    using run PrepareTaskRetry_changes [OF assms(1) run] counts.PrepareTaskRetry_keeps [OF refl assms(3) run]
    by (auto simp: finished_kept_def)
qed

definition node_retried :: "compiled_workflow \<Rightarrow> name \<Rightarrow> node_row \<Rightarrow> bool" where
  "node_retried w n r \<longleftrightarrow> State r = NodePending \<and> Output r = None \<and> OutputHash r = [] \<and> InputHash r = [] \<and> Error r = []
     \<and> rt_ActivatedEdges r = Map.empty \<and> StartedAt r = None \<and> FinishedAt r = None
     \<and> (\<not> is_fanout w n \<longrightarrow> Checkpoint r = None)"

lemma norm_row_sel [simp]:
  "State (norm_row r) = State r" "Output (norm_row r) = Output r" "OutputHash (norm_row r) = OutputHash r" "InputHash (norm_row r) = InputHash r"
  "Error (norm_row r) = Error r" "rt_ActivatedEdges (norm_row r) = rt_ActivatedEdges r" "StartedAt (norm_row r) = StartedAt r"
  "FinishedAt (norm_row r) = FinishedAt r" "Checkpoint (norm_row r) = Checkpoint r" "Name (norm_row r) = Name r"
  by (simp_all add: norm_row_def)

lemma norm_row_eqD:
  assumes "norm_row r = norm_row r'"
  shows "State r = State r'" "Output r = Output r'" "OutputHash r = OutputHash r'" "InputHash r = InputHash r'" "Error r = Error r'"
    "rt_ActivatedEdges r = rt_ActivatedEdges r'" "StartedAt r = StartedAt r'" "FinishedAt r = FinishedAt r'" "Checkpoint r = Checkpoint r'"
    "Name r = Name r'"
  using arg_cong [OF assms, of State] arg_cong [OF assms, of Output] arg_cong [OF assms, of OutputHash] arg_cong [OF assms, of InputHash]
    arg_cong [OF assms, of Error] arg_cong [OF assms, of rt_ActivatedEdges] arg_cong [OF assms, of StartedAt] arg_cong [OF assms, of FinishedAt]
    arg_cong [OF assms, of Checkpoint] arg_cong [OF assms, of Name] by simp_all

lemma repaired_sel:
  assumes "repaired w n r r1"
  shows "State r1 = State r" "Name r1 = Name r" "Error r1 = Error r" "rt_ActivatedEdges r1 = rt_ActivatedEdges r" "keeps_result r1 = keeps_result r"
    "keeps_result r \<Longrightarrow> r1 = r"
  using assms by (auto simp: repaired_def keeps_result_def)

lemma row_retried_cases:
  assumes "row_retried w R n r r'"
  shows "keeps_result r \<Longrightarrow> norm_row r' = norm_row r"
    and "\<not> keeps_result r \<Longrightarrow> n \<in> R \<Longrightarrow> node_retried w n r'"
    and "n \<notin> R \<Longrightarrow> State r' = State r \<and> Error r' = Error r \<and> rt_ActivatedEdges r' = rt_ActivatedEdges r"
    and "Name r' = Name r"
proof -
  from assms obtain r1 where r1: "repaired w n r r1" and r': "norm_row r' = norm_row (if n \<in> R then kept_or_reset w n r1 else r1)"
    by (auto simp: row_retried_def)
  note s = repaired_sel [OF r1] and d = norm_row_eqD [OF r']
  show "keeps_result r \<Longrightarrow> norm_row r' = norm_row r" using r' s by (simp add: kept_or_reset_def split: if_splits)
  show "node_retried w n r'" if "\<not> keeps_result r" "n \<in> R"
    using that s(5) d by (simp add: node_retried_def kept_or_reset_def reset_row_def)
  show "State r' = State r \<and> Error r' = Error r \<and> rt_ActivatedEdges r' = rt_ActivatedEdges r" if "n \<notin> R"
    using that s d by simp
  show "Name r' = Name r" using s(2) d(10) by (simp add: kept_or_reset_def reset_row_def split: if_splits)
qed

text \<open>
  C25. What a retry without resume node and patches has done when it succeeds. The task is pending without output and error, its
  count reset by hand and raised by the scanner. Of its nodes, those with a result keep it; those
  among or behind the retry roots (failed, canceled and interrupted nodes, or else the pending
  ones) are pending with nothing left of the last run but the checkpoint of a loop or map; the
  state of all others is as it was. No binding of a node that was reset can still complete.
\<close>

theorem retry_resets_failed_part:
  assumes "keys_ok st" and "acyclic (kid_rel st)" and "visits_keys sv" and "i \<noteq> 0"
    and "PrepareTaskRetry fuel sv i trigger [] [] st = Some (None, st')"
  shows "\<exists>r w. r \<in> set (st_tasks st) \<and> task_id r = i \<and> retryable (Status r) \<and> load_workflow sv (WorkflowVersionID r) = Inr w
    \<and> (\<exists>x\<in>set (st_tasks st'). task_id x = i \<and> Status x = TaskPending \<and> OutputJSON x = None \<and> ErrorMessage x = []
         \<and> RetryCount x = (if trigger = RetryTriggerManual then 0 else RetryCount r + 1))
    \<and> (\<forall>n r0. row_at i n st = Some r0 \<longrightarrow> (\<exists>r1. row_at i n st' = Some r1
         \<and> (if keeps_result r0 then norm_row r1 = norm_row r0
            else if n \<in> retry_part w i st then node_retried w n r1 else State r1 = State r0)))
    \<and> (\<forall>b\<in>set (st_binds st'). ab_TaskID b = i \<and> ab_NodeName b \<in> retry_part w i st \<longrightarrow> isAwaitBindingTerminal (ab_Status b))"
proof (rule retry_effect [OF assms])
  fix r w
  assume task: "r \<in> set (st_tasks st)" "task_id r = i" "retryable (Status r)" "load_workflow sv (WorkflowVersionID r) = Inr w"
    and x: "\<exists>x\<in>set (st_tasks st'). task_id x = i \<and> Status x = TaskPending \<and> OutputJSON x = None \<and> ErrorMessage x = []
       \<and> RetryCount x = (if trigger = RetryTriggerManual then 0 else RetryCount r + 1)"
    and rows: "\<forall>n. rel_option (row_retried w (retry_part w i st) n) (row_at i n st) (row_at i n st')"
    and b: "\<forall>b\<in>set (st_binds st'). ab_TaskID b = i \<and> ab_NodeName b \<in> retry_part w i st \<longrightarrow> isAwaitBindingTerminal (ab_Status b)"
  have "\<exists>r1. row_at i n st' = Some r1 \<and> (if keeps_result r0 then norm_row r1 = norm_row r0
      else if n \<in> retry_part w i st then node_retried w n r1 else State r1 = State r0)" if "row_at i n st = Some r0" for n r0
  proof -
    have "rel_option (row_retried w (retry_part w i st) n) (Some r0) (row_at i n st')" using rows that by metis
    then obtain r1 where "row_at i n st' = Some r1" "row_retried w (retry_part w i st) n r0 r1" by (auto simp: option_rel_Some1)
    with row_retried_cases [OF this(2)] show ?thesis by auto
  qed
  with task x b show ?thesis by blast
qed

text \<open>The rows of a task as the engine loads them.\<close>

definition task_rows :: "int \<Rightarrow> store \<Rightarrow> name \<rightharpoonup> node_runtime" where
  "task_rows i st = plain_rows (\<lambda>n. row_at i n st)"

lemma truncate_sel [simp]:
  "Name (node_runtime.truncate r) = Name r" "State (node_runtime.truncate r) = State r" "Error (node_runtime.truncate r) = Error r"
  "Output (node_runtime.truncate r) = Output r" "rt_ActivatedEdges (node_runtime.truncate r) = rt_ActivatedEdges r"
  by (simp_all add: node_runtime.truncate_def)

lemma retry_part_closed:
  assumes "wf_graph (cw_graph w)" and "p \<in> set (Parents (cw_graph w) n)" and "p \<in> retry_part w i st"
  shows "n \<in> retry_part w i st"
proof -
  have "(p, n) \<in> edge_rel (cw_graph w)" using assms(1,2) by (simp add: edge_rel_def wf_graph_parent_iff)
  with assms(3) show ?thesis unfolding retry_part_def by (blast intro: rtrancl_into_rtrancl)
qed

lemma retry_part_roots:
  assumes "row_at i n st = Some r" and "retry_root (State r)"
  shows "n \<in> retry_part w i st"
proof -
  have "r \<in> set (node_FindByTaskID i st)" "Name r = n" using row_atD [OF assms(1)] by (auto simp: node_FindByTaskID_def node_key_def)
  with assms(2) have "n \<in> set (collectRetryRoots (node_FindByTaskID i st))" by (auto simp: collectRetryRoots_def)
  then have "n \<in> set (retry_roots (node_FindByTaskID i st))" by (auto simp: retry_roots_def)
  then show ?thesis unfolding retry_part_def by blast
qed

lemma restored_state_rows:
  "restored_state w (task_rows i st) n = (case row_at i n st of None \<Rightarrow> NodePending | Some r \<Rightarrow> State (restored w (node_runtime.truncate r)))"
  by (simp add: restored_state_def task_rows_def plain_rows_def split: option.split)

lemma restored_truncate:
  "State (restored w (node_runtime.truncate r)) = (if rerun_unpersisted w (node_runtime.truncate r) \<or> State r \<in> {NodeRunning, NodeRetrying, NodeReady}
     then NodePending else State r)"
  by (simp add: restored_def reset_pending_def)

lemma rerun_unpersisted_norm:
  assumes "norm_row r = norm_row r'"
  shows "rerun_unpersisted w (node_runtime.truncate r) = rerun_unpersisted w (node_runtime.truncate r')"
  using norm_row_eqD [OF assms] by (simp add: rerun_unpersisted_def)

text \<open>Outside the part that is reset a finished parent restores to the same state.\<close>

lemma restored_state_kept:
  assumes rows: "rel_option (row_retried w R p) (row_at i p st) (row_at i p st')" and "p \<notin> R"
    and fin: "restored_state w (task_rows i st) p \<in> {NodeSuccess, NodeSkipped}"
  shows "restored_state w (task_rows i st') p = restored_state w (task_rows i st) p"
proof -
  from fin obtain r0 where r0: "row_at i p st = Some r0" by (auto simp: restored_state_rows split: option.splits)
  with rows obtain r1 where r1: "row_at i p st' = Some r1" and c: "row_retried w R p r0 r1" by (auto simp: option_rel_Some1)
  note rr = row_retried_cases [OF c]
  have s: "State r1 = State r0" using rr(3) assms(2) by simp
  have "State r0 = NodeSuccess \<or> State r0 = NodeSkipped"
    using fin by (auto simp: restored_state_rows r0 restored_truncate split: if_splits)
  then show ?thesis
  proof
    assume "State r0 = NodeSuccess"
    then have "norm_row r1 = norm_row r0" by (intro rr(1)) (simp add: keeps_result_def)
    from rerun_unpersisted_norm [OF this, of w] show ?thesis using s by (simp add: restored_state_rows r0 r1 restored_truncate)
  next
    assume "State r0 = NodeSkipped"
    then show ?thesis using s by (simp add: restored_state_rows r0 r1 restored_truncate rerun_unpersisted_def)
  qed
qed

lemma retry_recoverable:
  assumes g: "wf_graph (cw_graph w)" and rec: "recoverable w (task_rows i st)"
    and rows: "\<forall>n. rel_option (row_retried w (retry_part w i st) n) (row_at i n st) (row_at i n st')"
    and none: "\<forall>n\<in>retry_part w i st. \<forall>r. row_at i n st = Some r \<longrightarrow> \<not> keeps_result r"
  shows "recoverable w (task_rows i st')"
  unfolding recoverable_def
proof (intro allI impI)
  let ?R = "retry_part w i st"
  fix n rt assume "task_rows i st' n = Some rt"
  then obtain r1 where r1: "row_at i n st' = Some r1" and rt: "rt = node_runtime.truncate r1"
    by (auto simp: task_rows_def plain_rows_def)
  have rel: "rel_option (row_retried w ?R n) (row_at i n st) (Some r1)" using rows r1 by metis
  then obtain r0 where r0: "row_at i n st = Some r0" and c: "row_retried w ?R n r0 r1" by (auto simp: option_rel_Some2)
  note rr = row_retried_cases [OF c]
  have ok: "row_ok w (task_rows i st) n (node_runtime.truncate r0)"
    using rec r0 by (simp add: recoverable_def task_rows_def plain_rows_def)
  then have nm: "Name r1 = n" "n \<in> dom (gNodes (cw_graph w))" using rr(4) by (simp_all add: row_ok_def)
  show "row_ok w (task_rows i st') n rt"
  proof (cases "n \<in> ?R")
    case True
    with rr(2) none r0 have "State r1 = NodePending" by (auto simp: node_retried_def)
    with nm show ?thesis
      by (simp add: row_ok_def rt crashed_def isTerminal_def restored_truncate)
  next
    case False
    then have s: "State r1 = State r0" "Error r1 = Error r0" "rt_ActivatedEdges r1 = rt_ActivatedEdges r0" using rr(3) by auto
    have nr: "State r0 \<noteq> NodeRunning" using False retry_part_roots [OF r0] by (auto simp: retry_root_def)
    have "State (restored w rt) \<in> {NodeSuccess, NodeSuccessPendingEdges} \<Longrightarrow> Parents (cw_graph w) n = []
         \<or> ((\<forall>p\<in>set (Parents (cw_graph w) n). restored_state w (task_rows i st') p \<in> {NodeSuccess, NodeSkipped})
            \<and> (\<exists>p\<in>set (Parents (cw_graph w) n). restored_state w (task_rows i st') p = NodeSuccess))"
    proof -
      assume su: "State (restored w rt) \<in> {NodeSuccess, NodeSuccessPendingEdges}"
      then have "keeps_result r0" using s(1) by (auto simp: rt restored_truncate keeps_result_def split: if_splits)
      from rerun_unpersisted_norm [OF rr(1) [OF this], of w] have "State (restored w rt) = State (restored w (node_runtime.truncate r0))"
        using s(1) by (simp add: rt restored_truncate)
      with su ok have par: "Parents (cw_graph w) n = []
         \<or> ((\<forall>p\<in>set (Parents (cw_graph w) n). restored_state w (task_rows i st) p \<in> {NodeSuccess, NodeSkipped})
            \<and> (\<exists>p\<in>set (Parents (cw_graph w) n). restored_state w (task_rows i st) p = NodeSuccess))" by (simp add: row_ok_def)
      moreover have "p \<notin> ?R" if "p \<in> set (Parents (cw_graph w) n)" for p using retry_part_closed [OF g that] False by blast
      ultimately show ?thesis using restored_state_kept [OF spec [OF rows]] by metis
    qed
    with ok nm s nr show ?thesis by (simp add: row_ok_def rt crashed_def)
  qed
qed

subsection \<open>Clearing one item of a map node\<close>

text \<open>
  Clearing the result of one item of a map node, for a child that is run again: the checkpoint
  stays consistent (the counter is the number of results, and the three tables have the same
  keys), exactly that item has lost its result, and no other row and no task has changed.
\<close>

lemma cleared_item_only:
  assumes "keys_ok st" and "row_at i n st = Some r" and "Checkpoint r = Some cp" and "map_cp_ok tot cp"
    and "GetByID child st = Inr t" and "getMapChildIndexForRetry t = Some k"
    and "ClearMapChildCheckpointResult e i n child st = (None, st')"
  shows "st_tasks st' = st_tasks st \<and> st_binds st' = st_binds st \<and> (\<forall>j m. (j, m) \<noteq> (i, n) \<longrightarrow> row_at j m st' = row_at j m st)
    \<and> (\<exists>r' cp'. row_at i n st' = Some r' \<and> State r' = State r \<and> Checkpoint r' = Some cp' \<and> map_cp_ok tot cp' \<and> \<not> mapCheckpointHasResult cp' k
        \<and> (\<forall>j. j \<noteq> k \<longrightarrow> map_of (sub_map cp' ''results'') (FormatInt j) = map_of (sub_map cp ''results'') (FormatInt j)))"
proof -
  have "r \<in> set (node_FindByTaskID i st)" "Name r = n" using row_atD [OF assms(2)] by (auto simp: node_FindByTaskID_def node_key_def)
  then have "List.find (\<lambda>r. Name r = n) (node_FindByTaskID i st) \<noteq> None" by (auto simp: find_None_iff)
  then obtain r1 where r1: "List.find (\<lambda>r. Name r = n) (node_FindByTaskID i st) = Some r1" by blast
  then have "r1 \<in> set (node_FindByTaskID i st)" "Name r1 = n" by (auto simp: find_Some_iff)
  then have "row_at i n st = Some r1" using row_at_Some [OF assms(1), of i n r1] by (auto simp: node_FindByTaskID_def node_key_def)
  then have eq: "r1 = r" using assms(2) by simp
  show ?thesis
  proof (cases "mapCheckpointHasResult cp k")
    case False
    with assms(3-7) r1 eq have "st' = st" by (simp add: ClearMapChildCheckpointResult_def)
    with False assms(2-4) show ?thesis by auto
  next
    case True
    let ?r = "r\<lparr>Checkpoint := Some (cleared_cp (FormatInt k) cp)\<rparr>"
    have u: "node_Update e ?r st = (None, st')" using assms(3-7) r1 eq True by (simp add: ClearMapChildCheckpointResult_def)
    have key: "node_key ?r = (i, n)" using row_atD [OF assms(2)] by (simp add: node_key_def)
    from db_write_ok [OF u [unfolded node_Update_def]] have same: "st_tasks st' = st_tasks st" "st_binds st' = st_binds st" by simp_all
    have new: "row_at i n st' = Some (node_put ?r r)" using node_Update_row_at [OF u, of i n] key assms(2) by simp
    have old: "row_at j m st' = row_at j m st" if "(j, m) \<noteq> (i, n)" for j m using node_Update_row_at [OF u, of j m] key that by auto
    have ok: "map_cp_ok tot (cleared_cp (FormatInt k) cp)"
      by (rule cleared_cp_ok [OF assms(4)]) (use True in \<open>simp add: mapCheckpointHasResult_def map_of_eq_None_iff\<close>)
    have res: "map_of (sub_map (cleared_cp (FormatInt k) cp) ''results'') x = (if x = FormatInt k then None else map_of (sub_map cp ''results'') x)" for x
      by (simp add: cleared_parts(1) delete_conv)
    have "\<not> mapCheckpointHasResult (cleared_cp (FormatInt k) cp) k" by (simp add: mapCheckpointHasResult_def res)
    moreover have "\<forall>j. j \<noteq> k \<longrightarrow> map_of (sub_map (cleared_cp (FormatInt k) cp) ''results'') (FormatInt j) = map_of (sub_map cp ''results'') (FormatInt j)"
      by (simp add: res FormatInt_inj)
    moreover have "State (node_put ?r r) = State r" "Checkpoint (node_put ?r r) = Some (cleared_cp (FormatInt k) cp)" by (simp_all add: node_put_def)
    ultimately show ?thesis using same new old ok by blast
  qed
qed

subsection \<open>A concrete retry\<close>

text \<open>Tasks are created after their parents, with a larger id.\<close>

lemma kid_rel_acyclic:
  assumes "\<forall>t\<in>set (st_tasks st). \<forall>p. ParentID t = Some p \<longrightarrow> p < task_id t"
  shows "acyclic (kid_rel st)"
proof (rule acyclic_subset)
  show "acyclic {(x, y). x < (y :: int)}" by (rule acyclicI_order [where f = uminus]) simp
  show "kid_rel st \<subseteq> {(x, y). x < y}" using assms by (auto simp: kid_rel_def)
qed

definition sample_services :: retry_services where
  "sample_services = \<lparr>rv_env = sample_env True, rv_version = (\<lambda>_. Inr solo), rv_registry = sample_registry,
     rv_orders = (\<lambda>def. (remdups (map nd_Name (wf_Nodes def)), remdups (map nd_Name (wf_Nodes def)))),
     rv_range = (\<lambda>m. sorted_list_of_set (dom m)), rv_visit = sorted_list_of_set\<rparr>"

lemma sample_services_sel [simp]:
  "rv_env sample_services = sample_env True" "rv_range sample_services m = sorted_list_of_set (dom m)"
  "rv_visit sample_services S = sorted_list_of_set S"
  by (simp_all add: sample_services_def)

lemma sample_visits: "visits_keys sample_services"
  by (simp add: visits_keys_def sample_services_def visits_def)

lemma sample_load_workflow:
  obtains w nd where "load_workflow sample_services v = Inr w" "compiled sample_registry solo w" "wf_graph (cw_graph w)"
    "cw_nodes w ''a'' = Some nd" "n_Type nd = ''start''" "edge_rel (cw_graph w) = {}" "dom (gNodes (cw_graph w)) = {''a''}"
proof -
  have "visits (remdups (map nd_Name (wf_Nodes solo))) solo" by (simp add: visits_def)
  from Builder_Build_cases [OF this this, of "sample_env True" sample_registry] solo_acceptable obtain w
    where w: "Builder_Build (sample_env True) sample_registry (remdups (map nd_Name (wf_Nodes solo))) (remdups (map nd_Name (wf_Nodes solo))) solo = Some (Ret (Inr w))"
      and c: "compiled sample_registry solo w" by blast
  from w have l: "load_workflow sample_services v = Inr w" by (simp add: load_workflow_def sample_services_def)
  from c have B: "Build solo = Inr (cw_graph w)" by (simp add: compiled_def)
  from c obtain s where "cw_nodes w ''a'' = Some (compile_node (sample_node ''a'' ''start'' []) s)"
    by (auto simp: compiled_def solo_def sample_node_def)
  then obtain nd where nd: "cw_nodes w ''a'' = Some nd" "n_Type nd = ''start''" by (simp add: compile_node_def sample_node_def)
  have g: "wf_graph (cw_graph w)" "Edges (cw_graph w) u = []" "dom (gNodes (cw_graph w)) = {''a''}" for u
    using Build_Inr [OF B] by (auto simp: solo_def sample_node_def)
  then have "edge_rel (cw_graph w) = {}" by (simp add: edge_rel_def wf_graph_children [OF g(1)])
  from that [OF l c g(1) nd this g(3)] show thesis .
qed

text \<open>A failed task with one failed node, and a finished task.\<close>

definition retry_store :: store where
  "retry_store = \<lparr>st_tasks = [sample_row 1 None TaskFailed, sample_row 2 None TaskSuccess], st_nodes = [sample_nrow 10 1 ''a'' NodeFailed],
     st_binds = [], st_queue = [], st_events = [], st_writes = 0\<rparr>"

lemma retry_store_ok: "keys_ok retry_store" "acyclic (kid_rel retry_store)" "counts_ok retry_store"
proof -
  show "acyclic (kid_rel retry_store)" by (rule kid_rel_acyclic) (simp add: retry_store_def)
  show "keys_ok retry_store" by (simp add: keys_ok_def retry_store_def node_key_def)
  show "counts_ok retry_store"
    by (simp add: counts_ok_def retry_store_def sample_row_def task.defs task_row.defs sample_task_def MaxAutoRetryCount_def)
qed

lemma retry_contained_witness:
  "\<exists>x st'. PrepareTaskRetry 3 sample_services 1 RetryTriggerManual [] [] retry_store = Some (x, st')
     \<and> counts_ok st' \<and> sample_row 2 None TaskSuccess \<in> set (st_tasks st')"
proof -
  have l: "Suc (length (st_tasks retry_store)) = 3" by (simp add: retry_store_def)
  from retry_contained [OF retry_store_ok, of sample_services 1 RetryTriggerManual "[]" "[]", unfolded l] obtain x st'
    where st': "PrepareTaskRetry 3 sample_services 1 RetryTriggerManual [] [] retry_store = Some (x, st')" "counts_ok st'"
      "\<forall>r\<in>set (st_tasks retry_store). Status r = TaskSuccess \<longrightarrow> r \<in> set (st_tasks st')" by blast
  moreover have "sample_row 2 None TaskSuccess \<in> set (st_tasks retry_store)" by (simp add: retry_store_def)
  ultimately show ?thesis by (metis sample_row_sel(3))
qed

lemma retry_store_run: "\<exists>st'. PrepareTaskRetry 1 sample_services 1 RetryTriggerManual [] [] retry_store = Some (None, st')"
proof (rule sample_load_workflow [of 1])
  fix w nd
  assume l: "load_workflow sample_services 1 = Inr w" and g: "wf_graph (cw_graph w)" and nd: "cw_nodes w ''a'' = Some nd" "n_Type nd = ''start''"
    and e: "edge_rel (cw_graph w) = {}"
  have sub: "collectRetrySubtree w [''a''] = {''a''}" by (simp add: collectRetrySubtree_iff [OF g] e)
  have v: "WorkflowVersionID (sample_row 1 None TaskFailed) = 1" "Checkpoint (sample_nrow 10 1 ''a'' NodeFailed) = None"
    by (simp_all add: sample_row_def task.defs task_row.defs sample_task_def sample_nrow_def node_runtime.defs node_row.defs sample_rt_def)
  show ?thesis
    unfolding One_nat_def
    by (simp add: PrepareTaskRetry.simps GetByID_def retry_store_def loaded_def retryable_def v l Let_def node_FindByTaskID_def
        runtime_map_def repairCompositeNodeCheckpointForRetry_def repair_row_def nd on_db_def cancelChildTasksForRetry_def
        ListChildrenByParentID_def reviveProtectedChildrenForRetry_def TrimSpace_def trim_by_def failed_reset_def collectRetryRoots_def retry_root_def
        sub resetNodeRuntimeForRetry_def keeps_result_def save_row_def node_Update_def db_write_def sample_env_def
        resetAwaitBindingsForRetry_def bind_ListByTaskID_def task_Update_def)
qed

lemma retry_store_row: "row_at 1 ''a'' retry_store = Some (sample_nrow 10 1 ''a'' NodeFailed)"
  by (simp add: row_at_def retry_store_def node_key_def)

theorem retry_resets_failed_part_witness:
  "\<exists>st' x r1. PrepareTaskRetry 1 sample_services 1 RetryTriggerManual [] [] retry_store = Some (None, st')
     \<and> x \<in> set (st_tasks st') \<and> task_id x = 1 \<and> Status x = TaskPending \<and> row_at 1 ''a'' st' = Some r1 \<and> State r1 = NodePending"
proof -
  obtain st' where run: "PrepareTaskRetry 1 sample_services 1 RetryTriggerManual [] [] retry_store = Some (None, st')"
    using retry_store_run by blast
  from retry_resets_failed_part [OF retry_store_ok(1,2) sample_visits _ run] obtain w x
    where x: "x \<in> set (st_tasks st')" "task_id x = 1" "Status x = TaskPending"
      and rows: "\<forall>n r0. row_at 1 n retry_store = Some r0 \<longrightarrow> (\<exists>r1. row_at 1 n st' = Some r1
         \<and> (if keeps_result r0 then norm_row r1 = norm_row r0
            else if n \<in> retry_part w 1 retry_store then node_retried w n r1 else State r1 = State r0))" by auto
  have "''a'' \<in> retry_part w 1 retry_store" by (rule retry_part_roots [OF retry_store_row]) (simp add: retry_root_def)
  then obtain r1 where "row_at 1 ''a'' st' = Some r1" "State r1 = NodePending"
    using spec [OF spec [OF rows, of "''a''"], of "sample_nrow 10 1 ''a'' NodeFailed"] retry_store_row
    by (auto simp: keeps_result_def node_retried_def)
  with run x show ?thesis by blast
qed

definition map_cp :: gmap where
  "map_cp = [(''total'', VInt 2), (''done'', VInt 2), (''results'', VMap [(''0'', VMap []), (''1'', VMap [])]),
     (''item_hashes'', VMap [(''0'', VStr ''h''), (''1'', VStr ''h'')]), (''reused_items'', VMap [(''0'', VBool False), (''1'', VBool False)])]"

definition map_store :: store where
  "map_store = \<lparr>st_tasks = [sample_row 1 None TaskSuspended, (sample_row 2 (Some 1) TaskFailed)\<lparr>MapIndex := Some 1\<rparr>],
     st_nodes = [(sample_nrow 10 1 ''m'' NodeRunning)\<lparr>Checkpoint := Some map_cp\<rparr>], st_binds = [], st_queue = [], st_events = [], st_writes = 0\<rparr>"

lemma index_keys [simp]: "FormatInt 0 = ''0''" "FormatInt 1 = ''1''"
  by code_simp+

lemma map_cp_sample: "map_cp_ok 2 map_cp"
proof -
  have "{0..<int 2} = {0, 1}" by auto
  then show ?thesis by (simp add: map_cp_ok_def map_cp_def sub_map_def cfg_def ToInt64_def)
qed

lemma cleared_item_only_witness:
  "\<exists>st' r' cp'. ClearMapChildCheckpointResult (sample_env True) 1 ''m'' 2 map_store = (None, st') \<and> row_at 1 ''m'' st' = Some r'
     \<and> Checkpoint r' = Some cp' \<and> map_cp_ok 2 cp' \<and> \<not> mapCheckpointHasResult cp' 1 \<and> mapCheckpointHasResult cp' 0"
proof -
  let ?n = "(sample_nrow 10 1 ''m'' NodeRunning)\<lparr>Checkpoint := Some map_cp\<rparr>" and ?t = "(sample_row 2 (Some 1) TaskFailed)\<lparr>MapIndex := Some 1\<rparr>"
  have k: "keys_ok map_store" by (simp add: keys_ok_def map_store_def node_key_def)
  have r: "row_at 1 ''m'' map_store = Some ?n" by (simp add: row_at_def map_store_def node_key_def)
  have t: "GetByID 2 map_store = Inr (loaded ?t)" by (simp add: GetByID_def map_store_def)
  have i: "getMapChildIndexForRetry (loaded ?t) = Some 1" by (simp add: getMapChildIndexForRetry_def loaded_def)
  obtain st' where run: "ClearMapChildCheckpointResult (sample_env True) 1 ''m'' 2 map_store = (None, st')"
  proof -
    have "node_FindByTaskID 1 map_store = [?n]" by (simp add: node_FindByTaskID_def map_store_def)
    moreover have "\<exists>st'. node_Update (sample_env True) x map_store = (None, st')" for x by (simp add: node_Update_def db_write_def sample_env_def)
    ultimately have "\<exists>st'. ClearMapChildCheckpointResult (sample_env True) 1 ''m'' 2 map_store = (None, st')"
      by (simp add: ClearMapChildCheckpointResult_def t i)
    then show thesis using that by blast
  qed
  from cleared_item_only [OF k r _ map_cp_sample t i run] obtain r' cp' where "row_at 1 ''m'' st' = Some r'" "Checkpoint r' = Some cp'"
    "map_cp_ok 2 cp'" "\<not> mapCheckpointHasResult cp' 1"
    "\<forall>j. j \<noteq> 1 \<longrightarrow> map_of (sub_map cp' ''results'') (FormatInt j) = map_of (sub_map map_cp ''results'') (FormatInt j)" by auto
  moreover from spec [OF this(5), of 0] have "mapCheckpointHasResult cp' 0"
    by (simp add: mapCheckpointHasResult_def map_cp_def sub_map_def)
  ultimately show ?thesis using run by blast
qed

end
