(* ===== verification/Flux_Resume.thy ===== *)
theory Flux_Resume
  imports Flux_Retry
begin

text \<open>
  \<^verbatim>\<open>engine/await_complete.go\<close>, \<^verbatim>\<open>engine/resume.go\<close>: an external event ends the node a suspended task is
  waiting for and the run goes on. The binding is claimed, the node is moved to a state whose edges
  are still to be computed, and the task is loaded and run again. All tables are those of the one
  task; the binding of a node is addressed by the node's name.
\<close>

subsection \<open>Payloads\<close>

definition AwaitUsageFactsMetaKey :: string where "AwaitUsageFactsMetaKey = ''__usage_facts''"

definition splitAwaitEventPayload :: "gmap \<Rightarrow> gmap \<times> gval list" where
  "splitAwaitEventPayload m =
     (filter (\<lambda>(k, _). k \<noteq> AwaitUsageFactsMetaKey) m,
      case map_of m AwaitUsageFactsMetaKey of None \<Rightarrow> [] | Some v \<Rightarrow> toUsageFacts v)"

definition extractAwaitUsageFacts :: "gmap \<Rightarrow> gval list" where
  "extractAwaitUsageFacts m = (case map_of m AwaitUsageFactsMetaKey of None \<Rightarrow> [] | Some v \<Rightarrow> toUsageFacts v)"

definition buildResumePublicOutput :: "gmap \<Rightarrow> node_runtime \<Rightarrow> gmap" where
  "buildResumePublicOutput meta rt =
     (if meta \<noteq> [] then fst (splitAwaitEventPayload meta)
      else case Output rt of None \<Rightarrow> [] | Some m \<Rightarrow> m)"

subsection \<open>Closing the node\<close>

text \<open>The conditional update of the node row: the row count says whether this event was the first.\<close>

definition active_node :: "node_state \<Rightarrow> bool" where
  "active_node s \<longleftrightarrow> s \<in> {NodeRunning, NodeRetrying, NodeAwaiting}"

definition completed_row :: "int \<Rightarrow> gmap \<Rightarrow> string \<Rightarrow> node_runtime \<Rightarrow> node_runtime" where
  "completed_row now out err rt =
     rt\<lparr>Output := Some out, FinishedAt := Some now, Error := (if err = [] then Error rt else err),
        State := (if err = [] then NodeSuccessPendingEdges else NodeFailedPendingEdges)\<rparr>"

definition AttemptCompletePendingEdges :: "env \<Rightarrow> name \<Rightarrow> gmap \<Rightarrow> string \<Rightarrow> run_ctx \<Rightarrow> (go_error + bool) \<times> run_ctx" where
  "AttemptCompletePendingEdges e n out err c =
     (case db_err e (writes c) of
        Some m \<Rightarrow> (Inl m, c\<lparr>writes := Suc (writes c)\<rparr>)
      | None \<Rightarrow>
         (case dbNodes c n of
            Some rt \<Rightarrow>
              if active_node (State rt)
              then (Inr True, c\<lparr>writes := Suc (writes c),
                        dbNodes := (dbNodes c)(n \<mapsto> completed_row (clock e (writes c)) out err rt)\<rparr>)
              else (Inr False, c\<lparr>writes := Suc (writes c)\<rparr>)
          | None \<Rightarrow> (Inr False, c\<lparr>writes := Suc (writes c)\<rparr>)))"

definition completeAsyncNode :: "env \<Rightarrow> name \<Rightarrow> gmap \<Rightarrow> string \<Rightarrow> run_ctx \<Rightarrow> (go_error + bool) \<times> run_ctx" where
  "completeAsyncNode e n out err c = AttemptCompletePendingEdges e n (fst (splitAwaitEventPayload out)) err c"

subsection \<open>ResumeTask\<close>

definition loaded_task :: "task \<Rightarrow> task" where
  "loaded_task t = t\<lparr>ErrorMessage := [], WorkerID := []\<rparr>"

definition loadWorkflowForTask :: "retry_services \<Rightarrow> task \<Rightarrow> go_error + workflow_def \<times> compiled_workflow" where
  "loadWorkflowForTask sv t =
     (case rv_version sv (WorkflowVersionID t) of
        Inl m \<Rightarrow> Inl m
      | Inr def \<Rightarrow> (case load_workflow sv (WorkflowVersionID t) of Inl m \<Rightarrow> Inl m | Inr w \<Rightarrow> Inr (def, w)))"

definition enqueue_task :: "env \<Rightarrow> int \<Rightarrow> run_ctx \<Rightarrow> run_ctx" where
  "enqueue_task e i c =
     (case db_err e (writes c) of
        Some m \<Rightarrow> c\<lparr>writes := Suc (writes c)\<rparr>
      | None \<Rightarrow> c\<lparr>writes := Suc (writes c), taskQueue := taskQueue c @ [i]\<rparr>)"

definition requeuePendingEdgesResume :: "env \<Rightarrow> name \<Rightarrow> run_ctx \<Rightarrow> run_ctx" where
  "requeuePendingEdgesResume e n c =
     (case (dbNodes c n, dbTask c) of
        (Some rt, Some t) \<Rightarrow>
          if State rt \<noteq> NodeSuccessPendingEdges \<and> State rt \<noteq> NodeFailedPendingEdges then c
          else (case Status t of
              TaskSuspended \<Rightarrow>
                (case taskRepo_Update e ((loaded_task t)\<lparr>Status := TaskPending\<rparr>) c of
                   (Some m, c1) \<Rightarrow> c1
                 | (None, c1) \<Rightarrow> enqueue_task e (task_id t) c1)
            | TaskPending \<Rightarrow> enqueue_task e (task_id t) c
            | TaskRunning \<Rightarrow> enqueue_task e (task_id t) c
            | _ \<Rightarrow> c)
      | _ \<Rightarrow> c)"

definition resumed_rt :: "env \<Rightarrow> gmap \<Rightarrow> gmap \<Rightarrow> node_runtime \<Rightarrow> node_runtime" where
  "resumed_rt e out meta rt =
     rt\<lparr>Output := Some out, OutputHash := json_hash e [] out,
        Checkpoint := (if extractAwaitUsageFacts meta = [] then Checkpoint rt
                       else Some (AList.update ''usage_facts'' (VList (extractAwaitUsageFacts meta))
                              (case Checkpoint rt of None \<Rightarrow> [] | Some cp \<Rightarrow> cp)))\<rparr>"

definition sync_resumed :: "env \<Rightarrow> name \<Rightarrow> gmap \<Rightarrow> gmap \<Rightarrow> run_ctx \<Rightarrow> run_ctx" where
  "sync_resumed e n out meta c =
     (case Runtime c n of
        None \<Rightarrow> c
      | Some rt \<Rightarrow> if out = [] then c else set_runtime n (resumed_rt e out meta rt) c)"

definition final_failed :: "task \<Rightarrow> string \<Rightarrow> name \<Rightarrow> event" where
  "final_failed t reason n =
     \<lparr>ev_TaskID = task_id t, ev_RootTaskID = RootID t, ev_Step = ''task'', ev_Type = ''task_final_failed'',
      ev_Meta = [(''final_reason'', VStr ''resume_failed''), (''error_message'', VStr reason), (''retry_count'', VInt (RetryCount t)),
        (''retry_limit'', VInt 0), (''retry_exhausted'', VBool False), (''source'', VStr ''engine.resume_task''),
        (''resume_node'', VStr n), (''last_run_status'', VStr (task_status_str TaskFailed)), (''can_manual_resume'', VBool True)]\<rparr>"

definition publishResumeFinalFailed :: "task \<Rightarrow> name \<Rightarrow> run_result \<Rightarrow> run_ctx \<Rightarrow> run_ctx" where
  "publishResumeFinalFailed t n r c =
     (let reason = (case rr_Err r of None \<Rightarrow> ''resume execution failed'' | Some m \<Rightarrow> if m = [] then ''resume execution failed'' else m)
      in publish (final_failed t reason n) c)"

text \<open>
  The part of \<^verbatim>\<open>ResumeTask\<close> that starts when the lock is held and the node and the task were
  found: load the rows, give the node its output, run.
\<close>

definition resume_run :: "retry_services \<Rightarrow> name \<Rightarrow> gmap \<Rightarrow> node_runtime \<Rightarrow> task \<Rightarrow> workflow_def \<Rightarrow> compiled_workflow
    \<Rightarrow> run_ctx \<Rightarrow> (run_result \<times> run_ctx) exec" where
  "resume_run sv n meta row t def w c =
     (let e = rv_env sv
      in case loadOrInitRuntime e w (newRunContext def (c\<lparr>Task := t\<rparr>)) of
           (Some m, c1) \<Rightarrow> Ret (run_failed m, c1)
         | (None, c1) \<Rightarrow>
            (let c2 = rebuildActivatedEdges e c1
             in case cw_nodes w n of
                  None \<Rightarrow> Ret (run_failed (''node '' @ n @ '' not found''), c2)
                | Some nd \<Rightarrow>
                   (let out = buildResumePublicOutput meta row
                    in case (if out = [] then (None, out, c2) else SetNodeOutput n out (OutputSchema nd) c2) of
                         (Some m, _, c3) \<Rightarrow> Ret (run_failed m, c3)
                       | (None, out', c3) \<Rightarrow>
                          bind_exec (executeTask e w False (sync_resumed e n out' meta c3)) (\<lambda>(r, c4).
                            Ret (r, if rr_Status r = RunFailed then publishResumeFinalFailed t n r c4 else c4)))))"

text \<open>
  The lock is taken from the locking service: an error, or whether it was obtained. After an error
  a goroutine puts the task back into the queue some seconds later; its effect is part of the
  result here.
\<close>

definition ResumeTask :: "retry_services \<Rightarrow> go_error + bool \<Rightarrow> name \<Rightarrow> gmap \<Rightarrow> run_ctx \<Rightarrow> (run_result \<times> run_ctx) exec" where
  "ResumeTask sv lk n meta c =
     (case lk of
        Inl m \<Rightarrow> Ret (run_ok RunNoop, requeuePendingEdgesResume (rv_env sv) n c)
      | Inr got \<Rightarrow>
         if \<not> got then Ret (run_ok RunNoop, c)
         else case dbNodes c n of
             None \<Rightarrow> Ret (run_failed (''check node status error: '' @ record_not_found), c)
           | Some row \<Rightarrow>
              if isTerminal (State row) then Ret (run_ok RunNoop, c)
              else case dbTask c of
                  None \<Rightarrow> Ret (run_failed record_not_found, c)
                | Some t0 \<Rightarrow>
                   (let t = loaded_task t0
                    in if Status t \<noteq> TaskSuspended \<and> Status t \<noteq> TaskRunning
                       then Ret (run_failed (''task not resumable by engine resume, use prepareTaskRetry first, current status='' @ task_status_str (Status t)), c)
                       else case loadWorkflowForTask sv t of
                           Inl m \<Rightarrow> Ret (run_failed m, c)
                         | Inr (def, w) \<Rightarrow> resume_run sv n meta row t def w c))"

subsection \<open>CompleteAwaitNode and CompleteNodeAndResume\<close>

definition claimed_binding :: "string \<Rightarrow> gmap \<Rightarrow> await_binding \<Rightarrow> await_binding" where
  "claimed_binding source pub b = b\<lparr>ab_LastEventSource := Some source, ab_LastEventPayload := Some pub, ab_Status := AwaitBindingCompleting\<rparr>"

definition failed_binding :: "int \<Rightarrow> string \<Rightarrow> await_binding \<Rightarrow> await_binding" where
  "failed_binding now m b = b\<lparr>ab_Status := AwaitBindingFailed, ab_ErrorMessage := m, ab_FailedAt := Some now\<rparr>"

definition completed_binding :: "int \<Rightarrow> gmap \<Rightarrow> await_binding \<Rightarrow> await_binding" where
  "completed_binding now res b = b\<lparr>ab_Status := AwaitBindingCompleted, ab_ResultPayload := Some res, ab_CompletedAt := Some now\<rparr>"

definition settle_binding :: "env \<Rightarrow> name \<Rightarrow> await_status \<Rightarrow> await_binding \<Rightarrow> run_ctx \<Rightarrow> run_ctx" where
  "settle_binding e n target b c = snd (bindingRepo_Update e b (snd (TransitionStatus e n AwaitBindingCompleting target c)))"

text \<open>
  The usage facts are put back into the payload before the task is resumed. The map is the one
  the binding's result is copied from later, so that they end up in the stored result.
\<close>

definition CompleteAwaitNode :: "retry_services \<Rightarrow> go_error + bool \<Rightarrow> name \<Rightarrow> gmap \<Rightarrow> string \<Rightarrow> string \<Rightarrow> run_ctx
    \<Rightarrow> (run_result \<times> run_ctx) exec" where
  "CompleteAwaitNode sv lk n payload err source c =
     (let e = rv_env sv
      in case dbBindings c n of
           None \<Rightarrow> Ret (run_ok RunNoop, c)
         | Some b \<Rightarrow>
            (case ClaimCompleting e n [AwaitBindingWaiting] c of
               (Inl m, c1) \<Rightarrow> Ret (run_failed m, c1)
             | (Inr False, c1) \<Rightarrow> Ret (run_ok RunNoop, c1)
             | (Inr True, c1) \<Rightarrow>
                (let now = clock e (writes c1);
                     pub = fst (splitAwaitEventPayload payload);
                     facts = snd (splitAwaitEventPayload payload);
                     b1 = claimed_binding source pub b;
                     c2 = snd (bindingRepo_Update e b1 c1)
                 in case AttemptCompletePendingEdges e n pub err c2 of
                      (Inl m, c3) \<Rightarrow> Ret (run_failed m, settle_binding e n AwaitBindingFailed (failed_binding now m b1) c3)
                    | (Inr False, c3) \<Rightarrow> Ret (run_ok RunNoop, c3)
                    | (Inr True, c3) \<Rightarrow>
                       (let meta = (if facts = [] then pub else AList.update AwaitUsageFactsMetaKey (VList facts) pub)
                        in bind_exec (ResumeTask sv lk n meta c3) (\<lambda>(r, c4). Ret (r,
                             if err \<noteq> [] \<or> rr_Status r = RunFailed
                             then settle_binding e n AwaitBindingFailed
                                    (failed_binding now (if err \<noteq> [] then err else case rr_Err r of None \<Rightarrow> [] | Some m \<Rightarrow> m) b1) c4
                             else settle_binding e n AwaitBindingCompleted (completed_binding now meta b1) c4))))))"

definition CompleteNodeAndResume :: "retry_services \<Rightarrow> go_error + bool \<Rightarrow> name \<Rightarrow> gmap \<Rightarrow> string \<Rightarrow> run_ctx
    \<Rightarrow> (run_result \<times> run_ctx) exec" where
  "CompleteNodeAndResume sv lk n meta err c =
     (if (case dbBindings c n of None \<Rightarrow> False | Some b \<Rightarrow> ab_Status b = AwaitBindingWaiting)
      then CompleteAwaitNode sv lk n meta err ''engine.complete_node_and_resume'' c
      else (case completeAsyncNode (rv_env sv) n meta err c of
          (Inl m, c1) \<Rightarrow> Ret (run_failed m, c1)
        | (Inr False, c1) \<Rightarrow> Ret (run_ok RunNoop, c1)
        | (Inr True, c1) \<Rightarrow> ResumeTask sv lk n meta c1))"

subsection \<open>The run goes on\<close>

lemma executeTask_returns:
  assumes "wf_compiled w" and "sched_beyond J (cw_graph w) c"
  shows "\<exists>r c'. executeTask e w start c = Ret (r, c')"
proof -
  let ?c = "if start then publish (task_event ''task_started'' [] c) c else c"
  have "sched_beyond J (cw_graph w) ?c" using sched_keeps [OF assms(2)] assms(2) by auto
  from runDAG_returns [OF assms(1) this, of e] show ?thesis by (auto simp: executeTask_def Let_def)
qed

text \<open>The scheduler's invariant does not look at outputs and checkpoints.\<close>

lemma sched_same_state:
  assumes s: "sched_but J g X c" and rt: "Runtime c n = Some rt"
    and eq: "State rt' = State rt" "Error rt' = Error rt" "rt_ActivatedEdges rt' = rt_ActivatedEdges rt"
  shows "sched_but J g X (set_runtime n rt' c)"
proof -
  let ?c = "set_runtime n rt' c"
  have ns: "nstate ?c m = nstate c m" for m using rt eq(1) by (simp add: nstate_def set_runtime_def)
  have "ctx_ok g ?c" using s rt by (auto simp: sched_but_def ctx_ok_def set_runtime_def)
  moreover have "node_closed g m ?c" if "node_closed g m c" for m
    using that rt eq(3) by (auto simp: node_closed_def set_runtime_def)
  then have "edges_closed g ?c" using s by (simp add: sched_but_def edges_closed_def ns)
  moreover have "join_inv J g ?c" using s by (simp add: sched_but_def join_inv_def joined_def ns)
  moreover have "resumable r" if "m \<notin> X" "Runtime ?c m = Some r" for m r
    using that s rt eq(1,2) by (cases "m = n") (auto simp: sched_but_def set_runtime_def resumable_def)
  ultimately show ?thesis unfolding sched_but_def by blast
qed

lemma sync_resumed_sched: "sched_but J g X c \<Longrightarrow> sched_but J g X (sync_resumed e n out meta c)"
  by (auto simp: sync_resumed_def resumed_rt_def intro: sched_same_state split: option.split)

lemma resume_run_returns:
  assumes "compiled_from def w" and "range_ok (rv_env sv) (dom (gNodes (cw_graph w)))" and "recoverable w (dbNodes c)"
  shows "\<exists>r c'. resume_run sv n meta row t def w c = Ret (r, c')"
proof -
  let ?e = "rv_env sv" and ?out = "buildResumePublicOutput meta row"
  have w: "wf_compiled w" using assms(1) by (simp add: compiled_from_def)
  obtain x c1 where load: "loadOrInitRuntime ?e w (newRunContext def (c\<lparr>Task := t\<rparr>)) = (x, c1)" by force
  show ?thesis
  proof (cases "x = None \<and> cw_nodes w n \<noteq> None")
    case False
    with load show ?thesis by (auto simp: resume_run_def Let_def split: option.split)
  next
    case True
    then obtain nd where nd: "cw_nodes w n = Some nd" by blast
    from True load have s: "sched (cw_graph w) (rebuildActivatedEdges ?e c1)"
      using restored_sched [OF assms(1,2), of "c\<lparr>Task := t\<rparr>"] assms(3) by auto
    obtain y out' c3 where o: "(if ?out = [] then (None, ?out, rebuildActivatedEdges ?e c1)
        else SetNodeOutput n ?out (OutputSchema nd) (rebuildActivatedEdges ?e c1)) = (y, out', c3)" by (metis prod_cases3)
    have "sched (cw_graph w) c3" using o s sched_keeps [OF s] keeps_SetNodeOutput by (auto split: if_splits)
    then have "sched (cw_graph w) (sync_resumed ?e n out' meta c3)" by (rule sync_resumed_sched)
    then obtain r c' where "executeTask ?e w False (sync_resumed ?e n out' meta c3) = Ret (r, c')" using executeTask_returns [OF w] by blast
    with True load nd o show ?thesis by (cases y) (auto simp: resume_run_def Let_def)
  qed
qed

lemma ResumeTask_returns:
  assumes "\<And>t0 def w. dbTask c = Some t0 \<Longrightarrow> loadWorkflowForTask sv (loaded_task t0) = Inr (def, w) \<Longrightarrow>
      compiled_from def w \<and> range_ok (rv_env sv) (dom (gNodes (cw_graph w))) \<and> recoverable w (dbNodes c)"
  shows "\<exists>r c'. ResumeTask sv lk n meta c = Ret (r, c')"
  using resume_run_returns assms
  by (auto simp: ResumeTask_def Let_def split: sum.split option.split)

lemma AttemptComplete_cases:
  assumes "AttemptCompletePendingEdges e n out err c = (x, c')"
  shows "dbTask c' = dbTask c \<and> dbBindings c' = dbBindings c
    \<and> (if x = Inr True then (\<exists>rt now. dbNodes c n = Some rt \<and> active_node (State rt) \<and> dbNodes c' = (dbNodes c)(n \<mapsto> completed_row now out err rt))
       else dbNodes c' = dbNodes c)"
  using assms by (auto simp: AttemptCompletePendingEdges_def split: option.splits if_splits)

lemma binding_ops_frame:
  "ClaimCompleting e n ex c = (x, c') \<Longrightarrow> dbTask c' = dbTask c \<and> dbNodes c' = dbNodes c"
  "dbTask (snd (bindingRepo_Update e b c)) = dbTask c \<and> dbNodes (snd (bindingRepo_Update e b c)) = dbNodes c"
  by (auto simp: ClaimCompleting_def cas_status_def bindingRepo_Update_def Let_def split: option.splits if_splits)

text \<open>The tables between the event and the run: only the closed node has changed.\<close>

lemma closed_node_resumes:
  assumes ok: "\<And>t0 def w now row. dbTask c = Some t0 \<Longrightarrow> loadWorkflowForTask sv (loaded_task t0) = Inr (def, w) \<Longrightarrow> dbNodes c n = Some row \<Longrightarrow>
      compiled_from def w \<and> range_ok (rv_env sv) (dom (gNodes (cw_graph w))) \<and> recoverable w ((dbNodes c)(n \<mapsto> completed_row now out err row))"
    and same: "dbTask c1 = dbTask c" "dbNodes c1 = dbNodes c"
    and a: "AttemptCompletePendingEdges (rv_env sv) n out err c1 = (Inr True, c2)"
  shows "\<exists>r c'. ResumeTask sv lk n meta c2 = Ret (r, c')"
proof (rule ResumeTask_returns)
  fix t0 def w assume t: "dbTask c2 = Some t0" and w: "loadWorkflowForTask sv (loaded_task t0) = Inr (def, w)"
  from AttemptComplete_cases [OF a] obtain rt now where r: "dbNodes c1 n = Some rt" "dbNodes c2 = (dbNodes c1)(n \<mapsto> completed_row now out err rt)"
    and "dbTask c2 = dbTask c1" by auto
  with ok [of t0 def w rt now] t w same show "compiled_from def w \<and> range_ok (rv_env sv) (dom (gNodes (cw_graph w))) \<and> recoverable w (dbNodes c2)" by simp
qed

text \<open>What a completion relies on: the rows are clean once the node is closed.\<close>

definition closes_cleanly :: "retry_services \<Rightarrow> name \<Rightarrow> gmap \<Rightarrow> string \<Rightarrow> run_ctx \<Rightarrow> bool" where
  "closes_cleanly sv n meta err c \<longleftrightarrow> (\<forall>t0 def w now row. dbTask c = Some t0 \<and> loadWorkflowForTask sv (loaded_task t0) = Inr (def, w) \<and> dbNodes c n = Some row \<longrightarrow>
      compiled_from def w \<and> range_ok (rv_env sv) (dom (gNodes (cw_graph w)))
      \<and> recoverable w ((dbNodes c)(n \<mapsto> completed_row now (fst (splitAwaitEventPayload meta)) err row)))"

lemma closed_resumes:
  assumes "closes_cleanly sv n meta err c" and "dbTask c1 = dbTask c" and "dbNodes c1 = dbNodes c"
    and "AttemptCompletePendingEdges (rv_env sv) n (fst (splitAwaitEventPayload meta)) err c1 = (Inr True, c2)"
  shows "\<exists>r c'. ResumeTask sv lk n m c2 = Ret (r, c')"
  by (rule closed_node_resumes [OF _ assms(2-4)]) (use assms(1) in \<open>auto simp: closes_cleanly_def\<close>)

lemma CompleteAwaitNode_returns:
  assumes ok: "closes_cleanly sv n meta err c"
  shows "\<exists>r c'. CompleteAwaitNode sv lk n meta err src c = Ret (r, c')"
proof (cases "dbBindings c n")
  case None
  then show ?thesis by (simp add: CompleteAwaitNode_def)
next
  case (Some b)
  let ?e = "rv_env sv" and ?pub = "fst (splitAwaitEventPayload meta)"
  obtain y c1 where cl: "ClaimCompleting ?e n [AwaitBindingWaiting] c = (y, c1)" by force
  show ?thesis
  proof (cases "y = Inr True")
    case False
    then consider m where "y = Inl m" | "y = Inr False" by (cases y) auto
    then show ?thesis by cases (simp_all add: CompleteAwaitNode_def Let_def cl Some)
  next
    case claimed: True
    let ?c2 = "snd (bindingRepo_Update ?e (claimed_binding src ?pub b) c1)"
    obtain x c3 where a: "AttemptCompletePendingEdges ?e n ?pub err ?c2 = (x, c3)" by force
    have same: "dbTask ?c2 = dbTask c" "dbNodes ?c2 = dbNodes c"
      using binding_ops_frame(1) [OF cl] binding_ops_frame(2) [of ?e "claimed_binding src ?pub b" c1] by simp_all
    show ?thesis
    proof (cases "x = Inr True")
      case True
      obtain r c4 where r: "ResumeTask sv lk n (if snd (splitAwaitEventPayload meta) = [] then ?pub
          else AList.update AwaitUsageFactsMetaKey (VList (snd (splitAwaitEventPayload meta))) ?pub) c3 = Ret (r, c4)"
        using closed_resumes [OF ok same] a True by blast
      show ?thesis unfolding CompleteAwaitNode_def Let_def Some cl claimed by (simp add: a True r del: if_split_asm)
    next
      case False
      then consider m where "x = Inl m" | "x = Inr False" by (cases x) auto
      then show ?thesis by cases (simp_all add: CompleteAwaitNode_def Let_def Some cl claimed a)
    qed
  qed
qed

text \<open>
  What an event does: the node's row is closed with the result or the error, in the tables that the
  event found, and the run on these tables returns; the tables of tasks and nodes are the ones it
  leaves. Or a write was refused and the two tables are as they were.
\<close>

definition closed_then_run :: "retry_services \<Rightarrow> go_error + bool \<Rightarrow> name \<Rightarrow> gmap \<Rightarrow> string \<Rightarrow> run_ctx \<Rightarrow> run_result \<Rightarrow> run_ctx \<Rightarrow> bool" where
  "closed_then_run sv lk n out err c r c' \<longleftrightarrow> (\<exists>c1 row meta c2. dbTask c1 = dbTask c \<and> dbNodes c1 = (dbNodes c)(n \<mapsto> row)
     \<and> State row = (if err = [] then NodeSuccessPendingEdges else NodeFailedPendingEdges) \<and> Output row = Some out \<and> (err \<noteq> [] \<longrightarrow> Error row = err)
     \<and> ResumeTask sv lk n meta c1 = Ret (r, c2) \<and> dbNodes c' = dbNodes c2 \<and> dbTask c' = dbTask c2)"

definition write_refused :: "retry_services \<Rightarrow> run_ctx \<Rightarrow> run_ctx \<Rightarrow> bool" where
  "write_refused sv c c' \<longleftrightarrow> (\<exists>k m. db_err (rv_env sv) k = Some m) \<and> dbNodes c' = dbNodes c \<and> dbTask c' = dbTask c"

lemma settle_binding_frame: "dbNodes (settle_binding e n s b c) = dbNodes c \<and> dbTask (settle_binding e n s b c) = dbTask c"
  using binding_ops_frame(2) [of e b] by (auto simp: settle_binding_def TransitionStatus_def cas_status_def Let_def split: option.splits if_splits)

lemma waiting_claimed:
  assumes "dbBindings c n = Some b" and "ab_Status b = AwaitBindingWaiting" and "ClaimCompleting e n [AwaitBindingWaiting] c = (y, c1)"
  shows "y = Inr True \<or> (\<exists>m. y = Inl m \<and> db_err e (writes c) = Some m)"
proof -
  have "IsAllowedAwaitBindingTransition AwaitBindingWaiting AwaitBindingCompleting" by code_simp
  with assms show ?thesis by (auto simp: ClaimCompleting_def cas_status_def Let_def split: option.splits if_splits)
qed

lemma active_attempted:
  assumes "dbNodes c n = Some rt" and "active_node (State rt)" and "AttemptCompletePendingEdges e n out err c = (x, c1)"
  shows "x = Inr True \<or> (\<exists>m. x = Inl m \<and> db_err e (writes c) = Some m)"
  using assms by (auto simp: AttemptCompletePendingEdges_def split: option.splits)

lemma closed_then_runI:
  assumes "AttemptCompletePendingEdges (rv_env sv) n out err c0 = (Inr True, c1)" and "dbNodes c0 = dbNodes c" and "dbTask c0 = dbTask c"
    and "ResumeTask sv lk n meta c1 = Ret (r, c2)" and "dbNodes c' = dbNodes c2" and "dbTask c' = dbTask c2"
  shows "closed_then_run sv lk n out err c r c'"
proof -
  from AttemptComplete_cases [OF assms(1)] obtain rt now where "dbNodes c1 = (dbNodes c)(n \<mapsto> completed_row now out err rt)" "dbTask c1 = dbTask c"
    using assms(2,3) by auto
  with assms(4-6) show ?thesis unfolding closed_then_run_def
    by (intro exI [of _ c1] exI [of _ "completed_row now out err rt"] exI [of _ meta] exI [of _ c2]) (simp add: completed_row_def)
qed

lemma CompleteAwaitNode_outcome:
  assumes ok: "closes_cleanly sv n meta err c" and b: "dbBindings c n = Some b" "ab_Status b = AwaitBindingWaiting"
    and row: "dbNodes c n = Some row" "active_node (State row)"
  shows "\<exists>r c'. CompleteAwaitNode sv lk n meta err src c = Ret (r, c')
    \<and> (closed_then_run sv lk n (fst (splitAwaitEventPayload meta)) err c r c' \<or> write_refused sv c c')"
proof -
  let ?e = "rv_env sv" and ?pub = "fst (splitAwaitEventPayload meta)"
  obtain y c1 where cl: "ClaimCompleting ?e n [AwaitBindingWaiting] c = (y, c1)" by force
  from waiting_claimed [OF b cl] show ?thesis
  proof
    assume "\<exists>m. y = Inl m \<and> db_err ?e (writes c) = Some m"
    then show ?thesis using binding_ops_frame(1) [OF cl] by (auto simp: CompleteAwaitNode_def Let_def cl b write_refused_def)
  next
    assume claimed: "y = Inr True"
    let ?b = "claimed_binding src ?pub b" and ?c2 = "snd (bindingRepo_Update ?e (claimed_binding src ?pub b) c1)"
    have same: "dbTask ?c2 = dbTask c" "dbNodes ?c2 = dbNodes c"
      using binding_ops_frame(1) [OF cl] binding_ops_frame(2) [of ?e ?b c1] by simp_all
    obtain x c3 where a: "AttemptCompletePendingEdges ?e n ?pub err ?c2 = (x, c3)" by force
    have "dbNodes ?c2 n = Some row" using same(2) row(1) by simp
    from active_attempted [OF this row(2) a] show ?thesis
    proof
      assume "\<exists>m. x = Inl m \<and> db_err ?e (writes ?c2) = Some m"
      then show ?thesis using AttemptComplete_cases [OF a] same settle_binding_frame
        by (auto simp: CompleteAwaitNode_def Let_def cl b claimed a write_refused_def)
    next
      assume x: "x = Inr True"
      let ?m = "if snd (splitAwaitEventPayload meta) = [] then ?pub
          else AList.update AwaitUsageFactsMetaKey (VList (snd (splitAwaitEventPayload meta))) ?pub"
      obtain r c4 where r: "ResumeTask sv lk n ?m c3 = Ret (r, c4)" using closed_resumes [OF ok same] a x by blast
      let ?c' = "if err \<noteq> [] \<or> rr_Status r = RunFailed
        then settle_binding ?e n AwaitBindingFailed (failed_binding (clock ?e (writes c1)) (if err \<noteq> [] then err else case rr_Err r of None \<Rightarrow> [] | Some m \<Rightarrow> m) ?b) c4
        else settle_binding ?e n AwaitBindingCompleted (completed_binding (clock ?e (writes c1)) ?m ?b) c4"
      have "CompleteAwaitNode sv lk n meta err src c = Ret (r, ?c')"
        unfolding CompleteAwaitNode_def Let_def b cl claimed by (simp add: a x r del: if_split_asm)
      moreover have "closed_then_run sv lk n ?pub err c r ?c'"
        by (rule closed_then_runI [OF a [unfolded x] same(2,1) r]) (simp_all add: settle_binding_frame)
      ultimately show ?thesis by blast
    qed
  qed
qed

lemma CompleteNodeAndResume_outcome:
  assumes ok: "closes_cleanly sv n meta err c" and row: "dbNodes c n = Some row" "active_node (State row)"
  shows "\<exists>r c'. CompleteNodeAndResume sv lk n meta err c = Ret (r, c')
    \<and> (closed_then_run sv lk n (fst (splitAwaitEventPayload meta)) err c r c' \<or> write_refused sv c c')"
proof (cases "case dbBindings c n of None \<Rightarrow> False | Some b \<Rightarrow> ab_Status b = AwaitBindingWaiting")
  case True
  then obtain b where "dbBindings c n = Some b" "ab_Status b = AwaitBindingWaiting" by (auto split: option.splits)
  from CompleteAwaitNode_outcome [OF ok this row] True show ?thesis by (simp add: CompleteNodeAndResume_def)
next
  case False
  obtain x c1 where a: "AttemptCompletePendingEdges (rv_env sv) n (fst (splitAwaitEventPayload meta)) err c = (x, c1)" by force
  from active_attempted [OF row a] show ?thesis
  proof
    assume x: "x = Inr True"
    then obtain r c' where r: "ResumeTask sv lk n meta c1 = Ret (r, c')" using closed_resumes [OF ok refl refl] a by blast
    from closed_then_runI [OF a [unfolded x] refl refl r refl refl] show ?thesis
      using a x r False by (simp add: CompleteNodeAndResume_def completeAsyncNode_def)
  next
    assume "\<exists>m. x = Inl m \<and> db_err (rv_env sv) (writes c) = Some m"
    then show ?thesis using a False AttemptComplete_cases [OF a] by (auto simp: CompleteNodeAndResume_def completeAsyncNode_def write_refused_def)
  qed
qed

text \<open>
  C9. The task wakes up. When the rows of a suspended task are a clean snapshot apart from the
  node that is waiting, an event for that node closes its row in the database, as successful with
  the payload (without the usage facts) as its output, or as failed with the error, and the run
  that follows on these rows returns, whatever the lock says and whether or not the
  node has a binding. If the database refuses a write of the event, the rows of nodes and
  task stay as they were.
\<close>

theorem event_resumes_task:
  assumes "dbNodes c n = Some row" and "active_node (State row)" and "dbTask c = Some t" and "loadWorkflowForTask sv (loaded_task t) = Inr (def, w)"
    and "compiled_from def w" and "range_ok (rv_env sv) (dom (gNodes (cw_graph w)))"
    and "\<forall>now. recoverable w ((dbNodes c)(n \<mapsto> completed_row now (fst (splitAwaitEventPayload meta)) err row))"
  shows "\<exists>r c'. CompleteNodeAndResume sv lk n meta err c = Ret (r, c')
    \<and> (closed_then_run sv lk n (fst (splitAwaitEventPayload meta)) err c r c' \<or> write_refused sv c c')"
  by (rule CompleteNodeAndResume_outcome [OF _ assms(1,2)]) (use assms in \<open>auto simp: closes_cleanly_def\<close>)

text \<open>At most one event closes a node.\<close>

fun attempts :: "env \<Rightarrow> name \<Rightarrow> (gmap \<times> string) list \<Rightarrow> run_ctx \<Rightarrow> (go_error + bool) list \<times> run_ctx" where
  "attempts e n [] c = ([], c)"
| "attempts e n ((out, err) # evs) c =
     (case AttemptCompletePendingEdges e n out err c of (x, c1) \<Rightarrow> (case attempts e n evs c1 of (xs, c2) \<Rightarrow> (x # xs, c2)))"

lemma attempts_closed:
  assumes "\<forall>rt. dbNodes c n = Some rt \<longrightarrow> \<not> active_node (State rt)"
  shows "Inr True \<notin> set (fst (attempts e n evs c)) \<and> dbNodes (snd (attempts e n evs c)) = dbNodes c"
  using assms
proof (induction evs arbitrary: c)
  case (Cons ev evs)
  obtain out err where ev: "ev = (out, err)" by force
  obtain x c1 where a: "AttemptCompletePendingEdges e n out err c = (x, c1)" by force
  from AttemptComplete_cases [OF a] Cons.prems have x: "x \<noteq> Inr True" "dbNodes c1 = dbNodes c" by (auto split: if_splits)
  with Cons.IH [of c1] Cons.prems show ?case by (auto simp: ev a split: prod.splits)
qed simp

text \<open>
  C10. The first event wins. Of any sequence of events for a node at most one is told that it has
  closed the node; the row then holds the output and the error of that event, with the state that
  its edges are to be computed, whatever came after it.
\<close>

theorem first_event_wins:
  "(\<forall>x\<in>set (fst (attempts e n evs c)). x \<noteq> Inr True) \<and> dbNodes (snd (attempts e n evs c)) = dbNodes c
   \<or> (\<exists>i rt now. i < length evs \<and> fst (attempts e n evs c) ! i = Inr True \<and> (\<forall>j < length evs. j \<noteq> i \<longrightarrow> fst (attempts e n evs c) ! j \<noteq> Inr True)
        \<and> dbNodes c n = Some rt \<and> active_node (State rt)
        \<and> dbNodes (snd (attempts e n evs c)) = (dbNodes c)(n \<mapsto> completed_row now (fst (evs ! i)) (snd (evs ! i)) rt))"
proof (induction evs arbitrary: c)
  case (Cons ev evs)
  obtain out err where ev: "ev = (out, err)" by force
  obtain x c1 where a: "AttemptCompletePendingEdges e n out err c = (x, c1)" by force
  let ?r = "attempts e n evs c1"
  have r: "attempts e n (ev # evs) c = (x # fst ?r, snd ?r)" by (simp add: ev a split: prod.split)
  have len: "length (fst (attempts e n evs c)) = length evs" for evs c
    by (induction e n evs c rule: attempts.induct) (auto split: prod.splits)
  show ?case
  proof (cases "x = Inr True")
    case True
    with AttemptComplete_cases [OF a] obtain rt now where rt: "dbNodes c n = Some rt" "active_node (State rt)"
      "dbNodes c1 = (dbNodes c)(n \<mapsto> completed_row now out err rt)" by auto
    then have "\<forall>rt. dbNodes c1 n = Some rt \<longrightarrow> \<not> active_node (State rt)" by (simp add: completed_row_def active_node_def)
    from attempts_closed [OF this, of e evs] have cl: "Inr True \<notin> set (fst ?r)" "dbNodes (snd ?r) = dbNodes c1" by auto
    have "\<forall>j < length (ev # evs). j \<noteq> 0 \<longrightarrow> (x # fst ?r) ! j \<noteq> Inr True"
      using cl(1) len [of evs c1] by (auto simp: nth_Cons' in_set_conv_nth)
    with True rt cl(2) show ?thesis unfolding r by (intro disjI2 exI [of _ 0] exI [of _ rt] exI [of _ now]) (simp add: ev)
  next
    case False
    with AttemptComplete_cases [OF a] have same: "dbNodes c1 = dbNodes c" by auto
    from Cons.IH [of c1] show ?thesis
    proof
      assume "(\<forall>x\<in>set (fst ?r). x \<noteq> Inr True) \<and> dbNodes (snd ?r) = dbNodes c1"
      with False same show ?thesis unfolding r by simp
    next
      assume "\<exists>i rt now. i < length evs \<and> fst ?r ! i = Inr True \<and> (\<forall>j < length evs. j \<noteq> i \<longrightarrow> fst ?r ! j \<noteq> Inr True)
        \<and> dbNodes c1 n = Some rt \<and> active_node (State rt)
        \<and> dbNodes (snd ?r) = (dbNodes c1)(n \<mapsto> completed_row now (fst (evs ! i)) (snd (evs ! i)) rt)"
      then obtain i rt now where i: "i < length evs" "fst ?r ! i = Inr True" "\<forall>j < length evs. j \<noteq> i \<longrightarrow> fst ?r ! j \<noteq> Inr True"
        "dbNodes c1 n = Some rt" "active_node (State rt)" "dbNodes (snd ?r) = (dbNodes c1)(n \<mapsto> completed_row now (fst (evs ! i)) (snd (evs ! i)) rt)" by blast
      have "\<forall>j < length (ev # evs). j \<noteq> Suc i \<longrightarrow> (x # fst ?r) ! j \<noteq> Inr True" using i(3) False by (auto simp: nth_Cons')
      with i same show ?thesis unfolding r by (intro disjI2 exI [of _ "Suc i"] exI [of _ rt] exI [of _ now]) simp
    qed
  qed
qed simp

text \<open>
  C39. A late event locks the binding. When the node was moved by somebody else while its binding
  was still waiting, an event claims the binding, finds nothing to close and returns without
  releasing it: the binding stays in completing, and every later event for the node is ignored.
\<close>

theorem late_event_locks_binding:
  assumes "dbNodes c n = Some row" and "\<not> active_node (State row)" and "dbBindings c n = Some b" and "ab_Status b = AwaitBindingWaiting"
    and "ab_NodeName b = n" and "\<forall>k. db_err (rv_env sv) k = None"
  shows "\<exists>c'. CompleteNodeAndResume sv lk n meta err c = Ret (run_ok RunNoop, c') \<and> bstatus c' n = Some AwaitBindingCompleting
    \<and> (\<forall>lk2 meta2 err2. \<exists>c''. CompleteNodeAndResume sv lk2 n meta2 err2 c' = Ret (run_ok RunNoop, c'') \<and> bstatus c'' n = Some AwaitBindingCompleting)"
proof -
  let ?e = "rv_env sv" and ?src = "''engine.complete_node_and_resume''" and ?pub = "fst (splitAwaitEventPayload meta)"
  let ?b1 = "b\<lparr>ab_Status := AwaitBindingCompleting\<rparr>" and ?b2 = "claimed_binding ?src ?pub b"
  let ?c1 = "c\<lparr>writes := Suc (writes c), dbBindings := (dbBindings c)(n \<mapsto> ?b1)\<rparr>"
  let ?c2 = "snd (bindingRepo_Update ?e ?b2 ?c1)"
  have cl: "ClaimCompleting ?e n [AwaitBindingWaiting] c = (Inr True, ?c1)"
    using assms by (simp add: ClaimCompleting_def cas_status_def IsAllowedAwaitBindingTransition_def AllowedTransitionsAwaitBinding.simps)
  have b2: "ab_NodeName ?b2 = n" "ab_Status (binding_row ?b2) = AwaitBindingCompleting" using assms(5) by (simp_all add: claimed_binding_def binding_row_def)
  have c2: "dbBindings ?c2 n = Some (binding_row ?b2)" "dbNodes ?c2 n = Some row"
    using assms b2(1) by (simp_all add: bindingRepo_Update_def)
  have late: "AttemptCompletePendingEdges ?e n out er d = (Inr False, d\<lparr>writes := Suc (writes d)\<rparr>)" if "dbNodes d n = Some row" for out er d
    using that assms(2,6) by (simp add: AttemptCompletePendingEdges_def)
  let ?c' = "?c2\<lparr>writes := Suc (writes ?c2)\<rparr>"
  have "CompleteNodeAndResume sv lk n meta err c = Ret (run_ok RunNoop, ?c')"
    using assms(3,4) cl late [OF c2(2)] by (simp add: CompleteNodeAndResume_def CompleteAwaitNode_def Let_def)
  moreover have "bstatus ?c' n = Some AwaitBindingCompleting" using c2(1) b2(2) by (simp add: bstatus_def)
  moreover have "CompleteNodeAndResume sv lk2 n meta2 err2 ?c' = Ret (run_ok RunNoop, ?c'\<lparr>writes := Suc (writes ?c')\<rparr>)" for lk2 meta2 err2
    using c2 b2(2) late [of ?c'] by (simp add: CompleteNodeAndResume_def completeAsyncNode_def)
  ultimately show ?thesis by (simp add: bstatus_def)
qed

subsection \<open>A concrete event\<close>

text \<open>A suspended task of the one-node workflow, whose node is in state \<open>s\<close> and has a waiting binding.\<close>

definition await_ctx :: "node_state \<Rightarrow> run_ctx" where
  "await_ctx s = sample_ctx\<lparr>dbNodes := [''a'' \<mapsto> sample_rt ''a'' s], dbTask := Some (sample_task\<lparr>Status := TaskSuspended\<rparr>),
     dbBindings := [''a'' \<mapsto> (empty_binding sample_ctx ''a'')\<lparr>ab_Status := AwaitBindingWaiting\<rparr>]\<rparr>"

theorem event_resumes_task_witness:
  "\<exists>r c'. CompleteNodeAndResume sample_services (Inr True) ''a'' [(''x'', VInt 1)] [] (await_ctx NodeAwaiting) = Ret (r, c')
     \<and> closed_then_run sample_services (Inr True) ''a'' [(''x'', VInt 1)] [] (await_ctx NodeAwaiting) r c'"
proof (rule sample_load_workflow [of 1])
  fix w nd
  assume l: "load_workflow sample_services 1 = Inr w" and c: "compiled sample_registry solo w" and g: "wf_graph (cw_graph w)"
    and e: "edge_rel (cw_graph w) = {}" and d: "dom (gNodes (cw_graph w)) = {''a''}"
  let ?c = "await_ctx NodeAwaiting"
  have p: "Parents (cw_graph w) m = []" for m
  proof -
    have "q \<notin> set (Parents (cw_graph w) m)" for q using e wf_graph_parent_iff [OF g, of q m] by (auto simp: edge_rel_def)
    then show ?thesis by (metis list.set_intros(1) neq_Nil_conv)
  qed
  have cf: "compiled_from solo w"
    by (rule accepted_compiled_from [OF sample_registry c]) (simp add: solo_def sample_node_def)
  have rg: "range_ok (rv_env sample_services) (dom (gNodes (cw_graph w)))"
    using solo_range_ok [of True] compiled_from_facts(2) [OF cf] compiled_from_facts(2) [OF solo_compiled] by simp
  have ld: "loadWorkflowForTask sample_services (loaded_task (sample_task\<lparr>Status := TaskSuspended\<rparr>)) = Inr (solo, w)"
    using l by (simp add: loadWorkflowForTask_def loaded_task_def sample_task_def) (simp add: sample_services_def)
  have row: "dbNodes ?c ''a'' = Some (sample_rt ''a'' NodeAwaiting)" and t: "dbTask ?c = Some (sample_task\<lparr>Status := TaskSuspended\<rparr>)"
    by (simp_all add: await_ctx_def)
  have act: "active_node (State (sample_rt ''a'' NodeAwaiting))" by (simp add: active_node_def sample_rt_def)
  have rec: "\<forall>now. recoverable w ((dbNodes ?c)(''a'' \<mapsto> completed_row now (fst (splitAwaitEventPayload [(''x'', VInt 1)])) [] (sample_rt ''a'' NodeAwaiting)))"
    using d by (auto simp: recoverable_def row_ok_def await_ctx_def completed_row_def sample_rt_def crashed_def isTerminal_def p split: if_splits)
  have "fst (splitAwaitEventPayload [(''x'', VInt 1)]) = [(''x'', VInt 1)]" by code_simp
  moreover have "\<not> write_refused sample_services ?c c'" for c' by (simp add: write_refused_def sample_services_def sample_env_def)
  ultimately show ?thesis using event_resumes_task [OF row act t ld cf rg rec, of "Inr True"] by simp
qed

theorem first_event_wins_witness:
  "\<exists>now. dbNodes (snd (attempts (sample_env True) ''a'' [([(''x'', VInt 1)], []), ([], ''late'')] (await_ctx NodeAwaiting))) ''a''
     = Some (completed_row now [(''x'', VInt 1)] [] (sample_rt ''a'' NodeAwaiting))"
proof -
  let ?evs = "[([(''x'', VInt 1)], []), ([], ''late'')]" and ?c = "await_ctx NodeAwaiting"
  have at: "fst (attempts (sample_env True) ''a'' ?evs ?c) = [Inr True, Inr False]"
    by (simp add: AttemptCompletePendingEdges_def sample_env_def await_ctx_def sample_ctx_def sample_rt_def active_node_def completed_row_def)
  have row: "dbNodes ?c ''a'' = Some (sample_rt ''a'' NodeAwaiting)" by (simp add: await_ctx_def)
  from first_event_wins [of "sample_env True" "''a''" ?evs ?c, unfolded at row] obtain i rt now
    where i: "i < length ?evs" "[Inr True, Inr False] ! i = (Inr True :: go_error + bool)" "rt = sample_rt ''a'' NodeAwaiting"
      "dbNodes (snd (attempts (sample_env True) ''a'' ?evs ?c)) = (dbNodes ?c)(''a'' \<mapsto> completed_row now (fst (?evs ! i)) (snd (?evs ! i)) rt)" by auto
  from i(1,2) have "i = 0" by (cases i) auto
  with i(3,4) show ?thesis by auto
qed

theorem late_event_locks_binding_witness:
  "\<exists>c'. CompleteNodeAndResume sample_services (Inr True) ''a'' [] [] (await_ctx NodeFailed) = Ret (run_ok RunNoop, c')
     \<and> bstatus c' ''a'' = Some AwaitBindingCompleting"
proof -
  have "\<forall>k. db_err (rv_env sample_services) k = None" by (simp add: sample_env_def)
  then show ?thesis
    using late_event_locks_binding [of "await_ctx NodeFailed" "''a''" "sample_rt ''a'' NodeFailed"
        "(empty_binding sample_ctx ''a'')\<lparr>ab_Status := AwaitBindingWaiting\<rparr>" sample_services "Inr True" "[]" "[]"]
    by (auto simp: await_ctx_def sample_rt_def active_node_def empty_binding_def)
qed

end
