(* ===== verification/Flux_Listener.thy ===== *)
theory Flux_Listener
  imports Flux_Resume
begin

text \<open>
  \<^verbatim>\<open>engine/event_listen.go\<close> and \<^verbatim>\<open>engine/subworkflow_reconcile.go\<close>: how the end of a child task reaches
  its parent. The listeners handle the events of ended children one at a time; the reconciliation
  polls the child of a waiting binding, in case the event was lost. The context holds the tables
  of the parent; the child is the row that the handler has loaded.
\<close>

subsection \<open>Which results are accepted\<close>

definition asString :: "env \<Rightarrow> gval \<Rightarrow> string" where
  "asString e v = (case v of VNil \<Rightarrow> [] | VStr s \<Rightarrow> s | _ \<Rightarrow> sprint e v)"

definition asInt :: "gval \<Rightarrow> int" where
  "asInt v = (case v of VInt k \<Rightarrow> k | VFloat q \<Rightarrow> trunc q | _ \<Rightarrow> 0)"

definition checkLoopChildBinding :: "env \<Rightarrow> node_runtime \<Rightarrow> task_row \<Rightarrow> bool" where
  "checkLoopChildBinding e rt child =
     (case Checkpoint rt of
        None \<Rightarrow> True
      | Some cp \<Rightarrow>
         (let k = TrimSpace (asString e (cfg cp ''running_sub_key''));
              i = asInt (cfg cp ''running_index'')
          in if k = [] \<and> i = - 1 then True
             else if trimmed_key child = [] then False
             else k = trimmed_key child))"

definition accepting_node :: "node_state \<Rightarrow> bool" where
  "accepting_node s \<longleftrightarrow> s \<in> {NodePending, NodeReady, NodeRunning, NodeRetrying, NodeAwaiting, NodeSuccessPendingEdges, NodeFailedPendingEdges}"

text \<open>An error of the database is logged and the event dropped, as if the result was refused.\<close>

definition canAcceptChildResult :: "env \<Rightarrow> name \<Rightarrow> task_row \<Rightarrow> run_ctx \<Rightarrow> bool" where
  "canAcceptChildResult e n child c \<longleftrightarrow>
     Status child \<noteq> TaskCanceled
     \<and> (case dbTask c of None \<Rightarrow> False | Some t \<Rightarrow> Status t = TaskRunning \<or> Status t = TaskSuspended)
     \<and> (case dbNodes c n of
          None \<Rightarrow> False
        | Some rt \<Rightarrow> accepting_node (State rt)
            \<and> (classifyParentFanoutNode e (Some rt) = ParentFanoutNodeLoop \<longrightarrow> checkLoopChildBinding e rt child))"

subsection \<open>Waking the parent\<close>

definition resumeParentTask :: "retry_services \<Rightarrow> go_error + bool \<Rightarrow> name \<Rightarrow> gmap \<Rightarrow> run_ctx \<Rightarrow> run_ctx exec" where
  "resumeParentTask sv lk n meta c = bind_exec (ResumeTask sv lk n meta c) (\<lambda>(r, c'). Ret c')"

definition subworkflow_binding :: "name \<Rightarrow> run_ctx \<Rightarrow> bool" where
  "subworkflow_binding n c \<longleftrightarrow> (case dbBindings c n of None \<Rightarrow> False | Some b \<Rightarrow> ab_AwaitType b = ''subworkflow'')"

text \<open>\<^verbatim>\<open>tryCompleteSubWorkflowBinding\<close>: no result when there is no such binding.\<close>

definition tryCompleteSubWorkflowBinding :: "retry_services \<Rightarrow> go_error + bool \<Rightarrow> name \<Rightarrow> gmap \<Rightarrow> string \<Rightarrow> run_ctx \<Rightarrow> run_ctx exec option" where
  "tryCompleteSubWorkflowBinding sv lk n out err c =
     (if \<not> subworkflow_binding n c then None
      else Some (bind_exec (CompleteAwaitNode sv lk n out err ''event:subworkflow'' c) (\<lambda>(r, c'). Ret c')))"

definition completeAndResumeParent :: "retry_services \<Rightarrow> go_error + bool \<Rightarrow> name \<Rightarrow> gmap \<Rightarrow> string \<Rightarrow> gmap \<Rightarrow> run_ctx \<Rightarrow> run_ctx exec" where
  "completeAndResumeParent sv lk n out err meta c =
     (case completeAsyncNode (rv_env sv) n out err c of
        (Inr True, c1) \<Rightarrow> resumeParentTask sv lk n meta c1
      | (_, c1) \<Rightarrow> Ret c1)"

definition publishSubWorkflowFanoutProgress :: "task_row \<Rightarrow> int \<Rightarrow> name \<Rightarrow> int \<Rightarrow> int \<Rightarrow> int \<Rightarrow> run_ctx \<Rightarrow> run_ctx" where
  "publishSubWorkflowFanoutProgress child pid n dn running failed c =
     (let progress = (if 1 \<le> dn then 1 else 0 :: rat);
          status = (if 0 < failed then ''failed'' else if 1 \<le> dn then ''completed'' else ''running'')
      in if n = [] then c
         else publish \<lparr>ev_TaskID = pid, ev_RootTaskID = RootID child, ev_Step = n, ev_Type = ''fanout_progress'',
           ev_Meta = [(''event_type'', VStr ''fanout_progress''), (''fanout_kind'', VStr ''subworkflow''), (''parent_node'', VStr n),
             (''parent_label'', VStr n), (''total'', VInt 1), (''done'', VInt dn), (''running'', VInt running), (''failed'', VInt failed),
             (''reused'', VInt 0), (''current_index'', VInt 1), (''progress'', VFloat progress), (''status'', VStr status)]\<rparr> c)"

definition isPartialFailurePolicy :: "gmap option \<Rightarrow> bool" where
  "isPartialFailurePolicy cp \<longleftrightarrow> gget cp ''failure_policy'' = Some (VStr ''partial'')"

definition child_failed_text :: "task_row \<Rightarrow> string" where
  "child_failed_text child = ''child task '' @ FormatInt (task_id child) @ '' permanently failed after '' @ FormatInt (RetryCount child) @ '' retries''"

definition permanentFailParent :: "env \<Rightarrow> name \<Rightarrow> task_row \<Rightarrow> run_ctx \<Rightarrow> run_ctx" where
  "permanentFailParent e n child c =
     (case (dbTask c, dbNodes c n) of
        (Some t, Some rt) \<Rightarrow>
          (let now = clock e (writes c);
               m = child_failed_text child;
               c1 = snd (nodeRepo_Update e (rt\<lparr>State := NodeFailed, FinishedAt := Some now, Error := m\<rparr>) c);
               c2 = snd (taskRepo_Update e ((loaded_task t)\<lparr>Status := TaskFailed, ErrorMessage := m\<rparr>) c1)
           in publish \<lparr>ev_TaskID = task_id t, ev_RootTaskID = RootID t, ev_Step = n, ev_Type = ''task_final_failed'',
                ev_Meta = [(''reason'', VStr ''child_retries_exhausted''), (''child_task_id'', VInt (task_id child)),
                  (''retry_count'', VInt (RetryCount child))]\<rparr> c2)
      | _ \<Rightarrow> c)"

subsection \<open>The listeners\<close>

text \<open>
  The bodies of the loops of \<^verbatim>\<open>startSubWorkflowSuccessListener\<close>, \<^verbatim>\<open>startSubWorkflowFailedListener\<close> and
  \<^verbatim>\<open>startAsyncNodeEventListener\<close>. \<open>loadChildEventContext\<close> gives the node of the parent, if any.
\<close>

definition loadChildEventContext :: "task_row \<Rightarrow> run_ctx \<Rightarrow> (int \<times> name \<times> node_runtime) option" where
  "loadChildEventContext child c =
     (case (ParentID child, ParentNode child) of
        (Some p, Some n) \<Rightarrow> if n = [] then None else map_option (\<lambda>rt. (p, n, rt)) (dbNodes c n)
      | _ \<Rightarrow> None)"

definition on_child_succeeded :: "retry_services \<Rightarrow> go_error + bool \<Rightarrow> task_row \<Rightarrow> run_ctx \<Rightarrow> run_ctx exec" where
  "on_child_succeeded sv lk child c =
     (case loadChildEventContext child c of
        None \<Rightarrow> Ret c
      | Some (p, n, rt) \<Rightarrow>
         if \<not> canAcceptChildResult (rv_env sv) n child c then Ret c
         else case classifyParentFanoutNode (rv_env sv) (Some rt) of
             ParentFanoutNodeNone \<Rightarrow>
               (let c1 = publishSubWorkflowFanoutProgress child p n 1 0 0 c
                in case ParseFinal (OutputJSON child) of
                     Inl m \<Rightarrow> Ret c1
                   | Inr final \<Rightarrow>
                      (case tryCompleteSubWorkflowBinding sv lk n final [] c1 of
                         Some x \<Rightarrow> x
                       | None \<Rightarrow> completeAndResumeParent sv lk n final [] final c1))
           | _ \<Rightarrow> resumeParentTask sv lk n [] c)"

definition on_child_failed :: "retry_services \<Rightarrow> go_error + bool \<Rightarrow> task_row \<Rightarrow> string \<Rightarrow> gmap \<Rightarrow> run_ctx \<Rightarrow> run_ctx exec" where
  "on_child_failed sv lk child msg meta c =
     (case loadChildEventContext child c of
        None \<Rightarrow> Ret c
      | Some (p, n, rt) \<Rightarrow>
         if \<not> canAcceptChildResult (rv_env sv) n child c then Ret c
         else let kind = classifyParentFanoutNode (rv_env sv) (Some rt)
              in if kind = ParentFanoutNodeNone then
                   (let c1 = publishSubWorkflowFanoutProgress child p n 0 0 1 c
                    in case tryCompleteSubWorkflowBinding sv lk n [] msg c1 of
                         Some x \<Rightarrow> x
                       | None \<Rightarrow> completeAndResumeParent sv lk n [] msg meta c1)
                 else if kind = ParentFanoutNodeMap \<and> isPartialFailurePolicy (Checkpoint rt) then resumeParentTask sv lk n [] c
                 else if MaxAutoRetryCount < RetryCount child then Ret (permanentFailParent (rv_env sv) n child c)
                 else resumeParentTask sv lk n [] c)"

definition on_node_complete_async :: "retry_services \<Rightarrow> go_error + bool \<Rightarrow> name \<Rightarrow> gmap \<Rightarrow> string \<Rightarrow> run_ctx \<Rightarrow> run_ctx exec" where
  "on_node_complete_async sv lk n meta err c = completeAndResumeParent sv lk n meta err meta c"

subsection \<open>Reconciliation\<close>

text \<open>
  The value that \<^verbatim>\<open>ParseInt\<close> returns next to its error: 0 for a text that is not a number, the nearest
  bound for a number out of range (found while the digits are read).
\<close>

fun read_digits :: "string \<Rightarrow> int \<Rightarrow> int option" where
  "read_digits [] acc = Some acc"
| "read_digits (ch # s) acc =
     (case digit_val ch of
        None \<Rightarrow> None
      | Some d \<Rightarrow> if 2 ^ 64 \<le> 10 * acc + d then Some (2 ^ 64 - 1) else read_digits s (10 * acc + d))"

definition ParseInt_value :: "string \<Rightarrow> int" where
  "ParseInt_value s =
     (let (neg, ds) = (case s of
            [] \<Rightarrow> (False, [])
          | ch # r \<Rightarrow> if ch = CHR ''-'' then (True, r) else if ch = CHR ''+'' then (False, r) else (False, s))
      in if ds = [] then 0
         else (case read_digits ds 0 of
                 None \<Rightarrow> 0
               | Some k \<Rightarrow> if neg then - min k (2 ^ 63) else min k (2 ^ 63 - 1)))"

definition subWorkflowChildIDFromCorrelation :: "gmap \<Rightarrow> int" where
  "subWorkflowChildIDFromCorrelation m =
     (case cfg m ''child_task_id'' of
        VStr s \<Rightarrow> ParseInt_value s
      | VInt k \<Rightarrow> k
      | VFloat q \<Rightarrow> trunc q
      | _ \<Rightarrow> 0)"

definition rescheduleSubWorkflowBinding :: "env \<Rightarrow> await_binding \<Rightarrow> run_ctx \<Rightarrow> run_ctx" where
  "rescheduleSubWorkflowBinding e b c =
     (let now = clock e (writes c)
      in snd (bindingRepo_Update e (b\<lparr>ab_LastPolledAt := Some now, ab_NextPollAt := Some (now + subWorkflowReconcileInterval),
           ab_PollAttempts := ab_PollAttempts b + 1\<rparr>) c))"

text \<open>
  \<open>get\<close> loads a task by its id; a missing row is an error there, so that the branch of the code for
  a missing child is not reached. The loaded row has no error message (\<open>loaded\<close>).
\<close>

definition ReconcileSubWorkflowBinding :: "retry_services \<Rightarrow> go_error + bool \<Rightarrow> (int \<Rightarrow> go_error + task_row) \<Rightarrow> name \<Rightarrow> run_ctx
    \<Rightarrow> (run_result \<times> run_ctx) exec" where
  "ReconcileSubWorkflowBinding sv lk get n c =
     (let e = rv_env sv; src = ''poll:subworkflow''
      in case dbBindings c n of
           None \<Rightarrow> Ret (run_ok RunNoop, c)
         | Some b \<Rightarrow>
            if ab_Status b \<noteq> AwaitBindingWaiting \<or> ab_AwaitType b \<noteq> ''subworkflow'' then Ret (run_ok RunNoop, c)
            else let i = subWorkflowChildIDFromCorrelation (ab_Correlation b)
                 in if i = 0 then CompleteAwaitNode sv lk n [] ''subworkflow binding missing child_task_id'' src c
                    else case get i of
                        Inl m \<Rightarrow> Ret (run_ok RunNoop, rescheduleSubWorkflowBinding e b c)
                      | Inr child \<Rightarrow>
                         let ended = (if ErrorMessage child = []
                               then ''subworkflow child task '' @ FormatInt i @ '' terminal status='' @ task_status_str (Status child)
                               else ErrorMessage child)
                         in (case Status child of
                               TaskSuccess \<Rightarrow>
                                 (case ParseFinal (OutputJSON child) of
                                    Inl m \<Rightarrow> CompleteAwaitNode sv lk n [] (''parse subworkflow child '' @ FormatInt i @ '' output failed: '' @ m) src c
                                  | Inr final \<Rightarrow> CompleteAwaitNode sv lk n final [] src c)
                             | TaskFailed \<Rightarrow> CompleteAwaitNode sv lk n [] ended src c
                             | TaskCanceled \<Rightarrow> CompleteAwaitNode sv lk n [] ended src c
                             | TaskPending \<Rightarrow> Ret (run_ok RunNoop, rescheduleSubWorkflowBinding e b (enqueue_task e (task_id child) c))
                             | _ \<Rightarrow> Ret (run_ok RunNoop, rescheduleSubWorkflowBinding e b c)))"

subsection \<open>The end of a child reaches the parent\<close>

text \<open>A fan-out node is only woken: its rows must be clean as they are.\<close>

definition wakes_cleanly :: "retry_services \<Rightarrow> run_ctx \<Rightarrow> bool" where
  "wakes_cleanly sv c \<longleftrightarrow> (\<forall>t0 def w. dbTask c = Some t0 \<and> loadWorkflowForTask sv (loaded_task t0) = Inr (def, w) \<longrightarrow>
      compiled_from def w \<and> range_ok (rv_env sv) (dom (gNodes (cw_graph w))) \<and> recoverable w (dbNodes c))"

lemma resumeParentTask_returns: "wakes_cleanly sv c \<Longrightarrow> \<exists>c'. resumeParentTask sv lk n meta c = Ret c'"
  using ResumeTask_returns [of c sv lk n meta] by (auto simp: resumeParentTask_def wakes_cleanly_def)

lemma publish_tables [simp]: "dbTask (publish ev c) = dbTask c" "dbNodes (publish ev c) = dbNodes c" "dbBindings (publish ev c) = dbBindings c"
  by (simp_all add: publish_def)

lemma progress_tables [simp]:
  "dbTask (publishSubWorkflowFanoutProgress child p n d r f c) = dbTask c" "dbNodes (publishSubWorkflowFanoutProgress child p n d r f c) = dbNodes c"
  "dbBindings (publishSubWorkflowFanoutProgress child p n d r f c) = dbBindings c"
  by (simp_all add: publishSubWorkflowFanoutProgress_def Let_def)

lemma closes_cleanly_tables:
  "dbTask c' = dbTask c \<Longrightarrow> dbNodes c' = dbNodes c \<Longrightarrow> closes_cleanly sv n meta err c' = closes_cleanly sv n meta err c"
  by (simp add: closes_cleanly_def)

lemma completeAndResumeParent_returns:
  assumes "closes_cleanly sv n out err c"
  shows "\<exists>c'. completeAndResumeParent sv lk n out err meta c = Ret c'"
proof -
  obtain x c1 where a: "AttemptCompletePendingEdges (rv_env sv) n (fst (splitAwaitEventPayload out)) err c = (x, c1)" by force
  consider "x = Inr True" | m where "x = Inl m" | "x = Inr False" by (cases x) auto
  then show ?thesis
  proof cases
    case 1
    obtain r c2 where "ResumeTask sv lk n meta c1 = Ret (r, c2)" using closed_resumes [OF assms refl refl] a 1 by blast
    with 1 a show ?thesis by (simp add: completeAndResumeParent_def completeAsyncNode_def resumeParentTask_def)
  qed (simp_all add: completeAndResumeParent_def completeAsyncNode_def a)
qed

lemma completed_either_way:
  assumes "closes_cleanly sv n out err c"
  shows "\<exists>c'. (case tryCompleteSubWorkflowBinding sv lk n out err c of Some x \<Rightarrow> x | None \<Rightarrow> completeAndResumeParent sv lk n out err meta c) = Ret c'"
proof (cases "subworkflow_binding n c")
  case True
  obtain r c' where "CompleteAwaitNode sv lk n out err ''event:subworkflow'' c = Ret (r, c')" using CompleteAwaitNode_returns [OF assms] by blast
  with True show ?thesis by (simp add: tryCompleteSubWorkflowBinding_def)
next
  case False
  with completeAndResumeParent_returns [OF assms] show ?thesis by (simp add: tryCompleteSubWorkflowBinding_def)
qed

definition ready_for_child :: "retry_services \<Rightarrow> name \<Rightarrow> run_ctx \<Rightarrow> bool" where
  "ready_for_child sv n c \<longleftrightarrow> (\<forall>rt. dbNodes c n = Some rt \<longrightarrow>
     (if classifyParentFanoutNode (rv_env sv) (Some rt) = ParentFanoutNodeNone then \<forall>out err. closes_cleanly sv n out err c else wakes_cleanly sv c))"

lemma ready_cases:
  assumes "ready_for_child sv n c" and "loadChildEventContext child c = Some (p, n, rt)"
  shows "if classifyParentFanoutNode (rv_env sv) (Some rt) = ParentFanoutNodeNone then \<forall>out err. closes_cleanly sv n out err c else wakes_cleanly sv c"
  using assms by (auto simp: loadChildEventContext_def ready_for_child_def split: option.splits if_splits)

text \<open>The handlers return for every row of the child.\<close>

lemma handlers_return:
  assumes "\<forall>n. ready_for_child sv n c" and "\<forall>out err. closes_cleanly sv m out err c"
  shows "(\<exists>c'. on_child_succeeded sv lk child c = Ret c') \<and> (\<exists>c'. on_child_failed sv lk child msg meta c = Ret c')
    \<and> (\<exists>r c'. ReconcileSubWorkflowBinding sv lk get m c = Ret (r, c'))"
proof (intro conjI)
  show "\<exists>r c'. ReconcileSubWorkflowBinding sv lk get m c = Ret (r, c')"
    using CompleteAwaitNode_returns [where sv = sv and c = c and lk = lk] assms(2)
    by (auto simp: ReconcileSubWorkflowBinding_def Let_def split: option.split sum.split task_status.split)
  have "(\<exists>c'. on_child_succeeded sv lk child c = Ret c') \<and> (\<exists>c'. on_child_failed sv lk child msg meta c = Ret c')"
  proof (cases "loadChildEventContext child c")
    case None
    then show ?thesis by (simp add: on_child_succeeded_def on_child_failed_def)
  next
    case (Some x)
    then obtain p n rt where x: "loadChildEventContext child c = Some (p, n, rt)" by (metis prod_cases3)
    note rdy = ready_cases [OF spec [OF assms(1)] x]
    show ?thesis
    proof (cases "classifyParentFanoutNode (rv_env sv) (Some rt) = ParentFanoutNodeNone")
      case True
      have "closes_cleanly sv n out err (publishSubWorkflowFanoutProgress child p n d r f c)" for out err d r f
        using rdy True closes_cleanly_tables [of "publishSubWorkflowFanoutProgress child p n d r f c" c] by simp
      from completed_either_way [OF this, of lk] True show ?thesis
        by (auto simp: on_child_succeeded_def on_child_failed_def x Let_def split: sum.split)
    next
      case False
      with rdy resumeParentTask_returns [of sv c lk n "[]"] show ?thesis
        by (auto simp: on_child_succeeded_def on_child_failed_def x Let_def split: fanout_kind.split)
    qed
  qed
  then show "\<exists>c'. on_child_succeeded sv lk child c = Ret c'" "\<exists>c'. on_child_failed sv lk child msg meta c = Ret c'" by blast+
qed

lemma closed_then_run_tables:
  "dbNodes c0 = dbNodes c \<Longrightarrow> dbTask c0 = dbTask c \<Longrightarrow> closed_then_run sv lk n out err c0 r c' = closed_then_run sv lk n out err c r c'"
  "dbNodes c0 = dbNodes c \<Longrightarrow> dbTask c0 = dbTask c \<Longrightarrow> write_refused sv c0 c' = write_refused sv c c'"
  by (simp_all add: closed_then_run_def write_refused_def)

text \<open>The end of a child closes the node with an output or an error, and the parent's run returns.\<close>

definition child_closes :: "retry_services \<Rightarrow> go_error + bool \<Rightarrow> name \<Rightarrow> gmap \<Rightarrow> string \<Rightarrow> run_ctx \<Rightarrow> run_ctx \<Rightarrow> bool" where
  "child_closes sv lk n out err c c' \<longleftrightarrow> (\<exists>r. closed_then_run sv lk n (fst (splitAwaitEventPayload out)) err c r c') \<or> write_refused sv c c'"

lemma completed_outcome:
  assumes ok: "closes_cleanly sv n out err c" and row: "dbNodes c n = Some row" "active_node (State row)"
    and b: "\<And>b. dbBindings c n = Some b \<Longrightarrow> ab_AwaitType b = ''subworkflow'' \<Longrightarrow> ab_Status b = AwaitBindingWaiting"
  shows "\<exists>c'. (case tryCompleteSubWorkflowBinding sv lk n out err c of Some x \<Rightarrow> x | None \<Rightarrow> completeAndResumeParent sv lk n out err meta c) = Ret c'
    \<and> child_closes sv lk n out err c c'"
proof (cases "subworkflow_binding n c")
  case True
  then obtain b where "dbBindings c n = Some b" "ab_AwaitType b = ''subworkflow''" by (auto simp: subworkflow_binding_def split: option.splits)
  from CompleteAwaitNode_outcome [OF ok this(1) b [OF this] row, of lk "''event:subworkflow''"] True show ?thesis
    by (auto simp: tryCompleteSubWorkflowBinding_def child_closes_def)
next
  case False
  obtain x c1 where a: "AttemptCompletePendingEdges (rv_env sv) n (fst (splitAwaitEventPayload out)) err c = (x, c1)" by force
  from active_attempted [OF row a] show ?thesis
  proof
    assume x: "x = Inr True"
    then obtain r c' where r: "ResumeTask sv lk n meta c1 = Ret (r, c')" using closed_resumes [OF ok refl refl] a by blast
    from closed_then_runI [OF a [unfolded x] refl refl r refl refl] show ?thesis
      using a x r False by (auto simp: tryCompleteSubWorkflowBinding_def completeAndResumeParent_def completeAsyncNode_def resumeParentTask_def child_closes_def)
  next
    assume "\<exists>m. x = Inl m \<and> db_err (rv_env sv) (writes c) = Some m"
    then show ?thesis using a False AttemptComplete_cases [OF a]
      by (auto simp: tryCompleteSubWorkflowBinding_def completeAndResumeParent_def completeAsyncNode_def child_closes_def write_refused_def)
  qed
qed

lemma child_closed:
  assumes "ready_for_child sv n c" and row: "dbNodes c n = Some row" "active_node (State row)"
    and "classifyParentFanoutNode (rv_env sv) (Some row) = ParentFanoutNodeNone"
    and b: "\<And>b. dbBindings c n = Some b \<Longrightarrow> ab_AwaitType b = ''subworkflow'' \<Longrightarrow> ab_Status b = AwaitBindingWaiting"
  shows "\<exists>c'. (case tryCompleteSubWorkflowBinding sv lk n out err (publishSubWorkflowFanoutProgress child p n d r f c) of Some x \<Rightarrow> x
      | None \<Rightarrow> completeAndResumeParent sv lk n out err meta (publishSubWorkflowFanoutProgress child p n d r f c)) = Ret c'
    \<and> child_closes sv lk n out err c c'"
proof -
  let ?c = "publishSubWorkflowFanoutProgress child p n d r f c"
  have "closes_cleanly sv n out err ?c" using assms(1,2,4) closes_cleanly_tables [of ?c c] by (simp add: ready_for_child_def)
  moreover have "child_closes sv lk n out err ?c c' = child_closes sv lk n out err c c'" for c'
    by (simp add: child_closes_def closed_then_run_tables [of ?c c])
  ultimately show ?thesis using completed_outcome [of sv n out err ?c row lk meta] row b by simp
qed

lemma child_wakes:
  assumes "ready_for_child sv n c" and "dbNodes c n = Some row" and "classifyParentFanoutNode (rv_env sv) (Some row) \<noteq> ParentFanoutNodeNone"
  shows "\<exists>r c'. ResumeTask sv lk n [] c = Ret (r, c') \<and> resumeParentTask sv lk n [] c = Ret c'"
proof -
  have "wakes_cleanly sv c" using assms by (simp add: ready_for_child_def)
  then obtain r c' where "ResumeTask sv lk n [] c = Ret (r, c')" using ResumeTask_returns [of c sv lk n "[]"] by (auto simp: wakes_cleanly_def)
  then show ?thesis by (auto simp: resumeParentTask_def)
qed

lemma reconcile_closes:
  assumes ok: "\<And>out err. closes_cleanly sv n out err c" and row: "dbNodes c n = Some row" "active_node (State row)"
    and b: "dbBindings c n = Some b" "ab_Status b = AwaitBindingWaiting" "ab_AwaitType b = ''subworkflow''"
    and i: "subWorkflowChildIDFromCorrelation (ab_Correlation b) = i" "i \<noteq> 0" "get i = Inr child"
  shows "Status child = TaskSuccess \<and> ParseFinal (OutputJSON child) = Inr final \<longrightarrow>
      (\<exists>r c'. ReconcileSubWorkflowBinding sv lk get n c = Ret (r, c') \<and> child_closes sv lk n final [] c c')"
    and "Status child \<in> {TaskFailed, TaskCanceled} \<longrightarrow>
      (\<exists>err r c'. err \<noteq> [] \<and> ReconcileSubWorkflowBinding sv lk get n c = Ret (r, c') \<and> child_closes sv lk n [] err c c')"
proof -
  have closes: "\<exists>r c'. CompleteAwaitNode sv lk n out err src c = Ret (r, c') \<and> child_closes sv lk n out err c c'" for out err src
    using CompleteAwaitNode_outcome [OF ok b(1,2) row, of lk out err src] by (auto simp: child_closes_def)
  show "Status child = TaskSuccess \<and> ParseFinal (OutputJSON child) = Inr final \<longrightarrow>
      (\<exists>r c'. ReconcileSubWorkflowBinding sv lk get n c = Ret (r, c') \<and> child_closes sv lk n final [] c c')"
    using closes [of final "[]" "''poll:subworkflow''"] b i by (auto simp: ReconcileSubWorkflowBinding_def Let_def)
  let ?err = "if ErrorMessage child = [] then ''subworkflow child task '' @ FormatInt i @ '' terminal status='' @ task_status_str (Status child)
    else ErrorMessage child"
  show "Status child \<in> {TaskFailed, TaskCanceled} \<longrightarrow>
      (\<exists>err r c'. err \<noteq> [] \<and> ReconcileSubWorkflowBinding sv lk get n c = Ret (r, c') \<and> child_closes sv lk n [] err c c')"
    using closes [of "[]" ?err "''poll:subworkflow''"] b i
    by (intro impI exI [of _ ?err]) (auto simp: ReconcileSubWorkflowBinding_def Let_def)
qed

text \<open>
  C11. The end of a child reaches its parent. Let an active node of the parent accept the result of
  the child and its rows be ready for it (clean once the node is closed, or as they are for a map
  or loop node). A plain subworkflow node, whose binding if any still waits, is closed with the final
  output of the child, or as failed with the error, by the success event, by the failure event and, when
  the event was lost, by the reconciliation of its binding; and the run of the parent on the
  closed row returns (unless the database refuses the write: then the rows stay as
  they were). A map or loop node is woken by either event: the parent's run is
  resumed at the node and returns, as long as the child's retry count is within its limit.
\<close>

theorem child_end_reaches_parent:
  assumes "dbNodes c n = Some row" and "active_node (State row)" and "ParentID child = Some p" and "ParentNode child = Some n" and "n \<noteq> []"
    and "canAcceptChildResult (rv_env sv) n child c" and "ready_for_child sv n c"
    and "\<forall>b. dbBindings c n = Some b \<and> ab_AwaitType b = ''subworkflow'' \<longrightarrow> ab_Status b = AwaitBindingWaiting"
  shows "if classifyParentFanoutNode (rv_env sv) (Some row) = ParentFanoutNodeNone
    then (\<forall>final. ParseFinal (OutputJSON child) = Inr final \<longrightarrow>
            (\<exists>c'. on_child_succeeded sv lk child c = Ret c' \<and> child_closes sv lk n final [] c c'))
      \<and> (\<exists>c'. on_child_failed sv lk child msg meta c = Ret c' \<and> child_closes sv lk n [] msg c c')
      \<and> (\<forall>b get. dbBindings c n = Some b \<and> ab_AwaitType b = ''subworkflow'' \<and> subWorkflowChildIDFromCorrelation (ab_Correlation b) = task_id child
            \<and> task_id child \<noteq> 0 \<and> get (task_id child) = Inr child \<longrightarrow>
          (\<forall>final. Status child = TaskSuccess \<and> ParseFinal (OutputJSON child) = Inr final \<longrightarrow>
            (\<exists>r c'. ReconcileSubWorkflowBinding sv lk get n c = Ret (r, c') \<and> child_closes sv lk n final [] c c'))
          \<and> (Status child = TaskFailed \<longrightarrow>
            (\<exists>err r c'. err \<noteq> [] \<and> ReconcileSubWorkflowBinding sv lk get n c = Ret (r, c') \<and> child_closes sv lk n [] err c c')))
    else \<exists>r c'. ResumeTask sv lk n [] c = Ret (r, c') \<and> on_child_succeeded sv lk child c = Ret c'
      \<and> (RetryCount child \<le> MaxAutoRetryCount \<longrightarrow> on_child_failed sv lk child msg meta c = Ret c')"
proof -
  have x: "loadChildEventContext child c = Some (p, n, row)" using assms(1,3-5) by (simp add: loadChildEventContext_def)
  show ?thesis
  proof (cases "classifyParentFanoutNode (rv_env sv) (Some row) = ParentFanoutNodeNone")
    case True
    have b: "\<And>b. dbBindings c n = Some b \<Longrightarrow> ab_AwaitType b = ''subworkflow'' \<Longrightarrow> ab_Status b = AwaitBindingWaiting"
      using assms(8) by blast
    note closes = child_closed [OF assms(7,1,2) True b]
    have ok: "closes_cleanly sv n out err c" for out err using assms(1,7) True by (simp add: ready_for_child_def)
    note rec = reconcile_closes [OF ok assms(1,2) _ b]
    have "\<exists>c'. on_child_succeeded sv lk child c = Ret c' \<and> child_closes sv lk n final [] c c'" if "ParseFinal (OutputJSON child) = Inr final" for final
      using closes [where out = final and err = "[]" and meta = final and child = child and p = p and d = 1 and r = 0 and f = 0 and lk = lk] assms(6) True that by (simp add: on_child_succeeded_def x Let_def)
    moreover have "\<exists>c'. on_child_failed sv lk child msg meta c = Ret c' \<and> child_closes sv lk n [] msg c c'"
      using closes [where out = "[]" and err = msg and meta = meta and child = child and p = p and d = 0 and r = 0 and f = 1 and lk = lk] assms(6) True by (simp add: on_child_failed_def x Let_def)
    ultimately show ?thesis using True rec by auto
  next
    case False
    obtain r c' where r: "ResumeTask sv lk n [] c = Ret (r, c')" "resumeParentTask sv lk n [] c = Ret c'"
      using child_wakes [OF assms(7,1) False] by blast
    have "on_child_succeeded sv lk child c = Ret c'"
      using r(2) assms(6) False by (cases "classifyParentFanoutNode (rv_env sv) (Some row)") (simp_all add: on_child_succeeded_def x)
    moreover have "on_child_failed sv lk child msg meta c = Ret c'" if "RetryCount child \<le> MaxAutoRetryCount"
      using r(2) assms(6) False that by (simp add: on_child_failed_def x Let_def)
    ultimately show ?thesis using r(1) False by auto
  qed
qed

text \<open>
  While the stored counts are within their bounds no failed child fails its parent for good: the
  comparison with the limit is never true.
\<close>

lemma permanent_failure_unreachable:
  assumes "counts_ok st" and "GetByID i st = Inr child" and "loadChildEventContext child c = Some (p, n, rt)"
    and "canAcceptChildResult (rv_env sv) n child c" and "classifyParentFanoutNode (rv_env sv) (Some rt) \<noteq> ParentFanoutNodeNone"
  shows "on_child_failed sv lk child msg meta c = resumeParentTask sv lk n [] c"
proof -
  from GetByID_Inr [OF assms(2)] obtain r where "r \<in> set (st_tasks st)" "child = loaded r" by blast
  with assms(1) have "RetryCount child \<le> MaxAutoRetryCount" by (auto simp: counts_ok_def loaded_def)
  with assms(3-5) show ?thesis by (simp add: on_child_failed_def Let_def)
qed

text \<open>The sample task waits for a child.\<close>

lemma await_closes: "closes_cleanly sample_services n out err (await_ctx NodeAwaiting)"
  unfolding closes_cleanly_def
proof (intro allI impI)
  fix t0 def w now row
  assume a: "dbTask (await_ctx NodeAwaiting) = Some t0 \<and> loadWorkflowForTask sample_services (loaded_task t0) = Inr (def, w)
    \<and> dbNodes (await_ctx NodeAwaiting) n = Some row"
  then have "t0 = sample_task\<lparr>Status := TaskSuspended\<rparr>" and n: "n = ''a''" "row = sample_rt ''a'' NodeAwaiting"
    by (auto simp: await_ctx_def split: if_splits)
  then have ld: "loadWorkflowForTask sample_services (loaded_task (sample_task\<lparr>Status := TaskSuspended\<rparr>)) = Inr (def, w)" using a by simp
  obtain w' nd where l: "load_workflow sample_services 1 = Inr w'" and c: "compiled sample_registry solo w'" and g: "wf_graph (cw_graph w')"
    and e: "edge_rel (cw_graph w') = {}" and d: "dom (gNodes (cw_graph w')) = {''a''}" by (rule sample_load_workflow)
  have "loadWorkflowForTask sample_services (loaded_task (sample_task\<lparr>Status := TaskSuspended\<rparr>)) = Inr (solo, w')"
    using l by (simp add: loadWorkflowForTask_def loaded_task_def sample_task_def) (simp add: sample_services_def)
  with ld have w: "def = solo" "w = w'" by simp_all
  have cf: "compiled_from def w" unfolding w by (rule accepted_compiled_from [OF sample_registry c]) (simp add: solo_def sample_node_def)
  have rg: "range_ok (rv_env sample_services) (dom (gNodes (cw_graph w)))" using solo_range_ok [of True] compiled_from_facts(2) [OF solo_compiled] d w
    by (simp add: solo_def sample_node_def)
  have p: "Parents (cw_graph w) m = []" for m
  proof -
    have "q \<notin> set (Parents (cw_graph w') m)" for q using e wf_graph_parent_iff [OF g, of q m] by (auto simp: edge_rel_def)
    then show ?thesis unfolding w by (metis list.set_intros(1) neq_Nil_conv)
  qed
  let ?row = "completed_row now (fst (splitAwaitEventPayload out)) err (sample_rt ''a'' NodeAwaiting)"
  have sel: "Name ?row = ''a''" "State ?row = (if err = [] then NodeSuccessPendingEdges else NodeFailedPendingEdges)" "err \<noteq> [] \<Longrightarrow> Error ?row = err"
    by (simp_all add: completed_row_def sample_rt_def)
  have "dom (gNodes (cw_graph w)) = {''a''}" using d w by simp
  then have "row_ok w db ''a'' ?row" for db using sel by (cases "err = []") (simp_all add: row_ok_def crashed_def isTerminal_def p)
  then have "recoverable w ((dbNodes (await_ctx NodeAwaiting))(n \<mapsto> completed_row now (fst (splitAwaitEventPayload out)) err row))"
    using n by (simp add: recoverable_def await_ctx_def)
  with cf rg show "compiled_from def w \<and> range_ok (rv_env sample_services) (dom (gNodes (cw_graph w)))
    \<and> recoverable w ((dbNodes (await_ctx NodeAwaiting))(n \<mapsto> completed_row now (fst (splitAwaitEventPayload out)) err row))" by blast
qed

definition ended_child :: task_row where
  "ended_child = (sample_row 8 (Some 7) TaskSuccess)\<lparr>ParentNode := Some ''a'', OutputJSON := Some [(''final'', VMap [(''x'', VInt 1)])]\<rparr>"

theorem child_end_reaches_parent_witness:
  "\<exists>c'. on_child_succeeded sample_services (Inr True) ended_child (await_ctx NodeAwaiting) = Ret c'
     \<and> (\<exists>r. closed_then_run sample_services (Inr True) ''a'' [(''x'', VInt 1)] [] (await_ctx NodeAwaiting) r c')"
proof -
  let ?c = "await_ctx NodeAwaiting" and ?row = "sample_rt ''a'' NodeAwaiting"
  have k: "classifyParentFanoutNode e (Some ?row) = ParentFanoutNodeNone" for e
    by (simp add: classifyParentFanoutNode_def sample_rt_def)
  have row: "dbNodes ?c ''a'' = Some ?row" "active_node (State ?row)" by (simp_all add: await_ctx_def active_node_def sample_rt_def)
  have child: "ParentID ended_child = Some 7" "ParentNode ended_child = Some ''a''" "''a'' \<noteq> []" by (simp_all add: ended_child_def sample_row_def task.defs)
  have acc: "canAcceptChildResult (rv_env sample_services) ''a'' ended_child ?c"
    by (simp add: canAcceptChildResult_def ended_child_def await_ctx_def sample_rt_def accepting_node_def classifyParentFanoutNode_def)
  have rdy: "ready_for_child sample_services ''a'' ?c"
    unfolding ready_for_child_def using await_closes k by (auto simp: await_ctx_def split: if_splits)
  have b: "\<forall>b. dbBindings ?c ''a'' = Some b \<and> ab_AwaitType b = ''subworkflow'' \<longrightarrow> ab_Status b = AwaitBindingWaiting"
    by (simp add: await_ctx_def)
  have "fst (splitAwaitEventPayload [(''x'', VInt 1)]) = [(''x'', VInt 1)]" by code_simp
  moreover have "ParseFinal (OutputJSON ended_child) = Inr [(''x'', VInt 1)]" by (simp add: ended_child_def ParseFinal_def)
  moreover have "\<not> write_refused sample_services ?c c'" for c' by (simp add: write_refused_def sample_services_def sample_env_def)
  ultimately show ?thesis
    using child_end_reaches_parent [OF row child acc rdy b, of "Inr True"] k by (simp add: child_closes_def)
qed

end
