(* ===== verification/Flux_Map_Step.thy ===== *)
theory Flux_Map_Step
  imports Flux_Fanout
begin

text \<open>
  \<^verbatim>\<open>workflow/nodes/map_node_step.go\<close>: the step behind a map node, which starts one child task per
  item, at most \<open>parallel\<close> at a time, and gathers their results in the checkpoint of the node.
  Each run of the step works through the stages of \<^verbatim>\<open>Run\<close>: complete an empty list, create or
  check the checkpoint, aggregate finished children, reuse unchanged items of the parent run of
  a fork, finish or start further children. By then the total in the checkpoint is the number of
  items, so the final stages take it as a natural number.
\<close>

subsection \<open>Reading a checkpoint\<close>

definition readDoneTotal :: "gmap option \<Rightarrow> int \<times> int" where
  "readDoneTotal r = (case r of None \<Rightarrow> (0, 0) | Some cp \<Rightarrow> (ToInt64 (cfg cp ''done''), ToInt64 (cfg cp ''total'')))"

definition hasCheckpointResult :: "gmap \<Rightarrow> int \<Rightarrow> bool" where
  "hasCheckpointResult cp index = has_key (sub_map cp ''results'') (FormatInt index)"

fun collect_results :: "gmap \<Rightarrow> nat list \<Rightarrow> go_error + gval list" where
  "collect_results raw [] = Inr []"
| "collect_results raw (i # is) =
     (case map_of raw (FormatInt (int i)) of
        None \<Rightarrow> Inl (''map result missing index '' @ FormatInt (int i))
      | Some v \<Rightarrow> (case collect_results raw is of Inl m \<Rightarrow> Inl m | Inr vs \<Rightarrow> Inr (v # vs)))"

definition buildFinalResultsFromCheckpoint :: "gmap \<Rightarrow> nat \<Rightarrow> go_error + gval list" where
  "buildFinalResultsFromCheckpoint cp tot =
     (case map_of cp ''results'' of
        Some (VMap raw) \<Rightarrow> collect_results raw [0..<tot]
      | _ \<Rightarrow> Inl ''map checkpoint results missing'')"

definition countMapEntries :: "gval \<Rightarrow> int" where
  "countMapEntries v = (case v of VMap m \<Rightarrow> int (length m) | _ \<Rightarrow> 0)"

definition hasAnyReusedMapItems :: "gmap \<Rightarrow> bool" where
  "hasAnyReusedMapItems cp = list_ex (\<lambda>(k, v). v = VBool True) (sub_map cp ''reused_items'')"

subsection \<open>Progress\<close>

text \<open>The children that are active, the failed or canceled ones, and the position of the first active one.\<close>

definition activeStatus :: "task_status \<Rightarrow> bool" where
  "activeStatus s \<longleftrightarrow> s = TaskPending \<or> s = TaskRunning \<or> s = TaskSuspended"

fun child_counts :: "task list \<Rightarrow> int \<times> int \<times> int \<Rightarrow> int \<times> int \<times> int" where
  "child_counts [] acc = acc"
| "child_counts (t # ts) (running, failed, first) =
     (let idx = (case getSubTaskIndex t of None \<Rightarrow> 0 | Some i \<Rightarrow> i)
      in if activeStatus (Status t)
         then child_counts ts (running + 1, failed, if first < 0 \<or> idx < first then idx else first)
         else if Status t = TaskFailed \<or> Status t = TaskCanceled
         then child_counts ts (running, failed + 1, first)
         else child_counts ts (running, failed, first))"

definition childRuntimeSummary :: "env \<Rightarrow> node_exec \<Rightarrow> run_ctx \<Rightarrow> int \<times> int \<times> int" where
  "childRuntimeSummary e x c =
     (case child_counts (ListByParentNode e (nx_name x) c) (0, 0, - 1) of
        (running, failed, first) \<Rightarrow> (running, failed, if 0 \<le> first then first + 1 else 0))"

definition map_emitFanoutProgress :: "env \<Rightarrow> node_exec \<Rightarrow> run_ctx \<Rightarrow> run_ctx" where
  "map_emitFanoutProgress e x c =
     (case Runtime c (nx_name x) of None \<Rightarrow> c | Some rt \<Rightarrow>
       (case Checkpoint rt of None \<Rightarrow> c | Some cp \<Rightarrow>
         (let (dn, tot) = readDoneTotal (Some cp); (running, failed, cur) = childRuntimeSummary e x c
          in EmitFanoutProgress x ''map'' tot dn running failed
               (countMapEntries (cfg cp ''reused_items'')) cur c)))"

subsection \<open>Fallback results\<close>

definition source_url :: "env \<Rightarrow> gmap \<Rightarrow> string" where
  "source_url e m =
     (case filter (\<lambda>s. s \<noteq> []) (map (\<lambda>k. ToString e (cfg m k))
             [''source_image_url'', ''image_url'', ''primary_file_url'', ''url'']) of
        [] \<Rightarrow> [] | s # _ \<Rightarrow> s)"

definition buildFallbackResult :: "env \<Rightarrow> map_step \<Rightarrow> int \<Rightarrow> task \<Rightarrow> gval list \<Rightarrow> gmap" where
  "buildFallbackResult e m index child items =
     (let base = [(''index'', VInt index), (''status'', VStr ''fallback''), (''quality'', VStr ''low''),
                  (''source'', VStr ''original''), (''degraded'', VBool True), (''fallback_used'', VBool True),
                  (''fallback_source'', VStr (ms_fallbackSource m)), (''error'', VStr (ErrorMessage child))]
      in if \<not> (0 \<le> index \<and> index < int (length items)) then base
         else
           (let item = items ! nat index;
                r1 = AList.update ''original_item'' item base
            in case item of
                 VMap im \<Rightarrow>
                   (let url = source_url e im;
                        r2 = (if url = [] then r1
                              else AList.update ''image_url'' (VStr url) (AList.update ''primary_file_url'' (VStr url) r1))
                    in put_all (List.map_filter (\<lambda>k. case map_of im k of
                            None \<Rightarrow> None | Some v \<Rightarrow> if v = VNil then None else Some (k, v))
                          [''result_type'', ''width'', ''height'', ''aspect_ratio'']) r2)
               | _ \<Rightarrow> r1))"

definition getItemHash :: "env \<Rightarrow> gval list \<Rightarrow> int \<Rightarrow> string" where
  "getItemHash e items index =
     (if index < 0 \<or> int (length items) \<le> index then [] else item_hash e (items ! nat index))"

definition is_fallback :: "gval \<Rightarrow> bool" where
  "is_fallback v = (case v of VMap m \<Rightarrow> map_of m ''status'' = Some (VStr ''fallback'') | _ \<Rightarrow> False)"

text \<open>The two parts of the warning text, in UTF-8.\<close>

definition warning_text :: "nat \<Rightarrow> string \<Rightarrow> string" where
  "warning_text i m =
     map char_of [229, 173, 144, 228, 187, 187, 229, 138, 161, 32 :: nat] @ ''index='' @ FormatInt (int i)
     @ map char_of [32, 229, 164, 177, 232, 180, 165, 239, 188, 140, 229, 183, 178, 228, 189, 191, 231, 148, 168,
          229, 142, 159, 229, 167, 139, 230, 149, 176, 230, 141, 174, 229, 133, 156, 229, 186, 149 :: nat]
     @ '': '' @ m"

definition buildWarnings :: "env \<Rightarrow> gmap \<Rightarrow> nat \<Rightarrow> gval list" where
  "buildWarnings e cp tot =
     List.map_filter (\<lambda>i. case map_of (sub_map cp ''results'') (FormatInt (int i)) of
        Some (VMap rm) \<Rightarrow>
          (if is_fallback (VMap rm)
           then (let m = ToString e (cfg rm ''error'')
                 in Some (VStr (warning_text i (if m = [] then ''unknown error'' else m))))
           else None)
      | _ \<Rightarrow> None) [0..<tot]"

definition put_missing :: "gmap \<Rightarrow> gmap \<Rightarrow> gmap" where
  "put_missing kvs m = fold (\<lambda>(k, v) m. if has_key m k then m else AList.update k v m) kvs m"

definition enrich_item :: "gmap \<Rightarrow> nat \<Rightarrow> gval \<Rightarrow> gval" where
  "enrich_item raw i v =
     (case v of
        VMap rm \<Rightarrow>
          (if (case map_of raw (FormatInt (int i)) of Some w \<Rightarrow> is_fallback w | None \<Rightarrow> False)
           then VMap (put_missing [(''quality'', VStr ''low''), (''source'', VStr ''original''),
                  (''degraded'', VBool True)] rm)
           else VMap (put_missing [(''status'', VStr ''success''), (''quality'', VStr ''high''),
                  (''source'', VStr ''ai''), (''degraded'', VBool False)] rm))
      | _ \<Rightarrow> v)"

definition enrichResultItems :: "gmap \<Rightarrow> gval list \<Rightarrow> gval list" where
  "enrichResultItems cp final =
     map (\<lambda>(i, v). enrich_item (sub_map cp ''results'') i v) (zip [0..<length final] final)"

text \<open>The indexes of the successful and of the fallback results.\<close>

definition classifyResultIndexes :: "gmap \<Rightarrow> nat \<Rightarrow> nat list \<times> nat list" where
  "classifyResultIndexes cp tot =
     (case map_of cp ''results'' of
        Some (VMap raw) \<Rightarrow>
          (let cls = (\<lambda>b i. case map_of raw (FormatInt (int i)) of
                 Some (VMap rm) \<Rightarrow> is_fallback (VMap rm) = b | _ \<Rightarrow> False)
           in (filter (cls False) [0..<tot], filter (cls True) [0..<tot]))
      | _ \<Rightarrow> ([0..<tot], []))"

definition int_list :: "nat list \<Rightarrow> gval" where
  "int_list is = VList (map (\<lambda>i. VInt (int i)) is)"

definition buildPartialMeta :: "gmap \<Rightarrow> nat \<Rightarrow> gmap \<times> gmap" where
  "buildPartialMeta cp tot =
     (let (ok, fb) = classifyResultIndexes cp tot; s = VInt (int (length ok)); f = VInt (int (length fb))
      in ([(''success_indexes'', int_list ok), (''fallback_indexes'', int_list fb), (''failed_indexes'', int_list fb)],
          [(''success_count'', s), (''fallback_count'', f), (''high_quality_count'', s), (''low_quality_count'', f),
           (''fallback_rate'', VFloat (if 0 < tot then of_nat (length fb) / of_nat tot else 0))]))"
subsection \<open>The stages of a run\<close>

definition clear_output :: "node_runtime \<Rightarrow> node_runtime" where
  "clear_output rt = rt\<lparr>Output := None, OutputHash := []\<rparr>"

definition completeEmpty :: "env \<Rightarrow> node_exec \<Rightarrow> run_ctx \<Rightarrow> step_result \<times> gmap \<times> run_ctx" where
  "completeEmpty e x c =
     (case Runtime c (nx_name x) of
        None \<Rightarrow> (StepErr ''map runtime not found'', [], c)
      | Some rt \<Rightarrow>
         (let out = [(''results'', VList [])];
              rt1 = (clearNodeReuseMetadata (rt\<lparr>Output := Some out, OutputHash := canonicalHash e '''' (Some out)\<rparr>))
                      \<lparr>ReuseKind := ReuseNone\<rparr>
          in case persist e (nx_name x) rt1 c of
               (Some m, c1) \<Rightarrow> (StepErr m, out, c1)
             | (None, c1) \<Rightarrow> (StepOk, out, c1)))"

definition initial_checkpoint :: "map_step \<Rightarrow> nat \<Rightarrow> gmap" where
  "initial_checkpoint m tot =
     [(''fanout_kind'', VStr ''map''), (''total'', VInt (int tot)), (''done'', VInt 0), (''results'', VMap []),
      (''item_hashes'', VMap []), (''reused_items'', VMap []), (''failure_policy'', VStr (ms_failurePolicy m)),
      (''max_child_retries'', VInt (ms_maxChildRetries m)), (''fallback_source'', VStr (ms_fallbackSource m)),
      (''max_fallback_ratio'', VFloat (ms_maxFallbackRatio m))]"

definition initCheckpoint :: "env \<Rightarrow> map_step \<Rightarrow> name \<Rightarrow> node_runtime \<Rightarrow> nat \<Rightarrow> run_ctx \<Rightarrow> go_error option \<times> run_ctx" where
  "initCheckpoint e m n rt tot c = persist e n (clear_output (rt\<lparr>Checkpoint := Some (initial_checkpoint m tot)\<rparr>)) c"

text \<open>The first stage: a node without a checkpoint gets one and announces it.\<close>

definition startCheckpoint :: "env \<Rightarrow> map_step \<Rightarrow> node_exec \<Rightarrow> nat \<Rightarrow> run_ctx \<Rightarrow> go_error option \<times> run_ctx" where
  "startCheckpoint e m x tot c =
     (case Runtime c (nx_name x) of
        None \<Rightarrow> (None, c)
      | Some rt \<Rightarrow>
         (case Checkpoint rt of
            Some _ \<Rightarrow> (None, c)
          | None \<Rightarrow> (case initCheckpoint e m (nx_name x) rt tot c of
              (Some msg, c1) \<Rightarrow> (Some msg, c1)
            | (None, c1) \<Rightarrow> (None, map_emitFanoutProgress e x c1))))"

definition ensureCheckpointConsistency :: "env \<Rightarrow> node_exec \<Rightarrow> nat \<Rightarrow> run_ctx \<Rightarrow> go_error option \<times> run_ctx" where
  "ensureCheckpointConsistency e x tot c =
     (case Runtime c (nx_name x) of
        None \<Rightarrow> (Some ''map checkpoint missing'', c)
      | Some rt \<Rightarrow>
         (case Checkpoint rt of
            None \<Rightarrow> (Some ''map checkpoint missing'', c)
          | Some cp \<Rightarrow>
             (let oldTotal = ToInt64 (cfg cp ''total'')
              in if oldTotal = 0 then persist e (nx_name x) (rt\<lparr>Checkpoint := Some (AList.update ''total'' (VInt (int tot)) cp)\<rparr>) c
                 else if oldTotal \<noteq> int tot then (Some ''map checkpoint total mismatch'', c)
                 else (None, c))))"

text \<open>
  One existing child: skipped, aggregated, replaced by a fallback, or the reason to fail.
\<close>

definition aggregate_child ::
  "env \<Rightarrow> map_step \<Rightarrow> gval list \<Rightarrow> task \<Rightarrow> node_runtime \<Rightarrow> go_error option \<times> node_runtime \<times> bool" where
  "aggregate_child e m items t rt =
     (case getSubTaskIndex t of
        None \<Rightarrow> (None, rt, False)
      | Some index \<Rightarrow>
         if (case Checkpoint rt of None \<Rightarrow> False | Some cp \<Rightarrow> hasCheckpointResult cp index) then (None, rt, False)
         else
           (let fallback = WriteMapItemResult index (getItemHash e items index) (buildFallbackResult e m index t items) False rt
            in case Status t of
                 TaskSuccess \<Rightarrow>
                   (case ParseFinal (OutputJSON t) of
                      Inl _ \<Rightarrow> (None, rt, False)
                    | Inr final \<Rightarrow>
                       (let h = (case InputJSON t of None \<Rightarrow> [] | Some inp \<Rightarrow>
                                  (case map_of inp ''__map_item_hash'' of Some (VStr s) \<Rightarrow> s | _ \<Rightarrow> []))
                        in (None, WriteMapItemResult index h final False rt, True)))
               | TaskFailed \<Rightarrow>
                   if ms_failurePolicy m = ''partial'' then (None, fallback, True)
                   else (Some ''map child task failed'', rt, False)
               | TaskCanceled \<Rightarrow>
                   if ms_failurePolicy m = ''partial'' then (None, fallback, True)
                   else (Some ''map child task canceled'', rt, False)
               | _ \<Rightarrow> (None, rt, False)))"

fun aggregate_children ::
  "env \<Rightarrow> map_step \<Rightarrow> gval list \<Rightarrow> task list \<Rightarrow> node_runtime \<times> bool \<Rightarrow> go_error option \<times> node_runtime \<times> bool" where
  "aggregate_children e m items [] (rt, changed) = (None, rt, changed)"
| "aggregate_children e m items (t # ts) (rt, changed) =
     (case aggregate_child e m items t rt of
        (Some msg, rt1, ch) \<Rightarrow> (Some msg, rt1, changed \<or> ch)
      | (None, rt1, ch) \<Rightarrow> aggregate_children e m items ts (rt1, changed \<or> ch))"

text \<open>Clears the output and writes the row when a result was added; otherwise nothing is written.\<close>

definition persist_if :: "env \<Rightarrow> name \<Rightarrow> bool \<Rightarrow> node_runtime \<Rightarrow> run_ctx \<Rightarrow> go_error option \<times> run_ctx" where
  "persist_if e n changed rt c =
     (if changed then persist e n (clear_output rt) c else (None, set_runtime n rt c))"

definition processExistingChildren ::
  "env \<Rightarrow> map_step \<Rightarrow> node_exec \<Rightarrow> gval list \<Rightarrow> run_ctx \<Rightarrow> go_error option \<times> run_ctx" where
  "processExistingChildren e m x items c =
     (case Runtime c (nx_name x) of
        None \<Rightarrow> (Some ''map checkpoint missing'', c)
      | Some rt0 \<Rightarrow>
         (let rt = (if Checkpoint rt0 = None then rt0\<lparr>Checkpoint := Some []\<rparr> else rt0)
          in case aggregate_children e m items (ListByParentNode e (nx_name x) c) (rt, False) of
               (Some msg, rt1, _) \<Rightarrow> (Some msg, set_runtime (nx_name x) rt1 c)
             | (None, rt1, changed) \<Rightarrow> persist_if e (nx_name x) changed rt1 c))"

definition tryReuseMapItem :: "node_exec \<Rightarrow> nat \<Rightarrow> string \<Rightarrow> gmap option" where
  "tryReuseMapItem x index itemHash =
     (case nx_ParentSnapshot x of
        None \<Rightarrow> None
      | Some sn \<Rightarrow>
         if (case nx_MapItemReuse x (nx_name x) of None \<Rightarrow> False | Some ok \<Rightarrow> index \<notin> ok) then None
         else (case sn_Nodes sn (nx_name x) of
             None \<Rightarrow> None
           | Some prt \<Rightarrow>
              (case Checkpoint prt of
                 None \<Rightarrow> None
               | Some cp \<Rightarrow>
                  (case (map_of cp ''item_hashes'', map_of cp ''results'') of
                     (Some (VMap hs), Some (VMap rs)) \<Rightarrow>
                       (let key = FormatInt (int index);
                            oldHash = (case map_of hs key of Some (VStr h) \<Rightarrow> h | _ \<Rightarrow> [])
                        in if oldHash \<noteq> itemHash then None
                           else (case map_of rs key of Some (VMap r) \<Rightarrow> Some r | _ \<Rightarrow> None))
                   | _ \<Rightarrow> None))))"

fun reuse_items :: "env \<Rightarrow> node_exec \<Rightarrow> (nat \<times> gval) list \<Rightarrow> node_runtime \<times> bool \<Rightarrow> node_runtime \<times> bool" where
  "reuse_items e x [] acc = acc"
| "reuse_items e x ((i, item) # rest) (rt, changed) =
     (if (case Checkpoint rt of None \<Rightarrow> False | Some cp \<Rightarrow> hasCheckpointResult cp (int i))
      then reuse_items e x rest (rt, changed)
      else (case tryReuseMapItem x i (item_hash e item) of
          None \<Rightarrow> reuse_items e x rest (rt, changed)
        | Some r \<Rightarrow> reuse_items e x rest (WriteMapItemResult (int i) (item_hash e item) r True rt, True)))"

definition indexed :: "gval list \<Rightarrow> (nat \<times> gval) list" where
  "indexed items = zip [0..<length items] items"

definition fillReusableItems :: "env \<Rightarrow> node_exec \<Rightarrow> gval list \<Rightarrow> run_ctx \<Rightarrow> go_error option \<times> run_ctx" where
  "fillReusableItems e x items c =
     (case Runtime c (nx_name x) of
        None \<Rightarrow> (Some ''map checkpoint missing'', c)
      | Some rt \<Rightarrow>
         if Checkpoint rt = None then (Some ''map checkpoint missing'', c)
         else (case reuse_items e x (indexed items) (rt, False) of (rt1, changed) \<Rightarrow> persist_if e (nx_name x) changed rt1 c))"

definition collectOccupiedChildIndexes :: "env \<Rightarrow> node_exec \<Rightarrow> run_ctx \<Rightarrow> int \<times> int set" where
  "collectOccupiedChildIndexes e x c =
     (let ts = filter (\<lambda>t. getSubTaskIndex t \<noteq> None) (ListByParentNode e (nx_name x) c)
      in (int (length (filter (\<lambda>t. activeStatus (Status t)) ts)), set (List.map_filter getSubTaskIndex ts)))"

fun dispatch_items ::
  "env \<Rightarrow> map_step \<Rightarrow> node_exec \<Rightarrow> gmap \<Rightarrow> (nat \<times> gval) list \<Rightarrow> int \<Rightarrow> int set \<Rightarrow> run_ctx \<Rightarrow> go_error option \<times> run_ctx" where
  "dispatch_items e m x cp [] active occupied c = (None, c)"
| "dispatch_items e m x cp ((i, item) # rest) active occupied c =
     (if ms_parallel m \<le> active then (None, c)
      else if hasCheckpointResult cp (int i) \<or> int i \<in> occupied
      then dispatch_items e m x cp rest active occupied c
      else (case RunSubWorkflow e (nx_NodeDef x) (ms_workflow m)
                   (buildMapSubWorkflowInput x (ms_iterator m) item (int i) (item_hash e item)) c of
          (SubErr msg, c1) \<Rightarrow> (Some msg, c1)
        | (_, c1) \<Rightarrow> dispatch_items e m x cp rest (active + 1) (insert (int i) occupied) c1))"

definition dispatchPendingChildren ::
  "env \<Rightarrow> map_step \<Rightarrow> node_exec \<Rightarrow> gval list \<Rightarrow> run_ctx \<Rightarrow> go_error option \<times> run_ctx" where
  "dispatchPendingChildren e m x items c =
     (case Runtime c (nx_name x) of
        None \<Rightarrow> (Some ''map checkpoint missing'', c)
      | Some rt \<Rightarrow>
         (case Checkpoint rt of
            None \<Rightarrow> (Some ''map checkpoint missing'', c)
          | Some cp \<Rightarrow>
             (case collectOccupiedChildIndexes e x c of
                (active, occupied) \<Rightarrow> dispatch_items e m x cp (indexed items) active occupied c)))"

text \<open>What a complete node puts out; a node with the policy \<open>partial\<close> also reports the quality.\<close>

definition final_output :: "env \<Rightarrow> map_step \<Rightarrow> gmap \<Rightarrow> nat \<Rightarrow> gval list \<Rightarrow> gmap" where
  "final_output e m cp tot final =
     (if ms_failurePolicy m \<noteq> ''partial'' then [(''results'', VList final)]
      else
        (let (meta, stats) = buildPartialMeta cp tot;
             failed = length (snd (classifyResultIndexes cp tot));
             quality = (if 0 < failed
               then [(''partial_success'', VBool True), (''failed_count'', VInt (int failed)),
                     (''warnings'', VList (buildWarnings e cp tot))]
               else [])
         in [(''results'', VList (enrichResultItems cp final))] @ quality @ [(''meta'', VMap meta)] @ stats))"

definition finalizeCompleted :: "env \<Rightarrow> map_step \<Rightarrow> node_exec \<Rightarrow> run_ctx \<Rightarrow> step_result \<times> gmap \<times> run_ctx" where
  "finalizeCompleted e m x c =
     (case Runtime c (nx_name x) of
        None \<Rightarrow> (StepErr ''map checkpoint missing'', [], c)
      | Some rt \<Rightarrow>
         (case Checkpoint rt of
            None \<Rightarrow> (StepErr ''map checkpoint missing'', [], c)
          | Some cp \<Rightarrow>
             (let tot = nat (ToInt64 (cfg cp ''total''))
              in case buildFinalResultsFromCheckpoint cp tot of
                   Inl msg \<Rightarrow> (StepErr msg, [], c)
                 | Inr final \<Rightarrow>
                    (let out = final_output e m cp tot final;
                         rt1 = (clearNodeReuseMetadata (rt\<lparr>Output := Some out,
                                  OutputHash := canonicalHash e '''' (Some out)\<rparr>))
                                \<lparr>ReuseKind := (if hasAnyReusedMapItems cp then ReuseMapItems else ReuseNone)\<rparr>
                     in case persist e (nx_name x) rt1 c of
                          (Some msg, c1) \<Rightarrow> (StepErr msg, out, c1)
                        | (None, c1) \<Rightarrow>
                            (StepOk, out, EmitNodeEvent (nx_name x) ''progress'' 1 [] (map_emitFanoutProgress e x c1))))))"

definition all_done :: "node_exec \<Rightarrow> run_ctx \<Rightarrow> bool" where
  "all_done x c = (case Runtime c (nx_name x) of None \<Rightarrow> True | Some rt \<Rightarrow>
     (case readDoneTotal (Checkpoint rt) of (dn, tot) \<Rightarrow> tot \<le> dn))"

definition MapNodeStep_Run :: "env \<Rightarrow> map_step \<Rightarrow> node_exec \<Rightarrow> run_ctx \<Rightarrow> step_result \<times> gmap \<times> run_ctx" where
  "MapNodeStep_Run e m x c0 =
     (let c = EmitNodeEvent (nx_name x) ''started'' 0 [] c0
      in case resolveItems e c (ms_itemsExpr m) of
           Inl msg \<Rightarrow> (StepErr (''map resolve items failed: '' @ msg), [], c)
         | Inr items \<Rightarrow>
            if Runtime c (nx_name x) = None then (StepErr ''map runtime not found'', [], c)
            else if items = [] then completeEmpty e x c
            else and_then (startCheckpoint e m x (length items) c) (\<lambda>c1.
                 and_then (ensureCheckpointConsistency e x (length items) c1) (\<lambda>c2.
                 and_then (processExistingChildren e m x items c2) (\<lambda>c3.
                 and_then (fillReusableItems e x items (map_emitFanoutProgress e x c3)) (\<lambda>c4.
                   (let c5 = map_emitFanoutProgress e x c4
                    in if all_done x c5 then finalizeCompleted e m x c5
                       else and_then (dispatchPendingChildren e m x items c5) (\<lambda>c6.
                         (let c7 = map_emitFanoutProgress e x c6
                          in if all_done x c7 then finalizeCompleted e m x c7
                             else (StepSuspend SuspendSubWorkflow, [], c7)))))))))"
subsection \<open>What the children and the parent run offer\<close>

text \<open>
  The specification of the fan-in: the finished children, in the order of the rows, and then the
  items that the parent run of a fork has results for, are candidates for the results of the
  items. A child blocks when it has failed or was canceled and the policy does not allow a
  fallback.
\<close>

definition blocks :: "map_step \<Rightarrow> task \<Rightarrow> bool" where
  "blocks m t \<longleftrightarrow> ms_failurePolicy m \<noteq> ''partial'' \<and> (Status t = TaskFailed \<or> Status t = TaskCanceled)"

definition child_entry :: "env \<Rightarrow> map_step \<Rightarrow> gval list \<Rightarrow> int \<Rightarrow> task \<Rightarrow> (string \<times> gmap \<times> bool) option" where
  "child_entry e m items i t =
     (case Status t of
        TaskSuccess \<Rightarrow>
          (case ParseFinal (OutputJSON t) of
             Inl _ \<Rightarrow> None
           | Inr final \<Rightarrow> Some (case InputJSON t of None \<Rightarrow> [] | Some inp \<Rightarrow>
                (case map_of inp ''__map_item_hash'' of Some (VStr s) \<Rightarrow> s | _ \<Rightarrow> []), final, False))
      | TaskFailed \<Rightarrow> if blocks m t then None
          else Some (getItemHash e items i, buildFallbackResult e m i t items, False)
      | TaskCanceled \<Rightarrow> if blocks m t then None
          else Some (getItemHash e items i, buildFallbackResult e m i t items, False)
      | _ \<Rightarrow> None)"

definition child_candidate :: "env \<Rightarrow> map_step \<Rightarrow> gval list \<Rightarrow> task \<Rightarrow> (int \<times> string \<times> gmap \<times> bool) option" where
  "child_candidate e m items t =
     (case getSubTaskIndex t of None \<Rightarrow> None | Some i \<Rightarrow> map_option (Pair i) (child_entry e m items i t))"

definition child_candidates :: "env \<Rightarrow> map_step \<Rightarrow> gval list \<Rightarrow> task list \<Rightarrow> (int \<times> string \<times> gmap \<times> bool) list" where
  "child_candidates e m items ts = List.map_filter (child_candidate e m items) ts"

definition reuse_candidate :: "env \<Rightarrow> node_exec \<Rightarrow> nat \<times> gval \<Rightarrow> (int \<times> string \<times> gmap \<times> bool) option" where
  "reuse_candidate e x p = (case p of (i, item) \<Rightarrow>
     map_option (\<lambda>r. (int i, item_hash e item, r, True)) (tryReuseMapItem x i (item_hash e item)))"

definition reuse_candidates :: "env \<Rightarrow> node_exec \<Rightarrow> gval list \<Rightarrow> (int \<times> string \<times> gmap \<times> bool) list" where
  "reuse_candidates e x items = List.map_filter (reuse_candidate e x) (indexed items)"

definition item_results :: "env \<Rightarrow> map_step \<Rightarrow> node_exec \<Rightarrow> gval list \<Rightarrow> run_ctx \<Rightarrow> nat \<Rightarrow> gval option" where
  "item_results e m x items c i =
     (case (case Runtime c (nx_name x) of None \<Rightarrow> None | Some rt \<Rightarrow> item_of rt (int i)) of
        Some v \<Rightarrow> Some v
      | None \<Rightarrow> map_option item_view (map_of (child_candidates e m items (ListByParentNode e (nx_name x) c)
                  @ reuse_candidates e x items) (int i)))"

subsection \<open>Aggregation and reuse fill the store\<close>

lemma fill_append: "items.fill (xs @ ys) rt = items.fill ys (items.fill xs rt)"
  by (induction xs arbitrary: rt) auto

lemma has_result_item: "(case Checkpoint rt of None \<Rightarrow> False | Some cp \<Rightarrow> hasCheckpointResult cp i) \<longleftrightarrow> item_of rt i \<noteq> None"
  by (auto simp: item_of_def the_cp_def hasCheckpointResult_def has_key_def sub_map_def split: option.splits)

lemma WriteMapItemResult_write: "WriteMapItemResult i h r b rt = write_item i (h, r, b) rt"
  by (simp add: write_item_def)

lemma aggregate_child_fill:
  "\<not> blocks m t \<Longrightarrow> \<exists>ch. aggregate_child e m items t rt = (None, items.fill (child_candidates e m items [t]) rt, ch)"
  by (cases "getSubTaskIndex t"; cases "Status t")
    (auto simp: aggregate_child_def has_result_item child_candidates_def child_candidate_def child_entry_def
      List.map_filter_def blocks_def write_item_def Let_def split: sum.splits option.splits)

lemma aggregate_child_blocked:
  "blocks m t \<Longrightarrow> \<exists>r. aggregate_child e m items t rt = (r, rt, False)"
  by (auto simp: aggregate_child_def has_result_item blocks_def Let_def split: option.splits)

lemma child_candidates_Cons:
  "child_candidates e m items (t # ts) = child_candidates e m items [t] @ child_candidates e m items ts"
  by (simp add: child_candidates_def List.map_filter_def)

lemma child_candidates_blocked: "blocks m t \<Longrightarrow> child_candidates e m items [t] = []"
  by (auto simp: child_candidates_def child_candidate_def child_entry_def blocks_def List.map_filter_def
      split: task_status.splits option.splits)

lemma aggregate_children_fill:
  assumes "aggregate_children e m items ts (rt, ch) = (r, rt', ch')"
  shows "\<exists>ts1 ts2. ts = ts1 @ ts2 \<and> rt' = items.fill (child_candidates e m items ts1) rt
    \<and> (r = None \<longrightarrow> ts2 = []) \<and> (r \<noteq> None \<longrightarrow> (\<exists>t\<in>set ts. blocks m t))"
  using assms
proof (induction ts arbitrary: rt ch)
  case Nil
  then show ?case by (auto simp: child_candidates_def List.map_filter_def)
next
  case (Cons t ts)
  obtain r1 rt1 ch1 where one: "aggregate_child e m items t rt = (r1, rt1, ch1)" by (metis prod_cases3)
  have rt1: "rt1 = items.fill (child_candidates e m items [t]) rt" and r1: "r1 \<noteq> None \<Longrightarrow> blocks m t"
    using one aggregate_child_fill [of m t e items rt] aggregate_child_blocked [of m t e items rt]
    by (cases "blocks m t"; force simp: child_candidates_blocked)+
  show ?case
  proof (cases r1)
    case None
    with Cons.prems one have "aggregate_children e m items ts (rt1, ch \<or> ch1) = (r, rt', ch')" by simp
    from Cons.IH [OF this] obtain ts1 ts2 where ih: "ts = ts1 @ ts2" "rt' = items.fill (child_candidates e m items ts1) rt1"
      "r = None \<longrightarrow> ts2 = []" "r \<noteq> None \<longrightarrow> (\<exists>t\<in>set ts. blocks m t)" by (elim exE conjE) (rule that)
    have "rt' = items.fill (child_candidates e m items (t # ts1)) rt"
      using ih(2) rt1 by (simp add: child_candidates_Cons [of _ _ _ t ts1] fill_append del: items.fill.simps)
    with ih show ?thesis by (intro exI [of _ "t # ts1"] exI [of _ ts2]) auto
  next
    case (Some msg)
    with Cons.prems one have "rt' = rt1" "r = Some msg" by auto
    with rt1 r1 Some show ?thesis by (intro exI [of _ "[t]"] exI [of _ ts]) auto
  qed
qed

lemma aggregate_children_ok:
  "\<forall>t\<in>set ts. \<not> blocks m t \<Longrightarrow>
    \<exists>ch'. aggregate_children e m items ts (rt, ch) = (None, items.fill (child_candidates e m items ts) rt, ch')"
proof -
  assume free: "\<forall>t\<in>set ts. \<not> blocks m t"
  obtain r rt' ch' where eq: "aggregate_children e m items ts (rt, ch) = (r, rt', ch')" by (metis prod_cases3)
  from aggregate_children_fill [OF this] free have "r = None" "rt' = items.fill (child_candidates e m items ts) rt" by auto
  with eq show ?thesis by simp
qed

lemma reuse_items_fill:
  "\<exists>ch'. reuse_items e x its (rt, ch) = (items.fill (List.map_filter (reuse_candidate e x) its) rt, ch')"
proof (induction its arbitrary: rt ch)
  case Nil
  show ?case by (simp add: List.map_filter_def)
next
  case (Cons p its)
  obtain i item where p: "p = (i, item)" by force
  show ?case
    using Cons.IH
    by (cases "tryReuseMapItem x i (item_hash e item)")
      (simp_all add: p has_result_item reuse_candidate_def List.map_filter_simps WriteMapItemResult_write)
qed
subsection \<open>The stages keep the checkpoint well-formed\<close>

text \<open>What all stages before the dispatch leave alone.\<close>

definition same_kids :: "run_ctx \<Rightarrow> run_ctx \<Rightarrow> bool" where
  "same_kids c c' \<longleftrightarrow> Task c' = Task c \<and> subTasks c' = subTasks c"

lemma same_kids_refl [simp]: "same_kids c c"
  by (simp add: same_kids_def)

lemma same_kids_trans: "same_kids a b \<Longrightarrow> same_kids b c \<Longrightarrow> same_kids a c"
  by (simp add: same_kids_def)

lemma same_kids_list: "same_kids c c' \<Longrightarrow> ListByParentNode e n c' = ListByParentNode e n c"
  by (simp add: same_kids_def ListByParentNode_def)

lemma persist_kids: "same_kids c (snd (persist e n rt c))"
  by (simp add: same_kids_def persist_frame)

lemma emit_same:
  "Runtime (map_emitFanoutProgress e x c) = Runtime c" "same_kids c (map_emitFanoutProgress e x c)"
  "Runtime (EmitNodeEvent n ''started'' p meta c) = Runtime c" "same_kids c (EmitNodeEvent n ty p meta c)"
  by (auto simp: map_emitFanoutProgress_def EmitFanoutProgress_def EmitNodeEvent_def same_kids_def publish_def Let_def
      set_runtime_def split: option.splits prod.splits)

lemma emit_kids [simp]:
  "same_kids c (map_emitFanoutProgress e x c') \<longleftrightarrow> same_kids c c'"
  "same_kids c (EmitNodeEvent n ty p meta c') \<longleftrightarrow> same_kids c c'"
  using emit_same(2) [of c' e x] emit_same(4) [of c' n ty p meta] by (simp_all add: same_kids_def)

lemma emit_child_only: "child_only c (map_emitFanoutProgress e x c)"
  by (auto simp: map_emitFanoutProgress_def EmitFanoutProgress_def child_only_def publish_def Let_def
      split: option.splits prod.splits)

lemma resolveItems_started: "resolveItems e (EmitNodeEvent n ''started'' p meta c) ex = resolveItems e c ex"
  by (rule resolveItems_frame) (auto simp: EmitNodeEvent_def publish_def Let_def split: option.splits)

text \<open>The runtime of the node after an operation, up to its output.\<close>

definition node_is :: "name \<Rightarrow> (node_runtime \<Rightarrow> bool) \<Rightarrow> run_ctx \<Rightarrow> bool" where
  "node_is n P c \<longleftrightarrow> (\<exists>rt. Runtime c n = Some rt \<and> P rt)"

lemma cp_only:
  "Checkpoint rt' = Checkpoint rt \<Longrightarrow> map_rt_ok tot rt' = map_rt_ok tot rt"
  "Checkpoint rt' = Checkpoint rt \<Longrightarrow> item_of rt' = item_of rt"
  by (auto simp: map_rt_ok_def the_cp_def item_of_def fun_eq_iff)

lemma clear_output_cp [simp]: "Checkpoint (clear_output rt) = Checkpoint rt"
  by (simp add: clear_output_def)

lemma persist_if_rt:
  "\<exists>rt'. Runtime (snd (persist_if e n ch rt c)) n = Some rt' \<and> Checkpoint rt' = Checkpoint rt"
  "same_kids c (snd (persist_if e n ch rt c))"
  "db_err e = (\<lambda>_. None) \<Longrightarrow> fst (persist_if e n ch rt c) = None"
  by (auto simp: persist_if_def persist_frame persist_kids persist_ok set_runtime_def same_kids_def)

lemma initial_checkpoint_ok: "Checkpoint rt = Some (initial_checkpoint m tot) \<Longrightarrow> map_rt_ok tot rt \<and> item_of rt = (\<lambda>_. None)"
  by (simp add: map_rt_ok_def map_cp_ok_def the_cp_def initial_checkpoint_def sub_map_def cfg_def ToInt64_def
      item_of_def fun_eq_iff)

lemma no_checkpoint_items: "Checkpoint rt = None \<Longrightarrow> item_of rt = (\<lambda>_. None)"
  by (simp add: item_of_def the_cp_def sub_map_def fun_eq_iff)

lemma startCheckpoint_rt:
  assumes "Runtime c (nx_name x) = Some rt" and "Checkpoint rt = None \<or> map_rt_ok tot rt"
  shows "node_is (nx_name x) (\<lambda>rt'. map_rt_ok tot rt' \<and> item_of rt' = item_of rt) (snd (startCheckpoint e m x tot c))"
    and "same_kids c (snd (startCheckpoint e m x tot c))"
    and "db_err e = (\<lambda>_. None) \<Longrightarrow> fst (startCheckpoint e m x tot c) = None"
proof -
  let ?rt = "clear_output (rt\<lparr>Checkpoint := Some (initial_checkpoint m tot)\<rparr>)"
  obtain r c1 where r: "persist e (nx_name x) ?rt c = (r, c1)" by force
  have c1: "Runtime c1 (nx_name x) = Some ?rt" "same_kids c c1"
    using persist_frame(1) [of e "nx_name x" ?rt c] persist_kids [of c e "nx_name x" ?rt] r by simp_all
  have new: "map_rt_ok tot ?rt" "item_of ?rt = (\<lambda>_. None)"
    using initial_checkpoint_ok [of ?rt m tot] by (simp_all add: clear_output_def)
  have rest: "Checkpoint rt \<noteq> None \<Longrightarrow> map_rt_ok tot rt" using assms(2) by auto
  show "node_is (nx_name x) (\<lambda>rt'. map_rt_ok tot rt' \<and> item_of rt' = item_of rt) (snd (startCheckpoint e m x tot c))"
    using assms(1) c1 new r rest no_checkpoint_items [of rt]
    by (cases "Checkpoint rt"; cases r) (simp_all add: node_is_def startCheckpoint_def initCheckpoint_def emit_same)
  show "same_kids c (snd (startCheckpoint e m x tot c))"
    using assms(1) c1 r same_kids_trans [OF c1(2) emit_same(2)]
    by (cases "Checkpoint rt"; cases r) (simp_all add: startCheckpoint_def initCheckpoint_def)
  show "fst (startCheckpoint e m x tot c) = None" if "db_err e = (\<lambda>_. None)"
    using assms(1) r persist_ok [OF that, of "nx_name x" ?rt c]
    by (cases "Checkpoint rt") (simp_all add: startCheckpoint_def initCheckpoint_def)
qed

lemma ensureCheckpointConsistency_ok:
  "node_is (nx_name x) (map_rt_ok tot) c \<Longrightarrow> 0 < tot \<Longrightarrow> ensureCheckpointConsistency e x tot c = (None, c)"
  by (auto simp: node_is_def ensureCheckpointConsistency_def map_rt_ok_def map_cp_ok_def the_cp_def Let_def
      split: option.splits)

text \<open>Children carry the index of an item.\<close>

definition in_items :: "nat \<Rightarrow> task list \<Rightarrow> bool" where
  "in_items tot ts \<longleftrightarrow> (\<forall>t\<in>set ts. \<forall>i. getSubTaskIndex t = Some i \<longrightarrow> 0 \<le> i \<and> i < int tot)"

lemma in_items_append: "in_items tot (ts1 @ ts2) \<longleftrightarrow> in_items tot ts1 \<and> in_items tot ts2"
  by (auto simp: in_items_def)

lemma child_candidates_range:
  "in_items tot ts \<Longrightarrow> \<forall>(i, v)\<in>set (child_candidates e m items ts). 0 \<le> i \<and> i < int tot"
  by (auto simp: in_items_def child_candidates_def child_candidate_def set_map_filter split: option.splits)

lemma reuse_candidates_range:
  "\<forall>(i, v)\<in>set (reuse_candidates e x items). 0 \<le> i \<and> i < int (length items)"
  by (auto simp: reuse_candidates_def reuse_candidate_def set_map_filter indexed_def set_zip)

lemma processExistingChildren_rt:
  assumes rt: "Runtime c (nx_name x) = Some rt" "map_rt_ok tot rt"
    and ts: "in_items tot (ListByParentNode e (nx_name x) c)"
  defines "ts \<equiv> ListByParentNode e (nx_name x) c"
  shows "node_is (nx_name x) (\<lambda>rt'. map_rt_ok tot rt' \<and> item_of rt \<subseteq>\<^sub>m item_of rt') (snd (processExistingChildren e m x items c))"
    and "same_kids c (snd (processExistingChildren e m x items c))"
    and "fst (processExistingChildren e m x items c) = None \<Longrightarrow>
      node_is (nx_name x) (\<lambda>rt'. map_rt_ok tot rt' \<and> item_of rt' = item_of (items.fill (child_candidates e m items ts) rt))
        (snd (processExistingChildren e m x items c))"
    and "db_err e = (\<lambda>_. None) \<Longrightarrow> \<forall>t\<in>set ts. \<not> blocks m t \<Longrightarrow> fst (processExistingChildren e m x items c) = None"
proof -
  obtain cp where cp: "Checkpoint rt = Some cp" using rt(2) by (auto simp: map_rt_ok_def)
  obtain r rt1 ch where agg: "aggregate_children e m items ts (rt, False) = (r, rt1, ch)" by (metis prod_cases3)
  obtain ts1 ts2 where split: "ts = ts1 @ ts2" "rt1 = items.fill (child_candidates e m items ts1) rt"
    "r = None \<longrightarrow> ts2 = []" "r \<noteq> None \<longrightarrow> (\<exists>t\<in>set ts. blocks m t)"
    using aggregate_children_fill [OF agg] by (elim exE conjE) (rule that)
  have "in_items tot ts1" using ts split(1) in_items_append by (metis ts_def)
  note fill = items.fill_correct [OF rt(2) child_candidates_range [OF this, of e m items]]
  have ok: "map_rt_ok tot rt1" and le: "item_of rt \<subseteq>\<^sub>m item_of rt1"
    using fill split(2) by (auto simp: map_le_def dom_def)
  let ?P = "processExistingChildren e m x items c"
  have P: "?P = (if r = None then persist_if e (nx_name x) ch rt1 c else (r, set_runtime (nx_name x) rt1 c))"
    using rt(1) cp agg by (simp add: processExistingChildren_def ts_def split: option.splits)
  have at: "\<exists>rt'. Runtime (snd ?P) (nx_name x) = Some rt' \<and> Checkpoint rt' = Checkpoint rt1"
    using persist_if_rt(1) [of e "nx_name x" ch rt1 c] by (simp add: P set_runtime_def)
  then obtain rt' where rt': "Runtime (snd ?P) (nx_name x) = Some rt'" "Checkpoint rt' = Checkpoint rt1" by blast
  note same = cp_only [OF rt'(2)]
  show "node_is (nx_name x) (\<lambda>rt'. map_rt_ok tot rt' \<and> item_of rt \<subseteq>\<^sub>m item_of rt') (snd ?P)"
    using ok le same rt'(1) by (simp add: node_is_def)
  show "same_kids c (snd ?P)" using persist_if_rt(2) by (simp add: P same_kids_def set_runtime_def)
  show "node_is (nx_name x) (\<lambda>rt'. map_rt_ok tot rt' \<and> item_of rt' = item_of (items.fill (child_candidates e m items ts) rt)) (snd ?P)"
    if "fst ?P = None"
  proof -
    from that have "r = None" by (simp add: P split: if_splits)
    with split have "rt1 = items.fill (child_candidates e m items ts) rt" by simp
    with rt'(1) ok same show ?thesis by (simp add: node_is_def)
  qed
  show "fst ?P = None" if "db_err e = (\<lambda>_. None)" "\<forall>t\<in>set ts. \<not> blocks m t"
    using split(4) that persist_if_rt(3) [OF that(1)] by (auto simp: P)
qed

lemma fillReusableItems_rt:
  assumes rt: "Runtime c (nx_name x) = Some rt" "map_rt_ok (length items) rt"
  shows "node_is (nx_name x) (\<lambda>rt'. map_rt_ok (length items) rt' \<and> item_of rt' = item_of (items.fill (reuse_candidates e x items) rt))
      (snd (fillReusableItems e x items c))"
    and "same_kids c (snd (fillReusableItems e x items c))"
    and "db_err e = (\<lambda>_. None) \<Longrightarrow> fst (fillReusableItems e x items c) = None"
proof -
  have cp: "Checkpoint rt \<noteq> None" using rt(2) by (simp add: map_rt_ok_def)
  obtain ch where "reuse_items e x (indexed items) (rt, False) = (items.fill (reuse_candidates e x items) rt, ch)"
    using reuse_items_fill [of e x "indexed items" rt False] by (auto simp: reuse_candidates_def)
  with rt(1) cp have F: "fillReusableItems e x items c = persist_if e (nx_name x) ch (items.fill (reuse_candidates e x items) rt) c"
    by (auto simp: fillReusableItems_def)
  show "node_is (nx_name x) (\<lambda>rt'. map_rt_ok (length items) rt' \<and> item_of rt' = item_of (items.fill (reuse_candidates e x items) rt))
      (snd (fillReusableItems e x items c))"
  proof -
    let ?rt = "items.fill (reuse_candidates e x items) rt"
    obtain rt' where rt': "Runtime (snd (fillReusableItems e x items c)) (nx_name x) = Some rt'" "Checkpoint rt' = Checkpoint ?rt"
      using persist_if_rt(1) [of e "nx_name x" ch ?rt c] F by auto
    have "map_rt_ok (length items) ?rt" by (rule items.fill_ok [OF rt(2) reuse_candidates_range])
    with rt' show ?thesis unfolding node_is_def using cp_only [OF rt'(2)] by simp
  qed
  show "same_kids c (snd (fillReusableItems e x items c))" by (simp add: F persist_if_rt(2))
  show "db_err e = (\<lambda>_. None) \<Longrightarrow> fst (fillReusableItems e x items c) = None" by (simp add: F persist_if_rt(3))
qed
subsection \<open>Completion\<close>

lemma collect_results_all:
  "\<forall>i\<in>set is. map_of raw (FormatInt (int i)) \<noteq> None \<Longrightarrow>
     collect_results raw is = Inr (map (\<lambda>i. the (map_of raw (FormatInt (int i)))) is)"
  by (induction "is") auto

lemma all_done_iff:
  assumes "Runtime c (nx_name x) = Some rt" and "map_rt_ok tot rt"
  shows "all_done x c \<longleftrightarrow> (\<forall>i<tot. item_of rt (int i) \<noteq> None)"
proof -
  have "readDoneTotal (Checkpoint rt) = (ToInt64 (cfg (the_cp rt) ''done''), int tot)"
    using assms(2) by (auto simp: map_rt_ok_def map_cp_ok_def the_cp_def readDoneTotal_def)
  with assms(1) keys_fit(2) [OF assms(2)] show ?thesis by (simp add: all_done_def)
qed

lemma finalizeCompleted_result:
  assumes rt: "Runtime c (nx_name x) = Some rt" "map_rt_ok tot rt" and all: "\<forall>i<tot. item_of rt (int i) \<noteq> None"
  shows "fst (snd (finalizeCompleted e m x c)) = final_output e m (the_cp rt) tot (map (\<lambda>i. the (item_of rt (int i))) [0..<tot])"
    and "db_err e = (\<lambda>_. None) \<Longrightarrow> fst (finalizeCompleted e m x c) = StepOk"
    and "node_is (nx_name x) (\<lambda>rt'. Checkpoint rt' = Checkpoint rt) (snd (snd (finalizeCompleted e m x c)))"
    and "same_kids c (snd (snd (finalizeCompleted e m x c)))"
proof -
  obtain cp where cp: "Checkpoint rt = Some cp" "the_cp rt = cp" using rt(2) by (auto simp: map_rt_ok_def the_cp_def)
  have tot: "ToInt64 (cfg cp ''total'') = int tot" and raw: "map_of cp ''results'' = Some (VMap (sub_map cp ''results''))"
    using rt(2) cp by (auto simp: map_rt_ok_def map_cp_ok_def)
  let ?final = "map (\<lambda>i. the (item_of rt (int i))) [0..<tot]"
  have "collect_results (sub_map cp ''results'') [0..<tot] = Inr ?final"
    using collect_results_all [of "[0..<tot]" "sub_map cp ''results''"] all cp(2) by (simp add: item_of_def)
  then have final: "buildFinalResultsFromCheckpoint cp tot = Inr ?final"
    using raw by (simp add: buildFinalResultsFromCheckpoint_def)
  define out where "out = final_output e m cp tot ?final"
  define rt1 where "rt1 = (clearNodeReuseMetadata (rt\<lparr>Output := Some out, OutputHash := canonicalHash e '''' (Some out)\<rparr>))
      \<lparr>ReuseKind := (if hasAnyReusedMapItems cp then ReuseMapItems else ReuseNone)\<rparr>"
  obtain r c1 where r: "persist e (nx_name x) rt1 c = (r, c1)" by force
  let ?c2 = "EmitNodeEvent (nx_name x) ''progress'' 1 [] (map_emitFanoutProgress e x c1)"
  have F: "finalizeCompleted e m x c = (case r of Some msg \<Rightarrow> (StepErr msg, out, c1) | None \<Rightarrow> (StepOk, out, ?c2))"
    using rt(1) cp(1) tot final r
    by (simp add: finalizeCompleted_def Let_def out_def rt1_def split: option.split)
  show "fst (snd (finalizeCompleted e m x c)) = final_output e m (the_cp rt) tot ?final"
    by (simp add: F out_def cp(2) split: option.split)
  show "db_err e = (\<lambda>_. None) \<Longrightarrow> fst (finalizeCompleted e m x c) = StepOk"
    using persist_ok [of e "nx_name x" rt1 c] r by (simp add: F)
  have c1: "Runtime c1 (nx_name x) = Some rt1" "same_kids c c1"
    using persist_frame(1) [of e "nx_name x" rt1 c] persist_kids [of c e "nx_name x" rt1] r by simp_all
  have rt1: "Checkpoint rt1 = Checkpoint rt" by (simp add: rt1_def clearNodeReuseMetadata_def)
  then show "node_is (nx_name x) (\<lambda>rt'. Checkpoint rt' = Checkpoint rt) (snd (snd (finalizeCompleted e m x c)))"
    using c1(1) by (simp add: F node_is_def EmitNodeEvent_def emit_same publish_def set_runtime_def Let_def split: option.split)
  have "same_kids c ?c2" using c1(2) emit_same(2,4) same_kids_trans by meson
  with c1(2) show "same_kids c (snd (snd (finalizeCompleted e m x c)))" by (simp add: F split: option.split)
qed

lemma dispatch_items_only: "child_only c (snd (dispatch_items e m x cp its active occ c))"
proof (induction e m x cp its active occ c rule: dispatch_items.induct)
  case (1 e m x cp active occ c)
  show ?case by simp
next
  case (2 e m x cp i item rest active occ c)
  let ?inp = "buildMapSubWorkflowInput x (ms_iterator m) item (int i) (item_hash e item)"
  obtain r c1 where r: "RunSubWorkflow e (nx_NodeDef x) (ms_workflow m) ?inp c = (r, c1)" by force
  with RunSubWorkflow_only [of c e "nx_NodeDef x" "ms_workflow m" ?inp] have c1: "child_only c c1" by simp
  show ?case
    using 2 r c1 child_only_trans [OF c1] by (cases r) auto
qed

lemma dispatchPendingChildren_only: "child_only c (snd (dispatchPendingChildren e m x items c))"
  using dispatch_items_only by (auto simp: dispatchPendingChildren_def split: option.split prod.split)

text \<open>What a run does once the results are gathered.\<close>

definition after_gather :: "env \<Rightarrow> map_step \<Rightarrow> node_exec \<Rightarrow> gval list \<Rightarrow> run_ctx \<Rightarrow> step_result \<times> gmap \<times> run_ctx" where
  "after_gather e m x items c5 =
     (if all_done x c5 then finalizeCompleted e m x c5
            else and_then (dispatchPendingChildren e m x items c5) (\<lambda>c6.
              (let c7 = map_emitFanoutProgress e x c6
               in if all_done x c7 then finalizeCompleted e m x c7 else (StepSuspend SuspendSubWorkflow, [], c7))))"

text \<open>The part of a run before the dispatch, when no write fails and no child blocks.\<close>

lemma gather:
  assumes db: "db_err e = (\<lambda>_. None)" and items: "resolveItems e c (ms_itemsExpr m) = Inr items" "items \<noteq> []"
    and rt: "Runtime c (nx_name x) = Some rt" "Checkpoint rt = None \<or> map_rt_ok (length items) rt"
    and range: "in_items (length items) (ListByParentNode e (nx_name x) c)"
    and free: "\<forall>t\<in>set (ListByParentNode e (nx_name x) c). \<not> blocks m t"
  obtains c5 rt5 where "MapNodeStep_Run e m x c = after_gather e m x items c5"
    and "Runtime c5 (nx_name x) = Some rt5" and "map_rt_ok (length items) rt5"
    and "\<forall>i. item_of rt5 (int i) = item_results e m x items c i" and "same_kids c c5"
proof -
  let ?n = "nx_name x" and ?tot = "length items"
  define ts where "ts = ListByParentNode e ?n c"
  define c0 where "c0 = EmitNodeEvent ?n ''started'' 0 [] c"
  have c0: "Runtime c0 ?n = Some rt" "same_kids c c0" "resolveItems e c0 (ms_itemsExpr m) = Inr items"
    using rt(1) items(1) by (simp_all add: c0_def emit_same resolveItems_started)
  define c1 where "c1 = snd (startCheckpoint e m x ?tot c0)"
  note start = startCheckpoint_rt [OF c0(1) rt(2), of e m]
  from start(1) obtain rt1 where rt1: "Runtime c1 ?n = Some rt1" "map_rt_ok ?tot rt1" "item_of rt1 = item_of rt"
    by (auto simp: node_is_def c1_def)
  have s1: "startCheckpoint e m x ?tot c0 = (None, c1)" using start(3) [OF db] by (simp add: c1_def prod_eq_iff)
  have k1: "same_kids c c1" using c0(2) start(2) same_kids_trans by (auto simp: c1_def)
  have s2: "ensureCheckpointConsistency e x ?tot c1 = (None, c1)"
    using rt1 items(2) by (intro ensureCheckpointConsistency_ok) (auto simp: node_is_def)
  have ts1: "ListByParentNode e ?n c1 = ts" using same_kids_list [OF k1] by (simp add: ts_def)
  define c3 where "c3 = snd (processExistingChildren e m x items c1)"
  note proc = processExistingChildren_rt [OF rt1(1,2), of e m items, unfolded ts1, OF range [folded ts_def]]
  have s3: "processExistingChildren e m x items c1 = (None, c3)"
    using proc(4) [OF db] free by (simp add: c3_def ts_def prod_eq_iff)
  have "fst (processExistingChildren e m x items c1) = None" using s3 by simp
  note at3 = proc(3) [OF this, folded c3_def]
  obtain rt3 where rt3: "Runtime c3 ?n = Some rt3" "map_rt_ok ?tot rt3"
    "item_of rt3 = item_of (items.fill (child_candidates e m items ts) rt1)"
    using at3 unfolding node_is_def by (elim exE conjE) (rule that)
  define c3' where "c3' = map_emitFanoutProgress e x c3"
  have c3': "Runtime c3' ?n = Some rt3" "same_kids c c3'"
    using rt3(1) same_kids_trans [OF same_kids_trans [OF k1 proc(2)] emit_same(2)]
    by (simp_all add: c3'_def c3_def emit_same(1))
  define c4 where "c4 = snd (fillReusableItems e x items c3')"
  note fill = fillReusableItems_rt [OF c3'(1) rt3(2), of e]
  have s4: "fillReusableItems e x items c3' = (None, c4)" using fill(3) [OF db] by (simp add: c4_def prod_eq_iff)
  obtain rt4 where rt4: "Runtime c4 ?n = Some rt4" "map_rt_ok ?tot rt4"
    "item_of rt4 = item_of (items.fill (reuse_candidates e x items) rt3)"
    using fill(1) [folded c4_def] unfolding node_is_def by (elim exE conjE) (rule that)
  define c5 where "c5 = map_emitFanoutProgress e x c4"
  have c5: "Runtime c5 ?n = Some rt4" "same_kids c c5"
    using rt4(1) same_kids_trans [OF same_kids_trans [OF c3'(2) fill(2)] emit_same(2)]
    by (simp_all add: c5_def c4_def emit_same(1))
  have "item_of rt4 (int i) = item_results e m x items c i" for i
    using items.fill_get [OF rt3(2) reuse_candidates_range, of e x "int i"] rt4(3) rt3(3) rt1(3) rt(1)
      items.fill_get [OF rt1(2) child_candidates_range [OF range [folded ts_def]], of e m items "int i"]
    by (auto simp: item_results_def ts_def map_add_def split: option.splits)
  moreover have "MapNodeStep_Run e m x c = after_gather e m x items c5"
    using c0 items(2) s1 s2 s3 s4
    by (simp add: MapNodeStep_Run_def c0_def [symmetric] c3'_def [symmetric] c5_def [symmetric] Let_def and_then_def after_gather_def)
  ultimately show thesis using that [OF _ c5(1) rt4(2) _ c5(2)] by simp
qed
subsection \<open>Children in flight\<close>

definition active_children :: "name \<Rightarrow> run_ctx \<Rightarrow> string set" where
  "active_children n c = {k. \<exists>t. subTasks c k = Some t \<and> ParentID t = Some (task_id (Task c))
     \<and> ParentNode t = Some n \<and> activeStatus (Status t)}"

text \<open>The database lists each child row once.\<close>

definition lists_rows :: "env \<Rightarrow> run_ctx \<Rightarrow> bool" where
  "lists_rows e c \<longleftrightarrow> distinct (range_sub e (subTasks c)) \<and> set (range_sub e (subTasks c)) = dom (subTasks c)"

lemma same_kids_active: "same_kids c c' \<Longrightarrow> active_children n c' = active_children n c"
  by (simp add: same_kids_def active_children_def)

lemma one_child_active:
  "one_child k c c' \<Longrightarrow> Task c' = Task c \<Longrightarrow> active_children n c' \<subseteq> insert k (active_children n c)"
  by (auto simp: one_child_def active_children_def)

lemma length_filter_map_filter:
  assumes "distinct ks"
  shows "length (filter P (List.map_filter f ks)) = card {k \<in> set ks. \<exists>t. f k = Some t \<and> P t}"
  using assms
proof (induction ks)
  case Nil
  show ?case by (simp add: List.map_filter_def)
next
  case (Cons k ks)
  have "{k' \<in> set (k # ks). \<exists>t. f k' = Some t \<and> P t} =
      (if \<exists>t. f k = Some t \<and> P t then insert k else id) {k' \<in> set ks. \<exists>t. f k' = Some t \<and> P t}" by auto
  with Cons show ?case by (cases "f k") (auto simp: List.map_filter_simps)
qed

lemma count_active:
  assumes "lists_rows e c" and "\<forall>t\<in>set (ListByParentNode e (nx_name x) c). getSubTaskIndex t \<noteq> None"
  shows "fst (collectOccupiedChildIndexes e x c) = int (card (active_children (nx_name x) c))"
    and "finite (active_children (nx_name x) c)"
proof -
  let ?mine = "\<lambda>t. ParentID t = Some (task_id (Task c)) \<and> ParentNode t = Some (nx_name x)"
  let ?rows = "List.map_filter (subTasks c) (range_sub e (subTasks c))"
  have all: "filter (\<lambda>t. getSubTaskIndex t \<noteq> None) (ListByParentNode e (nx_name x) c) = ListByParentNode e (nx_name x) c"
    using assms(2) by (simp add: filter_id_conv)
  have "length (filter (\<lambda>t. activeStatus (Status t)) (ListByParentNode e (nx_name x) c))
      = length (filter (\<lambda>t. activeStatus (Status t) \<and> ?mine t) ?rows)"
    by (simp add: ListByParentNode_def filter_sort conj_commute)
  also have "\<dots> = card {k \<in> set (range_sub e (subTasks c)). \<exists>t. subTasks c k = Some t \<and> activeStatus (Status t) \<and> ?mine t}"
    using assms(1) by (intro length_filter_map_filter) (simp add: lists_rows_def)
  also have "{k \<in> set (range_sub e (subTasks c)). \<exists>t. subTasks c k = Some t \<and> activeStatus (Status t) \<and> ?mine t}
      = active_children (nx_name x) c"
    using assms(1) by (auto simp: lists_rows_def active_children_def)
  finally show "fst (collectOccupiedChildIndexes e x c) = int (card (active_children (nx_name x) c))"
    unfolding collectOccupiedChildIndexes_def Let_def all by simp
  have "active_children (nx_name x) c \<subseteq> set (range_sub e (subTasks c))"
    using assms(1) by (auto simp: lists_rows_def active_children_def)
  then show "finite (active_children (nx_name x) c)" by (rule finite_subset) simp
qed

lemma dispatch_items_bound:
  assumes "finite (active_children (nx_name x) c)" and "int (card (active_children (nx_name x) c)) \<le> active"
  shows "int (card (active_children (nx_name x) (snd (dispatch_items e m x cp its active occ c)))) \<le> max active (ms_parallel m)"
  using assms
proof (induction its arbitrary: active occ c)
  case Nil
  then show ?case by simp
next
  case (Cons p its)
  obtain i item where p: "p = (i, item)" by force
  let ?A = "active_children (nx_name x)"
  show ?case
  proof (cases "ms_parallel m \<le> active \<or> hasCheckpointResult cp (int i) \<or> int i \<in> occ")
    case True
    with Cons.IH [OF Cons.prems, of occ] Cons.prems(2) p show ?thesis by auto
  next
    case False
    let ?inp = "buildMapSubWorkflowInput x (ms_iterator m) item (int i) (item_hash e item)"
    obtain r c1 where r: "RunSubWorkflow e (nx_NodeDef x) (ms_workflow m) ?inp c = (r, c1)" by force
    have "child_only c c1" using RunSubWorkflow_only [of c e "nx_NodeDef x" "ms_workflow m" ?inp] r by simp
    then have "Task c1 = Task c" by (simp add: child_only_def)
    moreover obtain k where "one_child k c c1"
      using RunSubWorkflow_one [of e c "nx_NodeDef x" "ms_workflow m" ?inp] r by auto
    ultimately have sub: "?A c1 \<subseteq> insert k (?A c)" by (intro one_child_active)
    have fin: "finite (?A c1)" using sub Cons.prems(1) by (simp add: finite_subset)
    have "card (?A c1) \<le> card (insert k (?A c))" using sub Cons.prems(1) by (intro card_mono) auto
    also have "\<dots> \<le> Suc (card (?A c))" using Cons.prems(1) by (simp add: card_insert_if)
    finally have le: "int (card (?A c1)) \<le> active + 1" using Cons.prems(2) by simp
    from Cons.IH [OF fin le, of "insert (int i) occ"] False r le show ?thesis
      by (cases r) (simp_all add: p)
  qed
qed

lemma dispatchPendingChildren_bound:
  assumes "lists_rows e c" and "\<forall>t\<in>set (ListByParentNode e (nx_name x) c). getSubTaskIndex t \<noteq> None"
  shows "int (card (active_children (nx_name x) (snd (dispatchPendingChildren e m x items c))))
    \<le> max (int (card (active_children (nx_name x) c))) (ms_parallel m)"
proof -
  obtain a occ where col: "collectOccupiedChildIndexes e x c = (a, occ)" by force
  have a: "a = int (card (active_children (nx_name x) c))" and fin: "finite (active_children (nx_name x) c)"
    using count_active [OF assms] col by simp_all
  have "int (card (active_children (nx_name x) (snd (dispatch_items e m x cp its a occ c)))) \<le> max a (ms_parallel m)" for cp its
    by (rule dispatch_items_bound [OF fin]) (simp add: a)
  then show ?thesis by (simp add: dispatchPendingChildren_def col a split: option.split)
qed

text \<open>Every stage but the dispatch leaves the child rows alone, whether it succeeds or not.\<close>

lemma stage_kids:
  "same_kids c (snd (startCheckpoint e m x tot c))"
  "same_kids c (snd (ensureCheckpointConsistency e x tot c))"
  "same_kids c (snd (processExistingChildren e m x items c))"
  "same_kids c (snd (fillReusableItems e x items c))"
proof -
  have same: "persist e n rt c = (r, c') \<Longrightarrow> same_kids c c'" for n rt r c'
    using persist_kids [of c e n rt] by simp
  show "same_kids c (snd (startCheckpoint e m x tot c))"
    using same by (auto simp: startCheckpoint_def initCheckpoint_def split: option.splits prod.splits)
  show "same_kids c (snd (ensureCheckpointConsistency e x tot c))"
    using persist_kids by (auto simp: ensureCheckpointConsistency_def Let_def split: option.splits)
  have set_kids: "same_kids c (set_runtime n rt c)" for n rt by (simp add: same_kids_def set_runtime_def)
  show "same_kids c (snd (processExistingChildren e m x items c))"
    using persist_if_rt(2) set_kids by (auto simp: processExistingChildren_def Let_def split: option.splits prod.splits)
  show "same_kids c (snd (fillReusableItems e x items c))"
    using persist_if_rt(2) by (auto simp: fillReusableItems_def split: option.splits prod.splits)
qed

lemma final_kids:
  "same_kids c (snd (snd (completeEmpty e x c)))" "same_kids c (snd (snd (finalizeCompleted e m x c)))"
proof -
  have same: "persist e n rt c = (r, c') \<Longrightarrow> same_kids c c'" for n rt r c'
    using persist_kids [of c e n rt] by simp
  then show "same_kids c (snd (snd (completeEmpty e x c)))"
    by (auto simp: completeEmpty_def Let_def split: option.splits prod.splits)
  from same show "same_kids c (snd (snd (finalizeCompleted e m x c)))"
    by (simp add: finalizeCompleted_def Let_def split: option.split sum.split prod.split)
qed

lemma and_then_cases:
  assumes "\<And>msg c'. r = (Some msg, c') \<Longrightarrow> P (StepErr msg, [], c')" and "\<And>c'. r = (None, c') \<Longrightarrow> P (f c')"
  shows "P (and_then r f)"
  using assms by (cases r) (auto simp: and_then_def split: option.split)

text \<open>
  A well-formed checkpoint stays one and loses no result, and the child rows stay what they are.
\<close>

definition kept :: "env \<Rightarrow> node_exec \<Rightarrow> nat \<Rightarrow> run_ctx \<Rightarrow> run_ctx \<Rightarrow> bool" where
  "kept e x tot c c' \<longleftrightarrow> same_kids c c' \<and> (\<forall>rt. Runtime c (nx_name x) = Some rt \<longrightarrow>
      (Checkpoint rt = None \<or> map_rt_ok tot rt) \<longrightarrow> in_items tot (ListByParentNode e (nx_name x) c) \<longrightarrow>
      node_is (nx_name x) (\<lambda>rt'. map_rt_ok tot rt' \<and> item_of rt \<subseteq>\<^sub>m item_of rt') c')"

lemma keptD:
  assumes "kept e x tot c c'" and "Runtime c (nx_name x) = Some rt" and "Checkpoint rt = None \<or> map_rt_ok tot rt"
    and "in_items tot (ListByParentNode e (nx_name x) c)"
  obtains rt' where "Runtime c' (nx_name x) = Some rt'" "map_rt_ok tot rt'" "item_of rt \<subseteq>\<^sub>m item_of rt'"
  using assms unfolding kept_def node_is_def by blast

lemma kept_kids: "kept e x tot c c' \<Longrightarrow> same_kids c c'"
  by (simp add: kept_def)

lemma kept_start:
  assumes "startCheckpoint e m x tot (EmitNodeEvent (nx_name x) ''started'' 0 [] c) = (r, c1)"
  shows "kept e x tot c c1"
  unfolding kept_def
proof (intro conjI allI impI)
  let ?c0 = "EmitNodeEvent (nx_name x) ''started'' 0 [] c"
  have "same_kids ?c0 c1" using stage_kids(1) [of ?c0 e m x tot] assms by simp
  then show "same_kids c c1" using same_kids_trans [OF emit_same(4)] by blast
  fix rt
  assume "Runtime c (nx_name x) = Some rt" "Checkpoint rt = None \<or> map_rt_ok tot rt"
  then show "node_is (nx_name x) (\<lambda>rt'. map_rt_ok tot rt' \<and> item_of rt \<subseteq>\<^sub>m item_of rt') c1"
    using startCheckpoint_rt(1) [of ?c0 x rt tot e m] assms by (auto simp: node_is_def emit_same)
qed

lemma kept_step:
  assumes kept: "kept e x tot c c'" and kids: "same_kids c' c''"
    and step: "\<And>rt. Runtime c' (nx_name x) = Some rt \<Longrightarrow> map_rt_ok tot rt \<Longrightarrow> in_items tot (ListByParentNode e (nx_name x) c') \<Longrightarrow>
      node_is (nx_name x) (\<lambda>rt'. map_rt_ok tot rt' \<and> item_of rt \<subseteq>\<^sub>m item_of rt') c''"
  shows "kept e x tot c c''"
  unfolding kept_def
proof (intro conjI allI impI)
  have k1: "same_kids c c'" using kept by (simp add: kept_def)
  then show "same_kids c c''" using kids by (rule same_kids_trans)
  fix rt
  assume a: "Runtime c (nx_name x) = Some rt" "Checkpoint rt = None \<or> map_rt_ok tot rt"
    "in_items tot (ListByParentNode e (nx_name x) c)"
  with kept obtain rt' where rt': "Runtime c' (nx_name x) = Some rt'" "map_rt_ok tot rt'" "item_of rt \<subseteq>\<^sub>m item_of rt'"
    by (auto simp: kept_def node_is_def)
  have "in_items tot (ListByParentNode e (nx_name x) c')" using a(3) same_kids_list [OF k1] by simp
  from step [OF rt'(1,2) this] obtain rt2 where "Runtime c'' (nx_name x) = Some rt2" "map_rt_ok tot rt2" "item_of rt' \<subseteq>\<^sub>m item_of rt2"
    by (auto simp: node_is_def)
  with map_le_trans [OF rt'(3)] show "node_is (nx_name x) (\<lambda>rt'. map_rt_ok tot rt' \<and> item_of rt \<subseteq>\<^sub>m item_of rt') c''"
    by (simp add: node_is_def)
qed

lemma kept_emit: "kept e x tot c c' \<Longrightarrow> kept e x tot c (map_emitFanoutProgress e x c')"
  by (erule kept_step) (simp_all add: emit_same node_is_def)

lemma kept_ensure:
  assumes "kept e x tot c c1" and "0 < tot" and "ensureCheckpointConsistency e x tot c1 = (r, c')"
  shows "kept e x tot c c'"
proof (rule kept_step [OF assms(1)])
  show "same_kids c1 c'" using stage_kids(2) [of c1 e x tot] assms(3) by simp
  fix rt
  assume "Runtime c1 (nx_name x) = Some rt" "map_rt_ok tot rt"
  with ensureCheckpointConsistency_ok [of x tot c1 e] assms(2,3)
  show "node_is (nx_name x) (\<lambda>rt'. map_rt_ok tot rt' \<and> item_of rt \<subseteq>\<^sub>m item_of rt') c'" by (simp add: node_is_def)
qed

lemma kept_process:
  assumes "kept e x tot c c1" and "processExistingChildren e m x items c1 = (r, c')"
  shows "kept e x tot c c'"
proof (rule kept_step [OF assms(1)])
  show "same_kids c1 c'" using stage_kids(3) [of c1 e m x items] assms(2) by simp
  fix rt
  assume "Runtime c1 (nx_name x) = Some rt" "map_rt_ok tot rt" "in_items tot (ListByParentNode e (nx_name x) c1)"
  from processExistingChildren_rt(1) [OF this, of m items] assms(2)
  show "node_is (nx_name x) (\<lambda>rt'. map_rt_ok tot rt' \<and> item_of rt \<subseteq>\<^sub>m item_of rt') c'" by simp
qed

lemma kept_fill:
  assumes "kept e x (length items) c c1" and "fillReusableItems e x items c1 = (r, c')"
  shows "kept e x (length items) c c'"
proof (rule kept_step [OF assms(1)])
  show "same_kids c1 c'" using stage_kids(4) [of c1 e x items] assms(2) by simp
  fix rt
  assume rt: "Runtime c1 (nx_name x) = Some rt" "map_rt_ok (length items) rt"
  have "item_of rt \<subseteq>\<^sub>m item_of (items.fill (reuse_candidates e x items) rt)"
    using items.fill_get [OF rt(2) reuse_candidates_range, of e x] by (simp add: map_le_def dom_def split: option.split)
  with fillReusableItems_rt(1) [OF rt, of e] assms(2)
  show "node_is (nx_name x) (\<lambda>rt'. map_rt_ok (length items) rt' \<and> item_of rt \<subseteq>\<^sub>m item_of rt') c'" by (auto simp: node_is_def)
qed

lemma Run_split:
  assumes items: "resolveItems e c (ms_itemsExpr m) = Inr items" "items \<noteq> []" and rt: "Runtime c (nx_name x) \<noteq> None"
  shows "(\<exists>msg c'. MapNodeStep_Run e m x c = (StepErr msg, [], c') \<and> kept e x (length items) c c')
    \<or> (\<exists>c5. MapNodeStep_Run e m x c = after_gather e m x items c5 \<and> kept e x (length items) c c5)"
proof -
  let ?K = "kept e x (length items) c" and ?c0 = "EmitNodeEvent (nx_name x) ''started'' 0 [] c"
  define R where "R res \<longleftrightarrow> (\<exists>msg c'. res = (StepErr msg, [], c') \<and> ?K c') \<or> (\<exists>c5. res = after_gather e m x items c5 \<and> ?K c5)" for res
  have step: "R (and_then s f)" if "\<And>r c'. s = (r, c') \<Longrightarrow> ?K c'" "\<And>c'. ?K c' \<Longrightarrow> R (f c')" for s f
  proof (rule and_then_cases)
    fix msg c'
    assume "s = (Some msg, c')"
    from that(1) [OF this] show "R (StepErr msg, [], c')" unfolding R_def by blast
  next
    fix c'
    assume "s = (None, c')"
    from that(2) [OF that(1) [OF this]] show "R (f c')" .
  qed
  have r5: "R (after_gather e m x items (map_emitFanoutProgress e x c4))" if "?K c4" for c4
    using kept_emit [OF that] unfolding R_def by blast
  have r4: "R (and_then (fillReusableItems e x items (map_emitFanoutProgress e x c3))
      (\<lambda>c4. after_gather e m x items (map_emitFanoutProgress e x c4)))" if "?K c3" for c3
    by (rule step [OF kept_fill [OF kept_emit [OF that]] r5])
  have r3: "R (and_then (processExistingChildren e m x items c2) (\<lambda>c3. and_then (fillReusableItems e x items (map_emitFanoutProgress e x c3))
      (\<lambda>c4. after_gather e m x items (map_emitFanoutProgress e x c4))))" if "?K c2" for c2
    by (rule step [OF kept_process [OF that] r4])
  have r2: "R (and_then (ensureCheckpointConsistency e x (length items) c1) (\<lambda>c2. and_then (processExistingChildren e m x items c2)
      (\<lambda>c3. and_then (fillReusableItems e x items (map_emitFanoutProgress e x c3))
      (\<lambda>c4. after_gather e m x items (map_emitFanoutProgress e x c4)))))" if "?K c1" for c1
    by (rule step [OF kept_ensure [OF that] r3]) (use items(2) in auto)
  from rt obtain rt0 where "Runtime c (nx_name x) = Some rt0" by auto
  then have "MapNodeStep_Run e m x c = and_then (startCheckpoint e m x (length items) ?c0)
      (\<lambda>c1. and_then (ensureCheckpointConsistency e x (length items) c1) (\<lambda>c2. and_then (processExistingChildren e m x items c2)
      (\<lambda>c3. and_then (fillReusableItems e x items (map_emitFanoutProgress e x c3))
      (\<lambda>c4. after_gather e m x items (map_emitFanoutProgress e x c4)))))"
    using items by (simp add: MapNodeStep_Run_def after_gather_def Let_def emit_same resolveItems_started)
  moreover have "R \<dots>" by (rule step [OF kept_start r2])
  ultimately show ?thesis unfolding R_def by simp
qed
subsection \<open>A sample map node\<close>

definition fan_env :: env where
  "fan_env = (sample_env True)
     \<lparr>md5_json := (\<lambda>m. case map_of m ''index'' of Some (VInt i) \<Rightarrow> FormatInt i | _ \<Rightarrow> []),
      range_sub := (\<lambda>m. filter (\<lambda>k. m k \<noteq> None) [''7-a-w-0'', ''7-a-w-1''])\<rparr>"

definition fan_step :: map_step where
  "fan_step = NewMapStep ''input.xs'' ''x'' ''w'' 1"

definition fan_exec :: node_exec where
  "fan_exec = \<lparr>nx_NodeDef = (sample_cnode ''a'')\<lparr>n_Type := ''map''\<rparr>, nx_Input = [], nx_ParentSnapshot = None,
     nx_MapItemReuse = Map.empty\<rparr>"

definition fan_child :: "int \<Rightarrow> task" where
  "fan_child i = sample_task\<lparr>task_id := 100 + i, ParentID := Some 7, ParentNode := Some ''a'', MapIndex := Some i,
     Status := TaskSuccess, OutputJSON := Some [(''final'', VMap [(''y'', VInt i)])]\<rparr>"

definition fan_ctx :: "(string \<rightharpoonup> task) \<Rightarrow> run_ctx" where
  "fan_ctx kids = sample_ctx\<lparr>Input := [(''xs'', VList [VInt 10, VInt 20])],
     Runtime := [''a'' \<mapsto> sample_rt ''a'' NodeRunning], subTasks := kids\<rparr>"

lemmas fan_defs = fan_env_def fan_step_def fan_exec_def fan_child_def fan_ctx_def NewMapStep_def sample_env_def
  sample_ctx_def sample_task_def sample_cnode_def sample_rt_def

lemma fan_items: "resolveItems fan_env (fan_ctx kids) (ms_itemsExpr fan_step) = Inr [VInt 10, VInt 20]"
  by (simp add: fan_defs resolveItems_def resolveValue_def splitFallbackCandidates_def resolveSingleValue_def
      lookupObjectKey_def ToAnySlice_def TrimSpace_def trim_by_def is_space_def)

lemma fan_children:
  "ListByParentNode fan_env ''a'' (fan_ctx [''7-a-w-0'' \<mapsto> fan_child 0, ''7-a-w-1'' \<mapsto> fan_child 1]) = [fan_child 0, fan_child 1]"
  "ListByParentNode fan_env ''a'' (fan_ctx Map.empty) = []"
  by (simp_all add: fan_defs ListByParentNode_def List.map_filter_simps)

subsection \<open>Properties\<close>

text \<open>
  C19. A map node completes exactly when every item has a result, and then (with a policy other than
  \<open>partial\<close>, which adds fields) puts out the results in the order of the items. No write fails, no child
  blocks the node, and the indexes of the children lie in the range of the items. The result of an item is the one already in the checkpoint, else the
  final output of the first finished child row of the item (or, with the policy \<open>partial\<close>, the
  fallback for a failed child), else the result of the parent run for the unchanged item.
\<close>

theorem map_step_exact:
  assumes "db_err e = (\<lambda>_. None)" and "resolveItems e c (ms_itemsExpr m) = Inr items" and "items \<noteq> []"
    and "Runtime c (nx_name x) = Some rt" and "Checkpoint rt = None \<or> map_rt_ok (length items) rt"
    and "in_items (length items) (ListByParentNode e (nx_name x) c)"
    and "\<forall>t\<in>set (ListByParentNode e (nx_name x) c). \<not> blocks m t"
  shows "(fst (MapNodeStep_Run e m x c) = StepOk \<longleftrightarrow> (\<forall>i<length items. item_results e m x items c i \<noteq> None))
    \<and> (fst (MapNodeStep_Run e m x c) = StepOk \<and> ms_failurePolicy m \<noteq> ''partial'' \<longrightarrow>
        fst (snd (MapNodeStep_Run e m x c)) =
          [(''results'', VList (map (\<lambda>i. the (item_results e m x items c i)) [0..<length items]))])"
proof -
  let ?n = "nx_name x" and ?run = "MapNodeStep_Run e m x c"
  obtain c5 rt5 where run: "?run = after_gather e m x items c5"
    and rt5: "Runtime c5 ?n = Some rt5" "map_rt_ok (length items) rt5"
    and "\<forall>i. item_of rt5 (int i) = item_results e m x items c i" and "same_kids c c5"
    by (rule gather [OF assms])
  then have res: "item_of rt5 (int i) = item_results e m x items c i" for i by simp
  note run = run [unfolded after_gather_def]
  note done5 = all_done_iff [OF rt5, unfolded res]
  show ?thesis
  proof (cases "all_done x c5")
    case True
    with done5 have all: "\<forall>i<length items. item_of rt5 (int i) \<noteq> None" by (simp add: res)
    with True run finalizeCompleted_result(1,2) [OF rt5 all, of e m] assms(1) done5 show ?thesis
      by (simp add: res final_output_def)
  next
    case False
    obtain r c6 where d: "dispatchPendingChildren e m x items c5 = (r, c6)" by force
    with dispatchPendingChildren_only [of c5 e m x items] rt5(1)
    have "Runtime (map_emitFanoutProgress e x c6) ?n = Some rt5" by (simp add: child_only_def emit_same)
    from all_done_iff [OF this rt5(2)] False done5 have "\<not> all_done x (map_emitFanoutProgress e x c6)" by (simp add: res)
    with False run d done5 show ?thesis by (auto simp: and_then_def Let_def split: option.splits)
  qed
qed

theorem map_step_exact_witness:
  "fst (MapNodeStep_Run fan_env fan_step fan_exec (fan_ctx [''7-a-w-0'' \<mapsto> fan_child 0, ''7-a-w-1'' \<mapsto> fan_child 1])) = StepOk
   \<and> fst (MapNodeStep_Run fan_env fan_step fan_exec (fan_ctx Map.empty)) \<noteq> StepOk"
proof -
  let ?kids = "[''7-a-w-0'' \<mapsto> fan_child 0, ''7-a-w-1'' \<mapsto> fan_child 1]"
  have n: "nx_name fan_exec = ''a''" by (simp add: fan_defs)
  have rt: "Runtime (fan_ctx kids) ''a'' = Some (sample_rt ''a'' NodeRunning)" for kids by (simp add: fan_ctx_def)
  have base: "db_err fan_env = (\<lambda>_. None)" "Checkpoint (sample_rt ''a'' NodeRunning) = None" by (simp_all add: fan_defs)
  have free: "\<not> blocks fan_step (fan_child i)" for i by (simp add: blocks_def fan_defs)
  have range: "in_items 2 [fan_child 0, fan_child 1]" by (simp add: in_items_def getSubTaskIndex_def fan_defs)
  have "item_results fan_env fan_step fan_exec [VInt 10, VInt 20] (fan_ctx ?kids) i \<noteq> None" if "i < 2" for i
    using that fan_children(1)
    by (auto simp: item_results_def n rt no_checkpoint_items base child_candidates_def child_candidate_def child_entry_def
        List.map_filter_simps getSubTaskIndex_def ParseFinal_def fan_child_def sample_task_def less_2_cases_iff)
  moreover have "item_results fan_env fan_step fan_exec [VInt 10, VInt 20] (fan_ctx Map.empty) 0 = None"
  proof -
    have "tryReuseMapItem fan_exec i h = None" for i h by (simp add: tryReuseMapItem_def fan_exec_def)
    then have "reuse_candidates fan_env fan_exec xs = []" for xs
      by (simp add: reuse_candidates_def reuse_candidate_def List.map_filter_def split: prod.split)
    then show ?thesis
      by (simp add: item_results_def n rt no_checkpoint_items base fan_children(2) child_candidates_def List.map_filter_def)
  qed
  ultimately show ?thesis
    using map_step_exact [OF base(1) fan_items, of ?kids fan_exec "sample_rt ''a'' NodeRunning"]
      map_step_exact [OF base(1) fan_items, of Map.empty fan_exec "sample_rt ''a'' NodeRunning"]
      free range by (auto simp: n rt base fan_children in_items_def numeral_2_eq_2)
qed

text \<open>
  C20. Whatever the outcome of a run of a map node and whichever writes fail, the checkpoint stays
  well-formed: it counts exactly the results it holds, each stored under the index of an item, and no
  result that was in it is lost or replaced. A run that reports success has a result for every item.
\<close>

theorem map_checkpoint_invariant:
  assumes "resolveItems e c (ms_itemsExpr m) = Inr items" and "items \<noteq> []"
    and "Runtime c (nx_name x) = Some rt" and "Checkpoint rt = None \<or> map_rt_ok (length items) rt"
    and "in_items (length items) (ListByParentNode e (nx_name x) c)"
  shows "case MapNodeStep_Run e m x c of (r, out, c') \<Rightarrow> \<exists>rt'. Runtime c' (nx_name x) = Some rt'
    \<and> map_rt_ok (length items) rt' \<and> item_of rt \<subseteq>\<^sub>m item_of rt'
    \<and> (r = StepOk \<longrightarrow> (\<forall>i<length items. item_of rt' (int i) \<noteq> None))"
proof -
  let ?n = "nx_name x" and ?tot = "length items"
  define good where "good res \<longleftrightarrow> node_is ?n (\<lambda>rt'. map_rt_ok ?tot rt' \<and> item_of rt \<subseteq>\<^sub>m item_of rt'
      \<and> (fst res = StepOk \<longrightarrow> (\<forall>i<?tot. item_of rt' (int i) \<noteq> None))) (snd (snd res))" for res :: "step_result \<times> gmap \<times> run_ctx"
  have fin: "good (finalizeCompleted e m x c')"
    if a: "Runtime c' ?n = Some rt'" "map_rt_ok ?tot rt'" "item_of rt \<subseteq>\<^sub>m item_of rt'" "all_done x c'" for c' rt'
  proof -
    have all: "\<forall>i<?tot. item_of rt' (int i) \<noteq> None" using all_done_iff [OF a(1,2)] a(4) by simp
    obtain rt2 where rt2: "Runtime (snd (snd (finalizeCompleted e m x c'))) ?n = Some rt2" "Checkpoint rt2 = Checkpoint rt'"
      using finalizeCompleted_result(3) [OF a(1,2) all, of e m] unfolding node_is_def by blast
    from cp_only [OF rt2(2)] a(2,3) all rt2(1) show ?thesis by (simp add: good_def node_is_def)
  qed
  have "good (MapNodeStep_Run e m x c)"
  proof (cases "\<exists>msg c'. MapNodeStep_Run e m x c = (StepErr msg, [], c') \<and> kept e x ?tot c c'")
    case True
    then obtain msg c' where stopped: "MapNodeStep_Run e m x c = (StepErr msg, [], c')" "kept e x ?tot c c'" by blast
    from keptD [OF stopped(2) assms(3-5)] obtain rt' where "Runtime c' ?n = Some rt'" "map_rt_ok ?tot rt'" "item_of rt \<subseteq>\<^sub>m item_of rt'" .
    with stopped(1) show ?thesis by (simp add: good_def node_is_def)
  next
    case False
    have "Runtime c ?n \<noteq> None" using assms(3) by simp
    from Run_split [OF assms(1,2) this] False obtain c5 where gathered: "MapNodeStep_Run e m x c = after_gather e m x items c5"
      "kept e x ?tot c c5" by blast
    from keptD [OF gathered(2) assms(3-5)] obtain rt5 where rt5: "Runtime c5 ?n = Some rt5" "map_rt_ok ?tot rt5"
      "item_of rt \<subseteq>\<^sub>m item_of rt5" .
    obtain r c6 where d: "dispatchPendingChildren e m x items c5 = (r, c6)" by force
    with dispatchPendingChildren_only [of c5 e m x items] rt5(1)
    have c6: "Runtime c6 ?n = Some rt5" by (simp add: child_only_def)
    have c7: "Runtime (map_emitFanoutProgress e x c6) ?n = Some rt5" using c6 by (simp add: emit_same)
    have sus: "good (StepSuspend SuspendSubWorkflow, [], map_emitFanoutProgress e x c6)" "good (StepErr msg, [], c6)" for msg
      using rt5 c6 c7 by (simp_all add: good_def node_is_def)
    show ?thesis
      unfolding gathered(1) after_gather_def d using fin [OF rt5] fin [OF c7 rt5(2,3)] sus
      by (cases r) (auto simp: and_then_def Let_def)
  qed
  then show ?thesis by (auto simp: good_def node_is_def split: prod.split)
qed

theorem map_checkpoint_invariant_witness:
  "\<exists>rt'. Runtime (snd (snd (MapNodeStep_Run fan_env fan_step fan_exec (fan_ctx Map.empty)))) ''a'' = Some rt' \<and> map_rt_ok 2 rt'"
proof -
  have n: "nx_name fan_exec = ''a''" by (simp add: fan_defs)
  have rt: "Runtime (fan_ctx Map.empty) ''a'' = Some (sample_rt ''a'' NodeRunning)" by (simp add: fan_ctx_def)
  have cp: "Checkpoint (sample_rt ''a'' NodeRunning) = None" by (simp add: sample_rt_def)
  show ?thesis
    using map_checkpoint_invariant [OF fan_items, of Map.empty fan_exec "sample_rt ''a'' NodeRunning"]
    by (auto simp: n rt cp fan_children in_items_def numeral_2_eq_2 split: prod.splits)
qed

text \<open>
  C21. A map node never has more children in flight than its parallelism allows: a run starts new
  children only while fewer than \<open>parallel\<close> of them are pending, running or suspended, so
  their number afterwards is at most the larger of that limit and the number before.
\<close>

theorem map_parallelism_bound:
  assumes "lists_rows e c" and "\<forall>t\<in>set (ListByParentNode e (nx_name x) c). getSubTaskIndex t \<noteq> None"
  shows "int (card (active_children (nx_name x) (snd (snd (MapNodeStep_Run e m x c)))))
    \<le> max (int (card (active_children (nx_name x) c))) (ms_parallel m)"
proof -
  let ?n = "nx_name x"
  define good where "good res \<longleftrightarrow> int (card (active_children ?n (snd (snd res))))
      \<le> max (int (card (active_children ?n c))) (ms_parallel m)" for res :: "step_result \<times> gmap \<times> run_ctx"
  have same: "good (r, out, c')" if "same_kids c c'" for r out c'
    using same_kids_active [OF that] by (simp add: good_def)
  have fin: "good (finalizeCompleted e m x c2)" if "good (r, out, c2)" for c2 r out
    using that same_kids_active [OF final_kids(2), of ?n e m x c2] by (simp add: good_def)
  show ?thesis
  proof (cases "\<exists>items. resolveItems e c (ms_itemsExpr m) = Inr items \<and> items \<noteq> [] \<and> Runtime c ?n \<noteq> None")
    case False
    then have "same_kids c (snd (snd (MapNodeStep_Run e m x c)))"
      using final_kids(1) [of "EmitNodeEvent ?n ''started'' 0 [] c" e x] emit_same(4) [of c ?n "''started''" 0 "[]"]
      by (auto simp: MapNodeStep_Run_def Let_def emit_same(3) resolveItems_started same_kids_def split: sum.splits)
    from same [OF this] show ?thesis by (simp add: good_def)
  next
    case True
    then obtain items where items: "resolveItems e c (ms_itemsExpr m) = Inr items" "items \<noteq> []" "Runtime c ?n \<noteq> None" by auto
    have "good (MapNodeStep_Run e m x c)"
    proof (cases "\<exists>msg c'. MapNodeStep_Run e m x c = (StepErr msg, [], c') \<and> kept e x (length items) c c'")
      case True
      then obtain msg c' where "MapNodeStep_Run e m x c = (StepErr msg, [], c')" "same_kids c c'" using kept_kids by blast
      with same show ?thesis by simp
    next
      case False
      with Run_split [OF items] kept_kids obtain c5
        where gathered: "MapNodeStep_Run e m x c = after_gather e m x items c5" "same_kids c c5" by blast
      have kids: "ListByParentNode e ?n c5 = ListByParentNode e ?n c" "lists_rows e c5"
        using same_kids_list [OF gathered(2)] gathered(2) assms(1) by (simp_all add: lists_rows_def same_kids_def)
      obtain r c6 where d: "dispatchPendingChildren e m x items c5 = (r, c6)" by force
      have "int (card (active_children ?n c6)) \<le> max (int (card (active_children ?n c5))) (ms_parallel m)"
        using dispatchPendingChildren_bound [OF kids(2), of x m items] assms(2) kids(1) d by simp
      then have g6: "good (r', out, c6)" for r' out
        using same_kids_active [OF gathered(2)] by (simp add: good_def)
      have g7: "good (r', out, map_emitFanoutProgress e x c6)" for r' out
        using g6 [of r' out] same_kids_active [OF emit_same(2)] by (simp add: good_def)
      show ?thesis
        unfolding gathered(1) after_gather_def d using fin [OF same [OF gathered(2)]] fin [OF g7] g6 g7
        by (cases r) (auto simp: and_then_def Let_def)
    qed
    then show ?thesis by (simp add: good_def)
  qed
qed

theorem map_parallelism_bound_witness:
  "card (active_children ''a'' (snd (snd (MapNodeStep_Run fan_env fan_step fan_exec (fan_ctx Map.empty))))) \<le> 1"
proof -
  have n: "nx_name fan_exec = ''a''" by (simp add: fan_defs)
  have "lists_rows fan_env (fan_ctx Map.empty)" by (simp add: lists_rows_def fan_defs)
  from map_parallelism_bound [OF this, of fan_exec fan_step] show ?thesis
    by (simp add: n fan_children(2)) (simp add: active_children_def fan_ctx_def fan_step_def NewMapStep_def)
qed

end
