(* ===== verification/Flux_Loop_Step.thy ===== *)
theory Flux_Loop_Step
  imports Flux_Map_Step
begin

text \<open>
  \<^verbatim>\<open>workflow/nodes/loop_node_step.go\<close>: the step behind a loop node, which runs one child task per item,
  one after the other, and carries values of an iteration over to the input of the next. The
  checkpoint binds the iteration that is running to the \<^verbatim>\<open>sub_key\<close> of its child.
\<close>

subsection \<open>The checkpoint\<close>

text \<open>\<^verbatim>\<open>strings.Contains\<close>\<close>

fun Contains :: "string \<Rightarrow> string \<Rightarrow> bool" where
  "Contains [] sub \<longleftrightarrow> sub = []"
| "Contains (ch # s) sub \<longleftrightarrow> prefix sub (ch # s) \<or> Contains s sub"

definition shouldEvalLoopExpr :: "string \<Rightarrow> bool" where
  "shouldEvalLoopExpr s0 =
     (let s = TrimSpace s0
      in s \<noteq> [] \<and>
         (list_ex (Contains s) [''input.'', ''nodes.'', ''shot.'', ''index'', ''??'', ''=='', ''!='', ''['', '']'', ''('', '')'', ''.output'']
          \<or> (Contains s ''.'' \<and> \<not> prefix ''http://'' s \<and> \<not> prefix ''https://'' s \<and> \<not> Contains s '' '')))"

definition resolveInitialValue :: "env \<Rightarrow> run_ctx \<Rightarrow> gval \<Rightarrow> go_error + gval" where
  "resolveInitialValue e c raw =
     (case raw of
        VStr v \<Rightarrow>
          (let s = TrimSpace v
           in if s = [] then Inr (VStr [])
              else if shouldEvalLoopExpr s then eval e c s
              else Inr raw)
      | _ \<Rightarrow> Inr raw)"

fun initial_carry :: "env \<Rightarrow> run_ctx \<Rightarrow> gmap \<Rightarrow> gmap \<Rightarrow> go_error + gmap" where
  "initial_carry e c [] acc = Inr acc"
| "initial_carry e c ((k, raw) # rest) acc =
     (case resolveInitialValue e c raw of
        Inl m \<Rightarrow> Inl (''loop initial['' @ k @ ''] resolve failed: '' @ m)
      | Inr v \<Rightarrow> initial_carry e c rest (AList.update k v acc))"

definition loop_initial_checkpoint :: "nat \<Rightarrow> gmap \<Rightarrow> gmap" where
  "loop_initial_checkpoint tot carry =
     [(''fanout_kind'', VStr ''loop''), (''total'', VInt (int tot)), (''current_index'', VInt 0), (''done'', VInt 0),
      (''results'', VList []), (''carry_state'', VMap carry), (''running_index'', VInt (- 1)),
      (''running_sub_key'', VStr []), (''running_attempt_token'', VStr []), (''attempt_seq_by_index'', VMap [])]"

definition loop_emitFanoutProgress :: "node_exec \<Rightarrow> run_ctx \<Rightarrow> run_ctx" where
  "loop_emitFanoutProgress x c =
     (case Runtime c (nx_name x) of None \<Rightarrow> c | Some rt \<Rightarrow>
       (case Checkpoint rt of None \<Rightarrow> c | Some cp \<Rightarrow>
         (let ri = ToInt64 (cfg cp ''running_index'')
          in EmitFanoutProgress x ''loop'' (ToInt64 (cfg cp ''total'')) (ToInt64 (cfg cp ''done''))
               (if 0 \<le> ri then 1 else 0) 0 0
               (if 0 \<le> ri then ri + 1 else ToInt64 (cfg cp ''current_index'')) c)))"

definition loop_initCheckpoint :: "env \<Rightarrow> loop_step \<Rightarrow> node_exec \<Rightarrow> nat \<Rightarrow> run_ctx \<Rightarrow> go_error option \<times> run_ctx" where
  "loop_initCheckpoint e l x tot c =
     (case Runtime c (nx_name x) of
        None \<Rightarrow> (None, c)
      | Some rt \<Rightarrow>
         (case Checkpoint rt of
            Some _ \<Rightarrow> (None, c)
          | None \<Rightarrow>
             (case initial_carry e c (ls_initial l) [] of
                Inl m \<Rightarrow> (Some m, c)
              | Inr carry \<Rightarrow>
                 (case persist e (nx_name x) (rt\<lparr>Checkpoint := Some (loop_initial_checkpoint tot carry)\<rparr>) c of
                    (Some m, c1) \<Rightarrow> (Some m, c1)
                  | (None, c1) \<Rightarrow> (None, loop_emitFanoutProgress x c1)))))"

subsection \<open>A finished iteration\<close>

definition flattenFinalExtras :: "gmap \<Rightarrow> gmap" where
  "flattenFinalExtras final = put_all (sub_map final ''extras'') (filter (\<lambda>(k, v). k \<noteq> ''extras'') final)"

definition carry_over :: "(string \<times> string) list \<Rightarrow> gmap \<Rightarrow> gmap \<Rightarrow> gmap" where
  "carry_over carry final st =
     fold (\<lambda>(ik, ok) st. if TrimSpace ik = [] \<or> TrimSpace ok = [] then st
        else (case map_of final ok of None \<Rightarrow> st | Some v \<Rightarrow> AList.update ik v st)) carry st"

definition resetRunningBinding :: "gmap \<Rightarrow> gmap" where
  "resetRunningBinding cp =
     AList.update ''running_attempt_token'' (VStr [])
       (AList.update ''running_sub_key'' (VStr []) (AList.update ''running_index'' (VInt (- 1)) cp))"

definition loop_results :: "gmap \<Rightarrow> gval list" where
  "loop_results cp = (case map_of cp ''results'' of Some (VList rs) \<Rightarrow> rs | _ \<Rightarrow> [])"

definition aggregated_cp :: "loop_step \<Rightarrow> gmap \<Rightarrow> int \<Rightarrow> gmap \<Rightarrow> gmap" where
  "aggregated_cp l final runningIndex cp =
     (let fm = flattenFinalExtras final;
          cp1 = AList.update ''results'' (VList (loop_results cp @ [VMap fm])) cp;
          cp2 = AList.update ''carry_state'' (VMap (carry_over (ls_carry l) fm (sub_map cp1 ''carry_state''))) cp1;
          cp3 = AList.update ''done'' (VInt (ToInt64 (cfg cp2 ''done'') + 1)) cp2
      in resetRunningBinding (AList.update ''current_index'' (VInt (runningIndex + 1)) cp3))"

definition aggregateSuccessfulIteration ::
  "env \<Rightarrow> loop_step \<Rightarrow> node_exec \<Rightarrow> node_runtime \<Rightarrow> gmap \<Rightarrow> task \<Rightarrow> int \<Rightarrow> run_ctx \<Rightarrow> go_error option \<times> run_ctx" where
  "aggregateSuccessfulIteration e l x rt cp child runningIndex c =
     (case ParseFinal (OutputJSON child) of
        Inl m \<Rightarrow> (Some (''loop parse child final failed: '' @ m), c)
      | Inr final \<Rightarrow>
         (let cp' = aggregated_cp l final runningIndex cp;
              rt' = rt\<lparr>Checkpoint := Some cp', Output := None, OutputHash := []\<rparr>;
              tot = ToInt64 (cfg cp' ''total''); dn = ToInt64 (cfg cp' ''done'')
          in case persist e (nx_name x) rt' c of
               (Some m, c1) \<Rightarrow> (Some (''loop persist checkpoint failed: '' @ m), c1)
             | (None, c1) \<Rightarrow>
                 (None, loop_emitFanoutProgress x
                   (EmitNodeEvent (nx_name x) ''progress'' (if 0 < tot then of_int dn / of_int tot else 0) [] c1))))"

datatype loop_decision = LoopContinue | LoopSuspend | LoopFail go_error

text \<open>
  \<^verbatim>\<open>FindBySubKey\<close> reports a missing row as an error of the query, so a child that is not there fails
  the iteration.
\<close>

definition processRunningIteration :: "env \<Rightarrow> loop_step \<Rightarrow> node_exec \<Rightarrow> run_ctx \<Rightarrow> loop_decision \<times> run_ctx" where
  "processRunningIteration e l x c =
     (case Runtime c (nx_name x) of None \<Rightarrow> (LoopContinue, c) | Some rt \<Rightarrow>
       (case Checkpoint rt of None \<Rightarrow> (LoopContinue, c) | Some cp \<Rightarrow>
         (let ri = ToInt64 (cfg cp ''running_index'');
              k = TrimSpace (ToString e (cfg cp ''running_sub_key''))
          in if ri = - 1 then (LoopContinue, c)
             else if k = [] then (LoopFail ''loop checkpoint invalid: running_sub_key empty'', c)
             else (case FindBySubKey c k of
                 None \<Rightarrow> (LoopFail ''loop find child by subKey failed'', c)
               | Some child \<Rightarrow>
                  (case Status child of
                     TaskSuccess \<Rightarrow>
                       (case aggregateSuccessfulIteration e l x rt cp child ri c of
                          (Some m, c1) \<Rightarrow> (LoopFail m, c1)
                        | (None, c1) \<Rightarrow> (LoopContinue, c1))
                   | TaskFailed \<Rightarrow> (LoopFail ''loop iteration child task failed'', c)
                   | TaskCanceled \<Rightarrow> (LoopFail ''loop iteration child task canceled'', c)
                   | _ \<Rightarrow> (LoopSuspend, c))))))"

subsection \<open>The next iteration\<close>

definition shouldRecreateLoopRunningTask :: "string \<Rightarrow> bool" where
  "shouldRecreateLoopRunningTask reason \<longleftrightarrow> reason \<in> {''resume_boundary'', ''upstream_dirty'', ''input_changed'',
     ''missing_parent'', ''parent_not_ready'', ''input_resolve_fail''}"

definition getAttemptSeq :: "gmap \<Rightarrow> int \<Rightarrow> int" where
  "getAttemptSeq cp index = ToInt64 (cfg (sub_map cp ''attempt_seq_by_index'') (FormatInt index))"

definition setAttemptSeq :: "int \<Rightarrow> int \<Rightarrow> gmap \<Rightarrow> gmap" where
  "setAttemptSeq index sq cp =
     AList.update ''attempt_seq_by_index'' (VMap (AList.update (FormatInt index) (VInt sq) (sub_map cp ''attempt_seq_by_index''))) cp"

definition resolveAttemptToken :: "env \<Rightarrow> node_runtime \<Rightarrow> int \<Rightarrow> gmap \<Rightarrow> string \<times> gmap" where
  "resolveAttemptToken e rt index cp =
     (let v = TrimSpace (ToString e (cfg cp ''running_attempt_token''))
      in if \<not> shouldRecreateLoopRunningTask (ExecutionReason rt) \<and> v \<noteq> [] then (v, cp)
         else
           (let sq0 = getAttemptSeq cp index;
                sq = (if sq0 \<le> 0 then 1 else sq0);
                cp1 = (if sq0 \<le> 0 then setAttemptSeq index sq cp else cp)
            in (sha1_hex e (Name rt @ ''|'' @ FormatInt index @ ''|'' @ FormatInt sq), cp1)))"

definition bound_cp :: "int \<Rightarrow> string \<Rightarrow> string \<Rightarrow> gmap \<Rightarrow> gmap" where
  "bound_cp index k token cp =
     AList.update ''running_attempt_token'' (VStr token)
       (AList.update ''running_sub_key'' (VStr k) (AList.update ''running_index'' (VInt index) cp))"

definition dispatchNextIteration ::
  "env \<Rightarrow> loop_step \<Rightarrow> node_exec \<Rightarrow> node_runtime \<Rightarrow> gmap \<Rightarrow> gval \<Rightarrow> int \<Rightarrow> run_ctx \<Rightarrow> go_error option \<times> run_ctx" where
  "dispatchNextIteration e l x rt cp item index c =
     (let (token, cp1) = resolveAttemptToken e rt index cp;
          subInput = buildLoopSubWorkflowInput x cp1 (ls_iterator l) item index token;
          subKey = BuildSubWorkflowKey e (task_id (Task c)) (nx_name x) (ls_workflow l) subInput
      in case persist e (nx_name x) (rt\<lparr>Checkpoint := Some (bound_cp index subKey token cp1)\<rparr>) c of
           (Some m, c1) \<Rightarrow> (Some (''loop persist running binding failed: '' @ m), c1)
         | (None, c1) \<Rightarrow>
            (case RunSubWorkflow e (nx_NodeDef x) (ls_workflow l) subInput c1 of
               (SubErr m, c2) \<Rightarrow> (Some (''loop dispatch subworkflow failed: '' @ m), c2)
             | (_, c2) \<Rightarrow> (None, c2)))"

subsection \<open>Run\<close>

definition loop_complete :: "env \<Rightarrow> node_exec \<Rightarrow> node_runtime \<Rightarrow> gmap \<Rightarrow> run_ctx \<Rightarrow> step_result \<times> gmap \<times> run_ctx" where
  "loop_complete e x rt cp c =
     (let out = [(''results'', VList (loop_results cp))];
          rt1 = (clearNodeReuseMetadata (rt\<lparr>Output := Some out, OutputHash := canonicalHash e '''' (Some out)\<rparr>))
                  \<lparr>ReuseKind := ReuseNone\<rparr>
      in case persist e (nx_name x) rt1 c of
           (Some m, c1) \<Rightarrow> (StepErr m, out, c1)
         | (None, c1) \<Rightarrow> (StepOk, out, loop_emitFanoutProgress x c1))"

definition loop_empty :: "env \<Rightarrow> node_exec \<Rightarrow> run_ctx \<Rightarrow> step_result \<times> gmap \<times> run_ctx" where
  "loop_empty e x c =
     (let out = [(''results'', VList [])]
      in case Runtime c (nx_name x) of
           None \<Rightarrow> (StepOk, out, c)
         | Some rt \<Rightarrow>
            (case persist e (nx_name x) (rt\<lparr>Output := Some out, OutputHash := canonicalHash e '''' (Some out)\<rparr>) c of
               (Some m, c1) \<Rightarrow> (StepErr m, out, c1)
             | (None, c1) \<Rightarrow> (StepOk, out, c1)))"

text \<open>The part of \<^verbatim>\<open>Run\<close> after the running iteration is settled.\<close>

definition loop_advance :: "env \<Rightarrow> loop_step \<Rightarrow> node_exec \<Rightarrow> gval list \<Rightarrow> run_ctx \<Rightarrow> step_result \<times> gmap \<times> run_ctx" where
  "loop_advance e l x items c =
     (case Runtime c (nx_name x) of
        None \<Rightarrow> (StepErr ''loop runtime not found'', [], c)
      | Some rt \<Rightarrow>
         (let cp = the_cp rt;
              current = ToInt64 (cfg cp ''current_index'')
          in if ToInt64 (cfg cp ''total'') \<le> current then loop_complete e x rt cp c
             else if ToInt64 (cfg cp ''running_index'') \<noteq> - 1
             then (StepSuspend SuspendSubWorkflow, [], loop_emitFanoutProgress x c)
             else if current < 0 \<or> int (length items) \<le> current
             then (StepErr ''loop current_index out of range'', [], c)
             else and_then (dispatchNextIteration e l x rt cp (items ! nat current) current c)
                    (\<lambda>c1. (StepSuspend SuspendSubWorkflow, [], loop_emitFanoutProgress x c1))))"

definition LoopNodeStep_Run :: "env \<Rightarrow> loop_step \<Rightarrow> node_exec \<Rightarrow> run_ctx \<Rightarrow> step_result \<times> gmap \<times> run_ctx" where
  "LoopNodeStep_Run e l x c0 =
     (let c = EmitNodeEvent (nx_name x) ''started'' 0 [] c0
      in case resolveItems e c (ls_itemsExpr l) of
           Inl m \<Rightarrow> (StepErr (''loop resolve items failed: '' @ m), [], c)
         | Inr items \<Rightarrow>
            if items = [] then loop_empty e x c
            else if Runtime c (nx_name x) = None then (StepErr ''loop runtime not found'', [], c)
            else and_then (loop_initCheckpoint e l x (length items) c) (\<lambda>c1.
                   case processRunningIteration e l x c1 of
                     (LoopFail m, c2) \<Rightarrow> (StepErr m, [], c2)
                   | (LoopSuspend, c2) \<Rightarrow> (StepSuspend SuspendSubWorkflow, [], c2)
                   | (LoopContinue, c2) \<Rightarrow> loop_advance e l x items c2))"
subsection \<open>Facts\<close>

lemma loop_emit_same:
  "Runtime (loop_emitFanoutProgress x c) = Runtime c" "same_kids c0 (loop_emitFanoutProgress x c) \<longleftrightarrow> same_kids c0 c"
  "child_only c0 (loop_emitFanoutProgress x c) \<longleftrightarrow> child_only c0 c" "Depth (loop_emitFanoutProgress x c) = Depth c"
  by (auto simp: loop_emitFanoutProgress_def EmitFanoutProgress_def same_kids_def child_only_def publish_def Let_def
      split: option.splits)

lemma progress_event:
  "Runtime c n = Some rt \<Longrightarrow> Runtime (EmitNodeEvent n ''progress'' p meta c) n = Some (rt\<lparr>Progress := p\<rparr>)"
  by (simp add: EmitNodeEvent_def publish_def set_runtime_def)

text \<open>
  A checkpoint of a loop is well-formed for a number of items when it has counted its results
  and stands at the item after them, and an iteration in progress is the one at that item.
\<close>

definition running_key :: "gmap \<Rightarrow> string option" where
  "running_key cp = (if ToInt64 (cfg cp ''running_index'') = - 1 then None
     else (case cfg cp ''running_sub_key'' of VStr k \<Rightarrow> Some (TrimSpace k) | _ \<Rightarrow> None))"

definition loop_cp_ok :: "nat \<Rightarrow> gmap \<Rightarrow> bool" where
  "loop_cp_ok tot cp \<longleftrightarrow>
     ToInt64 (cfg cp ''total'') = int tot
     \<and> map_of cp ''results'' = Some (VList (loop_results cp))
     \<and> (\<forall>r\<in>set (loop_results cp). \<exists>m. r = VMap m)
     \<and> ToInt64 (cfg cp ''done'') = int (length (loop_results cp))
     \<and> ToInt64 (cfg cp ''current_index'') = int (length (loop_results cp))
     \<and> length (loop_results cp) \<le> tot
     \<and> (ToInt64 (cfg cp ''running_index'') = - 1
        \<or> (ToInt64 (cfg cp ''running_index'') = int (length (loop_results cp)) \<and> length (loop_results cp) < tot
           \<and> (\<exists>k. running_key cp = Some k \<and> k \<noteq> [])))"

lemma loop_results_update [simp]:
  "loop_results (AList.update k v cp) = (if k = ''results'' then (case v of VList rs \<Rightarrow> rs | _ \<Rightarrow> []) else loop_results cp)"
  by (auto simp: loop_results_def map_of_update split: gval.split)

lemma map_of_cp_update [simp]: "map_of (AList.update k v cp) k' = (if k' = k then Some v else map_of cp k')"
  by (simp add: map_of_update)

lemma ToInt64_VInt [simp]: "ToInt64 (VInt i) = i"
  by (simp add: ToInt64_def)

lemma initial_loop_ok: "loop_cp_ok tot (loop_initial_checkpoint tot carry)"
    "loop_results (loop_initial_checkpoint tot carry) = []" "running_key (loop_initial_checkpoint tot carry) = None"
  by (simp_all add: loop_cp_ok_def loop_initial_checkpoint_def loop_results_def cfg_def running_key_def)

lemma aggregated_ok:
  assumes "loop_cp_ok tot cp" and "ToInt64 (cfg cp ''running_index'') = ri" and "ri \<noteq> - 1"
  shows "loop_cp_ok tot (aggregated_cp l final ri cp)"
    and "loop_results (aggregated_cp l final ri cp) = loop_results cp @ [VMap (flattenFinalExtras final)]"
    and "running_key (aggregated_cp l final ri cp) = None"
    and "sub_map (aggregated_cp l final ri cp) ''carry_state'' = carry_over (ls_carry l) (flattenFinalExtras final) (sub_map cp ''carry_state'')"
  using assms by (auto simp: loop_cp_ok_def aggregated_cp_def resetRunningBinding_def running_key_def Let_def)

lemma resolveAttemptToken_cp:
  assumes "resolveAttemptToken e rt i cp = (token, cp1)"
  shows "loop_results cp1 = loop_results cp" "cfg cp1 ''total'' = cfg cp ''total''" "cfg cp1 ''done'' = cfg cp ''done''"
    "cfg cp1 ''current_index'' = cfg cp ''current_index''" "map_of cp1 ''results'' = map_of cp ''results''"
    "sub_map cp1 ''carry_state'' = sub_map cp ''carry_state''" "map_of cp1 ''carry_state'' = map_of cp ''carry_state''"
  using assms by (auto simp: resolveAttemptToken_def setAttemptSeq_def Let_def split: if_splits)

lemma bound_ok:
  assumes "loop_cp_ok tot cp" and "resolveAttemptToken e rt i cp = (token, cp1)"
    and "i = int (length (loop_results cp))" "length (loop_results cp) < tot" "TrimSpace k \<noteq> []"
  shows "loop_cp_ok tot (bound_cp i k token cp1)" and "running_key (bound_cp i k token cp1) = Some (TrimSpace k)"
    and "loop_results (bound_cp i k token cp1) = loop_results cp"
  using assms resolveAttemptToken_cp [OF assms(2)] by (auto simp: loop_cp_ok_def bound_cp_def running_key_def)

subsection \<open>The keys of children\<close>

text \<open>What the code relies on of the MD5 library: a digest is text without spaces.\<close>

definition md5_plain :: "env \<Rightarrow> bool" where
  "md5_plain e \<longleftrightarrow> (\<forall>m. md5_json e m \<noteq> [] \<and> (\<forall>ch\<in>set (md5_json e m). \<not> is_space ch))"

lemma digits_not_space: "ch \<in> set (FormatInt i) \<Longrightarrow> \<not> is_space ch"
proof -
  assume "ch \<in> set (FormatInt i)"
  then have "ch = CHR ''-'' \<or> is_digit ch"
    using nat_digits_digits [of ch] by (auto simp: FormatInt_def split: if_splits)
  then show ?thesis using is_digit_code [of ch] by (auto simp: is_space_def)
qed

lemma FormatInt_ne: "FormatInt i \<noteq> []"
  using nat_digits_ne by (simp add: FormatInt_def)

lemma sub_key_trim:
  assumes "md5_plain e"
  shows "TrimSpace (BuildSubWorkflowKey e p n w inp) = BuildSubWorkflowKey e p n w inp"
    and "BuildSubWorkflowKey e p n w inp \<noteq> []"
proof -
  let ?k = "BuildSubWorkflowKey e p n w inp"
  show ne: "?k \<noteq> []" by (simp add: BuildSubWorkflowKey_def)
  have "hd ?k \<in> set (FormatInt p)" using FormatInt_ne by (simp add: BuildSubWorkflowKey_def)
  then have h: "\<not> is_space (hd ?k)" by (rule digits_not_space)
  have "last ?k \<in> set (md5_json e (normalizeMapAny inp))"
    using assms by (simp add: BuildSubWorkflowKey_def md5_plain_def)
  then have "\<not> is_space (last ?k)" using assms by (auto simp: md5_plain_def)
  with ne h show "TrimSpace ?k = ?k" by (simp add: TrimSpace_def trim_by_id)
qed

subsection \<open>One iteration at a time\<close>

text \<open>
  The state of a loop node between runs: the checkpoint is well-formed, and a child of the node
  that is still active is the one the checkpoint is bound to.
\<close>

definition bound_to :: "gmap option \<Rightarrow> string set" where
  "bound_to r = (case r of None \<Rightarrow> {} | Some cp \<Rightarrow> set_option (running_key cp))"

definition loop_inv :: "nat \<Rightarrow> name \<Rightarrow> run_ctx \<Rightarrow> bool" where
  "loop_inv tot n c \<longleftrightarrow> (\<exists>rt. Runtime c n = Some rt \<and> (\<forall>cp. Checkpoint rt = Some cp \<longrightarrow> loop_cp_ok tot cp)
     \<and> active_children n c \<subseteq> bound_to (Checkpoint rt))"

lemma loop_inv_emit [simp]: "loop_inv tot n (loop_emitFanoutProgress x c) \<longleftrightarrow> loop_inv tot n c"
  using same_kids_active [of c "loop_emitFanoutProgress x c" n] by (simp add: loop_inv_def loop_emit_same)

lemma loop_inv_event: "loop_inv tot n c \<Longrightarrow> loop_inv tot n (EmitNodeEvent n' ty p meta c)"
  using same_kids_active [OF emit_same(4), of n n' ty p meta c]
  by (auto simp: loop_inv_def EmitNodeEvent_def publish_def set_runtime_def Let_def split: option.splits)

lemma loop_inv_persist:
  assumes "persist e n rt c = (r, c')" and "loop_cp_ok tot cp" and "Checkpoint rt = Some cp"
    and "active_children n c \<subseteq> bound_to (Some cp)"
  shows "loop_inv tot n c'"
  using assms persist_frame(1) [of e n rt c] same_kids_active [OF persist_kids [of c e n rt], of n] by (simp add: loop_inv_def)

lemma bound_card: "loop_inv tot n c \<Longrightarrow> card (active_children n c) \<le> 1"
proof -
  assume "loop_inv tot n c"
  then obtain rt :: node_runtime where sub: "active_children n c \<subseteq> bound_to (Checkpoint rt)" unfolding loop_inv_def by blast
  have small: "finite (set_option r)" "card (set_option r) \<le> 1" for r :: "string option" by (cases r; simp)+
  then have "finite (bound_to (Checkpoint rt))" "card (bound_to (Checkpoint rt)) \<le> 1"
    by (simp_all add: bound_to_def split: option.split)
  with card_mono [OF _ sub] show ?thesis by linarith
qed

lemma dispatch_inv:
  assumes rt: "Runtime c (nx_name x) = Some rt" "loop_cp_ok tot (the_cp rt)" and none: "active_children (nx_name x) c = {}"
    and i: "i = int (length (loop_results (the_cp rt)))" "length (loop_results (the_cp rt)) < tot" and md5: "md5_plain e"
  shows "loop_inv tot (nx_name x) (snd (dispatchNextIteration e l x rt (the_cp rt) item i c))"
proof -
  let ?n = "nx_name x" and ?cp = "the_cp rt"
  obtain token cp1 where tok: "resolveAttemptToken e rt i ?cp = (token, cp1)" by force
  define inp where "inp = buildLoopSubWorkflowInput x cp1 (ls_iterator l) item i token"
  define k where "k = BuildSubWorkflowKey e (task_id (Task c)) ?n (ls_workflow l) inp"
  define rt1 where "rt1 = rt\<lparr>Checkpoint := Some (bound_cp i k token cp1)\<rparr>"
  have k: "TrimSpace k = k" "k \<noteq> []" using sub_key_trim [OF md5] by (simp_all add: k_def)
  have ok: "loop_cp_ok tot (bound_cp i k token cp1)" "running_key (bound_cp i k token cp1) = Some k"
    using bound_ok [OF rt(2) tok i, of k] k by simp_all
  obtain r c1 where p: "persist e ?n rt1 c = (r, c1)" by force
  have c1: "Runtime c1 ?n = Some rt1" "Task c1 = Task c" "active_children ?n c1 = {}"
    using persist_frame(1,2) [of e ?n rt1 c] p same_kids_active [OF persist_kids [of c e ?n rt1], of ?n] none by simp_all
  then have inv1: "loop_inv tot ?n c1" using ok by (simp add: loop_inv_def rt1_def)
  obtain s c2 where s: "RunSubWorkflow e (nx_NodeDef x) (ls_workflow l) inp c1 = (s, c2)" by force
  have only: "child_only c1 c2" using RunSubWorkflow_only [of c1 e "nx_NodeDef x" "ls_workflow l" inp] s by simp
  moreover have "one_child k c1 c2"
    using RunSubWorkflow_one [of e c1 "nx_NodeDef x" "ls_workflow l" inp] s c1(2) by (simp add: k_def)
  ultimately have "active_children ?n c2 \<subseteq> {k}" using one_child_active [of k c1 c2 ?n] c1(3) by (simp add: child_only_def)
  then have inv2: "loop_inv tot ?n c2" using only c1(1) ok by (simp add: loop_inv_def child_only_def rt1_def bound_to_def)
  have "dispatchNextIteration e l x rt ?cp item i c = (case r of
      Some m \<Rightarrow> (Some (''loop persist running binding failed: '' @ m), c1)
    | None \<Rightarrow> (case s of SubErr m \<Rightarrow> (Some (''loop dispatch subworkflow failed: '' @ m), c2) | _ \<Rightarrow> (None, c2)))"
    using tok p s by (simp add: dispatchNextIteration_def inp_def k_def rt1_def split: option.split)
  with inv1 inv2 show ?thesis by (cases r; cases s) simp_all
qed

lemma complete_inv:
  assumes "Runtime c (nx_name x) = Some rt" and "loop_inv tot (nx_name x) c"
  shows "loop_inv tot (nx_name x) (snd (snd (loop_complete e x rt cp c)))"
proof -
  define rt1 where "rt1 = (clearNodeReuseMetadata (rt\<lparr>Output := Some [(''results'', VList (loop_results cp))],
      OutputHash := canonicalHash e '''' (Some [(''results'', VList (loop_results cp))])\<rparr>))\<lparr>ReuseKind := ReuseNone\<rparr>"
  obtain r c1 where p: "persist e (nx_name x) rt1 c = (r, c1)" by force
  have "Checkpoint rt1 = Checkpoint rt" by (simp add: rt1_def clearNodeReuseMetadata_def)
  with assms p have "loop_inv tot (nx_name x) c1"
    using persist_frame(1) [of e "nx_name x" rt1 c] same_kids_active [OF persist_kids [of c e "nx_name x" rt1], of "nx_name x"]
    by (simp add: loop_inv_def)
  with p show ?thesis by (cases r) (simp_all add: loop_complete_def rt1_def Let_def)
qed

lemma advance_inv:
  assumes inv: "loop_inv tot (nx_name x) c" and tot: "tot = length items" and md5: "md5_plain e"
    and cp: "\<And>rt. Runtime c (nx_name x) = Some rt \<Longrightarrow> Checkpoint rt \<noteq> None"
  shows "loop_inv tot (nx_name x) (snd (snd (loop_advance e l x items c)))"
proof -
  let ?n = "nx_name x"
  from inv obtain rt where rt: "Runtime c ?n = Some rt" and sub: "active_children ?n c \<subseteq> bound_to (Checkpoint rt)"
    and ok: "\<forall>cp. Checkpoint rt = Some cp \<longrightarrow> loop_cp_ok tot cp" unfolding loop_inv_def by blast
  from cp [OF rt] obtain k where k: "Checkpoint rt = Some k" "the_cp rt = k" by (auto simp: the_cp_def)
  with ok have kok: "loop_cp_ok tot (the_cp rt)" by simp
  define cur where "cur = ToInt64 (cfg (the_cp rt) ''current_index'')"
  have cur: "cur = int (length (loop_results (the_cp rt)))" using kok by (simp add: loop_cp_ok_def cur_def)
  have total: "ToInt64 (cfg (the_cp rt) ''total'') = int tot" using kok by (simp add: loop_cp_ok_def)
  consider "int tot \<le> cur" | "cur < int tot" "ToInt64 (cfg (the_cp rt) ''running_index'') \<noteq> - 1"
    | "cur < int tot" "ToInt64 (cfg (the_cp rt) ''running_index'') = - 1" by linarith
  then show ?thesis
  proof cases
    case 1
    with rt total complete_inv [OF rt inv] show ?thesis by (simp add: loop_advance_def cur_def Let_def)
  next
    case 2
    with rt total inv show ?thesis by (simp add: loop_advance_def cur_def Let_def)
  next
    case 3
    have none: "active_children ?n c = {}" using sub 3(2) k by (auto simp: bound_to_def running_key_def)
    obtain r c1 where d: "dispatchNextIteration e l x rt (the_cp rt) (items ! nat cur) cur c = (r, c1)" by force
    have "loop_inv tot ?n c1"
      using dispatch_inv [OF rt kok none cur _ md5, of l "items ! nat cur"] 3(1) cur d by simp
    with rt total 3 d cur tot show ?thesis
      by (cases r) (simp_all add: loop_advance_def cur_def [symmetric] Let_def and_then_def)
  qed
qed

lemma aggregate_inv:
  assumes rt: "Runtime c (nx_name x) = Some rt" "Checkpoint rt = Some cp" and inv: "loop_inv tot (nx_name x) c"
    and ri: "ToInt64 (cfg cp ''running_index'') = ri" "ri \<noteq> - 1"
    and child: "running_key cp = Some k" "FindBySubKey c k = Some child" "Status child = TaskSuccess"
  shows "loop_inv tot (nx_name x) (snd (aggregateSuccessfulIteration e l x rt cp child ri c))"
    and "fst (aggregateSuccessfulIteration e l x rt cp child ri c) = None \<Longrightarrow>
      node_is (nx_name x) (\<lambda>rt'. Checkpoint rt' \<noteq> None) (snd (aggregateSuccessfulIteration e l x rt cp child ri c))"
proof -
  let ?n = "nx_name x" and ?A = "aggregateSuccessfulIteration e l x rt cp child ri c"
  have ok: "loop_cp_ok tot cp" and sub: "active_children ?n c \<subseteq> {k}"
    using inv rt child(1) by (auto simp: loop_inv_def bound_to_def)
  have "k \<notin> active_children ?n c"
    using FindBySubKey_id [OF child(2)] child(3) by (auto simp: active_children_def activeStatus_def)
  with sub have none: "active_children ?n c = {}" by blast
  have "loop_inv tot ?n (snd ?A) \<and> (fst ?A = None \<longrightarrow> node_is ?n (\<lambda>rt'. Checkpoint rt' \<noteq> None) (snd ?A))"
  proof (cases "ParseFinal (OutputJSON child)")
    case (Inl m)
    with inv show ?thesis by (simp add: aggregateSuccessfulIteration_def)
  next
    case (Inr final)
    define rt1 where "rt1 = rt\<lparr>Checkpoint := Some (aggregated_cp l final ri cp), Output := None, OutputHash := []\<rparr>"
    obtain r c1 where p: "persist e ?n rt1 c = (r, c1)" by force
    have inv1: "loop_inv tot ?n c1"
      using loop_inv_persist [OF p aggregated_ok(1) [OF ok ri, of l final]] none by (simp add: rt1_def)
    have at1: "Runtime c1 ?n = Some rt1" using persist_frame(1) [of e ?n rt1 c] p by simp
    show ?thesis
    proof (cases r)
      case (Some m)
      with Inr p inv1 show ?thesis by (simp add: aggregateSuccessfulIteration_def rt1_def Let_def)
    next
      case None
      with Inr p loop_inv_event [OF inv1] progress_event [OF at1] show ?thesis
        by (simp add: aggregateSuccessfulIteration_def rt1_def Let_def node_is_def loop_emit_same)
    qed
  qed
  then show "loop_inv tot ?n (snd ?A)" "fst ?A = None \<Longrightarrow> node_is ?n (\<lambda>rt'. Checkpoint rt' \<noteq> None) (snd ?A)" by auto
qed

lemma running_key_read:
  assumes "loop_cp_ok tot cp" and "ToInt64 (cfg cp ''running_index'') \<noteq> - 1"
  shows "running_key cp = Some (TrimSpace (ToString e (cfg cp ''running_sub_key'')))"
    and "TrimSpace (ToString e (cfg cp ''running_sub_key'')) \<noteq> []"
  using assms by (auto simp: loop_cp_ok_def running_key_def ToString_def split: gval.splits)

lemma process_inv:
  assumes inv: "loop_inv tot (nx_name x) c" and cp: "node_is (nx_name x) (\<lambda>rt. Checkpoint rt \<noteq> None) c"
    and run: "processRunningIteration e l x c = (d, c')"
  shows "loop_inv tot (nx_name x) c'" and "d = LoopContinue \<Longrightarrow> node_is (nx_name x) (\<lambda>rt. Checkpoint rt \<noteq> None) c'"
proof -
  let ?n = "nx_name x"
  from cp obtain rt k where rt: "Runtime c ?n = Some rt" "Checkpoint rt = Some k" by (auto simp: node_is_def)
  have ok: "loop_cp_ok tot k" using inv rt by (auto simp: loop_inv_def)
  define ri where "ri = ToInt64 (cfg k ''running_index'')"
  define key where "key = TrimSpace (ToString e (cfg k ''running_sub_key''))"
  have "loop_inv tot ?n c' \<and> (d = LoopContinue \<longrightarrow> node_is ?n (\<lambda>rt. Checkpoint rt \<noteq> None) c')"
  proof (cases "ri = - 1 \<or> key = [] \<or> FindBySubKey c key = None")
    case True
    with run rt inv cp show ?thesis
      by (auto simp: processRunningIteration_def ri_def key_def Let_def split: if_splits option.splits)
  next
    case False
    then obtain child where child: "FindBySubKey c key = Some child" by auto
    have k: "running_key k = Some key" using running_key_read [OF ok] False by (simp add: ri_def key_def)
    note agg = aggregate_inv [OF rt inv ri_def [symmetric] _ k child, of e l]
    show ?thesis
      using run rt inv cp False child agg
      by (cases "Status child") (auto simp: processRunningIteration_def ri_def [symmetric] key_def [symmetric] Let_def
          split: option.splits prod.splits)
  qed
  then show "loop_inv tot ?n c'" "d = LoopContinue \<Longrightarrow> node_is ?n (\<lambda>rt. Checkpoint rt \<noteq> None) c'" by auto
qed

lemma init_inv:
  assumes "loop_inv tot (nx_name x) c" and "loop_initCheckpoint e l x tot c = (r, c')"
  shows "loop_inv tot (nx_name x) c'" and "r = None \<Longrightarrow> node_is (nx_name x) (\<lambda>rt. Checkpoint rt \<noteq> None) c'"
proof -
  let ?n = "nx_name x"
  from assms(1) obtain rt where rt: "Runtime c ?n = Some rt" and sub: "active_children ?n c \<subseteq> bound_to (Checkpoint rt)"
    unfolding loop_inv_def by blast
  have "loop_inv tot ?n c' \<and> (r = None \<longrightarrow> node_is ?n (\<lambda>rt. Checkpoint rt \<noteq> None) c')"
  proof (cases "Checkpoint rt")
    case (Some k)
    with assms rt show ?thesis by (auto simp: loop_initCheckpoint_def node_is_def)
  next
    case None
    show ?thesis
    proof (cases "initial_carry e c (ls_initial l) []")
      case (Inl m)
      with assms rt None show ?thesis by (auto simp: loop_initCheckpoint_def)
    next
      case (Inr carry)
      define rt1 where "rt1 = rt\<lparr>Checkpoint := Some (loop_initial_checkpoint tot carry)\<rparr>"
      obtain r1 c1 where p: "persist e ?n rt1 c = (r1, c1)" by force
      have "active_children ?n c = {}" using sub None by (simp add: bound_to_def)
      then have "loop_inv tot ?n c1" using loop_inv_persist [OF p initial_loop_ok(1)] by (simp add: rt1_def)
      moreover have "Runtime c1 ?n = Some rt1" using persist_frame(1) [of e ?n rt1 c] p by simp
      ultimately show ?thesis
        using assms(2) rt None Inr p
        by (cases r1) (auto simp: loop_initCheckpoint_def rt1_def node_is_def loop_emit_same)
    qed
  qed
  then show "loop_inv tot ?n c'" "r = None \<Longrightarrow> node_is ?n (\<lambda>rt. Checkpoint rt \<noteq> None) c'" by auto
qed
subsection \<open>All iterations\<close>





















subsection \<open>A sample loop node\<close>

definition loop_env :: env where
  "loop_env = fan_env\<lparr>md5_json := (\<lambda>m. case map_of m ''index'' of Some (VInt i) \<Rightarrow> FormatInt i | _ \<Rightarrow> ''x'')\<rparr>"

definition loop_sample :: loop_step where
  "loop_sample = \<lparr>ls_itemsExpr = ''input.xs'', ls_iterator = ''x'', ls_workflow = ''w'', ls_carry = [(''prev'', ''y'')],
     ls_initial = [(''prev'', VInt 0)]\<rparr>"

definition loop_exec :: node_exec where
  "loop_exec = \<lparr>nx_NodeDef = (sample_cnode ''a'')\<lparr>n_Type := ''loop''\<rparr>, nx_Input = [], nx_ParentSnapshot = None,
     nx_MapItemReuse = Map.empty\<rparr>"

lemma loop_env_ok: "md5_plain loop_env" "db_err loop_env = (\<lambda>_. None)"
    "sub_version loop_env (ls_workflow loop_sample) = Inr 1"
proof -
  show "md5_plain loop_env"
    using digits_not_space FormatInt_ne
    by (auto simp: md5_plain_def loop_env_def is_space_def split: option.split gval.split)
qed (simp_all add: loop_env_def fan_env_def sample_env_def)

lemma loop_items: "resolveItems loop_env (fan_ctx kids) (ls_itemsExpr loop_sample) = Inr [VInt 10, VInt 20]"
  by (simp add: loop_env_def loop_sample_def fan_env_def fan_ctx_def sample_env_def sample_ctx_def resolveItems_def resolveValue_def
      splitFallbackCandidates_def resolveSingleValue_def lookupObjectKey_def ToAnySlice_def TrimSpace_def trim_by_def is_space_def)

subsection \<open>Properties\<close>

text \<open>
  C23. A loop node works on one iteration at a time. Whatever the outcome of a run and whichever writes
  fail, the checkpoint stays well-formed, with as many results as iterations counted and the
  position after the last of them, and a child of the node that is still active is the one
  the checkpoint is bound to: there is at most one.
\<close>

theorem loop_one_at_a_time:
  assumes "md5_plain e" and "resolveItems e c (ls_itemsExpr l) = Inr items" and "items \<noteq> []"
    and "loop_inv (length items) (nx_name x) c"
  shows "case LoopNodeStep_Run e l x c of (r, out, c') \<Rightarrow>
    loop_inv (length items) (nx_name x) c' \<and> card (active_children (nx_name x) c') \<le> 1"
proof -
  let ?n = "nx_name x" and ?tot = "length items"
  let ?c0 = "EmitNodeEvent ?n ''started'' 0 [] c"
  obtain rt where rt: "Runtime c ?n = Some rt" using assms(4) by (auto simp: loop_inv_def)
  have inv0: "loop_inv ?tot ?n ?c0" by (rule loop_inv_event [OF assms(4)])
  obtain r c1 where init: "loop_initCheckpoint e l x ?tot ?c0 = (r, c1)" by force
  note i1 = init_inv [OF inv0 init]
  have run: "LoopNodeStep_Run e l x c = and_then (r, c1) (\<lambda>c1. case processRunningIteration e l x c1 of
        (LoopFail m, c2) \<Rightarrow> (StepErr m, [], c2)
      | (LoopSuspend, c2) \<Rightarrow> (StepSuspend SuspendSubWorkflow, [], c2)
      | (LoopContinue, c2) \<Rightarrow> loop_advance e l x items c2)"
    using rt assms(2,3) init by (simp add: LoopNodeStep_Run_def Let_def resolveItems_started emit_same)
  have "loop_inv ?tot ?n (snd (snd (LoopNodeStep_Run e l x c)))"
  proof (cases r)
    case (Some m)
    with run i1(1) show ?thesis by (simp add: and_then_def)
  next
    case None
    obtain d c2 where d: "processRunningIteration e l x c1 = (d, c2)" by force
    note i2 = process_inv [OF i1(1) i1(2) [OF None] d]
    show ?thesis
    proof (cases d)
      case LoopContinue
      have "loop_inv ?tot ?n (snd (snd (loop_advance e l x items c2)))"
        using i2(2) [OF LoopContinue] by (intro advance_inv [OF i2(1) refl assms(1)]) (auto simp: node_is_def)
      with run None d LoopContinue show ?thesis by (simp add: and_then_def)
    qed (use run None d i2(1) in \<open>simp_all add: and_then_def\<close>)
  qed
  with bound_card show ?thesis by (auto split: prod.split)
qed

theorem loop_one_at_a_time_witness:
  "card (active_children ''a'' (snd (snd (LoopNodeStep_Run loop_env loop_sample loop_exec (fan_ctx Map.empty))))) \<le> 1"
proof -
  have n: "nx_name loop_exec = ''a''" by (simp add: loop_exec_def sample_cnode_def)
  have "loop_inv 2 ''a'' (fan_ctx Map.empty)"
    by (simp add: loop_inv_def fan_ctx_def sample_rt_def active_children_def)
  then show ?thesis
    using loop_one_at_a_time [OF loop_env_ok(1) loop_items [of Map.empty], of loop_exec]
    by (auto simp: n numeral_2_eq_2 split: prod.splits)
qed



end
