(* ===== verification/Flux_Poll.thy ===== *)
theory Flux_Poll
  imports Flux_Listener Flux_Loop_Step
begin

text \<open>
  \<^verbatim>\<open>worker/await_poll_worker.go\<close>: bindings whose time is up are completed as failed, and bindings with a
  fallback are polled with a tool until it has a result, an error that is final, or the attempts
  are used up. The context holds the tables of the task that owns the binding. The lock of the
  worker is an argument. Tools are arguments: a tool takes its input and gives its data, its usage
  facts and its error.
\<close>

subsection \<open>Tools\<close>

type_synonym poll_tool = "gmap \<Rightarrow> gmap option \<times> gval list \<times> go_error option"

record poll_services =
  pw_services :: retry_services
  pw_tools :: "string \<Rightarrow> poll_tool option"

definition preferredPollToolAliases :: "string \<Rightarrow> string option" where
  "preferredPollToolAliases = map_of
     [(''aliyun_image_generate_wait'', ''aliyun_image_generate_poll_once''),
      (''aliyun_image_to_image_wait'', ''aliyun_image_to_image_poll_once''),
      (''volcengine_image_generate_wait'', ''volcengine_image_generate_poll_once''),
      (''video_generate_wait'', ''video_generate_poll_once''),
      (''goods_shot_i2v_wait'', ''goods_shot_i2v_poll_once'')]"

definition ResolvePreferredPollTool :: "(string \<Rightarrow> poll_tool option) \<Rightarrow> string \<Rightarrow> (string \<times> poll_tool) option" where
  "ResolvePreferredPollTool reg requested =
     (let name = TrimSpace requested;
          direct = map_option (\<lambda>f. (name, f)) (reg name)
      in if name = [] then None
         else case preferredPollToolAliases name of
             None \<Rightarrow> direct
           | Some a \<Rightarrow> (case reg a of Some f \<Rightarrow> Some (a, f) | None \<Rightarrow> direct))"

definition put_if_nil :: "string \<Rightarrow> string option \<Rightarrow> gmap \<Rightarrow> gmap" where
  "put_if_nil k v m = (case v of None \<Rightarrow> m | Some s \<Rightarrow> if cfg m k = VNil then AList.update k (VStr s) m else m)"

definition put_some :: "string \<Rightarrow> string option \<Rightarrow> gmap \<Rightarrow> gmap" where
  "put_some k v m = (case v of None \<Rightarrow> m | Some s \<Rightarrow> AList.update k (VStr s) m)"

definition buildAwaitPollInput :: "await_binding \<Rightarrow> gmap" where
  "buildAwaitPollInput b =
     (let m = put_if_nil ''external_task_id'' (ab_ExternalTaskID b)
               (put_if_nil ''api_task_id'' (ab_APITaskID b)
                 (put_if_nil ''provider_task_id'' (ab_ProviderTaskID b)
                   (put_some ''api_provider'' (ab_Provider b) (ab_Correlation b))))
      in case ab_TimeoutAt b of None \<Rightarrow> m | Some t \<Rightarrow> AList.update ''timeout_at'' (VInt (t div Second)) m)"

definition buildAwaitFailurePayload :: "await_binding \<Rightarrow> gmap" where
  "buildAwaitFailurePayload b =
     put_some ''provider_task_id'' (ab_ProviderTaskID b)
       (put_some ''api_task_id'' (case ab_APITaskID b of Some s \<Rightarrow> Some s | None \<Rightarrow> ab_ProviderTaskID b)
         (put_some ''api_provider'' (ab_Provider b) []))"

definition executePollTool :: "poll_services \<Rightarrow> await_binding \<Rightarrow> gmap option \<times> gval list \<times> string \<times> go_error option" where
  "executePollTool pw b =
     (let nm = (case ab_FallbackPollTool b of None \<Rightarrow> [] | Some s \<Rightarrow> s)
      in case ResolvePreferredPollTool (pw_tools pw) nm of
           None \<Rightarrow> (None, [], [], Some (''await fallback poll tool not found: '' @ nm))
         | Some (resolved, f) \<Rightarrow>
            (case f (AList.update ''poll_interval_ms'' (VInt 0) (AList.update ''max_retry'' (VInt 1) (buildAwaitPollInput b))) of
               (data, facts, err) \<Rightarrow> (data, if data = None \<or> err \<noteq> None then [] else facts, resolved, err)))"

definition awaitPollInterval :: "env \<Rightarrow> await_binding \<Rightarrow> int" where
  "awaitPollInterval e b =
     (case cfg (ab_Config b) ''fallback_poll'' of
        VMap m \<Rightarrow>
          (case parseDurationValue e (cfg m ''interval'') of
             Some d \<Rightarrow> if 0 < d then d else
               (case parseDurationValue e (cfg m ''start_after'') of Some d \<Rightarrow> if 0 < d then d else 3 * Minute | None \<Rightarrow> 3 * Minute)
           | None \<Rightarrow>
               (case parseDurationValue e (cfg m ''start_after'') of Some d \<Rightarrow> if 0 < d then d else 3 * Minute | None \<Rightarrow> 3 * Minute))
      | _ \<Rightarrow> 3 * Minute)"

definition awaitBoolConfig :: "gmap \<Rightarrow> string \<Rightarrow> bool" where
  "awaitBoolConfig m k = (case cfg m k of VBool b \<Rightarrow> b | VStr s \<Rightarrow> ToLower (TrimSpace s) = ''true'' | _ \<Rightarrow> False)"

text \<open>The words of a final error, some of them Chinese (in UTF-8).\<close>

definition utf8 :: "nat list \<Rightarrow> string" where
  "utf8 = map char_of"

definition terminal_words :: "string list" where
  "terminal_words =
     [utf8 [229, 164, 177, 232, 180, 165], ''failed'',
      utf8 [228, 187, 187, 229, 138, 161, 229, 164, 177, 232, 180, 165],
      utf8 [231, 148, 159, 230, 136, 144, 229, 164, 177, 232, 180, 165],
      utf8 [230, 156, 170, 232, 191, 148, 229, 155, 158, 229, 155, 190, 231, 137, 135] @ '' url'',
      utf8 [230, 156, 170, 232, 191, 148, 229, 155, 158, 229, 155, 190, 231, 137, 135] @ ''url'',
      ''empty image url'', ''missing image url'']"

definition isTerminalPollError :: "go_error option \<Rightarrow> bool" where
  "isTerminalPollError err = (case err of None \<Rightarrow> False | Some m \<Rightarrow> list_ex (Contains (ToLower (TrimSpace m))) terminal_words)"

subsection \<open>Events\<close>

definition nil_or_str :: "string option \<Rightarrow> gval" where
  "nil_or_str v = (case v of None \<Rightarrow> VNil | Some s \<Rightarrow> VStr s)"

fun await_status_str :: "await_status \<Rightarrow> string" where
  "await_status_str AwaitBindingPending = ''pending''"
| "await_status_str AwaitBindingWaiting = ''waiting''"
| "await_status_str AwaitBindingCompleting = ''completing''"
| "await_status_str AwaitBindingCompleted = ''completed''"
| "await_status_str AwaitBindingFailed = ''failed''"
| "await_status_str AwaitBindingTimedOut = ''timed_out''"
| "await_status_str AwaitBindingCanceled = ''canceled''"

text \<open>The id of the binding, which the event carries too, is not part of the model.\<close>

definition publishBindingEvent :: "await_binding \<Rightarrow> string \<Rightarrow> gmap \<Rightarrow> run_ctx \<Rightarrow> run_ctx" where
  "publishBindingEvent b ty meta c =
     publish \<lparr>ev_TaskID = ab_TaskID b, ev_RootTaskID = ab_RootTaskID b, ev_Step = ab_NodeName b, ev_Type = ty,
       ev_Meta = meta @ [(''await_type'', VStr (ab_AwaitType b)), (''await_source'', VStr (ab_Source b)),
         (''binding_status'', VStr (await_status_str (ab_Status b))), (''provider'', nil_or_str (ab_Provider b)),
         (''provider_task_id'', nil_or_str (ab_ProviderTaskID b)), (''api_task_id'', nil_or_str (ab_APITaskID b)),
         (''external_task_id'', nil_or_str (ab_ExternalTaskID b)), (''node_name'', VStr (ab_NodeName b)),
         (''task_id'', VInt (ab_TaskID b)), (''root_task_id'', VInt (ab_RootTaskID b))]\<rparr> c"

subsection \<open>One binding\<close>

text \<open>The pair that the functions return: whether the binding was processed, and an error.\<close>

definition completed_result :: "(run_result \<times> run_ctx) exec \<Rightarrow> ((bool \<times> go_error option) \<times> run_ctx) exec" where
  "completed_result x = bind_exec x (\<lambda>(r, c). Ret ((True, if rr_Status r = RunFailed then rr_Err r else None), c))"

definition failure_error :: "await_binding \<Rightarrow> go_error \<Rightarrow> go_error" where
  "failure_error b m = (if awaitBoolConfig (ab_Config b) ''failure_as_output'' then [] else m)"

definition processTimeoutBinding :: "poll_services \<Rightarrow> go_error + bool \<Rightarrow> go_error + bool \<Rightarrow> name \<Rightarrow> run_ctx
    \<Rightarrow> ((bool \<times> go_error option) \<times> run_ctx) exec" where
  "processTimeoutBinding pw wlk lk n c =
     (case wlk of
        Inl m \<Rightarrow> Ret ((False, Some m), c)
      | Inr got \<Rightarrow>
         if \<not> got then Ret ((False, None), c)
         else case dbBindings c n of
             None \<Rightarrow> Ret ((False, Some record_not_found), c)
           | Some b \<Rightarrow>
              if ab_Status b \<noteq> AwaitBindingWaiting then Ret ((False, None), c)
              else completed_result (CompleteAwaitNode (pw_services pw) lk n (buildAwaitFailurePayload b) (failure_error b ''await timeout'') ''timeout''
                     (publishBindingEvent b ''await_timeout'' [(''timeout_at'', case ab_TimeoutAt b of None \<Rightarrow> VNil | Some t \<Rightarrow> VInt t)] c)))"

definition poll_meta :: "await_binding \<Rightarrow> gmap" where
  "poll_meta b = [(''poll_attempts'', VInt (ab_PollAttempts b)), (''max_poll_attempts'', VInt (ab_MaxPollAttempts b)),
     (''fallback_poll_tool'', nil_or_str (ab_FallbackPollTool b))]"

definition nil_or_time :: "int option \<Rightarrow> gval" where
  "nil_or_time t = (case t of None \<Rightarrow> VNil | Some k \<Rightarrow> VInt k)"

definition polled :: "int \<Rightarrow> await_binding \<Rightarrow> await_binding" where
  "polled now b = b\<lparr>ab_LastPolledAt := Some now, ab_PollAttempts := ab_PollAttempts b + 1\<rparr>"

definition poll_exceeded :: "await_binding \<Rightarrow> bool" where
  "poll_exceeded b \<longleftrightarrow> 0 < ab_MaxPollAttempts b \<and> ab_MaxPollAttempts b < ab_PollAttempts b"

text \<open>The part of \<^verbatim>\<open>processPollBinding\<close> behind the counting of the attempt.\<close>

definition poll_once :: "poll_services \<Rightarrow> go_error + bool \<Rightarrow> int \<Rightarrow> name \<Rightarrow> await_binding \<Rightarrow> run_ctx
    \<Rightarrow> ((bool \<times> go_error option) \<times> run_ctx) exec" where
  "poll_once pw lk now n b c =
     (let e = rv_env (pw_services pw);
          complete = (\<lambda>payload err src c. completed_result (CompleteAwaitNode (pw_services pw) lk n payload err src c))
      in case executePollTool pw b of
           (Some data, facts, nm, None) \<Rightarrow>
             (case bindingRepo_Update e b c of
                (Some m, c1) \<Rightarrow> Ret ((False, Some m), c1)
              | (None, c1) \<Rightarrow> complete (if facts = [] then data else AList.update AwaitUsageFactsMetaKey (VList facts) data) [] (''poll:'' @ nm) c1)
         | (data, facts, nm, err) \<Rightarrow>
             if isTerminalPollError err
             then (case bindingRepo_Update e b c of
                (Some m, c1) \<Rightarrow> Ret ((False, Some m), c1)
              | (None, c1) \<Rightarrow> complete (buildAwaitFailurePayload b) (failure_error b (the err)) (''poll:'' @ nm) c1)
             else let b1 = b\<lparr>ab_NextPollAt := Some (now + awaitPollInterval e b)\<rparr>
                  in (case bindingRepo_Update e b1 c of
                    (Some m, c1) \<Rightarrow> Ret ((False, Some m), c1)
                  | (None, c1) \<Rightarrow> Ret ((True, None), publishBindingEvent b1 ''await_poll_miss''
                      (poll_meta b1 @ [(''next_poll_at'', nil_or_time (ab_NextPollAt b1)), (''last_polled_at'', nil_or_time (ab_LastPolledAt b1)),
                        (''poll_error'', VStr (case err of None \<Rightarrow> [] | Some m \<Rightarrow> m))]) c1)))"

definition processPollBinding :: "poll_services \<Rightarrow> go_error + bool \<Rightarrow> go_error + bool \<Rightarrow> int \<Rightarrow> name \<Rightarrow> run_ctx
    \<Rightarrow> ((bool \<times> go_error option) \<times> run_ctx) exec" where
  "processPollBinding pw wlk lk now n c =
     (case dbBindings c n of
        None \<Rightarrow> Ret ((False, None), c)
      | Some b0 \<Rightarrow>
         if ab_Status b0 \<noteq> AwaitBindingWaiting \<or> \<not> ab_FallbackPollEnabled b0 \<or> ab_FallbackPollTool b0 = None then Ret ((False, None), c)
         else case wlk of
             Inl m \<Rightarrow> Ret ((False, Some m), c)
           | Inr got \<Rightarrow>
              if \<not> got then Ret ((False, None), c)
              else let b = polled now b0
                   in if poll_exceeded b
                      then (case bindingRepo_Update (rv_env (pw_services pw)) b c of
                         (Some m, c1) \<Rightarrow> Ret ((False, Some m), c1)
                       | (None, c1) \<Rightarrow> completed_result (CompleteAwaitNode (pw_services pw) lk n (buildAwaitFailurePayload b)
                            (failure_error b ''await fallback poll attempts exceeded'') ''poll:max_attempts''
                            (publishBindingEvent b ''await_poll_max_attempts_exceeded'' (poll_meta b) c1)))
                      else poll_once pw lk now n b c)"

subsection \<open>The pass over the bindings of a task\<close>

definition due :: "int \<Rightarrow> int option \<Rightarrow> bool" where
  "due now t \<longleftrightarrow> (case t of None \<Rightarrow> False | Some k \<Rightarrow> k \<le> now)"

definition binding_due :: "(await_binding \<Rightarrow> int option) \<Rightarrow> int \<Rightarrow> run_ctx \<Rightarrow> name \<Rightarrow> bool" where
  "binding_due sel now c n \<longleftrightarrow> (case dbBindings c n of None \<Rightarrow> False | Some b \<Rightarrow> ab_Status b = AwaitBindingWaiting \<and> due now (sel b))"

text \<open>\<^verbatim>\<open>FindTimeoutDue\<close> and \<^verbatim>\<open>FindPollDue\<close>; \<open>ns\<close> are the nodes of the task that have a binding, in the order of the table.\<close>

definition FindTimeoutDue :: "int \<Rightarrow> nat \<Rightarrow> name list \<Rightarrow> run_ctx \<Rightarrow> name list" where
  "FindTimeoutDue now limit ns c = take limit (filter (binding_due ab_TimeoutAt now c) ns)"

definition FindPollDue :: "int \<Rightarrow> nat \<Rightarrow> name list \<Rightarrow> run_ctx \<Rightarrow> name list" where
  "FindPollDue now limit ns c = take limit (filter (binding_due ab_NextPollAt now c) ns)"

definition poll_step :: "poll_services \<Rightarrow> go_error + bool \<Rightarrow> go_error + bool \<Rightarrow> (int \<Rightarrow> go_error + task_row) \<Rightarrow> int \<Rightarrow> name \<Rightarrow> run_ctx
    \<Rightarrow> ((bool \<times> go_error option) \<times> run_ctx) exec" where
  "poll_step pw wlk lk get now n c =
     (if subworkflow_binding n c
      then bind_exec (ReconcileSubWorkflowBinding (pw_services pw) lk get n c) (\<lambda>(r, c'). Ret ((rr_Status r \<noteq> RunFailed, None), c'))
      else processPollBinding pw wlk lk now n c)"

fun each_binding :: "(name \<Rightarrow> run_ctx \<Rightarrow> ((bool \<times> go_error option) \<times> run_ctx) exec) \<Rightarrow> name list \<Rightarrow> nat \<Rightarrow> run_ctx
    \<Rightarrow> ((nat \<times> go_error option) \<times> run_ctx) exec" where
  "each_binding f [] k c = Ret ((k, None), c)"
| "each_binding f (n # ns) k c =
     bind_exec (f n c) (\<lambda>((ok, err), c1).
       if err \<noteq> None then Ret ((k, err), c1)
       else each_binding f ns (if ok then Suc k else k) c1)"

definition RunOnce :: "poll_services \<Rightarrow> go_error + bool \<Rightarrow> go_error + bool \<Rightarrow> (int \<Rightarrow> go_error + task_row) \<Rightarrow> nat \<Rightarrow> name list \<Rightarrow> run_ctx
    \<Rightarrow> ((nat \<times> go_error option) \<times> run_ctx) exec" where
  "RunOnce pw wlk lk get batchSize ns c =
     (let now = clock (rv_env (pw_services pw)) (writes c)
      in bind_exec (each_binding (processTimeoutBinding pw wlk lk) (FindTimeoutDue now batchSize ns c) 0 c) (\<lambda>((k, err), c1).
           if err \<noteq> None then Ret ((k, err), c1)
           else each_binding (poll_step pw wlk lk get now) (FindPollDue now batchSize ns c1) k c1))"

subsection \<open>Polling gives up\<close>

text \<open>A tool that never comes to an end: it has no data, and no error that is final.\<close>

definition never_ready :: "poll_services \<Rightarrow> string \<Rightarrow> bool" where
  "never_ready pw tn \<longleftrightarrow> (\<forall>b. ab_FallbackPollTool b = Some tn \<longrightarrow> (fst (executePollTool pw b) = None \<or> snd (snd (snd (executePollTool pw b))) \<noteq> None)
     \<and> \<not> isTerminalPollError (snd (snd (snd (executePollTool pw b)))))"

definition pollable :: "string \<Rightarrow> await_binding \<Rightarrow> bool" where
  "pollable tn b \<longleftrightarrow> ab_Status b = AwaitBindingWaiting \<and> ab_FallbackPollEnabled b \<and> ab_FallbackPollTool b = Some tn"

text \<open>The binding after a poll that missed.\<close>

definition missed :: "env \<Rightarrow> int \<Rightarrow> await_binding \<Rightarrow> await_binding" where
  "missed e now b = binding_row ((polled now b)\<lparr>ab_NextPollAt := Some (now + awaitPollInterval e (polled now b))\<rparr>)"

lemma missed_sel [simp]:
  "ab_PollAttempts (missed e now b) = ab_PollAttempts b + 1" "ab_MaxPollAttempts (missed e now b) = ab_MaxPollAttempts b"
  "pollable tn (missed e now b) = pollable tn b" "ab_NodeName (missed e now b) = ab_NodeName b" "ab_Config (missed e now b) = ab_Config b"
  by (simp_all add: missed_def polled_def binding_row_def pollable_def)

lemma poll_once_miss:
  assumes "never_ready pw tn" and "db_err (rv_env (pw_services pw)) (writes c) = None" and "dbBindings c n = Some b0" and "ab_NodeName b0 = n"
    and "ab_NodeName b = n" and "ab_FallbackPollTool b = Some tn"
  shows "\<exists>c'. poll_once pw lk now n b c = Ret ((True, None), c') \<and> dbNodes c' = dbNodes c
    \<and> dbBindings c' n = Some (binding_row (b\<lparr>ab_NextPollAt := Some (now + awaitPollInterval (rv_env (pw_services pw)) b)\<rparr>))"
proof -
  obtain data facts nm err where x: "executePollTool pw b = (data, facts, nm, err)" by (metis prod_cases4)
  with assms(1,6) have nr: "data = None \<or> err \<noteq> None" "\<not> isTerminalPollError err" unfolding never_ready_def by (metis fst_conv snd_conv)+
  with x assms(2-5) show ?thesis
    by (cases data; cases err) (simp_all add: poll_once_def Let_def bindingRepo_Update_def publishBindingEvent_def publish_def)
qed

lemma poll_miss:
  assumes "never_ready pw tn" and "\<forall>k. db_err (rv_env (pw_services pw)) k = None" and "dbBindings c n = Some b" and "ab_NodeName b = n" and "pollable tn b"
    and "ab_PollAttempts b < ab_MaxPollAttempts b"
  shows "\<exists>c'. processPollBinding pw (Inr True) lk now n c = Ret ((True, None), c') \<and> dbNodes c' = dbNodes c
    \<and> dbBindings c' n = Some (missed (rv_env (pw_services pw)) now b)"
proof -
  have "\<not> poll_exceeded (polled now b)" using assms(6) by (simp add: poll_exceeded_def polled_def)
  moreover have "ab_NodeName (polled now b) = n" "ab_FallbackPollTool (polled now b) = Some tn" using assms(4,5) by (simp_all add: polled_def pollable_def)
  ultimately show ?thesis
    using poll_once_miss [OF assms(1) _ assms(3,4), of "polled now b" lk now] assms(2,3,5)
    by (simp add: processPollBinding_def Let_def missed_def pollable_def)
qed

text \<open>Repeated polls; their times are \<open>ts\<close>.\<close>

fun polls :: "poll_services \<Rightarrow> go_error + bool \<Rightarrow> name \<Rightarrow> int list \<Rightarrow> run_ctx \<Rightarrow> run_ctx exec" where
  "polls pw lk n [] c = Ret c"
| "polls pw lk n (t # ts) c = bind_exec (processPollBinding pw (Inr True) lk t n c) (\<lambda>(r, c1). polls pw lk n ts c1)"

lemma polls_miss:
  assumes "never_ready pw tn" and "\<forall>k. db_err (rv_env (pw_services pw)) k = None"
  shows "dbBindings c n = Some b \<Longrightarrow> ab_NodeName b = n \<Longrightarrow> pollable tn b \<Longrightarrow> ab_PollAttempts b + int (length ts) \<le> ab_MaxPollAttempts b \<Longrightarrow>
    \<exists>c' b'. polls pw lk n ts c = Ret c' \<and> dbNodes c' = dbNodes c \<and> dbBindings c' n = Some b' \<and> ab_NodeName b' = n \<and> pollable tn b'
      \<and> ab_PollAttempts b' = ab_PollAttempts b + int (length ts) \<and> ab_MaxPollAttempts b' = ab_MaxPollAttempts b \<and> ab_Config b' = ab_Config b"
proof (induction ts arbitrary: c b)
  case (Cons t ts)
  then have "ab_PollAttempts b < ab_MaxPollAttempts b" by simp
  from poll_miss [OF assms Cons.prems(1-3) this, of lk t] obtain c1 where
    c1: "processPollBinding pw (Inr True) lk t n c = Ret ((True, None), c1)" "dbNodes c1 = dbNodes c"
      "dbBindings c1 n = Some (missed (rv_env (pw_services pw)) t b)" by blast
  from Cons.IH [OF c1(3)] Cons.prems c1 show ?case by (auto simp: algebra_simps)
qed simp

text \<open>
  C13. Polling is bounded. With a tool that never has a result and no failing writes, a waiting binding
  with a limit is polled that many times, stays waiting meanwhile, and the next poll does not call
  the tool but completes the node, as failed with the error that the attempts are used up (or,
  where the configuration asks for it, with a failure as its output).
\<close>

theorem polling_gives_up:
  assumes "never_ready pw tn" and "\<forall>k. db_err (rv_env (pw_services pw)) k = None"
    and "dbBindings c n = Some b" and "ab_NodeName b = n" and "pollable tn b" and "0 < ab_MaxPollAttempts b"
    and "ab_PollAttempts b + int (length ts) = ab_MaxPollAttempts b"
  shows "\<exists>c1 b1. polls pw lk n ts c = Ret c1 \<and> bstatus c1 n = Some AwaitBindingWaiting \<and> dbNodes c1 = dbNodes c
    \<and> (\<forall>now. \<exists>c2. dbNodes c2 = dbNodes c \<and> bstatus c2 n = Some AwaitBindingWaiting \<and>
         processPollBinding pw (Inr True) lk now n c1 = completed_result (CompleteAwaitNode (pw_services pw) lk n (buildAwaitFailurePayload (polled now b1))
           (failure_error b ''await fallback poll attempts exceeded'') ''poll:max_attempts'' c2))"
proof -
  have "ab_PollAttempts b + int (length ts) \<le> ab_MaxPollAttempts b" using assms(7) by simp
  from polls_miss [OF assms(1-5) this, of lk] obtain c1 b1 where
    c1: "polls pw lk n ts c = Ret c1" "dbNodes c1 = dbNodes c" "dbBindings c1 n = Some b1" "ab_NodeName b1 = n" "pollable tn b1"
      "ab_PollAttempts b1 = ab_MaxPollAttempts b1" "ab_MaxPollAttempts b1 = ab_MaxPollAttempts b" "ab_Config b1 = ab_Config b"
    using assms(7) by auto
  have w: "bstatus c1 n = Some AwaitBindingWaiting" using c1(3,5) by (simp add: bstatus_def pollable_def)
  have "\<exists>c2. dbNodes c2 = dbNodes c \<and> bstatus c2 n = Some AwaitBindingWaiting \<and>
         processPollBinding pw (Inr True) lk now n c1 = completed_result (CompleteAwaitNode (pw_services pw) lk n (buildAwaitFailurePayload (polled now b1))
           (failure_error b ''await fallback poll attempts exceeded'') ''poll:max_attempts'' c2)" for now
  proof -
    let ?b = "polled now b1" and ?e = "rv_env (pw_services pw)"
    have ex: "poll_exceeded ?b" using c1(6,7) assms(6) by (simp add: poll_exceeded_def polled_def)
    have sel: "ab_NodeName ?b = n" "ab_Config ?b = ab_Config b" "ab_Status (binding_row ?b) = AwaitBindingWaiting"
      using c1(4,5,8) by (simp_all add: polled_def binding_row_def pollable_def)
    obtain c2 where u: "bindingRepo_Update ?e ?b c1 = (None, c2)" "dbNodes c2 = dbNodes c1" "dbBindings c2 n = Some (binding_row ?b)"
      using assms(2) c1(3) sel(1) by (simp add: bindingRepo_Update_def)
    have "failure_error ?b m = failure_error b m" for m by (simp add: failure_error_def sel(2))
    then show ?thesis using c1(2,3,5) u ex sel(3)
      by (intro exI [of _ "publishBindingEvent ?b ''await_poll_max_attempts_exceeded'' (poll_meta ?b) c2"])
        (simp add: processPollBinding_def Let_def pollable_def publishBindingEvent_def publish_def bstatus_def)
  qed
  with c1 w show ?thesis by blast
qed

text \<open>A tool that is never ready.\<close>

definition idle_services :: poll_services where
  "idle_services = \<lparr>pw_services = sample_services, pw_tools = [''probe'' \<mapsto> (\<lambda>_. (None, [], None))]\<rparr>"

theorem polling_gives_up_witness:
  "\<exists>c1 b1 c2. polls idle_services (Inr True) ''a'' [0, 60]
       ((await_ctx NodeAwaiting)\<lparr>dbBindings := [''a'' \<mapsto> (empty_binding sample_ctx ''a'')\<lparr>ab_Status := AwaitBindingWaiting,
          ab_FallbackPollEnabled := True, ab_FallbackPollTool := Some ''probe'', ab_MaxPollAttempts := 2\<rparr>]\<rparr>) = Ret c1
     \<and> processPollBinding idle_services (Inr True) (Inr True) 120 ''a'' c1 = completed_result (CompleteAwaitNode sample_services (Inr True) ''a''
         (buildAwaitFailurePayload (polled 120 b1)) ''await fallback poll attempts exceeded'' ''poll:max_attempts'' c2)"
proof -
  let ?b = "(empty_binding sample_ctx ''a'')\<lparr>ab_Status := AwaitBindingWaiting, ab_FallbackPollEnabled := True, ab_FallbackPollTool := Some ''probe'', ab_MaxPollAttempts := 2\<rparr>"
  let ?c = "(await_ctx NodeAwaiting)\<lparr>dbBindings := [''a'' \<mapsto> ?b]\<rparr>"
  have trim: "TrimSpace ''probe'' = ''probe''" by code_simp
  have direct: "preferredPollToolAliases ''probe'' = None" by (simp add: preferredPollToolAliases_def)
  have nr: "never_ready idle_services ''probe''"
    by (simp add: never_ready_def executePollTool_def ResolvePreferredPollTool_def Let_def trim direct idle_services_def isTerminalPollError_def)
  have ok: "\<forall>k. db_err (rv_env (pw_services idle_services)) k = None" by (simp add: idle_services_def sample_env_def)
  have b: "dbBindings ?c ''a'' = Some ?b" "ab_NodeName ?b = ''a''" "pollable ''probe'' ?b" "0 < ab_MaxPollAttempts ?b" "ab_PollAttempts ?b + int (length [0, 60 :: int]) = ab_MaxPollAttempts ?b"
    by (simp_all add: empty_binding_def pollable_def)
  have f: "failure_error ?b m = m" for m by (simp add: failure_error_def awaitBoolConfig_def empty_binding_def cfg_def)
  have "pw_services idle_services = sample_services" by (simp add: idle_services_def)
  with polling_gives_up [OF nr ok b, of "Inr True"] f show ?thesis by metis
qed

end
