(* ===== verification/Flux_Redo.thy ===== *)
theory Flux_Redo
  imports Flux_Resume
begin

text \<open>
  Requests to run a finished task again from a node: \<^verbatim>\<open>engine/task_fork.go\<close> creates the fork,
  \<^verbatim>\<open>engine/run_plan_preview.go\<close> shows the plan it would run by without creating it. The columns
  of a task that only the requests copy are kept beside the table, by the id of the row.
\<close>

subsection \<open>The columns of a fork\<close>

record task_meta =
  UserID :: int
  task_Type :: string
  WorkflowDefinitionID :: int
  EditAction :: "string option"
  EditLabel :: "string option"
  PatchJSON :: "runtime_patch list option"
  EntryType :: string
  ToolDefinitionID :: "int option"
  ToolModeID :: "int option"
  ToolModeVersionID :: "int option"
  TemplateID :: "int option"
  TemplateVersionID :: "int option"
  EntryTitle :: "string option"
  EntrySubtitle :: "string option"
  RouteKey :: "string option"
  ModeKey :: "string option"

record fork_db =
  fd_store :: store
  fd_meta :: "int \<Rightarrow> task_meta"

text \<open>
  \<^verbatim>\<open>Create\<close> of the task repository: a second row with the same id is refused by the primary key. The
  output and the error message are not among the columns it writes.
\<close>

definition stored_task :: "task_row \<Rightarrow> task_row" where
  "stored_task t = t\<lparr>OutputJSON := None, ErrorMessage := []\<rparr>"

definition task_Create :: "env \<Rightarrow> task_row \<Rightarrow> task_meta \<Rightarrow> fork_db \<Rightarrow> go_error option \<times> fork_db" where
  "task_Create e t mt db =
     (let st = fd_store db; st1 = st\<lparr>st_writes := Suc (st_writes st)\<rparr>
      in case db_err e (st_writes st) of
           Some m \<Rightarrow> (Some m, db\<lparr>fd_store := st1\<rparr>)
         | None \<Rightarrow>
            if task_id t \<in> task_id ` set (st_tasks st) then (Some ''duplicate key'', db\<lparr>fd_store := st1\<rparr>)
            else (None, \<lparr>fd_store = st1\<lparr>st_tasks := st_tasks st @ [stored_task t]\<rparr>,
                         fd_meta = (fd_meta db)(task_id t := mt)\<rparr>))"

subsection \<open>RedoRun\<close>

definition parseTaskInputOrEmpty :: "gmap option \<Rightarrow> gmap" where
  "parseTaskInputOrEmpty inp = (case inp of None \<Rightarrow> [] | Some m \<Rightarrow> m)"

definition base_run :: "task_row \<Rightarrow> int" where
  "base_run s = (if BaseRunID s = 0 then task_id s else BaseRunID s)"

definition resume_column :: "resume_spec option \<Rightarrow> name option" where
  "resume_column spec = (case spec of None \<Rightarrow> None
     | Some s \<Rightarrow> if rs_ResumeFrom s = [] then None else Some (rs_ResumeFrom s))"

definition patch_column :: "resume_spec option \<Rightarrow> runtime_patch list option" where
  "patch_column spec = (case spec of None \<Rightarrow> None
     | Some s \<Rightarrow> if rs_Patches s = [] then None else Some (rs_Patches s))"

definition fork_row :: "int \<Rightarrow> task_row \<Rightarrow> resume_spec option \<Rightarrow> gmap \<Rightarrow> task_row" where
  "fork_row i s spec inp =
     \<lparr>task_id = i, ParentID = None, RootID = (if RootID s = 0 then task_id s else RootID s), Status = TaskPending,
      InputJSON = Some inp, OutputJSON = None, RetryCount = 0, ErrorMessage = [],
      WorkflowVersionID = WorkflowVersionID s, WorkerID = [], ParentNode = None, MapIndex = None, task_Progress = 0,
      BaseRunID = base_run s, ForkedFrom = Some (task_id s), RunDepth = RunDepth s + 1,
      ResumeFrom = resume_column spec, SubKey = None, EstimatedCostTotal = 0, ActualCostTotal = 0, CostStatus = []\<rparr>"

definition fork_meta :: "task_meta \<Rightarrow> resume_spec option \<Rightarrow> string \<Rightarrow> string \<Rightarrow> task_meta" where
  "fork_meta mt spec action label = mt
     \<lparr>PatchJSON := patch_column spec,
      EditAction := Some (if action \<noteq> [] then action else ''redo_partial''),
      EditLabel := (if label \<noteq> [] then Some label else None)\<rparr>"

text \<open>
  The service's own \<^verbatim>\<open>validateResumeSpec\<close>: what the engine objects to does not count as long as
  the resume node exists.
\<close>

definition redo_validate :: "retry_services \<Rightarrow> task_row \<Rightarrow> resume_spec \<Rightarrow> go_error option" where
  "redo_validate sv s spec =
     (case load_workflow sv (WorkflowVersionID s) of
        Inl m \<Rightarrow> Some m
      | Inr w \<Rightarrow>
         if validateResumeSpec w (Some spec) = None then None
         else if cw_nodes w (rs_ResumeFrom spec) = None
         then Some (''resume_from node not found: '' @ rs_ResumeFrom spec)
         else None)"

definition RedoRun :: "retry_services \<Rightarrow> int \<Rightarrow> resume_spec option \<Rightarrow> gmap \<Rightarrow> string \<Rightarrow> string \<Rightarrow> fork_db
    \<Rightarrow> (go_error + task_row) \<times> fork_db" where
  "RedoRun sv src spec override action label db =
     (case GetByID src (fd_store db) of
        Inl m \<Rightarrow> (Inl m, db)
      | Inr s \<Rightarrow>
         (case (case spec of None \<Rightarrow> None
                | Some sp \<Rightarrow> if rs_ResumeFrom sp = [] then None else redo_validate sv s sp) of
            Some m \<Rightarrow> (Inl m, db)
          | None \<Rightarrow>
             (let inp = overlay (parseTaskInputOrEmpty (InputJSON s)) override;
                  t = fork_row (snow_id (rv_env sv) (st_writes (fd_store db))) s spec inp
              in case task_Create (rv_env sv) t (fork_meta (fd_meta db src) spec action label) db of
                   (Some m, db1) \<Rightarrow> (Inl m, db1)
                 | (None, db1) \<Rightarrow>
                    (case task_Enqueue (rv_env sv) (task_id t) (fd_store db1) of
                       (Some m, st) \<Rightarrow> (Inl m, db1\<lparr>fd_store := st\<rparr>)
                     | (None, st) \<Rightarrow> (Inr t, db1\<lparr>fd_store := st\<rparr>)))))"

subsection \<open>PreviewRunPlan\<close>

text \<open>The parent run as \<^verbatim>\<open>LoadForkParentSnapshot\<close> reads it from the tables.\<close>

definition parent_run :: "store \<Rightarrow> int \<Rightarrow> (task \<times> (name \<rightharpoonup> node_runtime)) option" where
  "parent_run st i = (case GetByID i st of
      Inl _ \<Rightarrow> None
    | Inr t \<Rightarrow> Some (task.truncate t, plain_rows (runtime_map (node_FindByTaskID i st))))"

definition preview_task :: "task_row \<Rightarrow> resume_spec option \<Rightarrow> gmap \<Rightarrow> task" where
  "preview_task s spec inp =
     \<lparr>task_id = 0, ParentID = None, RootID = RootID s, Status = TaskPending, InputJSON = Some inp, OutputJSON = None,
      RetryCount = 0, ErrorMessage = [], WorkflowVersionID = WorkflowVersionID s, WorkerID = [], ParentNode = None,
      MapIndex = None, task_Progress = 0, BaseRunID = base_run s, ForkedFrom = Some (task_id s),
      RunDepth = RunDepth s + 1, ResumeFrom = resume_column spec\<rparr>"

text \<open>A context that only exists in memory: no rows, no queue, nothing written.\<close>

definition memory_ctx :: "workflow_def \<Rightarrow> task \<Rightarrow> run_ctx" where
  "memory_ctx def t = newRunContext def
     \<lparr>Task = t, Input = [], OutNodes = Map.empty, Final = None, Runtime = Map.empty, ActivatedEdges = Map.empty,
      WfName = [], WfNodes = [], WfEdges = [], WfOutput = wf_Output def, dbNodes = Map.empty, dbTask = None,
      dbBindings = Map.empty, subTasks = Map.empty, taskQueue = [], jobs = [], Depth = 0, writes = 0, events = []\<rparr>"

text \<open>The fields that \<^verbatim>\<open>newRunContext\<close> reads off a forked task.\<close>

definition fork_ctx_of :: "runtime_patch list \<Rightarrow> run_ctx \<Rightarrow> fork_ctx" where
  "fork_ctx_of ps c =
     \<lparr>fc_run = c, Patches = ps, fc_ResumeFrom = (case ResumeFrom (Task c) of None \<Rightarrow> [] | Some r \<Rightarrow> r),
      ParentSnapshot = None, PatchedNodes = {}, DirtyNodes = {}, MapItemReuse = Map.empty, InjectedOutputs = Map.empty\<rparr>"

definition patches_in :: "runtime_patch list option \<Rightarrow> runtime_patch list" where
  "patches_in ps = (case ps of None \<Rightarrow> [] | Some xs \<Rightarrow> xs)"

definition PreviewRunPlan :: "retry_services \<Rightarrow> task_row \<Rightarrow> resume_spec option \<Rightarrow> gmap \<Rightarrow> store
    \<Rightarrow> go_error + run_plan \<times> compiled_workflow" where
  "PreviewRunPlan sv s spec override st =
     (case loadWorkflowForTask sv (task.truncate s) of
        Inl m \<Rightarrow> Inl m
      | Inr (def, w) \<Rightarrow>
         (case validateResumeSpec w spec of
            Some m \<Rightarrow> Inl m
          | None \<Rightarrow>
             (let inp = overlay (parseTaskInputOrEmpty (InputJSON s)) override;
                  c = memory_ctx def (preview_task s spec inp)
              in case LoadForkParentSnapshot (parent_run st) (fork_ctx_of (patches_in (patch_column spec)) c) of
                   (Some m, _) \<Rightarrow> Inl m
                 | (None, fc) \<Rightarrow>
                    (case BuildRunPlan (rv_env sv) w (Input c) fc of
                       Inl m \<Rightarrow> Inl m
                     | Inr plan \<Rightarrow> Inr (plan, w)))))"

subsection \<open>Planning does not look at the task it plans for\<close>

text \<open>
  Of a run context the planner reads the input, the outputs and runtimes of the nodes, their
  edges and the names of the workflow's nodes. Contexts that agree on these are planned alike.
\<close>

definition same_view :: "run_ctx \<Rightarrow> run_ctx \<Rightarrow> bool" where
  "same_view a b \<longleftrightarrow> Input a = Input b \<and> OutNodes a = OutNodes b \<and> Runtime a = Runtime b
     \<and> ActivatedEdges a = ActivatedEdges b \<and> WfNodes a = WfNodes b"

definition same_fork_view :: "fork_ctx \<Rightarrow> fork_ctx \<Rightarrow> bool" where
  "same_fork_view a b \<longleftrightarrow> same_view (fc_run a) (fc_run b) \<and> Patches a = Patches b
     \<and> fc_ResumeFrom a = fc_ResumeFrom b \<and> ParentSnapshot a = ParentSnapshot b \<and> PatchedNodes a = PatchedNodes b"

lemma same_view_ops:
  assumes "same_view a b"
  shows "node_out_of a n = node_out_of b n"
    and "same_view (UpdateNodeStatus n s a) (UpdateNodeStatus n s b)"
    and "same_view (set_runtime n rt a) (set_runtime n rt b)"
    and "same_view (ActivatedEdgesMerge m a) (ActivatedEdgesMerge m b)"
    and "rel_prod (=) (rel_prod (=) same_view) (SetNodeOutput n d sch a) (SetNodeOutput n d sch b)"
  using assms
  by (auto simp: same_view_def node_out_of_def UpdateNodeStatus_def set_runtime_def ActivatedEdgesMerge_def
      SetNodeOutput_def split: prod.splits option.splits)

lemma same_view_eval:
  assumes "same_view a b"
  shows "eval e a s = eval e b s"
proof -
  have "node_out_of a = node_out_of b" using same_view_ops(1) [OF assms] by (rule ext)
  then have "expr_node a = expr_node b" "expr_node_output a = expr_node_output b"
    by (simp_all add: fun_eq_iff expr_node_def expr_node_output_def)
  with assms have "buildExprEnv a = buildExprEnv b" "buildExprEnvSchema a = buildExprEnvSchema b"
    by (simp_all add: same_view_def buildExprEnvSchema_def buildExprEnv_def)
  then show ?thesis unfolding eval_def by (simp cong: option.case_cong)
qed

lemma same_view_input:
  assumes "same_view a b"
  shows "buildNodeInput e a nd g = buildNodeInput e b nd g"
proof -
  note ev = same_view_eval [OF assms]
  have c: "config_inputs e a nd kvs acc = config_inputs e b nd kvs acc" for kvs acc
    by (induction kvs arbitrary: acc) (auto simp: ev split: gval.splits sum.splits)
  have m: "mapped_inputs e a ms acc = mapped_inputs e b ms acc" for ms acc
    by (induction ms arbitrary: acc) (auto simp: ev split: sum.splits)
  have p: "parent_value a ps f = parent_value b ps f" for ps f
    by (induction ps) (simp_all add: GetNodeOutput_def same_view_ops(1) [OF assms] split: option.splits)
  have "Input a = Input b" using assms by (simp add: same_view_def)
  then have "fallback_inputs a ps sch acc = fallback_inputs b ps sch acc" for ps sch acc
    by (induction sch arbitrary: acc) (auto simp: p split: option.splits)
  with c m show ?thesis by (simp add: buildNodeInput_def cong: sum.case_cong)
qed

lemma seedPlanningNode_view:
  assumes "same_view a b"
  shows "rel_prod (=) same_view (seedPlanningNode w n prt a) (seedPlanningNode w n prt b)"
proof (cases "cw_nodes w n")
  case None
  with assms show ?thesis by (simp add: seedPlanningNode_def)
next
  case (Some nd)
  let ?f = "\<lambda>c. case Output prt of None \<Rightarrow> (None, [], c) | Some d \<Rightarrow> SetNodeOutput n d (OutputSchema nd) c"
  let ?g = "\<lambda>c. ActivatedEdgesMerge (rt_ActivatedEdges prt) (UpdateNodeStatus n (node_state_str NodeSuccess) c)"
  let ?h = "\<lambda>c. case Runtime c n of None \<Rightarrow> c | Some rt \<Rightarrow> set_runtime n (seeded_rt prt rt) c"
  have "rel_prod (=) (rel_prod (=) same_view) (?f a) (?f b)"
    using assms same_view_ops(5) [OF assms] by (simp split: option.split)
  then obtain m d x y where f: "?f a = (m, d, x)" "?f b = (m, d, y)" "same_view x y"
    by (cases "?f a"; cases "?f b") auto
  have g: "same_view (?g x) (?g y)" using f(3) by (intro same_view_ops)
  then have "Runtime (?g x) n = Runtime (?g y) n" by (simp add: same_view_def)
  with g have "same_view (?h (?g x)) (?h (?g y))" by (auto intro: same_view_ops split: option.split)
  with Some f show ?thesis by (cases m) (simp_all add: seedPlanningNode_def Let_def del: node_state_str.simps)
qed

lemma seed_nodes_view:
  assumes "same_view a b"
  shows "rel_prod (=) same_view (seed_nodes w rows r ns a) (seed_nodes w rows r ns b)"
  using assms
proof (induction ns arbitrary: a b)
  case (Cons n ns)
  have seed: "rel_prod (=) same_view (seedPlanningNode w n prt a) (seedPlanningNode w n prt b)" for prt
    by (rule seedPlanningNode_view [OF Cons.prems])
  show ?case
  proof (cases "rows n")
    case None
    with Cons show ?thesis by simp
  next
    case (Some prt)
    from seed [of prt] obtain m x y where
      "seedPlanningNode w n prt a = (m, x)" "seedPlanningNode w n prt b = (m, y)" "same_view x y"
      by (cases "seedPlanningNode w n prt a"; cases "seedPlanningNode w n prt b") auto
    with Some Cons show ?thesis by (auto split: option.splits)
  qed
qed simp

text \<open>The operations that return an error, a document or a runtime, and the context.\<close>

abbreviation same_result :: "'e \<times> 'd \<times> run_ctx \<Rightarrow> 'e \<times> 'd \<times> run_ctx \<Rightarrow> bool" where
  "same_result \<equiv> rel_prod (=) (rel_prod (=) same_view)"

lemma same_resultE:
  assumes "same_result r s"
  obtains m d x y where "r = (m, d, x)" "s = (m, d, y)" "same_view x y"
  using assms by (cases r; cases s) auto

lemma rebuild_view:
  assumes "same_view a b"
  shows "same_result (rebuildNodeOutputFromCheckpoint e w rt a) (rebuildNodeOutputFromCheckpoint e w rt b)"
proof (cases "cw_nodes w (Name rt)")
  case nd: (Some nd)
  show ?thesis
  proof (cases "checkpointRebuilders (n_Type nd)")
    case f: (Some f)
    show ?thesis
    proof (cases "\<exists>d. f rt = Inr (Some d)")
      case True
      then obtain d where "f rt = Inr (Some d)" by blast
      with nd f same_view_ops(5) [OF assms, of "Name rt" d "OutputSchema nd"] show ?thesis
        by (auto simp: rebuildNodeOutputFromCheckpoint_def Let_def split: option.splits intro: same_view_ops elim!: same_resultE)
    qed (use nd f assms in \<open>auto simp: rebuildNodeOutputFromCheckpoint_def split: sum.splits option.splits\<close>)
  qed (use nd assms in \<open>simp add: rebuildNodeOutputFromCheckpoint_def\<close>)
qed (use assms in \<open>simp add: rebuildNodeOutputFromCheckpoint_def\<close>)

lemma patch_checkpoint_view:
  assumes "same_view a b"
  shows "same_result (patch_node_checkpoint e w rt p a) (patch_node_checkpoint e w rt p b)"
proof -
  obtain r doc where ap: "applyPatchToMap (non_nil (Checkpoint rt)) p = (r, doc)" by fastforce
  from rebuild_view [OF assms, of e w "rt\<lparr>Checkpoint := doc\<rparr>"] obtain m d x y where
    "rebuildNodeOutputFromCheckpoint e w (rt\<lparr>Checkpoint := doc\<rparr>) a = (m, d, x)"
    "rebuildNodeOutputFromCheckpoint e w (rt\<lparr>Checkpoint := doc\<rparr>) b = (m, d, y)" "same_view x y" by (rule same_resultE)
  with ap assms show ?thesis by (auto simp: patch_node_checkpoint_def split: option.splits)
qed

lemma patch_output_view:
  assumes "same_view a b"
  shows "same_result (patch_node_output e w rt p a) (patch_node_output e w rt p b)"
proof -
  obtain r doc where ap: "applyPatchToMap (non_nil (Output rt)) p = (r, doc)" by fastforce
  show ?thesis
  proof (cases "cw_nodes w (p_Node p)")
    case (Some nd)
    from same_view_ops(5) [OF assms, of "p_Node p" "the doc" "OutputSchema nd"] obtain m d x y where
      "SetNodeOutput (p_Node p) (the doc) (OutputSchema nd) a = (m, d, x)"
      "SetNodeOutput (p_Node p) (the doc) (OutputSchema nd) b = (m, d, y)" "same_view x y" by (rule same_resultE)
    with Some ap assms show ?thesis by (auto simp: patch_node_output_def split: option.splits)
  qed (use ap assms in \<open>auto simp: patch_node_output_def split: option.splits\<close>)
qed

lemma patch_memory_view:
  assumes "same_fork_view a b"
  shows "rel_prod (=) (rel_prod (=) same_fork_view) (applySinglePatchInMemory e w rt p a) (applySinglePatchInMemory e w rt p b)"
proof -
  let ?f = "\<lambda>c. if p_Target p = PatchTargetNodeOutput then patch_node_output e w rt p c else patch_node_checkpoint e w rt p c"
  have v: "same_view (fc_run a) (fc_run b)" using assms by (simp add: same_fork_view_def)
  have "same_result (?f (fc_run a)) (?f (fc_run b))"
    using patch_output_view [OF v] patch_checkpoint_view [OF v] by simp
  then obtain m d x y where f: "?f (fc_run a) = (m, d, x)" "?f (fc_run b) = (m, d, y)" "same_view x y" by (rule same_resultE)
  show ?thesis unfolding applySinglePatchInMemory_def f(1,2)
    using f(3) assms by (cases m) (auto simp: same_fork_view_def)
qed

lemma put_rt_view: "same_fork_view a b \<Longrightarrow> same_fork_view (put_rt n rt a) (put_rt n rt b)"
  by (auto simp: same_fork_view_def put_rt_def intro: same_view_ops)

lemma plan_patches_view:
  assumes "same_fork_view a b"
  shows "rel_prod (=) same_fork_view (plan_patches e w ps a) (plan_patches e w ps b)"
  using assms
proof (induction ps arbitrary: a b)
  case (Cons p ps)
  have rt: "Runtime (fc_run a) (p_Node p) = Runtime (fc_run b) (p_Node p)"
    using Cons.prems by (simp add: same_fork_view_def same_view_def)
  show ?case
  proof (cases "Runtime (fc_run b) (p_Node p)")
    case None
    with rt Cons.prems show ?thesis by simp
  next
    case (Some r)
    from patch_memory_view [OF Cons.prems, of e w r p] obtain m d x y where
      f: "applySinglePatchInMemory e w r p a = (m, d, x)" "applySinglePatchInMemory e w r p b = (m, d, y)" "same_fork_view x y"
      by (cases "applySinglePatchInMemory e w r p a"; cases "applySinglePatchInMemory e w r p b") auto
    from put_rt_view [OF f(3)] f Some rt Cons show ?thesis by (auto split: option.split)
  qed
qed simp

text \<open>Two forks of the same run that agree on what is read are planned alike, up to the id of the task.\<close>

definition planned_alike :: "fork_ctx \<Rightarrow> fork_ctx \<Rightarrow> bool" where
  "planned_alike a b \<longleftrightarrow> WfNodes (fc_run a) = WfNodes (fc_run b) \<and> Patches a = Patches b
     \<and> fc_ResumeFrom a = fc_ResumeFrom b \<and> ParentSnapshot a = ParentSnapshot b
     \<and> WorkflowVersionID (Task (fc_run a)) = WorkflowVersionID (Task (fc_run b))
     \<and> ForkedFrom (Task (fc_run a)) = ForkedFrom (Task (fc_run b))"

lemma newPlanningContext_alike:
  assumes "planned_alike a b"
  shows "rel_sum (=) same_fork_view (newPlanningContext e w inp a) (newPlanningContext e w inp b)"
proof (cases "ParentSnapshot b")
  case None
  with assms show ?thesis by (simp add: newPlanningContext_def planned_alike_def)
next
  case (Some sn)
  have "same_view (blank_planning w inp (fc_run a)) (blank_planning w inp (fc_run b))"
    using assms by (simp add: same_view_def blank_planning_def planned_alike_def)
  from seed_nodes_view [OF this, of w "sn_Nodes sn" "fc_ResumeFrom b" "cw_order w"] obtain m x y where
    s: "seed_nodes w (sn_Nodes sn) (fc_ResumeFrom b) (cw_order w) (blank_planning w inp (fc_run a)) = (m, x)"
      "seed_nodes w (sn_Nodes sn) (fc_ResumeFrom b) (cw_order w) (blank_planning w inp (fc_run b)) = (m, y)" "same_view x y"
    by (auto simp: rel_prod_conv split: prod.splits)
  with assms have v: "same_fork_view (a\<lparr>fc_run := x, PatchedNodes := {}\<rparr>) (b\<lparr>fc_run := y, PatchedNodes := {}\<rparr>)"
    by (simp add: same_fork_view_def planned_alike_def)
  then have "rel_prod (=) same_fork_view (applyPatchesToPlanningContext e w (a\<lparr>fc_run := x, PatchedNodes := {}\<rparr>))
     (applyPatchesToPlanningContext e w (b\<lparr>fc_run := y, PatchedNodes := {}\<rparr>))"
    using plan_patches_view [OF v, of e w "Patches b"] by (simp add: applyPatchesToPlanningContext_def same_fork_view_def)
  then obtain m2 u v where "applyPatchesToPlanningContext e w (a\<lparr>fc_run := x, PatchedNodes := {}\<rparr>) = (m2, u)"
      "applyPatchesToPlanningContext e w (b\<lparr>fc_run := y, PatchedNodes := {}\<rparr>) = (m2, v)" "same_fork_view u v"
    by (auto simp: rel_prod_conv split: prod.splits)
  with s Some assms show ?thesis
    by (auto simp: newPlanningContext_def planned_alike_def split: option.split)
qed

lemma single_plan_view:
  assumes "planned_alike a b" and "same_fork_view pa pb"
  shows "buildSingleNodePlan e a pa w sn plans n = buildSingleNodePlan e b pb w sn plans n"
proof -
  have "same_view (fc_run pa) (fc_run pb)" using assms(2) by (simp add: same_fork_view_def)
  from same_view_input [OF this] have "buildNodeInput e (fc_run pa) nd g = buildNodeInput e (fc_run pb) nd g" for nd g .
  moreover have "plan_hash e a = plan_hash e b" using assms(1) by (simp add: plan_hash_def fun_eq_iff planned_alike_def)
  ultimately show ?thesis using assms
    by (simp add: buildSingleNodePlan_def planned_alike_def same_fork_view_def cong: option.case_cong sum.case_cong if_cong)
qed

lemma plan_nodes_view:
  assumes "planned_alike a b" and "same_fork_view pa pb"
  shows "plan_nodes e a pa w sn ns plans = plan_nodes e b pb w sn ns plans"
  by (induction ns arbitrary: plans) (auto simp: single_plan_view [OF assms] split: sum.split)

lemma fill_view:
  assumes "same_view x y"
  shows "fillRunPlanMapItemReuse e x w sn = fillRunPlanMapItemReuse e y w sn"
proof -
  have i: "item_reuse e x = item_reuse e y"
    unfolding item_reuse_def same_view_eval [OF assms] ..
  have "fill_item e x w sn = fill_item e y w sn" unfolding fill_item_def i ..
  then show ?thesis by (intro ext) (simp add: fillRunPlanMapItemReuse_def)
qed

lemma BuildRunPlan_view:
  assumes "planned_alike a b"
  shows "BuildRunPlan e w inp a = map_sum id (\<lambda>p. p\<lparr>rp_TaskID := task_id (Task (fc_run a))\<rparr>) (BuildRunPlan e w inp b)"
proof (cases "ParentSnapshot b")
  case None
  with assms show ?thesis by (simp add: BuildRunPlan_def planned_alike_def Let_def)
next
  case (Some sn)
  let ?rows = "sn_Nodes sn" and ?r = "fc_ResumeFrom b"
  have sel: "ParentSnapshot a = Some sn" "fc_ResumeFrom a = ?r" "ForkedFrom (Task (fc_run a)) = ForkedFrom (Task (fc_run b))"
    using assms Some by (simp_all add: planned_alike_def)
  have pc: "rel_sum (=) same_fork_view (newPlanningContext e w inp a) (newPlanningContext e w inp b)"
    by (rule newPlanningContext_alike [OF assms])
  show ?thesis
  proof (cases "newPlanningContext e w inp b")
    case (Inl m)
    with pc have "newPlanningContext e w inp a = Inl m" by (cases "newPlanningContext e w inp a") auto
    with Inl Some sel show ?thesis by (auto simp: BuildRunPlan_def Let_def split: option.split list.split)
  next
    case (Inr pb)
    with pc obtain pa where pa: "newPlanningContext e w inp a = Inr pa" and v: "same_fork_view pa pb"
      by (cases "newPlanningContext e w inp a") auto
    have "same_view (fc_run pa) (fc_run pb)" using v by (simp add: same_fork_view_def)
    from fill_view [OF this, of e w sn] plan_nodes_view [OF assms v, of e w sn] pa Inr Some sel show ?thesis
      by (auto simp: BuildRunPlan_def Let_def split: option.split list.split sum.split)
  qed
qed

subsection \<open>What a request leaves in the tables\<close>

lemma memory_ctx_sel [simp]:
  "Task (memory_ctx def t) = t" "Input (memory_ctx def t) = parseTaskInputOrEmpty (InputJSON t)"
  "WfNodes (memory_ctx def t) = map nd_Name (wf_Nodes def)"
  by (simp_all add: memory_ctx_def newRunContext_def parseTaskInputOrEmpty_def)

text \<open>What the task of the preview and the row of the fork have in common.\<close>

lemma fork_fields [simp]:
  "ForkedFrom (preview_task s spec inp) = Some (task_id s)" "ForkedFrom (fork_row i s spec inp) = Some (task_id s)"
  "ResumeFrom (preview_task s spec inp) = resume_column spec" "ResumeFrom (fork_row i s spec inp) = resume_column spec"
  "WorkflowVersionID (preview_task s spec inp) = WorkflowVersionID s" "WorkflowVersionID (fork_row i s spec inp) = WorkflowVersionID s"
  "InputJSON (preview_task s spec inp) = Some inp" "InputJSON (fork_row i s spec inp) = Some inp"
  "task_id (fork_row i s spec inp) = i"
  by (simp_all add: preview_task_def fork_row_def)

lemma GetByID_id: "GetByID i st = Inr s \<Longrightarrow> task_id s = i"
  by (drule GetByID_Inr) (auto simp: loaded_def)

text \<open>
  An accepted request adds one pending row and its columns, and puts the id at the end of the queue;
  the rows that were there, and all nodes, stay as they are.
\<close>

definition redo_added :: "int \<Rightarrow> task_row \<Rightarrow> task_meta \<Rightarrow> fork_db \<Rightarrow> fork_db \<Rightarrow> bool" where
  "redo_added i t mt db db' \<longleftrightarrow> i \<notin> task_ids (fd_store db) \<and> st_tasks (fd_store db') = st_tasks (fd_store db) @ [t]
     \<and> fd_meta db' = (fd_meta db)(i := mt) \<and> st_nodes (fd_store db') = st_nodes (fd_store db)
     \<and> st_binds (fd_store db') = st_binds (fd_store db) \<and> st_queue (fd_store db') = st_queue (fd_store db) @ [i]"

lemma RedoRun_accepted:
  assumes "RedoRun sv src spec override action label db = (Inr t, db')" and "GetByID src (fd_store db) = Inr s"
  shows "\<exists>i. t = fork_row i s spec (overlay (parseTaskInputOrEmpty (InputJSON s)) override)"
    and "redo_added (task_id t) t (fork_meta (fd_meta db src) spec action label) db db'"
proof -
  let ?i = "snow_id (rv_env sv) (st_writes (fd_store db))"
  let ?t = "fork_row ?i s spec (overlay (parseTaskInputOrEmpty (InputJSON s)) override)"
  let ?mt = "fork_meta (fd_meta db src) spec action label"
  from assms obtain db1 st where c: "task_Create (rv_env sv) ?t ?mt db = (None, db1)"
    and q: "task_Enqueue (rv_env sv) (task_id ?t) (fd_store db1) = (None, st)" and t: "t = ?t" and db': "db' = db1\<lparr>fd_store := st\<rparr>"
    by (auto simp: RedoRun_def Let_def split: option.splits prod.splits if_splits)
  have i: "task_id ?t = ?i" and s: "stored_task ?t = ?t" by (simp_all add: fork_row_def stored_task_def)
  show "\<exists>i. t = fork_row i s spec (overlay (parseTaskInputOrEmpty (InputJSON s)) override)" using t by blast
  show "redo_added (task_id t) t ?mt db db'"
    using c q s unfolding redo_added_def t db' i task_Enqueue_def
    by (auto simp: task_Create_def Let_def task_ids_def i dest!: db_write_ok split: option.splits if_splits)
qed

lemma redo_parent_run:
  assumes "redo_added i t mt db db'" and "GetByID src (fd_store db) = Inr s"
  shows "parent_run (fd_store db') src = parent_run (fd_store db) src"
proof -
  from assms(2) obtain r where r: "List.find (\<lambda>t. task_id t = src) (st_tasks (fd_store db)) = Some r" and s: "s = loaded r"
    by (auto simp: GetByID_def split: option.splits)
  have "List.find P (xs @ ys) = (case List.find P xs of None \<Rightarrow> List.find P ys | Some x \<Rightarrow> Some x)" for P and xs ys :: "task_row list"
    by (induction xs) auto
  with r s assms have "GetByID src (fd_store db') = Inr s" by (simp add: GetByID_def redo_added_def)
  with assms show ?thesis by (simp add: parent_run_def node_FindByTaskID_def redo_added_def)
qed

lemma fork_planning_split:
  "fork_planning e db ps w c =
    (case LoadForkParentSnapshot db (fork_ctx_of ps c) of
       (Some m, fc) \<Rightarrow> (Some m, fc_run fc)
     | (None, fc) \<Rightarrow>
        (case BuildRunPlan e w (Input c) fc of
           Inl m \<Rightarrow> (Some m, fc_run fc)
         | Inr plan \<Rightarrow> (case MaterializeRunPlan e w plan fc of (r, fc2) \<Rightarrow> (r, fc_run fc2))))"
  by (simp add: fork_planning_def fork_ctx_of_def)

subsection \<open>A sample request\<close>

text \<open>The run of two nodes is started again from the second, with a patch of the first.\<close>

definition redo_def :: workflow_def where
  "redo_def = chain2\<lparr>wf_Nodes := [sample_node ''a'' ''start'' [], sample_node ''b'' ''end'' []]\<rparr>"

definition redo_services :: retry_services where
  "redo_services = \<lparr>rv_env = sample_env True, rv_version = (\<lambda>_. Inr redo_def), rv_registry = sample_registry,
     rv_orders = (\<lambda>_. ([''a'', ''b''], [''a'', ''b''])), rv_range = (\<lambda>m. filter (\<lambda>n. m n \<noteq> None) [''a'', ''b'']),
     rv_visit = (\<lambda>S. filter (\<lambda>n. n \<in> S) [''a'', ''b''])\<rparr>"

definition redo_node :: "int \<Rightarrow> name \<Rightarrow> node_row" where
  "redo_node k n = node_runtime.extend (the (parent_rows (Some [(''x'', VInt 1)]) n))
     \<lparr>node_id = k, node_TaskID = 1, LastHeartbeat = None\<rparr>"

definition redo_db :: fork_db where
  "redo_db = \<lparr>fd_store = \<lparr>st_tasks = [sample_row 1 None TaskSuccess], st_nodes = [redo_node 10 ''a'', redo_node 11 ''b''],
       st_binds = [], st_queue = [], st_events = [], st_writes = 0\<rparr>,
     fd_meta = (\<lambda>_. \<lparr>UserID = 3, task_Type = ''x'', WorkflowDefinitionID = 1, EditAction = None, EditLabel = None, PatchJSON = None,
       EntryType = [], ToolDefinitionID = None, ToolModeID = None, ToolModeVersionID = None, TemplateID = None,
       TemplateVersionID = None, EntryTitle = None, EntrySubtitle = None, RouteKey = None, ModeKey = None\<rparr>)\<rparr>"

lemma redo_sample:
  "case RedoRun redo_services 1 (Some resume_b) [(''k'', VInt 2)] [] [] redo_db of
     (Inr t, db') \<Rightarrow>
       (case load_workflow redo_services 1 of
          Inr w \<Rightarrow> validateResumeSpec w (Some resume_b) = None
            \<and> fst (loadOrInitRuntime (sample_env True) w (newRunContext redo_def (memory_ctx redo_def (task.truncate t)))) = None
        | Inl _ \<Rightarrow> False)
   | _ \<Rightarrow> False"
  by code_simp

lemma preview_sample:
  "case PreviewRunPlan redo_services (loaded (sample_row 1 None TaskSuccess)) (Some resume_b) [(''k'', VInt 2)] (fd_store redo_db) of
     Inr (plan, w) \<Rightarrow> map_option np_Action (rp_Nodes plan ''a'') = Some PlanActionPatch
   | _ \<Rightarrow> False"
  by code_simp

text \<open>
  A patch behind the resume node is refused by the engine and by the preview, but the request is
  accepted: the service falls back to its own check whenever the engine's fails.
\<close>

lemma redo_accepts_refused_patch:
  "let spec = Some (resume_b\<lparr>rs_ResumeFrom := ''a'', rs_Patches := [patch_a\<lparr>p_Node := ''b''\<rparr>]\<rparr>)
   in \<not> isl (fst (RedoRun redo_services 1 spec [] [] [] redo_db))
      \<and> isl (PreviewRunPlan redo_services (loaded (sample_row 1 None TaskSuccess)) spec [] (fd_store redo_db))"
  by code_simp

subsection \<open>Properties\<close>

text \<open>
  C16. The preview shows the plan that the fork runs by. If a request is accepted and passes the
  validation of the engine, then the planning of the new task, when it is first loaded, fails
  with the error the preview reported, or materialises exactly the plan the preview returned,
  under the id of the new task. The preview itself creates and writes nothing.
\<close>

theorem preview_shows_plan:
  assumes "RedoRun sv src spec override action label db = (Inr t, db')" and "GetByID src (fd_store db) = Inr s"
    and "loadWorkflowForTask sv (task.truncate s) = Inr (def, w)" and "validateResumeSpec w spec = None"
    and "Task c = task.truncate t" and "loadOrInitRuntime (rv_env sv) w (newRunContext def c) = (None, c1)"
    and "ps = patches_in (PatchJSON (fd_meta db' (task_id t)))"
  shows "fork_planning (rv_env sv) (parent_run (fd_store db')) ps w c1 =
     (case PreviewRunPlan sv s spec override (fd_store db) of
        Inl m \<Rightarrow> (Some m, c1)
      | Inr (plan, _) \<Rightarrow>
         (case MaterializeRunPlan (rv_env sv) w (plan\<lparr>rp_TaskID := task_id t\<rparr>)
                 (snd (LoadForkParentSnapshot (parent_run (fd_store db')) (fork_ctx_of ps c1))) of
            (r, fc) \<Rightarrow> (r, fc_run fc)))"
proof -
  let ?inp = "overlay (parseTaskInputOrEmpty (InputJSON s)) override"
  let ?p = "memory_ctx def (preview_task s spec ?inp)"
  obtain i where t: "t = fork_row i s spec ?inp" using RedoRun_accepted(1) [OF assms(1,2)] by blast
  note add = RedoRun_accepted(2) [OF assms(1,2)]
  have src: "task_id s = src" by (rule GetByID_id [OF assms(2)])
  have ps: "ps = patches_in (patch_column spec)" using add assms(7) by (simp add: redo_added_def fork_meta_def)
  from loadOrInitRuntime_run [OF assms(6)] have c1: "Task c1 = task.truncate t" "Input c1 = ?inp" "WfNodes c1 = map nd_Name (wf_Nodes def)"
    by (simp_all add: newRunContext_def assms(5) task.defs t)
  have inp: "parseTaskInputOrEmpty (Some ?inp) = ?inp" by (simp add: parseTaskInputOrEmpty_def)
  let ?db = "parent_run (fd_store db)" and ?db' = "parent_run (fd_store db')"
  have db: "?db' src = ?db src" by (rule redo_parent_run [OF add assms(2)])
  have fork: "ForkedFrom (Task c1) = Some src" "ForkedFrom (Task ?p) = Some src"
    by (simp_all add: c1 task.defs t src)
  have alike: "planned_alike (fork_ctx_of ps c1\<lparr>ParentSnapshot := x\<rparr>) (fork_ctx_of ps ?p\<lparr>ParentSnapshot := x\<rparr>)" for x
    using fork by (simp add: planned_alike_def fork_ctx_of_def c1 task.defs t)
  have prev: "PreviewRunPlan sv s spec override (fd_store db) =
     (case LoadForkParentSnapshot ?db (fork_ctx_of ps ?p) of
        (Some m, _) \<Rightarrow> Inl m
      | (None, fc) \<Rightarrow> (case BuildRunPlan (rv_env sv) w ?inp fc of Inl m \<Rightarrow> Inl m | Inr plan \<Rightarrow> Inr (plan, w)))"
    by (simp add: PreviewRunPlan_def assms(3,4) ps Let_def inp cong: prod.case_cong option.case_cong)
  show ?thesis
  proof (cases "?db src")
    case None
    then show ?thesis
      unfolding prev fork_planning_split by (simp add: LoadForkParentSnapshot_def fork_ctx_of_def fork db src)
  next
    case (Some tr)
    obtain pt rows where tr: "tr = (pt, rows)" by force
    let ?sn = "Some \<lparr>sn_TaskID = task_id pt, sn_Nodes = rows, sn_Output = OutputJSON pt\<rparr>"
    have l: "LoadForkParentSnapshot ?db (fork_ctx_of ps ?p) = (None, (fork_ctx_of ps ?p)\<lparr>ParentSnapshot := ?sn\<rparr>)"
      "LoadForkParentSnapshot ?db' (fork_ctx_of ps c1) = (None, (fork_ctx_of ps c1)\<lparr>ParentSnapshot := ?sn\<rparr>)"
      using Some db fork by (simp_all add: LoadForkParentSnapshot_def fork_ctx_of_def tr)
    have "task_id (Task c1) = task_id t" by (simp add: c1 task.defs)
    with BuildRunPlan_view [OF alike, of "rv_env sv" w ?inp ?sn] show ?thesis
      unfolding prev fork_planning_split l c1(2)
      by (cases "BuildRunPlan (rv_env sv) w ?inp (fork_ctx_of ps ?p\<lparr>ParentSnapshot := ?sn\<rparr>)") (simp_all add: fork_ctx_of_def)
  qed
qed

theorem preview_shows_plan_witness:
  "\<exists>t db' plan w c1 fc. RedoRun redo_services 1 (Some resume_b) [(''k'', VInt 2)] [] [] redo_db = (Inr t, db')
     \<and> PreviewRunPlan redo_services (loaded (sample_row 1 None TaskSuccess)) (Some resume_b) [(''k'', VInt 2)] (fd_store redo_db) = Inr (plan, w)
     \<and> map_option np_Action (rp_Nodes plan ''a'') = Some PlanActionPatch
     \<and> fork_planning (sample_env True) (parent_run (fd_store db')) [patch_a] w c1
         = (case MaterializeRunPlan (sample_env True) w (plan\<lparr>rp_TaskID := task_id t\<rparr>) fc of (r, fc) \<Rightarrow> (r, fc_run fc))"
proof -
  let ?s = "loaded (sample_row 1 None TaskSuccess)" and ?sv = redo_services
  obtain t db' w where r: "RedoRun ?sv 1 (Some resume_b) [(''k'', VInt 2)] [] [] redo_db = (Inr t, db')"
    and w: "load_workflow ?sv 1 = Inr w" "validateResumeSpec w (Some resume_b) = None"
    and l: "fst (loadOrInitRuntime (sample_env True) w (newRunContext redo_def (memory_ctx redo_def (task.truncate t)))) = None"
    using redo_sample by (auto split: prod.splits sum.splits)
  from l obtain c1 where c1: "loadOrInitRuntime (sample_env True) w (newRunContext redo_def (memory_ctx redo_def (task.truncate t))) = (None, c1)"
    by (metis prod.collapse)
  obtain plan w' where p: "PreviewRunPlan ?sv ?s (Some resume_b) [(''k'', VInt 2)] (fd_store redo_db) = Inr (plan, w')"
    "map_option np_Action (rp_Nodes plan ''a'') = Some PlanActionPatch"
    using preview_sample by (auto split: prod.splits sum.splits)
  have s: "GetByID 1 (fd_store redo_db) = Inr ?s" by (simp add: GetByID_def redo_db_def)
  have v: "WorkflowVersionID ?s = 1" by (simp add: loaded_def sample_row_def task.defs task_row.defs sample_task_def)
  have d: "loadWorkflowForTask ?sv (task.truncate ?s) = Inr (redo_def, w)"
    using w(1) v by (simp add: loadWorkflowForTask_def task.defs) (simp add: redo_services_def)
  then have w': "w' = w" using p(1) by (auto simp: PreviewRunPlan_def Let_def split: option.splits prod.splits sum.splits)
  have e: "rv_env ?sv = sample_env True" by (simp add: redo_services_def)
  have ps: "[patch_a] = patches_in (PatchJSON (fd_meta db' (task_id t)))"
    using RedoRun_accepted(2) [OF r s] by (simp add: redo_added_def fork_meta_def patch_column_def resume_b_def patches_in_def)
  from preview_shows_plan [OF r s d w(2) _ _ ps, of "memory_ctx redo_def (task.truncate t)" c1] c1 r p
  show ?thesis by (auto simp: e w')
qed

end
