(* ===== verification/Flux_Scanner.thy ===== *)
theory Flux_Scanner
  imports Flux_Retry Flux_Loop_Step
begin

text \<open>
  \<^verbatim>\<open>worker/recovery_scanner.go\<close>: one pass of the recovery scanner over the database. Nodes without
  a recent heartbeat are taken as left behind by a stopped process; their tasks are prepared for
  another run and queued, up to the limit of automatic retries.
\<close>

subsection \<open>The query\<close>

definition Hour :: int where "Hour = 3600000000000"

definition before_time :: "int \<Rightarrow> int option \<Rightarrow> bool" where
  "before_time x a \<longleftrightarrow> (case a of None \<Rightarrow> False | Some t \<Rightarrow> t < x)"

text \<open>A comparison with a missing time is not true in SQL; the rows come in the order of the table.\<close>

definition expired_node :: "int \<Rightarrow> int \<Rightarrow> node_row \<Rightarrow> bool" where
  "expired_node now expire r \<longleftrightarrow>
     State r \<in> {NodeRunning, NodeRetrying, NodeSuccessPendingEdges, NodeFailedPendingEdges}
     \<and> (LastHeartbeat r \<noteq> None \<and> before_time expire (LastHeartbeat r) \<or> LastHeartbeat r = None \<and> before_time expire (StartedAt r))
     \<and> (case StartedAt r of None \<Rightarrow> False | Some t \<Rightarrow> now - 24 * Hour < t)"

definition FindExpiredRunningNodes :: "int \<Rightarrow> int \<Rightarrow> store \<Rightarrow> node_row list" where
  "FindExpiredRunningNodes now expire st = take 100 (filter (expired_node now expire) (st_nodes st))"

subsection \<open>Single steps\<close>

text \<open>Errors of the database are logged and the pass goes on. An event carries no message in the model.\<close>

definition push_event :: "event \<Rightarrow> store \<Rightarrow> store" where
  "push_event ev st = st\<lparr>st_events := st_events st @ [ev]\<rparr>"

definition canceled_node :: "int \<Rightarrow> node_row \<Rightarrow> node_row" where
  "canceled_node now r = r\<lparr>State := (if State r = NodeSuccessPendingEdges then NodeSuccess else NodeCanceled),
     FinishedAt := Some now, LastHeartbeat := None\<rparr>"

definition cancelRunningNode :: "env \<Rightarrow> node_row \<Rightarrow> store \<Rightarrow> node_row \<times> store" where
  "cancelRunningNode e r st =
     (let r' = canceled_node (clock e (st_writes st)) r
      in (r', push_event \<lparr>ev_TaskID = node_TaskID r, ev_RootTaskID = 0, ev_Step = Name r, ev_Type = ''task_failed'', ev_Meta = []\<rparr>
                (snd (node_Update e r' st))))"

definition live_child :: "env \<Rightarrow> task_row \<Rightarrow> store \<Rightarrow> go_error option \<times> store" where
  "live_child e t st = (if Status t = TaskPending then (None, snd (task_Enqueue e (task_id t) st)) else (None, st))"

definition hasLiveChildren :: "env \<Rightarrow> task_row \<Rightarrow> node_row \<Rightarrow> store \<Rightarrow> bool \<times> store" where
  "hasLiveChildren e t r st =
     (let kids = task_ListByParentNode (task_id t) (Name r) st
      in (\<exists>k\<in>set kids. Status k \<in> {TaskPending, TaskRunning, TaskSuspended}, snd (each (live_child e) kids st)))"

definition failed_node :: "int \<Rightarrow> go_error \<Rightarrow> node_row \<Rightarrow> node_row" where
  "failed_node now cause r = r\<lparr>State := NodeFailed, Error := cause, FinishedAt := Some now, LastHeartbeat := None\<rparr>"

definition exhausted_task :: "go_error \<Rightarrow> task_row \<Rightarrow> task_row" where
  "exhausted_task cause t = t\<lparr>Status := TaskFailed, ErrorMessage := cause\<rparr>"

definition failRetryExhausted :: "env \<Rightarrow> task_row \<Rightarrow> node_row \<Rightarrow> go_error \<Rightarrow> store \<Rightarrow> store" where
  "failRetryExhausted e t r cause st =
     (case task_Update e (exhausted_task cause t) (snd (node_Update e (failed_node (clock e (st_writes st)) cause r) st)) of
        (Some m, st') \<Rightarrow> st'
      | (None, st') \<Rightarrow> push_event \<lparr>ev_TaskID = task_id t, ev_RootTaskID = RootID t, ev_Step = Name r, ev_Type = ''task_failed'', ev_Meta = []\<rparr> st')"

definition woken_task :: "task_row \<Rightarrow> task_row" where
  "woken_task t = t\<lparr>Status := TaskPending, ErrorMessage := [], WorkerID := []\<rparr>"

definition requeuePendingEdgesTask :: "env \<Rightarrow> task_row \<Rightarrow> store \<Rightarrow> store" where
  "requeuePendingEdgesTask e t st =
     (case (if Status t = TaskSuspended then task_Update e (woken_task t) st else (None, st)) of
        (Some m, st') \<Rightarrow> st'
      | (None, st') \<Rightarrow> snd (task_Enqueue e (task_id t) st'))"

subsection \<open>The pass\<close>

text \<open>
  The part of the loop body behind the check of the task's status. A canceled task comes here
  too: its case of the switch has no \<^verbatim>\<open>continue\<close>.
\<close>

definition recover_task :: "retry_services \<Rightarrow> task_row \<Rightarrow> node_row \<Rightarrow> store \<Rightarrow> store option" where
  "recover_task sv t r st =
     (let e = rv_env sv
      in if State r = NodeSuccessPendingEdges \<or> State r = NodeFailedPendingEdges then Some (requeuePendingEdgesTask e t st)
         else
           (case (if Status t = TaskRunning \<or> Status t = TaskSuspended then hasLiveChildren e t r st else (False, st)) of
              (True, st1) \<Rightarrow> Some st1
            | (False, st1) \<Rightarrow>
               (case PrepareTaskRetry (Suc (length (st_tasks st1))) sv (task_id t) RetryTriggerRecovery [] [] st1 of
                  None \<Rightarrow> None
                | Some (Some m, st2) \<Rightarrow> Some (if Contains m exhausted_text then failRetryExhausted e t r m st2 else st2)
                | Some (None, st2) \<Rightarrow> Some (snd (task_Enqueue e (task_id t) st2)))))"

text \<open>
  The code also lists the spelling \<^verbatim>\<open>cancelled\<close> beside \<^const>\<open>TaskCanceled\<close>; no status has it.
\<close>

definition scan_node :: "retry_services \<Rightarrow> node_row \<Rightarrow> store \<Rightarrow> store option" where
  "scan_node sv r st =
     (case GetByID (node_TaskID r) st of
        Inl m \<Rightarrow> Some (if m = record_not_found then snd (cancelRunningNode (rv_env sv) r st) else st)
      | Inr t \<Rightarrow>
         (case Status t of
            TaskRunning \<Rightarrow> recover_task sv t r st
          | TaskSuspended \<Rightarrow> recover_task sv t r st
          | TaskCanceled \<Rightarrow> (case cancelRunningNode (rv_env sv) r st of (r', st') \<Rightarrow> recover_task sv t r' st')
          | _ \<Rightarrow> Some st))"

fun scan_nodes :: "retry_services \<Rightarrow> node_row list \<Rightarrow> int set \<Rightarrow> store \<Rightarrow> store option" where
  "scan_nodes sv [] seen st = Some st"
| "scan_nodes sv (r # rs) seen st =
     (if node_TaskID r \<in> seen then scan_nodes sv rs seen st
      else case scan_node sv r st of
          None \<Rightarrow> None
        | Some st' \<Rightarrow> scan_nodes sv rs (insert (node_TaskID r) seen) st')"

definition scan :: "retry_services \<Rightarrow> int \<Rightarrow> store \<Rightarrow> store option" where
  "scan sv timeout st =
     (let now = clock (rv_env sv) (st_writes st)
      in scan_nodes sv (FindExpiredRunningNodes now (now - timeout) st) {} st)"

subsection \<open>What a pass changes\<close>

lemma push_event_sel [simp]:
  "st_tasks (push_event ev st) = st_tasks st" "st_nodes (push_event ev st) = st_nodes st" "st_binds (push_event ev st) = st_binds st"
  "st_queue (push_event ev st) = st_queue st"
  by (simp_all add: push_event_def)

lemma changes_in_push [simp]: "changes_in D st (push_event ev st') = changes_in D st st'"
  by (simp add: changes_in_def)

lemma cancelRunningNode_changes:
  assumes "cancelRunningNode e r st = (r', st')"
  shows "changes_in {node_TaskID r} st st' \<and> node_TaskID r' = node_TaskID r"
proof -
  let ?r = "canceled_node (clock e (st_writes st)) r"
  obtain x st1 where 1: "node_Update e ?r st = (x, st1)" by force
  have id: "node_TaskID ?r = node_TaskID r" by (simp add: canceled_node_def)
  from node_Update_changes_in [OF 1] id assms 1 show ?thesis by (auto simp: cancelRunningNode_def Let_def)
qed

lemma hasLiveChildren_changes:
  assumes "hasLiveChildren e t r st = (b, st')"
  shows "changes_in D st st'"
proof -
  let ?kids = "task_ListByParentNode (task_id t) (Name r) st"
  obtain x where x: "each (live_child e) ?kids st = (x, st')" using assms by (cases "each (live_child e) ?kids st") (auto simp: hasLiveChildren_def Let_def)
  show ?thesis
  proof (rule each_keeps [where P = "\<lambda>s. changes_in D st s", OF _ _ x])
    fix k s y s' assume l: "live_child e k s = (y, s')" and c: "changes_in D st s"
    have "changes_in D s s'"
      using l by (cases "task_Enqueue e (task_id k) s") (auto simp: live_child_def intro: task_Enqueue_changes_in split: if_splits)
    with c show "changes_in D st s'" by (rule changes_in_trans)
  qed simp
qed

lemma failRetryExhausted_changes:
  assumes "same_parent st t" and "node_TaskID r = task_id t"
  shows "changes_in {task_id t} st (failRetryExhausted e t r m st)"
proof -
  obtain x st1 where 1: "node_Update e (failed_node (clock e (st_writes st)) m r) st = (x, st1)" by force
  obtain y st2 where 2: "task_Update e (exhausted_task m t) st1 = (y, st2)" by force
  have c1: "changes_in {task_id t} st st1" using node_Update_changes_in [OF 1] assms(2) by (simp add: failed_node_def)
  have "same_parent st1 (exhausted_task m t)" using assms(1) same_parent_changes_in [OF c1, of t] by (simp add: same_parent_def exhausted_task_def)
  from task_Update_changes_in [OF 2 this] have "changes_in {task_id t} st1 st2" by (simp add: exhausted_task_def)
  with c1 have "changes_in {task_id t} st st2" by (rule changes_in_trans)
  then show ?thesis by (simp add: failRetryExhausted_def 1 2 split: option.split)
qed

lemma requeue_changes:
  assumes "same_parent st t"
  shows "changes_in {task_id t} st (requeuePendingEdgesTask e t st)"
proof -
  obtain x st1 where 1: "(if Status t = TaskSuspended then task_Update e (woken_task t) st else (None, st)) = (x, st1)" by force
  have c: "changes_in {task_id t} st st1"
  proof (cases "Status t = TaskSuspended")
    case True
    moreover have "same_parent st (woken_task t)" using assms by (simp add: same_parent_def woken_task_def)
    ultimately show ?thesis using 1 task_Update_changes_in [of e "woken_task t" st x st1] by (simp add: woken_task_def)
  qed (use 1 in simp)
  obtain y st2 where 2: "task_Enqueue e (task_id t) st1 = (y, st2)" by force
  have "changes_in {task_id t} st st2" by (rule changes_in_trans [OF c task_Enqueue_changes_in [OF 2]])
  with c show ?thesis by (simp add: requeuePendingEdgesTask_def 1 2 split: option.split)
qed

lemma recover_task_changes:
  assumes k: "keys_ok st" and acy: "acyclic (kid_rel st)" and t: "same_parent st t" and i: "node_TaskID r = task_id t"
  obtains st' where "recover_task sv t r st = Some st'" "changes_in (family (task_id t) st) st st'"
proof (cases "State r = NodeSuccessPendingEdges \<or> State r = NodeFailedPendingEdges")
  case True
  have "changes_in (family (task_id t) st) st (requeuePendingEdgesTask (rv_env sv) t st)"
    by (rule changes_in_mono [OF requeue_changes [OF t]]) (simp add: family_kid)
  with True show thesis by (intro that) (simp_all add: recover_task_def Let_def)
next
  case False
  let ?e = "rv_env sv" and ?i = "task_id t" and ?D = "family (task_id t) st"
  obtain live st1 where 1: "(if Status t = TaskRunning \<or> Status t = TaskSuspended then hasLiveChildren ?e t r st else (False, st)) = (live, st1)" by force
  have c1: "changes_in ?D st st1" using 1 hasLiveChildren_changes by (auto split: if_splits)
  show thesis
  proof (cases live)
    case True
    with False 1 c1 show thesis by (intro that) (simp_all add: recover_task_def Let_def)
  next
    case nlive: False
    have k1: "keys_ok st1" and f1: "family j st1 = family j st" and a1: "acyclic (kid_rel st1)" for j
      using changes_in_keys(6) [OF c1] changes_in_kids [OF c1] k acy by simp_all
    obtain x st2 where 2: "PrepareTaskRetry (Suc (length (st_tasks st1))) sv ?i RetryTriggerRecovery [] [] st1 = Some (x, st2)"
      using PrepareTaskRetry_fuel [OF k1 a1 family_card, where i = ?i and sv = sv and trigger = RetryTriggerRecovery and n = "[]" and ps = "[]"] by auto
    have c2: "changes_in ?D st st2" using changes_in_trans [OF c1] PrepareTaskRetry_changes [OF k1 2] by (simp add: f1)
    have t2: "same_parent st2 t" using t same_parent_changes_in [OF c2] by simp
    obtain y st3 where 3: "task_Enqueue ?e ?i st2 = (y, st3)" by force
    have "changes_in ?D st2 (failRetryExhausted ?e t r m st2)" for m
      by (rule changes_in_mono [OF failRetryExhausted_changes [OF t2 i]]) (simp add: family_kid)
    then have "changes_in ?D st (failRetryExhausted ?e t r m st2)" for m by (rule changes_in_trans [OF c2])
    moreover have "changes_in ?D st st3" by (rule changes_in_trans [OF c2 task_Enqueue_changes_in [OF 3]])
    ultimately show thesis using False nlive 1 2 3 c2
      by (cases x) (auto simp: recover_task_def Let_def intro!: that)
  qed
qed

lemma scan_node_changes:
  assumes k: "keys_ok st" and acy: "acyclic (kid_rel st)"
  obtains st' where "scan_node sv r st = Some st'" "changes_in (family (node_TaskID r) st) st st'"
proof -
  let ?i = "node_TaskID r"
  obtain r' st1 where c: "cancelRunningNode (rv_env sv) r st = (r', st1)" by force
  have c1: "changes_in (family ?i st) st st1"
    by (rule changes_in_mono [OF conjunct1 [OF cancelRunningNode_changes [OF c]]]) (simp add: family_kid)
  have r': "node_TaskID r' = ?i" using cancelRunningNode_changes [OF c] by simp
  show thesis
  proof (cases "GetByID ?i st")
    case (Inl m)
    then have "scan_node sv r st = Some (if m = record_not_found then st1 else st)" using c by (simp add: scan_node_def)
    then show thesis by (rule that) (simp add: c1)
  next
    case (Inr t)
    from same_parent_loaded [OF k Inr] have t: "same_parent st t" and id: "task_id t = ?i" by auto
    have k1: "keys_ok st1" and f1: "family j st1 = family j st" and a1: "acyclic (kid_rel st1)" for j
      using changes_in_keys(6) [OF c1] changes_in_kids [OF c1] k acy by simp_all
    obtain s1 where s1: "recover_task sv t r st = Some s1" "changes_in (family (task_id t) st) st s1"
      by (rule recover_task_changes [OF k acy t, of r sv]) (simp add: id)
    obtain s2 where s2: "recover_task sv t r' st1 = Some s2" "changes_in (family (task_id t) st1) st1 s2"
      by (rule recover_task_changes [OF k1 a1, of t r' sv]) (use t same_parent_changes_in [OF c1] r' id in auto)
    have "changes_in (family ?i st) st s2" using changes_in_trans [OF c1] s2(2) id f1 by simp
    with Inr c s1 s2(1) id show thesis by (cases "Status t") (auto simp: scan_node_def intro: that)
  qed
qed

lemma scan_nodes_changes:
  assumes "keys_ok st" and "acyclic (kid_rel st)"
  shows "\<exists>st'. scan_nodes sv rs seen st = Some st' \<and> changes_in (\<Union>r\<in>set rs. family (node_TaskID r) st) st st'"
  using assms
proof (induction rs arbitrary: seen st)
  case (Cons r rs)
  show ?case
  proof (cases "node_TaskID r \<in> seen")
    case True
    with Cons.IH [OF Cons.prems, of seen] show ?thesis by (auto intro: changes_in_mono)
  next
    case False
    obtain st1 where 1: "scan_node sv r st = Some st1" "changes_in (family (node_TaskID r) st) st st1" by (rule scan_node_changes [OF Cons.prems])
    have "keys_ok st1" "acyclic (kid_rel st1)" using changes_in_keys(6) [OF 1(2)] changes_in_kids(1) [OF 1(2)] Cons.prems by simp_all
    from Cons.IH [OF this, of "insert (node_TaskID r) seen"] obtain st2
      where 2: "scan_nodes sv rs (insert (node_TaskID r) seen) st1 = Some st2" "changes_in (\<Union>r\<in>set rs. family (node_TaskID r) st) st1 st2"
      by (auto simp: changes_in_kids(2) [OF 1(2)])
    have "changes_in (\<Union>r\<in>set (r # rs). family (node_TaskID r) st) st st2"
      by (rule changes_in_trans [OF changes_in_mono [OF 1(2)] changes_in_mono [OF 2(2)]]) auto
    with False 1(1) 2(1) show ?thesis by simp
  qed
qed simp

subsection \<open>What a pass keeps\<close>

text \<open>The scanner's own writes, beside those of the retry.\<close>

locale scan_write_invariant = retry_write_invariant +
  assumes exhausted_keeps: "P st \<Longrightarrow> mine t \<Longrightarrow> task_Update e (exhausted_task m t) st = (x, st') \<Longrightarrow> P st'"
    and woken_keeps: "P st \<Longrightarrow> mine t \<Longrightarrow> task_Update e (woken_task t) st = (x, st') \<Longrightarrow> P st'"
    and event_keeps: "P st \<Longrightarrow> P (push_event ev st)"
begin

lemma cancelRunningNode_keeps: "P st \<Longrightarrow> cancelRunningNode e r st = (r', st') \<Longrightarrow> P st'"
  by (cases "node_Update e (canceled_node (clock e (st_writes st)) r) st")
    (auto simp: cancelRunningNode_def Let_def intro: event_keeps node_keeps)

lemma hasLiveChildren_keeps:
  assumes "P st" and "hasLiveChildren e t r st = (b, st')"
  shows "P st'"
proof -
  let ?kids = "task_ListByParentNode (task_id t) (Name r) st"
  obtain x where x: "each (live_child e) ?kids st = (x, st')" using assms(2) by (cases "each (live_child e) ?kids st") (auto simp: hasLiveChildren_def Let_def)
  show ?thesis
  proof (rule each_keeps [where P = P, OF _ assms(1) x])
    fix k s y s' assume "live_child e k s = (y, s')" "P s"
    then show "P s'" by (cases "task_Enqueue e (task_id k) s") (auto simp: live_child_def intro: queue_keeps split: if_splits)
  qed
qed

lemma failRetryExhausted_keeps:
  assumes "P st" and "mine t"
  shows "P (failRetryExhausted e t r m st)"
proof -
  obtain x st1 where 1: "node_Update e (failed_node (clock e (st_writes st)) m r) st = (x, st1)" by force
  obtain y st2 where 2: "task_Update e (exhausted_task m t) st1 = (y, st2)" by force
  have "P st2" by (rule exhausted_keeps [OF node_keeps [OF assms(1) 1] assms(2) 2])
  then show ?thesis by (simp add: failRetryExhausted_def 1 2 event_keeps split: option.split)
qed

lemma requeue_keeps:
  assumes "P st" and "mine t"
  shows "P (requeuePendingEdgesTask e t st)"
proof -
  obtain x st1 where 1: "(if Status t = TaskSuspended then task_Update e (woken_task t) st else (None, st)) = (x, st1)" by force
  then have "P st1" using assms woken_keeps by (auto split: if_splits)
  moreover obtain y st2 where 2: "task_Enqueue e (task_id t) st1 = (y, st2)" by force
  ultimately show ?thesis using queue_keeps [OF _ 2] by (simp add: requeuePendingEdgesTask_def 1 2 split: option.split)
qed

lemma recover_task_keeps:
  assumes sv: "rv_env sv = e" and p: "P st" "mine t" and run: "recover_task sv t r st = Some st'"
  shows "P st'"
proof (cases "State r = NodeSuccessPendingEdges \<or> State r = NodeFailedPendingEdges")
  case True
  with run requeue_keeps [OF p] show ?thesis by (auto simp: recover_task_def sv)
next
  case False
  obtain live st1 where 1: "(if Status t = TaskRunning \<or> Status t = TaskSuspended then hasLiveChildren e t r st else (False, st)) = (live, st1)" by force
  have p1: "P st1" using 1 p hasLiveChildren_keeps by (auto split: if_splits)
  show ?thesis
  proof (cases "live \<or> PrepareTaskRetry (Suc (length (st_tasks st1))) sv (task_id t) RetryTriggerRecovery [] [] st1 = None")
    case True
    with False run 1 p1 show ?thesis by (auto simp: recover_task_def Let_def sv split: bool.splits)
  next
    case ok: False
    then obtain x st2 where 2: "PrepareTaskRetry (Suc (length (st_tasks st1))) sv (task_id t) RetryTriggerRecovery [] [] st1 = Some (x, st2)" by auto
    have p2: "P st2" by (rule PrepareTaskRetry_keeps [OF sv p1 2])
    obtain y st3 where 3: "task_Enqueue e (task_id t) st2 = (y, st3)" by force
    have "P st3" by (rule queue_keeps [OF p2 3])
    with False ok run 1 2 3 p2 failRetryExhausted_keeps [OF p2 p(2)] show ?thesis
      by (cases x) (auto simp: recover_task_def Let_def sv split: if_splits)
  qed
qed

lemma scan_node_keeps:
  assumes sv: "rv_env sv = e" and p: "P st" and run: "scan_node sv r st = Some st'"
  shows "P st'"
proof -
  obtain r' st1 where c: "cancelRunningNode e r st = (r', st1)" by force
  have p1: "P st1" by (rule cancelRunningNode_keeps [OF p c])
  show ?thesis
  proof (cases "GetByID (node_TaskID r) st")
    case (Inl m)
    with run c p p1 show ?thesis by (auto simp: scan_node_def sv split: if_splits)
  next
    case (Inr t)
    show ?thesis
    proof (cases "Status t \<in> {TaskRunning, TaskSuspended, TaskCanceled}")
      case False
      with run Inr p show ?thesis by (cases "Status t") (auto simp: scan_node_def)
    next
      case True
      then have m: "mine t" by (intro loads [OF p Inr]) (auto simp: retryable_def)
      from True run Inr c have "recover_task sv t r st = Some st' \<or> recover_task sv t r' st1 = Some st'" by (auto simp: scan_node_def sv)
      with recover_task_keeps [OF sv _ m] p p1 show ?thesis by blast
    qed
  qed
qed

lemma scan_nodes_keeps:
  assumes sv: "rv_env sv = e"
  shows "P st \<Longrightarrow> scan_nodes sv rs seen st = Some st' \<Longrightarrow> P st'"
  by (induction rs arbitrary: seen st) (auto split: if_splits option.splits dest: scan_node_keeps [OF sv])

end

interpretation scan_counts: scan_write_invariant e counts_ok "\<lambda>t. 0 \<le> RetryCount t \<and> RetryCount t \<le> MaxAutoRetryCount" for e
proof (unfold_locales)
  fix st st' x
  have upd: "counts_ok st'" if "counts_ok st" "task_Update e t st = (x, st')" "0 \<le> RetryCount t" "RetryCount t \<le> MaxAutoRetryCount" for t
    using that(2) unfolding task_Update_def
    by (rule db_write_keeps) (use that in \<open>auto simp: counts_ok_def task_put_def dest!: table_update_elem\<close>)
  assume p: "counts_ok st"
  show "0 \<le> RetryCount t \<and> RetryCount t \<le> MaxAutoRetryCount \<Longrightarrow> task_Update e (exhausted_task m t) st = (x, st') \<Longrightarrow> counts_ok st'" for t m
    using upd [OF p, of "exhausted_task m t"] by (simp add: exhausted_task_def)
  show "0 \<le> RetryCount t \<and> RetryCount t \<le> MaxAutoRetryCount \<Longrightarrow> task_Update e (woken_task t) st = (x, st') \<Longrightarrow> counts_ok st'" for t
    using upd [OF p, of "woken_task t"] by (simp add: woken_task_def)
  show "counts_ok (push_event ev st)" for ev using p by (simp add: counts_ok_def)
qed

interpretation scan_finished: scan_write_invariant e "finished_kept st0" "not_finished st0" for e st0
proof (unfold_locales)
  fix st st' x
  have upd: "finished_kept st0 st'" if "finished_kept st0 st" "task_Update e t st = (x, st')" "not_finished st0 t" for t
    using that(2) unfolding task_Update_def
    by (rule db_write_keeps)
      (use that in \<open>auto simp: finished_kept_def not_finished_def task_table.update_keys, auto simp: table_update_def image_iff\<close>)
  assume p: "finished_kept st0 st"
  show "not_finished st0 t \<Longrightarrow> task_Update e (exhausted_task m t) st = (x, st') \<Longrightarrow> finished_kept st0 st'" for t m
    using upd [OF p, of "exhausted_task m t"] by (simp add: exhausted_task_def not_finished_def)
  show "not_finished st0 t \<Longrightarrow> task_Update e (woken_task t) st = (x, st') \<Longrightarrow> finished_kept st0 st'" for t
    using upd [OF p, of "woken_task t"] by (simp add: woken_task_def not_finished_def)
  show "finished_kept st0 (push_event ev st)" for ev using p by (simp add: finished_kept_def)
qed

text \<open>
  C31. A pass of the recovery scanner ends and does no harm: it changes rows only of tasks that have
  an expired node and of their descendants, keeps every retry count within its bounds, and leaves
  the rows of successful tasks alone; whatever the definitions and failing writes.
\<close>

theorem scan_contained:
  assumes "keys_ok st" and "acyclic (kid_rel st)" and "counts_ok st"
  shows "\<exists>st'. scan sv timeout st = Some st'
    \<and> changes_in (\<Union>r\<in>{r \<in> set (st_nodes st). expired_node (clock (rv_env sv) (st_writes st)) (clock (rv_env sv) (st_writes st) - timeout) r}.
         family (node_TaskID r) st) st st'
    \<and> counts_ok st' \<and> (\<forall>r\<in>set (st_tasks st). Status r = TaskSuccess \<longrightarrow> r \<in> set (st_tasks st'))"
proof -
  let ?now = "clock (rv_env sv) (st_writes st)"
  let ?rs = "FindExpiredRunningNodes ?now (?now - timeout) st"
  from scan_nodes_changes [OF assms(1,2), of sv ?rs "{}"] obtain st'
    where run: "scan_nodes sv ?rs {} st = Some st'" and c: "changes_in (\<Union>r\<in>set ?rs. family (node_TaskID r) st) st st'" by blast
  have "set ?rs \<subseteq> {r \<in> set (st_nodes st). expired_node ?now (?now - timeout) r}"
    by (auto simp: FindExpiredRunningNodes_def dest: in_set_takeD)
  then have "changes_in (\<Union>r\<in>{r \<in> set (st_nodes st). expired_node ?now (?now - timeout) r}. family (node_TaskID r) st) st st'"
    by (intro changes_in_mono [OF c]) blast
  moreover have "counts_ok st'" by (rule scan_counts.scan_nodes_keeps [OF refl assms(3) run])
  moreover have "finished_kept st st'"
    by (rule scan_finished.scan_nodes_keeps [OF refl _ run]) (use assms(1) in \<open>simp add: finished_kept_def keys_ok_def\<close>)
  ultimately show ?thesis using run by (auto simp: scan_def Let_def finished_kept_def)
qed

definition scan_store :: "task_status \<Rightarrow> int \<Rightarrow> store" where
  "scan_store s k = \<lparr>st_tasks = [(sample_row 1 None s)\<lparr>RetryCount := k\<rparr>, sample_row 2 None TaskSuccess],
     st_nodes = [(sample_nrow 10 1 ''a'' NodeRunning)\<lparr>StartedAt := Some (- 100)\<rparr>],
     st_binds = [], st_queue = [], st_events = [], st_writes = 0\<rparr>"

lemma scan_store_ok: "keys_ok (scan_store s k)" "acyclic (kid_rel (scan_store s k))" "0 \<le> k \<Longrightarrow> k \<le> MaxAutoRetryCount \<Longrightarrow> counts_ok (scan_store s k)"
proof -
  show "acyclic (kid_rel (scan_store s k))" by (rule kid_rel_acyclic) (simp add: scan_store_def)
  show "keys_ok (scan_store s k)" by (simp add: keys_ok_def scan_store_def node_key_def)
  show "0 \<le> k \<Longrightarrow> k \<le> MaxAutoRetryCount \<Longrightarrow> counts_ok (scan_store s k)"
    by (simp add: counts_ok_def scan_store_def sample_row_def task.defs task_row.defs sample_task_def MaxAutoRetryCount_def)
qed

theorem scan_contained_witness:
  "\<exists>st'. scan sample_services 60 (scan_store TaskRunning 5) = Some st' \<and> counts_ok st' \<and> sample_row 2 None TaskSuccess \<in> set (st_tasks st')"
proof -
  have "counts_ok (scan_store TaskRunning 5)" by (rule scan_store_ok(3)) (simp_all add: MaxAutoRetryCount_def)
  from scan_contained [OF scan_store_ok(1,2) this, of sample_services 60] obtain st'
    where st': "scan sample_services 60 (scan_store TaskRunning 5) = Some st'" "counts_ok st'"
      "\<forall>r\<in>set (st_tasks (scan_store TaskRunning 5)). Status r = TaskSuccess \<longrightarrow> r \<in> set (st_tasks st')" by blast
  moreover have "sample_row 2 None TaskSuccess \<in> set (st_tasks (scan_store TaskRunning 5))" by (simp add: scan_store_def)
  ultimately show ?thesis by (metis sample_row_sel(3))
qed

lemma Contains_prefix: "prefix sub s \<Longrightarrow> Contains s sub"
  by (cases s) auto

lemma no_live_children:
  assumes "\<forall>k\<in>set (st_tasks st). ParentID k = Some (task_id t) \<and> ParentNode k = Some (Name r) \<longrightarrow> Status k \<notin> {TaskPending, TaskRunning, TaskSuspended}"
  shows "hasLiveChildren e t r st = (False, st)"
proof -
  have kids: "Status k \<notin> {TaskPending, TaskRunning, TaskSuspended}" if "k \<in> set (task_ListByParentNode (task_id t) (Name r) st)" for k
    using that assms by (auto simp: task_ListByParentNode_def)
  have "each (live_child e) ks st = (None, st)" if "set ks \<subseteq> set (task_ListByParentNode (task_id t) (Name r) st)" for ks
    using that by (induction ks) (auto simp: live_child_def then_do_def dest: kids)
  with kids show ?thesis by (auto simp: hasLiveChildren_def Let_def)
qed

text \<open>
  Automatic recovery stops at its limit. A running or suspended task that has used up its
  automatic retries, whose expired node waits for no active child, is failed by the scanner
  together with that node, with the reason, and is not queued again.
\<close>

lemma exhausted_task_fails:
  assumes "keys_ok st" and "r \<in> set (st_nodes st)" and "State r = NodeRunning \<or> State r = NodeRetrying"
    and "t \<in> set (st_tasks st)" and "task_id t = node_TaskID r" and "Status t = TaskRunning \<or> Status t = TaskSuspended"
    and "MaxAutoRetryCount \<le> RetryCount t"
    and "\<forall>k\<in>set (st_tasks st). ParentID k = Some (task_id t) \<and> ParentNode k = Some (Name r) \<longrightarrow> Status k \<notin> {TaskPending, TaskRunning, TaskSuspended}"
    and "\<forall>k. db_err (rv_env sv) k = None"
  shows "\<exists>st' x y. scan_node sv r st = Some st' \<and> st_queue st' = st_queue st
    \<and> x \<in> set (st_tasks st') \<and> task_id x = task_id t \<and> Status x = TaskFailed \<and> ErrorMessage x = retry_exhausted t
    \<and> row_at (node_TaskID r) (Name r) st' = Some y \<and> State y = NodeFailed \<and> Error y = retry_exhausted t"
proof -
  let ?e = "rv_env sv" and ?t = "loaded t" and ?m = "retry_exhausted t"
  have "List.find (\<lambda>x. task_id x = node_TaskID r) (st_tasks st) \<noteq> None" using assms(4,5) by (auto simp: find_None_iff)
  then obtain t' where t': "List.find (\<lambda>x. task_id x = node_TaskID r) (st_tasks st) = Some t'" by blast
  then have "t' \<in> set (st_tasks st)" "task_id t' = node_TaskID r" by (auto simp: find_Some_iff)
  then have "t' = t" using assms(1,4,5) by (auto simp: keys_ok_def distinct_map inj_on_def)
  with t' have get: "GetByID (node_TaskID r) st = Inr ?t" by (simp add: GetByID_def)
  have sel: "Status ?t = Status t" "RetryCount ?t = RetryCount t" "task_id ?t = node_TaskID r" "retry_exhausted ?t = ?m"
    using assms(5) by (simp_all add: loaded_def retry_exhausted_def)
  have live: "hasLiveChildren ?e ?t r st = (False, st)" by (rule no_live_children) (use assms(8) assms(5) sel(3) in simp)
  have prep: "PrepareTaskRetry (Suc (length (st_tasks st))) sv (node_TaskID r) RetryTriggerRecovery [] [] st = Some (Some ?m, st)"
    using assms(6,7) by (auto simp: PrepareTaskRetry.simps(2) get sel retryable_def)
  have con: "Contains ?m exhausted_text" by (rule Contains_prefix) (simp add: retry_exhausted_def)
  have run: "scan_node sv r st = Some (failRetryExhausted ?e ?t r ?m st)"
    using assms(3,6) by (auto simp: scan_node_def get sel recover_task_def Let_def live prep con)
  let ?r = "failed_node (clock ?e (st_writes st)) ?m r"
  obtain st1 where 1: "node_Update ?e ?r st = (None, st1)" using assms(9) by (simp add: node_Update_def db_write_def)
  obtain st2 where 2: "task_Update ?e (exhausted_task ?m ?t) st1 = (None, st2)" using assms(9) by (simp add: task_Update_def db_write_def)
  note w1 = db_write_ok [OF 1 [unfolded node_Update_def]] and w2 = db_write_ok [OF 2 [unfolded task_Update_def]]
  have key: "node_key ?r = (node_TaskID r, Name r)" by (simp add: node_key_def failed_node_def)
  have "row_at (node_TaskID r) (Name r) st = Some r" using row_at_Some [OF assms(1), of "node_TaskID r" "Name r" r] assms(2) by (simp add: node_key_def)
  with node_Update_row_at [OF 1, of "node_TaskID r" "Name r"] key have "row_at (node_TaskID r) (Name r) st1 = Some (node_put ?r r)" by simp
  then have row: "row_at (node_TaskID r) (Name r) st2 = Some (node_put ?r r)" by (simp add: row_at_def w2)
  have "task_put (exhausted_task ?m ?t) t \<in> set (st_tasks st2)"
    using assms(4) by (auto simp: w1 w2 table_update_def image_iff exhausted_task_def loaded_def intro!: bexI [of _ t])
  moreover have "st_queue st2 = st_queue st" by (simp add: w1 w2)
  moreover have "failRetryExhausted ?e ?t r ?m st = push_event \<lparr>ev_TaskID = task_id ?t, ev_RootTaskID = RootID ?t, ev_Step = Name r, ev_Type = ''task_failed'', ev_Meta = []\<rparr> st2"
    by (simp add: failRetryExhausted_def 1 2)
  ultimately show ?thesis using run row
    by (intro exI [of _ "failRetryExhausted ?e ?t r ?m st"] exI [of _ "task_put (exhausted_task ?m ?t) t"] exI [of _ "node_put ?r r"])
      (simp add: row_at_def task_put_def exhausted_task_def loaded_def node_put_def failed_node_def)
qed

lemma exhausted_task_fails_witness:
  "\<exists>st' x. scan_node sample_services ((sample_nrow 10 1 ''a'' NodeRunning)\<lparr>StartedAt := Some (- 100)\<rparr>) (scan_store TaskSuspended 5) = Some st'
     \<and> st_queue st' = [] \<and> x \<in> set (st_tasks st') \<and> task_id x = 1 \<and> Status x = TaskFailed"
proof -
  let ?st = "scan_store TaskSuspended 5"
  have "\<forall>k. db_err (rv_env sample_services) k = None" by (simp add: sample_env_def)
  moreover have "st_queue ?st = []" by (simp add: scan_store_def)
  ultimately show ?thesis
    using exhausted_task_fails [OF scan_store_ok(1) [of TaskSuspended 5], of "(sample_nrow 10 1 ''a'' NodeRunning)\<lparr>StartedAt := Some (- 100)\<rparr>"
        "(sample_row 1 None TaskSuspended)\<lparr>RetryCount := 5\<rparr>" sample_services]
    by (auto simp: scan_store_def MaxAutoRetryCount_def)
qed

text \<open>
  A canceled task comes back. Its case in the scanner has no \<^verbatim>\<open>continue\<close>: after its expired
  node is canceled the task is prepared for a retry like a running one, so that a task canceled
  while a node was running is pending and queued after the next pass.
\<close>

lemma scanner_revives_canceled:
  "\<exists>st' x. scan sample_services 60 (scan_store TaskCanceled 0) = Some st'
     \<and> x \<in> set (st_tasks st') \<and> task_id x = 1 \<and> Status x = TaskPending \<and> 1 \<in> set (st_queue st')"
proof (rule sample_load_workflow [of 1])
  fix w nd
  assume l: "load_workflow sample_services 1 = Inr w" and g: "wf_graph (cw_graph w)" and nd: "cw_nodes w ''a'' = Some nd" "n_Type nd = ''start''"
    and e: "edge_rel (cw_graph w) = {}"
  let ?st = "scan_store TaskCanceled 0" and ?r = "(sample_nrow 10 1 ''a'' NodeRunning)\<lparr>StartedAt := Some (- 100)\<rparr>"
    and ?t = "(sample_row 1 None TaskCanceled)\<lparr>RetryCount := 0\<rparr>" and ?t2 = "sample_row 2 None TaskSuccess"
  let ?c = "canceled_node 0 ?r"
  have sub: "collectRetrySubtree w [''a''] = {''a''}" by (simp add: collectRetrySubtree_iff [OF g] e)
  have sel: "LastHeartbeat ?r = None" "WorkflowVersionID (loaded ?t) = 1" "Checkpoint (node_put ?c ?r) = None" "RetryCount (loaded ?t) = 0"
    "Status (loaded ?t) = TaskCanceled" "task_id (loaded ?t) = 1" "State (node_put ?c ?r) = NodeCanceled" "Name (node_put ?c ?r) = ''a''"
    "node_TaskID (node_put ?c ?r) = 1" "State ?c = NodeCanceled"
    by (simp_all add: sample_row_def task.defs task_row.defs sample_task_def sample_nrow_def node_runtime.defs node_row.defs sample_rt_def
        loaded_def canceled_node_def node_put_def)
  have rs: "FindExpiredRunningNodes 0 (- 60) ?st = [?r]"
    by (simp add: FindExpiredRunningNodes_def scan_store_def expired_node_def before_time_def sel(1) Hour_def)
  have get: "GetByID 1 ?st = Inr (loaded ?t)" by (simp add: GetByID_def scan_store_def)
  obtain st1 where can: "cancelRunningNode (sample_env True) ?r ?st = (?c, st1)" and t1: "st_tasks st1 = [?t, ?t2]" and n1: "st_nodes st1 = [node_put ?c ?r]"
    and b1: "st_binds st1 = []"
    by (simp add: cancelRunningNode_def Let_def scan_store_def node_Update_def db_write_def sample_env_def table_update_def node_key_def canceled_node_def push_event_def)
  have get1: "GetByID 1 st1 = Inr (loaded ?t)" by (simp add: GetByID_def t1)
  have rows: "node_FindByTaskID 1 st1 = [node_put ?c ?r]" by (simp add: node_FindByTaskID_def n1 sel)
  have kids: "ListChildrenByParentID 1 s = []" if "st_tasks s = [?t, ?t2]" for s using that by (simp add: ListChildrenByParentID_def)
  have binds: "bind_ListByTaskID 1 s = []" if "st_binds s = []" for s using that by (simp add: bind_ListByTaskID_def)
  have ok: "\<exists>s'. node_Update (sample_env True) x s = (None, s') \<and> st_tasks s' = st_tasks s \<and> st_binds s' = st_binds s" for x s
    by (simp add: node_Update_def db_write_def sample_env_def)
  obtain s2 where 2: "node_Update (sample_env True) (reset_row w ''a'' (node_put ?c ?r)) st1 = (None, s2)" "st_tasks s2 = [?t, ?t2]" "st_binds s2 = []"
    using ok [of "reset_row w ''a'' (node_put ?c ?r)" st1] t1 b1 by auto
  obtain s3 where 3: "task_Update (sample_env True) (retried_task RetryTriggerRecovery (loaded ?t)) s2 = (None, s3)" by (simp add: task_Update_def db_write_def sample_env_def)
  have prep: "PrepareTaskRetry (Suc (length (st_tasks st1))) sample_services 1 RetryTriggerRecovery [] [] st1 = Some (None, s3)"
    by (simp add: PrepareTaskRetry.simps(2) get1 sel retryable_def l Let_def rows MaxAutoRetryCount_def
        runtime_map_def repairCompositeNodeCheckpointForRetry_def repair_row_def nd on_db_def cancelChildTasksForRetry_def
        reviveProtectedChildrenForRetry_def TrimSpace_def trim_by_def failed_reset_def collectRetryRoots_def retry_root_def
        sub resetNodeRuntimeForRetry_def keeps_result_def save_row_def 2 resetAwaitBindingsForRetry_def binds 3)
  obtain s4 where 4: "task_Enqueue (sample_env True) 1 s3 = (None, s4)" "st_tasks s4 = st_tasks s3" "1 \<in> set (st_queue s4)"
    by (simp add: task_Enqueue_def db_write_def sample_env_def)
  have id: "node_TaskID ?r = 1" by simp
  have node: "scan_node sample_services ?r ?st = Some s4"
    by (simp add: scan_node_def id get sel can recover_task_def Let_def prep 4)
  have now: "clock (sample_env True) (st_writes ?st) = 0" by (simp add: sample_env_def scan_store_def)
  have "scan sample_services 60 ?st = Some s4" by (simp add: scan_def Let_def now rs node)
  moreover have "task_put (retried_task RetryTriggerRecovery (loaded ?t)) ?t \<in> set (st_tasks s4)"
    using db_write_ok [OF 3 [unfolded task_Update_def]] by (simp add: 4 2 table_update_def retried_task_def loaded_def)
  ultimately show ?thesis using 4(3)
    by (intro exI [of _ s4] exI [of _ "task_put (retried_task RetryTriggerRecovery (loaded ?t)) ?t"]) (simp add: task_put_def retried_task_def loaded_def)
qed

end
