(* ===== verification/Flux_Channels.thy ===== *)
theory Flux_Channels
  imports Flux_Samples "HOL-Library.Sublist"
begin

text \<open>
  Queues in memory and the event bus: \<^verbatim>\<open>runtime/internal/taskqueue_memory.go\<close>,
  \<^verbatim>\<open>runtime/internal/async_job_queue_memory.go\<close> and \<^verbatim>\<open>eventbus/eventbus.go\<close>. All three rest on buffered
  channels of Go to which the sender does not wait: a value that finds no room is refused or lost.
\<close>

subsection \<open>Buffered channels\<close>

record 'a chan =
  ch_cap :: nat
  ch_buf :: "'a list"

definition make_chan :: "nat \<Rightarrow> 'a chan" where
  "make_chan k = \<lparr>ch_cap = k, ch_buf = []\<rparr>"

text \<open>A \<^verbatim>\<open>select\<close> with a send and a default case, and a receive (\<open>None\<close>: the receiver waits).\<close>

definition try_send :: "'a \<Rightarrow> 'a chan \<Rightarrow> bool \<times> 'a chan" where
  "try_send x ch = (if length (ch_buf ch) < ch_cap ch then (True, ch\<lparr>ch_buf := ch_buf ch @ [x]\<rparr>) else (False, ch))"

definition receive :: "'a chan \<Rightarrow> ('a \<times> 'a chan) option" where
  "receive ch = (case ch_buf ch of [] \<Rightarrow> None | x # xs \<Rightarrow> Some (x, ch\<lparr>ch_buf := xs\<rparr>))"

subsection \<open>The queue of tasks\<close>

type_synonym mem_queue = "int chan"

definition NewMemoryQueue :: "int \<Rightarrow> mem_queue" where
  "NewMemoryQueue bufferSize = make_chan (nat (if bufferSize \<le> 0 then 1024 else bufferSize))"

definition mq_Push :: "int \<Rightarrow> mem_queue \<Rightarrow> go_error option \<times> mem_queue" where
  "mq_Push i q = (case try_send i q of
      (True, q') \<Rightarrow> (None, q')
    | (False, q') \<Rightarrow> (Some (''memory queue full: cannot push task '' @ FormatInt i), q'))"

definition mq_PopAndReserve :: "mem_queue \<Rightarrow> (int \<times> mem_queue) option" where
  "mq_PopAndReserve q = receive q"

definition mq_Ack :: "int \<Rightarrow> mem_queue \<Rightarrow> go_error option \<times> mem_queue" where
  "mq_Ack i q = (None, q)"

definition mq_MoveToDead :: "int \<Rightarrow> mem_queue \<Rightarrow> go_error option \<times> mem_queue" where
  "mq_MoveToDead i q = (None, q)"

subsection \<open>The queue of asynchronous jobs\<close>

record job_queue =
  jq_jobs :: "async_job chan"
  jq_acked :: "string set"

definition NewMemJobQueue :: "int \<Rightarrow> job_queue" where
  "NewMemJobQueue bufferSize = \<lparr>jq_jobs = make_chan (nat (if bufferSize \<le> 0 then 256 else bufferSize)), jq_acked = {}\<rparr>"

text \<open>A job that finds no room is dropped, and no error tells.\<close>

definition jq_Publish :: "async_job \<Rightarrow> job_queue \<Rightarrow> go_error option \<times> job_queue" where
  "jq_Publish j q = (case try_send j (jq_jobs q) of (sent, ch) \<Rightarrow> (None, q\<lparr>jq_jobs := ch\<rparr>))"

definition jq_Consume :: "job_queue \<Rightarrow> ((async_job \<times> string) \<times> job_queue) option" where
  "jq_Consume q = map_option (\<lambda>(j, ch). ((j, []), q\<lparr>jq_jobs := ch\<rparr>)) (receive (jq_jobs q))"

definition jq_Ack :: "string \<Rightarrow> job_queue \<Rightarrow> go_error option \<times> job_queue" where
  "jq_Ack k q = (None, q\<lparr>jq_acked := insert k (jq_acked q)\<rparr>)"

subsection \<open>The event bus\<close>

text \<open>
  Events with their grade and the sequence number the database gives them. The bus may have no
  repository and no publisher. Channels are told apart by a number. \<open>row_id\<close> is the auto-increment
  of the event table: the id it gives to the insertion asked for as number k. Ids may have gaps.
\<close>

record bus_event = event +
  Grade :: string
  Sequence :: int

record bus =
  has_repo :: bool
  has_publisher :: bool
  bus_rows :: "bus_event list"
  bus_pushed :: "(string \<times> bus_event) list"
  subscribers :: "string \<Rightarrow> (nat \<times> bus_event chan) list"
  next_chan :: nat
  bus_writes :: nat
  row_id :: "nat \<Rightarrow> int"

definition GradeTransient :: string where "GradeTransient = ''transient''"
definition GradePersistent :: string where "GradePersistent = ''persistent''"
definition GradeAudit :: string where "GradeAudit = ''audit''"

definition transient_prefixes :: "string list" where
  "transient_prefixes = [''tool_stream'', ''tool_stream_end'', ''tool_progress'', ''tool_log'', ''node_debug'', ''task_progress'']"

definition inferGrade :: "string \<Rightarrow> string" where
  "inferGrade ty = (if \<exists>p\<in>set transient_prefixes. prefix p ty then GradeTransient else GradePersistent)"

definition TaskChannel :: "int \<Rightarrow> string" where
  "TaskChannel i = ''task:'' @ FormatInt i"

text \<open>The row of an event; its id becomes the sequence number of the event in memory.\<close>

definition event_Create :: "env \<Rightarrow> bus_event \<Rightarrow> bus \<Rightarrow> bus_event \<times> bus" where
  "event_Create e ev b =
     (case db_err e (bus_writes b) of
        Some m \<Rightarrow> (ev, b\<lparr>bus_writes := Suc (bus_writes b)\<rparr>)
      | None \<Rightarrow>
         (let ev' = ev\<lparr>Sequence := row_id b (bus_writes b)\<rparr>
          in (ev', b\<lparr>bus_writes := Suc (bus_writes b), bus_rows := bus_rows b @ [ev']\<rparr>)))"

definition graded :: "int \<Rightarrow> bus_event \<Rightarrow> bus_event" where
  "graded i ev = ev\<lparr>ev_TaskID := (if ev_TaskID ev = 0 then i else ev_TaskID ev),
     Grade := (if Grade ev = [] then inferGrade (ev_Type ev) else Grade ev)\<rparr>"

definition stored_grade :: "bus_event \<Rightarrow> bool" where
  "stored_grade ev \<longleftrightarrow> Grade ev = GradePersistent \<or> Grade ev = GradeAudit"

definition deliver :: "bus_event \<Rightarrow> bus \<Rightarrow> bus" where
  "deliver ev b = b\<lparr>subscribers := (subscribers b)(ev_Type ev :=
     map (\<lambda>(k, ch). (k, snd (try_send ev ch))) (subscribers b (ev_Type ev)))\<rparr>"

definition bus_Publish :: "env \<Rightarrow> int \<Rightarrow> bus_event \<Rightarrow> bus \<Rightarrow> bus" where
  "bus_Publish e i ev b =
     (let ev1 = graded i ev
      in case (if has_repo b \<and> stored_grade ev1 then event_Create e ev1 b else (ev1, b)) of
           (ev2, b1) \<Rightarrow>
             deliver ev2 (if has_publisher b1 \<and> Grade ev2 \<noteq> GradeAudit
                          then b1\<lparr>bus_pushed := bus_pushed b1 @ [(TaskChannel i, ev2)]\<rparr> else b1))"

definition PublishToChannel :: "string \<Rightarrow> bus_event \<Rightarrow> bus \<Rightarrow> bus" where
  "PublishToChannel ch ev b = (if has_publisher b then b\<lparr>bus_pushed := bus_pushed b @ [(ch, ev)]\<rparr> else b)"

definition Subscribe :: "string \<Rightarrow> bus \<Rightarrow> nat \<times> bus" where
  "Subscribe ty b = (next_chan b, b\<lparr>next_chan := Suc (next_chan b),
     subscribers := (subscribers b)(ty := subscribers b ty @ [(next_chan b, make_chan 100)])\<rparr>)"

text \<open>The first entry of the channel is taken out; an unknown channel changes nothing.\<close>

fun remove_chan :: "nat \<Rightarrow> (nat \<times> bus_event chan) list \<Rightarrow> (nat \<times> bus_event chan) list" where
  "remove_chan k [] = []"
| "remove_chan k ((j, ch) # subs) = (if j = k then subs else (j, ch) # remove_chan k subs)"

definition Unsubscribe :: "string \<Rightarrow> nat \<Rightarrow> bus \<Rightarrow> bus" where
  "Unsubscribe ty k b = b\<lparr>subscribers := (subscribers b)(ty := remove_chan k (subscribers b ty))\<rparr>"

subsection \<open>The contract of a bounded queue\<close>

text \<open>
  A client puts without waiting and gets in the order of the puts; what finds no room is not
  in the queue. The contents and the capacity are what the client may rely on.
\<close>

locale bounded_fifo =
  fixes put :: "'a \<Rightarrow> 'q \<Rightarrow> 'q" and get :: "'q \<Rightarrow> ('a \<times> 'q) option"
    and buf :: "'q \<Rightarrow> 'a list" and cap :: "'q \<Rightarrow> nat"
  assumes put_room: "length (buf q) < cap q \<Longrightarrow> buf (put x q) = buf q @ [x]"
    and put_full: "\<not> length (buf q) < cap q \<Longrightarrow> buf (put x q) = buf q"
    and put_cap: "cap (put x q) = cap q"
    and get_None: "get q = None \<longleftrightarrow> buf q = []"
    and get_Some: "get q = Some (x, q') \<Longrightarrow> buf q = x # buf q' \<and> cap q' = cap q"
begin

primrec gets :: "nat \<Rightarrow> 'q \<Rightarrow> 'a list \<times> 'q" where
  "gets 0 q = ([], q)"
| "gets (Suc k) q = (case get q of
      None \<Rightarrow> ([], q)
    | Some (x, q') \<Rightarrow> (case gets k q' of (xs, q2) \<Rightarrow> (x # xs, q2)))"

lemma puts:
  "buf (fold put xs q) = buf q @ take (cap q - length (buf q)) xs \<and> cap (fold put xs q) = cap q"
proof (induction xs arbitrary: q)
  case (Cons x xs)
  show ?case
  proof (cases "length (buf q) < cap q")
    case True
    then have "cap q - length (buf q) = Suc (cap q - Suc (length (buf q)))" by simp
    with True Cons [of "put x q"] show ?thesis by (simp add: put_room put_cap)
  next
    case False
    with Cons [of "put x q"] show ?thesis by (simp add: put_full put_cap)
  qed
qed simp

lemma gets_order: "fst (gets k q) = take k (buf q) \<and> buf (snd (gets k q)) = drop k (buf q)"
proof (induction k arbitrary: q)
  case (Suc k)
  show ?case
  proof (cases "get q")
    case None
    then show ?thesis using get_None [of q] by simp
  next
    case (Some p)
    then obtain x q' where "get q = Some (x, q')" by (cases p) auto
    with get_Some [OF this] Suc [of q'] show ?thesis by (cases "gets k q'") simp
  qed
qed simp

lemma fifo: "fst (gets k (fold put xs q)) = take k (buf q @ take (cap q - length (buf q)) xs)"
  using gets_order [of k "fold put xs q"] puts [of xs q] by simp

end

interpretation task_queue: bounded_fifo "\<lambda>i q. snd (mq_Push i q)" mq_PopAndReserve ch_buf ch_cap
  by unfold_locales (auto simp: mq_Push_def try_send_def mq_PopAndReserve_def receive_def split: list.splits)

interpretation async_queue: bounded_fifo "\<lambda>j q. snd (jq_Publish j q)" "\<lambda>q. map_option (\<lambda>((j, k), q'). (j, q')) (jq_Consume q)"
  "\<lambda>q. ch_buf (jq_jobs q)" "\<lambda>q. ch_cap (jq_jobs q)"
  by unfold_locales (auto simp: jq_Publish_def try_send_def jq_Consume_def receive_def split: list.splits)

interpretation subscriber: bounded_fifo "\<lambda>x ch. snd (try_send x ch)" receive ch_buf ch_cap
  by unfold_locales (auto simp: try_send_def receive_def split: list.splits)

subsection \<open>What a sequence of events leaves\<close>

definition publish_all :: "env \<Rightarrow> (int \<times> bus_event) list \<Rightarrow> bus \<Rightarrow> bus" where
  "publish_all e evs b = fold (\<lambda>(i, ev). bus_Publish e i ev) evs b"

definition numbered :: "env \<Rightarrow> bus_event \<Rightarrow> bus \<Rightarrow> bus_event" where
  "numbered e ev b = (if has_repo b \<and> stored_grade ev then fst (event_Create e ev b) else ev)"

primrec sent :: "env \<Rightarrow> (int \<times> bus_event) list \<Rightarrow> bus \<Rightarrow> bus_event list" where
  "sent e [] b = []"
| "sent e (p # ps) b = numbered e (graded (fst p) (snd p)) b # sent e ps (bus_Publish e (fst p) (snd p) b)"

text \<open>An event up to its number.\<close>

definition unseq :: "bus_event \<Rightarrow> bus_event" where
  "unseq ev = ev\<lparr>Sequence := 0\<rparr>"

lemma unseq_sel [simp]:
  "ev_Type (unseq ev) = ev_Type ev" "Grade (unseq ev) = Grade ev" "stored_grade (unseq ev) = stored_grade ev"
  by (simp_all add: unseq_def stored_grade_def)

lemma numbered_sel [simp]:
  "ev_Type (numbered e ev b) = ev_Type ev" "Grade (numbered e ev b) = Grade ev" "unseq (numbered e ev b) = unseq ev"
  by (simp_all add: numbered_def event_Create_def Let_def unseq_def split: option.split)

lemma graded_type [simp]: "ev_Type (graded i ev) = ev_Type ev"
  by (simp add: graded_def)

lemma Publish_effect:
  "bus_Publish e i ev b =
     (let ev2 = numbered e (graded i ev) b; store = has_repo b \<and> stored_grade (graded i ev)
      in b\<lparr>bus_rows := bus_rows b @ (if store \<and> db_err e (bus_writes b) = None then [ev2] else []),
           bus_pushed := bus_pushed b @ (if has_publisher b \<and> Grade (graded i ev) \<noteq> GradeAudit then [(TaskChannel i, ev2)] else []),
           bus_writes := (if store then Suc (bus_writes b) else bus_writes b),
           subscribers := (subscribers b)(ev_Type ev := map (\<lambda>(k, ch). (k, snd (try_send ev2 ch))) (subscribers b (ev_Type ev)))\<rparr>)"
  by (cases "db_err e (bus_writes b)") (simp_all add: bus_Publish_def deliver_def numbered_def event_Create_def Let_def)

lemma publish_all_subs:
  "subscribers (publish_all e evs b) ty =
     map (\<lambda>(k, ch). (k, fold (\<lambda>x ch. snd (try_send x ch)) (filter (\<lambda>ev. ev_Type ev = ty) (sent e evs b)) ch)) (subscribers b ty)"
proof (induction evs arbitrary: b)
  case (Cons p evs)
  obtain i ev where p: "p = (i, ev)" by force
  have "publish_all e (p # evs) b = publish_all e evs (bus_Publish e i ev b)" by (simp add: publish_all_def p)
  moreover have "subscribers (bus_Publish e i ev b) ty = (if ev_Type ev = ty
      then map (\<lambda>(k, ch). (k, snd (try_send (numbered e (graded i ev) b) ch))) (subscribers b ty) else subscribers b ty)"
    by (simp add: Publish_effect Let_def)
  ultimately show ?case using Cons [of "bus_Publish e i ev b"] by (simp add: p comp_def split_def)
qed (simp add: publish_all_def)

lemma sent_unseq: "map unseq (sent e evs b) = map (\<lambda>(i, ev). unseq (graded i ev)) evs"
  by (induction evs arbitrary: b) (auto simp: split_def)

text \<open>The stored rows are numbered in increasing order, below every id still to be given.\<close>

definition seq_ok :: "bus \<Rightarrow> bool" where
  "seq_ok b \<longleftrightarrow> sorted_wrt (<) (map Sequence (bus_rows b) @ [row_id b (bus_writes b)])"

lemma Publish_row_id [simp]: "row_id (bus_Publish e i ev b) = row_id b"
  by (simp add: Publish_effect Let_def)

lemma numbered_Sequence:
  "has_repo b \<Longrightarrow> stored_grade ev \<Longrightarrow> db_err e (bus_writes b) = None \<Longrightarrow> Sequence (numbered e ev b) = row_id b (bus_writes b)"
  by (simp add: numbered_def event_Create_def Let_def)

lemma Publish_seq:
  assumes "strict_mono (row_id b)" and "seq_ok b"
  shows "seq_ok (bus_Publish e i ev b)"
proof -
  have "row_id b (bus_writes b) < row_id b (Suc (bus_writes b))" using assms(1) by (simp add: strict_mono_def)
  with assms(2) show ?thesis
    by (auto simp: seq_ok_def Publish_effect Let_def sorted_wrt_append numbered_Sequence less_trans)
qed

lemma publish_all_lists:
  assumes "\<forall>k. db_err e k = None" and "has_repo b" and "has_publisher b"
    and "strict_mono (row_id b)" and "seq_ok b"
  shows "map unseq (bus_rows (publish_all e evs b)) =
      map unseq (bus_rows b) @ filter stored_grade (map (\<lambda>(i, ev). unseq (graded i ev)) evs)
    \<and> seq_ok (publish_all e evs b)
    \<and> map (map_prod id unseq) (bus_pushed (publish_all e evs b)) = map (map_prod id unseq) (bus_pushed b)
      @ map (\<lambda>(i, ev). (TaskChannel i, unseq (graded i ev))) (filter (\<lambda>(i, ev). Grade (graded i ev) \<noteq> GradeAudit) evs)"
  using assms(2-5)
proof (induction evs arbitrary: b)
  case (Cons p evs)
  obtain i ev where p: "p = (i, ev)" by force
  have all: "publish_all e (p # evs) b = publish_all e evs (bus_Publish e i ev b)" by (simp add: publish_all_def p)
  have step: "has_repo (bus_Publish e i ev b)" "has_publisher (bus_Publish e i ev b)"
    "bus_rows (bus_Publish e i ev b) = bus_rows b @ (if stored_grade (graded i ev) then [numbered e (graded i ev) b] else [])"
    "bus_pushed (bus_Publish e i ev b) = bus_pushed b @ (if Grade (graded i ev) \<noteq> GradeAudit then [(TaskChannel i, numbered e (graded i ev) b)] else [])"
    using Cons.prems assms(1) by (simp_all add: Publish_effect Let_def)
  show ?case unfolding all using Cons.IH [OF step(1,2) _ Publish_seq [OF Cons.prems(3,4)]] Cons.prems(3) by (simp add: step p)
qed (simp add: publish_all_def)

subsection \<open>Properties\<close>

text \<open>
  C30. The event bus routes by grade and keeps the order. After any sequence of events: exactly the
  persistent and audit events were stored, numbered in increasing order (the ids the database gives
  out increase, with gaps or without, and no write fails); exactly those that are not
  audit were pushed to the channel of their task; and every subscriber of a type has received the
  events of this type, in order, as far as its buffer had room. Later ones are lost to it.
\<close>

theorem bus_routes_events:
  assumes "\<forall>k. db_err e k = None" and "has_repo b" and "has_publisher b"
    and "strict_mono (row_id b)" and "seq_ok b"
  shows "map unseq (bus_rows (publish_all e evs b)) =
      map unseq (bus_rows b) @ filter stored_grade (map (\<lambda>(i, ev). unseq (graded i ev)) evs)
    \<and> seq_ok (publish_all e evs b)
    \<and> map (map_prod id unseq) (bus_pushed (publish_all e evs b)) = map (map_prod id unseq) (bus_pushed b)
      @ map (\<lambda>(i, ev). (TaskChannel i, unseq (graded i ev))) (filter (\<lambda>(i, ev). Grade (graded i ev) \<noteq> GradeAudit) evs)
    \<and> (\<forall>ty. map (\<lambda>(k, ch). (k, map unseq (ch_buf ch))) (subscribers (publish_all e evs b) ty) =
        map (\<lambda>(k, ch). (k, map unseq (ch_buf ch) @ take (ch_cap ch - length (ch_buf ch))
            (filter (\<lambda>ev. ev_Type ev = ty) (map (\<lambda>(i, ev). unseq (graded i ev)) evs)))) (subscribers b ty))"
proof -
  have "map unseq (take k (filter (\<lambda>ev. ev_Type ev = ty) (sent e evs b))) =
      take k (filter (\<lambda>ev. ev_Type ev = ty) (map (\<lambda>(i, ev). unseq (graded i ev)) evs))" for ty k
  proof -
    have "map unseq (filter (\<lambda>ev. ev_Type ev = ty) (sent e evs b)) = filter (\<lambda>ev. ev_Type ev = ty) (map unseq (sent e evs b))"
      by (simp add: filter_map comp_def)
    then show ?thesis by (metis sent_unseq take_map)
  qed
  then have "map (\<lambda>(k, ch). (k, map unseq (ch_buf ch))) (subscribers (publish_all e evs b) ty) =
        map (\<lambda>(k, ch). (k, map unseq (ch_buf ch) @ take (ch_cap ch - length (ch_buf ch))
            (filter (\<lambda>ev. ev_Type ev = ty) (map (\<lambda>(i, ev). unseq (graded i ev)) evs)))) (subscribers b ty)" for ty
    by (simp add: publish_all_subs subscriber.puts split_def comp_def)
  with publish_all_lists [OF assms] show ?thesis by blast
qed

definition sample_event :: "string \<Rightarrow> string \<Rightarrow> bus_event" where
  "sample_event ty g = \<lparr>ev_TaskID = 0, ev_RootTaskID = 1, ev_Step = ''a'', ev_Type = ty, ev_Meta = [], Grade = g, Sequence = 0\<rparr>"

definition sample_bus :: bus where
  "sample_bus = snd (Subscribe ''task_failed'' \<lparr>has_repo = True, has_publisher = True, bus_rows = [], bus_pushed = [],
     subscribers = (\<lambda>_. []), next_chan = 0, bus_writes = 0, row_id = (\<lambda>k. 2 * int k + 1)\<rparr>)"

theorem bus_routes_events_witness:
  "length (bus_rows (publish_all (sample_env True) [(1, sample_event ''task_failed'' []), (1, sample_event ''tool_log_x'' []),
      (1, sample_event ''task_failed'' GradeAudit)] sample_bus)) = 2
   \<and> length (bus_pushed (publish_all (sample_env True) [(1, sample_event ''task_failed'' []), (1, sample_event ''tool_log_x'' []),
      (1, sample_event ''task_failed'' GradeAudit)] sample_bus)) = 2"
proof -
  let ?evs = "[(1, sample_event ''task_failed'' []), (1, sample_event ''tool_log_x'' []), (1, sample_event ''task_failed'' GradeAudit)]"
  have b: "has_repo sample_bus" "has_publisher sample_bus" "strict_mono (row_id sample_bus)" "seq_ok sample_bus" "bus_rows sample_bus = []" "bus_pushed sample_bus = []"
    by (simp_all add: sample_bus_def Subscribe_def seq_ok_def strict_mono_def)
  have "\<forall>k. db_err (sample_env True) k = None" by (simp add: sample_env_def)
  note r = bus_routes_events [OF this b(1-4), of ?evs, unfolded b(5,6)]
  have g: "filter stored_grade (map (\<lambda>(i, ev). unseq (graded i ev)) ?evs) = [unseq (graded 1 (sample_event ''task_failed'' [])), unseq (graded 1 (sample_event ''task_failed'' GradeAudit))]"
    "length (filter (\<lambda>(i, ev). Grade (graded i ev) \<noteq> GradeAudit) ?evs) = 2"
    by code_simp+
  from r have "length (map unseq (bus_rows (publish_all (sample_env True) ?evs sample_bus))) = 2" unfolding g by simp
  moreover from r g(2) have "length (map (map_prod id unseq) (bus_pushed (publish_all (sample_env True) ?evs sample_bus))) = 2"
    by simp
  ultimately show ?thesis by simp
qed

end
