(* ===== verification/Flux_Worker.thy ===== *)
theory Flux_Worker
  imports Flux_Scanner Flux_Listener Flux_Channels
begin

text \<open>
  The workers: \<^verbatim>\<open>worker/worker.go\<close> takes tasks from the queue, claims them in the database and runs
  them; \<^verbatim>\<open>worker/async_worker.go\<close> runs the tool of an asynchronous node and reports its end as an
  event; \<^verbatim>\<open>worker/emitter.go\<close> publishes what a tool emits. The goroutines that repeat a turn, the log
  and the heartbeats are left out.
\<close>

subsection \<open>Claiming a task\<close>

text \<open>The column \<^verbatim>\<open>started_at\<close>, which only a claim writes, is kept beside the table.\<close>

record worker_db =
  wd_store :: store
  started_at :: "int \<Rightarrow> int"

definition claimable :: "int \<Rightarrow> int \<Rightarrow> worker_db \<Rightarrow> task_row \<Rightarrow> bool" where
  "claimable now i wd r \<longleftrightarrow> task_id r = i
     \<and> (Status r = TaskPending \<or> Status r = TaskRunning \<and> started_at wd i < now - 10 * Minute)"

definition claimed :: "string \<Rightarrow> task_row \<Rightarrow> task_row" where
  "claimed worker r = r\<lparr>Status := TaskRunning, WorkerID := worker\<rparr>"

definition TryClaimTask :: "env \<Rightarrow> int \<Rightarrow> string \<Rightarrow> worker_db \<Rightarrow> (go_error + bool) \<times> worker_db" where
  "TryClaimTask e i worker wd =
     (let st = wd_store wd; now = clock e (st_writes st);
          st1 = st\<lparr>st_writes := Suc (st_writes st)\<rparr>;
          hits = filter (claimable now i wd) (st_tasks st)
      in case db_err e (st_writes st) of
           Some m \<Rightarrow> (Inl m, wd\<lparr>wd_store := st1\<rparr>)
         | None \<Rightarrow> (Inr (length hits = 1),
             \<lparr>wd_store = st1\<lparr>st_tasks := map (\<lambda>r. if claimable now i wd r then claimed worker r else r) (st_tasks st)\<rparr>,
              started_at = (if hits = [] then started_at wd else (started_at wd)(i := now))\<rparr>))"

subsection \<open>One turn of a worker\<close>

definition maxAutoRetryCount :: int where "maxAutoRetryCount = 1"

definition worker_final_failed :: "task_row \<Rightarrow> string \<Rightarrow> string \<Rightarrow> event" where
  "worker_final_failed t reason finalReason =
     \<lparr>ev_TaskID = task_id t, ev_RootTaskID = RootID t, ev_Step = ''task'', ev_Type = ''task_final_failed'',
      ev_Meta = [(''final_reason'', VStr finalReason), (''error_message'', VStr reason), (''retry_count'', VInt (RetryCount t)),
        (''retry_limit'', VInt maxAutoRetryCount), (''retry_exhausted'', VBool (maxAutoRetryCount \<le> RetryCount t)),
        (''last_run_status'', VStr ''failed''), (''can_manual_resume'', VBool True)]\<rparr>"

text \<open>
  The dead letters and the acknowledgement do nothing for the queue in memory (\<open>mq_MoveToDead\<close>,
  \<open>mq_Ack\<close>). The event does not say at which place the worker gave up.
\<close>

definition failTask :: "env \<Rightarrow> task_row \<Rightarrow> string \<Rightarrow> string \<Rightarrow> store \<Rightarrow> store" where
  "failTask e t reason finalReason st =
     (let t' = t\<lparr>Status := TaskFailed, ErrorMessage := reason\<rparr>
      in push_event (worker_final_failed t' reason finalReason) (snd (task_Update e t' st)))"

text \<open>
  The engine is the field \<^verbatim>\<open>runTask\<close> of the worker: it returns a result, the task as it has left it
  in memory, and the database.
\<close>

type_synonym run_task = "task_row \<Rightarrow> workflow_def \<Rightarrow> worker_db \<Rightarrow> (run_result \<times> task_row \<times> worker_db) exec"

definition handle_failed :: "retry_services \<Rightarrow> run_result \<Rightarrow> task_row \<Rightarrow> worker_db \<Rightarrow> worker_db option" where
  "handle_failed sv r t wd =
     (let e = rv_env sv; st = wd_store wd;
          t1 = t\<lparr>RetryCount := RetryCount t + 1, ErrorMessage := (case rr_Err r of None \<Rightarrow> ErrorMessage t | Some m \<Rightarrow> m)\<rparr>
      in if maxAutoRetryCount \<le> RetryCount t1
         then Some (wd\<lparr>wd_store := failTask e t1 (ErrorMessage t1) ''retry_exhausted'' st\<rparr>)
         else case PrepareTaskRetry (Suc (length (st_tasks st))) sv (task_id t) RetryTriggerRecovery [] [] st of
             None \<Rightarrow> None
           | Some (Some m, st1) \<Rightarrow> Some (wd\<lparr>wd_store := failTask e t1 m ''retry_prepare_failed'' st1\<rparr>)
           | Some (None, st1) \<Rightarrow>
               Some (wd\<lparr>wd_store := snd (task_Enqueue e (task_id t) (snd (task_Update e (t1\<lparr>Status := TaskPending\<rparr>) st1)))\<rparr>))"

definition handle :: "retry_services \<Rightarrow> run_task \<Rightarrow> task_row \<Rightarrow> worker_db \<Rightarrow> worker_db option exec" where
  "handle sv runTask t wd =
     (case rv_version sv (WorkflowVersionID t) of
        Inl m \<Rightarrow> Ret (Some (wd\<lparr>wd_store := failTask (rv_env sv) t m ''worker_prepare_failed'' (wd_store wd)\<rparr>))
      | Inr def \<Rightarrow> bind_exec (runTask t def wd) (\<lambda>(r, t1, wd1).
           Ret (if rr_Status r = RunSuccess \<or> rr_Status r = RunSuspended \<or> rr_Status r = RunNoop then Some wd1
                else handle_failed sv r t1 wd1)))"

text \<open>
  A turn of the loop. An empty queue makes the worker wait. After an error of the claim the id is
  neither acknowledged nor put back.
\<close>

definition worker_turn :: "retry_services \<Rightarrow> run_task \<Rightarrow> string \<Rightarrow> worker_db \<Rightarrow> worker_db option exec" where
  "worker_turn sv runTask workerID wd =
     (case st_queue (wd_store wd) of
        [] \<Rightarrow> Ret (Some wd)
      | i # q \<Rightarrow>
         (case TryClaimTask (rv_env sv) i workerID (wd\<lparr>wd_store := (wd_store wd)\<lparr>st_queue := q\<rparr>\<rparr>) of
            (Inr True, wd1) \<Rightarrow>
              (case GetByID i (wd_store wd1) of
                 Inl m \<Rightarrow> Ret (Some wd1)
               | Inr t \<Rightarrow> if Status t = TaskCanceled then Ret (Some wd1) else handle sv runTask t wd1)
          | (_, wd1) \<Rightarrow> Ret (Some wd1)))"

subsection \<open>Asynchronous nodes\<close>

text \<open>What a tool may do, and the usage facts it may add to a result; both are the tool's own.\<close>

datatype tool_outcome = ToolPanics string | ToolFails go_error | ToolNil | ToolReturns "gmap option"

record async_tool =
  at_execute :: "gmap \<Rightarrow> tool_outcome"
  at_usage :: "gmap \<Rightarrow> gmap \<Rightarrow> gval list"

record job_event = event +
  je_Error :: string

definition job_root :: "async_job \<Rightarrow> store \<Rightarrow> int" where
  "job_root j st = (case GetByID (job_TaskID j) st of
      Inl _ \<Rightarrow> job_TaskID j
    | Inr t \<Rightarrow> if RootID t \<noteq> 0 then RootID t else job_TaskID j)"

definition publishJobEvent :: "async_job \<Rightarrow> store \<Rightarrow> string \<Rightarrow> gmap \<Rightarrow> string \<Rightarrow> job_event" where
  "publishJobEvent j st ty meta err =
     \<lparr>ev_TaskID = job_TaskID j, ev_RootTaskID = job_root j st, ev_Step = job_Node j, ev_Type = ty, ev_Meta = meta, je_Error = err\<rparr>"

definition publishAsyncCompletion :: "async_job \<Rightarrow> store \<Rightarrow> gmap \<Rightarrow> string \<Rightarrow> job_event" where
  "publishAsyncCompletion j st meta err = publishJobEvent j st ''node_complete_async'' meta err"

text \<open>A result whose data is nil is a completion without meta data, as an empty one is.\<close>

definition completion_meta :: "async_tool \<Rightarrow> gmap \<Rightarrow> gmap option \<Rightarrow> gmap" where
  "completion_meta tool inp d =
     (case d of None \<Rightarrow> []
      | Some m \<Rightarrow> if at_usage tool inp m = [] then m else AList.update AwaitUsageFactsMetaKey (VList (at_usage tool inp m)) m)"

definition run_tool :: "async_tool \<Rightarrow> async_job \<Rightarrow> store \<Rightarrow> go_error option \<times> job_event" where
  "run_tool tool j st =
     (case at_execute tool (job_Input j) of
        ToolPanics m \<Rightarrow> (let err = ''async worker panic: '' @ m
                         in (Some err, publishAsyncCompletion j st [(''panic'', VStr [])] err))
      | ToolFails m \<Rightarrow> (Some m, publishAsyncCompletion j st [] m)
      | ToolNil \<Rightarrow> (let err = ''tool '' @ job_StepAdapter j @ '' returned nil result''
                    in (Some err, publishAsyncCompletion j st [] err))
      | ToolReturns d \<Rightarrow> (None, publishAsyncCompletion j st (completion_meta tool (job_Input j) d) []))"

definition stale_state :: "node_row \<Rightarrow> bool" where
  "stale_state r \<longleftrightarrow> State r \<noteq> NodeRunning \<and> State r \<noteq> NodeRetrying"

definition stale_hash :: "async_job \<Rightarrow> node_row \<Rightarrow> bool" where
  "stale_hash j r \<longleftrightarrow> job_Hash j \<noteq> [] \<and> InputHash r \<noteq> [] \<and> InputHash r \<noteq> job_Hash j"

definition handleJob :: "(string \<Rightarrow> async_tool option) \<Rightarrow> async_job \<Rightarrow> store \<Rightarrow> go_error option \<times> job_event list" where
  "handleJob tools j st =
     (let received = publishJobEvent j st ''async_worker_received'' [] [];
          stale = \<lambda>meta. publishJobEvent j st ''async_job_stale'' meta []
      in case row_at (job_TaskID j) (job_Node j) st of
           None \<Rightarrow> (let err = ''load async node runtime failed: '' @ record_not_found
                     in (Some err, [received, publishAsyncCompletion j st [] err]))
         | Some r \<Rightarrow>
             if stale_state r then (None, [received, stale [(''state'', VStr (node_state_str (State r)))]])
             else if stale_hash j r
             then (None, [received, stale [(''job_hash'', VStr (job_Hash j)), (''runtime_hash'', VStr (InputHash r))]])
             else case tools (job_StepAdapter j) of
                 None \<Rightarrow> (let err = ''tool not found: '' @ job_StepAdapter j
                           in (Some err, [received, publishAsyncCompletion j st [] err]))
               | Some tool \<Rightarrow>
                  (let start = publishJobEvent j st ''async_tool_execute_start'' [(''tool'', VStr (job_StepAdapter j))] []
                   in case run_tool tool j st of (err, ev) \<Rightarrow> (err, [received, start, ev])))"

subsection \<open>Events of a tool\<close>

record tool_event =
  te_Type :: string
  te_CustomType :: string
  te_Data :: gmap

definition tool_event_type :: "tool_event \<Rightarrow> string" where
  "tool_event_type te = (if te_CustomType te = [] then ''tool_'' @ te_Type te else te_CustomType te)"

definition tool_event_grade :: "tool_event \<Rightarrow> string" where
  "tool_event_grade te =
     (if te_CustomType te = [] \<and> te_Type te \<in> {''stream'', ''stream_end'', ''progress'', ''log''} then GradeTransient
      else GradePersistent)"

definition EmitToolEvent :: "env \<Rightarrow> store \<Rightarrow> int \<Rightarrow> name \<Rightarrow> tool_event \<Rightarrow> bus \<Rightarrow> bus" where
  "EmitToolEvent e st i n te b =
     (case GetByID i st of
        Inl _ \<Rightarrow> b
      | Inr t \<Rightarrow> bus_Publish e i
          \<lparr>ev_TaskID = i, ev_RootTaskID = RootID t, ev_Step = n, ev_Type = tool_event_type te, ev_Meta = te_Data te,
           Grade = tool_event_grade te, Sequence = 0\<rparr> b)"

subsection \<open>Claims exclude each other\<close>

text \<open>Workers that try to claim the same task one after the other.\<close>

fun claims :: "env \<Rightarrow> int \<Rightarrow> string list \<Rightarrow> worker_db \<Rightarrow> (string \<times> (go_error + bool)) list \<times> worker_db" where
  "claims e i [] wd = ([], wd)"
| "claims e i (k # ks) wd =
     (case TryClaimTask e i k wd of (r, wd1) \<Rightarrow> (case claims e i ks wd1 of (rs, wd2) \<Rightarrow> ((k, r) # rs, wd2)))"

definition winners :: "(string \<times> (go_error + bool)) list \<Rightarrow> string list" where
  "winners rs = map fst (filter (\<lambda>(k, r). r = Inr True) rs)"

definition holder :: "int \<Rightarrow> worker_db \<Rightarrow> task_row option" where
  "holder i wd = List.find (\<lambda>r. task_id r = i) (st_tasks (wd_store wd))"

text \<open>A task that is running under a fresh lease: nobody can claim it.\<close>

definition leased :: "env \<Rightarrow> int \<Rightarrow> worker_db \<Rightarrow> bool" where
  "leased e i wd \<longleftrightarrow> (\<exists>r. holder i wd = Some r \<and> Status r = TaskRunning) \<and> (\<forall>k. clock e k - 10 * Minute \<le> started_at wd i)"

lemma holder_unique:
  assumes "keys_ok (wd_store wd)"
  shows "holder i wd = Some r \<longleftrightarrow> r \<in> set (st_tasks (wd_store wd)) \<and> task_id r = i"
  using find_task [of "st_tasks (wd_store wd)" r] assms by (auto simp: holder_def keys_ok_def find_Some_iff)

lemma leased_claim:
  assumes "keys_ok (wd_store wd)" and "leased e i wd" and "TryClaimTask e i k wd = (x, wd')"
  shows "x \<noteq> Inr True \<and> st_tasks (wd_store wd') = st_tasks (wd_store wd) \<and> started_at wd' = started_at wd"
proof -
  have "\<not> claimable now i wd r" if "r \<in> set (st_tasks (wd_store wd))" "now = clock e m" for r now m
  proof
    assume c: "claimable now i wd r"
    then have "holder i wd = Some r" using that(1) holder_unique [OF assms(1)] by (simp add: claimable_def)
    moreover have "clock e m - 10 * Minute \<le> started_at wd i" using assms(2) by (simp add: leased_def)
    ultimately show False using c assms(2) that(2) by (auto simp: claimable_def leased_def)
  qed
  then have "filter (claimable (clock e m) i wd) (st_tasks (wd_store wd)) = []"
    "map (\<lambda>r. if claimable (clock e m) i wd r then claimed k r else r) (st_tasks (wd_store wd)) = st_tasks (wd_store wd)" for m
    by (auto intro: map_idI simp: filter_empty_conv)
  with assms(3) show ?thesis by (auto simp: TryClaimTask_def Let_def split: option.splits)
qed

lemma leased_claims:
  assumes "keys_ok (wd_store wd)" and "leased e i wd" and "claims e i ks wd = (rs, wd')"
  shows "winners rs = [] \<and> holder i wd' = holder i wd"
  using assms
proof (induction ks arbitrary: wd rs)
  case (Cons k ks)
  obtain x wd1 rs1 where s: "TryClaimTask e i k wd = (x, wd1)" "claims e i ks wd1 = (rs1, wd')" "rs = (k, x) # rs1"
    using Cons.prems(3) by (auto split: prod.splits)
  from leased_claim [OF Cons.prems(1,2) s(1)] have same: "x \<noteq> Inr True" "st_tasks (wd_store wd1) = st_tasks (wd_store wd)" "started_at wd1 = started_at wd"
    by auto
  have nb: "st_nodes (wd_store wd1) = st_nodes (wd_store wd)" "st_binds (wd_store wd1) = st_binds (wd_store wd)"
    using s(1) by (auto simp: TryClaimTask_def Let_def split: option.splits)
  have h: "holder i wd1 = holder i wd" using same(2) by (simp add: holder_def)
  have "keys_ok (wd_store wd1)" "leased e i wd1"
    using Cons.prems(1,2) same nb h by (simp_all add: keys_ok_def leased_def)
  from Cons.IH [OF this s(2)] s(3) same(1) h show ?case by (simp add: winners_def)
qed (simp add: winners_def)

text \<open>At most one row is hit: the one with the id, when it is pending or its lease has run out.\<close>

definition can_claim :: "env \<Rightarrow> int \<Rightarrow> worker_db \<Rightarrow> bool" where
  "can_claim e i wd \<longleftrightarrow> (\<exists>r. holder i wd = Some r \<and> claimable (clock e (st_writes (wd_store wd))) i wd r)"

lemma claim_hits:
  assumes "keys_ok (wd_store wd)"
  shows "filter (claimable now i wd) (st_tasks (wd_store wd)) =
    (case holder i wd of None \<Rightarrow> [] | Some r \<Rightarrow> if claimable now i wd r then [r] else [])"
proof -
  have none: "filter (claimable now i wd) ts = []" if "i \<notin> task_id ` set ts" for ts
    using that by (auto simp: filter_empty_conv claimable_def)
  have "distinct (map task_id ts) \<Longrightarrow> filter (claimable now i wd) ts =
    (case List.find (\<lambda>r. task_id r = i) ts of None \<Rightarrow> [] | Some r \<Rightarrow> if claimable now i wd r then [r] else [])" for ts
  proof (induction ts)
    case (Cons r ts)
    show ?case
    proof (cases "task_id r = i")
      case True
      with Cons.prems have "i \<notin> task_id ` set ts" by auto
      with none True show ?thesis by simp
    next
      case False
      then have "\<not> claimable now i wd r" by (simp add: claimable_def)
      with Cons False show ?thesis by simp
    qed
  qed simp
  then show ?thesis using assms by (simp add: keys_ok_def holder_def)
qed

lemma find_map_same:
  assumes "\<And>x. task_id (f x) = task_id x"
  shows "List.find (\<lambda>r. task_id r = i) (map f ts) = map_option f (List.find (\<lambda>r. task_id r = i) ts)"
  by (induction ts) (auto simp: assms)

lemma claim_cases:
  assumes "keys_ok (wd_store wd)" and "TryClaimTask e i k wd = (x, wd')"
  shows "keys_ok (wd_store wd') \<and>
    (if x = Inr True then \<exists>r. holder i wd' = Some (claimed k r) \<and> started_at wd' i = clock e (st_writes (wd_store wd))
     else holder i wd' = holder i wd \<and> (can_claim e i wd \<longrightarrow> db_err e (st_writes (wd_store wd)) \<noteq> None))"
proof -
  let ?st = "wd_store wd" and ?now = "clock e (st_writes (wd_store wd))"
  let ?f = "\<lambda>r. if claimable ?now i wd r then claimed k r else r"
  have f: "task_id (?f r) = task_id r" for r by (simp add: claimed_def)
  show ?thesis
  proof (cases "db_err e (st_writes ?st)")
    case None
    with assms(2) claim_hits [OF assms(1), of ?now i] have x: "x = Inr (can_claim e i wd)"
      by (auto simp: TryClaimTask_def Let_def can_claim_def split: option.splits if_splits)
    from assms(2) None have wd': "wd_store wd' = ?st\<lparr>st_writes := Suc (st_writes ?st), st_tasks := map ?f (st_tasks ?st)\<rparr>"
      "started_at wd' i = (if filter (claimable ?now i wd) (st_tasks ?st) = [] then started_at wd i else ?now)"
      by (auto simp: TryClaimTask_def Let_def)
    have t: "map task_id (st_tasks (wd_store wd')) = map task_id (st_tasks ?st)" using f by (simp add: wd'(1))
    have "st_nodes (wd_store wd') = st_nodes ?st" "st_binds (wd_store wd') = st_binds ?st" by (simp_all add: wd'(1))
    with assms(1) have keys: "keys_ok (wd_store wd')" by (simp add: keys_ok_def t)
    have h: "holder i wd' = map_option ?f (holder i wd)"
      unfolding holder_def wd'(1) using find_map_same [of ?f i "st_tasks ?st", OF f] by simp
    show ?thesis
    proof (cases "can_claim e i wd")
      case True
      then obtain r where "holder i wd = Some r" "claimable ?now i wd r" by (auto simp: can_claim_def)
      with h wd'(2) claim_hits [OF assms(1), of ?now i] x True keys show ?thesis by auto
    next
      case False
      then have "map_option ?f (holder i wd) = holder i wd" by (cases "holder i wd") (auto simp: can_claim_def)
      with h x False keys show ?thesis by auto
    qed
  next
    case (Some m)
    with assms show ?thesis by (auto simp: TryClaimTask_def Let_def holder_def keys_ok_def)
  qed
qed

subsection \<open>Properties\<close>

text \<open>
  C8. A task is claimed by at most one worker. Of any number of workers that try to claim a task
  within ten minutes, at most one succeeds, and the task is then running under its name; if
  the task was pending and the database accepts the writes, it is the first one.
\<close>

theorem claim_exclusive:
  assumes "keys_ok (wd_store wd)" and "\<forall>j k. clock e j - clock e k \<le> 10 * Minute" and "claims e i ks wd = (rs, wd')"
  shows "length (winners rs) \<le> 1
    \<and> (\<forall>k\<in>set (winners rs). \<exists>r. holder i wd' = Some r \<and> Status r = TaskRunning \<and> WorkerID r = k)
    \<and> (\<forall>r. holder i wd = Some r \<and> Status r = TaskPending \<and> (\<forall>k. db_err e k = None) \<and> ks \<noteq> [] \<longrightarrow> winners rs = [hd ks])"
  using assms(1,3)
proof (induction ks arbitrary: wd rs)
  case (Cons k ks)
  obtain x wd1 rs1 where s: "TryClaimTask e i k wd = (x, wd1)" "claims e i ks wd1 = (rs1, wd')" "rs = (k, x) # rs1"
    using Cons.prems(2) by (auto split: prod.splits)
  note c = claim_cases [OF Cons.prems(1) s(1)]
  show ?case
  proof (cases "x = Inr True")
    case True
    with c obtain r where h: "holder i wd1 = Some (claimed k r)" "started_at wd1 i = clock e (st_writes (wd_store wd))" by auto
    have "leased e i wd1"
      using h assms(2) by (auto simp: leased_def claimed_def) (metis diff_le_eq add.commute)
    from leased_claims [OF _ this s(2)] c have "winners rs1 = []" "holder i wd' = holder i wd1" by auto
    with s(3) True h(1) show ?thesis by (simp add: winners_def claimed_def)
  next
    case False
    with c have same: "keys_ok (wd_store wd1)" "holder i wd1 = holder i wd"
      and no: "can_claim e i wd \<longrightarrow> db_err e (st_writes (wd_store wd)) \<noteq> None" by auto
    have "\<not> (\<exists>r. holder i wd = Some r \<and> Status r = TaskPending \<and> (\<forall>k. db_err e k = None))"
      using no holder_unique [OF Cons.prems(1), of i] by (auto simp: can_claim_def claimable_def)
    with Cons.IH [OF same(1) s(2)] s(3) False show ?thesis by (auto simp: winners_def)
  qed
qed (simp add: winners_def)

definition claim_env :: env where
  "claim_env = (sample_env True)\<lparr>clock := (\<lambda>_. 5)\<rparr>"

definition claim_db :: worker_db where
  "claim_db = \<lparr>wd_store = \<lparr>st_tasks = [sample_row 1 None TaskPending], st_nodes = [], st_binds = [], st_queue = [1],
     st_events = [], st_writes = 0\<rparr>, started_at = (\<lambda>_. 0)\<rparr>"

theorem claim_exclusive_witness:
  "\<exists>rs wd'. claims claim_env 1 [''u'', ''v''] claim_db = (rs, wd') \<and> winners rs = [''u'']
     \<and> (\<exists>r. holder 1 wd' = Some r \<and> WorkerID r = ''u'')"
proof -
  obtain rs wd' where c: "claims claim_env 1 [''u'', ''v''] claim_db = (rs, wd')" by force
  have k: "keys_ok (wd_store claim_db)" by (simp add: keys_ok_def claim_db_def)
  have t: "\<forall>j k. clock claim_env j - clock claim_env k \<le> 10 * Minute" by (simp add: claim_env_def Minute_def Second_def)
  have "holder 1 claim_db = Some (sample_row 1 None TaskPending)" "\<forall>k. db_err claim_env k = None"
    by (simp_all add: holder_def claim_db_def claim_env_def sample_env_def)
  with claim_exclusive [OF k t c] have "winners rs = [''u'']" by simp
  with claim_exclusive [OF k t c] c show ?thesis by auto
qed

text \<open>
  A failed run always ends the task: the limit of the worker is 1 and the count is raised before it
  is compared, so for counts that are not negative the retry is never prepared here.
\<close>

lemma worker_never_retries:
  assumes "0 \<le> RetryCount t"
  shows "handle_failed sv r t wd =
    (let t1 = t\<lparr>RetryCount := RetryCount t + 1, ErrorMessage := (case rr_Err r of None \<Rightarrow> ErrorMessage t | Some m \<Rightarrow> m)\<rparr>
     in Some (wd\<lparr>wd_store := failTask (rv_env sv) t1 (ErrorMessage t1) ''retry_exhausted'' (wd_store wd)\<rparr>))"
  using assms by (simp add: handle_failed_def maxAutoRetryCount_def Let_def)

lemma failTask_row:
  assumes "keys_ok st" and "\<forall>k. db_err e k = None" and "r \<in> set (st_tasks st)" and "task_id r = task_id t"
  shows "\<exists>r'. r' \<in> set (st_tasks (failTask e t m fr st)) \<and> task_id r' = task_id t \<and> Status r' = TaskFailed \<and> ErrorMessage r' = m"
    and "st_queue (failTask e t m fr st) = st_queue st"
    and "\<exists>ev. st_events (failTask e t m fr st) = st_events st @ [ev] \<and> ev_Type ev = ''task_final_failed'' \<and> ev_TaskID ev = task_id t"
  using assms
  by (auto simp: failTask_def Let_def task_Update_def db_write_def table_update_def push_event_def task_put_def worker_final_failed_def image_iff
      intro!: bexI [of _ r])

subsection \<open>The end of an asynchronous job\<close>

definition completions :: "job_event list \<Rightarrow> job_event list" where
  "completions evs = filter (\<lambda>ev. ev_Type ev = ''node_complete_async'') evs"

text \<open>What the tool's outcome means for the node: the error text and the data of the result.\<close>

definition job_outcome :: "(string \<Rightarrow> async_tool option) \<Rightarrow> async_job \<Rightarrow> string + gmap" where
  "job_outcome tools j =
     (case tools (job_StepAdapter j) of
        None \<Rightarrow> Inl (''tool not found: '' @ job_StepAdapter j)
      | Some tool \<Rightarrow>
         (case at_execute tool (job_Input j) of
            ToolPanics m \<Rightarrow> Inl (''async worker panic: '' @ m)
          | ToolFails m \<Rightarrow> Inl m
          | ToolNil \<Rightarrow> Inl (''tool '' @ job_StepAdapter j @ '' returned nil result'')
          | ToolReturns d \<Rightarrow> Inr (case d of None \<Rightarrow> [] | Some m \<Rightarrow> m)))"

lemma handleJob_current:
  assumes "row_at (job_TaskID j) (job_Node j) st = Some r" and "\<not> stale_state r" and "\<not> stale_hash j r"
  shows "\<exists>ev. completions (snd (handleJob tools j st)) = [ev] \<and> last (snd (handleJob tools j st)) = ev
    \<and> ev_TaskID ev = job_TaskID j \<and> ev_Step ev = job_Node j
    \<and> (case job_outcome tools j of
         Inl m \<Rightarrow> je_Error ev = m
       | Inr d \<Rightarrow> je_Error ev = [] \<and> filter (\<lambda>(k, _). k \<noteq> AwaitUsageFactsMetaKey) (ev_Meta ev) = filter (\<lambda>(k, _). k \<noteq> AwaitUsageFactsMetaKey) d)"
proof -
  have upd: "filter (\<lambda>(k, _). k \<noteq> a) (AList.update a v m) = filter (\<lambda>(k, _). k \<noteq> a) m" for a v and m :: gmap
    by (induction m) auto
  show ?thesis
  proof (cases "tools (job_StepAdapter j)")
    case None
    with assms show ?thesis
      by (simp add: handleJob_def Let_def completions_def job_outcome_def publishAsyncCompletion_def publishJobEvent_def)
  next
    case (Some tool)
    with assms upd show ?thesis
      by (cases "at_execute tool (job_Input j)")
        (auto simp: handleJob_def Let_def completions_def job_outcome_def publishAsyncCompletion_def publishJobEvent_def
          run_tool_def completion_meta_def split: option.splits)
  qed
qed

text \<open>
  C12. An asynchronous job reports exactly once, and its result reaches the node. A job whose node
  has moved on, or whose input is no longer the node's, does not run its tool's result into an
  event. For a current job exactly one completion is published, as the last event; handled
  by the listener it closes the node: with the tool's data (without the usage facts) as its
  output, or as failed with the error, a panic of the tool included.
\<close>

theorem async_job_reports_once:
  assumes "row_at (job_TaskID j) (job_Node j) st = Some r"
  shows "if stale_state r \<or> stale_hash j r then completions (snd (handleJob tools j st)) = []
    else \<exists>ev. completions (snd (handleJob tools j st)) = [ev] \<and> last (snd (handleJob tools j st)) = ev
      \<and> (\<forall>e c. dbNodes c (job_Node j) = Some (node_runtime.truncate r) \<and> db_err e (writes c) = None \<longrightarrow>
          (\<exists>c' rt. completeAsyncNode e (job_Node j) (ev_Meta ev) (je_Error ev) c = (Inr True, c')
            \<and> dbNodes c' (job_Node j) = Some rt
            \<and> (case job_outcome tools j of
                 Inl m \<Rightarrow> m \<noteq> [] \<longrightarrow> State rt = NodeFailedPendingEdges \<and> Error rt = m
               | Inr d \<Rightarrow> State rt = NodeSuccessPendingEdges
                   \<and> Output rt = Some (filter (\<lambda>(k, _). k \<noteq> AwaitUsageFactsMetaKey) d))))"
proof (cases "stale_state r \<or> stale_hash j r")
  case True
  with assms show ?thesis by (auto simp: handleJob_def Let_def completions_def publishJobEvent_def)
next
  case False
  from handleJob_current [OF assms, of tools] False obtain ev where
    ev: "completions (snd (handleJob tools j st)) = [ev]" "last (snd (handleJob tools j st)) = ev"
    and out: "case job_outcome tools j of Inl m \<Rightarrow> je_Error ev = m
       | Inr d \<Rightarrow> je_Error ev = [] \<and> filter (\<lambda>(k, _). k \<noteq> AwaitUsageFactsMetaKey) (ev_Meta ev) = filter (\<lambda>(k, _). k \<noteq> AwaitUsageFactsMetaKey) d"
    by auto
  have act: "active_node (State r)" using False by (auto simp: stale_state_def active_node_def)
  let ?P = "\<lambda>rt. case job_outcome tools j of
       Inl m \<Rightarrow> m \<noteq> [] \<longrightarrow> State rt = NodeFailedPendingEdges \<and> Error rt = m
     | Inr d \<Rightarrow> State rt = NodeSuccessPendingEdges \<and> Output rt = Some (filter (\<lambda>(k, _). k \<noteq> AwaitUsageFactsMetaKey) d)"
  let ?row = "\<lambda>now. completed_row now (filter (\<lambda>(k, _). k \<noteq> AwaitUsageFactsMetaKey) (ev_Meta ev)) (je_Error ev) (node_runtime.truncate r)"
  have P: "?P (?row now)" for now using out by (simp add: completed_row_def split: sum.splits)
  have close: "\<exists>c' rt. completeAsyncNode e (job_Node j) (ev_Meta ev) (je_Error ev) c = (Inr True, c') \<and> dbNodes c' (job_Node j) = Some rt \<and> ?P rt"
    if "dbNodes c (job_Node j) = Some (node_runtime.truncate r) \<and> db_err e (writes c) = None" for e c
  proof -
    have "\<exists>c'. completeAsyncNode e (job_Node j) (ev_Meta ev) (je_Error ev) c = (Inr True, c') \<and> dbNodes c' (job_Node j) = Some (?row (clock e (writes c)))"
      using that act by (simp add: completeAsyncNode_def AttemptCompletePendingEdges_def splitAwaitEventPayload_def)
    with P show ?thesis by blast
  qed
  show ?thesis unfolding if_not_P [OF False] by (intro exI [of _ ev] conjI allI impI ev close) simp_all
qed

definition sample_job :: async_job where
  "sample_job = \<lparr>job_TaskID = 1, job_Node = ''a'', job_StepAdapter = ''t'', job_Input = [], job_Hash = []\<rparr>"

definition sample_tools :: "string \<Rightarrow> async_tool option" where
  "sample_tools = [''t'' \<mapsto> \<lparr>at_execute = (\<lambda>_. ToolReturns (Some [(''x'', VInt 1)])), at_usage = (\<lambda>_ _. [])\<rparr>]"

theorem async_job_reports_once_witness:
  "\<exists>ev. completions (snd (handleJob sample_tools sample_job (scan_store TaskRunning 0))) = [ev]"
proof -
  let ?r = "(sample_nrow 10 1 ''a'' NodeRunning)\<lparr>StartedAt := Some (- 100)\<rparr>"
  have r: "row_at (job_TaskID sample_job) (job_Node sample_job) (scan_store TaskRunning 0) = Some ?r"
    by (simp add: row_at_def sample_job_def scan_store_def node_key_def)
  have "\<not> (stale_state ?r \<or> stale_hash sample_job ?r)" by (simp add: stale_state_def stale_hash_def sample_job_def)
  with async_job_reports_once [OF r, of sample_tools] show ?thesis by auto
qed

end
