(* ===== verification/Flux_Replay.thy ===== *)
theory Flux_Replay
  imports Flux_Redo Flux_Worker "HOL-Library.Multiset"
begin

text \<open>
  Replay of finished tasks: \<^verbatim>\<open>engine/replay_engine.go\<close> rebuilds from the stored rows what every node has
  got and given, without running or writing anything, and \<^verbatim>\<open>engine/node_replay.go\<close> runs the tool of one
  node again on its replayed input. Copies made by way of JSON are the value itself. The times of the
  task are not in its row.
\<close>

subsection \<open>The trace\<close>

record await_info =
  ai_AwaitType :: string
  ai_Source :: string
  ai_Status :: await_status
  ai_Provider :: "string option"
  ai_ProviderTaskID :: "string option"
  ai_ResultPayload :: "gmap option"
  ai_ErrorMessage :: string
  ai_PollAttempts :: int
  ai_WaitingStartedAt :: "int option"
  ai_CompletedAt :: "int option"

record map_item_frame =
  mi_Index :: int
  mi_Output :: "gmap option"
  mi_Reused :: bool

record trace_frame =
  fr_Name :: name
  fr_Index :: nat
  fr_BizIndex :: nat
  fr_State :: node_state
  fr_StartedAt :: "int option"
  fr_FinishedAt :: "int option"
  fr_DurationMs :: "int option"
  fr_ResolvedInput :: "gmap option"
  fr_Output :: "gmap option"
  fr_OutputPersisted :: bool
  fr_ActivatedEdges :: "string \<rightharpoonup> bool"
  fr_ReuseKind :: reuse_kind
  fr_ReusedFromTaskID :: "int option"
  fr_Error :: string
  fr_AwaitInfo :: "await_info option"
  fr_MapItems :: "map_item_frame list"

record replay_trace =
  tr_TaskID :: int
  tr_WorkflowVersionID :: int
  tr_Status :: task_status
  tr_Input :: gmap
  tr_Nodes :: "trace_frame list"

subsection \<open>Outputs and items\<close>

definition rebuilt :: "go_error + gmap option \<Rightarrow> gmap option" where
  "rebuilt r = (case r of Inr (Some m) \<Rightarrow> if m = [] then None else Some m | _ \<Rightarrow> None)"

definition resolveReplayOutput :: "node_runtime \<Rightarrow> node option \<Rightarrow> gmap option \<times> bool" where
  "resolveReplayOutput rt nd =
     (if 0 < mlen (Output rt) then (Output rt, True)
      else
        (let r = (case nd of None \<Rightarrow> None
                  | Some d \<Rightarrow>
                      if Checkpoint rt = None then None
                      else if n_Type d = ''map'' then rebuilt (rebuildMapNodeOutput rt)
                      else if n_Type d = ''loop'' then rebuilt (rebuildLoopNodeOutput rt)
                      else None)
         in (r, r \<noteq> None)))"

text \<open>\<^verbatim>\<open>Sscanf\<close> with \<^verbatim>\<open>%d\<close>: leading blanks, a sign, digits; the variable keeps its 0 if there is no number.\<close>

definition scan_int :: "string \<Rightarrow> int" where
  "scan_int s =
     (let s1 = dropWhile (\<lambda>c. c = CHR '' '' \<or> c = CHR 0x09) s;
          digits = takeWhile (\<lambda>c. c \<in> set ''0123456789'');
          num = (case s1 of [] \<Rightarrow> [] | c # cs \<Rightarrow> if c = CHR ''-'' \<or> c = CHR ''+'' then c # digits cs else digits s1)
      in case ParseInt64 num of None \<Rightarrow> 0 | Some k \<Rightarrow> k)"

definition as_object :: "gval option \<Rightarrow> gmap option" where
  "as_object v = (case v of Some (VMap m) \<Rightarrow> Some m | _ \<Rightarrow> None)"

definition object_or_nil :: "gmap \<Rightarrow> string \<Rightarrow> gmap" where
  "object_or_nil cp k = (case as_object (map_of cp k) of None \<Rightarrow> [] | Some m \<Rightarrow> m)"

definition extractMapItems :: "node_runtime \<Rightarrow> map_item_frame list" where
  "extractMapItems rt =
     (case Checkpoint rt of
        None \<Rightarrow> []
      | Some cp \<Rightarrow>
         (let raw = object_or_nil cp ''results''; reused = object_or_nil cp ''reused_items''
          in map (\<lambda>i. \<lparr>mi_Index = i, mi_Output = as_object (map_of raw (FormatInt i)),
                 mi_Reused = (map_of reused (FormatInt i) = Some (VBool True))\<rparr>)
               (sort (map (\<lambda>(k, _). scan_int k) raw))))"

definition extractLoopItems :: "node_runtime \<Rightarrow> map_item_frame list" where
  "extractLoopItems rt =
     (case Checkpoint rt of
        None \<Rightarrow> []
      | Some cp \<Rightarrow>
         (case map_of cp ''results'' of
            Some (VList xs) \<Rightarrow> map (\<lambda>i. \<lparr>mi_Index = int i, mi_Output = as_object (Some (xs ! i)), mi_Reused = False\<rparr>) [0..<length xs]
          | _ \<Rightarrow> []))"

subsection \<open>Replay\<close>

definition await_trace :: "stored_binding \<Rightarrow> await_info" where
  "await_trace b = \<lparr>ai_AwaitType = ab_AwaitType b, ai_Source = ab_Source b, ai_Status = ab_Status b, ai_Provider = ab_Provider b,
     ai_ProviderTaskID = ab_ProviderTaskID b, ai_ResultPayload = ab_ResultPayload b, ai_ErrorMessage = ab_ErrorMessage b,
     ai_PollAttempts = ab_PollAttempts b, ai_WaitingStartedAt = ab_WaitingStartedAt b, ai_CompletedAt = ab_CompletedAt b\<rparr>"

definition await_by_node :: "stored_binding list \<Rightarrow> name \<rightharpoonup> stored_binding" where
  "await_by_node bs = fold (\<lambda>b m. m(ab_NodeName b \<mapsto> b)) bs Map.empty"

definition duration_ms :: "node_runtime \<Rightarrow> int option" where
  "duration_ms rt = (case (StartedAt rt, FinishedAt rt) of
      (Some a, Some b) \<Rightarrow> Some (if a \<le> b then (b - a) div 1000000 else - ((a - b) div 1000000)) | _ \<Rightarrow> None)"

definition inject_output :: "node_runtime \<Rightarrow> gmap option \<Rightarrow> run_ctx \<Rightarrow> run_ctx" where
  "inject_output rt out c =
     (if 0 < mlen out
      then c\<lparr>OutNodes := (OutNodes c)(Name rt \<mapsto> \<lparr>no_status = Some (node_state_str (State rt)), no_output = out\<rparr>)\<rparr>
      else c)"

definition resolved_input :: "env \<Rightarrow> compiled_workflow \<Rightarrow> run_ctx \<Rightarrow> name \<Rightarrow> gmap option" where
  "resolved_input e w c n =
     (case cw_nodes w n of
        None \<Rightarrow> None
      | Some nd \<Rightarrow> (case buildNodeInput e c nd (cw_graph w) of Inl _ \<Rightarrow> None | Inr inp \<Rightarrow> Some inp))"

definition replay_frame :: "env \<Rightarrow> compiled_workflow \<Rightarrow> (name \<rightharpoonup> stored_binding) \<Rightarrow> node_runtime \<Rightarrow> run_ctx \<Rightarrow> trace_frame \<times> run_ctx" where
  "replay_frame e w bs rt c =
     (case resolveReplayOutput rt (cw_nodes w (Name rt)) of
        (out, persisted) \<Rightarrow>
          (let c1 = inject_output rt out c
           in (\<lparr>fr_Name = Name rt, fr_Index = Index rt, fr_BizIndex = BizIndex rt, fr_State = State rt, fr_StartedAt = StartedAt rt,
                fr_FinishedAt = FinishedAt rt, fr_DurationMs = duration_ms rt,
                fr_ResolvedInput = resolved_input e w c1 (Name rt),
                fr_Output = out, fr_OutputPersisted = persisted, fr_ActivatedEdges = rt_ActivatedEdges rt, fr_ReuseKind = ReuseKind rt,
                fr_ReusedFromTaskID = ReusedFromTaskID rt, fr_Error = Error rt, fr_AwaitInfo = map_option await_trace (bs (Name rt)),
                fr_MapItems = (case cw_nodes w (Name rt) of
                    None \<Rightarrow> []
                  | Some nd \<Rightarrow> if n_Type nd = ''map'' then extractMapItems rt
                               else if n_Type nd = ''loop'' then extractLoopItems rt else [])\<rparr>, c1)))"

fun replay_frames :: "env \<Rightarrow> compiled_workflow \<Rightarrow> (name \<rightharpoonup> stored_binding) \<Rightarrow> node_runtime list \<Rightarrow> run_ctx \<Rightarrow> trace_frame list" where
  "replay_frames e w bs [] c = []"
| "replay_frames e w bs (rt # rts) c = (case replay_frame e w bs rt c of (f, c1) \<Rightarrow> f # replay_frames e w bs rts c1)"

definition terminal_task :: "task_status \<Rightarrow> bool" where
  "terminal_task s \<longleftrightarrow> s = TaskSuccess \<or> s = TaskFailed \<or> s = TaskCanceled"

text \<open>The rows by index. \<^verbatim>\<open>sort.Slice\<close> is not stable; rows of one index, which no run creates, keep their order here.\<close>

definition replay_rows :: "int \<Rightarrow> store \<Rightarrow> node_runtime list" where
  "replay_rows i st = sort_key Index (map node_runtime.truncate (node_FindByTaskID i st))"

definition replay_ctx :: "workflow_def \<Rightarrow> task \<Rightarrow> node_runtime list \<Rightarrow> run_ctx" where
  "replay_ctx def t rows = (memory_ctx def t)\<lparr>Runtime := fold (\<lambda>rt m. m(Name rt \<mapsto> rt)) rows Map.empty\<rparr>"

definition Replay :: "retry_services \<Rightarrow> int \<Rightarrow> store \<Rightarrow> go_error + replay_trace" where
  "Replay sv i st =
     (case GetByID i st of
        Inl m \<Rightarrow> Inl (''replay: load task: '' @ m)
      | Inr t \<Rightarrow>
         if \<not> terminal_task (Status t) then Inl ''replay: only terminal tasks can be replayed''
         else (case loadWorkflowForTask sv (task.truncate t) of
             Inl m \<Rightarrow> Inl (''replay: load workflow: '' @ m)
           | Inr (def, w) \<Rightarrow>
              (let rows = replay_rows i st
               in Inr \<lparr>tr_TaskID = i, tr_WorkflowVersionID = WorkflowVersionID t, tr_Status = Status t,
                    tr_Input = parseTaskInputOrEmpty (InputJSON t),
                    tr_Nodes = replay_frames (rv_env sv) w (await_by_node (bind_ListByTaskID i st)) rows
                       (replay_ctx def (task.truncate t) rows)\<rparr>)))"

text \<open>
  \<^verbatim>\<open>ReplayToWS\<close>: the stored events of the task are pushed again to its channel. The query it uses takes
  a limit of 0 as 500. The delays and a canceled context are left out.
\<close>

definition FindPersistentByTaskID :: "int \<Rightarrow> bus \<Rightarrow> bus_event list" where
  "FindPersistentByTaskID i b = take 500 (filter (\<lambda>ev. ev_TaskID ev = i \<and> Grade ev = GradePersistent) (bus_rows b))"

definition ReplayToWS :: "int \<Rightarrow> store \<Rightarrow> bus \<Rightarrow> go_error option \<times> bus" where
  "ReplayToWS i st b =
     (case GetByID i st of
        Inl m \<Rightarrow> (Some (''replay ws: load task: '' @ m), b)
      | Inr t \<Rightarrow>
         if \<not> terminal_task (Status t) then (Some ''replay ws: only terminal tasks can be replayed'', b)
         else (None, fold (PublishToChannel (TaskChannel i)) (FindPersistentByTaskID i b) b))"

subsection \<open>Replay of one node\<close>

record node_replay_result =
  nr_TaskID :: int
  nr_NodeName :: name
  nr_NodeState :: string
  nr_NodeType :: string
  nr_Tool :: string
  nr_ResolvedInput :: "gmap option"
  nr_OriginalOutput :: "gmap option"
  nr_OriginalError :: string
  nr_ReplayOutput :: "gmap option"
  nr_ReplayError :: string
  nr_Executed :: bool

text \<open>A tool of the registry: whether it runs synchronously, and what it returns (an error, nil, or a result).\<close>

datatype replay_outcome = ReplayFails go_error | ReplayNil | ReplayResult bool string "gmap option"

record replay_tool =
  rt_sync :: bool
  rt_execute :: "gmap option \<Rightarrow> replay_outcome"

definition isNodeReplayAllowedState :: "node_state \<Rightarrow> bool" where
  "isNodeReplayAllowedState s \<longleftrightarrow> s \<in> {NodeSuccess, NodeSuccessPendingEdges, NodeFailed, NodeFailedPendingEdges}"

definition loadNodeDefinition :: "retry_services \<Rightarrow> int \<Rightarrow> name \<Rightarrow> go_error + node_def" where
  "loadNodeDefinition sv v n =
     (case rv_version sv v of
        Inl m \<Rightarrow> Inl m
      | Inr def \<Rightarrow> (case List.find (\<lambda>nd. nd_Name nd = n) (wf_Nodes def) of
            None \<Rightarrow> Inl (''node definition not found: '' @ n) | Some nd \<Rightarrow> Inr nd))"

definition findReplayFrame :: "replay_trace \<Rightarrow> name \<Rightarrow> trace_frame option" where
  "findReplayFrame tr n = List.find (\<lambda>f. fr_Name f = n) (tr_Nodes tr)"

definition config_tool :: "node_def \<Rightarrow> string" where
  "config_tool nd = TrimSpace (case map_of (nd_Config nd) ''tool'' of Some (VStr s) \<Rightarrow> s | _ \<Rightarrow> [])"

definition run_replay :: "replay_tool \<Rightarrow> node_replay_result \<Rightarrow> node_replay_result" where
  "run_replay tool res =
     (case rt_execute tool (nr_ResolvedInput res) of
        ReplayFails m \<Rightarrow> res\<lparr>nr_ReplayError := m\<rparr>
      | ReplayNil \<Rightarrow> res\<lparr>nr_ReplayError := ''tool returned nil result''\<rparr>
      | ReplayResult ok err d \<Rightarrow>
          res\<lparr>nr_ReplayError := (if \<not> ok \<and> TrimSpace err \<noteq> [] then err else []), nr_ReplayOutput := d\<rparr>)"

definition replayed_node :: "retry_services \<Rightarrow> (string \<Rightarrow> replay_tool option) \<Rightarrow> int \<Rightarrow> name \<Rightarrow> bool \<Rightarrow> node_row \<Rightarrow> string \<Rightarrow> store
    \<Rightarrow> go_error + node_replay_result" where
  "replayed_node sv tools i n execute row tool st =
     (case Replay sv i st of
        Inl m \<Rightarrow> Inl m
      | Inr tr \<Rightarrow>
         (case findReplayFrame tr n of
            None \<Rightarrow> Inl (''node was not found in replay trace: '' @ n)
          | Some f \<Rightarrow>
             (let res = \<lparr>nr_TaskID = i, nr_NodeName = n, nr_NodeState = node_state_str (State row), nr_NodeType = ''tool'', nr_Tool = tool,
                    nr_ResolvedInput = fr_ResolvedInput f, nr_OriginalOutput = fr_Output f, nr_OriginalError = Error row,
                    nr_ReplayOutput = None, nr_ReplayError = [], nr_Executed = execute\<rparr>
              in if \<not> execute then Inr res
                 else case tools tool of
                     None \<Rightarrow> Inl (''tool not found: '' @ tool)
                   | Some tool1 \<Rightarrow> if \<not> rt_sync tool1 then Inl ''tool is not replayable via sync debug endpoint''
                               else Inr (run_replay tool1 res))))"

definition ReplayTaskNode :: "retry_services \<Rightarrow> (string \<Rightarrow> replay_tool option) \<Rightarrow> int \<Rightarrow> name \<Rightarrow> bool \<Rightarrow> store
    \<Rightarrow> go_error + node_replay_result" where
  "ReplayTaskNode sv tools i nodeName execute st =
     (let n = TrimSpace nodeName
      in if n = [] then Inl ''node name is required''
         else case GetByID i st of
             Inl m \<Rightarrow> Inl m
           | Inr t \<Rightarrow>
              (case row_at i n st of
                 None \<Rightarrow> Inl (''node runtime not found: '' @ n)
               | Some row \<Rightarrow>
                  if \<not> isNodeReplayAllowedState (State row) then Inl ''only success/failed nodes can be replayed''
                  else (case loadNodeDefinition sv (WorkflowVersionID t) n of
                      Inl m \<Rightarrow> Inl m
                    | Inr nd \<Rightarrow>
                        if nd_Type nd \<noteq> ''tool'' then Inl ''only tool nodes are supported''
                        else if config_tool nd = [] then Inl ''missing config.tool''
                        else replayed_node sv tools i n execute row (config_tool nd) st)))"

subsection \<open>What a frame is computed from\<close>

text \<open>The outputs that the frames so far have put into the context.\<close>

definition frame_outputs :: "trace_frame list \<Rightarrow> name \<rightharpoonup> node_out" where
  "frame_outputs fs = fold (\<lambda>f m. if 0 < mlen (fr_Output f)
     then m(fr_Name f \<mapsto> \<lparr>no_status = Some (node_state_str (fr_State f)), no_output = fr_Output f\<rparr>) else m) fs Map.empty"

lemma replay_frame_fields:
  assumes "replay_frame e w bs rt c = (f, c1)"
  shows "fr_Name f = Name rt" "fr_Index f = Index rt" "fr_State f = State rt"
    "(fr_Output f, fr_OutputPersisted f) = resolveReplayOutput rt (cw_nodes w (Name rt))"
    "c1 = inject_output rt (fr_Output f) c"
    "fr_ResolvedInput f = resolved_input e w c1 (Name rt)"
  using assms by (auto simp: replay_frame_def Let_def split: prod.splits)

lemma replay_frames_exact:
  "\<lbrakk>replay_frames e w bs rts c = fs; OutNodes c = frame_outputs gs\<rbrakk> \<Longrightarrow>
    map fr_Name fs = map Name rts \<and> map fr_Index fs = map Index rts \<and>
    (\<forall>k<length rts. (fr_Output (fs ! k), fr_OutputPersisted (fs ! k)) = resolveReplayOutput (rts ! k) (cw_nodes w (Name (rts ! k)))
      \<and> fr_ResolvedInput (fs ! k) = resolved_input e w (c\<lparr>OutNodes := frame_outputs (gs @ take (Suc k) fs)\<rparr>) (Name (rts ! k)))"
proof (induction rts arbitrary: c fs gs)
  case (Cons rt rts)
  obtain f c1 where f: "replay_frame e w bs rt c = (f, c1)" by force
  define fs1 where "fs1 = replay_frames e w bs rts c1"
  have fs: "fs = f # fs1" using Cons.prems(1) f by (simp add: fs1_def)
  note ff = replay_frame_fields [OF f]
  have out: "OutNodes c1 = frame_outputs (gs @ [f])"
    using ff(1,3,5) Cons.prems(2) by (simp add: inject_output_def frame_outputs_def)
  have c1: "c1\<lparr>OutNodes := x\<rparr> = c\<lparr>OutNodes := x\<rparr>" for x using ff(5) by (simp add: inject_output_def)
  have "c1 = c1\<lparr>OutNodes := OutNodes c1\<rparr>" by simp
  also have "\<dots> = c\<lparr>OutNodes := frame_outputs (gs @ [f])\<rparr>" by (simp only: c1 out)
  finally have c1': "c\<lparr>OutNodes := frame_outputs (gs @ [f])\<rparr> = c1" ..
  note ih = Cons.IH [OF fs1_def [symmetric] out]
  show ?case
  proof (intro conjI allI impI)
    show "map fr_Name fs = map Name (rt # rts)" "map fr_Index fs = map Index (rt # rts)" using ih ff(1,2) fs by auto
    fix k assume k: "k < length (rt # rts)"
    show "(fr_Output (fs ! k), fr_OutputPersisted (fs ! k)) = resolveReplayOutput ((rt # rts) ! k) (cw_nodes w (Name ((rt # rts) ! k)))"
      using ih k ff(4) fs by (cases k) auto
    show "fr_ResolvedInput (fs ! k) = resolved_input e w (c\<lparr>OutNodes := frame_outputs (gs @ take (Suc k) fs)\<rparr>) (Name ((rt # rts) ! k))"
      using ih k ff(6) by (cases k) (simp_all add: fs c1 c1')
  qed
qed simp

lemma replay_rows_set: "set (replay_rows i st) = node_runtime.truncate ` {r \<in> set (st_nodes st). node_TaskID r = i}"
  by (auto simp: replay_rows_def node_FindByTaskID_def)

lemma replay_rows_sorted: "sorted (map Index (replay_rows i st))"
  by (simp add: replay_rows_def)

lemma replay_rows_distinct:
  assumes "keys_ok st"
  shows "distinct (map Name (replay_rows i st))"
proof -
  have "mset (map Name (replay_rows i st)) = mset (map Name (filter (\<lambda>r. node_TaskID r = i) (st_nodes st)))"
    by (simp add: replay_rows_def node_FindByTaskID_def multiset.map_comp comp_def node_runtime.defs)
  moreover have "distinct (map Name (filter (\<lambda>r. node_TaskID r = i) (st_nodes st)))"
    using assms by (auto simp: keys_ok_def distinct_map inj_on_def node_key_def)
  ultimately show ?thesis using mset_eq_imp_distinct_iff by blast
qed

lemma PublishToChannel_all:
  "fold (PublishToChannel ch) evs b = (if has_publisher b then b\<lparr>bus_pushed := bus_pushed b @ map (\<lambda>ev. (ch, ev)) evs\<rparr> else b)"
  by (induction evs arbitrary: b) (simp_all add: PublishToChannel_def)

text \<open>Of more than 500 stored events only the first 500 are pushed again.\<close>

lemma ReplayToWS_effect:
  assumes "ReplayToWS i st b = (None, b')" and "has_publisher b"
  shows "b' = b\<lparr>bus_pushed := bus_pushed b @ map (\<lambda>ev. (TaskChannel i, ev))
    (take 500 (filter (\<lambda>ev. ev_TaskID ev = i \<and> Grade ev = GradePersistent) (bus_rows b)))\<rparr>"
  using assms by (auto simp: ReplayToWS_def PublishToChannel_all FindPersistentByTaskID_def split: sum.splits if_splits)

subsection \<open>Properties\<close>

text \<open>
  C26. A replay shows every node once, in the order of the run, with what it had got and given. The
  frames are the rows of the task by index; the output of a frame is the stored one, or the
  one rebuilt from the checkpoint of a map or loop; and its input is what the engine builds
  from the outputs of the frames up to it. Only finished tasks are replayed.
\<close>

theorem replay_trace_exact:
  assumes "keys_ok st" and "Replay sv i st = Inr tr"
  shows "\<exists>t def w. GetByID i st = Inr t \<and> terminal_task (Status t) \<and> loadWorkflowForTask sv (task.truncate t) = Inr (def, w)
    \<and> distinct (map fr_Name (tr_Nodes tr)) \<and> sorted (map fr_Index (tr_Nodes tr))
    \<and> set (map fr_Name (tr_Nodes tr)) = {n. row_at i n st \<noteq> None}
    \<and> (\<forall>k<length (tr_Nodes tr). \<exists>r. row_at i (fr_Name (tr_Nodes tr ! k)) st = Some r
        \<and> (fr_Output (tr_Nodes tr ! k), fr_OutputPersisted (tr_Nodes tr ! k)) = resolveReplayOutput (node_runtime.truncate r) (cw_nodes w (Name r))
        \<and> fr_ResolvedInput (tr_Nodes tr ! k) = resolved_input (rv_env sv) w
            ((replay_ctx def (task.truncate t) (replay_rows i st))\<lparr>OutNodes := frame_outputs (take (Suc k) (tr_Nodes tr))\<rparr>) (Name r))"
proof -
  from assms(2) obtain t def w where t: "GetByID i st = Inr t" "terminal_task (Status t)" "loadWorkflowForTask sv (task.truncate t) = Inr (def, w)"
    and tr: "tr_Nodes tr = replay_frames (rv_env sv) w (await_by_node (bind_ListByTaskID i st)) (replay_rows i st)
        (replay_ctx def (task.truncate t) (replay_rows i st))"
    by (auto simp: Replay_def Let_def split: sum.splits if_splits)
  let ?rows = "replay_rows i st" and ?c = "replay_ctx def (task.truncate t) (replay_rows i st)"
  have "OutNodes ?c = frame_outputs []" by (simp add: replay_ctx_def memory_ctx_def newRunContext_def frame_outputs_def)
  note fr = replay_frames_exact [OF tr [symmetric] this]
  note rows = replay_rows_set [of i st]
  have row: "row_at i (Name rt) st = Some r" if "rt = node_runtime.truncate r" "r \<in> set (st_nodes st)" "node_TaskID r = i" for rt r
    using that row_at_Some [of st i "Name rt" r] assms(1) by (simp add: keys_ok_def node_key_def node_runtime.defs)
  have names: "set (map Name ?rows) = {n. row_at i n st \<noteq> None}"
  proof (intro equalityI subsetI)
    fix n assume "n \<in> set (map Name ?rows)"
    then obtain r where "n = Name (node_runtime.truncate r)" "r \<in> set (st_nodes st)" "node_TaskID r = i" using rows by auto
    with row [OF refl] show "n \<in> {n. row_at i n st \<noteq> None}" by simp
  next
    fix n assume "n \<in> {n. row_at i n st \<noteq> None}"
    then obtain r where "row_at i n st = Some r" by auto
    then have "r \<in> set (st_nodes st)" "node_TaskID r = i" "Name (node_runtime.truncate r) = n"
      by (auto simp: node_key_def node_runtime.defs dest!: row_atD)
    moreover from this rows have "node_runtime.truncate r \<in> set ?rows" by simp
    ultimately show "n \<in> set (map Name ?rows)" by (metis image_eqI set_map)
  qed
  have at: "\<exists>r. row_at i (Name (?rows ! k)) st = Some r \<and> ?rows ! k = node_runtime.truncate r" if "k < length ?rows" for k
  proof -
    from nth_mem [OF that] rows obtain r where "?rows ! k = node_runtime.truncate r" "r \<in> set (st_nodes st)" "node_TaskID r = i" by auto
    with row show ?thesis by blast
  qed
  have len: "length (tr_Nodes tr) = length ?rows" using fr by (metis length_map)
  have nm: "fr_Name (tr_Nodes tr ! k) = Name (?rows ! k)" if "k < length ?rows" for k
    using fr that len by (metis nth_map)
  have tn: "Name (node_runtime.truncate r) = Name r" for r :: node_row by (simp add: node_runtime.defs)
  have "\<exists>r. row_at i (fr_Name (tr_Nodes tr ! k)) st = Some r
        \<and> (fr_Output (tr_Nodes tr ! k), fr_OutputPersisted (tr_Nodes tr ! k)) = resolveReplayOutput (node_runtime.truncate r) (cw_nodes w (Name r))
        \<and> fr_ResolvedInput (tr_Nodes tr ! k) = resolved_input (rv_env sv) w
            (?c\<lparr>OutNodes := frame_outputs (take (Suc k) (tr_Nodes tr))\<rparr>) (Name r)" if "k < length (tr_Nodes tr)" for k
  proof -
    from that len have k: "k < length ?rows" by simp
    from at [OF k] obtain r where r: "row_at i (Name (?rows ! k)) st = Some r" "?rows ! k = node_runtime.truncate r" by blast
    from fr k have "(fr_Output (tr_Nodes tr ! k), fr_OutputPersisted (tr_Nodes tr ! k)) = resolveReplayOutput (?rows ! k) (cw_nodes w (Name (?rows ! k)))"
      "fr_ResolvedInput (tr_Nodes tr ! k) = resolved_input (rv_env sv) w (?c\<lparr>OutNodes := frame_outputs ([] @ take (Suc k) (tr_Nodes tr))\<rparr>) (Name (?rows ! k))"
      by blast+
    with r show ?thesis by (intro exI [of _ r]) (simp add: nm [OF k] tn)
  qed
  with t fr names replay_rows_distinct [OF assms(1), of i] show ?thesis
    by (intro exI [of _ t] exI [of _ def] exI [of _ w] conjI allI impI) (simp_all add: replay_rows_sorted)
qed

theorem replay_trace_exact_witness:
  "\<exists>tr. Replay redo_services 1 (fd_store redo_db) = Inr tr \<and> map fr_Name (tr_Nodes tr) = [''a'', ''b'']
     \<and> sorted (map fr_Index (tr_Nodes tr))"
proof -
  have "case Replay redo_services 1 (fd_store redo_db) of Inr tr \<Rightarrow> map fr_Name (tr_Nodes tr) = [''a'', ''b''] | Inl _ \<Rightarrow> False"
    by code_simp
  then obtain tr where r: "Replay redo_services 1 (fd_store redo_db) = Inr tr" "map fr_Name (tr_Nodes tr) = [''a'', ''b'']"
    by (auto split: sum.splits)
  have k: "keys_ok (fd_store redo_db)" by code_simp
  from replay_trace_exact [OF k r(1)] r show ?thesis by auto
qed

end
