(* ===== verification/Flux_Versions.thy ===== *)
theory Flux_Versions
  imports Flux_Worker "HOL-Library.Product_Lexorder" "HOL-Library.List_Lexorder" "HOL-Library.Char_ord" "HOL-Library.Multiset"
begin

text \<open>
  Versions of workflow definitions: \<^verbatim>\<open>registry/workflow_registry.go\<close> stores a definition under its name and
  publishes a new version when its hash has changed; the hash is that of
  \<^verbatim>\<open>definition/workflow_definition.go\<close>. The digest (SHA-256 of the JSON text), the text that
  \<^verbatim>\<open>json.Marshal\<close> writes for a value of any type, and what the database column makes of a stored text are
  parameters.
\<close>

subsection \<open>The full definition\<close>

record slice_def =
  sl_Tool :: string
  sl_Config :: gmap
  sl_InputMapping :: "(string \<times> string) list"
  sl_Version :: string

text \<open>Whether the map of extras is nil is kept apart, since JSON tells nil from the empty map there.\<close>

record full_def = workflow_def +
  wf_OutputSlices :: "(string \<times> slice_def option) list"
  wf_Desc :: string
  wf_NilExtras :: bool

subsection \<open>The hash\<close>

record node_hash =
  nh_Name :: name
  nh_Type :: string
  nh_Weight :: rat
  nh_Config :: gmap
  nh_InputMapping :: "(string \<times> string) list"

record edge_hash =
  eh_From :: name
  eh_To :: name
  eh_Type :: string
  eh_Condition :: string
  eh_CaseKey :: string
  eh_Priority :: int
  eh_Label :: string

record slice_hash =
  sh_Tool :: string
  sh_Config :: gmap
  sh_InputMapping :: "(string \<times> string) list"
  sh_Version :: string

record workflow_hash =
  wh_Name :: string
  wh_Desc :: string
  wh_Output :: output_def
  wh_NilExtras :: bool
  wh_Slices :: "(string \<times> slice_hash) list"
  wh_Nodes :: "node_hash list"
  wh_Edges :: "edge_hash list"

text \<open>
  \<^verbatim>\<open>NormalizeAny\<close> and \<^verbatim>\<open>NormalizeAnyMap\<close>: an empty map becomes nil, at every depth. At the top nil and the
  empty map are both left out of the JSON text.
\<close>

fun NormalizeAny :: "gval \<Rightarrow> gval" where
  "NormalizeAny (VMap m) = (if m = [] then VNil else VMap (map (\<lambda>(k, v). (k, NormalizeAny v)) m))"
| "NormalizeAny (VList xs) = VList (map NormalizeAny xs)"
| "NormalizeAny v = v"

definition NormalizeAnyMap :: "gmap \<Rightarrow> gmap" where
  "NormalizeAnyMap m = map (\<lambda>(k, v). (k, NormalizeAny v)) m"

definition node_part :: "node_def \<Rightarrow> node_hash" where
  "node_part n = \<lparr>nh_Name = nd_Name n, nh_Type = nd_Type n, nh_Weight = nd_Weight n,
     nh_Config = NormalizeAnyMap (nd_Config n), nh_InputMapping = nd_InputMapping n\<rparr>"

definition edge_part :: "edge_def \<Rightarrow> edge_hash" where
  "edge_part d = \<lparr>eh_From = From d, eh_To = To d, eh_Type = EType d, eh_Condition = Condition d,
     eh_CaseKey = CaseKey d, eh_Priority = Priority d, eh_Label = edge_Label d\<rparr>"

definition slice_part :: "slice_def \<Rightarrow> slice_hash" where
  "slice_part s = \<lparr>sh_Tool = sl_Tool s, sh_Config = NormalizeAnyMap (sl_Config s),
     sh_InputMapping = sl_InputMapping s, sh_Version = sl_Version s\<rparr>"

definition cloneOutputSlicesHash :: "(string \<times> slice_def option) list \<Rightarrow> (string \<times> slice_hash) list" where
  "cloneOutputSlicesHash sl = List.map_filter (\<lambda>(k, v). map_option (\<lambda>s. (k, slice_part s)) v) sl"

text \<open>
  What \<^verbatim>\<open>json.Marshal\<close> writes of the structure: a struct field by field, a map in the order of its keys,
  a value of any type as the text \<open>json\<close> gives for it. So neither the order of a map nor a
  difference that the text does not show (1 and 1.0) reaches the digest.
\<close>

definition object :: "('v \<Rightarrow> 'j) \<Rightarrow> (string \<times> 'v) list \<Rightarrow> (string \<times> 'j) list" where
  "object f m = sort_key fst (map (\<lambda>(k, v). (k, f v)) m)"

definition node_json :: "(gval \<Rightarrow> 'j) \<Rightarrow> node_hash \<Rightarrow> name \<times> string \<times> rat \<times> (string \<times> 'j) list \<times> (string \<times> string) list" where
  "node_json json n = (nh_Name n, nh_Type n, nh_Weight n, object json (nh_Config n), object id (nh_InputMapping n))"

definition slice_json :: "(gval \<Rightarrow> 'j) \<Rightarrow> slice_hash \<Rightarrow> string \<times> (string \<times> 'j) list \<times> (string \<times> string) list \<times> string" where
  "slice_json json s = (sh_Tool s, object json (sh_Config s), object id (sh_InputMapping s), sh_Version s)"

definition output_json :: "bool \<Rightarrow> output_def \<Rightarrow> output_def \<times> (string \<times> string) list option" where
  "output_json isnil o' = (o'\<lparr>od_Extras := []\<rparr>, if isnil then None else Some (object id (od_Extras o')))"

type_synonym 'j hash_text = "string \<times> string \<times> (output_def \<times> (string \<times> string) list option)
  \<times> (string \<times> string \<times> (string \<times> 'j) list \<times> (string \<times> string) list \<times> string) list
  \<times> (name \<times> string \<times> rat \<times> (string \<times> 'j) list \<times> (string \<times> string) list) list \<times> edge_hash list"

definition workflow_json :: "(gval \<Rightarrow> 'j) \<Rightarrow> workflow_hash \<Rightarrow> 'j hash_text" where
  "workflow_json json h = (wh_Name h, wh_Desc h, output_json (wh_NilExtras h) (wh_Output h),
     object (slice_json json) (wh_Slices h), map (node_json json) (wh_Nodes h), wh_Edges h)"

text \<open>
  \<^verbatim>\<open>sort.Slice\<close> promises a sorted permutation and leaves the order of equal keys open: the two sorting
  functions are arguments. The keys are compared field by field.
\<close>

definition edge_order :: "edge_hash \<Rightarrow> name \<times> name \<times> string \<times> string \<times> string \<times> int \<times> string" where
  "edge_order d = (eh_From d, eh_To d, eh_Type d, eh_Condition d, eh_CaseKey d, eh_Priority d, eh_Label d)"

definition hashWorkflow :: "('j hash_text \<Rightarrow> 'h) \<Rightarrow> (gval \<Rightarrow> 'j) \<Rightarrow> (node_hash list \<Rightarrow> node_hash list)
    \<Rightarrow> (edge_hash list \<Rightarrow> edge_hash list) \<Rightarrow> full_def \<Rightarrow> 'h" where
  "hashWorkflow digest json sort_nodes sort_edges def = digest (workflow_json json
     \<lparr>wh_Name = wf_Name def, wh_Desc = wf_Desc def, wh_Output = wf_Output def, wh_NilExtras = wf_NilExtras def,
      wh_Slices = cloneOutputSlicesHash (wf_OutputSlices def),
      wh_Nodes = sort_nodes (map node_part (wf_Nodes def)), wh_Edges = sort_edges (map edge_part (wf_Edges def))\<rparr>)"

subsection \<open>The contract of a sort\<close>

locale slice_sort =
  fixes srt :: "'a list \<Rightarrow> 'a list" and key :: "'a \<Rightarrow> 'k::linorder"
  assumes srt_mset: "mset (srt xs) = mset xs" and srt_sorted: "sorted (map key (srt xs))"
begin

text \<open>Where no two elements have the same key there is only one sorted permutation.\<close>

lemma srt_unique:
  assumes "inj_on key (set xs)"
  shows "srt xs = sort_key key xs"
  by (rule sym, rule sort_key_inj_key_eq) (simp_all add: assms srt_mset srt_sorted)

end

interpretation node_sort: slice_sort "sort_key nh_Name" nh_Name
  by unfold_locales simp_all

interpretation edge_sort: slice_sort "sort_key edge_order" edge_order
  by unfold_locales simp_all

subsection \<open>The tables\<close>

record workflow_row =
  wr_ID :: int
  wr_Name :: string
  wr_Desc :: string

text \<open>\<open>vr_JSON\<close> is the text that a query gives for the column.\<close>

record ('h, 't) version_row =
  vr_ID :: int
  vr_WorkflowID :: int
  vr_Version :: int
  vr_Hash :: 'h
  vr_JSON :: 't

record ('h, 't) registry_db =
  rg_workflows :: "workflow_row list"
  rg_versions :: "('h, 't) version_row list"
  rg_known :: "string \<rightharpoonup> full_def"
  rg_writes :: nat

definition rg_write :: "env \<Rightarrow> (('h, 't) registry_db \<Rightarrow> ('h, 't) registry_db) \<Rightarrow> ('h, 't) registry_db \<Rightarrow> go_error option \<times> ('h, 't) registry_db" where
  "rg_write e f db =
     (let db1 = db\<lparr>rg_writes := Suc (rg_writes db)\<rparr>
      in case db_err e (rg_writes db) of Some m \<Rightarrow> (Some m, db1) | None \<Rightarrow> (None, f db1))"

definition GetByName :: "string \<Rightarrow> ('h, 't) registry_db \<Rightarrow> workflow_row option" where
  "GetByName n db = List.find (\<lambda>w. wr_Name w = n) (rg_workflows db)"

text \<open>Ids are given by the database; the newest version is the one with the highest number, of equals the oldest row.\<close>

definition next_id :: "('r \<Rightarrow> int) \<Rightarrow> 'r list \<Rightarrow> int" where
  "next_id f rs = Max (insert 0 (f ` set rs)) + 1"

definition GetLatestByWorkflowID :: "int \<Rightarrow> ('h, 't) registry_db \<Rightarrow> ('h, 't) version_row option" where
  "GetLatestByWorkflowID i db =
     (case sort_key (\<lambda>v. - vr_Version v) (filter (\<lambda>v. vr_WorkflowID v = i) (rg_versions db)) of
        [] \<Rightarrow> None | v # _ \<Rightarrow> Some v)"

text \<open>
  The column gives back what the database made of the text it was given (\<open>column\<close>): \<^verbatim>\<open>jsonb\<close> writes a
  document in its own form, a text column leaves it as it is.
\<close>

definition UpdateDefinitionJSON :: "env \<Rightarrow> ('t \<Rightarrow> 't) \<Rightarrow> int \<Rightarrow> 't \<Rightarrow> ('h, 't) registry_db \<Rightarrow> go_error option \<times> ('h, 't) registry_db" where
  "UpdateDefinitionJSON e column i js = rg_write e (\<lambda>db. db\<lparr>rg_versions :=
     map (\<lambda>v. if vr_ID v = i then v\<lparr>vr_JSON := column js\<rparr> else v) (rg_versions db)\<rparr>)"

subsection \<open>Registration\<close>

definition get_or_create :: "env \<Rightarrow> full_def \<Rightarrow> ('h, 't) registry_db \<Rightarrow> (go_error + int) \<times> ('h, 't) registry_db" where
  "get_or_create e def db =
     (case GetByName (wf_Name def) db of
        None \<Rightarrow>
          (let i = next_id wr_ID (rg_workflows db)
           in case rg_write e (\<lambda>db. db\<lparr>rg_workflows := rg_workflows db @ [\<lparr>wr_ID = i, wr_Name = wf_Name def, wr_Desc = wf_Desc def\<rparr>]\<rparr>) db of
                (Some m, db1) \<Rightarrow> (Inl m, db1) | (None, db1) \<Rightarrow> (Inr i, db1))
      | Some w \<Rightarrow>
          if wr_Desc w = wf_Desc def then (Inr (wr_ID w), db)
          else (case rg_write e (\<lambda>db. db\<lparr>rg_workflows :=
                   map (\<lambda>x. if wr_ID x = wr_ID w then x\<lparr>wr_Name := wf_Name def, wr_Desc := wf_Desc def\<rparr> else x) (rg_workflows db)\<rparr>) db of
                 (Some m, db1) \<Rightarrow> (Inl m, db1) | (None, db1) \<Rightarrow> (Inr (wr_ID w), db1)))"

definition publish_version :: "env \<Rightarrow> ('t \<Rightarrow> 't) \<Rightarrow> int \<Rightarrow> 'h \<Rightarrow> 't \<Rightarrow> ('h, 't) registry_db \<Rightarrow> go_error option \<times> ('h, 't) registry_db" where
  "publish_version e column i h js db =
     (let now = clock e (rg_writes db) div Second; k = next_id vr_ID (rg_versions db)
      in rg_write e (\<lambda>db. db\<lparr>rg_versions := rg_versions db
           @ [\<lparr>vr_ID = k, vr_WorkflowID = i, vr_Version = now, vr_Hash = h, vr_JSON = column js\<rparr>]\<rparr>) db)"

definition syncWorkflow :: "env \<Rightarrow> (full_def \<Rightarrow> 'h) \<Rightarrow> (full_def \<Rightarrow> 't) \<Rightarrow> ('t \<Rightarrow> 't) \<Rightarrow> full_def \<Rightarrow> ('h, 't) registry_db
    \<Rightarrow> go_error option \<times> ('h, 't) registry_db" where
  "syncWorkflow e hash marshal column def db =
     (case get_or_create e def db of
        (Inl m, db1) \<Rightarrow> (Some m, db1)
      | (Inr i, db1) \<Rightarrow>
         (case GetLatestByWorkflowID i db1 of
            None \<Rightarrow> publish_version e column i (hash def) (marshal def) db1
          | Some v \<Rightarrow>
              if vr_Hash v = hash def then
                (if marshal def = vr_JSON v then (None, db1) else UpdateDefinitionJSON e column (vr_ID v) (marshal def) db1)
              else publish_version e column i (hash def) (marshal def) db1))"

definition RegisterAndSync :: "env \<Rightarrow> (full_def \<Rightarrow> 'h) \<Rightarrow> (full_def \<Rightarrow> 't) \<Rightarrow> ('t \<Rightarrow> 't) \<Rightarrow> full_def \<Rightarrow> ('h, 't) registry_db \<Rightarrow> go_error option \<times> ('h, 't) registry_db" where
  "RegisterAndSync e hash marshal column def db =
     (if rg_known db (wf_Name def) \<noteq> None then (Some (''workflow '' @ wf_Name def @ '' already registered''), db)
      else case syncWorkflow e hash marshal column def db of
          (Some m, db1) \<Rightarrow> (Some m, db1)
        | (None, db1) \<Rightarrow> (None, db1\<lparr>rg_known := (rg_known db1)(wf_Name def \<mapsto> def)\<rparr>))"

definition workflow_Register :: "full_def \<Rightarrow> ('h, 't) registry_db \<Rightarrow> ('h, 't) registry_db exec" where
  "workflow_Register def db =
     (if rg_known db (wf_Name def) \<noteq> None then Panic (''workflow '' @ wf_Name def @ '' already exists'')
      else Ret (db\<lparr>rg_known := (rg_known db)(wf_Name def \<mapsto> def)\<rparr>))"

text \<open>\<^verbatim>\<open>Sync\<close> visits the registered definitions in the order of a map, an argument.\<close>

fun sync_all :: "env \<Rightarrow> (full_def \<Rightarrow> 'h) \<Rightarrow> (full_def \<Rightarrow> 't) \<Rightarrow> ('t \<Rightarrow> 't) \<Rightarrow> string list \<Rightarrow> ('h, 't) registry_db \<Rightarrow> go_error option \<times> ('h, 't) registry_db" where
  "sync_all e hash marshal column [] db = (None, db)"
| "sync_all e hash marshal column (n # ns) db =
     (case rg_known db n of
        None \<Rightarrow> sync_all e hash marshal column ns db
      | Some def \<Rightarrow> (case syncWorkflow e hash marshal column def db of
            (Some m, db1) \<Rightarrow> (Some m, db1)
          | (None, db1) \<Rightarrow> sync_all e hash marshal column ns db1))"

subsection \<open>The newest version\<close>

definition registry_ok :: "('h, 't) registry_db \<Rightarrow> bool" where
  "registry_ok db \<longleftrightarrow> distinct (map wr_Name (rg_workflows db)) \<and> distinct (map wr_ID (rg_workflows db))
     \<and> distinct (map vr_ID (rg_versions db))"

lemma sort_key_hd:
  assumes "sort_key f xs = y # ys"
  shows "y \<in> set xs \<and> (\<forall>x\<in>set xs. f y \<le> f x)"
proof -
  have "set (sort_key f xs) = set xs" "sorted (map f (sort_key f xs))" by simp_all
  with assms show ?thesis by auto
qed

lemma latest_in: "GetLatestByWorkflowID i db = Some v \<Longrightarrow> v \<in> set (rg_versions db) \<and> vr_WorkflowID v = i"
  by (auto simp: GetLatestByWorkflowID_def split: list.splits dest!: sort_key_hd)

lemma latest_appended:
  assumes "rg_versions db' = rg_versions db @ [v]" and "\<forall>u\<in>set (rg_versions db). vr_Version u < vr_Version v"
  shows "GetLatestByWorkflowID (vr_WorkflowID v) db' = Some v"
proof -
  let ?xs = "filter (\<lambda>u. vr_WorkflowID u = vr_WorkflowID v) (rg_versions db')" and ?f = "\<lambda>u :: ('a, 'b) version_row. - vr_Version u"
  have "v \<in> set ?xs" using assms(1) by simp
  then have "sort_key ?f ?xs \<noteq> []" by (metis empty_iff list.set(1) set_sort)
  then obtain y ys where s: "sort_key ?f ?xs = y # ys" by (meson neq_Nil_conv)
  from sort_key_hd [OF s] \<open>v \<in> set ?xs\<close> have y: "y \<in> set ?xs" "vr_Version v \<le> vr_Version y" by auto
  then have "y = v" using assms by auto
  with s show ?thesis by (simp add: GetLatestByWorkflowID_def)
qed

lemma sort_key_map: "sort_key f (map g xs) = map g (sort_key (\<lambda>x. f (g x)) xs)"
proof -
  have "insort_key f (g x) (map g ys) = map g (insort_key (\<lambda>x. f (g x)) x ys)" for x ys
    by (induction ys) simp_all
  then show ?thesis by (induction xs) simp_all
qed

lemma latest_rewritten:
  fixes db :: "('h, 't) registry_db"
  assumes "rg_versions db' = map (\<lambda>v. if vr_ID v = k then v\<lparr>vr_JSON := js\<rparr> else v) (rg_versions db)"
  shows "GetLatestByWorkflowID i db' = map_option (\<lambda>v. if vr_ID v = k then v\<lparr>vr_JSON := js\<rparr> else v) (GetLatestByWorkflowID i db)"
proof -
  let ?g = "\<lambda>v :: ('h, 't) version_row. if vr_ID v = k then v\<lparr>vr_JSON := js\<rparr> else v"
  have "filter (\<lambda>v. vr_WorkflowID v = i) (map ?g xs) = map ?g (filter (\<lambda>v. vr_WorkflowID v = i) xs)" for xs
    by (induction xs) auto
  moreover have "sort_key (\<lambda>v. - vr_Version v) (map ?g xs) = map ?g (sort_key (\<lambda>v. - vr_Version v) xs)" for xs
    by (simp add: sort_key_map if_distrib cong: if_cong)
  ultimately show ?thesis
    unfolding GetLatestByWorkflowID_def assms by (simp split: list.split)
qed

subsection \<open>Finding the workflow\<close>

lemma get_or_create_ok:
  assumes "registry_ok db" and "get_or_create e def db = (Inr i, db1)"
  shows "\<exists>w. GetByName (wf_Name def) db1 = Some w \<and> wr_ID w = i \<and> wr_Desc w = wf_Desc def"
    and "rg_versions db1 = rg_versions db" and "rg_known db1 = rg_known db"
proof -
  have find_app: "List.find P (xs @ ys) = (case List.find P xs of None \<Rightarrow> List.find P ys | Some x \<Rightarrow> Some x)" for P and xs ys :: "workflow_row list"
    by (induction xs) auto
  show "rg_versions db1 = rg_versions db" "rg_known db1 = rg_known db"
    using assms(2) by (auto simp: get_or_create_def rg_write_def Let_def split: option.splits if_splits)
  show "\<exists>w. GetByName (wf_Name def) db1 = Some w \<and> wr_ID w = i \<and> wr_Desc w = wf_Desc def"
  proof (cases "GetByName (wf_Name def) db")
    case None
    with assms(2) show ?thesis
      by (auto simp: get_or_create_def rg_write_def Let_def GetByName_def find_app split: option.splits)
  next
    case (Some w)
    show ?thesis
    proof (cases "wr_Desc w = wf_Desc def")
      case True
      with Some assms(2) show ?thesis by (auto simp: get_or_create_def)
    next
      case False
      let ?g = "\<lambda>x. if wr_ID x = wr_ID w then x\<lparr>wr_Name := wf_Name def, wr_Desc := wf_Desc def\<rparr> else x"
      from Some False assms(2) have db1: "rg_workflows db1 = map ?g (rg_workflows db)" and i: "i = wr_ID w"
        by (auto simp: get_or_create_def rg_write_def Let_def split: option.splits)
      from Some have w: "w \<in> set (rg_workflows db)" "wr_Name w = wf_Name def"
        by (auto simp: GetByName_def find_Some_iff)
      have same: "?g x = x\<lparr>wr_Desc := wr_Desc (?g x)\<rparr>" "wr_Name (?g x) = wr_Name x" if "x \<in> set (rg_workflows db)" for x
      proof -
        have "x = w" if "wr_ID x = wr_ID w" using that \<open>x \<in> _\<close> w(1) assms(1) by (auto simp: registry_ok_def distinct_map inj_on_def)
        with w(2) show "?g x = x\<lparr>wr_Desc := wr_Desc (?g x)\<rparr>" "wr_Name (?g x) = wr_Name x" by auto
      qed
      have "List.find (\<lambda>x. wr_Name x = wf_Name def) (map ?g xs) = map_option ?g (List.find (\<lambda>x. wr_Name x = wf_Name def) xs)"
        if "set xs \<subseteq> set (rg_workflows db)" for xs
        using that by (induction xs) (auto simp: same(2))
      from this [of "rg_workflows db"] Some db1 i show ?thesis by (simp add: GetByName_def)
    qed
  qed
qed

lemma next_id_fresh: "next_id f rs \<notin> f ` set rs"
proof
  assume "next_id f rs \<in> f ` set rs"
  then have "next_id f rs \<le> Max (insert 0 (f ` set rs))" by (intro Max_ge) auto
  then show False by (simp add: next_id_def)
qed

text \<open>Synchronising a definition whose newest version has its hash and a text of it.\<close>

lemma sync_settled:
  assumes w: "GetByName (wf_Name def) db = Some w" "wr_Desc w = wf_Desc def"
    and v: "GetLatestByWorkflowID (wr_ID w) db = Some v" "vr_Hash v = hash def"
      "vr_JSON v = marshal def \<or> vr_JSON v = column (marshal def)"
    and ids: "distinct (map vr_ID (rg_versions db))"
    and sync: "syncWorkflow e hash marshal column def db = (r, db')"
  shows "rg_workflows db' = rg_workflows db \<and> rg_versions db' = rg_versions db
    \<and> (rg_writes db' = rg_writes db \<longleftrightarrow> vr_JSON v = marshal def)"
proof (cases "vr_JSON v = marshal def")
  case True
  with w v sync show ?thesis by (auto simp: syncWorkflow_def get_or_create_def)
next
  case False
  let ?g = "\<lambda>u. if vr_ID u = vr_ID v then u\<lparr>vr_JSON := column (marshal def)\<rparr> else u"
  have "?g u = u" if "u \<in> set (rg_versions db)" for u
    using that latest_in [OF v(1)] ids False v(3) by (auto simp: distinct_map inj_on_def)
  then have "map ?g (rg_versions db) = rg_versions db" by (simp add: map_idI)
  with False w v sync show ?thesis
    by (auto simp: syncWorkflow_def get_or_create_def UpdateDefinitionJSON_def rg_write_def Let_def split: option.splits)
qed

text \<open>
  What a successful synchronisation leaves: either the newest version had the hash, and then at most
  its text changed, or a version with a new id was appended.
\<close>

lemma sync_cases:
  assumes ok: "registry_ok db" and sync: "syncWorkflow e hash marshal column def db = (None, db')"
  obtains w where "GetByName (wf_Name def) db' = Some w" "wr_Desc w = wf_Desc def"
    and "distinct (map vr_ID (rg_versions db'))"
    and "(\<exists>u t. GetLatestByWorkflowID (wr_ID w) db = Some u \<and> vr_Hash u = hash def \<and> t \<in> {marshal def, column (marshal def)}
          \<and> rg_versions db' = map (\<lambda>v. if vr_ID v = vr_ID u then v\<lparr>vr_JSON := t\<rparr> else v) (rg_versions db))
      \<or> (\<nexists>u. GetLatestByWorkflowID (wr_ID w) db = Some u \<and> vr_Hash u = hash def)
        \<and> (\<exists>j k. rg_versions db' = rg_versions db @ [\<lparr>vr_ID = j, vr_WorkflowID = wr_ID w, vr_Version = clock e k div Second,
            vr_Hash = hash def, vr_JSON = column (marshal def)\<rparr>])"
proof -
  obtain i db1 where g: "get_or_create e def db = (Inr i, db1)"
    using sync by (auto simp: syncWorkflow_def split: sum.splits prod.splits)
  note g1 = get_or_create_ok [OF ok g]
  then obtain w where w: "GetByName (wf_Name def) db1 = Some w" "wr_ID w = i" "wr_Desc w = wf_Desc def" by blast
  have lat: "GetLatestByWorkflowID j db1 = GetLatestByWorkflowID j db" for j using g1(2) by (simp add: GetLatestByWorkflowID_def)
  have ids: "distinct (map vr_ID (rg_versions db))" using ok by (simp add: registry_ok_def)
  show thesis
  proof (cases "\<exists>u. GetLatestByWorkflowID i db = Some u \<and> vr_Hash u = hash def")
    case True
    then obtain u where u: "GetLatestByWorkflowID i db = Some u" "vr_Hash u = hash def" by blast
    let ?g = "\<lambda>t v. if vr_ID v = vr_ID u then v\<lparr>vr_JSON := t\<rparr> else v"
    have same: "map (?g (vr_JSON u)) (rg_versions db) = rg_versions db"
      using latest_in [OF u(1)] ids by (intro map_idI) (auto simp: distinct_map inj_on_def)
    have "GetByName (wf_Name def) db' = Some w \<and>
        (\<exists>t\<in>{marshal def, column (marshal def)}. rg_versions db' = map (?g t) (rg_versions db))"
    proof (cases "marshal def = vr_JSON u")
      case True
      with sync g u lat have "db' = db1" by (simp add: syncWorkflow_def)
      with w(1) g1(2) same True show ?thesis by (intro conjI bexI [of _ "vr_JSON u"]) simp_all
    next
      case False
      with sync g u lat have "UpdateDefinitionJSON e column (vr_ID u) (marshal def) db1 = (None, db')" by (simp add: syncWorkflow_def)
      then have "rg_versions db' = map (?g (column (marshal def))) (rg_versions db)" "rg_workflows db' = rg_workflows db1"
        using g1(2) by (auto simp: UpdateDefinitionJSON_def rg_write_def Let_def split: option.splits)
      with w(1) show ?thesis by (simp add: GetByName_def)
    qed
    then obtain t where t: "GetByName (wf_Name def) db' = Some w" "t \<in> {marshal def, column (marshal def)}"
      "rg_versions db' = map (?g t) (rg_versions db)" by blast
    have same_ids: "map vr_ID (map (?g t) xs) = map vr_ID xs" for xs by simp
    have "distinct (map vr_ID (rg_versions db'))" unfolding t(3) same_ids by (rule ids)
    with that [OF t(1) w(3)] t(2,3) u w(2) show thesis by blast
  next
    case False
    with sync g lat have "publish_version e column i (hash def) (marshal def) db1 = (None, db')"
      by (auto simp: syncWorkflow_def split: option.splits)
    then have vs: "rg_versions db' = rg_versions db @ [\<lparr>vr_ID = next_id vr_ID (rg_versions db), vr_WorkflowID = i,
        vr_Version = clock e (rg_writes db1) div Second, vr_Hash = hash def, vr_JSON = column (marshal def)\<rparr>]"
      and n: "GetByName (wf_Name def) db' = Some w"
      using g1(2) w(1) by (auto simp: publish_version_def rg_write_def Let_def GetByName_def split: option.splits)
    have "distinct (map vr_ID (rg_versions db'))" using ids next_id_fresh [of vr_ID "rg_versions db"] by (simp add: vs)
    with that [OF n w(3)] vs False w(2) show thesis by blast
  qed
qed

subsection \<open>What the hash covers\<close>

text \<open>The association lists that stand for Go maps have one entry per key.\<close>

definition maps_ok :: "full_def \<Rightarrow> bool" where
  "maps_ok d \<longleftrightarrow> distinct (map fst (od_Extras (wf_Output d))) \<and> distinct (map fst (wf_OutputSlices d))
     \<and> (\<forall>n\<in>set (wf_Nodes d). distinct (map fst (nd_Config n)) \<and> distinct (map fst (nd_InputMapping n)))
     \<and> (\<forall>s. Some s \<in> snd ` set (wf_OutputSlices d) \<longrightarrow> distinct (map fst (sl_Config s)) \<and> distinct (map fst (sl_InputMapping s)))"

text \<open>What matters of a node and of a slice, with maps as maps.\<close>

definition config_view :: "(gval \<Rightarrow> 'j) \<Rightarrow> gmap \<Rightarrow> string \<rightharpoonup> 'j" where
  "config_view json m k = map_option (\<lambda>v. json (NormalizeAny v)) (map_of m k)"

definition node_view :: "(gval \<Rightarrow> 'j) \<Rightarrow> node_def \<Rightarrow> name \<times> string \<times> rat \<times> (string \<rightharpoonup> 'j) \<times> (string \<rightharpoonup> string)" where
  "node_view json n = (nd_Name n, nd_Type n, nd_Weight n, config_view json (nd_Config n), map_of (nd_InputMapping n))"

definition slice_view :: "(gval \<Rightarrow> 'j) \<Rightarrow> slice_def \<Rightarrow> string \<times> (string \<rightharpoonup> 'j) \<times> (string \<rightharpoonup> string) \<times> string" where
  "slice_view json s = (sl_Tool s, config_view json (sl_Config s), map_of (sl_InputMapping s), sl_Version s)"

definition slices_view :: "(gval \<Rightarrow> 'j) \<Rightarrow> (string \<times> slice_def option) list \<Rightarrow> string \<rightharpoonup> string \<times> (string \<rightharpoonup> 'j) \<times> (string \<rightharpoonup> string) \<times> string" where
  "slices_view json sl k = (case map_of sl k of Some (Some s) \<Rightarrow> Some (slice_view json s) | _ \<Rightarrow> None)"

definition same_hashed :: "(gval \<Rightarrow> 'j) \<Rightarrow> full_def \<Rightarrow> full_def \<Rightarrow> bool" where
  "same_hashed json d d' \<longleftrightarrow> wf_Name d = wf_Name d' \<and> wf_Desc d = wf_Desc d'
     \<and> (wf_Output d)\<lparr>od_Extras := []\<rparr> = (wf_Output d')\<lparr>od_Extras := []\<rparr> \<and> wf_NilExtras d = wf_NilExtras d'
     \<and> (wf_NilExtras d \<or> map_of (od_Extras (wf_Output d)) = map_of (od_Extras (wf_Output d')))
     \<and> slices_view json (wf_OutputSlices d) = slices_view json (wf_OutputSlices d')
     \<and> mset (map (node_view json) (wf_Nodes d)) = mset (map (node_view json) (wf_Nodes d'))
     \<and> mset (wf_Edges d) = mset (wf_Edges d')"

lemma sort_key_mset:
  assumes "inj_on f (set xs)"
  shows "sort_key f xs = sort_key f ys \<longleftrightarrow> mset xs = mset ys"
proof
  assume "sort_key f xs = sort_key f ys"
  then show "mset xs = mset ys" by (metis mset_sort)
next
  assume "mset xs = mset ys"
  with assms show "sort_key f xs = sort_key f ys" by (intro sort_key_inj_key_eq) simp_all
qed

text \<open>An object shows exactly the map.\<close>

lemma object_eq:
  assumes "distinct (map fst m)" and "distinct (map fst m')"
  shows "object f m = object f m' \<longleftrightarrow> map_option f \<circ> map_of m = map_option f \<circ> map_of m'"
proof -
  let ?F = "map (\<lambda>(k, v). (k, f v))"
  have keys: "map fst (?F xs) = map fst xs" for xs by (induction xs) auto
  have d: "distinct (map fst (?F m))" "distinct (map fst (?F m'))" using assms by (simp_all only: keys)
  have "object f m = object f m' \<longleftrightarrow> mset (?F m) = mset (?F m')"
    unfolding object_def by (rule sort_key_mset) (use d(1) in \<open>simp only: distinct_map\<close>)
  also have "\<dots> \<longleftrightarrow> set (?F m) = set (?F m')"
    using d by (intro set_eq_iff_mset_eq_distinct [symmetric]) (auto simp only: distinct_map)
  also have "\<dots> \<longleftrightarrow> map_of (?F m) = map_of (?F m')" using map_of_inject_set [OF d] by simp
  finally show ?thesis by (simp only: map_of_map)
qed

lemma mset_map_transfer:
  assumes "\<And>x y. x \<in> S \<Longrightarrow> y \<in> S \<Longrightarrow> f x = f y \<Longrightarrow> g x = g y" and "set xs \<subseteq> S" "set ys \<subseteq> S"
    and "mset (map f xs) = mset (map f ys)"
  shows "mset (map g xs) = mset (map g ys)"
proof -
  let ?h = "\<lambda>a. g (inv_into S f a)"
  have h: "?h (f x) = g x" if "x \<in> S" for x
    by (rule assms(1)) (use that in \<open>auto intro: inv_into_into f_inv_into_f\<close>)
  have "map g zs = map ?h (map f zs)" if "set zs \<subseteq> S" for zs using that h by auto
  with assms(2,3) have "mset (map g xs) = image_mset ?h (mset (map f xs))" "mset (map g ys) = image_mset ?h (mset (map f ys))"
    by (metis mset_map)+
  with assms(4) show ?thesis by simp
qed

lemma config_object_eq:
  assumes "distinct (map fst m)" and "distinct (map fst m')"
  shows "object json (NormalizeAnyMap m) = object json (NormalizeAnyMap m') \<longleftrightarrow> config_view json m = config_view json m'"
proof -
  have keys: "map fst (NormalizeAnyMap xs) = map fst xs" for xs by (simp add: NormalizeAnyMap_def split_def)
  have view: "map_option json \<circ> map_of (NormalizeAnyMap xs) = config_view json xs" for xs
    by (rule ext) (simp add: NormalizeAnyMap_def map_of_map config_view_def option.map_comp comp_def)
  have "object json (NormalizeAnyMap m) = object json (NormalizeAnyMap m')
      \<longleftrightarrow> map_option json \<circ> map_of (NormalizeAnyMap m) = map_option json \<circ> map_of (NormalizeAnyMap m')"
    using assms by (intro object_eq) (simp_all add: keys)
  then show ?thesis unfolding view .
qed

lemma mapping_object_eq:
  "distinct (map fst m) \<Longrightarrow> distinct (map fst m') \<Longrightarrow> object id m = object id m' \<longleftrightarrow> map_of m = map_of m'"
  by (simp add: object_eq option.map_id0)

lemma node_json_eq:
  assumes "distinct (map fst (nd_Config n)) \<and> distinct (map fst (nd_InputMapping n))"
    and "distinct (map fst (nd_Config n')) \<and> distinct (map fst (nd_InputMapping n'))"
  shows "node_json json (node_part n) = node_json json (node_part n') \<longleftrightarrow> node_view json n = node_view json n'"
  using assms by (simp add: node_json_def node_part_def node_view_def config_object_eq mapping_object_eq)

lemma slice_json_eq:
  assumes "distinct (map fst (sl_Config s)) \<and> distinct (map fst (sl_InputMapping s))"
    and "distinct (map fst (sl_Config s')) \<and> distinct (map fst (sl_InputMapping s'))"
  shows "slice_json json (slice_part s) = slice_json json (slice_part s') \<longleftrightarrow> slice_view json s = slice_view json s'"
  using assms by (simp add: slice_json_def slice_part_def slice_view_def config_object_eq mapping_object_eq)

lemma clone_keys: "map fst (cloneOutputSlicesHash sl) = map fst (filter (\<lambda>(k, v). v \<noteq> None) sl)"
  by (induction sl) (auto simp: cloneOutputSlicesHash_def map_filter_simps split: option.split)

lemma clone_map_of:
  "distinct (map fst sl) \<Longrightarrow> map_of (cloneOutputSlicesHash sl) k = map_option slice_part (Option.bind (map_of sl k) (\<lambda>x. x))"
proof (induction sl)
  case (Cons p sl)
  obtain k' v where p: "p = (k', v)" by force
  have new: "k' \<notin> set (map fst sl)" and IH: "map_of (cloneOutputSlicesHash sl) k = map_option slice_part (Option.bind (map_of sl k) (\<lambda>x. x))"
    using Cons by (simp_all add: p)
  have "k' \<notin> set (map fst (cloneOutputSlicesHash sl))" unfolding clone_keys using new by auto
  then have "map_of (cloneOutputSlicesHash sl) k' = None" by (simp add: map_of_eq_None_iff)
  moreover have "map_of sl k' = None" using new by (simp add: map_of_eq_None_iff)
  moreover have "cloneOutputSlicesHash (p # sl) = (case v of None \<Rightarrow> [] | Some s \<Rightarrow> [(k', slice_part s)]) @ cloneOutputSlicesHash sl"
    by (simp add: cloneOutputSlicesHash_def map_filter_simps p split: option.split)
  ultimately show ?case using IH by (cases v; cases "k = k'") (simp_all add: p)
qed (simp add: cloneOutputSlicesHash_def map_filter_simps)

lemma slices_object_eq:
  assumes "maps_ok d" and "maps_ok d'"
  shows "object (slice_json json) (cloneOutputSlicesHash (wf_OutputSlices d)) = object (slice_json json) (cloneOutputSlicesHash (wf_OutputSlices d'))
    \<longleftrightarrow> slices_view json (wf_OutputSlices d) = slices_view json (wf_OutputSlices d')"
proof -
  let ?sl = "wf_OutputSlices d" and ?sl' = "wf_OutputSlices d'"
  have d: "distinct (map fst ?sl)" "distinct (map fst ?sl')" using assms by (simp_all add: maps_ok_def)
  have "distinct (map fst (cloneOutputSlicesHash xs))" if "distinct (map fst xs)" for xs
    using that by (auto simp: clone_keys distinct_map inj_on_def)
  then have "object (slice_json json) (cloneOutputSlicesHash ?sl) = object (slice_json json) (cloneOutputSlicesHash ?sl')
    \<longleftrightarrow> (\<forall>k. map_option (slice_json json) (map_of (cloneOutputSlicesHash ?sl) k) = map_option (slice_json json) (map_of (cloneOutputSlicesHash ?sl') k))"
    using d by (simp add: object_eq fun_eq_iff)
  also have "\<dots> \<longleftrightarrow> (\<forall>k. slices_view json ?sl k = slices_view json ?sl' k)"
  proof (rule all_cong1)
    fix k
    have "distinct (map fst (sl_Config s)) \<and> distinct (map fst (sl_InputMapping s))"
      if "map_of ?sl k = Some (Some s) \<or> map_of ?sl' k = Some (Some s)" for s
    proof -
      from that map_of_SomeD [of ?sl k "Some s"] map_of_SomeD [of ?sl' k "Some s"]
      have "Some s \<in> snd ` set ?sl \<or> Some s \<in> snd ` set ?sl'" by (metis imageI snd_conv)
      with assms show ?thesis unfolding maps_ok_def by blast
    qed
    then have "slice_json json (slice_part s) = slice_json json (slice_part s') \<longleftrightarrow> slice_view json s = slice_view json s'"
      if "map_of ?sl k = Some (Some s)" "map_of ?sl' k = Some (Some s')" for s s' using that by (intro slice_json_eq) blast+
    then show "map_option (slice_json json) (map_of (cloneOutputSlicesHash ?sl) k) = map_option (slice_json json) (map_of (cloneOutputSlicesHash ?sl') k)
        \<longleftrightarrow> slices_view json ?sl k = slices_view json ?sl' k"
      by (simp add: clone_map_of d slices_view_def split: option.split)
  qed
  finally show ?thesis by (simp add: fun_eq_iff)
qed

lemma nodes_json_eq:
  assumes "maps_ok d" and "maps_ok d'" and dist: "distinct (map nd_Name (wf_Nodes d))"
  shows "map (node_json json) (sort_key nh_Name (map node_part (wf_Nodes d))) = map (node_json json) (sort_key nh_Name (map node_part (wf_Nodes d')))
    \<longleftrightarrow> mset (map (node_view json) (wf_Nodes d)) = mset (map (node_view json) (wf_Nodes d'))"
proof -
  let ?f = "\<lambda>n. node_json json (node_part n)" and ?S = "set (wf_Nodes d) \<union> set (wf_Nodes d')"
  have srt: "map (node_json json) (sort_key nh_Name (map node_part ns)) = sort_key fst (map ?f ns)" for ns
    by (simp add: sort_key_map node_json_def comp_def)
  have inj: "inj_on fst (set (map ?f (wf_Nodes d)))"
    using dist by (auto simp: distinct_map inj_on_def node_json_def node_part_def)
  have same: "?f x = ?f y \<longleftrightarrow> node_view json x = node_view json y" if "x \<in> ?S" "y \<in> ?S" for x y
    using that assms(1,2) by (intro node_json_eq) (auto simp: maps_ok_def)
  have "mset (map ?f (wf_Nodes d)) = mset (map ?f (wf_Nodes d')) \<longleftrightarrow> mset (map (node_view json) (wf_Nodes d)) = mset (map (node_view json) (wf_Nodes d'))"
  proof
    assume "mset (map ?f (wf_Nodes d)) = mset (map ?f (wf_Nodes d'))"
    then show "mset (map (node_view json) (wf_Nodes d)) = mset (map (node_view json) (wf_Nodes d'))"
      by (rule mset_map_transfer [of ?S, rotated -1]) (simp_all add: same)
  next
    assume "mset (map (node_view json) (wf_Nodes d)) = mset (map (node_view json) (wf_Nodes d'))"
    then show "mset (map ?f (wf_Nodes d)) = mset (map ?f (wf_Nodes d'))"
      by (rule mset_map_transfer [of ?S, rotated -1]) (simp_all add: same)
  qed
  then show ?thesis unfolding srt sort_key_mset [OF inj] .
qed

lemma inj_edge_order: "inj edge_order"
  by (rule injI) (simp add: edge_order_def)

lemma inj_edge_part: "inj edge_part"
  by (rule injI) (simp add: edge_part_def)

lemma edges_sorted_eq:
  "sort_key edge_order (map edge_part es) = sort_key edge_order (map edge_part es') \<longleftrightarrow> mset es = mset es'"
proof -
  have "inj_on edge_order A" for A using inj_edge_order by (rule inj_on_subset) simp
  then have "sort_key edge_order (map edge_part es) = sort_key edge_order (map edge_part es')
      \<longleftrightarrow> image_mset edge_part (mset es) = image_mset edge_part (mset es')" by (simp add: sort_key_mset)
  then show ?thesis using multiset.inj_map [OF inj_edge_part] by (simp add: inj_eq)
qed

lemma output_json_eq:
  assumes "distinct (map fst (od_Extras o1))" and "distinct (map fst (od_Extras o2))"
  shows "output_json b1 o1 = output_json b2 o2 \<longleftrightarrow> o1\<lparr>od_Extras := []\<rparr> = o2\<lparr>od_Extras := []\<rparr> \<and> b1 = b2
    \<and> (b1 \<or> map_of (od_Extras o1) = map_of (od_Extras o2))"
  using assms by (auto simp: output_json_def mapping_object_eq)

lemma node_names_inj: "distinct (map nd_Name ns) \<Longrightarrow> inj_on nh_Name (set (map node_part ns))"
  by (auto simp: distinct_map inj_on_def node_part_def)

subsection \<open>Properties\<close>

text \<open>
  C28. A synchronised definition is the newest version of its workflow. When \<^verbatim>\<open>syncWorkflow\<close>
  succeeds, and the stored version numbers, seconds of the clock, lie before the present second, the
  newest version under the definition's name has its hash and its text (as marshalled or as
  the column gives it back); versions of other workflows and older versions are as they were; a
  version was added exactly when the hash had changed. Synchronising again leaves both tables as
  they are, whatever fails; it asks for no write exactly when the column gave the marshalled
  bytes back, which a \<^verbatim>\<open>jsonb\<close> column does not.
\<close>

theorem sync_stores_definition:
  assumes "registry_ok db" and "syncWorkflow e hash marshal column def db = (None, db')"
    and "\<forall>v\<in>set (rg_versions db). \<forall>k. vr_Version v < clock e k div Second"
  shows "\<exists>w v. GetByName (wf_Name def) db' = Some w \<and> GetLatestByWorkflowID (wr_ID w) db' = Some v
    \<and> vr_Hash v = hash def \<and> (vr_JSON v = marshal def \<or> vr_JSON v = column (marshal def))
    \<and> (\<forall>u\<in>set (rg_versions db). GetLatestByWorkflowID (wr_ID w) db \<noteq> Some u \<longrightarrow> u \<in> set (rg_versions db'))
    \<and> length (rg_versions db') = length (rg_versions db) + (if \<exists>u. GetLatestByWorkflowID (wr_ID w) db = Some u \<and> vr_Hash u = hash def then 0 else 1)
    \<and> (\<forall>r db''. syncWorkflow e hash marshal column def db' = (r, db'') \<longrightarrow>
        rg_workflows db'' = rg_workflows db' \<and> rg_versions db'' = rg_versions db'
        \<and> (rg_writes db'' = rg_writes db' \<longleftrightarrow> vr_JSON v = marshal def))"
proof -
  obtain w where w: "GetByName (wf_Name def) db' = Some w" "wr_Desc w = wf_Desc def" "distinct (map vr_ID (rg_versions db'))"
    and vs: "(\<exists>u t. GetLatestByWorkflowID (wr_ID w) db = Some u \<and> vr_Hash u = hash def \<and> t \<in> {marshal def, column (marshal def)}
          \<and> rg_versions db' = map (\<lambda>v. if vr_ID v = vr_ID u then v\<lparr>vr_JSON := t\<rparr> else v) (rg_versions db))
      \<or> (\<nexists>u. GetLatestByWorkflowID (wr_ID w) db = Some u \<and> vr_Hash u = hash def)
        \<and> (\<exists>j k. rg_versions db' = rg_versions db @ [\<lparr>vr_ID = j, vr_WorkflowID = wr_ID w, vr_Version = clock e k div Second,
            vr_Hash = hash def, vr_JSON = column (marshal def)\<rparr>])"
    by (rule sync_cases [OF assms(1,2)])
  note settled = sync_settled [OF w(1,2) _ _ _ w(3), of _ hash marshal column e]
  from vs show ?thesis
  proof (elim disjE exE conjE)
    fix u t
    assume u: "GetLatestByWorkflowID (wr_ID w) db = Some u" "vr_Hash u = hash def" and t: "t \<in> {marshal def, column (marshal def)}"
      and db': "rg_versions db' = map (\<lambda>v. if vr_ID v = vr_ID u then v\<lparr>vr_JSON := t\<rparr> else v) (rg_versions db)"
    have l: "GetLatestByWorkflowID (wr_ID w) db' = Some (u\<lparr>vr_JSON := t\<rparr>)" using latest_rewritten [OF db'] u by simp
    have "v \<in> set (rg_versions db')" if "v \<in> set (rg_versions db)" "v \<noteq> u" for v
    proof -
      have "vr_ID v \<noteq> vr_ID u" using that assms(1) latest_in [OF u(1)] by (auto simp: registry_ok_def distinct_map inj_on_def)
      with that(1) db' show ?thesis by force
    qed
    then have kept: "\<forall>v\<in>set (rg_versions db). GetLatestByWorkflowID (wr_ID w) db \<noteq> Some v \<longrightarrow> v \<in> set (rg_versions db')" using u by blast
    have v: "vr_Hash (u\<lparr>vr_JSON := t\<rparr>) = hash def" "vr_JSON (u\<lparr>vr_JSON := t\<rparr>) = marshal def \<or> vr_JSON (u\<lparr>vr_JSON := t\<rparr>) = column (marshal def)"
      using u t by auto
    have len: "length (rg_versions db') = length (rg_versions db) + (if \<exists>u. GetLatestByWorkflowID (wr_ID w) db = Some u \<and> vr_Hash u = hash def then 0 else 1)"
      using u by (simp add: db')
    from w(1) l v kept len settled [OF l v] show ?thesis by blast
  next
    fix j k
    let ?v = "\<lparr>vr_ID = j, vr_WorkflowID = wr_ID w, vr_Version = clock e k div Second, vr_Hash = hash def, vr_JSON = column (marshal def)\<rparr>"
    assume new: "\<nexists>u. GetLatestByWorkflowID (wr_ID w) db = Some u \<and> vr_Hash u = hash def" and db': "rg_versions db' = rg_versions db @ [?v]"
    have l: "GetLatestByWorkflowID (wr_ID w) db' = Some ?v" using latest_appended [OF db'] assms(3) by simp
    have kept: "\<forall>v\<in>set (rg_versions db). GetLatestByWorkflowID (wr_ID w) db \<noteq> Some v \<longrightarrow> v \<in> set (rg_versions db')" by (simp add: db')
    have v: "vr_Hash ?v = hash def" "vr_JSON ?v = marshal def \<or> vr_JSON ?v = column (marshal def)" by simp_all
    have len: "length (rg_versions db') = length (rg_versions db) + (if \<exists>u. GetLatestByWorkflowID (wr_ID w) db = Some u \<and> vr_Hash u = hash def then 0 else 1)"
      unfolding if_not_P [OF new] by (simp add: db')
    from w(1) l v kept len settled [OF l v] show ?thesis by blast
  qed
qed

text \<open>
  C29. The hash identifies a definition up to the order of its nodes, edges and map entries. With a digest
  that does not collide and distinct node names, two definitions have the same hash exactly when they
  agree on name, description, output and slices, on the edges as a multiset, and on name, type, weight,
  configuration and input mapping of the nodes, as a multiset; for whatever sorted permutation
  \<^verbatim>\<open>sort.Slice\<close> produces. Configuration values count by their JSON text, with empty maps as null. Labels
  and versions of nodes are not part of the hash.
\<close>

theorem hash_up_to_order:
  assumes "inj digest" and "slice_sort sn nh_Name" and "slice_sort sn' nh_Name" and "slice_sort se edge_order" and "slice_sort se' edge_order"
    and "distinct (map nd_Name (wf_Nodes d))" and "distinct (map nd_Name (wf_Nodes d'))" and "maps_ok d" and "maps_ok d'"
  shows "hashWorkflow digest json sn se d = hashWorkflow digest json sn' se' d' \<longleftrightarrow> same_hashed json d d'"
proof -
  have "inj_on edge_order A" for A using inj_edge_order by (rule inj_on_subset) simp
  then have e: "se xs = sort_key edge_order xs" "se' xs = sort_key edge_order xs" for xs
    using slice_sort.srt_unique [OF assms(4)] slice_sort.srt_unique [OF assms(5)] by auto
  have o: "distinct (map fst (od_Extras (wf_Output d)))" "distinct (map fst (od_Extras (wf_Output d')))"
    using assms(8,9) by (simp_all add: maps_ok_def)
  note n = slice_sort.srt_unique [OF assms(2) node_names_inj [OF assms(6)]] slice_sort.srt_unique [OF assms(3) node_names_inj [OF assms(7)]]
  show ?thesis
    by (simp only: hashWorkflow_def workflow_json_def workflow_hash.simps inj_eq [OF assms(1)] prod.inject e n
        output_json_eq [OF o] slices_object_eq [OF assms(8,9)] nodes_json_eq [OF assms(8,9,6)] edges_sorted_eq same_hashed_def) blast
qed

definition sample_full :: "node_def list \<Rightarrow> full_def" where
  "sample_full ns = workflow_def.extend (solo\<lparr>wf_Nodes := ns\<rparr>) \<lparr>wf_OutputSlices = [], wf_Desc = ''d'', wf_NilExtras = False\<rparr>"

text \<open>The text of a configuration value that does not tell the kinds of numbers apart.\<close>

definition sample_json :: "gval \<Rightarrow> gval" where
  "sample_json v = (case v of VInt i \<Rightarrow> VFloat (of_int i) | _ \<Rightarrow> v)"

theorem hash_up_to_order_witness:
  "hashWorkflow id sample_json (sort_key nh_Name) (sort_key edge_order)
     (sample_full [sample_node ''a'' ''start'' [(''x'', VInt 1), (''y'', VNil)], sample_node ''b'' ''end'' []])
   = hashWorkflow id sample_json (sort_key nh_Name) (sort_key edge_order)
     (sample_full [sample_node ''b'' ''end'' [], sample_node ''a'' ''start'' [(''y'', VMap []), (''x'', VFloat 1)]])"
proof -
  let ?a = "sample_node ''a'' ''start'' [(''x'', VInt 1), (''y'', VNil)]" and ?a' = "sample_node ''a'' ''start'' [(''y'', VMap []), (''x'', VFloat 1)]"
  let ?b = "sample_node ''b'' ''end'' []"
  let ?d = "sample_full [?a, ?b]" and ?d' = "sample_full [?b, ?a']"
  have "config_view sample_json (nd_Config ?a) = config_view sample_json (nd_Config ?a')"
    by (rule ext) (simp add: config_view_def sample_node_def sample_json_def)
  then have "node_view sample_json ?a = node_view sample_json ?a'" by (simp add: node_view_def sample_node_def)
  then have "same_hashed sample_json ?d ?d'"
    by (simp add: same_hashed_def sample_full_def workflow_def.defs add_mset_commute)
  moreover have "distinct (map nd_Name (wf_Nodes ?d))" "distinct (map nd_Name (wf_Nodes ?d'))" "maps_ok ?d" "maps_ok ?d'"
    by (simp_all add: sample_full_def workflow_def.defs sample_node_def maps_ok_def solo_def no_output_def_def)
  ultimately show ?thesis
    using hash_up_to_order [OF inj_on_id node_sort.slice_sort_axioms node_sort.slice_sort_axioms
        edge_sort.slice_sort_axioms edge_sort.slice_sort_axioms] by blast
qed

abbreviation sample_hash :: "full_def \<Rightarrow> gval hash_text" where
  "sample_hash \<equiv> hashWorkflow id sample_json (sort_key nh_Name) (sort_key edge_order)"

text \<open>The column writes the name behind a blank, as \<^verbatim>\<open>jsonb\<close> puts blanks of its own.\<close>

definition sample_marshal :: "full_def \<Rightarrow> string" where
  "sample_marshal d = ''{name:'' @ wf_Name d @ ''}''"

definition sample_column :: "string \<Rightarrow> string" where
  "sample_column js = concat (map (\<lambda>ch. if ch = CHR '':'' then '': '' else [ch]) js)"

definition sample_registry_db :: "(gval hash_text, string) registry_db" where
  "sample_registry_db = \<lparr>rg_workflows = [\<lparr>wr_ID = 9, wr_Name = ''other'', wr_Desc = []\<rparr>],
     rg_versions = [\<lparr>vr_ID = 3, vr_WorkflowID = 9, vr_Version = 1, vr_Hash = sample_hash (sample_full []),
        vr_JSON = sample_column (sample_marshal (sample_full []))\<rparr>],
     rg_known = Map.empty, rg_writes = 0\<rparr>"

theorem sync_stores_definition_witness:
  "\<exists>db' w v. syncWorkflow ((sample_env True)\<lparr>clock := (\<lambda>_. 5 * Second)\<rparr>) sample_hash sample_marshal sample_column
        (sample_full [sample_node ''a'' ''start'' []]) sample_registry_db = (None, db')
     \<and> GetByName (wf_Name solo) db' = Some w \<and> GetLatestByWorkflowID (wr_ID w) db' = Some v
     \<and> vr_Hash v = sample_hash (sample_full [sample_node ''a'' ''start'' []]) \<and> length (rg_versions db') = 2"
proof -
  let ?e = "(sample_env True)\<lparr>clock := (\<lambda>_. 5 * Second)\<rparr>"
  let ?d = "sample_full [sample_node ''a'' ''start'' []]"
  have n: "wf_Name ?d = wf_Name solo" by (simp add: sample_full_def workflow_def.defs)
  have "wf_Name solo \<noteq> ''other''" by (simp add: solo_def)
  then have "\<exists>db'. syncWorkflow ?e sample_hash sample_marshal sample_column ?d sample_registry_db = (None, db') \<and> length (rg_versions db') = 2"
    by (simp add: syncWorkflow_def get_or_create_def GetByName_def sample_registry_db_def n rg_write_def Let_def sample_env_def
        publish_version_def GetLatestByWorkflowID_def next_id_def)
  then obtain db' where s: "syncWorkflow ?e sample_hash sample_marshal sample_column ?d sample_registry_db = (None, db')" "length (rg_versions db') = 2" by blast
  have ok: "registry_ok sample_registry_db" by (simp add: registry_ok_def sample_registry_db_def)
  have "\<forall>v\<in>set (rg_versions sample_registry_db). \<forall>k. vr_Version v < clock ?e k div Second"
    by (simp add: sample_registry_db_def Second_def)
  from sync_stores_definition [OF ok s(1) this] s n show ?thesis by auto
qed

end
