(* ===== verification/Flux_Cost.thy ===== *)
theory Flux_Cost
  imports Flux_Worker
begin

text \<open>
  Cost records: \<^verbatim>\<open>cost/usage_parser.go\<close> reads the usage facts a tool has reported, \<^verbatim>\<open>cost/recorder.go\<close> stores
  a trace for each under an idempotency key and refreshes the totals of the task and its root
  (\<^verbatim>\<open>repository/query/task_cost_trace.go\<close>). The digest of the key is a parameter; money is rational.
\<close>

subsection \<open>Usage facts\<close>

record usage_fact =
  uf_ResourceType :: string
  uf_Provider :: string
  uf_Model :: string
  uf_ProviderRequestID :: string
  uf_UsageQuantity :: rat
  uf_UsageUnit :: string
  uf_UsageBreakdown :: "gmap option"
  uf_EstimatedCost :: rat
  uf_Billable :: bool

definition cost_asString :: "gval option \<Rightarrow> string" where
  "cost_asString v = (case v of Some (VStr s) \<Rightarrow> s | _ \<Rightarrow> [])"

definition cost_asBool :: "gval option \<Rightarrow> bool" where
  "cost_asBool v = (case v of Some (VBool b) \<Rightarrow> b | _ \<Rightarrow> False)"

definition cost_asMap :: "gval option \<Rightarrow> gmap option" where
  "cost_asMap v = (case v of Some (VMap m) \<Rightarrow> Some m | _ \<Rightarrow> None)"

definition cost_float :: "env \<Rightarrow> gval option \<Rightarrow> rat" where
  "cost_float e v = (case v of None \<Rightarrow> 0 | Some x \<Rightarrow> ToFloat64 e x)"

text \<open>\<^verbatim>\<open>ParseUsageFact\<close>; its error is always nil.\<close>

definition ParseUsageFact :: "env \<Rightarrow> gmap \<Rightarrow> usage_fact option" where
  "ParseUsageFact e raw =
     (let get = map_of raw; ty = cost_asString (get ''resource_type''); pr = cost_asString (get ''provider'');
          un = cost_asString (get ''usage_unit''); q = cost_float e (get ''usage_quantity'');
          stage = cost_asString (get ''billable_stage''); billable = cost_asBool (get ''billable'')
      in if raw = [] then None
         else if ty = [] \<or> pr = [] \<or> un = [] \<or> q \<le> 0 then None
         else if stage \<noteq> [] \<and> stage \<noteq> ''completed'' then None
         else if \<not> billable then None
         else Some \<lparr>uf_ResourceType = ty, uf_Provider = pr, uf_Model = cost_asString (get ''model''),
                uf_ProviderRequestID = cost_asString (get ''provider_request_id''), uf_UsageQuantity = q, uf_UsageUnit = un,
                uf_UsageBreakdown = cost_asMap (get ''usage_breakdown''), uf_EstimatedCost = cost_float e (get ''estimated_cost''),
                uf_Billable = billable\<rparr>)"

definition ParseUsageFacts :: "env \<Rightarrow> gmap list \<Rightarrow> usage_fact list" where
  "ParseUsageFacts e raws = List.map_filter (ParseUsageFact e) raws"

text \<open>
  \<^verbatim>\<open>DefaultRecorder.RecordNodeSuccess\<close>: whether a fact is of a priority type makes no difference, as
  without facts the list is empty either way.
\<close>

definition hasProtocolPriorityUsage :: "gmap list \<Rightarrow> bool" where
  "hasProtocolPriorityUsage raws = list_ex (\<lambda>raw. cost_asString (map_of raw ''resource_type'') \<in>
     {''tts'', ''llm'', ''vlm'', ''image_generation'', ''video_generation''}) raws"

definition DefaultRecorder_record :: "env \<Rightarrow> gmap list \<Rightarrow> usage_fact list" where
  "DefaultRecorder_record e raws =
     (if raws \<noteq> [] then
        (let facts = ParseUsageFacts e raws
         in if hasProtocolPriorityUsage raws then facts else if facts \<noteq> [] then facts else [])
      else [])"

fun check_usage_fields :: "gmap \<Rightarrow> data_schema \<Rightarrow> go_error option" where
  "check_usage_fields raw [] = None"
| "check_usage_fields raw ((f, fs) # sch) =
     (case map_of raw f of
        None \<Rightarrow> if fs_Required fs then Some (''missing required field: '' @ f) else check_usage_fields raw sch
      | Some v \<Rightarrow> (case ValidateFieldTypeStrict fs v of
            Some m \<Rightarrow> Some (''invalid field '' @ f @ '': '' @ m)
          | None \<Rightarrow> check_usage_fields raw sch))"

fun ValidateUsageFacts :: "gmap option list \<Rightarrow> data_schema \<Rightarrow> go_error option" where
  "ValidateUsageFacts [] sch = None"
| "ValidateUsageFacts (None # raws) sch = Some ''usage_fact is nil''"
| "ValidateUsageFacts (Some raw # raws) sch =
     (case check_usage_fields raw sch of Some m \<Rightarrow> Some (''usage_fact '' @ m) | None \<Rightarrow> ValidateUsageFacts raws sch)"

subsection \<open>Traces\<close>

record record_ctx =
  rc_NodeRuntimeID :: int
  rc_TaskID :: int
  rc_RootTaskID :: int
  rc_WorkflowName :: string
  rc_NodeName :: name
  rc_NodeType :: string
  rc_StepName :: string
  rc_OutputHash :: string
  rc_UsageFacts :: "gmap list"

record 'k cost_trace =
  ct_TaskID :: int
  ct_RootTaskID :: int
  ct_NodeRuntimeID :: "int option"
  ct_WorkflowName :: string
  ct_NodeName :: name
  ct_StepName :: string
  ct_ResourceType :: string
  ct_Provider :: string
  ct_Model :: string
  ct_ProviderRequestID :: string
  ct_UsageQuantity :: rat
  ct_UsageUnit :: string
  ct_EstimatedCost :: rat
  ct_Currency :: string
  ct_Status :: string
  ct_TracePayload :: gmap
  ct_IdempotencyKey :: 'k

type_synonym key_fields = "int \<times> int \<times> int \<times> name \<times> string \<times> string \<times> string \<times> string \<times> string \<times> string \<times> nat"

definition buildIdempotencyKey :: "(key_fields \<Rightarrow> 'k) \<Rightarrow> record_ctx \<Rightarrow> usage_fact \<Rightarrow> nat \<Rightarrow> 'k" where
  "buildIdempotencyKey digest rc f i = digest (rc_TaskID rc, rc_RootTaskID rc, rc_NodeRuntimeID rc, rc_NodeName rc, rc_StepName rc,
     uf_ResourceType f, uf_Provider f, uf_ProviderRequestID f, uf_UsageUnit f, rc_OutputHash rc, i)"

definition buildTaskCostTrace :: "(key_fields \<Rightarrow> 'k) \<Rightarrow> record_ctx \<Rightarrow> usage_fact \<Rightarrow> nat \<Rightarrow> 'k cost_trace" where
  "buildTaskCostTrace digest rc f i =
     \<lparr>ct_TaskID = rc_TaskID rc, ct_RootTaskID = rc_RootTaskID rc,
      ct_NodeRuntimeID = (if 0 < rc_NodeRuntimeID rc then Some (rc_NodeRuntimeID rc) else None),
      ct_WorkflowName = rc_WorkflowName rc, ct_NodeName = rc_NodeName rc, ct_StepName = rc_StepName rc,
      ct_ResourceType = uf_ResourceType f, ct_Provider = uf_Provider f, ct_Model = uf_Model f,
      ct_ProviderRequestID = uf_ProviderRequestID f, ct_UsageQuantity = uf_UsageQuantity f, ct_UsageUnit = uf_UsageUnit f,
      ct_EstimatedCost = uf_EstimatedCost f, ct_Currency = ''CNY'', ct_Status = ''estimated'',
      ct_TracePayload = [(''node_type'', VStr (rc_NodeType rc)),
        (''usage_breakdown'', case uf_UsageBreakdown f of None \<Rightarrow> VNil | Some m \<Rightarrow> VMap m), (''billable'', VBool (uf_Billable f))],
      ct_IdempotencyKey = buildIdempotencyKey digest rc f i\<rparr>"

record 'k cost_db =
  cd_store :: store
  cd_traces :: "'k cost_trace list"

text \<open>\<^verbatim>\<open>Upsert\<close>: a conflict on the key updates the measured columns and leaves the others.\<close>

definition trace_put :: "'k cost_trace \<Rightarrow> 'k cost_trace \<Rightarrow> 'k cost_trace" where
  "trace_put t r = r\<lparr>ct_UsageQuantity := ct_UsageQuantity t, ct_UsageUnit := ct_UsageUnit t, ct_EstimatedCost := ct_EstimatedCost t,
     ct_Currency := ct_Currency t, ct_Status := ct_Status t, ct_TracePayload := ct_TracePayload t\<rparr>"

definition upsert_row :: "'k cost_trace \<Rightarrow> 'k cost_trace list \<Rightarrow> 'k cost_trace list" where
  "upsert_row t rs =
     (if ct_IdempotencyKey t \<in> ct_IdempotencyKey ` set rs then table_update ct_IdempotencyKey trace_put t rs else rs @ [t])"

definition Upsert :: "env \<Rightarrow> 'k cost_trace \<Rightarrow> 'k cost_db \<Rightarrow> go_error option \<times> 'k cost_db" where
  "Upsert e t db =
     (let st = cd_store db; st1 = st\<lparr>st_writes := Suc (st_writes st)\<rparr>
      in case db_err e (st_writes st) of
           Some m \<Rightarrow> (Some m, db\<lparr>cd_store := st1\<rparr>)
         | None \<Rightarrow> (None, \<lparr>cd_store = st1, cd_traces = upsert_row t (cd_traces db)\<rparr>))"

definition SumEstimatedCostByTaskID :: "int \<Rightarrow> 'k cost_trace list \<Rightarrow> rat" where
  "SumEstimatedCostByTaskID i rs = sum_list (map ct_EstimatedCost (filter (\<lambda>r. ct_TaskID r = i) rs))"

definition SumEstimatedCostByRootTaskID :: "int \<Rightarrow> 'k cost_trace list \<Rightarrow> rat" where
  "SumEstimatedCostByRootTaskID i rs = sum_list (map ct_EstimatedCost (filter (\<lambda>r. ct_RootTaskID r = i) rs))"

subsection \<open>The recorder\<close>

definition estimated :: "rat \<Rightarrow> task_row \<Rightarrow> task_row" where
  "estimated q t = t\<lparr>EstimatedCostTotal := q, CostStatus := ''estimated''\<rparr>"

definition refresh_summary :: "env \<Rightarrow> int \<Rightarrow> rat \<Rightarrow> 'k cost_db \<Rightarrow> go_error option \<times> 'k cost_db" where
  "refresh_summary e i q db =
     (case GetByID i (cd_store db) of
        Inl m \<Rightarrow> (Some m, db)
      | Inr t \<Rightarrow> (case task_Update e (estimated q t) (cd_store db) of (r, st) \<Rightarrow> (r, db\<lparr>cd_store := st\<rparr>)))"

definition refreshTaskSummary :: "env \<Rightarrow> int \<Rightarrow> 'k cost_db \<Rightarrow> go_error option \<times> 'k cost_db" where
  "refreshTaskSummary e i db = refresh_summary e i (SumEstimatedCostByTaskID i (cd_traces db)) db"

definition refreshRootTaskSummary :: "env \<Rightarrow> int \<Rightarrow> 'k cost_db \<Rightarrow> go_error option \<times> 'k cost_db" where
  "refreshRootTaskSummary e i db = refresh_summary e i (SumEstimatedCostByRootTaskID i (cd_traces db)) db"

definition traces_of :: "env \<Rightarrow> (key_fields \<Rightarrow> 'k) \<Rightarrow> record_ctx \<Rightarrow> 'k cost_trace list" where
  "traces_of e digest rc =
     (let facts = DefaultRecorder_record e (rc_UsageFacts rc)
      in map (\<lambda>i. buildTaskCostTrace digest rc (facts ! i) i) [0..<length facts])"

definition RecordNodeSuccess :: "env \<Rightarrow> (key_fields \<Rightarrow> 'k) \<Rightarrow> record_ctx \<Rightarrow> 'k cost_db \<Rightarrow> go_error option \<times> 'k cost_db" where
  "RecordNodeSuccess e digest rc db =
     (if DefaultRecorder_record e (rc_UsageFacts rc) = [] then (None, db)
      else then_do (each (Upsert e) (traces_of e digest rc) db)
        (\<lambda>db1. then_do (if 0 < rc_TaskID rc \<and> rc_TaskID rc \<noteq> rc_RootTaskID rc then refreshTaskSummary e (rc_TaskID rc) db1 else (None, db1))
          (\<lambda>db2. if 0 < rc_RootTaskID rc then refreshRootTaskSummary e (rc_RootTaskID rc) db2 else (None, db2))))"

subsection \<open>The contract of an upsert\<close>

text \<open>
  A keyed table whose update is idempotent and leaves a row alone that is its own update: rows are
  inserted under new keys and overwritten under old ones, so that a batch of upserts with
  distinct keys may be repeated.
\<close>

locale upsert_table = keyed_table key put for key :: "'r \<Rightarrow> 'k" and put :: "'r \<Rightarrow> 'r \<Rightarrow> 'r" +
  assumes put_put: "put n (put n r) = put n r" and put_self: "put n n = n"
begin

definition upsert :: "'r \<Rightarrow> 'r list \<Rightarrow> 'r list" where
  "upsert n rs = (if key n \<in> key ` set rs then table_update key put n rs else rs @ [n])"

definition settled :: "'r \<Rightarrow> 'r list \<Rightarrow> bool" where
  "settled n rs \<longleftrightarrow> key n \<in> key ` set rs \<and> (\<forall>r\<in>set rs. key r = key n \<longrightarrow> put n r = r)"

lemma settled_upsert: "settled n rs \<Longrightarrow> upsert n rs = rs"
  by (auto simp: settled_def upsert_def table_update_def intro: map_idI)

lemma upsert_settles: "settled n (upsert n rs)"
proof (cases "key n \<in> key ` set rs")
  case True
  then have "key ` set (table_update key put n rs) = key ` set rs" by (metis list.set_map update_keys)
  moreover have "put n r = r" if "r \<in> set (table_update key put n rs)" "key r = key n" for r
    using that key_put by (auto simp: table_update_def put_put split: if_splits)
  ultimately show ?thesis using True by (simp add: settled_def upsert_def)
next
  case False
  then have "\<And>r. r \<in> set rs \<Longrightarrow> key r \<noteq> key n" by (metis imageI)
  with False show ?thesis by (auto simp: settled_def upsert_def put_self)
qed

lemma upsert_keeps_settled:
  assumes "settled n rs" and "key m \<noteq> key n"
  shows "settled n (upsert m rs)"
proof (cases "key m \<in> key ` set rs")
  case True
  then have "key ` set (table_update key put m rs) = key ` set rs" by (metis list.set_map update_keys)
  moreover have "put n r = r" if r: "r \<in> set (table_update key put m rs)" "key r = key n" for r
  proof -
    from r(1) obtain s where s: "s \<in> set rs" "r = (if key s = key m then put m s else s)" by (auto simp: table_update_def)
    with r(2) assms(2) key_put [of m s] have "r = s" by (auto split: if_splits)
    with s(1) r(2) assms(1) show ?thesis by (simp add: settled_def)
  qed
  ultimately show ?thesis using True assms(1) by (simp add: settled_def upsert_def)
next
  case False
  with assms show ?thesis by (auto simp: settled_def upsert_def)
qed

lemma batch_settles: "distinct (map key ns) \<Longrightarrow> n \<in> set ns \<Longrightarrow> settled n (fold upsert ns rs)"
proof (induction ns rule: rev_induct)
  case (snoc m ns)
  then show ?case by (cases "n = m") (auto simp: upsert_settles intro: upsert_keeps_settled)
qed simp

lemma batch_again:
  assumes "distinct (map key ns)"
  shows "fold upsert ns (fold upsert ns rs) = fold upsert ns rs"
proof -
  have "fold upsert ms qs = qs" if "\<forall>n\<in>set ms. settled n qs" for ms qs
    using that by (induction ms) (auto simp: settled_upsert)
  with batch_settles [OF assms] show ?thesis by blast
qed

end

interpretation traces: upsert_table ct_IdempotencyKey trace_put
  by unfold_locales (simp_all add: trace_put_def)

lemma upsert_row_eq: "upsert_row = traces.upsert"
  by (simp add: fun_eq_iff upsert_row_def traces.upsert_def)

subsection \<open>What a record leaves\<close>

lemma trace_keys_distinct:
  assumes "inj digest"
  shows "distinct (map ct_IdempotencyKey (traces_of e digest rc))"
proof -
  have "inj_on (\<lambda>i. buildIdempotencyKey digest rc (f i) i) A" for f A
    by (rule inj_onI) (simp add: buildIdempotencyKey_def inj_eq [OF assms])
  then show ?thesis by (simp add: traces_of_def Let_def comp_def buildTaskCostTrace_def distinct_map)
qed

lemma upserts:
  assumes "each (Upsert e) ts db = (None, db')"
  shows "cd_traces db' = fold upsert_row ts (cd_traces db)" and "contents (cd_store db') = contents (cd_store db)"
proof -
  show "cd_traces db' = fold upsert_row ts (cd_traces db)"
    by (rule each_fold [OF assms]) (auto simp: Upsert_def Let_def split: option.splits)
  have "contents (cd_store db') = fold (\<lambda>_ x. x) ts (contents (cd_store db))"
    by (rule each_fold [OF assms, where g = "\<lambda>db. contents (cd_store db)"]) (auto simp: Upsert_def Let_def split: option.splits)
  also have "\<dots> = contents (cd_store db)" by (induction ts) simp_all
  finally show "contents (cd_store db') = contents (cd_store db)" .
qed

definition total_is :: "int \<Rightarrow> rat \<Rightarrow> store \<Rightarrow> bool" where
  "total_is i q st \<longleftrightarrow> (\<exists>r\<in>set (st_tasks st). task_id r = i \<and> EstimatedCostTotal r = q \<and> CostStatus r = ''estimated'')"

lemma refresh_effect:
  assumes "refresh_summary e i q db = (None, db')"
  shows "cd_traces db' = cd_traces db" and "total_is i q (cd_store db')"
    and "j \<noteq> i \<Longrightarrow> total_is j p (cd_store db) \<Longrightarrow> total_is j p (cd_store db')"
proof -
  from assms obtain t where t: "GetByID i (cd_store db) = Inr t"
    and st: "task_Update e (estimated q t) (cd_store db) = (None, cd_store db')" and tr: "cd_traces db' = cd_traces db"
    by (auto simp: refresh_summary_def split: sum.splits prod.splits)
  have id: "task_id (estimated q t) = i" using GetByID_Inr [OF t] by (auto simp: estimated_def loaded_def)
  have rows: "st_tasks (cd_store db') = table_update task_id task_put (estimated q t) (st_tasks (cd_store db))"
    using db_write_ok [OF st [unfolded task_Update_def]] by simp
  from GetByID_Inr [OF t] obtain r where r: "r \<in> set (st_tasks (cd_store db))" "task_id r = i" by blast
  have "task_put (estimated q t) r \<in> set (st_tasks (cd_store db'))"
    using r id unfolding rows table_update_def by force
  moreover have "EstimatedCostTotal (task_put (estimated q t) r) = q" "CostStatus (task_put (estimated q t) r) = ''estimated''"
    "task_id (task_put (estimated q t) r) = i" using id by (simp_all add: task_put_def estimated_def)
  ultimately show "total_is i q (cd_store db')" unfolding total_is_def by blast
  show "cd_traces db' = cd_traces db" by (rule tr)
  assume "j \<noteq> i" "total_is j p (cd_store db)"
  then obtain s where "s \<in> set (st_tasks (cd_store db))" "task_id s = j" "EstimatedCostTotal s = p" "CostStatus s = ''estimated''"
    by (auto simp: total_is_def)
  with \<open>j \<noteq> i\<close> id show "total_is j p (cd_store db')" unfolding total_is_def rows table_update_def by force
qed

subsection \<open>Properties\<close>

text \<open>
  C27. A node's cost is counted once, however often it is recorded. With a digest that does not
  collide: after a successful record the totals of the task and of its root are the sums of
  their traces, and recording the same success again leaves the traces as they are.
\<close>

theorem cost_counted_once:
  assumes "inj digest" and "DefaultRecorder_record e (rc_UsageFacts rc) \<noteq> []" and "RecordNodeSuccess e digest rc db = (None, db1)"
    and "0 < rc_TaskID rc" and "0 < rc_RootTaskID rc"
  shows "total_is (rc_RootTaskID rc) (SumEstimatedCostByRootTaskID (rc_RootTaskID rc) (cd_traces db1)) (cd_store db1)
    \<and> (rc_TaskID rc \<noteq> rc_RootTaskID rc \<longrightarrow> total_is (rc_TaskID rc) (SumEstimatedCostByTaskID (rc_TaskID rc) (cd_traces db1)) (cd_store db1))
    \<and> (\<forall>db2. RecordNodeSuccess e digest rc db1 = (None, db2) \<longrightarrow> cd_traces db2 = cd_traces db1)"
proof -
  have eff: "cd_traces y = fold upsert_row (traces_of e digest rc) (cd_traces x)
      \<and> total_is (rc_RootTaskID rc) (SumEstimatedCostByRootTaskID (rc_RootTaskID rc) (cd_traces y)) (cd_store y)
      \<and> (rc_TaskID rc \<noteq> rc_RootTaskID rc \<longrightarrow> total_is (rc_TaskID rc) (SumEstimatedCostByTaskID (rc_TaskID rc) (cd_traces y)) (cd_store y))"
    if "RecordNodeSuccess e digest rc x = (None, y)" for x y
  proof -
    from that assms(2,4,5) obtain a b where a: "each (Upsert e) (traces_of e digest rc) x = (None, a)"
      and b: "(if rc_TaskID rc \<noteq> rc_RootTaskID rc then refreshTaskSummary e (rc_TaskID rc) a else (None, a)) = (None, b)"
      and y: "refreshRootTaskSummary e (rc_RootTaskID rc) b = (None, y)" by (auto simp: RecordNodeSuccess_def)
    note root = refresh_effect [OF y [unfolded refreshRootTaskSummary_def]]
    show ?thesis
    proof (cases "rc_TaskID rc = rc_RootTaskID rc")
      case True
      with b upserts(1) [OF a] root show ?thesis by simp
    next
      case False
      with b have "refreshTaskSummary e (rc_TaskID rc) a = (None, b)" by simp
      note tk = refresh_effect [OF this [unfolded refreshTaskSummary_def]]
      from tk(1,2) root(1) root(3) [OF False tk(2)] root(2) upserts(1) [OF a] show ?thesis by simp
    qed
  qed
  have "distinct (map ct_IdempotencyKey (traces_of e digest rc))" by (rule trace_keys_distinct [OF assms(1)])
  from traces.batch_again [OF this] eff [OF assms(3)] eff show ?thesis by (auto simp: upsert_row_eq)
qed

definition sample_cost_db :: "key_fields cost_db" where
  "sample_cost_db = \<lparr>cd_store = scan_store TaskRunning 0, cd_traces = []\<rparr>"

definition sample_record :: record_ctx where
  "sample_record = \<lparr>rc_NodeRuntimeID = 10, rc_TaskID = 1, rc_RootTaskID = 2, rc_WorkflowName = ''w'', rc_NodeName = ''a'',
     rc_NodeType = ''tool'', rc_StepName = ''s'', rc_OutputHash = ''h'',
     rc_UsageFacts = [[(''resource_type'', VStr ''llm''), (''provider'', VStr ''p''), (''usage_unit'', VStr ''token''),
        (''usage_quantity'', VInt 7), (''billable'', VBool True), (''estimated_cost'', VInt 3)]]\<rparr>"

theorem cost_counted_once_witness:
  "\<exists>db1. RecordNodeSuccess (sample_env True) id sample_record sample_cost_db = (None, db1)
     \<and> total_is 2 (SumEstimatedCostByRootTaskID 2 (cd_traces db1)) (cd_store db1)"
proof -
  have f: "DefaultRecorder_record (sample_env True) (rc_UsageFacts sample_record) \<noteq> []" by code_simp
  have "fst (RecordNodeSuccess (sample_env True) id sample_record sample_cost_db) = None" by code_simp
  then obtain db1 where r: "RecordNodeSuccess (sample_env True) id sample_record sample_cost_db = (None, db1)" by (metis prod.collapse)
  from cost_counted_once [OF inj_on_id f r] r show ?thesis by (auto simp: sample_record_def)
qed

text \<open>
  The totals do not last: whoever holds the task in memory since before the record, as the engine
  does during a run, writes its old total back with the next update of the row.
\<close>

lemma stale_update_loses_cost:
  assumes "\<forall>k. db_err e k = None" and "r \<in> set (st_tasks st)" and "task_id t = task_id r"
  shows "\<exists>r'\<in>set (st_tasks (snd (task_Update e t st))). task_id r' = task_id r \<and> EstimatedCostTotal r' = EstimatedCostTotal t"
  using assms by (intro bexI [of _ "task_put t r"]) (auto simp: task_Update_def db_write_def table_update_def task_put_def)

end
