(* ===== verification/Spec2Isabelle.thy ===== *)
theory Spec2Isabelle
  imports Flux_Ids Flux_Poll Flux_Replay Flux_Versions Flux_Cost
begin

text \<open>
  Verification of the workflow engine.

  \<^bold>\<open>The program.\<close> A workflow definition is a graph of nodes (tools, subworkflows, maps, loops,
  waiting points) joined by edges that may carry a condition or a case key. A registry stores
  definitions as versions; a builder checks and compiles them; a worker claims a task and the engine
  runs it node by node, persisting a row per node. Long operations suspend the task; external
  events, ended child tasks, polls or a restart of the process resume it. A recovery
  scanner and requests by hand prepare failed tasks for another run. A finished task can be
  forked (results of unchanged nodes are taken over, patches are applied, the rest runs
  again), replayed from its rows, or canceled with its descendants.

  \<^bold>\<open>Theories and sources.\<close> Foundations:

  \<^item> \<open>Flux_Prelude\<close>: executions that may panic, dynamic values, edge keys, Go strings.
  \<^item> \<open>Flux_Domain\<close> (\<^verbatim>\<open>domain/\<close>): statuses with their transition tables, the rows of tasks, nodes
    and await bindings. The locales \<open>status_machine\<close> and \<open>ranked_status_machine\<close> state what a
    table promises and are interpreted on the three tables.
  \<^item> \<open>Flux_Graph\<close> (\<^verbatim>\<open>engine/graph\<close>): building a graph, cycle detection, topological order, for
    every order in which Go may visit a map; their contract is \<open>dag_toolkit\<close>.
  \<^item> \<open>Flux_Ids\<close> (\<^verbatim>\<open>utils/uuid\<close>): checksums (\<open>crc_division\<close>) and the permutation of keys (\<open>key_box\<close>).
  \<^item> \<open>Flux_Samples\<close>: concrete workflows at which the general theorems are instantiated.

  A run of a task:

  \<^item> \<open>Flux_Context\<close> (\<^verbatim>\<open>workflow/nodes/context.go\<close>): the run context \<open>run_ctx\<close> and its operations.
  \<^item> \<open>Flux_Edge_State\<close> (\<^verbatim>\<open>engine/edge_state.go\<close>, the join functions of \<^verbatim>\<open>engine.go\<close>).
  \<^item> \<open>Flux_Executor\<close> (\<^verbatim>\<open>engine/engine.go\<close>, \<^verbatim>\<open>executor.go\<close>): transitions, edge computation,
    finalisation, closures that skip dead subgraphs (\<open>node_skipper\<close>, for the three ways to skip).
  \<^item> \<open>Flux_Await\<close>, \<open>Flux_Subworkflow\<close>: await bindings with their compare-and-set, suspension at
    await nodes, child tasks by key.
  \<^item> \<open>Flux_Run\<close>, \<open>Flux_Scheduler\<close>: input of a node, retries, asynchronous jobs, task status,
    \<^verbatim>\<open>runDAG\<close>; the invariant \<open>sched\<close> under which a pass over the order finishes every node. What the
    pass needs of the executor is the locale \<open>node_executor\<close>.
  \<^item> \<open>Flux_Recovery\<close> (\<^verbatim>\<open>loadOrInitRuntime\<close>, \<^verbatim>\<open>rebuildActivatedEdges\<close>, \<^verbatim>\<open>RunWithResult\<close>).
  \<^item> \<open>Flux_Builder\<close> (\<^verbatim>\<open>workflow/builder.go\<close>, the node registry, schemas and factories).
  \<^item> \<open>Flux_Fanout\<close>, \<open>Flux_Map_Step\<close>, \<open>Flux_Loop_Step\<close> (\<^verbatim>\<open>workflow/nodes\<close>): the map step, which
    keeps a bounded number of children active, and the loop step, which runs them one by one;
    their checkpoints as a store in which the first result of an item stays
    (\<open>first_wins_store\<close>).

  Services around a run:

  \<^item> \<open>Flux_Paths\<close>, \<open>Flux_Fork\<close>, \<open>Flux_Redo\<close>: patch paths (\<open>path_store\<close>), resume requests, the run plan
    of a fork and its materialisation, the request that creates a fork, the preview of its plan.
  \<^item> \<open>Flux_Store\<close> (\<^verbatim>\<open>repository/query\<close>): the tables of all tasks, nodes and bindings; \<open>keyed_table\<close> is the
    contract of an update by key.
  \<^item> \<open>Flux_Cancel\<close>, \<open>Flux_Retry\<close>, \<open>Flux_Scanner\<close> (\<^verbatim>\<open>engine/run_cancellation.go\<close>, \<^verbatim>\<open>task_retry.go\<close>,
    \<^verbatim>\<open>worker/recovery_scanner.go\<close>): operations on a task with its descendants. What a
    property must promise to survive every write of a retry or a scan is stated in
    \<open>retry_write_invariant\<close> and \<open>scan_write_invariant\<close>.
  \<^item> \<open>Flux_Resume\<close>, \<open>Flux_Listener\<close>, \<open>Flux_Poll\<close> (\<^verbatim>\<open>engine/await_complete.go\<close>, \<^verbatim>\<open>resume.go\<close>,
    \<^verbatim>\<open>event_listen.go\<close>, \<^verbatim>\<open>subworkflow_reconcile.go\<close>, \<^verbatim>\<open>worker/await_poll_worker.go\<close>): the ways by
    which a suspended task goes on.
  \<^item> \<open>Flux_Channels\<close>, \<open>Flux_Worker\<close>: event bus and queues in memory (\<open>bounded_fifo\<close>), claiming and running
    tasks, asynchronous jobs.
  \<^item> \<open>Flux_Versions\<close> (\<^verbatim>\<open>registry\<close>, \<^verbatim>\<open>definition\<close>): stored versions of definitions and their hash;
    \<open>slice_sort\<close> is what \<^verbatim>\<open>sort.Slice\<close> promises.
  \<^item> \<open>Flux_Cost\<close>, \<open>Flux_Replay\<close> (\<^verbatim>\<open>cost\<close>, \<^verbatim>\<open>engine/replay_engine.go\<close>, \<^verbatim>\<open>node_replay.go\<close>): cost traces with their totals
    (\<open>upsert_table\<close> extends \<open>keyed_table\<close>), replay of finished tasks.

  \<^bold>\<open>How state and effects are modelled.\<close> The run context carries the in-memory state and the
  database rows of its task; every operation takes and returns it. Operations on several
  tasks work on the tables of \<open>Flux_Store\<close>. A Go \<^verbatim>\<open>error\<close> is a value, a panic is \<open>Panic\<close>. The \<open>k\<close>-th
  database write fails if \<open>db_err e k\<close> says so; reads do not fail except by not
  finding a row. Go maps are finite maps or association lists; where the visiting order of
  a map can matter, the order is an argument and the theorems quantify over it. Unique
  indexes of the database are keys of a map (\<open>sub_key\<close> of a child, node and task of a binding).
  Strings are ASCII; \<open>VInt\<close> is Go's \<^verbatim>\<open>int\<close>; error texts are abbreviated. Heartbeats, log output and the
  timestamps \<^verbatim>\<open>CheckpointedAt\<close> and \<^verbatim>\<open>LastHeartbeat\<close> are left out of a run. Documents are
  trees: the deep copies of the code ensure that no container is shared. Steps of different
  processes interleave as sequences of operations on the tables (claims of a task,
  compare-and-set on a binding, events for a node).

  \<^bold>\<open>Parameters.\<close> The record \<open>env\<close> holds what the engine calls but does not contain: the
  expression library, hashes of JSON documents, the steps, parsers of floats and durations,
  identifier generation, the clock, the recorder of costs, the outcome of database writes,
  the visiting order of the runtime map. Locks, tools, the digests of keys and definitions, the text of
  a JSON value, what a \<^verbatim>\<open>jsonb\<close> column makes of a text and the ids an event table gives out are
  arguments of the operations that use them. Hypotheses on them are only those a
  theorem states: a Go map is visited once per key (\<open>range_ok\<close>, \<open>visits\<close>), a
  digest does not collide (costs, definition hash, the keys of one loop run), ids increase.

  \<^bold>\<open>Fuel and loops.\<close> Cycle detection and the topological order recurse with a fuel equal to
  the number of nodes; that it is enough is part of \<open>DetectCycle_exact\<close> and
  \<open>TopoSort_orders_acyclic\<close>. The reachability search is a \<open>while\<close> loop whose termination is
  part of \<open>isReachable_iff\<close>. The loop of \<^verbatim>\<open>runDAG\<close> and the closures have a fuel above the
  number of nodes; \<open>runDAG_ends\<close> shows that it never runs out. \<open>cancelTaskTree\<close> uses one unit of fuel
  per level and marks visited tasks, so one unit per stored task is enough even for
  cyclic parents (\<open>superseded_family_shut\<close>). \<open>PrepareTaskRetry\<close> has no such mark: one unit
  per stored task is enough when the parents are acyclic, which \<open>scan_contained\<close> uses; on a cycle the
  code would not return.

  \<^bold>\<open>What is shown.\<close> Runs: accepted definitions compile and run to a result (names
  with the arrow of the edge keys excepted), also after a restart, a retry or as a
  fork; success means that no node failed and joins were respected; finalisation decides every
  edge. Waiting: a binding is completed at most once, an event closes its node and resumes
  the task, the end of a child closes or wakes the node of its parent, polling gives up after its
  attempts, an asynchronous job reports once, a task is claimed by one worker. Fan-out:
  results in item order, checkpoints that never lose a result, bounded parallelism, one
  child at a time in a loop. Forks: only what is unchanged is reused, everything behind the
  resume node runs again, the preview shows the plan, patches have exactly the effect of their
  path. Recovery: retries and scans touch only what they should, cancellation shuts the
  whole family. Records: versions, hashes, costs, events and replays are exact.

  \<^bold>\<open>Flaws.\<close> Where the code does not do what it means to, a theorem or lemma says so: a late
  event that locks a binding, a crash between output and edges, a patch that strands a fork, colliding
  keys of edges and children, a lost cancellation, retry limits that never apply, a canceled
  task that the scanner revives, cost totals that a stale update overwrites.

  \<^bold>\<open>Not modelled.\<close> The dirty plan that the run plan has replaced and nothing calls; the Redis
  drivers and the locks (their outcome is an argument); the goroutine loops, tickers,
  heartbeats and the log; the interfaces of tools; transfer objects, entities, options and
  the facade that wires the services and forwards to them; listing queries of the inspection
  interface.
\<close>

section \<open>Runs of the scheduler\<close>

text \<open>
  C1. A run always comes to an end of a known kind. From every schedulable context \<^verbatim>\<open>runDAG\<close>
  returns without a panic, whatever the steps, the expressions, the database errors and the
  map orders are, and one of three things has happened: the task could not be moved to
  running; the run stopped at a node that suspended the task or one of whose edge
  conditions could not be evaluated; or every node is terminal and the result is that of
  \<^verbatim>\<open>finishTask\<close>. The deadlock error of the scheduler is never among them, and nodes that
  were finished before keep their state.
\<close>

theorem runDAG_ends:
  assumes "wf_compiled w" and "sched (cw_graph w) c"
  shows "\<exists>r c'. runDAG e w c = Ret (r, c') \<and>
    ((\<exists>x. fst (transitionTaskStatus e TaskRunning c) = Some x \<and> r = run_failed (ts_message x))
     \<or> (stays c c' \<and> (\<exists>n\<in>set (cw_order w). stopped_at e (cw_graph w) n r c'))
     \<or> (stays c c' \<and> (\<forall>n\<in>set (cw_order w). ended c' n) \<and> (\<exists>c1. (r, c') = finish_run e c1 \<and> Runtime c1 = Runtime c')))"
proof -
  have ord: "set (cw_order w) = dom (gNodes (cw_graph w))"
    using assms(1) by (simp add: wf_compiled_def topo_order_def enumerates_def)
  from runDAG_cases [OF assms, of e] consider
    (task) x c' where "transitionTaskStatus e TaskRunning c = (Some x, c')"
      "runDAG e w c = Ret (run_failed (ts_message x), c')"
  | (stop) n r c' where "n \<in> set (cw_order w)" "runDAG e w c = Ret (r, c')" "stays c c'"
      "stopped_at e (cw_graph w) n r c'"
  | (finish) c1 where "runDAG e w c = Ret (finish_run e c1)" "stays c c1" "sched (cw_graph w) c1"
      "\<forall>n\<in>dom (Runtime c1). ended c1 n"
    by blast
  then show ?thesis
  proof cases
    case task
    then show ?thesis by auto
  next
    case stop
    then show ?thesis by blast
  next
    case finish
    obtain r c' where f: "finish_run e c1 = (r, c')" by force
    from finish_run_view [OF f] have v: "nstate c' = nstate c1" "Runtime c' = Runtime c1" by auto
    have "dom (Runtime c1) = dom (gNodes (cw_graph w))" using finish(3) by (simp add: sched_but_def ctx_ok_def)
    with finish v ord have "stays c c'" "\<forall>n\<in>set (cw_order w). ended c' n"
      by (auto simp: stays_def ended_def)
    with finish(1) f v show ?thesis by metis
  qed
qed

theorem runDAG_ends_witness:
  "\<exists>r c'. runDAG (sample_env True) diamond_workflow (fresh_ctx True) = Ret (r, c')"
  using runDAG_ends [OF _ fresh_sched [of True], of "sample_env True"] diamond_compiled
  by (auto simp: compiled_from_def)

text \<open>
  C2. What success means. If \<^verbatim>\<open>runDAG\<close>, started in a schedulable context, reports success then no node has failed, every node has
  ended, and the joins were respected: every successful node with parents has at least one
  successful parent, and all of its parents were successful or skipped, none failed,
  canceled or unfinished.
\<close>

theorem runDAG_success_sound:
  assumes "wf_compiled w" and "sched (cw_graph w) c" and "range_ok e (dom (gNodes (cw_graph w)))"
    and "runDAG e w c = Ret (r, c')" and "rr_Status r = RunSuccess"
  shows "(\<forall>n\<in>set (cw_order w). \<exists>s\<in>{NodeSuccess, NodeSkipped, NodeCanceled}. nstate c' n = Some s)
    \<and> (\<forall>n. nstate c' n = Some NodeSuccess \<longrightarrow> joined {} (cw_graph w) c' n)"
proof -
  have ord: "set (cw_order w) = dom (gNodes (cw_graph w))"
    using assms(1) by (simp add: wf_compiled_def topo_order_def enumerates_def)
  from runDAG_cases [OF assms(1,2), of e] assms(4,5) obtain c1 where
    f: "finish_run e c1 = (r, c')" and s: "sched (cw_graph w) c1" and d: "\<forall>n\<in>dom (Runtime c1). ended c1 n"
    by (auto simp: run_failed_def stopped_at_def)
  from finish_run_view [OF f] have v: "nstate c' = nstate c1" "Runtime c' = Runtime c1" by auto
  from s have dom: "dom (Runtime c1) = dom (gNodes (cw_graph w))" and j: "join_inv {} (cw_graph w) c1"
    by (auto simp: sched_but_def ctx_ok_def)
  with assms(3) have "set (range_rt e (Runtime c1)) = dom (Runtime c1)"
    by (simp add: range_ok_def enumerates_def)
  then have rl: "set (runtime_list e c1) = {rt. \<exists>n. Runtime c1 n = Some rt}"
    by (auto simp: runtime_list_def set_map_filter)
  have "find (\<lambda>r. State r = NodeFailed) (runtime_list e c1) = None"
    using f assms(5) by (auto simp: finish_run_def finishTask_def run_failed_def split: option.splits)
  with rl have nf: "State rt \<noteq> NodeFailed" if "Runtime c1 n = Some rt" for n rt
    using that by (auto simp: find_None_iff)
  have "\<exists>s\<in>{NodeSuccess, NodeSkipped, NodeCanceled}. nstate c1 n = Some s" if "n \<in> dom (Runtime c1)" for n
  proof -
    from that obtain rt where rt: "Runtime c1 n = Some rt" by blast
    from d that have "ended c1 n" by blast
    with rt have "isTerminal (State rt)" by (auto simp: ended_def nstate_def)
    with nf [OF rt] rt show ?thesis by (auto simp: isTerminal_def nstate_def)
  qed
  moreover have "joined {} (cw_graph w) c' n" if "nstate c' n = Some NodeSuccess" for n
    using j that v by (simp add: join_inv_def joined_def)
  ultimately show ?thesis using ord dom v by simp
qed

theorem runDAG_success_sound_witness:
  "\<exists>r c'. runDAG (sample_env True) solo_workflow solo_ctx = Ret (r, c') \<and> rr_Status r = RunSuccess
    \<and> (\<exists>s\<in>{NodeSuccess, NodeSkipped, NodeCanceled}. nstate c' ''a'' = Some s)"
proof -
  obtain r c' where run: "runDAG (sample_env True) solo_workflow solo_ctx = Ret (r, c')" "rr_Status r = RunSuccess"
    using solo_success by (auto split: exec.splits prod.splits)
  have "wf_compiled solo_workflow" using solo_compiled by (simp add: compiled_from_def)
  from runDAG_success_sound [OF this solo_sched solo_range_ok run] run show ?thesis
    by (auto simp: solo_workflow_def)
qed

section \<open>Finishing a node\<close>

text \<open>
  C32. A node that ran successfully decides all its edges. If every edge condition can be
  evaluated the node becomes successful and each outgoing edge carries the decision of its
  condition (or of its case key), in the context and in the node's row; otherwise the first
  error is reported and no node has changed. Nothing panics.
\<close>

theorem finalizeNode_decides_edges:
  assumes "ctx_ok dag c" and "nstate c n = Some s" and "isAllowed s NodeSuccess"
  shows "if \<forall>ed\<in>set (Edges dag n). \<exists>b. edge_decision e c n ed = Inr b
         then \<exists>c'. finalizeNode e n out None dag c = Ret (None, c') \<and> nstate c' = (nstate c)(n \<mapsto> NodeSuccess)
                \<and> node_closed dag n c' \<and> decided e c n (Edges dag n) (ActivatedEdges c')
         else \<exists>msg c'. finalizeNode e n out None dag c = Ret (Some msg, c') \<and> nstate c' = nstate c"
proof (cases "\<forall>ed\<in>set (Edges dag n). \<exists>b. edge_decision e c n ed = Inr b")
  case True
  with finalizeNode_success [OF assms, of e out] obtain c' where
    c': "finalizeNode e n out None dag c = Ret (None, c')" "ends_as dag n NodeSuccess c c'"
      "decided e c n (Edges dag n) (ActivatedEdges c')" by auto
  moreover have "node_closed dag n c'" using c'(2) by (simp add: ends_as_def)
  ultimately show ?thesis using True ends_as_nstate [OF c'(2)] by auto
next
  case False
  with finalizeNode_success [OF assms, of e out] obtain msg m where
    "finalizeNode e n out None dag c = Ret (Some msg, c\<lparr>ActivatedEdges := m\<rparr>)" by auto
  moreover have "nstate (c\<lparr>ActivatedEdges := m\<rparr>) = nstate c" by simp
  ultimately show ?thesis using False by metis
qed

theorem finalizeNode_decides_edges_witness:
  "\<exists>c'. finalizeNode (sample_env True) ''a'' None None (cw_graph solo_workflow) solo_running = Ret (None, c')
     \<and> nstate c' ''a'' = Some NodeSuccess"
proof -
  have "Edges (cw_graph solo_workflow) ''a'' = []"
    using compiled_from_facts(3) [OF solo_compiled] by (simp add: solo_def)
  with finalizeNode_decides_edges [OF solo_running_ok, of "''a''" NodeRunning "sample_env True" None]
  show ?thesis by (auto simp: solo_running_state)
qed

text \<open>
  C33. A failure ends the node and closes what depended on it: the failed node is failed, and the
  only other nodes that change are pending ones, which become skipped with all their edges
  decided. The traversal of the dead subgraph ends without a panic.
\<close>

theorem finalizeNode_failure_closes:
  assumes "ctx_ok dag c" and "nstate c n = Some s" and "isAllowed s NodeFailed"
  shows "\<exists>c'. finalizeNode e n out (Some msg) dag c = Ret (None, c') \<and> nstate c' n = Some NodeFailed
    \<and> (\<forall>m. m \<noteq> n \<longrightarrow> nstate c' m = nstate c m
          \<or> (nstate c m = Some NodePending \<and> nstate c' m = Some NodeSkipped \<and> node_closed dag m c'))"
proof -
  from finalizeNode_failure [OF assms, of e out msg] obtain c3 c4 where
    f: "finalizeNode e n out (Some msg) dag c = Ret (None, c4)" "ends_as dag n NodeFailed c c3" "only_skips dag c3 c4"
    by blast
  have n3: "nstate c3 = (nstate c)(n \<mapsto> NodeFailed)" using f(2) by (rule ends_as_nstate)
  have "nstate c4 m = nstate c3 m \<or> (nstate c3 m = Some NodePending \<and> nstate c4 m = Some NodeSkipped \<and> node_closed dag m c4)" for m
  proof (cases "Runtime c4 m = Runtime c3 m")
    case True
    then show ?thesis by (simp add: nstate_def)
  next
    case False
    with f(3) show ?thesis by (auto simp: only_skips_def)
  qed
  with f(1) n3 show ?thesis by (metis fun_upd_apply node_state.distinct(11) option.inject)
qed

theorem finalizeNode_failure_closes_witness:
  "\<exists>c'. finalizeNode (sample_env True) ''a'' None (Some ''down'') (cw_graph solo_workflow) solo_running = Ret (None, c')
     \<and> nstate c' ''a'' = Some NodeFailed"
  using finalizeNode_failure_closes [OF solo_running_ok, of "''a''" NodeRunning "sample_env True" None "''down''"]
  by (auto simp: solo_running_state)

section \<open>Starting and restarting\<close>

text \<open>
  What a fork relies on: if the parent run of a forked task is there, its rows belong to the
  workflow and the patched nodes had an output.
\<close>

definition fork_ready ::
  "compiled_workflow \<Rightarrow> (int \<Rightarrow> (task \<times> (name \<rightharpoonup> node_runtime)) option) \<Rightarrow> runtime_patch list \<Rightarrow> task \<Rightarrow> bool" where
  "fork_ready w db ps t \<longleftrightarrow> (case ForkedFrom t of None \<Rightarrow> True | Some pid \<Rightarrow>
     (case db pid of None \<Rightarrow> True | Some (_, rows) \<Rightarrow> forkable w rows ps))"

lemma run_returns:
  assumes "compiled_from def w" and "range_ok e (dom (gNodes (cw_graph w)))"
    and "recoverable w (dbNodes c)" and "fork_ready w db ps (Task c)"
  shows "\<exists>r c'. RunWithResult e (fork_planning e db ps w) def w c = Ret (r, c')"
proof -
  have w: "wf_compiled w" using assms(1) by (simp add: compiled_from_def)
  obtain x c1 where load: "loadOrInitRuntime e w (newRunContext def c) = (x, c1)" by force
  show ?thesis
  proof (cases x)
    case (Some m)
    with load show ?thesis by (simp add: RunWithResult_def)
  next
    case None
    with load restored_sched [OF assms(1-3)] have s: "sched (cw_graph w) (rebuildActivatedEdges e c1)" by blast
    have t: "Task c1 = Task c" using loadOrInitRuntime_task [OF load] by (simp add: newRunContext_def)
    show ?thesis
    proof (cases "ForkedFrom (Task c1)")
      case None
      with load \<open>x = None\<close> executeTask_returns [OF w s] show ?thesis by (auto simp: RunWithResult_def)
    next
      case fk: (Some pid)
      obtain y c2 where plan: "fork_planning e db ps w c1 = (y, c2)" by force
      show ?thesis
      proof (cases y)
        case (Some m)
        with load \<open>x = None\<close> fk plan show ?thesis by (simp add: RunWithResult_def)
      next
        case None
        with plan fk obtain pt rows where db: "db pid = Some (pt, rows)"
          by (auto simp: fork_planning_def LoadForkParentSnapshot_def Let_def split: option.splits)
        with assms(4) fk t have "forkable w rows ps" by (simp add: fork_ready_def)
        from fork_planning_sched [OF w assms(2) s fk, where db = db, OF db this] plan None obtain J where
          "sched_beyond J (cw_graph w) (rebuildActivatedEdges e c2)" by blast
        from executeTask_returns [OF w this] load \<open>x = None\<close> fk plan None show ?thesis
          by (auto simp: RunWithResult_def)
      qed
    qed
  qed
qed

text \<open>
  C5. A task starts, and restarts from any clean snapshot of its rows, in a schedulable
  context: loading the rows (or creating them), adding the nodes a changed definition has
  gained and rebuilding the edge flags yields a context to which the guarantees of a run
  apply. A first run is the case of no rows at all.
\<close>

theorem load_gives_schedulable:
  assumes "compiled_from def w" and "range_ok e (dom (gNodes (cw_graph w)))"
    and "recoverable w (dbNodes c)"
    and "loadOrInitRuntime e w (newRunContext def c) = (None, c1)"
  shows "sched (cw_graph w) (rebuildActivatedEdges e c1)"
  using assms by (rule restored_sched)

theorem load_gives_schedulable_witness:
  "sched diamond_graph (rebuildActivatedEdges (sample_env True)
     (snd (loadOrInitRuntime (sample_env True) diamond_workflow (newRunContext diamond sample_ctx))))"
  using load_gives_schedulable [OF diamond_compiled sample_range_ok _ sample_load [of True]]
  by (simp add: sample_ctx_def diamond_workflow_def)

text \<open>
  The whole of \<^verbatim>\<open>RunWithResult\<close>, for first runs, restarts and forks: from a clean snapshot of
  the task's rows it returns, for every behaviour of the steps and the database. For a
  fork this includes the planning against the parent run and the writing of the plan into
  the rows, provided that the patched nodes had an output in the parent run.
\<close>

lemma RunWithResult_returns:
  assumes "compiled_from def w" and "range_ok e (dom (gNodes (cw_graph w)))"
    and "recoverable w (dbNodes c)" and "fork_ready w db ps (Task c)"
  shows "\<exists>r c'. RunWithResult e (fork_planning e db ps w) def w c = Ret (r, c')"
  using assms by (rule run_returns)

lemma RunWithResult_returns_witness:
  "\<exists>r c'. RunWithResult (sample_env True)
     (fork_planning (sample_env True) (parent_db (Some [(''x'', VInt 1)])) [patch_a] chain2_workflow)
     chain2 chain2_workflow (fork_start (Some ''b'')) = Ret (r, c')"
proof (rule RunWithResult_returns [OF chain2_compiled chain2_range_ok])
  show "recoverable chain2_workflow (dbNodes (fork_start (Some ''b'')))" by (simp add: fork_start_def sample_ctx_def)
  show "fork_ready chain2_workflow (parent_db (Some [(''x'', VInt 1)])) [patch_a] (Task (fork_start (Some ''b'')))"
    by (auto simp: fork_ready_def fork_start_def fork_task_def parent_db_def forkable_def chain2_dom parent_rows_def
        patch_a_def sample_patch_def sample_rt_def)
qed

text \<open>
  C4. A retried task runs. When the rows of a failed task are a clean snapshot, no node behind a
  failed one has a result and no node name contains the arrow of the edge keys, a successful
  retry without resume node and patches leaves a clean snapshot again, and the run that a worker
  then starts on the rows in the database returns (for a fork: if the rows of its parent fit).
\<close>

theorem retried_task_runs:
  assumes "keys_ok st" and "acyclic (kid_rel st)" and "visits_keys sv" and "i \<noteq> 0"
    and "PrepareTaskRetry fuel sv i trigger [] [] st = Some (None, st')"
    and "r \<in> set (st_tasks st)" and "task_id r = i" and "rv_version sv (WorkflowVersionID r) = Inr def"
    and "load_workflow sv (WorkflowVersionID r) = Inr w"
    and "InitNodeRegistry tools = Ret (rv_registry sv)" and "\<forall>nd\<in>set (wf_Nodes def). \<not> has_arrow (nd_Name nd)"
    and "range_ok (rv_env sv) (nd_Name ` set (wf_Nodes def))"
    and "recoverable w (task_rows i st)"
    and "\<forall>n\<in>retry_part w i st. \<forall>x. row_at i n st = Some x \<longrightarrow> \<not> keeps_result x"
    and "dbNodes c = task_rows i st'" and "fork_ready w db ps (Task c)"
  shows "recoverable w (task_rows i st') \<and> (\<exists>x c'. RunWithResult (rv_env sv) (fork_planning (rv_env sv) db ps w) def w c = Ret (x, c'))"
proof (rule retry_effect [OF assms(1-5)])
  fix r1 w1
  assume r1: "r1 \<in> set (st_tasks st)" "task_id r1 = i" "load_workflow sv (WorkflowVersionID r1) = Inr w1"
    and rows: "\<forall>n. rel_option (row_retried w1 (retry_part w1 i st) n) (row_at i n st) (row_at i n st')"
  have "r1 = r" using assms(1,6,7) r1(1,2) by (auto simp: keys_ok_def distinct_map inj_on_def)
  then have w: "w1 = w" using r1(3) assms(9) by simp
  from load_workflow_graph [OF assms(3,9)] assms(8) have c: "compiled (rv_registry sv) def w" and g: "wf_graph (cw_graph w)" by auto
  have rec: "recoverable w (task_rows i st')" by (rule retry_recoverable [OF g assms(13) rows [unfolded w] assms(14)])
  have cf: "compiled_from def w" by (rule accepted_compiled_from [OF assms(10) c assms(11)])
  have "range_ok (rv_env sv) (dom (gNodes (cw_graph w)))" using assms(12) compiled_from_facts(2) [OF cf] by simp
  from run_returns [OF cf this _ assms(16)] rec show ?thesis by (simp add: assms(15))
qed

theorem retried_task_runs_witness:
  "\<exists>st' w x c'. PrepareTaskRetry 1 sample_services 1 RetryTriggerManual [] [] retry_store = Some (None, st')
     \<and> RunWithResult (sample_env True) (fork_planning (sample_env True) Map.empty [] w) solo w
         (sample_ctx\<lparr>dbNodes := task_rows 1 st'\<rparr>) = Ret (x, c')"
proof -
  obtain st' where run: "PrepareTaskRetry 1 sample_services 1 RetryTriggerManual [] [] retry_store = Some (None, st')"
    using retry_store_run by blast
  let ?r = "sample_row 1 None TaskFailed"
  obtain w nd where w: "load_workflow sample_services (WorkflowVersionID ?r) = Inr w" "wf_graph (cw_graph w)" "edge_rel (cw_graph w) = {}"
    "dom (gNodes (cw_graph w)) = {''a''}" by (rule sample_load_workflow)
  have r: "?r \<in> set (st_tasks retry_store)" by (simp add: retry_store_def)
  have rows: "row_at 1 n retry_store = (if n = ''a'' then Some (sample_nrow 10 1 ''a'' NodeFailed) else None)" for n
    by (simp add: row_at_def retry_store_def node_key_def)
  have "Edges (cw_graph w) n = []" for n using w(3) by (auto simp: edge_rel_def wf_graph_children [OF w(2)])
  then have rec: "recoverable w (task_rows 1 retry_store)"
    using w(4) by (simp add: recoverable_def task_rows_def plain_rows_def rows row_ok_def crashed_def restored_truncate rerun_unpersisted_def)
  have none: "\<forall>n\<in>retry_part w 1 retry_store. \<forall>x. row_at 1 n retry_store = Some x \<longrightarrow> \<not> keeps_result x" by (simp add: rows keeps_result_def)
  have rg: "range_ok (rv_env sample_services) (nd_Name ` set (wf_Nodes solo))"
    using solo_range_ok [of True] compiled_from_facts(2) [OF solo_compiled] by simp
  from retried_task_runs [OF retry_store_ok(1,2) sample_visits _ run r _ _ w(1) _ _ rg rec none,
      of Map.empty "sample_ctx\<lparr>dbNodes := task_rows 1 st'\<rparr>" Map.empty "[]"] sample_registry run
  show ?thesis
    by (auto simp: sample_services_def solo_def sample_node_def sample_ctx_def sample_task_def fork_ready_def)
qed

text \<open>
  C3. From definition to run: take a definition that the builder accepts with the built-in node
  types and any tools, and in which no node name contains the arrow of the edge keys. A
  first run of it, a restart from a clean snapshot of its rows, and a fork whose parent rows
  (if stored) belong to the workflow and give an output for the patched nodes, return, for
  every behaviour of the steps, the expressions and the database.
\<close>

theorem accepted_definition_runs:
  assumes "InitNodeRegistry tools = Ret reg" and "visits it1 def" and "visits it2 def"
    and "Builder_Build e reg it1 it2 def = Some (Ret (Inr w))"
    and "\<forall>nd\<in>set (wf_Nodes def). \<not> has_arrow (nd_Name nd)"
    and "range_ok e (nd_Name ` set (wf_Nodes def))"
    and "recoverable w (dbNodes c)" and "fork_ready w db ps (Task c)"
  shows "compiled_from def w \<and> (\<exists>r c'. RunWithResult e (fork_planning e db ps w) def w c = Ret (r, c'))"
proof -
  from Builder_Build_cases [OF assms(2,3), of e reg] assms(4) have "compiled reg def w" by auto
  with assms(1,5) have cf: "compiled_from def w" by (intro accepted_compiled_from)
  have "range_ok e (dom (gNodes (cw_graph w)))"
    using assms(6) compiled_from_facts(2) [OF cf] by simp
  from run_returns [OF cf this assms(7,8)] cf show ?thesis by blast
qed

theorem accepted_definition_runs_witness:
  "\<exists>w r c'. Builder_Build (sample_env True) sample_registry [''a''] [''a''] solo = Some (Ret (Inr w))
     \<and> RunWithResult (sample_env True) (fork_planning (sample_env True) Map.empty [] w) solo w sample_ctx = Ret (r, c')"
proof -
  obtain w where w: "Builder_Build (sample_env True) sample_registry [''a''] [''a''] solo = Some (Ret (Inr w))"
    using Builder_Build_cases [OF solo_visits solo_visits, of "sample_env True" sample_registry] solo_acceptable
    by auto
  have "nd_Name ` set (wf_Nodes solo) = dom (gNodes (cw_graph solo_workflow))"
    using compiled_from_facts(2) [OF solo_compiled] by simp
  with solo_range_ok have "range_ok (sample_env True) (nd_Name ` set (wf_Nodes solo))" by simp
  from accepted_definition_runs [OF sample_registry solo_visits solo_visits w _ this, of sample_ctx Map.empty "[]"] w
  show ?thesis
    by (simp add: solo_def sample_node_def sample_ctx_def sample_task_def fork_ready_def)
qed

text \<open>
  Why names with the arrow are left out: the builder accepts them, and two edges of different
  nodes then share one flag.
\<close>

lemma edge_keys_collide: "edge_key ''a->b'' ''c'' = edge_key ''a'' ''b->c''"
  by (simp add: edge_key_def)

text \<open>
  A crash between output and edges is not survived. When the process stops after a node
  has stored its output and before its edges are computed, the next run turns the running
  row into a successful one whose edges stay undecided: the child can neither run nor be
  skipped, and the run ends with the deadlock error although every step could succeed.
\<close>

lemma crash_after_output_deadlocks:
  "case RunWithResult (sample_env True) (\<lambda>c. (None, c)) chain2 chain2_workflow crash_ctx of
     Panic m \<Rightarrow> False
   | Ret (r, c) \<Rightarrow> r = run_failed deadlock_msg \<and> nstate c ''a'' = Some NodeSuccess
                  \<and> nstate c ''b'' = Some NodePending"
  by code_simp

definition stranded :: "go_error option \<times> go_error option \<times> run_ctx" where
  "stranded =
     (case loadOrInitRuntime (sample_env True) chain2_workflow (newRunContext chain2 (fork_start (Some ''b''))) of
        (r1, c1) \<Rightarrow>
          (case fork_planning (sample_env True) (parent_db None) [patch_a] chain2_workflow c1 of
             (r2, c2) \<Rightarrow> (r1, r2, rebuildActivatedEdges (sample_env True) c2)))"

text \<open>
  A patch can strand a fork. If the patched node had no output in the parent run, its edges
  are not taken over: after the planning the fork's row is successful with its edges
  undecided, and the child, which is to be run again, can neither run nor be skipped.
\<close>

lemma patched_without_output_strands:
  "case stranded of (r1, r2, c) \<Rightarrow> r1 = None \<and> r2 = None
     \<and> nstate c ''a'' = Some NodeSuccess \<and> nstate c ''b'' = Some NodePending
     \<and> \<not> depsMet c ''b'' (cw_graph chain2_workflow) \<and> \<not> shouldSkipNode c ''b'' (cw_graph chain2_workflow)"
  by code_simp

end
